(* ===== verification/Prelude.thy ===== *)
theory Prelude
  imports Main "HOL-Library.Word"
begin

text \<open>
  Shared ground of the development: the machine types of the C sources, size_t arithmetic with
  its wrap-around, the byte order functions of \<^verbatim>\<open>crypto/internal.h\<close> (loads, stores, byte swaps,
  rotations) and the lemmas on words and byte strings that the component theories use.  The
  collections \<open>word_arith\<close> (words read as numbers) and \<open>byte_order\<close> (byte strings against numbers)
  are filled here and passed to \<open>simp\<close> by the components.
\<close>

unbundle bit_operations_syntax

type_synonym u8 = "8 word"
type_synonym u16 = "16 word"
type_synonym u32 = "32 word"
type_synonym u64 = "64 word"
type_synonym bytes = "u8 list"

named_theorems word_arith "words read as numbers"
named_theorems byte_order "byte strings against the numbers they denote"

section \<open>Sizes\<close>

text \<open>
  \<open>size_t\<close> is 64 bits wide.  Sizes are natural numbers below \<open>2 ^ 64\<close>; the sums and products that
  the code checks for overflow are taken modulo \<open>2 ^ 64\<close>.
\<close>

abbreviation size_bound :: nat where
  "size_bound \<equiv> 18446744073709551616"

abbreviation INT_MAX :: nat where
  "INT_MAX \<equiv> 2147483647"

definition size_add :: "nat \<Rightarrow> nat \<Rightarrow> nat" where
  "size_add a b = (a + b) mod size_bound"

definition size_mul :: "nat \<Rightarrow> nat \<Rightarrow> nat" where
  "size_mul a b = (a * b) mod size_bound"

lemma size_add_exact [simp]: "a + b < size_bound \<Longrightarrow> size_add a b = a + b"
  by (simp add: size_add_def)

lemma size_add_overflow:
  assumes "a < size_bound" "b < size_bound"
  shows "size_add a b < a \<longleftrightarrow> size_bound \<le> a + b"
proof (cases "a + b < size_bound")
  case False
  then have "size_add a b = a + b - size_bound"
    using assms by (simp add: size_add_def mod_if)
  with False assms show ?thesis by auto
qed simp

lemma size_mul_exact [simp]: "a * b < size_bound \<Longrightarrow> size_mul a b = a * b"
  by (simp add: size_mul_def)

section \<open>Words read as numbers\<close>

lemma unat_ucast_mod: "unat (ucast (w :: 'a::len word) :: 'b::len word) = unat w mod 2 ^ LENGTH('b)"
  by (simp add: unsigned_ucast_eq take_bit_eq_mod)

lemma unat_ucast_up [word_arith]:
  "LENGTH('a) \<le> LENGTH('b) \<Longrightarrow> unat (ucast (w :: 'a::len word) :: 'b::len word) = unat w"
  by (metis order_less_le_trans power_increasing_iff one_less_numeral_iff semiring_norm(76)
      take_bit_nat_eq_self unsigned_less unsigned_ucast_eq)

lemma unat_push_bit: "unat (push_bit n (w :: 'a::len word)) = (unat w * 2 ^ n) mod 2 ^ LENGTH('a)"
proof -
  have "unat (push_bit n w) = take_bit LENGTH('a) (push_bit n (unat w))"
    by (rule unsigned_push_bit_eq)
  then show ?thesis by (simp only: push_bit_nat_def take_bit_nat_def)
qed

lemma unat_drop_bit [word_arith]: "unat (drop_bit n (w :: 'a::len word)) = unat w div 2 ^ n"
  by (metis unat_drop_bit_eq drop_bit_eq_div)

lemma unat_and_mask: "unat ((w :: 'a::len word) AND mask n) = unat w mod 2 ^ n"
  by (simp add: unsigned_take_bit_eq flip: take_bit_eq_mask take_bit_eq_mod)

lemma byte_lt [simp]: "unat (b :: u8) < 256"
  using unsigned_less [of b, where 'a = nat] by simp

lemma byte_le [simp]: "unat (b :: u8) \<le> 255"
  using byte_lt [of b] by linarith

lemma word_or_disjoint: "(x :: 'a::len word) AND y = 0 \<Longrightarrow> x OR y = x + y"
  using word_plus_and_or [of x y] by simp

lemma word_or_eq_0 [simp]: "(x :: 'a::len word) OR y = 0 \<longleftrightarrow> x = 0 \<and> y = 0"
  by (auto simp: bit_eq_iff bit_or_iff)

lemma word_xor_eq_0 [simp]: "(x :: 'a::len word) XOR y = 0 \<longleftrightarrow> x = y"
proof -
  have "x = (x XOR y) XOR y" by (simp add: xor.assoc)
  then show ?thesis by auto
qed

text \<open>A value shifted left by \<open>n\<close> and a value below \<open>2 ^ n\<close> have no bit in common.\<close>

lemma shift_or_plus:
  assumes "unat (v :: 'a::len word) < 2 ^ n"
  shows "push_bit n w OR v = push_bit n w + v"
proof (rule word_or_disjoint, rule bit_word_eqI)
  fix m assume "m < LENGTH('a)"
  have "take_bit n v = v"
    using assms by (metis take_bit_nat_eq_self unsigned_take_bit_eq unsigned_word_eqI)
  then have "bit v m \<longleftrightarrow> m < n \<and> bit v m"
    by (metis bit_take_bit_iff)
  then show "bit (push_bit n w AND v) m \<longleftrightarrow> bit (0 :: 'a word) m"
    by (auto simp: bit_simps)
qed


lemma word_top_bit_iff:
  assumes "LENGTH('a) = Suc n"
  shows "bit (w :: 'a::len word) n \<longleftrightarrow> 2 ^ n \<le> unat w"
proof -
  have "unat w < 2 * 2 ^ n" using unsigned_less [of w, where 'a = nat] assms by simp
  then have "unat w div 2 ^ n < 2"
    by (simp add: less_mult_imp_div_less)
  then have "unat w div 2 ^ n \<in> {0, 1}"
    by auto
  moreover have "bit w n \<longleftrightarrow> odd (unat w div 2 ^ n)"
    using bit_unsigned_iff [where 'a = nat, of w n] by (simp add: bit_iff_odd [of "unat w"])
  moreover have "unat w div 2 ^ n = 0 \<longleftrightarrow> unat w < 2 ^ n"
    by (simp add: div_eq_0_iff)
  ultimately show ?thesis by (auto simp: not_less)
qed

text \<open>Shifting a byte into an accumulator, as the big-endian loops of the sources do.\<close>

lemma unat_shift_or_byte:
  assumes "8 \<le> LENGTH('a)"
  shows "unat (push_bit 8 (w :: 'a::len word) OR ucast (b :: u8))
    = (unat w * 256 + unat b) mod 2 ^ LENGTH('a)"
proof -
  have b: "unat (ucast b :: 'a word) = unat b"
    using assms by (simp add: unat_ucast_up)
  have "push_bit 8 w OR ucast b = push_bit 8 w + ucast b"
    by (rule shift_or_plus) (use b byte_lt [of b] in simp)
  then show ?thesis
    by (simp add: unat_word_ariths unat_push_bit b mod_add_left_eq)
qed

lemma shift_zero_iff:
  "drop_bit n (w :: 'a::len word) = 0 \<longleftrightarrow> unat w < 2 ^ n"
  by (metis div_eq_0_iff power_not_zero unat_drop_bit unat_0_iff zero_neq_numeral)

lemma byte_exhaust_nat: "n < 256 \<Longrightarrow> unat (word_of_nat n :: u8) = n"
  by (simp add: unat_of_nat)

lemma pow256_shift: "(2 :: nat) ^ (n * 8) = 256 ^ n"
  by (simp add: power_mult mult.commute [of n])

lemma pow256_le: "8 * n \<le> m \<Longrightarrow> (256 :: nat) ^ n \<le> 2 ^ m"
proof -
  assume "8 * n \<le> m"
  then have "(2 :: nat) ^ (8 * n) \<le> 2 ^ m" by simp
  then show ?thesis by (simp add: power_mult)
qed

lemma pow256_le_size: "n \<le> 8 \<Longrightarrow> (256 :: nat) ^ n \<le> size_bound"
  using pow256_le [of n 64] by simp

section \<open>Byte strings and numbers\<close>

text \<open>
  The \<open>n\<close> low-order bytes of a number, least significant first, and the number a byte string
  denotes; the big-endian forms are the same on the reversed string.
\<close>

fun le_bytes :: "nat \<Rightarrow> nat \<Rightarrow> bytes" where
  "le_bytes 0 v = []"
| "le_bytes (Suc n) v = word_of_nat (v mod 256) # le_bytes n (v div 256)"

fun le_val :: "bytes \<Rightarrow> nat" where
  "le_val [] = 0"
| "le_val (b # bs) = unat b + 256 * le_val bs"

definition be_bytes :: "nat \<Rightarrow> nat \<Rightarrow> bytes" where
  "be_bytes n v = rev (le_bytes n v)"

definition be_val :: "bytes \<Rightarrow> nat" where
  "be_val bs = le_val (rev bs)"

lemma length_le_bytes [simp]: "length (le_bytes n v) = n"
  by (induction n arbitrary: v) auto

lemma length_be_bytes [simp]: "length (be_bytes n v) = n"
  by (simp add: be_bytes_def)

lemma le_val_le_bytes [byte_order]: "le_val (le_bytes n v) = v mod 256 ^ n"
proof (induction n arbitrary: v)
  case (Suc n)
  have "v mod (256 * 256 ^ n) = v mod 256 + 256 * (v div 256 mod 256 ^ n)"
    by (simp add: mod_mult2_eq)
  with Suc show ?case by (simp add: unat_of_nat)
qed simp

lemma le_val_bound: "le_val bs < 256 ^ length bs"
proof (induction bs)
  case (Cons b bs)
  have "256 * le_val bs + 256 \<le> 256 * 256 ^ length bs"
    using Cons by simp
  then show ?case using byte_lt [of b] unfolding le_val.simps length_Cons power_Suc by linarith
qed simp

lemma le_bytes_le_val [byte_order]: "le_bytes (length bs) (le_val bs) = bs"
  by (induction bs) (simp_all add: word_unat_eq_iff unat_of_nat)

lemma le_val_append: "le_val (xs @ ys) = le_val xs + 256 ^ length xs * le_val ys"
  by (induction xs) (simp_all add: algebra_simps)

lemma be_val_be_bytes [byte_order]: "be_val (be_bytes n v) = v mod 256 ^ n"
  by (simp add: be_val_def be_bytes_def byte_order)

lemma be_bytes_be_val [byte_order]: "be_bytes (length bs) (be_val bs) = bs"
  using le_bytes_le_val [of "rev bs"] by (simp add: be_val_def be_bytes_def)

lemma be_val_bound: "be_val bs < 256 ^ length bs"
  using le_val_bound [of "rev bs"] by (simp add: be_val_def)

lemma be_val_Nil [simp]: "be_val [] = 0"
  by (simp add: be_val_def)

lemma be_val_append: "be_val (xs @ ys) = be_val xs * 256 ^ length ys + be_val ys"
  by (simp add: be_val_def le_val_append)

lemma be_val_snoc [simp]: "be_val (xs @ [b]) = be_val xs * 256 + unat b"
  by (simp add: be_val_def)

lemma be_val_Cons: "be_val (b # bs) = unat b * 256 ^ length bs + be_val bs"
  using be_val_append [of "[b]" bs] by (simp add: be_val_def)

lemma be_bytes_Suc: "be_bytes (Suc n) v = be_bytes n (v div 256) @ [word_of_nat (v mod 256)]"
  by (simp add: be_bytes_def)

lemma be_val_less: "length bs \<le> n \<Longrightarrow> be_val bs < 256 ^ n"
  by (rule order_less_le_trans [OF be_val_bound]) simp

end
