(* ===== verification/Crypto_Internal.thy ===== *)
theory Crypto_Internal
  imports Prelude
begin

text \<open>
  The inline helpers of \<^verbatim>\<open>crypto/internal.h\<close> that the modelled files call: constant-time masks and
  selection, byte swaps (the portable branch of the header), loads and stores (on the little-endian
  machines the pods target, where \<^verbatim>\<open>memcpy\<close> into an integer reads least significant byte first) and
  rotations.  \<open>crypto_word_t\<close> is the 64-bit word of the 64-bit build.
\<close>

type_synonym crypto_word_t = "64 word"

section \<open>Constant-time masks\<close>

definition CONSTTIME_TRUE_W :: crypto_word_t where "CONSTTIME_TRUE_W = NOT 0"
definition CONSTTIME_FALSE_W :: crypto_word_t where "CONSTTIME_FALSE_W = 0"

definition constant_time_msb_w :: "crypto_word_t \<Rightarrow> crypto_word_t" where
  "constant_time_msb_w a = 0 - drop_bit 63 a"

definition constant_time_lt_w :: "crypto_word_t \<Rightarrow> crypto_word_t \<Rightarrow> crypto_word_t" where
  "constant_time_lt_w a b = constant_time_msb_w (a XOR ((a XOR b) OR ((a - b) XOR a)))"

definition constant_time_lt_8 :: "crypto_word_t \<Rightarrow> crypto_word_t \<Rightarrow> u8" where
  "constant_time_lt_8 a b = ucast (constant_time_lt_w a b)"

definition constant_time_ge_w :: "crypto_word_t \<Rightarrow> crypto_word_t \<Rightarrow> crypto_word_t" where
  "constant_time_ge_w a b = NOT (constant_time_lt_w a b)"

definition constant_time_ge_8 :: "crypto_word_t \<Rightarrow> crypto_word_t \<Rightarrow> u8" where
  "constant_time_ge_8 a b = ucast (constant_time_ge_w a b)"

definition constant_time_is_zero_w :: "crypto_word_t \<Rightarrow> crypto_word_t" where
  "constant_time_is_zero_w a = constant_time_msb_w (NOT a AND (a - 1))"

definition constant_time_is_zero_8 :: "crypto_word_t \<Rightarrow> u8" where
  "constant_time_is_zero_8 a = ucast (constant_time_is_zero_w a)"

definition constant_time_eq_w :: "crypto_word_t \<Rightarrow> crypto_word_t \<Rightarrow> crypto_word_t" where
  "constant_time_eq_w a b = constant_time_is_zero_w (a XOR b)"

definition constant_time_eq_8 :: "crypto_word_t \<Rightarrow> crypto_word_t \<Rightarrow> u8" where
  "constant_time_eq_8 a b = ucast (constant_time_eq_w a b)"

definition constant_time_select_w ::
  "crypto_word_t \<Rightarrow> crypto_word_t \<Rightarrow> crypto_word_t \<Rightarrow> crypto_word_t" where
  "constant_time_select_w m a b = (m AND a) OR (NOT m AND b)"

definition constant_time_select_8 :: "crypto_word_t \<Rightarrow> u8 \<Rightarrow> u8 \<Rightarrow> u8" where
  "constant_time_select_8 w a b = (let m = ucast w :: u8 in (m AND a) OR (NOT m AND b))"

definition constant_time_conditional_memcpy :: "bytes \<Rightarrow> bytes \<Rightarrow> crypto_word_t \<Rightarrow> bytes" where
  "constant_time_conditional_memcpy dst src w
     = map2 (\<lambda>d s. constant_time_select_8 w s d) dst src"

text \<open>What a mask means: all bits set for true, none for false.\<close>

definition mask_w :: "bool \<Rightarrow> crypto_word_t" where
  "mask_w c = (if c then CONSTTIME_TRUE_W else CONSTTIME_FALSE_W)"

definition mask_8 :: "bool \<Rightarrow> u8" where
  "mask_8 c = (if c then NOT 0 else 0)"

named_theorems consttime "constant-time primitives as the conditions they compute"

lemma ucast_minus_1 [simp]: "ucast (- 1 :: u64) = (- 1 :: u8)" "ucast (- 1 :: u8) = (255 :: u64)"
  by (simp_all add: word_eq_iff_unsigned [where 'a = nat] unat_ucast_mod unsigned_minus_1_eq_mask
      mask_eq_exp_minus_1)

lemma ucast_mask_w [consttime]: "ucast (mask_w c) = mask_8 c"
  by (simp add: mask_w_def mask_8_def CONSTTIME_TRUE_W_def CONSTTIME_FALSE_W_def)

lemma bit_63_iff: "bit (w :: u64) 63 \<longleftrightarrow> 2 ^ 63 \<le> unat w"
  by (rule word_top_bit_iff) simp

lemma constant_time_msb_w_eq [consttime]: "constant_time_msb_w a = mask_w (bit a 63)"
proof -
  have "drop_bit 63 a = of_bool (bit a 63)"
  proof (rule bit_word_eqI)
    fix n assume "n < LENGTH(64)"
    show "bit (drop_bit 63 a) n \<longleftrightarrow> bit (of_bool (bit a 63) :: u64) n"
      using bit_imp_le_length [of a "63 + n"] by (cases n) (auto simp: bit_simps)
  qed
  then show ?thesis
    by (simp add: constant_time_msb_w_def mask_w_def CONSTTIME_TRUE_W_def CONSTTIME_FALSE_W_def)
qed

lemma constant_time_lt_w_eq [consttime]: "constant_time_lt_w a b = mask_w (a < b)"
proof -
  have "unat (a - b) = (if unat b \<le> unat a then unat a - unat b else unat a + 2 ^ 64 - unat b)"
    by (simp add: unat_sub_if')
  moreover have "unat a < 2 * 2 ^ 63" "unat b < 2 * 2 ^ 63"
    using unsigned_less [of a, where 'a = nat] unsigned_less [of b, where 'a = nat] by simp_all
  moreover have "bit (a XOR ((a XOR b) OR ((a - b) XOR a))) 63
      \<longleftrightarrow> bit a 63 \<noteq> (bit a 63 \<noteq> bit b 63 \<or> bit (a - b) 63 \<noteq> bit a 63)"
    by (simp add: bit_simps)
  ultimately have "bit (a XOR ((a XOR b) OR ((a - b) XOR a))) 63 \<longleftrightarrow> unat a < unat b"
    unfolding bit_63_iff by (auto split: if_splits)
  then show ?thesis
    by (simp add: constant_time_lt_w_def consttime word_less_nat_alt)
qed

lemma constant_time_is_zero_w_eq [consttime]: "constant_time_is_zero_w a = mask_w (a = 0)"
proof -
  have "bit (NOT a AND (a - 1)) 63 \<longleftrightarrow> a = 0"
  proof (cases "a = 0")
    case False
    then have "unat (a - 1) = unat a - 1" "0 < unat a"
      by (simp_all add: unat_minus_one unat_gt_0)
    moreover have "bit (NOT a AND (a - 1)) 63 \<longleftrightarrow> \<not> bit a 63 \<and> bit (a - 1) 63"
      by (simp add: bit_simps)
    ultimately show ?thesis unfolding bit_63_iff using False by auto
  qed (simp add: bit_simps)
  then show ?thesis by (simp add: constant_time_is_zero_w_def consttime)
qed

lemma constant_time_eq_w_eq [consttime]: "constant_time_eq_w a b = mask_w (a = b)"
  by (simp add: constant_time_eq_w_def consttime)

lemma constant_time_8_eq [consttime]:
  "constant_time_lt_8 a b = mask_8 (a < b)"
  "constant_time_eq_8 a b = mask_8 (a = b)"
  "constant_time_is_zero_8 a = mask_8 (a = 0)"
  by (simp_all add: constant_time_lt_8_def constant_time_eq_8_def constant_time_is_zero_8_def
      consttime)

lemma constant_time_ge_eq [consttime]:
  "constant_time_ge_w a b = mask_w (b \<le> a)" "constant_time_ge_8 a b = mask_8 (b \<le> a)"
proof -
  show ge: "constant_time_ge_w a b = mask_w (b \<le> a)"
    by (auto simp: constant_time_ge_w_def consttime mask_w_def CONSTTIME_TRUE_W_def
        CONSTTIME_FALSE_W_def)
  show "constant_time_ge_8 a b = mask_8 (b \<le> a)"
    by (simp add: constant_time_ge_8_def ge consttime)
qed

lemma constant_time_select_8_mask [consttime]:
  "constant_time_select_8 (mask_w c) a b = (if c then a else b)"
  "constant_time_select_8 (ucast (mask_8 c)) a b = (if c then a else b)"
proof -
  have "ucast (ucast (mask_8 c) :: u64) = mask_8 c" for c
    by (simp add: mask_8_def word_eq_iff_unsigned [where 'a = nat] unat_ucast_mod
        unsigned_minus_1_eq_mask mask_eq_exp_minus_1)
  then show "constant_time_select_8 (ucast (mask_8 c)) a b = (if c then a else b)"
    by (simp add: constant_time_select_8_def Let_def mask_8_def)
  show "constant_time_select_8 (mask_w c) a b = (if c then a else b)"
    by (simp add: constant_time_select_8_def Let_def consttime mask_8_def)
qed

lemma constant_time_select_w_mask [consttime]:
  "constant_time_select_w (mask_w c) a b = (if c then a else b)"
  by (simp add: constant_time_select_w_def mask_w_def CONSTTIME_TRUE_W_def CONSTTIME_FALSE_W_def)

lemma constant_time_conditional_memcpy_mask [consttime]:
  "length dst = length src \<Longrightarrow>
   constant_time_conditional_memcpy dst src (mask_w c) = (if c then src else dst)"
  by (induction dst src rule: list_induct2)
    (auto simp: constant_time_conditional_memcpy_def consttime)

section \<open>Byte swaps\<close>

definition CRYPTO_bswap2 :: "u16 \<Rightarrow> u16" where
  "CRYPTO_bswap2 x = drop_bit 8 x OR push_bit 8 x"

definition CRYPTO_bswap4 :: "u32 \<Rightarrow> u32" where
  "CRYPTO_bswap4 x = (let y = drop_bit 16 x OR push_bit 16 x in
     drop_bit 8 (y AND 0xff00ff00) OR push_bit 8 (y AND 0x00ff00ff))"

definition CRYPTO_bswap8 :: "u64 \<Rightarrow> u64" where
  "CRYPTO_bswap8 x = ucast (CRYPTO_bswap4 (ucast (drop_bit 32 x)))
     OR push_bit 32 (ucast (CRYPTO_bswap4 (ucast x)))"

lemma le_bytes_word: "le_bytes n (unat (w :: 'a::len word))
    = map (\<lambda>i. ucast (drop_bit (8 * i) w)) [0..<n]"
proof (induction n arbitrary: w)
  case (Suc n)
  have hd: "word_of_nat (unat w mod 256) = (ucast w :: u8)"
    by (simp add: word_unat_eq_iff unat_of_nat unat_ucast_mod)
  have "unat w div 256 = unat (drop_bit 8 w)"
    by (simp add: unat_drop_bit)
  then have "le_bytes n (unat w div 256) = map (\<lambda>i. ucast (drop_bit (8 * i) (drop_bit 8 w))) [0..<n]"
    using Suc [of "drop_bit 8 w"] by simp
  moreover have "drop_bit (8 * i) (drop_bit 8 w) = drop_bit (8 * Suc i) w" for i
    by (simp add: add.commute)
  ultimately show ?case
    by (simp add: hd map_upt_Suc del: upt_Suc)
qed simp

lemma less_8_cases: "(n :: nat) < 8 \<Longrightarrow> n \<in> {0, 1, 2, 3, 4, 5, 6, 7}"
  by auto

lemma CRYPTO_bswap2_bytes [byte_order]: "le_bytes 2 (unat (CRYPTO_bswap2 x)) = be_bytes 2 (unat x)"
  unfolding be_bytes_def le_bytes_word CRYPTO_bswap2_def
  by (simp add: upt_rec) (auto intro!: bit_word_eqI simp: bit_simps)


lemma CRYPTO_bswap4_bytes [byte_order]: "le_bytes 4 (unat (CRYPTO_bswap4 x)) = be_bytes 4 (unat x)"
proof -
  have oob: "\<not> bit x m" if "32 \<le> m" for m
    using bit_imp_le_length [of x m] that by auto
  have eq: "(ucast (drop_bit (8 * i) (CRYPTO_bswap4 x)) :: u8) = ucast (drop_bit (8 * (3 - i)) x)"
    if "i \<in> {0, 1, 2, 3}" for i
    using that
    by (auto simp: oob CRYPTO_bswap4_def Let_def bit_simps intro!: bit_word_eqI dest!: less_8_cases)
  show ?thesis
    using eq [of 0] eq [of 1] eq [of 2] eq [of 3]
    unfolding be_bytes_def le_bytes_word by (simp add: upt_rec)
qed

text \<open>The eight-byte swap is the four-byte swap of the two halves, exchanged.\<close>

lemma ucast_drop_bit_32:
  "i < 4 \<Longrightarrow> (ucast (drop_bit (8 * i) (ucast (w :: u64) :: u32)) :: u8) = ucast (drop_bit (8 * i) w)"
  by (auto simp: bit_simps intro!: bit_word_eqI)

lemma CRYPTO_bswap8_halves:
  "unat (CRYPTO_bswap8 x) = unat (CRYPTO_bswap4 (ucast (drop_bit 32 x)))
     + 2 ^ 32 * unat (CRYPTO_bswap4 (ucast x))"
proof -
  let ?h = "CRYPTO_bswap4 (ucast (drop_bit 32 x))" and ?l = "CRYPTO_bswap4 (ucast x)"
  have h: "unat (ucast ?h :: u64) = unat ?h" "unat (ucast ?l :: u64) = unat ?l"
    by (simp_all add: unat_ucast_up)
  have lt: "unat ?h < 2 ^ 32" "unat ?l < 2 ^ 32"
    using unsigned_less [of ?h, where 'a = nat] unsigned_less [of ?l, where 'a = nat] by simp_all
  have "CRYPTO_bswap8 x = push_bit 32 (ucast ?l) OR ucast ?h"
    by (simp add: CRYPTO_bswap8_def or.commute)
  also have "\<dots> = push_bit 32 (ucast ?l) + ucast ?h"
    by (rule shift_or_plus) (use lt h in simp)
  finally have "unat (CRYPTO_bswap8 x) = (unat ?l * 2 ^ 32 mod 2 ^ 64 + unat ?h) mod 2 ^ 64"
    by (simp add: unat_word_ariths unat_push_bit h)
  with lt show ?thesis by simp
qed

lemma le_bytes_add: "le_bytes (m + n) v = le_bytes m v @ le_bytes n (v div 256 ^ m)"
  by (induction m arbitrary: v) (simp_all add: div_mult2_eq)

lemma le_bytes_mod: "le_bytes n (v mod 256 ^ n) = le_bytes n v"
proof (induction n arbitrary: v)
  case (Suc n)
  have "v mod (256 * 256 ^ n) mod 256 = v mod 256"
    by (simp add: mod_mult2_eq)
  moreover have "v mod (256 * 256 ^ n) div 256 = v div 256 mod 256 ^ n"
    by (simp add: mod_mult2_eq)
  ultimately show ?case using Suc by simp
qed simp

lemma le_bytes_split:
  "a < 256 ^ m \<Longrightarrow> le_bytes (m + n) (a + 256 ^ m * b) = le_bytes m a @ le_bytes n b"
proof -
  assume a: "a < 256 ^ m"
  have "le_bytes m (a + 256 ^ m * b) = le_bytes m ((a + 256 ^ m * b) mod 256 ^ m)"
    by (simp only: le_bytes_mod)
  also have "(a + 256 ^ m * b) mod 256 ^ m = a"
    using a by simp
  finally show ?thesis
    using a by (simp add: le_bytes_add)
qed

lemma CRYPTO_bswap8_bytes [byte_order]: "le_bytes 8 (unat (CRYPTO_bswap8 x)) = be_bytes 8 (unat x)"
proof -
  have lt: "unat (CRYPTO_bswap4 y) < 2 ^ 32" for y
    using unsigned_less [of "CRYPTO_bswap4 y", where 'a = nat] by simp
  have hi: "unat (ucast (drop_bit 32 x) :: u32) = unat x div 256 ^ 4"
    using unsigned_less [of x, where 'a = nat]
    by (simp add: unat_ucast_mod unat_drop_bit less_mult_imp_div_less)
  have lo: "unat (ucast x :: u32) = unat x mod 256 ^ 4"
    by (simp add: unat_ucast_mod)
  have "le_bytes (4 + 4) (unat (CRYPTO_bswap8 x))
      = be_bytes 4 (unat x div 256 ^ 4) @ be_bytes 4 (unat x mod 256 ^ 4)"
    using le_bytes_split [of "unat (CRYPTO_bswap4 (ucast (drop_bit 32 x)))" 4 4
        "unat (CRYPTO_bswap4 (ucast x))"] lt [of "ucast (drop_bit 32 x)"]
    by (simp add: CRYPTO_bswap8_halves CRYPTO_bswap4_bytes hi lo)
  also have "\<dots> = be_bytes (4 + 4) (unat x)"
    by (simp only: be_bytes_def le_bytes_add rev_append le_bytes_mod)
  finally show ?thesis by simp
qed

section \<open>Loads and stores\<close>

definition CRYPTO_load_u32_le :: "bytes \<Rightarrow> u32" where
  "CRYPTO_load_u32_le p = word_of_nat (le_val (take 4 p))"

definition CRYPTO_store_u32_le :: "u32 \<Rightarrow> bytes" where
  "CRYPTO_store_u32_le v = le_bytes 4 (unat v)"

definition CRYPTO_load_u32_be :: "bytes \<Rightarrow> u32" where
  "CRYPTO_load_u32_be p = CRYPTO_bswap4 (CRYPTO_load_u32_le p)"

definition CRYPTO_store_u32_be :: "u32 \<Rightarrow> bytes" where
  "CRYPTO_store_u32_be v = CRYPTO_store_u32_le (CRYPTO_bswap4 v)"

definition CRYPTO_load_u64_le :: "bytes \<Rightarrow> u64" where
  "CRYPTO_load_u64_le p = word_of_nat (le_val (take 8 p))"

definition CRYPTO_store_u64_le :: "u64 \<Rightarrow> bytes" where
  "CRYPTO_store_u64_le v = le_bytes 8 (unat v)"

definition CRYPTO_load_u64_be :: "bytes \<Rightarrow> u64" where
  "CRYPTO_load_u64_be p = CRYPTO_bswap8 (CRYPTO_load_u64_le p)"

definition CRYPTO_store_u64_be :: "u64 \<Rightarrow> bytes" where
  "CRYPTO_store_u64_be v = CRYPTO_store_u64_le (CRYPTO_bswap8 v)"

lemma unat_word_of_le_val:
  "8 * length bs \<le> LENGTH('a) \<Longrightarrow> unat (word_of_nat (le_val bs) :: 'a::len word) = le_val bs"
proof -
  assume le: "8 * length bs \<le> LENGTH('a)"
  have "le_val bs < 2 ^ (8 * length bs)"
    using le_val_bound [of bs] by (simp add: power_mult)
  also have "\<dots> \<le> 2 ^ LENGTH('a)" using le by simp
  finally show ?thesis by (simp add: unat_of_nat)
qed

lemma le_val_inj: "length xs = length ys \<Longrightarrow> le_val xs = le_val ys \<Longrightarrow> xs = ys"
  by (metis le_bytes_le_val)

lemma le_bytes_inj: "a < 256 ^ n \<Longrightarrow> b < 256 ^ n \<Longrightarrow> le_bytes n a = le_bytes n b \<Longrightarrow> a = b"
  by (metis le_val_le_bytes mod_less)

lemma CRYPTO_store_load [byte_order]:
  "length p = 4 \<Longrightarrow> CRYPTO_store_u32_le (CRYPTO_load_u32_le p) = p"
  "length p = 8 \<Longrightarrow> CRYPTO_store_u64_le (CRYPTO_load_u64_le p) = p"
  using le_bytes_le_val [of p]
  by (simp_all add: CRYPTO_store_u32_le_def CRYPTO_load_u32_le_def CRYPTO_store_u64_le_def
      CRYPTO_load_u64_le_def unat_word_of_le_val)

lemma CRYPTO_load_store [byte_order]:
  "CRYPTO_load_u32_le (CRYPTO_store_u32_le v) = v"
  "CRYPTO_load_u64_le (CRYPTO_store_u64_le w) = w"
  using unsigned_less [of v, where 'a = nat] unsigned_less [of w, where 'a = nat]
  by (simp_all add: CRYPTO_store_u32_le_def CRYPTO_load_u32_le_def CRYPTO_store_u64_le_def
      CRYPTO_load_u64_le_def byte_order)

lemma unat_CRYPTO_load_u32_be: "unat (CRYPTO_load_u32_be p) = be_val (take 4 p)" if "4 \<le> length p"
proof -
  let ?v = "CRYPTO_load_u32_le p"
  have "le_bytes 4 (unat (CRYPTO_bswap4 ?v)) = rev (le_bytes 4 (unat ?v))"
    by (simp add: byte_order be_bytes_def)
  also have "le_bytes 4 (unat ?v) = take 4 p"
    using CRYPTO_store_load(1) [of "take 4 p"] that
    by (simp add: CRYPTO_store_u32_le_def CRYPTO_load_u32_le_def)
  finally have "le_val (le_bytes 4 (unat (CRYPTO_bswap4 ?v))) = be_val (take 4 p)"
    by (simp add: be_val_def)
  then show ?thesis
    using unsigned_less [of "CRYPTO_bswap4 ?v", where 'a = nat]
    by (simp add: CRYPTO_load_u32_be_def le_val_le_bytes)
qed

lemma unat_CRYPTO_load_u64_be: "unat (CRYPTO_load_u64_be p) = be_val (take 8 p)" if "8 \<le> length p"
proof -
  let ?v = "CRYPTO_load_u64_le p"
  have "le_bytes 8 (unat (CRYPTO_bswap8 ?v)) = rev (le_bytes 8 (unat ?v))"
    by (simp add: byte_order be_bytes_def)
  also have "le_bytes 8 (unat ?v) = take 8 p"
    using CRYPTO_store_load(2) [of "take 8 p"] that
    by (simp add: CRYPTO_store_u64_le_def CRYPTO_load_u64_le_def)
  finally have "le_val (le_bytes 8 (unat (CRYPTO_bswap8 ?v))) = be_val (take 8 p)"
    by (simp add: be_val_def)
  then show ?thesis
    using unsigned_less [of "CRYPTO_bswap8 ?v", where 'a = nat]
    by (simp add: CRYPTO_load_u64_be_def le_val_le_bytes)
qed

lemma CRYPTO_store_u64_be_bytes: "CRYPTO_store_u64_be v = be_bytes 8 (unat v)"
  by (simp add: CRYPTO_store_u64_be_def CRYPTO_store_u64_le_def byte_order)

lemma CRYPTO_store_u32_be_bytes: "CRYPTO_store_u32_be v = be_bytes 4 (unat v)"
  by (simp add: CRYPTO_store_u32_be_def CRYPTO_store_u32_le_def byte_order)

lemma CRYPTO_bswap_invol [simp]:
  "CRYPTO_bswap2 (CRYPTO_bswap2 a) = a" "CRYPTO_bswap4 (CRYPTO_bswap4 b) = b"
  "CRYPTO_bswap8 (CRYPTO_bswap8 c) = c"
proof -
  have "le_bytes 2 (unat (CRYPTO_bswap2 (CRYPTO_bswap2 a))) = le_bytes 2 (unat a)"
    "le_bytes 4 (unat (CRYPTO_bswap4 (CRYPTO_bswap4 b))) = le_bytes 4 (unat b)"
    "le_bytes 8 (unat (CRYPTO_bswap8 (CRYPTO_bswap8 c))) = le_bytes 8 (unat c)"
    by (simp_all add: byte_order be_bytes_def)
  note eq = this
  show "CRYPTO_bswap2 (CRYPTO_bswap2 a) = a"
    by (rule word_unat_eq_iff [THEN iffD2], rule le_bytes_inj [OF _ _ eq(1)])
      (use unsigned_less [where 'a = nat and 'b = 16] in simp_all)
  show "CRYPTO_bswap4 (CRYPTO_bswap4 b) = b"
    by (rule word_unat_eq_iff [THEN iffD2], rule le_bytes_inj [OF _ _ eq(2)])
      (use unsigned_less [where 'a = nat and 'b = 32] in simp_all)
  show "CRYPTO_bswap8 (CRYPTO_bswap8 c) = c"
    by (rule word_unat_eq_iff [THEN iffD2], rule le_bytes_inj [OF _ _ eq(3)])
      (use unsigned_less [where 'a = nat and 'b = 64] in simp_all)
qed

section \<open>Rotations\<close>

text \<open>The shift amount is at least one and below the width in every call.\<close>

definition CRYPTO_rotl_u32 :: "u32 \<Rightarrow> nat \<Rightarrow> u32" where
  "CRYPTO_rotl_u32 v shift = push_bit shift v OR drop_bit (nat ((- int shift) mod 32)) v"

definition CRYPTO_rotr_u32 :: "u32 \<Rightarrow> nat \<Rightarrow> u32" where
  "CRYPTO_rotr_u32 v shift = drop_bit shift v OR push_bit (nat ((- int shift) mod 32)) v"

definition CRYPTO_rotl_u64 :: "u64 \<Rightarrow> nat \<Rightarrow> u64" where
  "CRYPTO_rotl_u64 v shift = push_bit shift v OR drop_bit (nat ((- int shift) mod 64)) v"

definition CRYPTO_rotr_u64 :: "u64 \<Rightarrow> nat \<Rightarrow> u64" where
  "CRYPTO_rotr_u64 v shift = drop_bit shift v OR push_bit (nat ((- int shift) mod 64)) v"

end
