(* ===== verification/Mem.thy ===== *)
theory Mem
  imports Crypto_Internal
begin

text \<open>
  The helpers of \<^verbatim>\<open>crypto/mem.c\<close>: the allocator wrappers, bounded string functions, comparison in
  constant time, the FNV hash and the locale-free character classes.

  The C library's \<^verbatim>\<open>malloc\<close> is a parameter \<open>heap\<close>: \<open>heap n\<close> says whether a request for \<open>n\<close> bytes is
  granted.  Functions that allocate take it as their first argument and give \<open>None\<close> for a null
  pointer.  A buffer is the list of its bytes; reading past the end of a C string's object is the
  value \<open>None\<close> of the string functions.
\<close>

type_synonym heap = "nat \<Rightarrow> bool"

section \<open>Allocation\<close>

definition OPENSSL_MALLOC_PREFIX :: nat where "OPENSSL_MALLOC_PREFIX = 8"

text \<open>Whether a non-null pointer is returned; the size prefix is added with its overflow check.\<close>

definition OPENSSL_malloc :: "heap \<Rightarrow> nat \<Rightarrow> bool" where
  "OPENSSL_malloc heap n
     = (if size_add n OPENSSL_MALLOC_PREFIX < n then False
        else heap (size_add n OPENSSL_MALLOC_PREFIX))"

definition OPENSSL_zalloc :: "heap \<Rightarrow> nat \<Rightarrow> bytes option" where
  "OPENSSL_zalloc heap n
     = (if OPENSSL_malloc heap n then Some (replicate n 0) else None)"

definition OPENSSL_calloc :: "heap \<Rightarrow> nat \<Rightarrow> nat \<Rightarrow> bytes option" where
  "OPENSSL_calloc heap num elt
     = (if elt \<noteq> 0 \<and> (size_bound - 1) div elt < num then None
        else OPENSSL_zalloc heap (size_mul num elt))"

text \<open>
  \<^verbatim>\<open>OPENSSL_realloc\<close> keeps the common prefix; the bytes behind it are what \<^verbatim>\<open>malloc\<close> left there, the
  parameter \<open>fresh\<close>.
\<close>

definition OPENSSL_realloc :: "heap \<Rightarrow> (nat \<Rightarrow> u8) \<Rightarrow> bytes \<Rightarrow> nat \<Rightarrow> bytes option" where
  "OPENSSL_realloc heap fresh orig new_size
     = (if OPENSSL_malloc heap new_size
        then Some (take new_size orig @ map fresh [length orig..<new_size]) else None)"

text \<open>What a component that grows buffers is given: the allocator and the contents of fresh memory.\<close>

record env =
  env_heap :: heap
  env_fresh :: "nat \<Rightarrow> u8"

definition OPENSSL_memdup :: "heap \<Rightarrow> bytes \<Rightarrow> bytes option" where
  "OPENSSL_memdup heap data
     = (if length data = 0 then None
        else if OPENSSL_malloc heap (length data) then Some data else None)"

lemma OPENSSL_realloc_length:
  "OPENSSL_realloc heap fresh orig n = Some buf \<Longrightarrow> length buf = n"
  by (auto simp: OPENSSL_realloc_def split: if_splits)

lemma OPENSSL_realloc_prefix:
  "OPENSSL_realloc heap fresh orig n = Some buf \<Longrightarrow> k \<le> length orig \<Longrightarrow> k \<le> n \<Longrightarrow>
   take k buf = take k orig"
  by (auto simp: OPENSSL_realloc_def min_def split: if_splits)

lemma OPENSSL_malloc_bounded: "OPENSSL_malloc heap n \<Longrightarrow> n < size_bound \<Longrightarrow> n + 8 < size_bound"
  by (auto simp: OPENSSL_malloc_def OPENSSL_MALLOC_PREFIX_def size_add_overflow split: if_splits)

section \<open>Bounded strings\<close>

fun OPENSSL_strnlen :: "bytes \<Rightarrow> nat \<Rightarrow> nat option" where
  "OPENSSL_strnlen s 0 = Some 0"
| "OPENSSL_strnlen [] (Suc len) = None"
| "OPENSSL_strnlen (c # s) (Suc len)
     = (if c = 0 then Some 0 else map_option Suc (OPENSSL_strnlen s len))"

text \<open>The copy up to the first zero byte or \<open>limit\<close> bytes, with the terminator the code adds.\<close>

definition OPENSSL_strndup :: "heap \<Rightarrow> bytes \<Rightarrow> nat \<Rightarrow> bytes option" where
  "OPENSSL_strndup heap str limit
     = (case OPENSSL_strnlen str limit of
          None \<Rightarrow> None
        | Some n \<Rightarrow>
            (if size_add n 1 < n then None
             else if OPENSSL_malloc heap (size_add n 1) then Some (take n str @ [0]) else None))"

lemma OPENSSL_strnlen_eq:
  "n \<le> length s \<Longrightarrow> OPENSSL_strnlen s n = Some (length (takeWhile (\<lambda>c. c \<noteq> 0) (take n s)))"
  by (induction s n rule: OPENSSL_strnlen.induct) auto

section \<open>Comparison and hashing\<close>

text \<open>Both loops run over \<open>len\<close> bytes; the buffers have at least that length.\<close>

definition CRYPTO_memcmp :: "bytes \<Rightarrow> bytes \<Rightarrow> nat \<Rightarrow> u8" where
  "CRYPTO_memcmp a b len = foldl (\<lambda>x i. x OR (a ! i XOR b ! i)) 0 [0..<len]"

definition OPENSSL_hash32 :: "bytes \<Rightarrow> u32" where
  "OPENSSL_hash32 ptr = foldl (\<lambda>h b. (h XOR ucast b) * 16777619) 2166136261 ptr"

lemma memcmp_fold:
  "foldl (\<lambda>x i. x OR (a ! i XOR b ! i)) c is = 0
     \<longleftrightarrow> c = (0 :: u8) \<and> (\<forall>i \<in> set is. a ! i = b ! i)"
proof (induction "is" arbitrary: c)
  case (Cons i "is")
  then show ?case by auto
qed simp

lemma CRYPTO_memcmp_zero_iff:
  assumes "length a = n" "length b = n"
  shows "CRYPTO_memcmp a b n = 0 \<longleftrightarrow> a = b"
proof -
  have "CRYPTO_memcmp a b n = 0 \<longleftrightarrow> (\<forall>i \<in> set [0..<n]. a ! i = b ! i)"
    unfolding CRYPTO_memcmp_def memcmp_fold by simp
  also have "\<dots> \<longleftrightarrow> a = b"
    using nth_equalityI [of a b] assms by fastforce
  finally show ?thesis .
qed

section \<open>Character classes\<close>

text \<open>The argument is an \<open>int\<close>, as in C.\<close>

definition OPENSSL_isalpha :: "int \<Rightarrow> bool" where
  "OPENSSL_isalpha c \<longleftrightarrow> (97 \<le> c \<and> c \<le> 122) \<or> (65 \<le> c \<and> c \<le> 90)"

definition OPENSSL_isdigit :: "int \<Rightarrow> bool" where
  "OPENSSL_isdigit c \<longleftrightarrow> 48 \<le> c \<and> c \<le> 57"

definition OPENSSL_isxdigit :: "int \<Rightarrow> bool" where
  "OPENSSL_isxdigit c \<longleftrightarrow> OPENSSL_isdigit c \<or> (97 \<le> c \<and> c \<le> 102) \<or> (65 \<le> c \<and> c \<le> 70)"

definition OPENSSL_fromxdigit :: "int \<Rightarrow> u8 option" where
  "OPENSSL_fromxdigit c
     = (if OPENSSL_isdigit c then Some (word_of_int (c - 48))
        else if 97 \<le> c \<and> c \<le> 102 then Some (word_of_int (c - 97 + 10))
        else if 65 \<le> c \<and> c \<le> 70 then Some (word_of_int (c - 65 + 10))
        else None)"

definition OPENSSL_isalnum :: "int \<Rightarrow> bool" where
  "OPENSSL_isalnum c \<longleftrightarrow> OPENSSL_isalpha c \<or> OPENSSL_isdigit c"

definition OPENSSL_tolower :: "int \<Rightarrow> int" where
  "OPENSSL_tolower c = (if 65 \<le> c \<and> c \<le> 90 then c + (97 - 65) else c)"

definition OPENSSL_isspace :: "int \<Rightarrow> bool" where
  "OPENSSL_isspace c \<longleftrightarrow> c = 9 \<or> c = 10 \<or> c = 11 \<or> c = 12 \<or> c = 13 \<or> c = 32"

lemma OPENSSL_fromxdigit_iff: "OPENSSL_fromxdigit c \<noteq> None \<longleftrightarrow> OPENSSL_isxdigit c"
  by (simp add: OPENSSL_fromxdigit_def OPENSSL_isxdigit_def)

text \<open>\<^verbatim>\<open>OPENSSL_memchr\<close> of \<^verbatim>\<open>internal.h\<close>: the position of the first \<open>c\<close>, over the whole buffer.\<close>

fun OPENSSL_memchr :: "bytes \<Rightarrow> u8 \<Rightarrow> nat option" where
  "OPENSSL_memchr [] c = None"
| "OPENSSL_memchr (b # s) c = (if b = c then Some 0 else map_option Suc (OPENSSL_memchr s c))"

lemma OPENSSL_memchr_Some:
  "OPENSSL_memchr s c = Some i \<longleftrightarrow> i < length s \<and> s ! i = c \<and> c \<notin> set (take i s)"
proof (induction s arbitrary: i)
  case (Cons b s)
  then show ?case by (cases i) auto
qed simp

lemma OPENSSL_memchr_None: "OPENSSL_memchr s c = None \<longleftrightarrow> c \<notin> set s"
  by (induction s) auto

end
