(* ===== verification/Cbs.thy ===== *)
theory Cbs
  imports Mem
begin

text \<open>
  \<^verbatim>\<open>crypto/bytestring/cbs.c\<close>: the parser of byte strings and of ASN.1.  A \<^verbatim>\<open>CBS\<close> is the list of the
  bytes it spans.  A function that advances its \<^verbatim>\<open>CBS\<close> argument is a reader \<open>'a get\<close>: it gives \<open>None\<close>
  where the C function returns 0, the value of the out-parameter otherwise, and in both cases the
  remaining bytes, so that input consumed before a failure is not lost from the model.  The value
  of out-parameters after a failure is not modelled.  The OID printer is in \<^verbatim>\<open>Oid.thy\<close> and the time
  parser in \<^verbatim>\<open>Cbs_Time.thy\<close>, with the components they call.
\<close>

section \<open>Readers\<close>

type_synonym 'a get = "bytes \<Rightarrow> 'a option \<times> bytes"

definition get_return :: "'a \<Rightarrow> 'a get" where
  "get_return x = (\<lambda>cbs. (Some x, cbs))"

definition get_fail :: "'a get" where
  "get_fail = (\<lambda>cbs. (None, cbs))"

definition get_bind :: "'a get \<Rightarrow> ('a \<Rightarrow> 'b get) \<Rightarrow> 'b get" where
  "get_bind p f = (\<lambda>cbs. case p cbs of (None, cbs') \<Rightarrow> (None, cbs') | (Some x, cbs') \<Rightarrow> f x cbs')"

definition get_guard :: "bool \<Rightarrow> unit get" where
  "get_guard c = (if c then get_return () else get_fail)"

named_theorems cbs_simps "what the readers compute"

lemma get_return_app [simp]: "get_return x cbs = (Some x, cbs)"
  by (simp add: get_return_def)

lemma get_fail_app [simp]: "get_fail cbs = (None, cbs)"
  by (simp add: get_fail_def)

lemma get_guard_app [simp]: "get_guard c cbs = (if c then Some () else None, cbs)"
  by (simp add: get_guard_def)

lemma get_bind_app: "get_bind p f cbs
    = (case p cbs of (None, cbs') \<Rightarrow> (None, cbs') | (Some x, cbs') \<Rightarrow> f x cbs')"
  by (simp add: get_bind_def)

lemma get_bind_cases [simp]:
  "p cbs = (None, cbs') \<Longrightarrow> get_bind p f cbs = (None, cbs')"
  "p cbs = (Some x, cbs') \<Longrightarrow> get_bind p f cbs = f x cbs'"
  by (simp_all add: get_bind_def)

lemma get_bind_Some:
  "get_bind p f cbs = (Some y, cbs'') \<longleftrightarrow>
     (\<exists>x cbs'. p cbs = (Some x, cbs') \<and> f x cbs' = (Some y, cbs''))"
  by (auto simp: get_bind_def split: prod.splits option.splits)

text \<open>
  The safety of a reader: whatever it returns, what remains is a suffix of what it was given, so it
  never reads or moves beyond the bytes of its argument.
\<close>

definition reads :: "'a get \<Rightarrow> bool" where
  "reads p \<longleftrightarrow> (\<forall>cbs. \<exists>pre. cbs = pre @ snd (p cbs))"

named_theorems reads_intro "readers only move forward"

lemma readsI: "(\<And>cbs. \<exists>n. snd (p cbs) = drop n cbs) \<Longrightarrow> reads p"
  unfolding reads_def by (metis append_take_drop_id)

lemma reads_suffix: "reads p \<Longrightarrow> \<exists>pre. cbs = pre @ snd (p cbs)"
  by (simp add: reads_def)

lemma reads_length: "reads p \<Longrightarrow> length (snd (p cbs)) \<le> length cbs"
  by (metis length_append le_add2 reads_suffix)

lemma reads_return [reads_intro]: "reads (get_return x)" "reads get_fail" "reads (get_guard c)"
  by (simp_all add: reads_def)

lemma reads_bind [reads_intro]:
  assumes p: "reads p" and f: "\<And>x. reads (f x)"
  shows "reads (get_bind p f)"
  unfolding reads_def
proof
  fix cbs
  obtain pre where pre: "cbs = pre @ snd (p cbs)"
    using reads_suffix [OF p] by blast
  show "\<exists>q. cbs = q @ snd (get_bind p f cbs)"
  proof (cases "fst (p cbs)")
    case None
    with pre show ?thesis by (auto simp: get_bind_def split: prod.splits)
  next
    case (Some x)
    then have "get_bind p f cbs = f x (snd (p cbs))"
      by (auto simp: get_bind_def split: prod.splits)
    moreover obtain q where "snd (p cbs) = q @ snd (f x (snd (p cbs)))"
      using reads_suffix [OF f] by blast
    ultimately show ?thesis using pre by (metis append_assoc)
  qed
qed

section \<open>Bytes and sized integers\<close>

definition cbs_get :: "nat \<Rightarrow> bytes get" where
  "cbs_get n cbs = (if length cbs < n then (None, cbs) else (Some (take n cbs), drop n cbs))"

definition CBS_skip :: "nat \<Rightarrow> unit get" where
  "CBS_skip len = get_bind (cbs_get len) (\<lambda>dummy. get_return ())"

text \<open>The new contents of the out-pointer (\<open>None\<close>: null) and the length, or \<open>None\<close> on failure.\<close>

definition CBS_stow :: "heap \<Rightarrow> bytes \<Rightarrow> (bytes option \<times> nat) option" where
  "CBS_stow heap cbs
     = (if length cbs = 0 then Some (None, 0)
        else case OPENSSL_memdup heap cbs of
               None \<Rightarrow> None
             | Some p \<Rightarrow> Some (Some p, length cbs))"

definition CBS_strdup :: "heap \<Rightarrow> bytes \<Rightarrow> bytes option" where
  "CBS_strdup heap cbs = OPENSSL_strndup heap cbs (length cbs)"

definition CBS_contains_zero_byte :: "bytes \<Rightarrow> bool" where
  "CBS_contains_zero_byte cbs \<longleftrightarrow> OPENSSL_memchr cbs 0 \<noteq> None"

definition CBS_mem_equal :: "bytes \<Rightarrow> bytes \<Rightarrow> nat \<Rightarrow> bool" where
  "CBS_mem_equal cbs data len
     \<longleftrightarrow> (if len \<noteq> length cbs then False else CRYPTO_memcmp cbs data len = 0)"

definition cbs_get_u :: "nat \<Rightarrow> u64 get" where
  "cbs_get_u len = get_bind (cbs_get len)
     (\<lambda>data. get_return (foldl (\<lambda>result b. push_bit 8 result OR ucast b) 0 data))"

definition CBS_get_u8 :: "u8 get" where
  "CBS_get_u8 = get_bind (cbs_get 1) (\<lambda>v. get_return (hd v))"

definition CBS_get_u16 :: "u16 get" where
  "CBS_get_u16 = get_bind (cbs_get_u 2) (\<lambda>v. get_return (ucast v))"

definition CBS_get_u16le :: "u16 get" where
  "CBS_get_u16le = get_bind CBS_get_u16 (\<lambda>out. get_return (CRYPTO_bswap2 out))"

definition CBS_get_u24 :: "u32 get" where
  "CBS_get_u24 = get_bind (cbs_get_u 3) (\<lambda>v. get_return (ucast v))"

definition CBS_get_u32 :: "u32 get" where
  "CBS_get_u32 = get_bind (cbs_get_u 4) (\<lambda>v. get_return (ucast v))"

definition CBS_get_u32le :: "u32 get" where
  "CBS_get_u32le = get_bind CBS_get_u32 (\<lambda>out. get_return (CRYPTO_bswap4 out))"

definition CBS_get_u64 :: "u64 get" where
  "CBS_get_u64 = cbs_get_u 8"

definition CBS_get_u64le :: "u64 get" where
  "CBS_get_u64le = get_bind (cbs_get_u 8) (\<lambda>out. get_return (CRYPTO_bswap8 out))"

definition CBS_get_last_u8 :: "u8 get" where
  "CBS_get_last_u8 cbs
     = (if length cbs = 0 then (None, cbs)
        else (Some (cbs ! (length cbs - 1)), take (length cbs - 1) cbs))"

definition CBS_get_bytes :: "nat \<Rightarrow> bytes get" where
  "CBS_get_bytes len = get_bind (cbs_get len) (\<lambda>v. get_return v)"

definition CBS_copy_bytes :: "nat \<Rightarrow> bytes get" where
  "CBS_copy_bytes len = get_bind (cbs_get len) (\<lambda>v. get_return v)"

definition cbs_get_length_prefixed :: "nat \<Rightarrow> bytes get" where
  "cbs_get_length_prefixed len_len
     = get_bind (cbs_get_u len_len) (\<lambda>len. CBS_get_bytes (unat len))"

definition CBS_get_u8_length_prefixed :: "bytes get" where
  "CBS_get_u8_length_prefixed = cbs_get_length_prefixed 1"

definition CBS_get_u16_length_prefixed :: "bytes get" where
  "CBS_get_u16_length_prefixed = cbs_get_length_prefixed 2"

definition CBS_get_u24_length_prefixed :: "bytes get" where
  "CBS_get_u24_length_prefixed = cbs_get_length_prefixed 3"

definition CBS_get_until_first :: "u8 \<Rightarrow> bytes get" where
  "CBS_get_until_first c cbs
     = (case OPENSSL_memchr cbs c of
          None \<Rightarrow> (None, cbs)
        | Some split \<Rightarrow> CBS_get_bytes split cbs)"

text \<open>The loop over the digits: \<open>v\<close> and \<open>seen_digit\<close> are its variables.\<close>

fun cbs_get_u64_decimal_loop :: "u64 \<Rightarrow> bool \<Rightarrow> u64 get" where
  "cbs_get_u64_decimal_loop v seen_digit [] = (if seen_digit then Some v else None, [])"
| "cbs_get_u64_decimal_loop v seen_digit (c # cbs)
     = (if \<not> OPENSSL_isdigit (int (unat c)) then (if seen_digit then Some v else None, c # cbs)
        else if (v = 0 \<and> seen_digit) \<or> v > 0xffffffffffffffff div 10
                \<or> v * 10 > 0xffffffffffffffff - (ucast c - 48)
        then (None, cbs)
        else cbs_get_u64_decimal_loop (v * 10 + (ucast c - 48)) True cbs)"

definition CBS_get_u64_decimal :: "u64 get" where
  "CBS_get_u64_decimal = cbs_get_u64_decimal_loop 0 False"

section \<open>ASN.1 tags and elements\<close>

text \<open>The constants of \<^verbatim>\<open>include/openssl/bytestring.h\<close>.\<close>

type_synonym CBS_ASN1_TAG = "32 word"

definition CBS_ASN1_TAG_SHIFT :: nat where "CBS_ASN1_TAG_SHIFT = 24"
definition CBS_ASN1_CONSTRUCTED :: CBS_ASN1_TAG where
  "CBS_ASN1_CONSTRUCTED = push_bit CBS_ASN1_TAG_SHIFT 0x20"
definition CBS_ASN1_TAG_NUMBER_MASK :: CBS_ASN1_TAG where
  "CBS_ASN1_TAG_NUMBER_MASK = push_bit (5 + CBS_ASN1_TAG_SHIFT) 1 - 1"

definition CBS_ASN1_BOOLEAN :: CBS_ASN1_TAG where "CBS_ASN1_BOOLEAN = 0x1"
definition CBS_ASN1_INTEGER :: CBS_ASN1_TAG where "CBS_ASN1_INTEGER = 0x2"
definition CBS_ASN1_OCTETSTRING :: CBS_ASN1_TAG where "CBS_ASN1_OCTETSTRING = 0x4"

lemma CBS_ASN1_constants [simp]:
  "CBS_ASN1_CONSTRUCTED = 0x20000000" "CBS_ASN1_TAG_NUMBER_MASK = 0x1fffffff"
  by (simp_all add: CBS_ASN1_CONSTRUCTED_def CBS_ASN1_TAG_NUMBER_MASK_def CBS_ASN1_TAG_SHIFT_def)

fun parse_base128_loop :: "u64 \<Rightarrow> u64 get" where
  "parse_base128_loop v [] = (None, [])"
| "parse_base128_loop v (b # cbs)
     = (if drop_bit (64 - 7) v \<noteq> 0 then (None, cbs)
        else if v = 0 \<and> b = 0x80 then (None, cbs)
        else let v' = push_bit 7 v OR ucast (b AND 0x7f) in
             if b AND 0x80 \<noteq> 0 then parse_base128_loop v' cbs else (Some v', cbs))"

definition parse_base128_integer :: "u64 get" where
  "parse_base128_integer = parse_base128_loop 0"

definition parse_asn1_tag :: "CBS_ASN1_TAG get" where
  "parse_asn1_tag = get_bind CBS_get_u8 (\<lambda>tag_byte.
     let tag = push_bit CBS_ASN1_TAG_SHIFT (ucast tag_byte AND 0xe0) :: CBS_ASN1_TAG;
         tag_number = ucast tag_byte AND 0x1f :: CBS_ASN1_TAG in
     get_bind
       (if tag_number = 0x1f
        then get_bind parse_base128_integer (\<lambda>v.
               if ucast CBS_ASN1_TAG_NUMBER_MASK < v \<or> v < 0x1f then get_fail
               else get_return (ucast v))
        else get_return tag_number)
       (\<lambda>tag_number. let tag = tag OR tag_number in
          if tag AND NOT CBS_ASN1_CONSTRUCTED = 0 then get_fail else get_return tag))"

text \<open>
  The out-parameters of \<^verbatim>\<open>cbs_get_any_asn1_element\<close>.  \<open>el_ber_found\<close> and \<open>el_indefinite\<close> are written
  in BER mode only and are false otherwise.
\<close>

record asn1_element =
  el_out :: bytes
  el_tag :: CBS_ASN1_TAG
  el_header_len :: nat
  el_ber_found :: bool
  el_indefinite :: bool

text \<open>The return statement of every branch: cut \<open>len\<close> bytes off the original \<^verbatim>\<open>CBS\<close>.\<close>

definition asn1_take :: "CBS_ASN1_TAG \<Rightarrow> nat \<Rightarrow> nat \<Rightarrow> bool \<Rightarrow> bool \<Rightarrow> asn1_element get" where
  "asn1_take tag len header_len ber_found indefinite
     = get_bind (CBS_get_bytes len) (\<lambda>out. get_return
         \<lparr>el_out = out, el_tag = tag, el_header_len = header_len,
          el_ber_found = ber_found, el_indefinite = indefinite\<rparr>)"

text \<open>
  The header is read from a copy, so \<open>cbs\<close> itself only moves in \<open>asn1_take\<close>.  The first flag is
  \<^verbatim>\<open>ber_ok\<close>.
\<close>

definition cbs_get_any_asn1_element :: "bool \<Rightarrow> asn1_element get" where
  "cbs_get_any_asn1_element ber_ok cbs
     = (case parse_asn1_tag cbs of
          (None, _) \<Rightarrow> (None, cbs)
        | (Some tag, header) \<Rightarrow>
       case CBS_get_u8 header of
          (None, _) \<Rightarrow> (None, cbs)
        | (Some length_byte, header) \<Rightarrow>
       let header_len = length cbs - length header in
       if length_byte AND 0x80 = 0
       then asn1_take tag (unat length_byte + header_len) header_len False False cbs
       else let num_bytes = unat (length_byte AND 0x7f) in
       if ber_ok \<and> tag AND CBS_ASN1_CONSTRUCTED \<noteq> 0 \<and> num_bytes = 0
       then asn1_take tag header_len header_len True True cbs
       else if num_bytes = 0 \<or> 4 < num_bytes then (None, cbs)
       else case cbs_get_u num_bytes header of
          (None, _) \<Rightarrow> (None, cbs)
        | (Some len64, _) \<Rightarrow>
       if len64 < 128 \<and> \<not> ber_ok then (None, cbs)
       else if drop_bit ((num_bytes - 1) * 8) len64 = 0 \<and> \<not> ber_ok then (None, cbs)
       else let ber_found = (len64 < 128 \<or> drop_bit ((num_bytes - 1) * 8) len64 = 0);
                len = unat len64 in
       if size_add (size_add len header_len) num_bytes < len then (None, cbs)
       else asn1_take tag (size_add len (header_len + num_bytes)) (header_len + num_bytes)
              ber_found False cbs)"

definition CBS_get_any_asn1_element :: "asn1_element get" where
  "CBS_get_any_asn1_element = cbs_get_any_asn1_element False"

definition CBS_get_any_ber_asn1_element :: "asn1_element get" where
  "CBS_get_any_ber_asn1_element = cbs_get_any_asn1_element True"

text \<open>The contents of an element: the skip of the header is applied to the element itself.\<close>

definition CBS_get_any_asn1 :: "(bytes \<times> CBS_ASN1_TAG) get" where
  "CBS_get_any_asn1 = get_bind CBS_get_any_asn1_element (\<lambda>el.
     case CBS_skip (el_header_len el) (el_out el) of
       (None, _) \<Rightarrow> get_fail
     | (Some _, out) \<Rightarrow> get_return (out, el_tag el))"

definition cbs_get_asn1 :: "CBS_ASN1_TAG \<Rightarrow> bool \<Rightarrow> bytes get" where
  "cbs_get_asn1 tag_value skip_header = get_bind CBS_get_any_asn1_element (\<lambda>el.
     if el_tag el \<noteq> tag_value then get_fail
     else if skip_header
     then (case CBS_skip (el_header_len el) (el_out el) of
             (None, _) \<Rightarrow> get_fail
           | (Some _, out) \<Rightarrow> get_return out)
     else get_return (el_out el))"

definition CBS_get_asn1 :: "CBS_ASN1_TAG \<Rightarrow> bytes get" where
  "CBS_get_asn1 tag_value = cbs_get_asn1 tag_value True"

definition CBS_get_asn1_element :: "CBS_ASN1_TAG \<Rightarrow> bytes get" where
  "CBS_get_asn1_element tag_value = cbs_get_asn1 tag_value False"

definition CBS_peek_asn1_tag :: "CBS_ASN1_TAG \<Rightarrow> bytes \<Rightarrow> bool" where
  "CBS_peek_asn1_tag tag_value cbs
     = (case parse_asn1_tag cbs of
          (None, _) \<Rightarrow> False
        | (Some actual_tag, _) \<Rightarrow> tag_value = actual_tag)"

section \<open>ASN.1 values\<close>

definition CBS_is_valid_asn1_integer :: "bytes \<Rightarrow> bool option" where
  \<comment> \<open>\<open>Some is_negative\<close> for a valid integer\<close>
  "CBS_is_valid_asn1_integer cbs
     = (case CBS_get_u8 cbs of
          (None, _) \<Rightarrow> None
        | (Some first_byte, copy) \<Rightarrow>
       let is_negative = (first_byte AND 0x80 \<noteq> 0) in
       case CBS_get_u8 copy of
          (None, _) \<Rightarrow> Some is_negative
        | (Some second_byte, _) \<Rightarrow>
       if (first_byte = 0x00 \<and> second_byte AND 0x80 = 0)
          \<or> (first_byte = 0xff \<and> second_byte AND 0x80 \<noteq> 0)
       then None else Some is_negative)"

definition CBS_is_unsigned_asn1_integer :: "bytes \<Rightarrow> bool" where
  "CBS_is_unsigned_asn1_integer cbs
     = (case CBS_is_valid_asn1_integer cbs of None \<Rightarrow> False | Some is_negative \<Rightarrow> \<not> is_negative)"

fun asn1_uint64_loop :: "u64 \<Rightarrow> bytes \<Rightarrow> u64 option" where
  "asn1_uint64_loop out [] = Some out"
| "asn1_uint64_loop out (b # data)
     = (if drop_bit 56 out \<noteq> 0 then None
        else asn1_uint64_loop (push_bit 8 out OR ucast b) data)"

definition CBS_get_asn1_uint64 :: "u64 get" where
  "CBS_get_asn1_uint64 = get_bind (CBS_get_asn1 CBS_ASN1_INTEGER) (\<lambda>bytes.
     if \<not> CBS_is_unsigned_asn1_integer bytes then get_fail
     else case asn1_uint64_loop 0 bytes of None \<Rightarrow> get_fail | Some out \<Rightarrow> get_return out)"

text \<open>The result is read as two's complement (\<open>sint\<close>).\<close>

definition CBS_get_asn1_int64 :: "u64 get" where
  "CBS_get_asn1_int64 = get_bind (CBS_get_asn1 CBS_ASN1_INTEGER) (\<lambda>bytes.
     case CBS_is_valid_asn1_integer bytes of
       None \<Rightarrow> get_fail
     | Some is_negative \<Rightarrow>
         if length bytes > 8 then get_fail
         else let sign_extend = replicate 8 (if is_negative then 0xff else 0) in
              get_return (CRYPTO_load_u64_be (take (8 - length bytes) sign_extend @ bytes)))"

definition CBS_get_asn1_bool :: "bool get" where
  "CBS_get_asn1_bool = get_bind (CBS_get_asn1 CBS_ASN1_BOOLEAN) (\<lambda>bytes.
     if length bytes \<noteq> 1 then get_fail
     else let value = hd bytes in
          if value \<noteq> 0 \<and> value \<noteq> 0xff then get_fail else get_return (value \<noteq> 0))"

text \<open>\<open>Some None\<close> is success with the element absent.\<close>

definition CBS_get_optional_asn1 :: "CBS_ASN1_TAG \<Rightarrow> bytes option get" where
  "CBS_get_optional_asn1 tag cbs
     = (if CBS_peek_asn1_tag tag cbs
        then get_bind (CBS_get_asn1 tag) (\<lambda>out. get_return (Some out)) cbs
        else (Some None, cbs))"

definition CBS_get_optional_asn1_octet_string :: "CBS_ASN1_TAG \<Rightarrow> (bytes \<times> bool) get" where
  "CBS_get_optional_asn1_octet_string tag = get_bind (CBS_get_optional_asn1 tag) (\<lambda>c.
     case c of
       None \<Rightarrow> get_return ([], False)
     | Some child \<Rightarrow>
         (case CBS_get_asn1 CBS_ASN1_OCTETSTRING child of
            (None, _) \<Rightarrow> get_fail
          | (Some out, child) \<Rightarrow>
              if length child \<noteq> 0 then get_fail else get_return (out, True)))"

definition CBS_get_optional_asn1_uint64 :: "CBS_ASN1_TAG \<Rightarrow> u64 \<Rightarrow> u64 get" where
  "CBS_get_optional_asn1_uint64 tag default_value = get_bind (CBS_get_optional_asn1 tag) (\<lambda>c.
     case c of
       None \<Rightarrow> get_return default_value
     | Some child \<Rightarrow>
         (case CBS_get_asn1_uint64 child of
            (None, _) \<Rightarrow> get_fail
          | (Some out, child) \<Rightarrow>
              if length child \<noteq> 0 then get_fail else get_return out))"

definition CBS_get_optional_asn1_bool :: "CBS_ASN1_TAG \<Rightarrow> int \<Rightarrow> int get" where
  "CBS_get_optional_asn1_bool tag default_value = get_bind (CBS_get_optional_asn1 tag) (\<lambda>c.
     case c of
       None \<Rightarrow> get_return default_value
     | Some child \<Rightarrow>
         (case CBS_get_asn1 CBS_ASN1_BOOLEAN child of
            (None, _) \<Rightarrow> get_fail
          | (Some child2, child) \<Rightarrow>
              if length child2 \<noteq> 1 \<or> length child \<noteq> 0 then get_fail
              else let boolean = hd child2 in
                   if boolean = 0 then get_return 0
                   else if boolean = 0xff then get_return 1
                   else get_fail))"

definition CBS_is_valid_asn1_bitstring :: "bytes \<Rightarrow> bool" where
  "CBS_is_valid_asn1_bitstring cbs
     = (case CBS_get_u8 cbs of
          (None, _) \<Rightarrow> False
        | (Some num_unused_bits, rest) \<Rightarrow>
            if num_unused_bits > 7 then False
            else if num_unused_bits = 0 then True
            else (case CBS_get_last_u8 rest of
                    (None, _) \<Rightarrow> False
                  | (Some last_byte, _) \<Rightarrow> last_byte AND (push_bit (unat num_unused_bits) 1 - 1) = 0))"

text \<open>\<open>bit_index\<close> is an \<^verbatim>\<open>unsigned\<close>.\<close>

definition CBS_asn1_bitstring_has_bit :: "bytes \<Rightarrow> u32 \<Rightarrow> bool" where
  "CBS_asn1_bitstring_has_bit cbs bit_index
     = (if \<not> CBS_is_valid_asn1_bitstring cbs then False
        else let byte_num = unat (drop_bit 3 bit_index + 1);
                 bit_num = unat (7 - (bit_index AND 7)) in
             byte_num < length cbs \<and> cbs ! byte_num AND push_bit bit_num 1 \<noteq> 0)"

fun oid_loop :: "u8 \<Rightarrow> bytes \<Rightarrow> bool" where
  "oid_loop prev [] = (prev AND 0x80 = 0)"
| "oid_loop prev (v # copy)
     = (if prev AND 0x80 = 0 \<and> v = 0x80 then False else oid_loop v copy)"

definition CBS_is_valid_asn1_oid :: "bytes \<Rightarrow> bool" where
  "CBS_is_valid_asn1_oid cbs = (if length cbs = 0 then False else oid_loop 0 cbs)"

end
