(* ===== verification/Codec.thy ===== *)
theory Codec
  imports Cbs
begin

text \<open>
  The contract between the writers and the readers of the byte string library.  The locale
  \<open>byte_codec\<close> states it for one kind of item: the reader gives back exactly what the writer wrote
  and stops right behind it, and accepts nothing else.  Its lemmas (encodings are unambiguous and
  prefix-free, sequences of items read back, a failing reader saw no encoding) are proved once here;
  the interpretations for the sized integers and the length-prefixed strings of \<^verbatim>\<open>cbs.c\<close> follow, those
  for ASN.1 and for characters are in the theories \<open>Der\<close> and \<open>Unicode\<close>.
\<close>

section \<open>What the readers compute\<close>

lemma CBS_get_u8_simps [simp]:
  "CBS_get_u8 [] = (None, [])"
  "CBS_get_u8 (b # cbs) = (Some b, cbs)"
  by (simp_all add: CBS_get_u8_def get_bind_def cbs_get_def)

lemma CBS_get_u8_Some: "CBS_get_u8 cbs = (Some b, rest) \<longleftrightarrow> cbs = b # rest"
  by (cases cbs) auto

lemma CBS_get_u8_None: "CBS_get_u8 cbs = (None, rest) \<longleftrightarrow> cbs = [] \<and> rest = []"
  by (cases cbs) auto

lemma CBS_get_bytes_eq [cbs_simps]:
  "CBS_get_bytes n cbs = (if length cbs < n then (None, cbs) else (Some (take n cbs), drop n cbs))"
  by (simp add: CBS_get_bytes_def get_bind_def cbs_get_def)

lemma CBS_skip_eq [cbs_simps]:
  "CBS_skip n cbs = (if length cbs < n then (None, cbs) else (Some (), drop n cbs))"
  by (simp add: CBS_skip_def get_bind_def cbs_get_def)

lemma word_shift_or_byte:
  assumes "8 \<le> LENGTH('a)"
  shows "push_bit 8 (word_of_nat a :: 'a::len word) OR ucast (b :: u8) = word_of_nat (a * 256 + unat b)"
proof -
  have "push_bit 8 (word_of_nat a :: 'a word) OR ucast b = push_bit 8 (word_of_nat a) + ucast b"
    by (rule shift_or_plus) (use assms byte_lt [of b] in \<open>simp add: unat_ucast_up\<close>)
  then show ?thesis by (simp add: push_bit_eq_mult)
qed

lemma be_fold: "foldl (\<lambda>r b. push_bit 8 r OR ucast b) (word_of_nat a :: u64) data
    = word_of_nat (a * 256 ^ length data + be_val data)"
proof (induction data arbitrary: a)
  case (Cons b data)
  have "push_bit 8 (word_of_nat a :: u64) OR ucast b = word_of_nat (a * 256 + unat b)"
    by (rule word_shift_or_byte) simp
  then show ?case
    using Cons [of "a * 256 + unat b"] by (simp only: foldl_Cons be_val_Cons) (simp add: algebra_simps)
qed simp

lemma cbs_get_u_eq [cbs_simps]:
  "cbs_get_u n cbs = (if length cbs < n then (None, cbs)
     else (Some (word_of_nat (be_val (take n cbs))), drop n cbs))"
  using be_fold [of 0] by (simp add: cbs_get_u_def get_bind_def cbs_get_def)

lemma cbs_get_u_Some:
  assumes "cbs_get_u n cbs = (Some w, rest)" "n \<le> 8"
  shows "cbs = be_bytes n (unat w) @ rest" "unat w < 256 ^ n"
proof -
  from assms(1) have n: "n \<le> length cbs" and w: "w = word_of_nat (be_val (take n cbs))"
    and r: "rest = drop n cbs"
    by (auto simp: cbs_get_u_eq split: if_splits)
  have lt: "be_val (take n cbs) < 256 ^ n"
    using be_val_bound [of "take n cbs"] n by simp
  also have "\<dots> \<le> 256 ^ 8"
    using assms(2) by (rule power_increasing) simp
  finally have u: "unat w = be_val (take n cbs)"
    by (simp add: w unat_of_nat)
  with lt show "unat w < 256 ^ n" by simp
  from n have "be_bytes n (unat w) = take n cbs"
    using be_bytes_be_val [of "take n cbs"] by (simp add: u)
  with r show "cbs = be_bytes n (unat w) @ rest" by simp
qed

lemma cbs_get_u_be_bytes:
  "cbs_get_u n (be_bytes n v @ rest) = (Some (word_of_nat (v mod 256 ^ n)), rest)"
  by (simp add: cbs_get_u_eq byte_order)

lemma reads_cbs_get [reads_intro]: "reads (cbs_get n)"
  by (rule readsI) (auto simp: cbs_get_def intro: exI [of _ 0])

lemma reads_primitives [reads_intro]:
  "reads (CBS_skip n)" "reads (cbs_get_u n)" "reads CBS_get_u8" "reads CBS_get_u16"
  "reads CBS_get_u24" "reads CBS_get_u32" "reads CBS_get_u64" "reads (CBS_get_bytes n)"
  "reads (cbs_get_length_prefixed n)"
  unfolding CBS_skip_def cbs_get_u_def CBS_get_u8_def CBS_get_u16_def CBS_get_u24_def
    CBS_get_u32_def CBS_get_u64_def CBS_get_bytes_def cbs_get_length_prefixed_def
  by (intro reads_intro)+

section \<open>The contract\<close>

text \<open>Reading items until the input is used up, as the loops over \<^verbatim>\<open>CBS_len(&cbs) != 0\<close> do.\<close>

fun get_many :: "nat \<Rightarrow> 'a get \<Rightarrow> bytes \<Rightarrow> 'a list option" where
  "get_many fuel p [] = Some []"
| "get_many 0 p (b # cbs) = None"
| "get_many (Suc fuel) p (b # cbs)
     = (case p (b # cbs) of
          (None, _) \<Rightarrow> None
        | (Some x, rest) \<Rightarrow> map_option (Cons x) (get_many fuel p rest))"

locale byte_codec =
  fixes dec :: "'a get" and enc :: "'a \<Rightarrow> bytes" and valid :: "'a \<Rightarrow> bool"
  assumes dec_enc: "valid x \<Longrightarrow> dec (enc x @ rest) = (Some x, rest)"
    and enc_dec: "dec cbs = (Some x, rest) \<Longrightarrow> valid x \<and> cbs = enc x @ rest"
begin

lemma dec_iff: "dec cbs = (Some x, rest) \<longleftrightarrow> valid x \<and> cbs = enc x @ rest"
  using dec_enc enc_dec by blast

text \<open>No encoding is a proper prefix of another, and a string has at most one reading.\<close>

lemma prefix_free:
  assumes "valid x" "valid y" "enc x @ r = enc y @ s"
  shows "x = y" "r = s"
proof -
  have "dec (enc x @ r) = (Some y, s)"
    unfolding assms(3) using assms(2) by (rule dec_enc)
  moreover have "dec (enc x @ r) = (Some x, r)"
    using assms(1) by (rule dec_enc)
  ultimately show "x = y" "r = s" by simp_all
qed

lemma enc_inj: "valid x \<Longrightarrow> valid y \<Longrightarrow> enc x = enc y \<Longrightarrow> x = y"
  using prefix_free(1) [of x y "[]" "[]"] by simp

lemma dec_None: "fst (dec cbs) = None \<longleftrightarrow> \<not> (\<exists>x rest. valid x \<and> cbs = enc x @ rest)"
proof (cases "dec cbs")
  case (Pair r rest)
  then show ?thesis
    unfolding dec_iff [symmetric] by (cases r) simp_all
qed

end

locale byte_codec_nonempty = byte_codec +
  assumes enc_nonempty: "valid x \<Longrightarrow> enc x \<noteq> []"
begin

lemma get_many_concat:
  "list_all valid xs \<Longrightarrow> length (concat (map enc xs)) \<le> fuel \<Longrightarrow>
   get_many fuel dec (concat (map enc xs)) = Some xs"
proof (induction xs arbitrary: fuel)
  case (Cons x xs)
  from Cons.prems obtain b bs where b: "enc x = b # bs"
    using enc_nonempty [of x] by (cases "enc x") auto
  with Cons.prems obtain fuel' where f: "fuel = Suc fuel'"
    by (cases fuel) auto
  have "dec (b # bs @ concat (map enc xs)) = (Some x, concat (map enc xs))"
    using dec_enc [of x "concat (map enc xs)"] Cons.prems b by simp
  moreover have "get_many fuel' dec (concat (map enc xs)) = Some xs"
    using Cons b f by simp
  ultimately show ?case by (simp add: b f)
qed simp

lemma get_many_Some:
  "get_many fuel dec cbs = Some xs \<Longrightarrow> list_all valid xs \<and> cbs = concat (map enc xs)"
proof (induction fuel arbitrary: cbs xs)
  case 0
  then show ?case by (cases cbs) auto
next
  case (Suc fuel)
  show ?case
  proof (cases cbs)
    case (Cons b bs)
    with Suc.prems obtain x rest ys where "dec cbs = (Some x, rest)"
      and ys: "get_many fuel dec rest = Some ys" "xs = x # ys"
      by (auto split: prod.splits option.splits)
    then have "valid x \<and> cbs = enc x @ rest" by (simp add: dec_iff)
    with Suc.IH [OF ys(1)] ys(2) show ?thesis by simp
  qed (use Suc.prems in auto)
qed

lemma get_many_iff:
  "get_many (length cbs) dec cbs = Some xs \<longleftrightarrow> list_all valid xs \<and> cbs = concat (map enc xs)"
  using get_many_concat get_many_Some by blast

end

section \<open>Sized integers\<close>

text \<open>
  An item of \<open>n\<close> bytes read as a 64-bit number and narrowed to its type: \<open>n\<close> bytes hold every
  valid value.
\<close>

lemma sized_codec:
  assumes dec: "\<And>cbs. dec cbs = get_bind (cbs_get_u n) (\<lambda>v. get_return (ucast v :: 'a::len word)) cbs"
    and n: "n \<le> 8" "8 * n \<le> LENGTH('a)" "0 < n"
  shows "byte_codec_nonempty dec (\<lambda>x :: 'a word. be_bytes n (unat x)) (\<lambda>x. unat x < 256 ^ n)"
proof unfold_locales
  have le: "(256 :: nat) ^ n \<le> 2 ^ LENGTH('a)" "(256 :: nat) ^ n \<le> 2 ^ 64"
    using n by (simp_all add: pow256_le pow256_le_size)
  fix x :: "'a word" and rest
  assume x: "unat x < 256 ^ n"
  with le have "unat (word_of_nat (unat x) :: u64) = unat x"
    by (simp add: unat_ucast_mod)
  then have "ucast (word_of_nat (unat x) :: u64) = x"
    by (simp add: word_unat_eq_iff unat_ucast_mod)
  with x show "dec (be_bytes n (unat x) @ rest) = (Some x, rest)"
    by (simp add: dec get_bind_def cbs_get_u_be_bytes)
next
  fix cbs rest and x :: "'a word"
  assume "dec cbs = (Some x, rest)"
  then obtain w where w: "cbs_get_u n cbs = (Some w, rest)" and x: "x = ucast w"
    by (auto simp: dec get_bind_Some)
  note c = cbs_get_u_Some [OF w n(1)]
  have "(256 :: nat) ^ n \<le> 2 ^ LENGTH('a)"
    using n by (simp add: pow256_le)
  with c(2) have "unat x = unat w"
    by (simp add: x unat_ucast_mod)
  with c show "unat x < 256 ^ n \<and> cbs = be_bytes n (unat x) @ rest" by simp
qed (use n in \<open>auto simp: simp flip: length_0_conv\<close>)


interpretation u8: byte_codec_nonempty CBS_get_u8 "\<lambda>x. [x]" "\<lambda>x. True"
  by unfold_locales (auto simp: CBS_get_u8_Some)

interpretation u16: byte_codec_nonempty CBS_get_u16 "\<lambda>x. be_bytes 2 (unat x)" "\<lambda>x. unat x < 256 ^ 2"
  by (rule sized_codec) (simp_all add: CBS_get_u16_def)

interpretation u24: byte_codec_nonempty CBS_get_u24 "\<lambda>x. be_bytes 3 (unat x)" "\<lambda>x. unat x < 256 ^ 3"
  by (rule sized_codec) (simp_all add: CBS_get_u24_def)

interpretation u32: byte_codec_nonempty CBS_get_u32 "\<lambda>x. be_bytes 4 (unat x)" "\<lambda>x. unat x < 256 ^ 4"
  by (rule sized_codec) (simp_all add: CBS_get_u32_def)

lemma CBS_get_u64_ucast: "CBS_get_u64 cbs = get_bind (cbs_get_u 8) (\<lambda>v. get_return (ucast v)) cbs"
  by (simp add: CBS_get_u64_def get_bind_def split: prod.splits option.splits)

interpretation u64: byte_codec_nonempty CBS_get_u64 "\<lambda>x. be_bytes 8 (unat x)" "\<lambda>x. unat x < 256 ^ 8"
  by (rule sized_codec) (simp_all add: CBS_get_u64_ucast)

text \<open>The little-endian readers are the big-endian ones behind a byte swap.\<close>

lemma codec_map:
  assumes c: "byte_codec_nonempty dec enc valid" and f: "\<And>x. g (f x) = x" "\<And>x. f (g x) = x"
  shows "byte_codec_nonempty (get_bind dec (\<lambda>x. get_return (f x))) (\<lambda>y. enc (g y)) (\<lambda>y. valid (g y))"
proof -
  note c' = byte_codec_nonempty.axioms(1) [OF c]
  show ?thesis
  proof unfold_locales
    fix y rest assume "valid (g y)"
    then show "get_bind dec (\<lambda>x. get_return (f x)) (enc (g y) @ rest) = (Some y, rest)"
      by (simp add: get_bind_def byte_codec.dec_enc [OF c'] f)
  next
    fix cbs y rest
    assume "get_bind dec (\<lambda>x. get_return (f x)) cbs = (Some y, rest)"
    then show "valid (g y) \<and> cbs = enc (g y) @ rest"
      by (auto simp: get_bind_Some f dest: byte_codec.enc_dec [OF c'])
  qed (rule byte_codec_nonempty.enc_nonempty [OF c])
qed

lemma be_bytes_bswap:
  "be_bytes 2 (unat (CRYPTO_bswap2 a)) = le_bytes 2 (unat a)"
  "be_bytes 4 (unat (CRYPTO_bswap4 b)) = le_bytes 4 (unat b)"
  "be_bytes 8 (unat (CRYPTO_bswap8 c)) = le_bytes 8 (unat c)"
  using CRYPTO_bswap2_bytes [of a] CRYPTO_bswap4_bytes [of b] CRYPTO_bswap8_bytes [of c]
  by (simp_all add: be_bytes_def)

interpretation u16le: byte_codec_nonempty CBS_get_u16le "\<lambda>x. le_bytes 2 (unat x)"
  "\<lambda>x. unat (CRYPTO_bswap2 x) < 256 ^ 2"
  using codec_map [where f = CRYPTO_bswap2 and g = CRYPTO_bswap2, OF u16.byte_codec_nonempty_axioms]
  by (simp add: be_bytes_bswap CBS_get_u16le_def)

interpretation u32le: byte_codec_nonempty CBS_get_u32le "\<lambda>x. le_bytes 4 (unat x)"
  "\<lambda>x. unat (CRYPTO_bswap4 x) < 256 ^ 4"
  using codec_map [where f = CRYPTO_bswap4 and g = CRYPTO_bswap4, OF u32.byte_codec_nonempty_axioms]
  by (simp add: be_bytes_bswap CBS_get_u32le_def)

interpretation u64le: byte_codec_nonempty CBS_get_u64le "\<lambda>x. le_bytes 8 (unat x)"
  "\<lambda>x. unat (CRYPTO_bswap8 x) < 256 ^ 8"
  using codec_map [where f = CRYPTO_bswap8 and g = CRYPTO_bswap8, OF u64.byte_codec_nonempty_axioms]
  by (simp add: be_bytes_bswap CBS_get_u64le_def CBS_get_u64_def)

section \<open>Length-prefixed strings\<close>

lemma length_prefixed_codec:
  assumes "0 < n" "n \<le> 3"
  shows "byte_codec_nonempty (cbs_get_length_prefixed n) (\<lambda>c. be_bytes n (length c) @ c)
           (\<lambda>c. length c < 256 ^ n)"
proof unfold_locales
  fix c rest assume "length (c :: bytes) < 256 ^ n"
  moreover from this have "length c < size_bound"
    using pow256_le_size [of n] assms by simp
  ultimately show "cbs_get_length_prefixed n ((be_bytes n (length c) @ c) @ rest) = (Some c, rest)"
    by (simp add: cbs_get_length_prefixed_def get_bind_def cbs_simps byte_order unat_of_nat)
next
  fix cbs c rest
  assume "cbs_get_length_prefixed n cbs = (Some c, rest)"
  then obtain w cbs' where w: "cbs_get_u n cbs = (Some w, cbs')"
    and c: "CBS_get_bytes (unat w) cbs' = (Some c, rest)"
    by (auto simp: cbs_get_length_prefixed_def get_bind_Some)
  note w' = cbs_get_u_Some [OF w]
  from c have "length c = unat w" "cbs' = c @ rest"
    by (auto simp: cbs_simps split: if_splits)
  with w' assms show "length c < 256 ^ n \<and> cbs = (be_bytes n (length c) @ c) @ rest" by simp
qed (use assms in \<open>auto simp flip: length_0_conv\<close>)

interpretation u8lp: byte_codec_nonempty CBS_get_u8_length_prefixed
  "\<lambda>c. be_bytes 1 (length c) @ c" "\<lambda>c. length c < 256 ^ 1"
  unfolding CBS_get_u8_length_prefixed_def by (rule length_prefixed_codec) simp_all

interpretation u16lp: byte_codec_nonempty CBS_get_u16_length_prefixed
  "\<lambda>c. be_bytes 2 (length c) @ c" "\<lambda>c. length c < 256 ^ 2"
  unfolding CBS_get_u16_length_prefixed_def by (rule length_prefixed_codec) simp_all

interpretation u24lp: byte_codec_nonempty CBS_get_u24_length_prefixed
  "\<lambda>c. be_bytes 3 (length c) @ c" "\<lambda>c. length c < 256 ^ 3"
  unfolding CBS_get_u24_length_prefixed_def by (rule length_prefixed_codec) simp_all

section \<open>Splitting and comparing\<close>

lemma CBS_get_until_first_Some:
  "CBS_get_until_first c cbs = (Some out, rest) \<longleftrightarrow>
     cbs = out @ rest \<and> c \<notin> set out \<and> rest \<noteq> [] \<and> hd rest = c"
proof
  assume "CBS_get_until_first c cbs = (Some out, rest)"
  then obtain i where "OPENSSL_memchr cbs c = Some i" "out = take i cbs" "rest = drop i cbs"
    by (auto simp: CBS_get_until_first_def cbs_simps split: option.splits if_splits)
  then show "cbs = out @ rest \<and> c \<notin> set out \<and> rest \<noteq> [] \<and> hd rest = c"
    by (auto simp: OPENSSL_memchr_Some hd_drop_conv_nth)
next
  assume r: "cbs = out @ rest \<and> c \<notin> set out \<and> rest \<noteq> [] \<and> hd rest = c"
  then have "OPENSSL_memchr cbs c = Some (length out)"
    by (auto simp: OPENSSL_memchr_Some nth_append hd_conv_nth)
  with r show "CBS_get_until_first c cbs = (Some out, rest)"
    by (simp add: CBS_get_until_first_def cbs_simps)
qed

lemma CBS_mem_equal_iff: "length data = len \<Longrightarrow> CBS_mem_equal cbs data len \<longleftrightarrow> cbs = data"
  by (auto simp: CBS_mem_equal_def CRYPTO_memcmp_zero_iff)

lemma CBS_contains_zero_byte_iff: "CBS_contains_zero_byte cbs \<longleftrightarrow> 0 \<in> set cbs"
  using OPENSSL_memchr_None [of cbs 0] by (simp add: CBS_contains_zero_byte_def)

lemma CBS_get_last_u8_Some: "CBS_get_last_u8 cbs = (Some b, rest) \<longleftrightarrow> cbs = rest @ [b]"
  by (cases cbs rule: rev_cases) (auto simp: CBS_get_last_u8_def)

end
