(* ===== verification/Der.thy ===== *)
theory Der
  imports Codec
begin

text \<open>
  What DER is, as a writer on abstract values, and the proof that the parser of \<^verbatim>\<open>cbs.c\<close> accepts
  exactly these encodings: the tag and length of an element are minimal and unique.  \<open>base128\<close>,
  \<open>der_tag\<close>, \<open>der_length\<close> and \<open>der_element\<close> are the specification (ITU-T X.690, sections 8.1.2,
  8.1.3 and 10.1); the theorems relate them to \<open>parse_base128_integer\<close>, \<open>parse_asn1_tag\<close> and
  \<open>cbs_get_any_asn1_element\<close>.
\<close>

section \<open>Base-128 integers\<close>

text \<open>The digits above the last one, each with its continuation bit.\<close>

fun base128_high :: "nat \<Rightarrow> bytes" where
  "base128_high v = (if v = 0 then [] else base128_high (v div 128) @ [word_of_nat (v mod 128 + 128)])"

declare base128_high.simps [simp del]

definition base128 :: "nat \<Rightarrow> bytes" where
  "base128 v = base128_high (v div 128) @ [word_of_nat (v mod 128)]"

lemma base128_high_0 [simp]: "base128_high 0 = []"
  by (simp add: base128_high.simps)

lemma base128_high_pos:
  "0 < v \<Longrightarrow> base128_high v = base128_high (v div 128) @ [word_of_nat (v mod 128 + 128)]"
  by (simp add: base128_high.simps [of v])

text \<open>One byte of the code's loop: its low seven bits and its top bit.\<close>

lemma byte_low7: "unat ((b :: u8) AND 0x7f) = unat b mod 128"
  using unat_and_mask [of b 7] by (simp add: mask_eq_exp_minus_1)

lemma byte_bit7: "(b :: u8) AND 0x80 \<noteq> 0 \<longleftrightarrow> 128 \<le> unat b"
  using and_exp_eq_0_iff_not_bit [of b 7] word_top_bit_iff [of 7 b] by simp

lemma byte_bit7_zero: "(b :: u8) AND 0x80 = 0 \<longleftrightarrow> unat b < 128"
  using byte_bit7 [of b] by auto

lemma byte_high_mod: "128 \<le> unat (b :: u8) \<Longrightarrow> unat b = 128 + unat b mod 128"
proof -
  assume b: "128 \<le> unat b"
  then have "unat b - 128 < 128" using byte_lt [of b] by linarith
  with b show ?thesis by (simp add: le_mod_geq)
qed

lemma base128_step:
  assumes "unat (v :: u64) < 2 ^ 57"
  shows "unat (push_bit 7 v OR ucast ((b :: u8) AND 0x7f)) = unat v * 128 + unat b mod 128"
proof -
  have u: "unat (ucast (b AND 0x7f) :: u64) = unat b mod 128"
    by (simp add: unat_ucast_up byte_low7)
  have "push_bit 7 v OR ucast (b AND 0x7f) = push_bit 7 v + ucast (b AND 0x7f)"
    by (rule shift_or_plus) (simp add: u)
  moreover have "unat v * 128 + unat b mod 128 < 2 ^ 64"
    using assms by (simp add: mod_less_divisor [of 128] less_le_trans)
  ultimately show ?thesis
    by (simp add: unat_word_ariths unat_push_bit u)
qed


lemma base128_loop_high:
  assumes "v < 2 ^ 57"
  shows "parse_base128_loop 0 (base128_high v @ rest) = parse_base128_loop (word_of_nat v) rest"
  using assms
proof (induction v arbitrary: rest rule: base128_high.induct)
  case (1 v)
  show ?case
  proof (cases "v = 0")
    case False
    define w where "w = (word_of_nat (v div 128) :: u64)"
    define b where "b = (word_of_nat (v mod 128 + 128) :: u8)"
    have w: "unat w = v div 128"
      using "1.prems" by (simp add: w_def unat_of_nat)
    have b: "unat b = v mod 128 + 128"
      unfolding b_def by (rule byte_exhaust_nat) (use mod_less_divisor [of 128 v] in linarith)
    have w57: "unat w < 2 ^ 57"
      using "1.prems" w by simp
    then have ok: "drop_bit 57 w = 0"
      by (simp add: shift_zero_iff)
    have nz: "\<not> (w = 0 \<and> b = 0x80)"
      using False b w by (auto simp: word_unat_eq_iff)
    have step: "push_bit 7 w OR ucast (b AND 0x7f) = word_of_nat v"
      using base128_step [OF w57, of b] "1.prems"
      by (simp add: word_unat_eq_iff w b unat_of_nat)
    have top: "b AND 0x80 \<noteq> 0"
      unfolding byte_bit7 b by simp
    have "parse_base128_loop 0 (base128_high (v div 128) @ b # rest)
        = parse_base128_loop w (b # rest)"
      using "1.IH" [OF False] "1.prems" by (simp add: w_def)
    also have "\<dots> = parse_base128_loop (word_of_nat v) rest"
      using ok nz step top by (auto simp: Let_def)
    finally show ?thesis
      using base128_high_pos [of v] False by (simp add: b_def)
  qed simp
qed

lemma base128_parse:
  assumes "v < 2 ^ 64"
  shows "parse_base128_integer (base128 v @ rest) = (Some (word_of_nat v), rest)"
proof -
  let ?w = "word_of_nat (v div 128) :: u64" and ?b = "word_of_nat (v mod 128) :: u8"
  have w: "unat ?w = v div 128" and b: "unat ?b = v mod 128"
    using assms by (simp_all add: unat_of_nat)
  have w57: "v div 128 < 2 ^ 57"
    using assms by (simp add: less_mult_imp_div_less)
  have "parse_base128_integer (base128 v @ rest) = parse_base128_loop ?w (?b # rest)"
    using base128_loop_high [OF w57] by (simp add: parse_base128_integer_def base128_def)
  moreover have "drop_bit 57 ?w = 0"
    using w57 by (simp add: shift_zero_iff w)
  moreover have "?b AND 0x80 = 0"
    unfolding byte_bit7_zero b by simp
  moreover have "?b \<noteq> 0x80"
    using b by (auto simp: word_unat_eq_iff)
  moreover have "push_bit 7 ?w OR ucast (?b AND 0x7f) = (word_of_nat v :: u64)"
    using base128_step [of ?w ?b] w57 assms by (simp add: word_unat_eq_iff w b unat_of_nat)
  ultimately show ?thesis by (simp add: Let_def)
qed

lemma parse_base128_sound:
  assumes "parse_base128_loop a cbs = (Some v, rest)"
  shows "\<exists>pre. cbs = pre @ rest \<and> base128_high (unat a) @ pre = base128 (unat v)"
  using assms
proof (induction a cbs rule: parse_base128_loop.induct)
  case (2 a b cbs)
  let ?v = "push_bit 7 a OR ucast (b AND 0x7f)"
  from "2.prems" have a: "unat a < 2 ^ 57" and nz: "\<not> (a = 0 \<and> b = 0x80)"
    by (auto simp: shift_zero_iff [of 57, simplified] split: if_splits)
  have v: "unat ?v = unat a * 128 + unat b mod 128"
    using base128_step [OF a] .
  then have div_mod: "unat ?v div 128 = unat a" "unat ?v mod 128 = unat b mod 128"
    by simp_all
  show ?case
  proof (cases "b AND 0x80 = 0")
    case True
    then have b: "unat b < 128" by (simp add: byte_bit7_zero)
    from True "2.prems" a nz have "v = ?v" "rest = cbs"
      by (auto simp: Let_def shift_zero_iff split: if_splits)
    moreover from b have "word_of_nat (unat b mod 128) = b" by simp
    ultimately show ?thesis
      by (intro exI [of _ "[b]"]) (simp add: base128_def div_mod)
  next
    case False
    then have b: "128 \<le> unat b" by (simp add: byte_bit7)
    have bm: "unat b mod 128 + 128 = unat b"
      using byte_high_mod [OF b] by simp
    have d: "\<not> drop_bit (64 - 7) a \<noteq> 0"
      using a by (simp add: shift_zero_iff)
    have loop: "parse_base128_loop ?v cbs = (Some v, rest)"
      using "2.prems" False d nz by (simp only: parse_base128_loop.simps Let_def if_False if_True not_not not_False_eq_True)
    from "2.IH" [OF d nz refl False loop] obtain pre where
      pre: "cbs = pre @ rest" "base128_high (unat ?v) @ pre = base128 (unat v)"
      by blast
    have "unat ?v \<noteq> 0"
    proof
      assume "unat ?v = 0"
      then have "unat a = 0" "unat b mod 128 = 0" using v by simp_all
      with nz bm show False by (auto simp: word_unat_eq_iff)
    qed
    then have "base128_high (unat ?v) = base128_high (unat a) @ [word_of_nat (unat b mod 128 + 128)]"
      using base128_high_pos [of "unat ?v"] by (simp only: div_mod)
    then have "base128_high (unat ?v) = base128_high (unat a) @ [b]"
      by (simp only: bm of_nat_unat ucast_id)
    with pre show ?thesis
      by (intro exI [of _ "b # pre"]) simp
  qed
qed simp

interpretation b128: byte_codec parse_base128_integer "\<lambda>v. base128 (unat v)" "\<lambda>v. True"
proof unfold_locales
  show "parse_base128_integer (base128 (unat x) @ rest) = (Some x, rest)" for x rest
    using base128_parse [of "unat x" rest] unsigned_less [of x, where 'a = nat] by simp
  show "True \<and> cbs = base128 (unat x) @ rest"
    if "parse_base128_integer cbs = (Some x, rest)" for cbs x rest
    using parse_base128_sound [of 0 cbs x rest] that by (auto simp: parse_base128_integer_def)
qed


section \<open>Tags\<close>

text \<open>
  A tag number that fits in five bits and is not 31 goes into the leading byte, otherwise the
  leading byte is marked with 31 and the number follows in base 128.  Universal tag 0 is reserved
  and is no tag.
\<close>

definition tag_bits :: "CBS_ASN1_TAG \<Rightarrow> nat" where
  "tag_bits tag = unat tag div 2 ^ 29 * 32"

definition tag_number :: "CBS_ASN1_TAG \<Rightarrow> nat" where
  "tag_number tag = unat tag mod 2 ^ 29"

definition der_tag :: "CBS_ASN1_TAG \<Rightarrow> bytes" where
  "der_tag tag
     = (if tag_number tag < 31 then [word_of_nat (tag_bits tag + tag_number tag)]
        else word_of_nat (tag_bits tag + 31) # base128 (tag_number tag))"

definition valid_tag :: "CBS_ASN1_TAG \<Rightarrow> bool" where
  "valid_tag tag \<longleftrightarrow> tag AND NOT CBS_ASN1_CONSTRUCTED \<noteq> 0"

lemma byte_low5: "unat ((ucast (b :: u8) :: u32) AND 0x1f) = unat b mod 32"
  using unat_and_mask [of "ucast b :: u32" 5] by (simp add: mask_eq_exp_minus_1 unat_ucast_up)

lemma byte_high3: "unat (push_bit 24 (ucast (b :: u8) AND 0xe0) :: u32) = unat b div 32 * 2 ^ 29"
proof -
  have oob: "\<not> bit b m" if "8 \<le> m" for m
    using bit_imp_le_length [of b m] that by auto
  have "push_bit 24 (ucast b AND 0xe0) = (push_bit 29 (ucast (drop_bit 5 b)) :: u32)"
  proof (rule bit_word_eqI)
    fix n assume "n < LENGTH(32)"
    then consider "n < 29" | "n = 29" | "n = 30" | "n = 31" by fastforce
    moreover have "\<not> bit (3758096384 :: u32) n" if "n < 29"
    proof -
      have e: "(3758096384 :: u32) = push_bit 29 7" by simp
      show ?thesis unfolding e bit_push_bit_iff using that by simp
    qed
    ultimately show "bit (push_bit 24 (ucast b AND 0xe0) :: u32) n
        \<longleftrightarrow> bit (push_bit 29 (ucast (drop_bit 5 b)) :: u32) n"
      by cases (auto simp: bit_simps oob)
  qed
  moreover have "unat b div 32 < 8" using byte_lt [of b] by (simp only: less_mult_imp_div_less)
  ultimately show ?thesis
    by (simp add: unat_push_bit unat_ucast_up unat_drop_bit)
qed

text \<open>The word the code assembles from the leading bits and a tag number.\<close>

lemma tag_word:
  fixes b :: u8 and num :: u32
  assumes "unat num < 2 ^ 29"
  defines "t \<equiv> push_bit CBS_ASN1_TAG_SHIFT (ucast b AND 0xe0) OR num"
  shows "tag_bits t = unat b div 32 * 32" "tag_number t = unat num"
proof -
  define h where "h = (push_bit 24 (ucast b AND 0xe0) :: u32)"
  have d: "unat b div 32 < 8" using byte_lt [of b] by (simp only: less_mult_imp_div_less)
  have uh: "unat h = unat b div 32 * 2 ^ 29"
    unfolding h_def by (rule byte_high3)
  have h: "h = push_bit 29 (ucast (drop_bit 5 b))"
    using d by (simp add: word_unat_eq_iff uh unat_push_bit unat_ucast_up unat_drop_bit)
  have "t = h + num"
    unfolding t_def CBS_ASN1_TAG_SHIFT_def h_def [symmetric] h
    by (rule shift_or_plus) (use assms in simp)
  then have "unat t = (unat b div 32 * 2 ^ 29 + unat num) mod 2 ^ 32"
    by (simp add: unat_word_ariths uh)
  also have "\<dots> = unat b div 32 * 2 ^ 29 + unat num"
    using assms d by (intro mod_less) simp
  finally have t: "unat t = unat num + unat b div 32 * 2 ^ 29" by simp
  then show "tag_number t = unat num"
    using assms by (simp add: tag_number_def)
  have "unat t div 2 ^ 29 = unat b div 32"
    unfolding t using assms by simp
  then show "tag_bits t = unat b div 32 * 32"
    by (simp add: tag_bits_def)
qed

lemma tag_eqI: "tag_bits s = tag_bits t \<Longrightarrow> tag_number s = tag_number t \<Longrightarrow> s = t"
  unfolding tag_bits_def tag_number_def word_unat_eq_iff by (metis div_mod_decomp mult_cancel2 zero_neq_numeral)

lemma tag_bits_less: "tag_bits t \<le> 224" "tag_number t < 2 ^ 29"
proof -
  have "unat t div 2 ^ 29 < 8"
    using unsigned_less [of t, where 'a = nat] by (simp add: less_mult_imp_div_less)
  then show "tag_bits t \<le> 224" by (simp add: tag_bits_def)
qed (simp add: tag_number_def)


text \<open>The tag parser, one byte unfolded: \<open>tag_make\<close> is its common exit.\<close>

definition tag_make :: "u8 \<Rightarrow> u32 \<Rightarrow> CBS_ASN1_TAG get" where
  "tag_make b num = (let tag = push_bit CBS_ASN1_TAG_SHIFT (ucast b AND 0xe0) OR num in
     if valid_tag tag then get_return tag else get_fail)"

lemma low5_31: "(ucast (b :: u8) :: u32) AND 0x1f = 0x1f \<longleftrightarrow> unat b mod 32 = 31"
  using byte_low5 [of b] by (simp add: word_unat_eq_iff)

lemma parse_asn1_tag_Cons:
  "parse_asn1_tag (b # cbs)
     = (if unat b mod 32 = 31
        then (case parse_base128_integer cbs of
                (None, r) \<Rightarrow> (None, r)
              | (Some v, r) \<Rightarrow> if 2 ^ 29 \<le> unat v \<or> unat v < 31 then (None, r)
                               else tag_make b (ucast v) r)
        else tag_make b (ucast b AND 0x1f) cbs)"
proof -
  have gt: "ucast CBS_ASN1_TAG_NUMBER_MASK < v \<longleftrightarrow> 2 ^ 29 \<le> unat v" for v :: u64
    by (auto simp: word_less_nat_alt)
  have lt: "v < 0x1f \<longleftrightarrow> unat v < 31" for v :: u64
    by (simp add: word_less_nat_alt)
  show ?thesis
    unfolding parse_asn1_tag_def get_bind_def CBS_get_u8_simps gt lt
    by (simp add: low5_31 tag_make_def valid_tag_def get_bind_def Let_def del: CBS_ASN1_constants
        split: prod.split option.split)
qed

lemma parse_asn1_tag_Nil [simp]: "parse_asn1_tag [] = (None, [])"
  by (simp add: parse_asn1_tag_def get_bind_def)

lemma tag_make_Some:
  assumes "unat num < 2 ^ 29"
  shows "tag_make b num cbs = (Some tag, rest)
    \<longleftrightarrow> valid_tag tag \<and> rest = cbs \<and> tag_bits tag = unat b div 32 * 32 \<and> tag_number tag = unat num"
  using tag_word [OF assms, of b] tag_eqI [of tag "push_bit CBS_ASN1_TAG_SHIFT (ucast b AND 0xe0) OR num"]
  by (auto simp: tag_make_def Let_def)

lemma tag_byte:
  assumes "k < 32"
  shows "unat (word_of_nat (tag_bits tag + k) :: u8) = tag_bits tag + k"
    "(tag_bits tag + k) div 32 * 32 = tag_bits tag" "(tag_bits tag + k) mod 32 = k"
proof -
  show "unat (word_of_nat (tag_bits tag + k) :: u8) = tag_bits tag + k"
    by (rule byte_exhaust_nat) (use assms tag_bits_less(1) [of tag] in linarith)
  show "(tag_bits tag + k) div 32 * 32 = tag_bits tag" "(tag_bits tag + k) mod 32 = k"
    using assms by (simp_all add: tag_bits_def)
qed

lemma parse_der_tag:
  assumes "valid_tag tag"
  shows "parse_asn1_tag (der_tag tag @ rest) = (Some tag, rest)"
proof (cases "tag_number tag < 31")
  case True
  define b where "b = (word_of_nat (tag_bits tag + tag_number tag) :: u8)"
  note b = tag_byte [of "tag_number tag" tag, folded b_def]
  have num: "unat ((ucast b :: u32) AND 0x1f) = tag_number tag"
    using True by (simp only: byte_low5 b)
  have "tag_make b (ucast b AND 0x1f) rest = (Some tag, rest)"
    by (subst tag_make_Some) (use assms True b num in simp_all)
  moreover have "der_tag tag = [b]"
    using True by (simp only: der_tag_def b_def if_True)
  ultimately show ?thesis
    using True b by (simp add: parse_asn1_tag_Cons)
next
  case False
  define b where "b = (word_of_nat (tag_bits tag + 31) :: u8)"
  have b: "unat b = tag_bits tag + 31" "(tag_bits tag + 31) div 32 * 32 = tag_bits tag"
    "(tag_bits tag + 31) mod 32 = 31"
    using tag_byte [of 31 tag, folded b_def] by simp_all
  define v where "v = (word_of_nat (tag_number tag) :: u64)"
  have n: "tag_number tag < 2 ^ 29" by (rule tag_bits_less)
  then have v: "unat v = tag_number tag" by (simp add: v_def unat_of_nat)
  then have uv: "unat (ucast v :: u32) = tag_number tag"
    using n by (simp add: unat_ucast_mod)
  have "parse_base128_integer (base128 (tag_number tag) @ rest) = (Some v, rest)"
    unfolding v_def by (rule base128_parse) (use n in simp)
  moreover have "tag_make b (ucast v) rest = (Some tag, rest)"
    by (subst tag_make_Some) (use assms n uv b in simp_all)
  moreover have "der_tag tag = b # base128 (tag_number tag)"
    using False by (simp only: der_tag_def b_def if_False)
  ultimately show ?thesis
    using False b n v by (simp add: parse_asn1_tag_Cons)
qed

lemma parse_tag_sound:
  assumes "parse_asn1_tag cbs = (Some tag, rest)"
  shows "valid_tag tag \<and> cbs = der_tag tag @ rest"
proof (cases cbs)
  case (Cons b cs)
  have b: "unat b = unat b div 32 * 32 + unat b mod 32" by simp
  show ?thesis
  proof (cases "unat b mod 32 = 31")
    case True
    with assms Cons obtain v where v: "parse_base128_integer cs = (Some v, rest)"
      "unat v < 2 ^ 29" "31 \<le> unat v" and m: "tag_make b (ucast v) rest = (Some tag, rest)"
      by (auto simp: parse_asn1_tag_Cons tag_make_def Let_def not_le not_less
          split: prod.splits option.splits if_splits)
    have uv: "unat (ucast v :: u32) = unat v"
      using v(2) by (simp add: unat_ucast_mod)
    with m v(2) have t: "valid_tag tag" "tag_bits tag = unat b div 32 * 32" "tag_number tag = unat v"
      by (simp_all add: tag_make_Some)
    have "cs = base128 (unat v) @ rest"
      using b128.enc_dec [OF v(1)] by simp
    moreover have "tag_bits tag + 31 = unat b"
      using b True t(2) by linarith
    then have "word_of_nat (tag_bits tag + 31) = b"
      by (simp only: of_nat_unat ucast_id)
    ultimately show ?thesis
      using t v(3) Cons by (simp add: der_tag_def)
  next
    case False
    have n: "unat ((ucast b :: u32) AND 0x1f) < 2 ^ 29"
      by (rule order_less_trans [of _ 32]) (simp_all only: byte_low5, simp_all)
    from False assms Cons have m: "tag_make b (ucast b AND 0x1f) cs = (Some tag, rest)"
      by (simp add: parse_asn1_tag_Cons)
    then have t: "valid_tag tag" "rest = cs" "tag_bits tag = unat b div 32 * 32"
      "tag_number tag = unat b mod 32"
      unfolding tag_make_Some [OF n] byte_low5 by simp_all
    have "unat b mod 32 < 31" using False mod_less_divisor [of 32 "unat b"] by linarith
    moreover have "tag_bits tag + tag_number tag = unat b"
      using b t(3,4) by linarith
    then have "word_of_nat (tag_bits tag + tag_number tag) = b"
      by (simp only: of_nat_unat ucast_id)
    ultimately show ?thesis using t Cons by (simp add: der_tag_def)
  qed
qed (use assms in simp)

interpretation tag: byte_codec parse_asn1_tag der_tag valid_tag
  by unfold_locales (rule parse_der_tag, assumption, rule parse_tag_sound)


section \<open>Lengths\<close>

text \<open>How many bytes a positive number needs, and the minimal length octets.\<close>

fun byte_count :: "nat \<Rightarrow> nat" where
  "byte_count n = (if n < 256 then 1 else Suc (byte_count (n div 256)))"

declare byte_count.simps [simp del]

definition der_length :: "nat \<Rightarrow> bytes" where
  "der_length n = (if n < 128 then [word_of_nat n]
     else word_of_nat (128 + byte_count n) # be_bytes (byte_count n) n)"

lemma byte_count_pos [simp]: "0 < byte_count n"
  by (subst byte_count.simps) simp

lemma byte_count_bounds: "n < 256 ^ byte_count n" "0 < n \<Longrightarrow> 256 ^ (byte_count n - 1) \<le> n"
proof -
  have "n < 256 ^ byte_count n \<and> (0 < n \<longrightarrow> 256 ^ (byte_count n - 1) \<le> n)"
  proof (induction n rule: byte_count.induct)
    case (1 n)
    show ?case
    proof (cases "n < 256")
      case False
      let ?k = "byte_count (n div 256)"
      have c: "byte_count n = Suc ?k" using False by (subst byte_count.simps) simp
      from "1.IH" [OF False] have lt: "n div 256 < 256 ^ ?k" and ge: "256 ^ (?k - 1) \<le> n div 256"
        using False by (auto simp: div_greater_zero_iff)
      from lt have "n < 256 ^ ?k * 256" by (simp only: div_less_iff_less_mult)
      moreover have "256 ^ ?k = 256 * (256 :: nat) ^ (?k - 1)"
        using power_Suc [of "256 :: nat" "?k - 1"] by simp
      then have "256 ^ ?k \<le> n"
        using mult_le_mono2 [OF ge, of 256] times_div_less_eq_dividend [of 256 n] by linarith
      ultimately show ?thesis unfolding c by (simp add: mult.commute)
    qed (simp add: byte_count.simps [of n])
  qed
  then show "n < 256 ^ byte_count n" "0 < n \<Longrightarrow> 256 ^ (byte_count n - 1) \<le> n" by simp_all
qed

lemma byte_count_unique:
  assumes "n < 256 ^ k" "256 ^ (k - 1) \<le> n" "0 < k"
  shows "byte_count n = k"
proof -
  have n: "0 < n" using assms(2) by (metis gr_zeroI le_zero_eq power_not_zero zero_neq_numeral)
  note b = byte_count_bounds [of n]
  have "256 ^ (k - 1) < (256 :: nat) ^ byte_count n"
    using assms b(1) by linarith
  then have "k - 1 < byte_count n"
    by (rule power_less_imp_less_exp [rotated]) simp
  moreover have "256 ^ (byte_count n - 1) < (256 :: nat) ^ k"
    using assms b(2) [OF n] by linarith
  then have "byte_count n - 1 < k"
    by (rule power_less_imp_less_exp [rotated]) simp
  ultimately show ?thesis using assms(3) byte_count_pos [of n] by linarith
qed

lemma byte_count_le_4: "n < 2 ^ 32 \<Longrightarrow> byte_count n \<le> 4"
proof (rule ccontr)
  assume n: "n < 2 ^ 32" and "\<not> byte_count n \<le> 4"
  then have "(256 :: nat) ^ 4 \<le> 256 ^ (byte_count n - 1)"
    by (intro power_increasing) auto
  moreover have "0 < n"
  proof (rule ccontr)
    assume "\<not> 0 < n"
    then have "byte_count n = 1" by (subst byte_count.simps) simp
    with \<open>\<not> byte_count n \<le> 4\<close> show False by simp
  qed
  then have "256 ^ (byte_count n - 1) \<le> n" by (rule byte_count_bounds)
  ultimately show False using n by simp
qed

lemma length_der_length:
  "length (der_length n) = (if n < 128 then 1 else 1 + byte_count n)"
  by (simp add: der_length_def)

section \<open>Elements\<close>

definition der_header :: "CBS_ASN1_TAG \<Rightarrow> nat \<Rightarrow> bytes" where
  "der_header tag n = der_tag tag @ der_length n"

definition der_element :: "CBS_ASN1_TAG \<Rightarrow> bytes \<Rightarrow> bytes" where
  "der_element tag c = der_header tag (length c) @ c"

definition valid_element :: "CBS_ASN1_TAG \<Rightarrow> bytes \<Rightarrow> bool" where
  "valid_element tag c \<longleftrightarrow> valid_tag tag \<and> length c < 2 ^ 32"

text \<open>The record the parser fills in for a DER element.\<close>

definition der_record :: "CBS_ASN1_TAG \<Rightarrow> bytes \<Rightarrow> asn1_element" where
  "der_record tag c = \<lparr>el_out = der_element tag c, el_tag = tag,
     el_header_len = length (der_header tag (length c)), el_ber_found = False,
     el_indefinite = False\<rparr>"

lemma asn1_take_eq: "asn1_take tag len hl bf ind cbs
    = (if length cbs < len then (None, cbs)
       else (Some \<lparr>el_out = take len cbs, el_tag = tag, el_header_len = hl, el_ber_found = bf,
               el_indefinite = ind\<rparr>, drop len cbs))"
  by (simp add: asn1_take_def get_bind_def cbs_simps)

lemma length_base128_high: "v < 128 ^ k \<Longrightarrow> length (base128_high v) \<le> k"
proof (induction k arbitrary: v)
  case (Suc k)
  show ?case
  proof (cases "v = 0")
    case False
    have "v div 128 < 128 ^ k" using Suc.prems by (simp add: less_mult_imp_div_less mult.commute)
    with Suc.IH False show ?thesis by (simp add: base128_high_pos)
  qed simp
qed simp

lemma length_der_tag: "0 < length (der_tag tag)" "length (der_tag tag) \<le> 6"
proof -
  have "tag_number tag div 128 < 128 ^ 4"
    using tag_bits_less(2) [of tag] by (simp add: less_mult_imp_div_less)
  from length_base128_high [OF this] show "length (der_tag tag) \<le> 6"
    by (simp add: der_tag_def base128_def)
qed (simp add: der_tag_def)

lemma parse_der_element:
  assumes "valid_element tag c"
  shows "CBS_get_any_asn1_element (der_element tag c @ rest) = (Some (der_record tag c), rest)"
proof -
  let ?n = "length c" and ?cbs = "der_element tag c @ rest"
  have t: "parse_asn1_tag ?cbs = (Some tag, der_length ?n @ c @ rest)"
    using assms parse_der_tag [of tag "der_length ?n @ c @ rest"]
    by (simp add: der_element_def der_header_def valid_element_def)
  have n: "?n < 2 ^ 32" using assms by (simp add: valid_element_def)
  show ?thesis
  proof (cases "?n < 128")
    case True
    define lb where "lb = (word_of_nat ?n :: u8)"
    have lb: "unat lb = ?n" unfolding lb_def by (rule byte_exhaust_nat) (use True in simp)
    have dl: "der_length ?n = [lb]" using True by (simp only: der_length_def lb_def if_True)
    have z: "lb AND 0x80 = 0" using True lb by (simp add: byte_bit7_zero)
    show ?thesis
      unfolding CBS_get_any_asn1_element_def cbs_get_any_asn1_element_def t dl
      by (simp add: Let_def z lb asn1_take_eq)
        (simp add: der_element_def der_header_def der_record_def dl)
  next
    case False
    define k where "k = byte_count ?n"
    define lb where "lb = (word_of_nat (128 + k) :: u8)"
    have k: "0 < k" "k \<le> 4" unfolding k_def using byte_count_le_4 [OF n] by simp_all
    have lb: "unat lb = 128 + k" unfolding lb_def by (rule byte_exhaust_nat) (use k in simp)
    have dl: "der_length ?n = lb # be_bytes k ?n"
      using False by (simp only: der_length_def lb_def k_def if_False)
    have top: "lb AND 0x80 \<noteq> 0" unfolding byte_bit7 lb by simp
    have low: "unat (lb AND 0x7f) = k" using k by (simp add: byte_low7 lb)
    have pk: "?n < 256 ^ k" "256 ^ (k - 1) \<le> ?n"
      unfolding k_def by (rule byte_count_bounds, rule byte_count_bounds) (use False in linarith)
    define w where "w = (word_of_nat ?n :: u64)"
    have w: "unat w = ?n" using n by (simp add: w_def unat_of_nat)
    have u: "cbs_get_u k (be_bytes k ?n @ c @ rest) = (Some w, c @ rest)"
      using pk by (simp add: cbs_get_u_be_bytes w_def)
    have ge: "\<not> w < 128" using False w by (simp add: word_less_nat_alt)
    have min: "drop_bit ((k - 1) * 8) w \<noteq> 0"
      using pk(2) by (simp add: shift_zero_iff w pow256_shift)
    show ?thesis
      using n k length_der_tag(2) [of tag]
      unfolding CBS_get_any_asn1_element_def cbs_get_any_asn1_element_def t dl
      by (simp add: Let_def top low u ge min [unfolded One_nat_def] w asn1_take_eq)
        (simp add: der_element_def der_header_def der_record_def dl)
  qed
qed


text \<open>
  Conversely, whatever the strict parser accepts is the encoding of a tag and a contents string,
  so two different byte strings never give the same element.
\<close>

lemma asn1_take_Some:
  "asn1_take tag len hl bf ind cbs = (Some el, rest) \<longleftrightarrow> len \<le> length cbs \<and> rest = drop len cbs \<and>
     el = \<lparr>el_out = take len cbs, el_tag = tag, el_header_len = hl, el_ber_found = bf,
           el_indefinite = ind\<rparr>"
  by (auto simp: asn1_take_eq)

lemma parse_element_sound:
  assumes "CBS_get_any_asn1_element cbs = (Some el, rest)"
  shows "\<exists>tag c. valid_element tag c \<and> el = der_record tag c \<and> cbs = der_element tag c @ rest"
proof -
  obtain tag h1 where t: "parse_asn1_tag cbs = (Some tag, h1)"
    using assms by (auto simp: CBS_get_any_asn1_element_def cbs_get_any_asn1_element_def
        split: prod.splits option.splits)
  then have vt: "valid_tag tag" and c1: "cbs = der_tag tag @ h1"
    using tag.enc_dec by auto
  obtain lb h2 where h1: "h1 = lb # h2"
    using assms by (cases h1) (auto simp: CBS_get_any_asn1_element_def
        cbs_get_any_asn1_element_def t)
  have hl: "length cbs - length h2 = length (der_tag tag) + 1"
    by (simp add: c1 h1)
  show ?thesis
  proof (cases "lb AND 0x80 = 0")
    case True
    then have small: "unat lb < 128" by (simp add: byte_bit7_zero)
    from assms True have "asn1_take tag (unat lb + (length (der_tag tag) + 1))
        (length (der_tag tag) + 1) False False cbs = (Some el, rest)"
      by (simp add: CBS_get_any_asn1_element_def cbs_get_any_asn1_element_def t h1 hl Let_def)
    then have len: "unat lb \<le> length h2" and r: "rest = drop (unat lb) h2"
      and el: "el = \<lparr>el_out = der_tag tag @ lb # take (unat lb) h2, el_tag = tag,
        el_header_len = length (der_tag tag) + 1, el_ber_found = False, el_indefinite = False\<rparr>"
      by (auto simp: asn1_take_Some c1 h1)
    let ?c = "take (unat lb) h2"
    have "der_length (length ?c) = [lb]"
      using small len by (simp add: der_length_def)
    then have "der_element tag ?c @ rest = cbs" "el = der_record tag ?c"
      using len by (simp_all add: der_element_def der_header_def der_record_def el r c1 h1)
    moreover have "valid_element tag ?c"
      using vt small by (simp add: valid_element_def)
    ultimately show ?thesis by metis
  next
    case False
    let ?k = "unat (lb AND 0x7f)"
    from assms False obtain w h3 where k: "0 < ?k" "?k \<le> 4"
      and u: "cbs_get_u ?k h2 = (Some w, h3)" and w: "\<not> w < 128"
      and min: "drop_bit ((?k - 1) * 8) w \<noteq> 0"
      and take: "asn1_take tag (size_add (unat w) (length (der_tag tag) + 1 + ?k))
        (length (der_tag tag) + 1 + ?k) False False cbs = (Some el, rest)"
      by (auto simp: CBS_get_any_asn1_element_def cbs_get_any_asn1_element_def t h1 hl Let_def
          split: prod.splits option.splits if_splits)
    note u' = cbs_get_u_Some [OF u]
    have h2: "h2 = be_bytes ?k (unat w) @ h3" and wk: "unat w < 256 ^ ?k"
      using u' k by simp_all
    have w32: "unat w < 2 ^ 32"
      using wk pow256_le [of ?k 32] k by simp
    have sz: "size_add (unat w) (length (der_tag tag) + 1 + ?k) = unat w + (length (der_tag tag) + 1 + ?k)"
      using w32 k length_der_tag(2) [of tag] by simp
    from min have "256 ^ (?k - 1) \<le> unat w"
      by (simp add: shift_zero_iff not_less pow256_shift)
    then have bc: "byte_count (unat w) = ?k"
      using wk k by (intro byte_count_unique) simp_all
    have w128: "\<not> unat w < 128" using w by (simp add: word_less_nat_alt)
    have "unat lb = 128 + ?k"
      using False unfolding byte_bit7 byte_low7 by (rule byte_high_mod)
    then have "word_of_nat (128 + ?k) = lb"
      by (metis of_nat_unat ucast_id)
    then have dl: "der_length (unat w) = lb # be_bytes ?k (unat w)"
      using w128 bc by (simp only: der_length_def if_False)
    from take [unfolded sz] have len: "unat w \<le> length h3" and r: "rest = drop (unat w) h3"
      and el: "el = \<lparr>el_out = der_tag tag @ lb # be_bytes ?k (unat w) @ take (unat w) h3,
        el_tag = tag, el_header_len = length (der_tag tag) + 1 + ?k, el_ber_found = False,
        el_indefinite = False\<rparr>"
      by (auto simp: asn1_take_Some c1 h1 h2)
    let ?c = "take (unat w) h3"
    have "length ?c = unat w" using len by simp
    then have "der_element tag ?c @ rest = cbs" "el = der_record tag ?c"
      using len by (simp_all add: der_element_def der_header_def der_record_def el r c1 h1 h2 dl)
    moreover have "valid_element tag ?c"
      using vt w32 by (simp add: valid_element_def)
    ultimately show ?thesis by metis
  qed
qed


section \<open>The readers of elements\<close>

text \<open>
  \<^verbatim>\<open>CBS_get_any_asn1\<close> on a pair of contents and tag; \<^verbatim>\<open>CBS_get_asn1\<close> for a fixed tag; the whole element
  for \<^verbatim>\<open>CBS_get_asn1_element\<close>.
\<close>

lemma skip_header:
  "CBS_skip (el_header_len (der_record tag c)) (el_out (der_record tag c)) = (Some (), c)"
  by (simp add: der_record_def der_element_def cbs_simps)

lemma der_record_tag [simp]: "el_tag (der_record tag c) = tag"
  by (simp add: der_record_def)

lemma der_element_nonempty: "der_element tag c \<noteq> []"
  using length_der_tag(1) [of tag] by (auto simp: der_element_def der_header_def)

interpretation any_asn1: byte_codec_nonempty CBS_get_any_asn1
  "\<lambda>(c, tag). der_element tag c" "\<lambda>(c, tag). valid_element tag c"
proof unfold_locales
  fix x :: "bytes \<times> CBS_ASN1_TAG" and rest
  assume "case x of (c, tag) \<Rightarrow> valid_element tag c"
  then show "CBS_get_any_asn1 ((case x of (c, tag) \<Rightarrow> der_element tag c) @ rest) = (Some x, rest)"
    by (cases x) (simp add: CBS_get_any_asn1_def parse_der_element skip_header)
next
  fix cbs rest and x :: "bytes \<times> CBS_ASN1_TAG"
  assume "CBS_get_any_asn1 cbs = (Some x, rest)"
  then obtain el cbs' where el: "CBS_get_any_asn1_element cbs = (Some el, cbs')"
    and x: "(case CBS_skip (el_header_len el) (el_out el) of
       (None, _) \<Rightarrow> get_fail | (Some _, out) \<Rightarrow> get_return (out, el_tag el)) cbs' = (Some x, rest)"
    by (auto simp: CBS_get_any_asn1_def get_bind_Some)
  from parse_element_sound [OF el] obtain tag c where "valid_element tag c"
    "el = der_record tag c" "cbs = der_element tag c @ cbs'" by blast
  with x show "(case x of (c, tag) \<Rightarrow> valid_element tag c) \<and>
      cbs = (case x of (c, tag) \<Rightarrow> der_element tag c) @ rest"
    by (auto simp: skip_header)
qed (auto simp: der_element_nonempty)

lemma asn1_codec: "byte_codec_nonempty (CBS_get_asn1 tag) (der_element tag) (valid_element tag)"
proof unfold_locales
  show "CBS_get_asn1 tag (der_element tag c @ rest) = (Some c, rest)" if "valid_element tag c" for c rest
    using that by (simp add: CBS_get_asn1_def cbs_get_asn1_def parse_der_element skip_header)
next
  fix cbs c rest
  assume "CBS_get_asn1 tag cbs = (Some c, rest)"
  then obtain el cbs' where el: "CBS_get_any_asn1_element cbs = (Some el, cbs')"
    and c: "el_tag el = tag" "(case CBS_skip (el_header_len el) (el_out el) of
       (None, _) \<Rightarrow> get_fail | (Some _, out) \<Rightarrow> get_return out) cbs' = (Some c, rest)"
    by (auto simp: CBS_get_asn1_def cbs_get_asn1_def get_bind_Some split: if_splits)
  from parse_element_sound [OF el] obtain tag' c' where "valid_element tag' c'"
    "el = der_record tag' c'" "cbs = der_element tag' c' @ cbs'" by blast
  with c show "valid_element tag c \<and> cbs = der_element tag c @ rest"
    by (auto simp: skip_header)
qed (simp add: der_element_nonempty)

text \<open>The three tags that \<^verbatim>\<open>cbs.c\<close> itself reads.\<close>

interpretation asn1_integer: byte_codec_nonempty "CBS_get_asn1 CBS_ASN1_INTEGER"
  "der_element CBS_ASN1_INTEGER" "valid_element CBS_ASN1_INTEGER" by (rule asn1_codec)

interpretation asn1_boolean: byte_codec_nonempty "CBS_get_asn1 CBS_ASN1_BOOLEAN"
  "der_element CBS_ASN1_BOOLEAN" "valid_element CBS_ASN1_BOOLEAN" by (rule asn1_codec)

interpretation asn1_octets: byte_codec_nonempty "CBS_get_asn1 CBS_ASN1_OCTETSTRING"
  "der_element CBS_ASN1_OCTETSTRING" "valid_element CBS_ASN1_OCTETSTRING" by (rule asn1_codec)

lemma parse_tag_of_element:
  "valid_tag t \<Longrightarrow> parse_asn1_tag (der_element t c @ rest) = (Some t, der_length (length c) @ c @ rest)"
  using parse_der_tag [of t] by (simp add: der_element_def der_header_def)

lemma CBS_peek_asn1_tag_iff:
  "CBS_peek_asn1_tag t cbs \<longleftrightarrow> (\<exists>rest. valid_tag t \<and> cbs = der_tag t @ rest)"
proof -
  have "CBS_peek_asn1_tag t cbs \<longleftrightarrow> (\<exists>rest. parse_asn1_tag cbs = (Some t, rest))"
    by (auto simp: CBS_peek_asn1_tag_def split: prod.splits option.splits)
  then show ?thesis by (simp add: tag.dec_iff)
qed

text \<open>An optional element is absent exactly when another tag comes first.\<close>

lemma CBS_get_optional_asn1_iff:
  "CBS_get_optional_asn1 t cbs = (Some v, rest) \<longleftrightarrow>
     (case v of
        None \<Rightarrow> \<not> CBS_peek_asn1_tag t cbs \<and> rest = cbs
      | Some c \<Rightarrow> valid_element t c \<and> cbs = der_element t c @ rest)"
proof -
  have peek: "CBS_peek_asn1_tag t (der_element t c @ r)" if "valid_element t c" for c r
    using that parse_tag_of_element [of t c r] by (simp add: CBS_peek_asn1_tag_def valid_element_def)
  show ?thesis
    using byte_codec.dec_iff [OF byte_codec_nonempty.axioms(1) [OF asn1_codec [of t]]] peek
    by (auto simp: CBS_get_optional_asn1_def get_bind_Some split: option.splits)
qed

section \<open>Properties\<close>

text \<open>
  C3: The DER parser accepts exactly the DER encodings.  \<^verbatim>\<open>CBS_get_any_asn1_element\<close> succeeds on a
  string if and only if the string starts with the minimal tag, the minimal length and the contents
  of one element, and then it reports that tag and header length, cuts off precisely that element
  and leaves the rest; every other string is refused.
\<close>
theorem der_parser_exact:
  "CBS_get_any_asn1_element cbs = (Some el, rest) \<longleftrightarrow>
     (\<exists>tag c. valid_element tag c \<and> el = der_record tag c \<and> cbs = der_element tag c @ rest)"
  using parse_element_sound [of cbs el rest] parse_der_element by metis

text \<open>
  C4: A sequence of elements has one reading.  Calling \<^verbatim>\<open>CBS_get_any_asn1\<close> until the input is used up
  succeeds with a list of contents and tags exactly when the input is the concatenation of the DER
  encodings of that list, whatever the tags, lengths and nesting.
\<close>
theorem der_sequence_exact:
  "get_many (length cbs) CBS_get_any_asn1 cbs = Some xs \<longleftrightarrow>
     list_all (\<lambda>(c, tag). valid_element tag c) xs \<and>
     cbs = concat (map (\<lambda>(c, tag). der_element tag c) xs)"
  by (rule any_asn1.get_many_iff)

text \<open>
  Optional elements.  \<^verbatim>\<open>CBS_get_optional_asn1\<close> reports absence, consuming nothing, exactly when the
  input does not start with the encoding of the wanted tag; it returns contents exactly when the
  input starts with the DER element of that tag and contents; a malformed element of that tag is an
  error and is never taken for absence.
\<close>
theorem optional_element_exact:
  "CBS_get_optional_asn1 t cbs = (Some v, rest) \<longleftrightarrow>
     (case v of
        None \<Rightarrow> \<not> (\<exists>r. valid_tag t \<and> cbs = der_tag t @ r) \<and> rest = cbs
      | Some c \<Rightarrow> valid_element t c \<and> cbs = der_element t c @ rest)"
  unfolding CBS_get_optional_asn1_iff CBS_peek_asn1_tag_iff ..

end
