(* ===== verification/Asn1_Values.thy ===== *)
theory Asn1_Values
  imports Der
begin

text \<open>
  The ASN.1 values that \<^verbatim>\<open>cbs.c\<close> decodes: INTEGER, BOOLEAN, BIT STRING and OBJECT IDENTIFIER contents.
  The specification of an INTEGER is the shortest two's complement string, \<open>int_content\<close>; the readers
  of 64-bit integers are codecs for it.
\<close>

section \<open>Two's complement contents\<close>

function int_content :: "int \<Rightarrow> bytes" where
  "int_content z = (if - 128 \<le> z \<and> z < 128 then [word_of_int z]
     else int_content (z div 256) @ [word_of_int (z mod 256)])"
  by pat_completeness auto
termination
  by (relation "measure (\<lambda>z. nat \<bar>z\<bar>)") (auto simp: abs_if)

declare int_content.simps [simp del]

definition tc_value :: "bytes \<Rightarrow> int" where
  "tc_value c = int (be_val c) - (if c \<noteq> [] \<and> 128 \<le> unat (hd c) then 256 ^ length c else 0)"

fun minimal_int :: "bytes \<Rightarrow> bool" where
  "minimal_int [] = False"
| "minimal_int [a] = True"
| "minimal_int (a # b # c) = (\<not> (unat a = 0 \<and> unat b < 128) \<and> \<not> (unat a = 255 \<and> 128 \<le> unat b))"

lemma int_content_nonempty [simp]: "int_content z \<noteq> []"
  by (subst int_content.simps) simp

lemma unat_byte_of_int:
  "unat (word_of_int z :: u8) = nat (z mod 256)"
  by (simp add: unat_eq_nat_uint uint_word_of_int)

lemma tc_value_snoc: "c \<noteq> [] \<Longrightarrow> tc_value (c @ [b]) = tc_value c * 256 + int (unat b)"
  by (simp add: tc_value_def)

lemma tc_value_int_content: "tc_value (int_content z) = z"
proof (induction z rule: int_content.induct)
  case (1 z)
  show ?case
  proof (cases "- 128 \<le> z \<and> z < 128")
    case True
    then have "z mod 256 = (if 0 \<le> z then z else z + 256)"
      using mod_pos_pos_trivial [of "z + 256" 256] by auto
    with True have "unat (word_of_int z :: u8) = (if 0 \<le> z then nat z else nat (z + 256))"
      by (simp add: unat_byte_of_int)
    with True show ?thesis
      by (auto simp: int_content.simps [of z] tc_value_def be_val_Cons)
  next
    case False
    then have "int_content z = int_content (z div 256) @ [word_of_int (z mod 256)]"
      using int_content.simps [of z] by argo
    moreover have "int (unat (word_of_int (z mod 256) :: u8)) = z mod 256"
      by (simp add: unat_byte_of_int)
    ultimately show ?thesis
      using "1.IH" [OF False] by (simp add: tc_value_snoc)
  qed
qed

lemma minimal_int_snoc:
  "2 \<le> length c \<Longrightarrow> minimal_int (c @ [b]) = minimal_int c"
  by (cases c rule: minimal_int.cases) auto

lemma minimal_int_pair:
  "minimal_int [a, b] \<longleftrightarrow> \<not> (- 128 \<le> tc_value [a, b] \<and> tc_value [a, b] < 128)"
proof -
  obtain x y where xy: "unat a = x" "unat b = y" and lt: "x < 256" "y < 256"
    using byte_lt [of a] byte_lt [of b] by blast
  have "tc_value [a, b] = int x * 256 + int y - (if 128 \<le> x then 65536 else 0)"
    by (simp add: tc_value_def be_val_Cons xy)
  with lt show ?thesis by (auto simp: xy split: if_splits)
qed

lemma tc_value_range:
  assumes "c \<noteq> []"
  shows "- (128 * 256 ^ (length c - 1)) \<le> tc_value c" "tc_value c < 128 * 256 ^ (length c - 1)"
proof -
  obtain a d where c: "c = a # d" using assms by (cases c) auto
  have "be_val d < 256 ^ length d" by (rule be_val_bound)
  define q where "q = int (be_val d)"
  define p where "p = (256 ^ length d :: int)"
  have d: "q < p" "0 \<le> q" "0 < p"
    unfolding q_def p_def using \<open>be_val d < 256 ^ length d\<close>
    by (metis of_nat_less_iff of_nat_numeral of_nat_power) simp_all
  obtain x where x: "unat a = x" "x < 256" using byte_lt [of a] by blast
  have v: "tc_value c = (int x - (if 128 \<le> x then 256 else 0)) * p + q"
    by (simp add: tc_value_def c be_val_Cons x(1) algebra_simps p_def q_def)
  have a: "- 128 \<le> int x - (if 128 \<le> x then 256 else 0)"
    "int x - (if 128 \<le> x then 256 else 0) \<le> 127"
    using x(2) by auto
  have len: "256 ^ (length c - 1) = p" by (simp add: p_def c)
  show "- (128 * 256 ^ (length c - 1)) \<le> tc_value c"
    using mult_right_mono [OF a(1), of p] d unfolding v len by linarith
  show "tc_value c < 128 * 256 ^ (length c - 1)"
    using mult_right_mono [OF a(2), of p] d unfolding v len by linarith
qed

lemma minimal_int_large:
  assumes "minimal_int c" "2 \<le> length c"
  shows "\<not> (- 128 \<le> tc_value c \<and> tc_value c < 128)"
  using assms
proof (induction c rule: rev_induct)
  case (snoc b c)
  show ?case
  proof (cases "length c = 1")
    case True
    then obtain a where "c = [a]" by (cases c) auto
    with snoc.prems show ?thesis using minimal_int_pair [of a b] by simp
  next
    case False
    with snoc.prems have c: "2 \<le> length c" "c \<noteq> []" by auto
    with snoc have "\<not> (- 128 \<le> tc_value c \<and> tc_value c < 128)"
      by (simp add: minimal_int_snoc)
    moreover obtain y where y: "unat b = y" "y < 256" using byte_lt [of b] by blast
    moreover have "tc_value (c @ [b]) = tc_value c * 256 + int y"
      using tc_value_snoc [OF c(2), of b] y by simp
    ultimately show ?thesis by linarith
  qed
qed simp

lemma int_content_tc_value: "minimal_int c \<Longrightarrow> int_content (tc_value c) = c"
proof (induction c rule: rev_induct)
  case (snoc b c)
  show ?case
  proof (cases "c = []")
    case True
    have "- 128 \<le> tc_value [b] \<and> tc_value [b] < 128"
      using tc_value_range [of "[b]"] by simp
    moreover have "word_of_int (tc_value [b]) = b"
      by (simp add: tc_value_def be_val_Cons)
    ultimately show ?thesis using True by (simp add: int_content.simps [of "tc_value [b]"])
  next
    case False
    have min: "minimal_int c"
      using snoc.prems False by (cases c rule: minimal_int.cases) auto
    have big: "\<not> (- 128 \<le> tc_value (c @ [b]) \<and> tc_value (c @ [b]) < 128)"
      by (rule minimal_int_large) (use snoc.prems False in \<open>auto simp: Suc_le_eq\<close>)
    obtain y where y: "unat b = y" "y < 256" using byte_lt [of b] by blast
    have v: "tc_value (c @ [b]) = tc_value c * 256 + int y"
      using tc_value_snoc [OF False, of b] by (simp add: y)
    have "tc_value (c @ [b]) div 256 = tc_value c" "tc_value (c @ [b]) mod 256 = int y"
      unfolding v using y(2) by simp_all
    moreover have "word_of_int (int y) = b" by (simp flip: y(1))
    moreover have "int_content (tc_value (c @ [b])) = int_content (tc_value (c @ [b]) div 256)
        @ [word_of_int (tc_value (c @ [b]) mod 256)]"
      using big int_content.simps [of "tc_value (c @ [b])"] by argo
    ultimately show ?thesis using snoc.IH [OF min] by simp
  qed
qed simp

lemma minimal_int_content: "minimal_int (int_content z)"
proof (induction z rule: int_content.induct)
  case (1 z)
  show ?case
  proof (cases "- 128 \<le> z \<and> z < 128")
    case False
    let ?c = "int_content (z div 256)" and ?b = "word_of_int (z mod 256) :: u8"
    have c: "int_content z = ?c @ [?b]" using False int_content.simps [of z] by argo
    show ?thesis
    proof (cases "length ?c = 1")
      case True
      then obtain a where a: "?c = [a]" by (cases ?c) auto
      have "tc_value [a, ?b] = z" using tc_value_int_content [of z] c a by simp
      with False show ?thesis using minimal_int_pair [of a ?b] c a by simp
    next
      case n1: False
      have "?c \<noteq> []" by simp
      with n1 have "2 \<le> length ?c" by (cases ?c) (auto simp: Suc_le_eq)
      then show ?thesis using "1.IH" [OF False] c by (simp add: minimal_int_snoc)
    qed
  qed (simp add: int_content.simps [of z])
qed

text \<open>How many bytes the contents need.\<close>

lemma length_int_content:
  "- (128 * 256 ^ k) \<le> z \<Longrightarrow> z < 128 * 256 ^ k \<Longrightarrow> length (int_content z) \<le> Suc k"
proof (induction k arbitrary: z)
  case 0
  then show ?case by (simp add: int_content.simps [of z])
next
  case (Suc k)
  show ?case
  proof (cases "- 128 \<le> z \<and> z < 128")
    case False
    have "- (128 * 256 ^ k) \<le> z div 256" "z div 256 < 128 * 256 ^ k"
      using Suc.prems by simp_all
    with Suc.IH have "length (int_content (z div 256)) \<le> Suc k" by blast
    then show ?thesis unfolding int_content.simps [of z] using False by simp
  qed (simp add: int_content.simps [of z])
qed

lemma length_minimal_int:
  assumes "minimal_int c" "0 < k"
  shows "length c \<le> k \<longleftrightarrow> - (128 * 256 ^ (k - 1)) \<le> tc_value c \<and> tc_value c < 128 * 256 ^ (k - 1)"
proof
  assume len: "length c \<le> k"
  have "c \<noteq> []" using assms(1) by auto
  note r = tc_value_range [OF this]
  have "(256 :: int) ^ (length c - 1) \<le> 256 ^ (k - 1)"
    using len by (intro power_increasing) auto
  with r show "- (128 * 256 ^ (k - 1)) \<le> tc_value c \<and> tc_value c < 128 * 256 ^ (k - 1)"
    by linarith
next
  assume "- (128 * 256 ^ (k - 1)) \<le> tc_value c \<and> tc_value c < 128 * 256 ^ (k - 1)"
  then have "length (int_content (tc_value c)) \<le> Suc (k - 1)"
    by (intro length_int_content) simp_all
  then show "length c \<le> k"
    using assms by (simp add: int_content_tc_value)
qed

lemma tc_value_neg:
  assumes "c \<noteq> []"
  shows "tc_value c < 0 \<longleftrightarrow> 128 \<le> unat (hd c)"
proof (cases "128 \<le> unat (hd c)")
  case True
  have "int (be_val c) < 256 ^ length c"
    using be_val_bound [of c] by (metis of_nat_less_iff of_nat_numeral of_nat_power)
  with True assms show ?thesis by (simp add: tc_value_def)
qed (simp add: tc_value_def)

section \<open>INTEGER\<close>

lemma CBS_is_valid_asn1_integer_eq:
  "CBS_is_valid_asn1_integer c = (if minimal_int c then Some (tc_value c < 0) else None)"
proof (cases c rule: minimal_int.cases)
  case (2 a)
  then show ?thesis
    using byte_bit7 [of a] tc_value_neg [of c] by (simp add: CBS_is_valid_asn1_integer_def)
next
  case (3 a b d)
  have a: "a = 0 \<longleftrightarrow> unat a = 0" "a = 0xff \<longleftrightarrow> unat a = 255"
    by (simp_all add: word_unat_eq_iff)
  show ?thesis
    using byte_bit7 [of a] byte_bit7 [of b] byte_bit7_zero [of b] tc_value_neg [of c]
    unfolding CBS_is_valid_asn1_integer_def 3 by (simp add: a)
qed (simp add: CBS_is_valid_asn1_integer_def)

text \<open>The loop of \<^verbatim>\<open>CBS_get_asn1_uint64\<close> gives up exactly when the number needs more than 64 bits.\<close>

lemma asn1_uint64_loop_eq:
  "a < 2 ^ 64 \<Longrightarrow> asn1_uint64_loop (word_of_nat a) data
     = (let n = a * 256 ^ length data + be_val data in if n < 2 ^ 64 then Some (word_of_nat n) else None)"
proof (induction data arbitrary: a)
  case (Cons b data)
  let ?a = "a * 256 + unat b" and ?p = "256 ^ length data :: nat"
  have n: "a * 256 ^ length (b # data) + be_val (b # data) = ?a * ?p + be_val data"
    by (simp add: be_val_Cons algebra_simps)
  have ua: "unat (word_of_nat a :: u64) = a"
    using Cons.prems by (simp add: unat_of_nat)
  show ?case
  proof (cases "a < 2 ^ 56")
    case True
    obtain y where "unat b = y" "y < 256" using byte_lt [of b] by blast
    then have "?a < 2 ^ 64" using True by simp
    moreover have "drop_bit 56 (word_of_nat a :: u64) = 0"
      using True by (simp add: shift_zero_iff ua)
    moreover have "push_bit 8 (word_of_nat a :: u64) OR ucast b = word_of_nat ?a"
      by (rule word_shift_or_byte) simp
    ultimately show ?thesis
      unfolding n using Cons.IH [of ?a] by (simp only: asn1_uint64_loop.simps) simp
  next
    case False
    have "(2 :: nat) ^ 64 \<le> a * 256" using False by simp
    also have "\<dots> \<le> ?a * ?p"
      using mult_le_mono [of "a * 256" ?a 1 ?p] by simp
    finally have "\<not> ?a * ?p + be_val data < 2 ^ 64" by linarith
    moreover have "drop_bit 56 (word_of_nat a :: u64) \<noteq> 0"
      using False by (simp add: shift_zero_iff ua)
    ultimately show ?thesis unfolding n by simp
  qed
qed simp

definition uint64_element :: "u64 \<Rightarrow> bytes" where
  "uint64_element w = der_element CBS_ASN1_INTEGER (int_content (uint w))"

definition int64_element :: "u64 \<Rightarrow> bytes" where
  "int64_element w = der_element CBS_ASN1_INTEGER (int_content (sint w))"

lemma length_int_content_64:
  "length (int_content (uint (w :: u64))) \<le> 9" "length (int_content (sint (w :: u64))) \<le> 8"
  using length_int_content [of 8 "uint w"] length_int_content [of 7 "sint w"]
    uint_bounded [of w] uint_ge_0 [of w] sint_ge [of w] sint_lt [of w] by simp_all

lemma valid_tags [simp]:
  "valid_tag CBS_ASN1_INTEGER" "valid_tag CBS_ASN1_BOOLEAN" "valid_tag CBS_ASN1_OCTETSTRING"
  by (simp_all add: valid_tag_def CBS_ASN1_INTEGER_def CBS_ASN1_BOOLEAN_def CBS_ASN1_OCTETSTRING_def)

lemma uint_eq_nat_iff: "int n = uint (w :: u64) \<longleftrightarrow> n < 2 ^ 64 \<and> w = word_of_nat n"
proof -
  have "int n = uint w \<longleftrightarrow> n = unat w"
    by (metis nat_int int_nat_eq uint_ge_0 unat_eq_nat_uint)
  moreover have "unat w < 2 ^ 64" using unsigned_less [of w, where 'a = nat] by simp
  ultimately show ?thesis by (auto simp: unat_of_nat)
qed

lemma uint64_dec_iff:
  "CBS_get_asn1_uint64 cbs = (Some w, rest) \<longleftrightarrow>
     (\<exists>c. CBS_get_asn1 CBS_ASN1_INTEGER cbs = (Some c, rest) \<and> minimal_int c \<and> tc_value c = uint w)"
proof -
  have u: "asn1_uint64_loop 0 c = Some w \<longleftrightarrow> tc_value c = uint w"
    if "minimal_int c" "\<not> tc_value c < 0" for c
  proof -
    have "c \<noteq> []" using that by auto
    then have "tc_value c = int (be_val c)"
      using that tc_value_neg [of c] by (simp add: tc_value_def)
    then show ?thesis using asn1_uint64_loop_eq [of 0 c] by (auto simp: uint_eq_nat_iff Let_def split: if_splits)
  qed
  have neg: "\<not> tc_value c < 0" if "tc_value c = uint w" for c
    using that uint_ge_0 [of w] by simp
  have "(if \<not> CBS_is_unsigned_asn1_integer c then get_fail
      else case asn1_uint64_loop 0 c of None \<Rightarrow> get_fail | Some out \<Rightarrow> get_return out) cbs' = (Some w, rest)
      \<longleftrightarrow> cbs' = rest \<and> minimal_int c \<and> tc_value c = uint w" for c cbs'
    using u [of c] neg [of c]
    by (auto simp: CBS_is_unsigned_asn1_integer_def CBS_is_valid_asn1_integer_eq split: option.splits)
  then show ?thesis by (auto simp: CBS_get_asn1_uint64_def get_bind_Some)
qed

text \<open>The sign-extended contents are loaded as two's complement.\<close>

lemma be_val_replicate: "be_val (replicate k 0) = 0" "be_val (replicate k 0xff) + 1 = 256 ^ k"
  by (induction k) (simp_all add: be_val_Cons)

lemma sint_sign_extended:
  assumes "minimal_int c" "length c \<le> 8"
  shows "sint (CRYPTO_load_u64_be (replicate (8 - length c) (if tc_value c < 0 then 0xff else 0) @ c))
           = tc_value c"
proof -
  define s where "s = replicate (8 - length c) (if tc_value c < 0 then 0xff else 0 :: u8)"
  let ?w = "CRYPTO_load_u64_be (s @ c)"
  have range: "- (2 ^ 63) \<le> tc_value c" "tc_value c < 2 ^ 63"
    using assms length_minimal_int [of c 8] by simp_all
  have c: "c \<noteq> []" using assms by auto
  have p: "(256 :: nat) ^ (8 - length c) * 256 ^ length c = 2 ^ 64"
    using assms(2) by (simp flip: power_add)
  have len: "length (s @ c) = 8" using assms(2) by (simp add: s_def)
  then have "unat ?w = be_val (s @ c)"
    by (simp add: unat_CRYPTO_load_u64_be)
  then have u: "uint ?w = int (be_val s * 256 ^ length c + be_val c)"
    by (simp add: be_val_append uint_nat del: of_nat_unat)
  have "?w = word_of_int (tc_value c)"
  proof (cases "tc_value c < 0")
    case True
    then have "(be_val s + 1) * 256 ^ length c = 2 ^ 64"
      using p by (simp add: s_def be_val_replicate(2) del: One_nat_def)
    from arg_cong [OF this, of int]
    have "int (be_val s * 256 ^ length c + be_val c) = 2 ^ 64 + (int (be_val c) - 256 ^ length c)"
      by (simp add: algebra_simps)
    also have "int (be_val c) - 256 ^ length c = tc_value c"
      using True c tc_value_neg [of c] by (simp add: tc_value_def)
    finally have "uint ?w mod 2 ^ 64 = tc_value c mod 2 ^ 64"
      unfolding u by (simp only: mod_add_self1)
    moreover have "LENGTH(64) = 64" by simp
    ultimately have "(word_of_int (uint ?w) :: u64) = word_of_int (tc_value c)"
      by (simp only: word_of_int_eq_iff take_bit_eq_mod)
    then show ?thesis by simp
  next
    case False
    then have "be_val s = 0" "tc_value c = int (be_val c)"
      using c tc_value_neg [of c] by (simp_all add: s_def be_val_replicate(1) tc_value_def)
    with u show ?thesis by (metis add_0 mult_0 word_of_int_uint)
  qed
  then have "sint ?w = signed_take_bit 63 (tc_value c)"
    by (simp add: sint_sbintrunc')
  also have "\<dots> = tc_value c"
    using range by (intro signed_take_bit_int_eq_self) simp_all
  finally show ?thesis by (simp add: s_def)
qed

lemma int64_dec_iff:
  "CBS_get_asn1_int64 cbs = (Some w, rest) \<longleftrightarrow>
     (\<exists>c. CBS_get_asn1 CBS_ASN1_INTEGER cbs = (Some c, rest) \<and> minimal_int c \<and> tc_value c = sint w)"
proof -
  have len: "length c \<le> 8" if "minimal_int c" "tc_value c = sint w" for c
    using that length_minimal_int [of c 8] sint_ge [of w] sint_lt [of w] by simp
  have inj: "v = w \<longleftrightarrow> sint v = sint w" for v
    by (metis signed_word_eqI)
  have "(case CBS_is_valid_asn1_integer c of
       None \<Rightarrow> get_fail
     | Some is_negative \<Rightarrow>
         if length c > 8 then get_fail
         else let sign_extend = replicate 8 (if is_negative then 0xff else 0) in
              get_return (CRYPTO_load_u64_be (take (8 - length c) sign_extend @ c))) cbs' = (Some w, rest)
      \<longleftrightarrow> cbs' = rest \<and> minimal_int c \<and> tc_value c = sint w" for c cbs'
    using sint_sign_extended [of c] len [of c]
    by (auto simp: CBS_is_valid_asn1_integer_eq not_less min_def inj)
  then show ?thesis by (auto simp: CBS_get_asn1_int64_def get_bind_Some)
qed

lemma integer_codec:
  assumes dec: "\<And>cbs w rest. dec cbs = (Some w, rest) \<longleftrightarrow>
      (\<exists>c. CBS_get_asn1 CBS_ASN1_INTEGER cbs = (Some c, rest) \<and> minimal_int c \<and> tc_value c = val w)"
    and len: "\<And>w. length (int_content (val w)) \<le> 9"
  shows "byte_codec_nonempty dec (\<lambda>w :: u64. der_element CBS_ASN1_INTEGER (int_content (val w))) (\<lambda>w. True)"
proof unfold_locales
  fix w rest
  have "valid_element CBS_ASN1_INTEGER (int_content (val w))"
    using len [of w] by (simp add: valid_element_def)
  from asn1_integer.dec_enc [OF this]
  show "dec (der_element CBS_ASN1_INTEGER (int_content (val w)) @ rest) = (Some w, rest)"
    unfolding dec using minimal_int_content tc_value_int_content by blast
next
  fix cbs w rest
  assume "dec cbs = (Some w, rest)"
  then show "True \<and> cbs = der_element CBS_ASN1_INTEGER (int_content (val w)) @ rest"
    unfolding dec by (auto dest!: asn1_integer.enc_dec int_content_tc_value)
qed (simp add: der_element_nonempty)

interpretation asn1_uint64: byte_codec_nonempty CBS_get_asn1_uint64 uint64_element "\<lambda>w. True"
  unfolding uint64_element_def [abs_def]
  by (rule integer_codec) (auto simp: uint64_dec_iff intro: length_int_content_64)

interpretation asn1_int64: byte_codec_nonempty CBS_get_asn1_int64 int64_element "\<lambda>w. True"
  unfolding int64_element_def [abs_def]
  by (rule integer_codec) (auto simp: int64_dec_iff intro: order_trans [OF length_int_content_64(2)])

section \<open>BOOLEAN\<close>

definition bool_element :: "bool \<Rightarrow> bytes" where
  "bool_element b = der_element CBS_ASN1_BOOLEAN [if b then 0xff else 0]"

interpretation asn1_bool: byte_codec_nonempty CBS_get_asn1_bool bool_element "\<lambda>b. True"
proof unfold_locales
  fix b rest
  show "CBS_get_asn1_bool (bool_element b @ rest) = (Some b, rest)"
    using asn1_boolean.dec_enc [of "[if b then 0xff else 0]" rest]
    by (simp add: CBS_get_asn1_bool_def bool_element_def valid_element_def)
next
  fix cbs b rest
  assume "CBS_get_asn1_bool cbs = (Some b, rest)"
  then show "True \<and> cbs = bool_element b @ rest"
    by (auto simp: CBS_get_asn1_bool_def get_bind_Some bool_element_def length_Suc_conv
        split: if_splits dest!: asn1_boolean.enc_dec)
qed (simp add: bool_element_def der_element_nonempty)

section \<open>Properties\<close>

text \<open>
  C8: The 64-bit INTEGER readers are exact.  \<^verbatim>\<open>CBS_get_asn1_uint64\<close> and \<^verbatim>\<open>CBS_get_asn1_int64\<close> return a
  word exactly when the input starts with the DER INTEGER whose contents are the shortest two's
  complement string of the word's unsigned, respectively signed, value: negative numbers, numbers
  that do not fit in 64 bits and non-minimal contents are refused, and no value is misread.
\<close>
theorem integer_readers_exact:
  "(CBS_get_asn1_uint64 cbs = (Some w, rest) \<longleftrightarrow>
      cbs = der_element CBS_ASN1_INTEGER (int_content (uint w)) @ rest) \<and>
   (CBS_get_asn1_int64 cbs = (Some w, rest) \<longleftrightarrow>
      cbs = der_element CBS_ASN1_INTEGER (int_content (sint w)) @ rest)"
  using asn1_uint64.dec_iff [of cbs w rest] asn1_int64.dec_iff [of cbs w rest]
  by (simp add: uint64_element_def int64_element_def)

text \<open>
  Valid INTEGER contents, of any length, are the images of the integers under the shortest two's
  complement encoding, and the sign that \<^verbatim>\<open>CBS_is_valid_asn1_integer\<close> reports is the integer's.
\<close>
theorem valid_integer_exact:
  "CBS_is_valid_asn1_integer c = Some is_negative \<longleftrightarrow> (\<exists>z. c = int_content z \<and> is_negative = (z < 0))"
proof -
  have "(\<exists>z. c = int_content z \<and> is_negative = (z < 0)) \<longleftrightarrow> minimal_int c \<and> is_negative = (tc_value c < 0)"
    using minimal_int_content tc_value_int_content int_content_tc_value [of c] by metis
  then show ?thesis by (auto simp: CBS_is_valid_asn1_integer_eq)
qed

end
