(* ===== verification/Asn1_Bits.thy ===== *)
theory Asn1_Bits
  imports Asn1_Values
begin

text \<open>
  BIT STRING contents: the bits of the value in order, the first one the most significant bit of the
  second byte, and the reading of \<^verbatim>\<open>CBS_asn1_bitstring_has_bit\<close> against that list.
\<close>

definition byte_bits :: "u8 \<Rightarrow> bool list" where
  "byte_bits b = map (\<lambda>i. bit b (7 - i)) [0..<8]"

definition bitstring_bits :: "bytes \<Rightarrow> bool list" where
  "bitstring_bits c = take (8 * length (tl c) - unat (hd c)) (concat (map byte_bits (tl c)))"

text \<open>DER asks that the unused bits of the last byte are zero.\<close>

definition valid_bitstring :: "bytes \<Rightarrow> bool" where
  "valid_bitstring c \<longleftrightarrow> c \<noteq> [] \<and> unat (hd c) < 8 \<and>
     (unat (hd c) \<noteq> 0 \<longrightarrow> tl c \<noteq> [] \<and> (\<forall>i<unat (hd c). \<not> bit (last c) i))"

lemma length_byte_bits: "length (byte_bits b) = 8"
  by (simp add: byte_bits_def)

lemma length_concat_byte_bits: "length (concat (map byte_bits bs)) = 8 * length bs"
  by (induction bs) (simp_all add: length_byte_bits)

lemma nth_concat_byte_bits:
  "q < length bs \<Longrightarrow> r < 8 \<Longrightarrow> concat (map byte_bits bs) ! (q * 8 + r) = bit (bs ! q) (7 - r)"
proof (induction bs arbitrary: q)
  case (Cons b bs)
  show ?case
  proof (cases q)
    case 0
    with Cons.prems show ?thesis
      by (simp add: nth_append length_byte_bits byte_bits_def del: upt_Suc)
  next
    case (Suc p)
    with Cons show ?thesis by (simp add: nth_append length_byte_bits)
  qed
qed simp

lemma and_low_mask_zero:
  "n < 8 \<Longrightarrow> (b :: u8) AND (push_bit n 1 - 1) = 0 \<longleftrightarrow> (\<forall>i<n. \<not> bit b i)"
proof -
  assume n: "n < 8"
  have "push_bit n 1 - 1 = (mask n :: u8)"
    by (simp add: mask_eq_exp_minus_1)
  moreover have "b AND mask n = 0 \<longleftrightarrow> (\<forall>i<n. \<not> bit b i)"
    using n by (auto simp: bit_eq_iff bit_and_iff bit_mask_iff) (meson less_trans)
  ultimately show ?thesis by simp
qed

lemma CBS_is_valid_asn1_bitstring_iff: "CBS_is_valid_asn1_bitstring c \<longleftrightarrow> valid_bitstring c"
proof (cases c)
  case (Cons u bs)
  have u7: "7 < u \<longleftrightarrow> \<not> unat u < 8" and u0: "u = 0 \<longleftrightarrow> unat u = 0"
    by (auto simp: word_less_nat_alt word_unat_eq_iff)
  show ?thesis
    using and_low_mask_zero [of "unat u" "last bs"]
    by (cases bs rule: rev_cases)
      (auto simp: CBS_is_valid_asn1_bitstring_def valid_bitstring_def Cons u7 u0 CBS_get_last_u8_def)
qed (simp add: CBS_is_valid_asn1_bitstring_def valid_bitstring_def)

lemma has_bit_iff:
  assumes "valid_bitstring c"
  shows "CBS_asn1_bitstring_has_bit c i \<longleftrightarrow>
     unat i < length (bitstring_bits c) \<and> bitstring_bits c ! unat i"
proof -
  obtain u bs where c: "c = u # bs" using assms by (cases c) (auto simp: valid_bitstring_def)
  have u: "unat u < 8" and z: "0 < unat u \<Longrightarrow> bs \<noteq> [] \<and> (\<forall>j<unat u. \<not> bit (last bs) j)"
    using assms by (auto simp: valid_bitstring_def c)
  define q r where "q = unat i div 8" and "r = unat i mod 8"
  have i: "unat i = q * 8 + r" and r: "r < 8" by (simp_all add: q_def r_def)
  have i32: "unat i < 2 ^ 32" using unsigned_less [of i, where 'a = nat] by simp
  have "unat (drop_bit 3 i) = q" by (simp add: q_def unat_drop_bit)
  then have q1: "unat (drop_bit 3 i + 1) = q + 1"
    using i32 by (simp add: unat_word_ariths q_def)
  have "unat (i AND 7) = r"
    using unat_and_mask [of i 3] by (simp add: mask_eq_exp_minus_1 r_def)
  then have r7: "unat (7 - (i AND 7)) = 7 - r"
    using r by (subst unat_sub) (simp_all add: word_le_nat_alt)
  have len: "length (bitstring_bits c) = 8 * length bs - unat u"
    by (simp add: bitstring_bits_def c length_concat_byte_bits)
  have "CBS_asn1_bitstring_has_bit c i \<longleftrightarrow> q < length bs \<and> bit (bs ! q) (7 - r)"
    using assms unfolding CBS_asn1_bitstring_has_bit_def CBS_is_valid_asn1_bitstring_iff
    by (simp add: Let_def q1 r7 c and_exp_eq_0_iff_not_bit)
  also have "\<dots> \<longleftrightarrow> unat i < length (bitstring_bits c) \<and> bitstring_bits c ! unat i"
  proof (cases "unat i < length (bitstring_bits c)")
    case True
    then have q: "q < length bs" using i len by simp
    with True show ?thesis
      using nth_concat_byte_bits [OF q r]
      by (simp add: i len) (simp add: bitstring_bits_def c)
  next
    case False
    have "\<not> bit (bs ! q) (7 - r)" if q: "q < length bs"
    proof -
      from False i len q r u have l: "q = length bs - 1" "7 - r < unat u" by simp_all
      with z q have "\<not> bit (last bs) (7 - r)" by auto
      with l q show ?thesis by (cases bs rule: rev_cases) auto
    qed
    with False show ?thesis by blast
  qed
  finally show ?thesis .
qed

section \<open>Properties\<close>

text \<open>
  Bit string access.  \<^verbatim>\<open>CBS_asn1_bitstring_has_bit\<close> is true at an index exactly when the contents
  are valid DER (at most seven unused bits, all of them zero) and the index is below the number of
  bits and that bit is set; it never reads an unused bit or beyond the contents, for all 2^32
  indices.
\<close>
theorem has_bit_exact:
  "CBS_asn1_bitstring_has_bit c i \<longleftrightarrow>
     valid_bitstring c \<and> unat i < length (bitstring_bits c) \<and> bitstring_bits c ! unat i"
proof (cases "valid_bitstring c")
  case False
  then show ?thesis
    by (simp add: CBS_asn1_bitstring_has_bit_def CBS_is_valid_asn1_bitstring_iff)
qed (simp add: has_bit_iff)

end
