(* ===== verification/Cbb.thy ===== *)
theory Cbb
  imports Cbs
begin

text \<open>
  \<^verbatim>\<open>crypto/bytestring/cbb.c\<close>: the builder of byte strings.  A root \<^verbatim>\<open>CBB\<close> and the children that write
  into its buffer are one state: the fields of \<^verbatim>\<open>cbb_buffer_st\<close> and the list of the children that are
  open, outermost first.  A \<^verbatim>\<open>CBB *\<close> is the depth of its handle: \<open>0\<close> is the root, \<open>d + 1\<close> the child of
  handle \<open>d\<close>, and \<^verbatim>\<open>cbb->child == NULL\<close> holds for handle \<open>d\<close> when exactly \<open>d\<close> children are open.  A
  handle deeper than that belongs to a flushed child, whose \<^verbatim>\<open>base\<close> is null.  The root buffer is the list
  of all its \<open>cap\<close> bytes.  Every operation gives its return value and the new state; a pointer into the
  buffer is its index.  The OID writer is in \<^verbatim>\<open>Oid.thy\<close>.
\<close>

section \<open>State\<close>

record cbb_child =
  child_offset :: nat
  child_pending_len_len :: nat
  child_pending_is_asn1 :: bool

record cbb =
  cbb_buf :: bytes
  cbb_len :: nat
  cbb_cap :: nat
  cbb_can_resize :: bool
  cbb_error :: bool
  cbb_children :: "cbb_child list"

type_synonym cbb_op = "cbb \<Rightarrow> bool \<times> cbb"

text \<open>\<open>p && q\<close> of two calls, and the jump to an error label.\<close>

definition cbb_and :: "cbb_op \<Rightarrow> cbb_op \<Rightarrow> cbb_op" where
  "cbb_and p q = (\<lambda>s. case p s of (ok, s) \<Rightarrow> if ok then q s else (False, s))"

definition cbb_true :: cbb_op where
  "cbb_true = (\<lambda>s. (True, s))"

text \<open>\<^verbatim>\<open>OPENSSL_memcpy\<close> of \<open>bs\<close> to offset \<open>off\<close> of a buffer.\<close>

definition mem_write :: "bytes \<Rightarrow> nat \<Rightarrow> bytes \<Rightarrow> bytes" where
  "mem_write b off bs = take off b @ bs @ drop (off + length bs) b"

definition mem_read :: "bytes \<Rightarrow> nat \<Rightarrow> nat \<Rightarrow> bytes" where
  "mem_read b off n = take n (drop off b)"

section \<open>Creation and growth\<close>

definition cbb_init :: "bytes \<Rightarrow> nat \<Rightarrow> bool \<Rightarrow> cbb" where
  "cbb_init b c can_resize
     = \<lparr>cbb_buf = b, cbb_len = 0, cbb_cap = c, cbb_can_resize = can_resize, cbb_error = False,
        cbb_children = []\<rparr>"

definition CBB_init :: "env \<Rightarrow> nat \<Rightarrow> cbb option" where
  "CBB_init E initial_capacity
     = (if initial_capacity > 0 \<and> \<not> OPENSSL_malloc (env_heap E) initial_capacity then None
        else Some (cbb_init (map (env_fresh E) [0..<initial_capacity]) initial_capacity True))"

definition CBB_init_fixed :: "bytes \<Rightarrow> cbb" where
  "CBB_init_fixed b = cbb_init b (length b) False"

text \<open>The index of the reserved space, or \<open>None\<close> after the error flag has been set.\<close>

definition cbb_buffer_reserve :: "env \<Rightarrow> nat \<Rightarrow> cbb \<Rightarrow> nat option \<times> cbb" where
  "cbb_buffer_reserve E n s
     = (let newlen = size_add (cbb_len s) n in
        if newlen < cbb_len s then (None, s\<lparr>cbb_error := True\<rparr>)
        else if newlen > cbb_cap s
        then if \<not> cbb_can_resize s then (None, s\<lparr>cbb_error := True\<rparr>)
             else let newcap = size_mul (cbb_cap s) 2;
                      newcap = (if newcap < cbb_cap s \<or> newcap < newlen then newlen else newcap) in
                  case OPENSSL_realloc (env_heap E) (env_fresh E) (cbb_buf s) newcap of
                    None \<Rightarrow> (None, s\<lparr>cbb_error := True\<rparr>)
                  | Some newbuf \<Rightarrow> (Some (cbb_len s), s\<lparr>cbb_buf := newbuf, cbb_cap := newcap\<rparr>)
        else (Some (cbb_len s), s))"

definition cbb_buffer_add :: "env \<Rightarrow> nat \<Rightarrow> cbb \<Rightarrow> nat option \<times> cbb" where
  "cbb_buffer_add E n s
     = (case cbb_buffer_reserve E n s of
          (None, s) \<Rightarrow> (None, s)
        | (Some out, s) \<Rightarrow> (Some out, s\<lparr>cbb_len := cbb_len s + n\<rparr>))"

definition cbb_on_error :: "nat \<Rightarrow> cbb \<Rightarrow> cbb" where
  "cbb_on_error d s = s\<lparr>cbb_error := True, cbb_children := take d (cbb_children s)\<rparr>"

section \<open>Flushing\<close>

text \<open>The loops that store the low bytes of \<open>v\<close> from the last to the first; what is left of \<open>v\<close>.\<close>

fun cbb_store_be :: "bytes \<Rightarrow> nat \<Rightarrow> nat \<Rightarrow> nat \<Rightarrow> bytes \<times> nat" where
  "cbb_store_be b off 0 v = (b, v)"
| "cbb_store_be b off (Suc i) v = cbb_store_be (b[off + i := word_of_nat (v mod 256)]) off i (v div 256)"

text \<open>The choice of the length prefix: its size and first byte, \<open>None\<close> where the length is too large.\<close>

definition asn1_length_prefix :: "nat \<Rightarrow> (nat \<times> u8) option" where
  "asn1_length_prefix n
     = (if n > 0xfffffffe then None
        else if n > 0xffffff then Some (5, 0x80 OR 4)
        else if n > 0xffff then Some (4, 0x80 OR 3)
        else if n > 0xff then Some (3, 0x80 OR 2)
        else if n > 0x7f then Some (2, 0x80 OR 1)
        else Some (1, word_of_nat n))"

text \<open>
  What follows the recursive call: the prefix of the child \<open>c\<close> of handle \<open>d\<close> is written, moving the
  contents when the reserved byte is not enough.
\<close>

definition cbb_store_length :: "nat \<Rightarrow> nat \<Rightarrow> nat \<Rightarrow> nat \<Rightarrow> cbb \<Rightarrow> bool \<times> cbb" where
  "cbb_store_length d off len_len n s
     = (let (b, left) = cbb_store_be (cbb_buf s) off len_len n;
            s = s\<lparr>cbb_buf := b\<rparr> in
        if left \<noteq> 0 then (False, cbb_on_error d s)
        else (True, s\<lparr>cbb_children := take d (cbb_children s)\<rparr>))"

definition cbb_close_child :: "env \<Rightarrow> nat \<Rightarrow> cbb_child \<Rightarrow> cbb_op" where
  "cbb_close_child E d c s
     = (let child_start = size_add (child_offset c) (child_pending_len_len c) in
        if child_start < child_offset c \<or> cbb_len s < child_start then (False, cbb_on_error d s)
        else let n = cbb_len s - child_start in
        if child_pending_is_asn1 c
        then case asn1_length_prefix n of
               None \<Rightarrow> (False, cbb_on_error d s)
             | Some (len_len, initial_length_byte) \<Rightarrow>
             (case (if len_len \<noteq> 1
                    then case cbb_buffer_add E (len_len - 1) s of
                           (None, s) \<Rightarrow> (None, s)
                         | (Some _, s) \<Rightarrow>
                             (Some n, s\<lparr>cbb_buf := mem_write (cbb_buf s) (child_start + (len_len - 1))
                                                     (mem_read (cbb_buf s) child_start n)\<rparr>)
                    else (Some 0, s)) of
                (None, s) \<Rightarrow> (False, cbb_on_error d s)
              | (Some n, s) \<Rightarrow>
                  cbb_store_length d (child_offset c + 1) (len_len - 1) n
                    (s\<lparr>cbb_buf := (cbb_buf s)[child_offset c := initial_length_byte]\<rparr>))
        else cbb_store_length d (child_offset c) (child_pending_len_len c) n s)"

function CBB_flush :: "env \<Rightarrow> nat \<Rightarrow> cbb_op" where
  "CBB_flush E d s
     = (if length (cbb_children s) < d \<or> cbb_error s then (False, s)
        else if length (cbb_children s) = d then (True, s)
        else case CBB_flush E (Suc d) s of
               (False, s') \<Rightarrow> (False, cbb_on_error d s')
             | (True, s') \<Rightarrow> cbb_close_child E d (cbb_children s ! d) s')"
  by pat_completeness auto
termination
  by (relation "measure (\<lambda>(E, d, s). length (cbb_children s) - d)") auto

declare CBB_flush.simps [simp del]

text \<open>
  The finished buffer and its length.  The flags say whether the caller gave null pointers for them;
  only the root may be finished.
\<close>

definition CBB_finish :: "env \<Rightarrow> nat \<Rightarrow> bool \<Rightarrow> bool \<Rightarrow> cbb \<Rightarrow> (bytes \<times> nat) option \<times> cbb" where
  "CBB_finish E d out_data_null out_len_null s
     = (if d \<noteq> 0 then (None, s)
        else case CBB_flush E d s of
               (False, s) \<Rightarrow> (None, s)
             | (True, s) \<Rightarrow>
                 if cbb_can_resize s \<and> (out_data_null \<or> out_len_null) then (None, s)
                 else (Some (cbb_buf s, cbb_len s), s\<lparr>cbb_buf := []\<rparr>))"

text \<open>The contents of a handle without an open child.\<close>

definition CBB_data :: "nat \<Rightarrow> cbb \<Rightarrow> nat" where
  "CBB_data d s
     = (if d = 0 then 0
        else let c = cbb_children s ! (d - 1) in child_offset c + child_pending_len_len c)"

definition CBB_len :: "nat \<Rightarrow> cbb \<Rightarrow> nat" where
  "CBB_len d s
     = (if d = 0 then cbb_len s
        else let c = cbb_children s ! (d - 1) in cbb_len s - child_offset c - child_pending_len_len c)"

section \<open>Adding to a handle\<close>

definition cbb_add_child :: "env \<Rightarrow> nat \<Rightarrow> nat \<Rightarrow> bool \<Rightarrow> cbb_op" where
  "cbb_add_child E d len_len is_asn1 s
     = (let offset = cbb_len s in
        case cbb_buffer_add E len_len s of
          (None, s) \<Rightarrow> (False, s)
        | (Some prefix_bytes, s) \<Rightarrow>
            (True, s\<lparr>cbb_buf := mem_write (cbb_buf s) prefix_bytes (replicate len_len 0),
                     cbb_children := take d (cbb_children s) @
                       [\<lparr>child_offset = offset, child_pending_len_len = len_len,
                         child_pending_is_asn1 = is_asn1\<rparr>]\<rparr>))"

definition cbb_add_length_prefixed :: "env \<Rightarrow> nat \<Rightarrow> nat \<Rightarrow> cbb_op" where
  "cbb_add_length_prefixed E d len_len = cbb_and (CBB_flush E d) (cbb_add_child E d len_len False)"

definition CBB_add_u8_length_prefixed :: "env \<Rightarrow> nat \<Rightarrow> cbb_op" where
  "CBB_add_u8_length_prefixed E d = cbb_add_length_prefixed E d 1"

definition CBB_add_u16_length_prefixed :: "env \<Rightarrow> nat \<Rightarrow> cbb_op" where
  "CBB_add_u16_length_prefixed E d = cbb_add_length_prefixed E d 2"

definition CBB_add_u24_length_prefixed :: "env \<Rightarrow> nat \<Rightarrow> cbb_op" where
  "CBB_add_u24_length_prefixed E d = cbb_add_length_prefixed E d 3"

text \<open>\<open>None\<close>: the call failed; otherwise the index of the space, which is not initialised.\<close>

definition CBB_add_space :: "env \<Rightarrow> nat \<Rightarrow> nat \<Rightarrow> cbb \<Rightarrow> nat option \<times> cbb" where
  "CBB_add_space E d n s
     = (case CBB_flush E d s of (False, s) \<Rightarrow> (None, s) | (True, s) \<Rightarrow> cbb_buffer_add E n s)"

definition CBB_reserve :: "env \<Rightarrow> nat \<Rightarrow> nat \<Rightarrow> cbb \<Rightarrow> nat option \<times> cbb" where
  "CBB_reserve E d n s
     = (case CBB_flush E d s of (False, s) \<Rightarrow> (None, s) | (True, s) \<Rightarrow> cbb_buffer_reserve E n s)"

definition CBB_did_write :: "nat \<Rightarrow> nat \<Rightarrow> cbb_op" where
  "CBB_did_write d n s
     = (let newlen = size_add (cbb_len s) n in
        if d < length (cbb_children s) \<or> newlen < cbb_len s \<or> newlen > cbb_cap s then (False, s)
        else (True, s\<lparr>cbb_len := newlen\<rparr>))"

definition CBB_add_bytes :: "env \<Rightarrow> nat \<Rightarrow> bytes \<Rightarrow> cbb_op" where
  "CBB_add_bytes E d data s
     = (case CBB_add_space E d (length data) s of
          (None, s) \<Rightarrow> (False, s)
        | (Some out, s) \<Rightarrow> (True, s\<lparr>cbb_buf := mem_write (cbb_buf s) out data\<rparr>))"

definition CBB_add_zeros :: "env \<Rightarrow> nat \<Rightarrow> nat \<Rightarrow> cbb_op" where
  "CBB_add_zeros E d n s
     = (case CBB_add_space E d n s of
          (None, s) \<Rightarrow> (False, s)
        | (Some out, s) \<Rightarrow> (True, s\<lparr>cbb_buf := mem_write (cbb_buf s) out (replicate n 0)\<rparr>))"

definition cbb_add_u :: "env \<Rightarrow> nat \<Rightarrow> u64 \<Rightarrow> nat \<Rightarrow> cbb_op" where
  "cbb_add_u E d v len_len s
     = (case CBB_add_space E d len_len s of
          (None, s) \<Rightarrow> (False, s)
        | (Some out, s) \<Rightarrow>
            let (b, left) = cbb_store_be (cbb_buf s) out len_len (unat v);
                s = s\<lparr>cbb_buf := b\<rparr> in
            if left \<noteq> 0 then (False, cbb_on_error d s) else (True, s))"

definition CBB_add_u8 :: "env \<Rightarrow> nat \<Rightarrow> u8 \<Rightarrow> cbb_op" where
  "CBB_add_u8 E d value = cbb_add_u E d (ucast value) 1"

definition CBB_add_u16 :: "env \<Rightarrow> nat \<Rightarrow> u16 \<Rightarrow> cbb_op" where
  "CBB_add_u16 E d value = cbb_add_u E d (ucast value) 2"

definition CBB_add_u16le :: "env \<Rightarrow> nat \<Rightarrow> u16 \<Rightarrow> cbb_op" where
  "CBB_add_u16le E d value = CBB_add_u16 E d (CRYPTO_bswap2 value)"

definition CBB_add_u24 :: "env \<Rightarrow> nat \<Rightarrow> u32 \<Rightarrow> cbb_op" where
  "CBB_add_u24 E d value = cbb_add_u E d (ucast value) 3"

definition CBB_add_u32 :: "env \<Rightarrow> nat \<Rightarrow> u32 \<Rightarrow> cbb_op" where
  "CBB_add_u32 E d value = cbb_add_u E d (ucast value) 4"

definition CBB_add_u32le :: "env \<Rightarrow> nat \<Rightarrow> u32 \<Rightarrow> cbb_op" where
  "CBB_add_u32le E d value = CBB_add_u32 E d (CRYPTO_bswap4 value)"

definition CBB_add_u64 :: "env \<Rightarrow> nat \<Rightarrow> u64 \<Rightarrow> cbb_op" where
  "CBB_add_u64 E d value = cbb_add_u E d value 8"

definition CBB_add_u64le :: "env \<Rightarrow> nat \<Rightarrow> u64 \<Rightarrow> cbb_op" where
  "CBB_add_u64le E d value = CBB_add_u64 E d (CRYPTO_bswap8 value)"

definition CBB_discard_child :: "nat \<Rightarrow> cbb \<Rightarrow> cbb" where
  "CBB_discard_child d s
     = (if length (cbb_children s) \<le> d then s
        else s\<lparr>cbb_len := child_offset (cbb_children s ! d),
               cbb_children := take d (cbb_children s)\<rparr>)"

section \<open>ASN.1 writers\<close>

function base128_len :: "u64 \<Rightarrow> nat" where
  "base128_len copy = (if copy > 0 then Suc (base128_len (drop_bit 7 copy)) else 0)"
  by pat_completeness auto
termination
  by (relation "measure unat") (auto simp: unat_drop_bit word_neq_0_conv unat_gt_0 intro: div_less_dividend)

declare base128_len.simps [simp del]

definition base128_byte :: "u64 \<Rightarrow> nat \<Rightarrow> u8" where
  "base128_byte v i
     = (let byte = ucast (drop_bit (7 * i) v AND 0x7f) in if i \<noteq> 0 then byte OR 0x80 else byte)"

fun add_base128_loop :: "env \<Rightarrow> nat \<Rightarrow> u64 \<Rightarrow> nat \<Rightarrow> cbb_op" where
  "add_base128_loop E d v 0 = cbb_true"
| "add_base128_loop E d v (Suc i) = cbb_and (CBB_add_u8 E d (base128_byte v i)) (add_base128_loop E d v i)"

definition add_base128_integer :: "env \<Rightarrow> nat \<Rightarrow> u64 \<Rightarrow> cbb_op" where
  "add_base128_integer E d v
     = (let len_len = base128_len v;
            len_len = (if len_len = 0 then 1 else len_len) in
        add_base128_loop E d v len_len)"

definition CBB_add_asn1 :: "env \<Rightarrow> nat \<Rightarrow> CBS_ASN1_TAG \<Rightarrow> cbb_op" where
  "CBB_add_asn1 E d tag
     = cbb_and (CBB_flush E d)
         (let tag_bits = ucast (drop_bit CBS_ASN1_TAG_SHIFT tag) AND 0xe0 :: u8;
              tag_number = tag AND CBS_ASN1_TAG_NUMBER_MASK in
          cbb_and
            (if tag_number \<ge> 0x1f
             then cbb_and (CBB_add_u8 E d (tag_bits OR 0x1f)) (add_base128_integer E d (ucast tag_number))
             else CBB_add_u8 E d (tag_bits OR ucast tag_number))
            (cbb_add_child E d 1 True))"

text \<open>The error label of the functions below.\<close>

definition cbb_err :: "nat \<Rightarrow> cbb_op \<Rightarrow> cbb_op" where
  "cbb_err d p s = (case p s of (True, s) \<Rightarrow> (True, s) | (False, s) \<Rightarrow> (False, cbb_on_error d s))"

text \<open>The bytes that are left are given in their order of writing.\<close>

fun asn1_uint64_bytes :: "env \<Rightarrow> nat \<Rightarrow> bool \<Rightarrow> bytes \<Rightarrow> cbb_op" where
  "asn1_uint64_bytes E d started [] = (if \<not> started then CBB_add_u8 E d 0 else cbb_true)"
| "asn1_uint64_bytes E d started (byte # bs)
     = (if \<not> started \<and> byte = 0 then asn1_uint64_bytes E d started bs
        else cbb_and (if \<not> started \<and> byte AND 0x80 \<noteq> 0 then CBB_add_u8 E d 0 else cbb_true)
               (cbb_and (CBB_add_u8 E d byte) (asn1_uint64_bytes E d True bs)))"

definition CBB_add_asn1_uint64_with_tag :: "env \<Rightarrow> nat \<Rightarrow> u64 \<Rightarrow> CBS_ASN1_TAG \<Rightarrow> cbb_op" where
  "CBB_add_asn1_uint64_with_tag E d value tag
     = cbb_and
         (cbb_err d (cbb_and (CBB_add_asn1 E d tag)
            (asn1_uint64_bytes E (Suc d) False
               (map (\<lambda>i. ucast (drop_bit (8 * (7 - i)) value AND 0xff)) [0..<8]))))
         (CBB_flush E d)"

definition CBB_add_asn1_uint64 :: "env \<Rightarrow> nat \<Rightarrow> u64 \<Rightarrow> cbb_op" where
  "CBB_add_asn1_uint64 E d value = CBB_add_asn1_uint64_with_tag E d value CBS_ASN1_INTEGER"

text \<open>The host is little-endian: \<^verbatim>\<open>memcpy(bytes, &value, 8)\<close> stores the low byte first.\<close>

fun asn1_int64_start :: "bytes \<Rightarrow> nat \<Rightarrow> nat" where
  "asn1_int64_start bs 0 = 0"
| "asn1_int64_start bs (Suc start)
     = (if bs ! Suc start = 0xff \<and> bs ! start AND 0x80 \<noteq> 0 then asn1_int64_start bs start
        else Suc start)"

fun cbb_add_u8s :: "env \<Rightarrow> nat \<Rightarrow> bytes \<Rightarrow> cbb_op" where
  "cbb_add_u8s E d [] = cbb_true"
| "cbb_add_u8s E d (b # bs) = cbb_and (CBB_add_u8 E d b) (cbb_add_u8s E d bs)"

definition CBB_add_asn1_int64_with_tag :: "env \<Rightarrow> nat \<Rightarrow> u64 \<Rightarrow> CBS_ASN1_TAG \<Rightarrow> cbb_op" where
  "CBB_add_asn1_int64_with_tag E d value tag
     = (if sint value \<ge> 0 then CBB_add_asn1_uint64_with_tag E d value tag
        else let bs = CRYPTO_store_u64_le value;
                 start = asn1_int64_start bs 7 in
             cbb_and
               (cbb_err d (cbb_and (CBB_add_asn1 E d tag)
                  (cbb_add_u8s E (Suc d) (map ((!) bs) (rev [0..<Suc start])))))
               (CBB_flush E d))"

definition CBB_add_asn1_int64 :: "env \<Rightarrow> nat \<Rightarrow> u64 \<Rightarrow> cbb_op" where
  "CBB_add_asn1_int64 E d value = CBB_add_asn1_int64_with_tag E d value CBS_ASN1_INTEGER"

definition CBB_add_asn1_octet_string :: "env \<Rightarrow> nat \<Rightarrow> bytes \<Rightarrow> cbb_op" where
  "CBB_add_asn1_octet_string E d data
     = cbb_err d (cbb_and (CBB_add_asn1 E d CBS_ASN1_OCTETSTRING)
         (cbb_and (CBB_add_bytes E (Suc d) data) (CBB_flush E d)))"

definition CBB_add_asn1_bool :: "env \<Rightarrow> nat \<Rightarrow> int \<Rightarrow> cbb_op" where
  "CBB_add_asn1_bool E d value
     = cbb_err d (cbb_and (CBB_add_asn1 E d CBS_ASN1_BOOLEAN)
         (cbb_and (CBB_add_u8 E (Suc d) (if value \<noteq> 0 then 0xff else 0)) (CBB_flush E d)))"

end
