(* ===== verification/Cbb_Spec.thy ===== *)
theory Cbb_Spec
  imports Cbb Der
begin

text \<open>
  What the builder promises.  The invariant \<open>cbb_wf\<close> ties lengths, capacity and the open children
  together; the contents of a builder are \<open>cbb_bytes\<close>, the first \<open>cbb_len\<close> bytes of its buffer.  The
  contract of a call that completes what it writes is \<open>writes\<close>: on a builder without errors it appends
  exactly the given bytes or sets the error flag, and it succeeds whenever there is room (\<open>cbb_room\<close>:
  the fixed buffer is large enough, or the buffer may grow and the allocator grants every request).
\<close>

section \<open>Memory\<close>

lemma length_mem_write [simp]: "off + length bs \<le> length b \<Longrightarrow> length (mem_write b off bs) = length b"
  by (simp add: mem_write_def)

lemma take_mem_write: "k \<le> off \<Longrightarrow> off \<le> length b \<Longrightarrow> take k (mem_write b off bs) = take k b"
  by (simp add: mem_write_def min_def)

lemma take_mem_write_end:
  "off + length bs \<le> length b \<Longrightarrow> take (off + length bs) (mem_write b off bs) = take off b @ bs"
  by (simp add: mem_write_def)

lemma list_update_mem_write:
  "off + n < length b \<Longrightarrow> length bs = n \<Longrightarrow>
   mem_write (b[off + n := x]) off bs = mem_write b off (bs @ [x])"
  by (simp add: mem_write_def list_update_append drop_update_cancel take_update_cancel
      Cons_nth_drop_Suc [symmetric] drop_update_swap)

lemma cbb_store_be_eq:
  "off + n \<le> length b \<Longrightarrow> cbb_store_be b off n v = (mem_write b off (be_bytes n v), v div 256 ^ n)"
proof (induction n arbitrary: b v)
  case 0
  then show ?case by (simp add: mem_write_def be_bytes_def)
next
  case (Suc n)
  then show ?case
    by (simp add: be_bytes_Suc list_update_mem_write div_mult2_eq)
qed

section \<open>The invariant\<close>

text \<open>The prefixes of the open children lie one behind the other in the contents.\<close>

fun child_chain :: "nat \<Rightarrow> cbb_child list \<Rightarrow> nat \<Rightarrow> bool" where
  "child_chain start [] n \<longleftrightarrow> start \<le> n"
| "child_chain start (c # cs) n \<longleftrightarrow>
     start \<le> child_offset c \<and> child_chain (child_offset c + child_pending_len_len c) cs n"

definition child_ok :: "cbb_child \<Rightarrow> bool" where
  "child_ok c \<longleftrightarrow> child_pending_len_len c \<le> 8 \<and> (child_pending_is_asn1 c \<longrightarrow> child_pending_len_len c = 1)"

definition cbb_wf :: "cbb \<Rightarrow> bool" where
  "cbb_wf s \<longleftrightarrow> cbb_len s \<le> cbb_cap s \<and> length (cbb_buf s) = cbb_cap s \<and> cbb_cap s < size_bound \<and>
     child_chain 0 (cbb_children s) (cbb_len s) \<and> list_all child_ok (cbb_children s)"

definition cbb_bytes :: "cbb \<Rightarrow> bytes" where
  "cbb_bytes s = take (cbb_len s) (cbb_buf s)"

text \<open>Growth: the capacity never shrinks, and a fixed buffer keeps its capacity.\<close>

abbreviation cap_grows :: "cbb \<Rightarrow> cbb \<Rightarrow> bool" where
  "cap_grows s s' \<equiv> cbb_cap s \<le> cbb_cap s' \<and> (cbb_can_resize s \<or> cbb_cap s' = cbb_cap s)"

definition cbb_room :: "env \<Rightarrow> cbb \<Rightarrow> nat \<Rightarrow> bool" where
  "cbb_room E s n \<longleftrightarrow> cbb_len s + n \<le> cbb_cap s \<or>
     cbb_can_resize s \<and> (\<forall>k. env_heap E k) \<and> cbb_len s + n < 2 ^ 62"

lemma child_chain_mono: "child_chain a cs n \<Longrightarrow> n \<le> m \<Longrightarrow> child_chain a cs m"
  by (induction cs arbitrary: a) auto

lemma child_chain_le: "child_chain a cs n \<Longrightarrow> a \<le> n"
proof (induction cs arbitrary: a)
  case (Cons c cs)
  then have "child_offset c + child_pending_len_len c \<le> n" by simp
  with Cons.prems show ?case by simp
qed simp

lemma child_chain_append:
  "child_chain a (cs @ [c]) n \<longleftrightarrow>
     child_chain a cs (child_offset c) \<and> child_offset c + child_pending_len_len c \<le> n"
  by (induction cs arbitrary: a) auto

lemma length_cbb_bytes: "cbb_wf s \<Longrightarrow> length (cbb_bytes s) = cbb_len s"
  by (simp add: cbb_wf_def cbb_bytes_def)

section \<open>Growth\<close>

lemma OPENSSL_realloc_total:
  "\<forall>k. heap k \<Longrightarrow> n < 2 ^ 63 \<Longrightarrow> OPENSSL_realloc heap fresh orig n \<noteq> None"
  by (simp add: OPENSSL_realloc_def OPENSSL_malloc_def OPENSSL_MALLOC_PREFIX_def)

lemma cbb_buffer_reserve_room:
  assumes wf: "cbb_wf s" and room: "cbb_room E s n"
  shows "fst (cbb_buffer_reserve E n s) \<noteq> None"
proof (cases "cbb_len s + n \<le> cbb_cap s")
  case True
  with wf show ?thesis by (simp add: cbb_buffer_reserve_def cbb_wf_def)
next
  case False
  with room have r: "cbb_can_resize s" "\<forall>k. env_heap E k" "cbb_len s + n < 2 ^ 62"
    by (auto simp: cbb_room_def)
  with False have "size_mul (cbb_cap s) 2 = cbb_cap s * 2" "size_add (cbb_len s) n = cbb_len s + n"
    by simp_all
  moreover have "OPENSSL_realloc (env_heap E) (env_fresh E) (cbb_buf s) (cbb_len s + n) \<noteq> None"
    "OPENSSL_realloc (env_heap E) (env_fresh E) (cbb_buf s) (cbb_cap s * 2) \<noteq> None"
    by (rule OPENSSL_realloc_total [OF r(2)], use False r in simp)+
  ultimately show ?thesis
    using False r by (auto simp: cbb_buffer_reserve_def Let_def simp del: not_None_eq split: option.splits)
qed

lemma cbb_buffer_reserve_None:
  "cbb_buffer_reserve E n s = (None, s') \<Longrightarrow> cbb_error s'"
  by (auto simp: cbb_buffer_reserve_def Let_def split: if_splits option.splits)

lemma cbb_buffer_reserve_Some:
  assumes wf: "cbb_wf s" and n: "n < size_bound" and r: "cbb_buffer_reserve E n s = (Some out, s')"
  shows "out = cbb_len s \<and> cbb_wf s' \<and> cbb_len s + n \<le> cbb_cap s' \<and>
       cbb_bytes s' = cbb_bytes s \<and> cbb_len s' = cbb_len s \<and> cbb_error s' = cbb_error s \<and>
       cbb_children s' = cbb_children s \<and> cbb_can_resize s' = cbb_can_resize s \<and> cap_grows s s'"
proof -
  have cap: "cbb_len s \<le> cbb_cap s" "cbb_cap s < size_bound" "length (cbb_buf s) = cbb_cap s"
    using wf by (simp_all add: cbb_wf_def)
  from r have "\<not> size_add (cbb_len s) n < cbb_len s"
    by (auto simp: cbb_buffer_reserve_def)
  then have newlen: "size_add (cbb_len s) n = cbb_len s + n" "cbb_len s + n < size_bound"
    using n cap size_add_overflow [of "cbb_len s" n] by simp_all
  show ?thesis
  proof (cases "cbb_len s + n \<le> cbb_cap s")
    case True
    with r newlen wf show ?thesis by (auto simp: cbb_buffer_reserve_def)
  next
    case False
    define newcap where "newcap = (if size_mul (cbb_cap s) 2 < cbb_cap s \<or>
      size_mul (cbb_cap s) 2 < cbb_len s + n then cbb_len s + n else size_mul (cbb_cap s) 2)"
    have nc: "cbb_len s + n \<le> newcap" "cbb_cap s \<le> newcap" "newcap < size_bound"
      using False newlen by (auto simp: newcap_def size_mul_def)
    from r False newlen obtain b where
      b: "OPENSSL_realloc (env_heap E) (env_fresh E) (cbb_buf s) newcap = Some b"
      and s': "out = cbb_len s" "s' = s\<lparr>cbb_buf := b, cbb_cap := newcap\<rparr>" "cbb_can_resize s"
      by (auto simp: cbb_buffer_reserve_def Let_def newcap_def split: if_splits option.splits)
    have "take (cbb_len s) b = take (cbb_len s) (cbb_buf s)"
      using OPENSSL_realloc_prefix [OF b] cap nc by simp
    with s' nc cap wf OPENSSL_realloc_length [OF b] show ?thesis
      by (auto simp: cbb_wf_def cbb_bytes_def)
  qed
qed

text \<open>Adding space and filling it with \<open>bs\<close>: the pattern of all calls that write.\<close>

lemma cbb_buffer_add_None: "cbb_buffer_add E n s = (None, s') \<Longrightarrow> cbb_error s'"
  by (auto simp: cbb_buffer_add_def dest: cbb_buffer_reserve_None split: prod.splits option.splits)

lemma cbb_buffer_add_room:
  "cbb_wf s \<Longrightarrow> cbb_room E s n \<Longrightarrow> fst (cbb_buffer_add E n s) \<noteq> None"
  using cbb_buffer_reserve_room [of s E n]
  by (auto simp: cbb_buffer_add_def split: prod.splits option.splits)

lemma cbb_buffer_add_Some:
  assumes wf: "cbb_wf s" and n: "n < size_bound" and r: "cbb_buffer_add E n s = (Some out, s')"
  shows "out = cbb_len s" "cbb_wf s'" "cbb_len s' = cbb_len s + n" "take (cbb_len s) (cbb_buf s') = cbb_bytes s"
    "cbb_error s' = cbb_error s" "cbb_children s' = cbb_children s"
    "cbb_can_resize s' = cbb_can_resize s" "cap_grows s s'"
proof -
  from r obtain s1 where s1: "cbb_buffer_reserve E n s = (Some out, s1)"
    and s': "s' = s1\<lparr>cbb_len := cbb_len s1 + n\<rparr>"
    by (auto simp: cbb_buffer_add_def split: prod.splits option.splits)
  note spec = cbb_buffer_reserve_Some [OF wf n s1]
  show "out = cbb_len s" "cbb_len s' = cbb_len s + n" "take (cbb_len s) (cbb_buf s') = cbb_bytes s"
    "cbb_error s' = cbb_error s" "cbb_children s' = cbb_children s"
    "cbb_can_resize s' = cbb_can_resize s" "cap_grows s s'"
    using spec by (auto simp: s' cbb_bytes_def)
  show "cbb_wf s'"
    using spec wf child_chain_mono [of 0 "cbb_children s" "cbb_len s" "cbb_len s + n"]
    by (auto simp: s' cbb_wf_def)
qed

definition fill :: "nat \<Rightarrow> bytes \<Rightarrow> cbb \<Rightarrow> cbb" where
  "fill off bs s = s\<lparr>cbb_buf := mem_write (cbb_buf s) off bs\<rparr>"

lemma cbb_add_fill:
  assumes wf: "cbb_wf s" and n: "length bs < size_bound"
    and r: "cbb_buffer_add E (length bs) s = (Some out, s')"
  defines "s'' \<equiv> fill out bs s'"
  shows "cbb_wf s''" "cbb_bytes s'' = cbb_bytes s @ bs" "cbb_error s'' = cbb_error s"
    "cbb_children s'' = cbb_children s" "cbb_can_resize s'' = cbb_can_resize s" "cap_grows s s''"
proof -
  note a = cbb_buffer_add_Some [OF wf n r]
  have fits: "out + length bs \<le> length (cbb_buf s')"
    using a by (auto simp: cbb_wf_def)
  then show "cbb_wf s''" "cbb_error s'' = cbb_error s" "cbb_children s'' = cbb_children s"
    "cbb_can_resize s'' = cbb_can_resize s" "cap_grows s s''"
    using a by (auto simp: s''_def fill_def cbb_wf_def)
  show "cbb_bytes s'' = cbb_bytes s @ bs"
    using a take_mem_write_end [OF fits] by (simp add: s''_def fill_def cbb_bytes_def)
qed

section \<open>Calls that append\<close>

definition writes :: "env \<Rightarrow> nat \<Rightarrow> cbb_op \<Rightarrow> bytes \<Rightarrow> bool" where
  "writes E d p bs \<longleftrightarrow> (\<forall>s. cbb_wf s \<and> \<not> cbb_error s \<and> length (cbb_children s) = d \<longrightarrow>
     (case p s of
        (True, s') \<Rightarrow> cbb_wf s' \<and> \<not> cbb_error s' \<and> cbb_children s' = cbb_children s \<and>
          cbb_bytes s' = cbb_bytes s @ bs \<and> cbb_can_resize s' = cbb_can_resize s \<and> cap_grows s s'
      | (False, s') \<Rightarrow> cbb_error s' \<and> \<not> cbb_room E s (length bs)))"

named_theorems writes_intro "what the calls append"

lemma writesI:
  assumes "\<And>s s'. cbb_wf s \<Longrightarrow> \<not> cbb_error s \<Longrightarrow> length (cbb_children s) = d \<Longrightarrow> p s = (True, s') \<Longrightarrow>
      cbb_wf s' \<and> \<not> cbb_error s' \<and> cbb_children s' = cbb_children s \<and>
      cbb_bytes s' = cbb_bytes s @ bs \<and> cbb_can_resize s' = cbb_can_resize s \<and> cap_grows s s'"
    and "\<And>s s'. cbb_wf s \<Longrightarrow> \<not> cbb_error s \<Longrightarrow> length (cbb_children s) = d \<Longrightarrow> p s = (False, s') \<Longrightarrow>
      cbb_error s' \<and> \<not> cbb_room E s (length bs)"
  shows "writes E d p bs"
  unfolding writes_def
proof (intro allI impI, elim conjE)
  fix s assume s: "cbb_wf s" "\<not> cbb_error s" "length (cbb_children s) = d"
  obtain ok s' where p: "p s = (ok, s')" by (cases "p s")
  show "case p s of
        (True, s') \<Rightarrow> cbb_wf s' \<and> \<not> cbb_error s' \<and> cbb_children s' = cbb_children s \<and>
          cbb_bytes s' = cbb_bytes s @ bs \<and> cbb_can_resize s' = cbb_can_resize s \<and> cap_grows s s'
      | (False, s') \<Rightarrow> cbb_error s' \<and> \<not> cbb_room E s (length bs)"
    using assms(1) [OF s, of s'] assms(2) [OF s, of s'] p by (cases ok) simp_all
qed

lemma writes_True:
  assumes "writes E d p bs" "cbb_wf s" "\<not> cbb_error s" "length (cbb_children s) = d" "p s = (True, s')"
  shows "cbb_wf s'" "\<not> cbb_error s'" "cbb_children s' = cbb_children s"
    "cbb_bytes s' = cbb_bytes s @ bs" "cbb_can_resize s' = cbb_can_resize s" "cap_grows s s'"
  using assms unfolding writes_def by (auto dest!: spec [of _ s])

lemma writes_False:
  assumes "writes E d p bs" "cbb_wf s" "\<not> cbb_error s" "length (cbb_children s) = d" "p s = (False, s')"
  shows "cbb_error s'" "\<not> cbb_room E s (length bs)"
  using assms unfolding writes_def by (auto dest!: spec [of _ s])

lemma CBB_flush_leaf:
  "length (cbb_children s) = d \<Longrightarrow> CBB_flush E d s = (if cbb_error s then (False, s) else (True, s))"
  by (simp add: CBB_flush.simps)

lemma cbb_room_mono: "cbb_room E s n \<Longrightarrow> m \<le> n \<Longrightarrow> cbb_room E s m"
  by (auto simp: cbb_room_def)

lemma cbb_room_append:
  assumes "cbb_room E s (n + m)" "cbb_wf s" "cbb_wf s'" "cbb_bytes s' = cbb_bytes s @ bs"
    "length bs = n" "cbb_can_resize s' = cbb_can_resize s" "cap_grows s s'"
  shows "cbb_room E s' m"
proof -
  have "cbb_len s' = cbb_len s + n"
    using length_cbb_bytes [OF assms(2)] length_cbb_bytes [OF assms(3)] assms(4,5) by simp
  with assms show ?thesis by (auto simp: cbb_room_def)
qed

lemma writes_true [writes_intro]: "writes E d cbb_true []"
  by (rule writesI) (auto simp: cbb_true_def)

lemma writes_and [writes_intro]:
  assumes p: "writes E d p bs" and q: "writes E d q cs"
  shows "writes E d (cbb_and p q) (bs @ cs)"
proof (rule writesI)
  fix s s' assume s: "cbb_wf s" "\<not> cbb_error s" "length (cbb_children s) = d" "cbb_and p q s = (True, s')"
  then obtain s1 where s1: "p s = (True, s1)" and s': "q s1 = (True, s')"
    by (auto simp: cbb_and_def split: prod.splits if_splits)
  note p' = writes_True [OF p s(1-3) s1]
  note q' = writes_True [OF q p'(1,2) _ s']
  show "cbb_wf s' \<and> \<not> cbb_error s' \<and> cbb_children s' = cbb_children s \<and>
      cbb_bytes s' = cbb_bytes s @ (bs @ cs) \<and> cbb_can_resize s' = cbb_can_resize s \<and> cap_grows s s'"
    using p' q' s by auto
next
  fix s s' assume s: "cbb_wf s" "\<not> cbb_error s" "length (cbb_children s) = d" "cbb_and p q s = (False, s')"
  show "cbb_error s' \<and> \<not> cbb_room E s (length (bs @ cs))"
  proof (cases "p s")
    case (Pair ok s1)
    show ?thesis
    proof (cases ok)
      case True
      with Pair have "p s = (True, s1)" by simp
      note p' = writes_True [OF p s(1-3) this]
      from s Pair True have "q s1 = (False, s')" by (auto simp: cbb_and_def)
      note q' = writes_False [OF q p'(1,2) _ this]
      show ?thesis
        using q' p' s cbb_room_append [of E s "length bs" "length cs" s1 bs] by auto
    next
      case False
      with s Pair have "p s = (False, s')" by (auto simp: cbb_and_def)
      note p' = writes_False [OF p s(1-3) this]
      then show ?thesis using cbb_room_mono [of E s "length (bs @ cs)" "length bs"] by auto
    qed
  qed
qed

lemma writes_if [writes_intro]:
  "(b \<Longrightarrow> writes E d p bs) \<Longrightarrow> (\<not> b \<Longrightarrow> writes E d q cs) \<Longrightarrow>
   writes E d (if b then p else q) (if b then bs else cs)"
  by simp

lemma writes_fill:
  assumes n: "length bs < size_bound"
    and p: "\<And>s. p s = (case CBB_add_space E d (length bs) s of
        (None, s) \<Rightarrow> (False, s) | (Some out, s) \<Rightarrow> (True, fill out bs s))"
  shows "writes E d p bs"
proof (rule writesI)
  fix s s' assume s: "cbb_wf s" "\<not> cbb_error s" "length (cbb_children s) = d" and ok: "p s = (True, s')"
  then obtain out s1 where r: "cbb_buffer_add E (length bs) s = (Some out, s1)" and s': "s' = fill out bs s1"
    by (auto simp: p CBB_add_space_def CBB_flush_leaf split: prod.splits option.splits)
  from cbb_add_fill [OF s(1) n r] s s'
  show "cbb_wf s' \<and> \<not> cbb_error s' \<and> cbb_children s' = cbb_children s \<and>
      cbb_bytes s' = cbb_bytes s @ bs \<and> cbb_can_resize s' = cbb_can_resize s \<and> cap_grows s s'"
    by simp
next
  fix s s' assume s: "cbb_wf s" "\<not> cbb_error s" "length (cbb_children s) = d" and err: "p s = (False, s')"
  then have "cbb_buffer_add E (length bs) s = (None, s')"
    by (auto simp: p CBB_add_space_def CBB_flush_leaf split: prod.splits option.splits)
  with cbb_buffer_add_None [OF this] cbb_buffer_add_room [OF s(1), of E "length bs"]
  show "cbb_error s' \<and> \<not> cbb_room E s (length bs)" by auto
qed

lemma writes_CBB_add_bytes [writes_intro]: "length bs < size_bound \<Longrightarrow> writes E d (CBB_add_bytes E d bs) bs"
  by (rule writes_fill) (simp, unfold CBB_add_bytes_def fill_def, rule refl)

lemma writes_CBB_add_zeros [writes_intro]: "n < size_bound \<Longrightarrow> writes E d (CBB_add_zeros E d n) (replicate n 0)"
  by (rule writes_fill) (simp, unfold CBB_add_zeros_def fill_def length_replicate, rule refl)

text \<open>A number that does not fit in its field is an error; the 8-bit and wider calls always fit.\<close>

lemma cbb_add_space_range:
  assumes "cbb_wf s" "length (cbb_children s) = d" "n < size_bound" "CBB_add_space E d n s = (Some out, s')"
  shows "out + n \<le> length (cbb_buf s')"
proof -
  have r: "cbb_buffer_add E n s = (Some out, s')"
    using assms(2,4) by (simp add: CBB_add_space_def CBB_flush_leaf split: if_splits)
  from cbb_buffer_add_Some [OF assms(1,3) r] show ?thesis
    by (simp add: cbb_wf_def)
qed

lemma cbb_add_u_eq:
  assumes "cbb_wf s" "length (cbb_children s) = d" "n < size_bound" "unat v < 256 ^ n"
  shows "cbb_add_u E d v n s = (case CBB_add_space E d n s of
        (None, s) \<Rightarrow> (False, s) | (Some out, s) \<Rightarrow> (True, fill out (be_bytes n (unat v)) s))"
proof (cases "CBB_add_space E d n s")
  case (Pair r s')
  show ?thesis
  proof (cases r)
    case (Some out)
    with Pair cbb_add_space_range [OF assms(1-3), of E out s']
    have "cbb_store_be (cbb_buf s') out n (unat v) = (mem_write (cbb_buf s') out (be_bytes n (unat v)), 0)"
      using assms(4) by (simp add: cbb_store_be_eq)
    with Pair Some show ?thesis by (simp add: cbb_add_u_def fill_def)
  qed (simp add: cbb_add_u_def Pair)
qed

lemma writes_cbb_add_u:
  assumes "n \<le> 8" "unat v < 256 ^ n"
  shows "writes E d (cbb_add_u E d v n) (be_bytes n (unat v))"
proof -
  have n: "n < size_bound" using assms by simp
  define q where "q s = (case CBB_add_space E d n s of
      (None, s) \<Rightarrow> (False, s) | (Some out, s) \<Rightarrow> (True, fill out (be_bytes n (unat v)) s))" for s
  have "writes E d q (be_bytes n (unat v))"
    by (rule writes_fill) (use n in \<open>simp_all add: q_def\<close>)
  moreover have "cbb_add_u E d v n s = q s" if "cbb_wf s" "length (cbb_children s) = d" for s
    unfolding q_def using that n assms by (intro cbb_add_u_eq)
  ultimately show ?thesis unfolding writes_def by auto
qed

lemma writes_CBB_add_u [writes_intro]:
  "writes E d (CBB_add_u8 E d b) [b]"
  "writes E d (CBB_add_u16 E d w) (be_bytes 2 (unat w))"
  "unat x < 256 ^ 3 \<Longrightarrow> writes E d (CBB_add_u24 E d x) (be_bytes 3 (unat x))"
  "writes E d (CBB_add_u32 E d y) (be_bytes 4 (unat y))"
  "writes E d (CBB_add_u64 E d z) (be_bytes 8 (unat z))"
proof -
  show "writes E d (CBB_add_u8 E d b) [b]"
    using writes_cbb_add_u [of 1 "ucast b" E d] byte_lt [of b]
    by (simp add: CBB_add_u8_def unat_ucast_up be_bytes_def)
  show "writes E d (CBB_add_u16 E d w) (be_bytes 2 (unat w))"
    using writes_cbb_add_u [of 2 "ucast w" E d] unsigned_less [of w, where 'a = nat]
    by (simp add: CBB_add_u16_def unat_ucast_up)
  show "unat x < 256 ^ 3 \<Longrightarrow> writes E d (CBB_add_u24 E d x) (be_bytes 3 (unat x))"
    using writes_cbb_add_u [of 3 "ucast x" E d] by (simp add: CBB_add_u24_def unat_ucast_up)
  show "writes E d (CBB_add_u32 E d y) (be_bytes 4 (unat y))"
    using writes_cbb_add_u [of 4 "ucast y" E d] unsigned_less [of y, where 'a = nat]
    by (simp add: CBB_add_u32_def unat_ucast_up)
  show "writes E d (CBB_add_u64 E d z) (be_bytes 8 (unat z))"
    using writes_cbb_add_u [of 8 z E d] unsigned_less [of z, where 'a = nat]
    by (simp add: CBB_add_u64_def)
qed

lemma writes_CBB_add_u_le [writes_intro]:
  "writes E d (CBB_add_u16le E d w) (le_bytes 2 (unat w))"
  "writes E d (CBB_add_u32le E d y) (le_bytes 4 (unat y))"
  "writes E d (CBB_add_u64le E d z) (le_bytes 8 (unat z))"
  using writes_CBB_add_u(2) [of E d "CRYPTO_bswap2 w"] writes_CBB_add_u(4) [of E d "CRYPTO_bswap4 y"]
    writes_CBB_add_u(5) [of E d "CRYPTO_bswap8 z"]
  by (simp_all add: CBB_add_u16le_def CBB_add_u32le_def CBB_add_u64le_def be_bytes_bswap)

lemma cbb_add_u_overflow:
  assumes "cbb_wf s" "n \<le> 8" "256 ^ n \<le> unat v" "\<not> cbb_error s" "length (cbb_children s) = d"
    "cbb_add_u E d v n s = (ok, s')"
  shows "\<not> ok \<and> cbb_error s'"
proof (cases "CBB_add_space E d n s")
  case (Pair r s1)
  show ?thesis
  proof (cases r)
    case None
    with assms Pair have "s' = s1" "\<not> ok" "cbb_buffer_add E n s = (None, s1)"
      by (simp_all add: cbb_add_u_def CBB_add_space_def CBB_flush_leaf)
    with cbb_buffer_add_None show ?thesis by blast
  next
    case (Some out)
    with Pair cbb_add_space_range [of s d n E out s1] assms
    have "cbb_store_be (cbb_buf s1) out n (unat v) =
        (mem_write (cbb_buf s1) out (be_bytes n (unat v)), unat v div 256 ^ n)"
      by (simp add: cbb_store_be_eq)
    moreover have "0 < unat v div 256 ^ n" using assms(3) by (simp add: div_greater_zero_iff)
    ultimately show ?thesis
      using assms(6) Pair Some by (auto simp: cbb_add_u_def cbb_on_error_def)
  qed
qed

section \<open>Opening and closing a child\<close>

definition opens :: "env \<Rightarrow> nat \<Rightarrow> cbb_op \<Rightarrow> bytes \<Rightarrow> nat \<Rightarrow> bool \<Rightarrow> bool" where
  "opens E d p hdr n is_asn1 \<longleftrightarrow> (\<forall>s ok s'. cbb_wf s \<and> \<not> cbb_error s \<and> length (cbb_children s) = d \<and>
     p s = (ok, s') \<longrightarrow>
     (if ok then cbb_wf s' \<and> \<not> cbb_error s' \<and> cbb_bytes s' = cbb_bytes s @ hdr @ replicate n 0 \<and>
        cbb_children s' = cbb_children s @ [\<lparr>child_offset = cbb_len s + length hdr,
          child_pending_len_len = n, child_pending_is_asn1 = is_asn1\<rparr>] \<and>
        cbb_can_resize s' = cbb_can_resize s \<and> cap_grows s s'
      else cbb_error s' \<and> \<not> cbb_room E s (length hdr + n)))"

lemma opens_cbb_add_child:
  assumes "n \<le> 8" "a \<Longrightarrow> n = 1"
  shows "opens E d (cbb_add_child E d n a) [] n a"
  unfolding opens_def
proof (intro allI impI, elim conjE)
  fix s ok s'
  assume s: "cbb_wf s" "\<not> cbb_error s" "length (cbb_children s) = d"
    and p: "cbb_add_child E d n a s = (ok, s')"
  have n: "length (replicate n 0 :: bytes) < size_bound" using assms by simp
  show "if ok then cbb_wf s' \<and> \<not> cbb_error s' \<and> cbb_bytes s' = cbb_bytes s @ [] @ replicate n 0 \<and>
        cbb_children s' = cbb_children s @ [\<lparr>child_offset = cbb_len s + length [],
          child_pending_len_len = n, child_pending_is_asn1 = a\<rparr>] \<and>
        cbb_can_resize s' = cbb_can_resize s \<and> cap_grows s s'
      else cbb_error s' \<and> \<not> cbb_room E s (length [] + n)"
  proof (cases "cbb_buffer_add E n s")
    case (Pair r s1)
    show ?thesis
    proof (cases r)
      case None
      with p Pair cbb_buffer_add_None [of E n s s1] cbb_buffer_add_room [OF s(1), of E n] show ?thesis
        by (auto simp: cbb_add_child_def)
    next
      case (Some out)
      with Pair have r: "cbb_buffer_add E (length (replicate n 0 :: bytes)) s = (Some out, s1)" by simp
      define c where "c = \<lparr>child_offset = cbb_len s, child_pending_len_len = n, child_pending_is_asn1 = a\<rparr>"
      note f = cbb_add_fill [OF s(1) n r]
      have s': "ok" "s' = (fill out (replicate n 0) s1)\<lparr>cbb_children := cbb_children s @ [c]\<rparr>"
        using p Pair Some cbb_buffer_add_Some(6) [OF s(1) n r] s(3)
        by (simp_all add: cbb_add_child_def fill_def c_def)
      have len: "cbb_len (fill out (replicate n 0) s1) = cbb_len s + n"
        using cbb_buffer_add_Some(3) [OF s(1) n r] by (simp add: fill_def)
      have "cbb_wf s'"
        using f(1,4) s(1) assms len by (auto simp: s' cbb_wf_def child_chain_append child_ok_def c_def)
      with f s s' show ?thesis by (simp add: c_def cbb_bytes_def)
    qed
  qed
qed

lemma opens_and:
  assumes p: "writes E d p bs" and q: "opens E d q hdr n a"
  shows "opens E d (cbb_and p q) (bs @ hdr) n a"
  unfolding opens_def
proof (intro allI impI, elim conjE)
  fix s ok s'
  assume s: "cbb_wf s" "\<not> cbb_error s" "length (cbb_children s) = d"
    and r: "cbb_and p q s = (ok, s')"
  obtain ok1 s1 where s1: "p s = (ok1, s1)" by (cases "p s")
  show "if ok then cbb_wf s' \<and> \<not> cbb_error s' \<and> cbb_bytes s' = cbb_bytes s @ (bs @ hdr) @ replicate n 0 \<and>
        cbb_children s' = cbb_children s @ [\<lparr>child_offset = cbb_len s + length (bs @ hdr),
          child_pending_len_len = n, child_pending_is_asn1 = a\<rparr>] \<and>
        cbb_can_resize s' = cbb_can_resize s \<and> cap_grows s s'
      else cbb_error s' \<and> \<not> cbb_room E s (length (bs @ hdr) + n)"
  proof (cases ok1)
    case True
    with s1 have "p s = (True, s1)" by simp
    note p' = writes_True [OF p s this]
    have "cbb_len s1 = cbb_len s + length bs"
      using length_cbb_bytes [OF s(1)] length_cbb_bytes [OF p'(1)] p'(4) by simp
    moreover have "q s1 = (ok, s')" using r s1 True by (simp add: cbb_and_def)
    moreover have "cbb_room E s1 (length hdr + n)" if "cbb_room E s (length (bs @ hdr) + n)"
      using cbb_room_append [of E s "length bs" "length hdr + n" s1 bs] that p' s by (simp add: add.assoc)
    ultimately show ?thesis
      using q [unfolded opens_def, rule_format, of s1 ok s'] p' s by (auto simp: add.assoc)
  next
    case False
    with s1 r have "p s = (False, s')" "\<not> ok" by (auto simp: cbb_and_def)
    with writes_False [OF p s] cbb_room_mono [of E s "length (bs @ hdr) + n" "length bs"]
    show ?thesis by auto
  qed
qed

text \<open>The bytes a closed child leaves in front of its contents.\<close>

definition child_prefix :: "nat \<Rightarrow> bool \<Rightarrow> nat \<Rightarrow> bytes" where
  "child_prefix n is_asn1 k = (if is_asn1 then der_length k else be_bytes n k)"

definition child_fits :: "nat \<Rightarrow> bool \<Rightarrow> nat \<Rightarrow> bool" where
  "child_fits n is_asn1 k \<longleftrightarrow> (if is_asn1 then k \<le> 0xfffffffe else k < 256 ^ n)"

lemma asn1_length_prefix_Some:
  assumes "asn1_length_prefix k = Some (m, b)"
  shows "1 \<le> m" "m \<le> 5" "k \<le> 0xfffffffe" "m = 1 \<Longrightarrow> der_length k = [b]"
    "m \<noteq> 1 \<Longrightarrow> der_length k = b # be_bytes (m - 1) k" "m \<noteq> 1 \<Longrightarrow> k < 256 ^ (m - 1)"
proof -
  show m: "1 \<le> m" "m \<le> 5" "k \<le> 0xfffffffe"
    using assms by (auto simp: asn1_length_prefix_def split: if_splits)
  show "m = 1 \<Longrightarrow> der_length k = [b]" "m \<noteq> 1 \<Longrightarrow> k < 256 ^ (m - 1)"
    using assms by (auto simp: asn1_length_prefix_def der_length_def split: if_splits)
  assume "m \<noteq> 1"
  then have "m - 1 = byte_count k" "\<not> k < 128" "b = word_of_nat (128 + byte_count k)"
    using assms byte_count_unique [of k 1] byte_count_unique [of k 2] byte_count_unique [of k 3]
      byte_count_unique [of k 4]
    by (auto simp: asn1_length_prefix_def split: if_splits)
  then show "der_length k = b # be_bytes (m - 1) k"
    by (simp add: der_length_def)
qed

lemma asn1_length_prefix_None: "asn1_length_prefix k = None \<longleftrightarrow> \<not> k \<le> 0xfffffffe"
  by (simp add: asn1_length_prefix_def)

text \<open>The move of the contents and the store of the length, on the buffer.\<close>

lemma mem_write_gap:
  assumes "length X = m" "length C = n" "off + 1 + m + n \<le> length B"
  shows "take (off + 1 + m + n) (mem_write ((mem_write B (off + 1 + m) C)[off := b]) (off + 1) X)
    = take off B @ b # X @ C"
proof -
  define B' where "B' = (mem_write B (off + 1 + m) C)[off := b]"
  have len: "length B' = length B" using assms by (simp add: B'_def)
  have t: "take (off + 1) B' = take off B @ [b]"
    using assms by (simp add: B'_def take_Suc_conv_app_nth take_mem_write)
  have d: "drop (off + 1 + m) B' = C @ drop (off + 1 + m + n) B"
    using assms by (simp add: B'_def drop_update_cancel mem_write_def)
  have "mem_write B' (off + 1) X = take (off + 1) B' @ X @ drop (off + 1 + m) B'"
    using assms(1) by (simp add: mem_write_def)
  then show ?thesis
    unfolding B'_def [symmetric] t d using assms by simp
qed

lemma mem_write_prefix:
  assumes "take n B = P @ ph @ C" "length X = length ph" "n \<le> length B"
  shows "take n (mem_write B (length P) X) = P @ X @ C"
proof -
  obtain R where B: "B = (P @ ph @ C) @ R" and n: "n = length (P @ ph @ C)"
    using assms(1,3) by (metis append_take_drop_id length_take min.absorb2)
  show ?thesis using assms(2) by (simp add: B n mem_write_def)
qed

text \<open>A closing call turns contents \<open>P @ ph @ C\<close> into \<open>P @ prefix @ C\<close>.\<close>

definition closed :: "nat \<Rightarrow> cbb \<Rightarrow> bytes \<Rightarrow> cbb \<Rightarrow> bool" where
  "closed d s bs s' \<longleftrightarrow> cbb_wf s' \<and> \<not> cbb_error s' \<and> cbb_children s' = take d (cbb_children s) \<and>
     cbb_bytes s' = bs \<and> cbb_can_resize s' = cbb_can_resize s \<and> cap_grows s s'"

lemma cbb_close_child_spec:
  assumes wf: "cbb_wf s" "\<not> cbb_error s" and ch: "cbb_children s = cs @ [c]" "length cs = d"
    and bytes: "cbb_bytes s = P @ ph @ C" and len: "length P = child_offset c" "length ph = child_pending_len_len c"
    and r: "cbb_close_child E d c s = (ok, s')"
  defines "pre \<equiv> child_prefix (length ph) (child_pending_is_asn1 c) (length C)"
  shows "ok \<Longrightarrow> closed d s (P @ pre @ C) s' \<and> child_fits (length ph) (child_pending_is_asn1 c) (length C)"
    and "\<not> ok \<Longrightarrow> cbb_error s' \<and> \<not> (child_fits (length ph) (child_pending_is_asn1 c) (length C) \<and>
           cbb_room E s (length pre - length ph))"
proof -
  have L: "cbb_len s = length P + length ph + length C"
    using length_cbb_bytes [OF wf(1)] bytes by simp
  have bound: "cbb_len s \<le> cbb_cap s" "cbb_cap s < size_bound" "length (cbb_buf s) = cbb_cap s"
    using wf by (simp_all add: cbb_wf_def)
  have start: "size_add (child_offset c) (child_pending_len_len c) = length P + length ph"
    using L bound len by simp
  have chain: "child_chain 0 cs (length P)" "list_all child_ok cs" "child_ok c"
    using wf(1) by (auto simp: cbb_wf_def ch child_chain_append len)
  have A: "(ok \<longrightarrow> closed d s (P @ pre @ C) s' \<and> child_fits (length ph) (child_pending_is_asn1 c) (length C)) \<and>
      (\<not> ok \<longrightarrow> cbb_error s' \<and> \<not> (child_fits (length ph) (child_pending_is_asn1 c) (length C) \<and>
           cbb_room E s (length pre - length ph)))"
  proof (cases "child_pending_is_asn1 c")
    case False
    have st: "cbb_store_be (cbb_buf s) (length P) (length ph) (length C)
        = (mem_write (cbb_buf s) (length P) (be_bytes (length ph) (length C)), length C div 256 ^ length ph)"
      by (rule cbb_store_be_eq) (use L bound in simp)
    have fits: "child_fits (length ph) False (length C) \<longleftrightarrow> length C div 256 ^ length ph = 0"
      by (simp add: child_fits_def div_eq_0_iff)
    have new: "take (cbb_len s) (mem_write (cbb_buf s) (length P) (be_bytes (length ph) (length C)))
        = P @ be_bytes (length ph) (length C) @ C"
      by (rule mem_write_prefix) (use bytes bound in \<open>simp_all add: cbb_bytes_def\<close>)
    from r False L len have r': "cbb_store_length d (length P) (length ph) (length C) s = (ok, s')"
      by (simp add: cbb_close_child_def start)
    show ?thesis
    proof (cases "length C div 256 ^ length ph = 0")
      case True
      then have "ok" "s' = s\<lparr>cbb_buf := mem_write (cbb_buf s) (length P) (be_bytes (length ph) (length C)),
          cbb_children := cs\<rparr>"
        using r' ch by (simp_all add: cbb_store_length_def st)
      with True new fits wf bound L chain show ?thesis
        by (auto simp: closed_def pre_def child_prefix_def False cbb_wf_def cbb_bytes_def ch
            elim: child_chain_mono)
    next
      case nf: False
      then have "\<not> ok" "cbb_error s'"
        using r' by (auto simp: cbb_store_length_def st cbb_on_error_def)
      with fits nf False show ?thesis by simp
    qed
  next
    case True
    then have p1: "length ph = 1" using chain(3) len by (simp add: child_ok_def)
    show ?thesis
    proof (cases "asn1_length_prefix (length C)")
      case None
      with r True L len have "\<not> ok" "cbb_error s'"
        by (auto simp: cbb_close_child_def start cbb_on_error_def)
      with None True show ?thesis by (simp add: asn1_length_prefix_None child_fits_def)
    next
      case (Some mb)
      then obtain m b where m: "asn1_length_prefix (length C) = Some (m, b)" by (cases mb) auto
      note pf = asn1_length_prefix_Some [OF m]
      have fits: "child_fits (length ph) True (length C)" using pf(3) by (simp add: child_fits_def)
      show ?thesis
      proof (cases "m = 1")
        case m1: True
        define B where "B = (cbb_buf s)[length P := b]"
        have "B = mem_write (cbb_buf s) (length P) [b]"
          using L bound p1 by (simp add: B_def mem_write_def upd_conv_take_nth_drop)
        then have new: "take (cbb_len s) B = P @ [b] @ C"
          using mem_write_prefix [of "cbb_len s" "cbb_buf s" P ph C "[b]"] bytes bound p1
          by (simp add: cbb_bytes_def)
        from r True L len m m1 have "ok" "s' = s\<lparr>cbb_buf := B, cbb_children := cs\<rparr>"
          by (auto simp: cbb_close_child_def start cbb_store_length_def B_def ch)
        with new fits wf bound L chain pf(4) m1 True show ?thesis
          by (auto simp: closed_def pre_def child_prefix_def cbb_wf_def cbb_bytes_def ch B_def
            elim: child_chain_mono)
      next
        case mn: False
        have pre: "length pre - length ph = m - 1"
          using pf(1,5) mn p1 by (simp add: pre_def child_prefix_def True)
        show ?thesis
        proof (cases "cbb_buffer_add E (m - 1) s")
          case (Pair a s1)
          show ?thesis
          proof (cases a)
            case None
            with r True L len m mn Pair have "\<not> ok" "cbb_error s'"
              by (auto simp: cbb_close_child_def start cbb_on_error_def)
            moreover have "\<not> cbb_room E s (m - 1)"
              using cbb_buffer_add_room [OF wf(1), of E "m - 1"] Pair None by auto
            ultimately show ?thesis using pre by simp
          next
            case (Some out)
            with Pair have add: "cbb_buffer_add E (m - 1) s = (Some out, s1)" by simp
            have msz: "m - 1 < size_bound" using pf(2) by simp
            note a = cbb_buffer_add_Some [OF wf(1) msz add]
            have B1: "length (cbb_buf s1) = cbb_cap s1" "cbb_len s + (m - 1) \<le> cbb_cap s1" "cbb_cap s1 < size_bound"
              using a(2,3) by (simp_all add: cbb_wf_def)
            have "take (cbb_len s) (cbb_buf s1) = P @ ph @ C" using a(4) bytes by simp
            then have C: "mem_read (cbb_buf s1) (length P + length ph) (length C) = C"
              using L by (metis (no_types) add_diff_cancel_left' append_assoc append_eq_conv_conj
                  drop_take length_append mem_read_def)
            have P: "take (length P) (cbb_buf s1) = P"
              using \<open>take (cbb_len s) (cbb_buf s1) = P @ ph @ C\<close> L
              by (metis append_eq_conv_conj le_add1 min.absorb1 take_take add.assoc)
            obtain k where k: "m = Suc k" "0 < k" using pf(1) mn by (cases m) auto
            define B2 where "B2 = (mem_write (cbb_buf s1) (length P + length ph + k) C)[length P := b]"
            have len2: "length B2 = cbb_cap s1"
              using B1 L p1 k by (simp add: B2_def)
            have st: "cbb_store_be B2 (length P + 1) k (length C)
               = (mem_write B2 (length P + 1) (be_bytes k (length C)), 0)"
              using pf(6) mn k by (subst cbb_store_be_eq) (use len2 L B1 p1 in simp_all)
            have new: "take (length P + 1 + k + length C)
                (mem_write B2 (length P + 1) (be_bytes k (length C)))
               = P @ b # be_bytes k (length C) @ C"
              unfolding B2_def p1 by (subst mem_write_gap) (use B1 L p1 P k in simp_all)
            have nC: "cbb_len s - (length P + length ph) = length C" "\<not> cbb_len s < length P + length ph"
              using L by simp_all
            have "cbb_close_child E d c s
                = cbb_store_length d (length P + 1) k (length C) (s1\<lparr>cbb_buf := B2\<rparr>)"
              using add [unfolded k(1)] k(2) C
              by (simp add: cbb_close_child_def start [folded len] nC True m [unfolded k(1)] B2_def flip: len)
            with r st a(6) ch have "ok"
              "s' = s1\<lparr>cbb_buf := mem_write B2 (length P + 1) (be_bytes k (length C)), cbb_children := cs\<rparr>"
              by (simp_all add: cbb_store_length_def)
            moreover have "cbb_len s1 = length P + 1 + k + length C"
              using a(3) L p1 k by simp
            moreover have "pre = b # be_bytes k (length C)"
              using pf(5) mn k by (simp add: pre_def child_prefix_def True)
            moreover have "child_chain 0 cs (length P + 1 + k + length C)"
              using chain(1) by (rule child_chain_mono) simp
            ultimately show ?thesis
              using new fits a chain True B1 len2 L wf(2) p1 k
              by (simp add: closed_def cbb_wf_def cbb_bytes_def ch add_ac)
          qed
        qed
      qed
    qed
  qed
  show "ok \<Longrightarrow> closed d s (P @ pre @ C) s' \<and> child_fits (length ph) (child_pending_is_asn1 c) (length C)"
    using A by blast
  show "\<not> ok \<Longrightarrow> cbb_error s' \<and> \<not> (child_fits (length ph) (child_pending_is_asn1 c) (length C) \<and>
           cbb_room E s (length pre - length ph))"
    using A by blast
qed

lemma closed_length: "closed d s bs s' \<Longrightarrow> cbb_len s' = length bs"
  unfolding closed_def using length_cbb_bytes by metis

text \<open>A child is opened, filled and flushed by its parent.\<close>

lemma length_der_length_pos: "0 < length (der_length n)"
  by (simp add: der_length_def)

lemma child_prefix_length: "(a \<longrightarrow> n = 1) \<Longrightarrow> n \<le> length (child_prefix n a k)"
  using length_der_length_pos [of k] by (auto simp: child_prefix_def Suc_le_eq)

lemma writes_child:
  assumes op: "opens E d p hdr n a" and q: "writes E (Suc d) q C"
    and fits: "child_fits n a (length C)" and n: "n \<le> 8" "a \<longrightarrow> n = 1"
  shows "writes E d (cbb_and p (cbb_and q (CBB_flush E d))) (hdr @ child_prefix n a (length C) @ C)"
proof (rule writesI)
  let ?pre = "child_prefix n a (length C)"
  fix s s' ok
  assume s: "cbb_wf s" "\<not> cbb_error s" "length (cbb_children s) = d"
  define c where "c = \<lparr>child_offset = cbb_len s + length hdr, child_pending_len_len = n,
      child_pending_is_asn1 = a\<rparr>"
  have opened: "if ok1 then cbb_wf s1 \<and> \<not> cbb_error s1 \<and> cbb_bytes s1 = cbb_bytes s @ hdr @ replicate n 0 \<and>
        cbb_children s1 = cbb_children s @ [c] \<and> cbb_can_resize s1 = cbb_can_resize s \<and> cap_grows s s1
      else cbb_error s1 \<and> \<not> cbb_room E s (length hdr + n)" if "p s = (ok1, s1)" for ok1 s1
    using op [unfolded opens_def, rule_format, of s ok1 s1] s that by (simp add: c_def)
  have full: "closed d s2 (cbb_bytes s @ hdr @ ?pre @ C) s3 \<and> ok3
      \<or> \<not> ok3 \<and> cbb_error s3 \<and> \<not> cbb_room E s2 (length ?pre - n)"
    if s1: "p s = (True, s1)" and s2: "q s1 = (True, s2)" and s3: "CBB_flush E d s2 = (ok3, s3)" for s1 s2 s3 ok3
  proof -
    from opened [OF s1] have o: "cbb_wf s1" "\<not> cbb_error s1" "cbb_children s1 = cbb_children s @ [c]"
      "cbb_bytes s1 = cbb_bytes s @ hdr @ replicate n 0" by simp_all
    have l1: "length (cbb_children s1) = Suc d" using o(3) s(3) by simp
    note w = writes_True [OF q o(1,2) l1 s2]
    have ch: "cbb_children s2 = cbb_children s @ [c]" using w(3) o(3) by simp
    have b: "cbb_bytes s2 = (cbb_bytes s @ hdr) @ replicate n 0 @ C" using w(4) o(4) by simp
    have "CBB_flush E (Suc d) s2 = (True, s2)"
      using w(2) ch s(3) by (simp add: CBB_flush_leaf)
    then have "cbb_close_child E d c s2 = (ok3, s3)"
      using s3 w(2) ch s(3) by (subst (asm) CBB_flush.simps) (simp add: nth_append)
    moreover have "length (cbb_bytes s @ hdr) = child_offset c" "length (replicate n (0 :: u8)) = child_pending_len_len c"
      using length_cbb_bytes [OF s(1)] by (simp_all add: c_def)
    ultimately show ?thesis
      using cbb_close_child_spec [OF w(1,2) ch s(3) b, of E ok3 s3] fits by (auto simp: c_def)
  qed
  have roomy: "cbb_room E s2 (length ?pre - n)"
    if s1: "p s = (True, s1)" and s2: "q s1 = (True, s2)" and room: "cbb_room E s (length (hdr @ ?pre @ C))" for s1 s2
  proof -
    from opened [OF s1] have o: "cbb_wf s1" "\<not> cbb_error s1" "cbb_children s1 = cbb_children s @ [c]"
      "cbb_bytes s1 = cbb_bytes s @ hdr @ replicate n 0" "cbb_can_resize s1 = cbb_can_resize s"
      "cap_grows s s1" by simp_all
    have l1: "length (cbb_children s1) = Suc d" using o(3) s(3) by simp
    note w = writes_True [OF q o(1,2) l1 s2]
    have len: "length (hdr @ ?pre @ C) = (length hdr + n + length C) + (length ?pre - n)"
      using child_prefix_length [OF n(2), of "length C"] by simp
    show ?thesis
      by (rule cbb_room_append [OF room [unfolded len] s(1) w(1)]) (use w o in auto)
  qed
  have roomy1: "cbb_room E s1 (length C)"
    if s1: "p s = (True, s1)" and room: "cbb_room E s (length (hdr @ ?pre @ C))" for s1
  proof -
    from opened [OF s1] have o: "cbb_wf s1" "cbb_bytes s1 = cbb_bytes s @ hdr @ replicate n 0"
      "cbb_can_resize s1 = cbb_can_resize s" "cap_grows s s1" by simp_all
    have "cbb_room E s ((length hdr + n) + length C)"
      using room child_prefix_length [OF n(2), of "length C"] by (auto elim: cbb_room_mono)
    then show ?thesis
      by (rule cbb_room_append [OF _ s(1) o(1)]) (use o in auto)
  qed
  have room0: "cbb_room E s (length hdr + n)" if "cbb_room E s (length (hdr @ ?pre @ C))"
    using that child_prefix_length [OF n(2), of "length C"] by (auto elim: cbb_room_mono)
  {
    assume ok: "cbb_and p (cbb_and q (CBB_flush E d)) s = (True, s')"
    then obtain s1 s2 where s1: "p s = (True, s1)" and s2: "q s1 = (True, s2)"
      and s3: "CBB_flush E d s2 = (True, s')"
      by (auto simp: cbb_and_def split: prod.splits if_splits)
    from opened [OF s1] have o: "cbb_wf s1" "\<not> cbb_error s1" "cbb_children s1 = cbb_children s @ [c]"
      "cbb_can_resize s1 = cbb_can_resize s" "cap_grows s s1" by simp_all
    have l1: "length (cbb_children s1) = Suc d" using o(3) s(3) by simp
    note w = writes_True [OF q o(1,2) l1 s2]
    from full [OF s1 s2 s3] show "cbb_wf s' \<and> \<not> cbb_error s' \<and> cbb_children s' = cbb_children s \<and>
        cbb_bytes s' = cbb_bytes s @ (hdr @ ?pre @ C) \<and> cbb_can_resize s' = cbb_can_resize s \<and>
        cap_grows s s'"
      using w o s(3) by (auto simp: closed_def)
  }
  {
    assume err: "cbb_and p (cbb_and q (CBB_flush E d)) s = (False, s')"
    obtain ok1 s1 where s1: "p s = (ok1, s1)" by (cases "p s")
    show "cbb_error s' \<and> \<not> cbb_room E s (length (hdr @ ?pre @ C))"
    proof (cases ok1)
      case False
      with err s1 opened [OF s1] room0 show ?thesis by (auto simp: cbb_and_def)
    next
      case t1: True
      with s1 have s1: "p s = (True, s1)" by simp
      from opened [OF s1] have o: "cbb_wf s1" "\<not> cbb_error s1" "cbb_children s1 = cbb_children s @ [c]"
        by simp_all
      have l1: "length (cbb_children s1) = Suc d" using o(3) s(3) by simp
      obtain ok2 s2 where s2: "q s1 = (ok2, s2)" by (cases "q s1")
      show ?thesis
      proof (cases ok2)
        case False
        with s2 have "q s1 = (False, s2)" by simp
        from writes_False [OF q o(1,2) l1 this] err s1 s2 False roomy1 [OF s1] show ?thesis
          by (auto simp: cbb_and_def)
      next
        case True
        with s2 have s2: "q s1 = (True, s2)" by simp
        with err s1 have s3: "CBB_flush E d s2 = (False, s')" by (simp add: cbb_and_def)
        from full [OF s1 s2 s3] roomy [OF s1 s2] show ?thesis by blast
      qed
    qed
  }
qed

text \<open>The length-prefixed strings and the elements.\<close>

lemma writes_flush: "writes E d (CBB_flush E d) []"
  by (rule writesI) (simp_all add: CBB_flush_leaf)

lemma writes_length_prefixed:
  assumes "n \<le> 8" "length C < 256 ^ n" "writes E (Suc d) q C"
  shows "writes E d (cbb_and (cbb_add_length_prefixed E d n) (cbb_and q (CBB_flush E d)))
           (be_bytes n (length C) @ C)"
proof -
  have "opens E d (cbb_add_length_prefixed E d n) ([] @ []) n False"
    unfolding cbb_add_length_prefixed_def
    by (rule opens_and [OF writes_flush opens_cbb_add_child]) (use assms in simp_all)
  from writes_child [OF this assms(3)] show ?thesis
    using assms by (simp add: child_fits_def child_prefix_def)
qed

section \<open>Flushing any number of children\<close>

text \<open>What a flush of a handle makes of the contents, the open children given outermost first.\<close>

fun close_frames :: "cbb_child list \<Rightarrow> bytes \<Rightarrow> bytes" where
  "close_frames [] data = data"
| "close_frames (c # cs) data
     = (let data' = close_frames cs data;
            C = drop (child_offset c + child_pending_len_len c) data' in
        take (child_offset c) data' @
          child_prefix (child_pending_len_len c) (child_pending_is_asn1 c) (length C) @ C)"

lemma split_three:
  "a + b \<le> length xs \<Longrightarrow> \<exists>P ph C. xs = P @ ph @ C \<and> length P = a \<and> length ph = b"
proof -
  assume "a + b \<le> length xs"
  moreover have "xs = take a xs @ take b (drop a xs) @ drop b (drop a xs)"
    by (simp only: append_take_drop_id)
  ultimately show ?thesis
    by (metis (no_types, lifting) add_leD1 le_diff_conv2 length_drop length_take min.absorb2 add.commute)
qed

lemma CBB_flush_spec:
  "cbb_wf s \<Longrightarrow> CBB_flush E d s = (True, s') \<Longrightarrow>
   closed d s (close_frames (drop d (cbb_children s)) (cbb_bytes s)) s'"
proof (induction E d s arbitrary: s' rule: CBB_flush.induct)
  case (1 E d s)
  from "1.prems"(2) have ne: "\<not> (length (cbb_children s) < d \<or> cbb_error s)"
    by (auto simp: CBB_flush.simps [of E d s] split: if_splits)
  show ?case
  proof (cases "length (cbb_children s) = d")
    case True
    with "1.prems" ne show ?thesis by (simp add: closed_def CBB_flush.simps)
  next
    case False
    with ne have d: "d < length (cbb_children s)" by simp
    let ?c = "cbb_children s ! d"
    from "1.prems"(2) ne False obtain s1 where s1: "CBB_flush E (Suc d) s = (True, s1)"
      and s': "cbb_close_child E d ?c s1 = (True, s')"
      by (auto simp: CBB_flush.simps [of E d s] split: prod.splits bool.splits)
    let ?data = "close_frames (drop (Suc d) (cbb_children s)) (cbb_bytes s)"
    from "1.IH" [OF ne False "1.prems"(1) s1] have c1: "closed (Suc d) s ?data s1" .
    then have ch: "cbb_children s1 = take d (cbb_children s) @ [?c]" and wf1: "cbb_wf s1" "\<not> cbb_error s1"
      and b1: "cbb_bytes s1 = ?data"
      using d by (simp_all add: closed_def take_Suc_conv_app_nth)
    have "child_offset ?c + child_pending_len_len ?c \<le> length ?data"
      using wf1(1) length_cbb_bytes [OF wf1(1)] b1 by (simp add: cbb_wf_def ch child_chain_append)
    then obtain P ph C where data: "?data = P @ ph @ C" "length P = child_offset ?c"
      "length ph = child_pending_len_len ?c"
      using split_three by blast
    have ld: "length (take d (cbb_children s)) = d" using d by simp
    have "closed d s1 (P @ child_prefix (length ph) (child_pending_is_asn1 ?c) (length C) @ C) s'"
      using cbb_close_child_spec(1) [OF wf1 ch ld b1 [unfolded data(1)] data(2,3) s'] by simp
    moreover have "drop d (cbb_children s) = ?c # drop (Suc d) (cbb_children s)"
      using d by (simp add: Cons_nth_drop_Suc)
    ultimately show ?thesis
      using c1 d data by (auto simp: closed_def Let_def min_def)
  qed
qed

end
