(* ===== verification/Cbb_Asn1.thy ===== *)
theory Cbb_Asn1
  imports Cbb_Spec Asn1_Values
begin

text \<open>
  The ASN.1 writers of \<^verbatim>\<open>cbb.c\<close> against the DER encodings of the theories \<open>Der\<close> and \<open>Asn1_Values\<close>:
  tags in base 128, elements around any contents, INTEGER, OCTET STRING and BOOLEAN.
\<close>

section \<open>Base 128\<close>

lemma base128_byte_eq:
  "base128_byte v i = word_of_nat (unat v div 128 ^ i mod 128 + (if i = 0 then 0 else 128))"
proof -
  define b where "b = (ucast (drop_bit (7 * i) v AND 0x7f) :: u8)"
  have "unat (drop_bit (7 * i) v AND 0x7f) = unat v div 128 ^ i mod 128"
    using unat_and_mask [of "drop_bit (7 * i) v" 7]
    by (simp add: mask_eq_exp_minus_1 unat_drop_bit power_mult)
  moreover have "unat v div 128 ^ i mod 128 < 128" by simp
  ultimately have b: "unat b = unat v div 128 ^ i mod 128"
    unfolding b_def by (simp add: unat_ucast_mod)
  have "b OR 0x80 = b + 0x80"
    using shift_or_plus [of b 7 1] b by (simp add: or.commute add.commute)
  then have "unat (b OR 0x80) = unat v div 128 ^ i mod 128 + 128"
    using b by (simp add: unat_word_ariths)
  then have "b OR 0x80 = word_of_nat (unat v div 128 ^ i mod 128 + 128)"
    by (metis of_nat_unat ucast_id)
  moreover have "b = word_of_nat (unat v div 128 ^ i mod 128)"
    using b by (metis of_nat_unat ucast_id)
  ultimately show ?thesis by (simp add: base128_byte_def Let_def flip: b_def)
qed

lemma base128_high_digits:
  "base128_high (unat v)
     = map (\<lambda>i. word_of_nat (unat v div 128 ^ i mod 128 + 128)) (rev [0..<base128_len v])"
proof (induction v rule: base128_len.induct)
  case (1 v)
  show ?case
  proof (cases "v > 0")
    case False
    then have "v = 0" by (simp add: word_gt_0)
    then show ?thesis by (simp add: base128_len.simps)
  next
    case True
    let ?w = "drop_bit 7 v"
    have w: "unat ?w = unat v div 128" by (simp add: unat_drop_bit)
    have len: "rev [0..<base128_len v] = map Suc (rev [0..<base128_len ?w]) @ [0]"
      using True by (simp add: base128_len.simps [of v] map_Suc_upt rev_map [symmetric] upt_conv_Cons del: upt_Suc)
    have "0 < unat v" using True by (simp add: unat_gt_0 word_neq_0_conv)
    then have "base128_high (unat v) = base128_high (unat ?w) @ [word_of_nat (unat v mod 128 + 128)]"
      using base128_high_pos [of "unat v"] by (simp add: w)
    also have "base128_high (unat ?w) = map (\<lambda>i. word_of_nat (unat ?w div 128 ^ i mod 128 + 128)) (rev [0..<base128_len ?w])"
      using 1 True by blast
    also have "\<dots> = map (\<lambda>i. word_of_nat (unat v div 128 ^ i mod 128 + 128)) (map Suc (rev [0..<base128_len ?w]))"
      by (simp add: w div_mult2_eq)
    finally show ?thesis by (simp add: len)
  qed
qed

lemma base128_digits:
  "map (base128_byte v) (rev [0..<(if base128_len v = 0 then 1 else base128_len v)]) = base128 (unat v)"
proof (cases "v > 0")
  case False
  then have "v = 0" by (simp add: word_gt_0)
  then show ?thesis by (simp add: base128_len.simps base128_byte_eq base128_def)
next
  case True
  let ?w = "drop_bit 7 v"
  have w: "unat ?w = unat v div 128" by (simp add: unat_drop_bit)
  have len: "rev [0..<base128_len v] = map Suc (rev [0..<base128_len ?w]) @ [0]" "base128_len v \<noteq> 0"
    using True by (simp_all add: base128_len.simps [of v] map_Suc_upt rev_map [symmetric] upt_conv_Cons del: upt_Suc)
  have "map (base128_byte v) (map Suc (rev [0..<base128_len ?w])) = base128_high (unat ?w)"
    unfolding base128_high_digits by (simp add: base128_byte_eq w div_mult2_eq)
  then have "map (base128_byte v) (map Suc (rev [0..<base128_len ?w]) @ [0])
      = base128_high (unat v div 128) @ [base128_byte v 0]"
    unfolding w by simp
  then show ?thesis
    unfolding if_not_P [OF len(2)] len(1) by (simp only: base128_def base128_byte_eq) simp
qed

lemma writes_base128_loop:
  "writes E d (add_base128_loop E d v n) (map (base128_byte v) (rev [0..<n]))"
proof (induction n)
  case 0
  then show ?case by (simp add: writes_true)
next
  case (Suc n)
  from writes_and [OF writes_CBB_add_u(1) [of E d "base128_byte v n"] Suc] show ?case by simp
qed

lemma writes_add_base128_integer [writes_intro]:
  "writes E d (add_base128_integer E d v) (base128 (unat v))"
  using writes_base128_loop [of E d v "if base128_len v = 0 then 1 else base128_len v"]
  unfolding add_base128_integer_def Let_def base128_digits .

section \<open>Elements\<close>

lemma tag_leading_byte:
  defines "tb \<equiv> \<lambda>tag :: CBS_ASN1_TAG. ucast (drop_bit CBS_ASN1_TAG_SHIFT tag) AND 0xe0 :: u8"
  assumes "unat (x :: u8) < 32"
  shows "tb tag OR x = word_of_nat (tag_bits tag + unat x)"
proof -
  have tb: "tb tag = push_bit 5 (ucast (drop_bit 29 tag))"
  proof (rule bit_word_eqI)
    fix n assume "n < LENGTH(8)"
    then consider "n < 5" | "n = 5" | "n = 6" | "n = 7" by fastforce
    moreover have "\<not> bit (0xe0 :: u8) n" if "n < 5"
    proof -
      have e: "(0xe0 :: u8) = push_bit 5 7" by simp
      show ?thesis unfolding e bit_push_bit_iff using that by simp
    qed
    ultimately show "bit (tb tag) n \<longleftrightarrow> bit (push_bit 5 (ucast (drop_bit 29 tag)) :: u8) n"
      unfolding tb_def CBS_ASN1_TAG_SHIFT_def by cases (auto simp: bit_simps)
  qed
  have "unat tag div 2 ^ 29 < 8"
    using unsigned_less [of tag, where 'a = nat] by (simp add: less_mult_imp_div_less)
  then have "unat (tb tag) = tag_bits tag"
    by (simp add: tb unat_push_bit unat_ucast_mod unat_drop_bit tag_bits_def)
  moreover have "tb tag OR x = tb tag + x"
    unfolding tb by (rule shift_or_plus) (use assms in simp)
  ultimately show ?thesis by (metis of_nat_add of_nat_unat ucast_id)
qed

lemma unat_tag_number: "unat (tag AND CBS_ASN1_TAG_NUMBER_MASK) = tag_number tag"
  using unat_and_mask [of tag 29] by (simp add: mask_eq_exp_minus_1 tag_number_def)

lemma writes_tag:
  "writes E d
     (let tag_bits = ucast (drop_bit CBS_ASN1_TAG_SHIFT tag) AND 0xe0 :: u8;
          tag_number = tag AND CBS_ASN1_TAG_NUMBER_MASK in
      if tag_number \<ge> 0x1f
      then cbb_and (CBB_add_u8 E d (tag_bits OR 0x1f)) (add_base128_integer E d (ucast tag_number))
      else CBB_add_u8 E d (tag_bits OR ucast tag_number))
     (der_tag tag)"
proof -
  let ?n = "tag AND CBS_ASN1_TAG_NUMBER_MASK"
  have ge: "?n \<ge> 0x1f \<longleftrightarrow> \<not> tag_number tag < 31"
    by (simp add: word_le_nat_alt unat_tag_number not_less del: CBS_ASN1_constants)
  have u: "unat (ucast ?n :: u64) = tag_number tag"
    by (simp add: unat_ucast_up unat_tag_number del: CBS_ASN1_constants)
  show ?thesis
  proof (cases "tag_number tag < 31")
    case True
    have n: "unat (ucast ?n :: u8) = tag_number tag"
      using True by (simp add: unat_ucast_mod unat_tag_number del: CBS_ASN1_constants)
    with tag_leading_byte [of "ucast ?n" tag] True
    have "der_tag tag = [ucast (drop_bit CBS_ASN1_TAG_SHIFT tag) AND 0xe0 OR ucast ?n]"
      by (simp add: der_tag_def del: CBS_ASN1_constants)
    with True ge show ?thesis
      using writes_CBB_add_u(1) [of E d] by (simp add: Let_def del: CBS_ASN1_constants)
  next
    case False
    have "der_tag tag = [ucast (drop_bit CBS_ASN1_TAG_SHIFT tag) AND 0xe0 OR 0x1f] @ base128 (unat (ucast ?n :: u64))"
      using False tag_leading_byte [of "0x1f" tag] unfolding u by (simp add: der_tag_def)
    moreover note writes_and [OF writes_CBB_add_u(1) writes_add_base128_integer]
    ultimately show ?thesis
      using False ge by (simp only: Let_def if_True not_False_eq_True)
  qed
qed

lemma cbb_and_assoc: "cbb_and (cbb_and p q) r = cbb_and p (cbb_and q r)"
  by (auto simp: cbb_and_def split: prod.split)

lemma opens_CBB_add_asn1: "opens E d (CBB_add_asn1 E d tag) (der_tag tag) 1 True"
proof -
  have "opens E d (cbb_and (CBB_flush E d) (cbb_and
     (let tag_bits = ucast (drop_bit CBS_ASN1_TAG_SHIFT tag) AND 0xe0 :: u8;
          tag_number = tag AND CBS_ASN1_TAG_NUMBER_MASK in
      if tag_number \<ge> 0x1f
      then cbb_and (CBB_add_u8 E d (tag_bits OR 0x1f)) (add_base128_integer E d (ucast tag_number))
      else CBB_add_u8 E d (tag_bits OR ucast tag_number)) (cbb_add_child E d 1 True))) ([] @ der_tag tag @ []) 1 True"
    by (intro opens_and writes_flush writes_tag opens_cbb_add_child) simp_all
  then show ?thesis by (simp add: CBB_add_asn1_def Let_def)
qed

lemma writes_element:
  assumes "length C \<le> 0xfffffffe" "writes E (Suc d) q C"
  shows "writes E d (cbb_and (CBB_add_asn1 E d tag) (cbb_and q (CBB_flush E d))) (der_element tag C)"
  using writes_child [OF opens_CBB_add_asn1 assms(2)] assms(1)
  by (simp add: child_fits_def child_prefix_def der_element_def der_header_def)

text \<open>The error label does not change what a call promises.\<close>

lemma writes_cong_err:
  assumes p: "writes E d p bs"
    and eq: "\<And>s. q s = p s \<or> (\<exists>t t'. p s = (False, t) \<and> q s = (False, t') \<and> cbb_error t')"
  shows "writes E d q bs"
proof (rule writesI)
  fix s s' assume s: "cbb_wf s" "\<not> cbb_error s" "length (cbb_children s) = d"
  {
    assume "q s = (True, s')"
    with eq [of s] have "p s = (True, s')" by auto
    from writes_True [OF p s this]
    show "cbb_wf s' \<and> \<not> cbb_error s' \<and> cbb_children s' = cbb_children s \<and>
      cbb_bytes s' = cbb_bytes s @ bs \<and> cbb_can_resize s' = cbb_can_resize s \<and> cap_grows s s'"
      by simp
  next
    assume q: "q s = (False, s')"
    from eq [of s] have "\<exists>t. p s = (False, t) \<and> (s' = t \<or> cbb_error s')"
      unfolding q by (metis prod.inject)
    then obtain t where t: "p s = (False, t)" "s' = t \<or> cbb_error s'" by blast
    from writes_False [OF p s t(1)] t(2) show "cbb_error s' \<and> \<not> cbb_room E s (length bs)" by auto
  }
qed

lemma writes_err [writes_intro]: "writes E d p bs \<Longrightarrow> writes E d (cbb_err d' p) bs"
  by (erule writes_cong_err) (auto simp: cbb_err_def cbb_on_error_def split: prod.split bool.split)

lemma writes_err_flush:
  "writes E d (cbb_and p (CBB_flush E d)) bs \<Longrightarrow> writes E d (cbb_and (cbb_err d p) (CBB_flush E d)) bs"
  by (erule writes_cong_err)
    (auto simp: cbb_and_def cbb_err_def cbb_on_error_def split: prod.split bool.split)

section \<open>INTEGER, OCTET STRING, BOOLEAN\<close>

text \<open>What the loop over the eight bytes writes.\<close>

fun uint_content :: "bool \<Rightarrow> bytes \<Rightarrow> bytes" where
  "uint_content started [] = (if started then [] else [0])"
| "uint_content started (b # bs)
     = (if \<not> started \<and> b = 0 then uint_content started bs
        else (if \<not> started \<and> b AND 0x80 \<noteq> 0 then [0] else []) @ b # uint_content True bs)"

lemma writes_asn1_uint64_bytes:
  "writes E d (asn1_uint64_bytes E d started bs) (uint_content started bs)"
proof (induction bs arbitrary: started)
  case Nil
  show ?case using writes_true [of E d] writes_CBB_add_u(1) [of E d 0] by simp
next
  case (Cons b bs)
  have pad: "writes E d (if c then CBB_add_u8 E d 0 else cbb_true) (if c then [0] else [])" for c
    using writes_true [of E d] writes_CBB_add_u(1) [of E d 0] by simp
  have w: "writes E d (cbb_and (if \<not> started \<and> b AND 0x80 \<noteq> 0 then CBB_add_u8 E d 0 else cbb_true)
      (cbb_and (CBB_add_u8 E d b) (asn1_uint64_bytes E d True bs)))
     ((if \<not> started \<and> b AND 0x80 \<noteq> 0 then [0] else []) @ [b] @ uint_content True bs)"
    by (intro writes_and pad writes_CBB_add_u Cons)
  show ?case
  proof (cases "\<not> started \<and> b = 0")
    case False
    with w show ?thesis
      by (simp only: asn1_uint64_bytes.simps uint_content.simps if_False append.simps)
  qed (use Cons in simp)
qed

lemma uint_content_started: "uint_content True bs = bs"
  by (induction bs) simp_all

lemma uint_content_spec:
  "minimal_int (uint_content False bs)" "tc_value (uint_content False bs) = int (be_val bs)"
proof -
  have "minimal_int (uint_content False bs) \<and> tc_value (uint_content False bs) = int (be_val bs)"
  proof (induction bs)
    case Nil
    show ?case by (simp add: tc_value_def be_val_Cons)
  next
    case (Cons b bs)
    show ?case
    proof (cases "b = 0")
      case True
      with Cons show ?thesis by (simp add: be_val_Cons)
    next
      case False
      then have b: "unat b \<noteq> 0" by (simp add: unat_eq_0)
      show ?thesis
      proof (cases "unat b < 128")
        case True
        then have "minimal_int (b # bs)" using b by (cases bs) auto
        with True False show ?thesis
          by (simp add: uint_content_started byte_bit7_zero tc_value_def)
      next
        case n: False
        then have "minimal_int (0 # b # bs)" by simp
        with n False show ?thesis
          by (simp add: uint_content_started byte_bit7_zero tc_value_def be_val_Cons)
      qed
    qed
  qed
  then show "minimal_int (uint_content False bs)" "tc_value (uint_content False bs) = int (be_val bs)"
    by simp_all
qed

lemma le_bytes_digits: "le_bytes n v = map (\<lambda>i. word_of_nat (v div 256 ^ i mod 256)) [0..<n]"
proof (induction n arbitrary: v)
  case (Suc n)
  have "[0..<Suc n] = 0 # map Suc [0..<n]"
    by (simp add: map_Suc_upt upt_conv_Cons del: upt_Suc)
  with Suc [of "v div 256"] show ?case by (simp add: div_mult2_eq del: upt_Suc)
qed simp

lemma rev_map_upt: "rev (map f [0..<n]) = map (\<lambda>i. f (n - 1 - i)) [0..<n]"
  by (rule nth_equalityI) (simp_all add: rev_nth)

lemma uint64_bytes:
  "map (\<lambda>i. ucast (drop_bit (8 * (7 - i)) v64 AND 0xff)) [0..<8] = be_bytes 8 (unat (v64 :: u64))"
proof -
  have b: "ucast (drop_bit k v64 AND 0xff) = (word_of_nat (unat v64 div 2 ^ k mod 256) :: u8)" for k
    using unat_and_mask [of "drop_bit k v64" 8]
    by (simp add: word_unat_eq_iff unat_ucast_mod mask_eq_exp_minus_1 unat_drop_bit unat_of_nat)
  have "be_bytes 8 (unat v64) = rev (map (\<lambda>i. word_of_nat (unat v64 div 256 ^ i mod 256)) [0..<8])"
    by (simp add: be_bytes_def le_bytes_digits)
  also have "\<dots> = map (\<lambda>i. word_of_nat (unat v64 div 2 ^ (8 * (7 - i)) mod 256)) [0..<8]"
    by (simp add: rev_map_upt power_mult)
  finally show ?thesis by (simp only: b)
qed

lemma writes_CBB_add_asn1_uint64_with_tag:
  "writes E d (CBB_add_asn1_uint64_with_tag E d v64 tag) (der_element tag (int_content (uint v64)))"
proof -
  let ?bs = "be_bytes 8 (unat v64)"
  have "be_val ?bs = unat v64"
    using unsigned_less [of v64, where 'a = nat] by (simp add: byte_order)
  then have "tc_value (uint_content False ?bs) = uint v64"
    using uint_content_spec(2) [of ?bs] by simp
  then have "uint_content False ?bs = int_content (uint v64)"
    using int_content_tc_value [OF uint_content_spec(1), of ?bs] by simp
  then have w: "writes E (Suc d) (asn1_uint64_bytes E (Suc d) False ?bs) (int_content (uint v64))"
    using writes_asn1_uint64_bytes [of E "Suc d" False ?bs] by simp
  have "length (int_content (uint v64)) \<le> 0xfffffffe"
    using length_int_content_64(1) [of v64] by simp
  from writes_element [OF this w] show ?thesis
    unfolding CBB_add_asn1_uint64_with_tag_def uint64_bytes
    by (intro writes_err_flush) (simp add: cbb_and_assoc)
qed


text \<open>The bytes of a negative number, without the leading sign bytes that are not needed.\<close>

fun strip_sign :: "bytes \<Rightarrow> bytes" where
  "strip_sign (a # b # bs) = (if a = 0xff \<and> b AND 0x80 \<noteq> 0 then strip_sign (b # bs) else a # b # bs)"
| "strip_sign bs = bs"

lemma asn1_int64_start_strip:
  "k < length bs \<Longrightarrow> map ((!) bs) (rev [0..<Suc (asn1_int64_start bs k)]) = strip_sign (map ((!) bs) (rev [0..<Suc k]))"
proof (induction bs k rule: asn1_int64_start.induct)
  case (2 bs start)
  show ?case
  proof (cases "bs ! Suc start = 0xff \<and> bs ! start AND 0x80 \<noteq> 0")
    case True
    then have "asn1_int64_start bs (Suc start) = asn1_int64_start bs start" by simp
    with 2(1) [OF True] 2(2) True show ?thesis by simp
  qed auto
qed simp

lemma strip_sign_spec:
  assumes "bs \<noteq> []" "128 \<le> unat (hd bs)"
  shows "minimal_int (strip_sign bs) \<and> tc_value (strip_sign bs) = tc_value bs"
  using assms
proof (induction bs rule: strip_sign.induct)
  case (1 a b bs)
  show ?case
  proof (cases "a = 0xff \<and> b AND 0x80 \<noteq> 0")
    case True
    then have b: "128 \<le> unat b" by (simp add: byte_bit7)
    have "unat a = 255" using True by simp
    then have "tc_value (a # b # bs) = tc_value (b # bs)"
      using b by (simp add: tc_value_def be_val_Cons)
    with 1(1) [OF True] b True show ?thesis by simp
  next
    case False
    moreover have "a = 0xff \<longleftrightarrow> unat a = 255" by (simp add: word_unat_eq_iff)
    ultimately have "\<not> (unat a = 255 \<and> 128 \<le> unat b)"
      using byte_bit7 [of b] by blast
    with False 1(3) show ?thesis by auto
  qed
qed auto

lemma writes_cbb_add_u8s: "writes E d (cbb_add_u8s E d bs) bs"
proof (induction bs)
  case (Cons b bs)
  from writes_and [OF writes_CBB_add_u(1) Cons] show ?case by simp
qed (simp add: writes_true)

lemma rev_upt_le_bytes: "map ((!) (le_bytes n v)) (rev [0..<n]) = be_bytes n v"
  by (simp add: be_bytes_def rev_map [symmetric] del: rev_map)
    (metis length_le_bytes map_nth rev_map)

lemma tc_value_be8: "tc_value (be_bytes 8 (unat v64)) = sint (v64 :: u64)"
proof -
  define be where "be = be_bytes 8 (unat v64)"
  have len: "length be = 8" by (simp add: be_def)
  then have ne: "be \<noteq> []" by auto
  have "be_val be = unat v64"
    using unsigned_less [of v64, where 'a = nat] by (simp add: be_def byte_order)
  then have "tc_value be mod 2 ^ 64 = uint v64 mod 2 ^ 64"
    by (simp add: tc_value_def len)
  moreover have "LENGTH(64) = 64" by simp
  ultimately have "(word_of_int (tc_value be) :: u64) = word_of_int (uint v64)"
    by (simp only: word_of_int_eq_iff take_bit_eq_mod)
  then have "word_of_int (tc_value be) = v64" by simp
  moreover have "sint (word_of_int (tc_value be) :: u64) = signed_take_bit 63 (tc_value be)"
    by (simp add: sint_sbintrunc')
  ultimately have "sint v64 = signed_take_bit 63 (tc_value be)" by simp
  also have "\<dots> = tc_value be"
    using tc_value_range [OF ne] len by (intro signed_take_bit_int_eq_self) simp_all
  finally show ?thesis by (simp add: be_def)
qed

lemma sint_nonneg: "0 \<le> sint (v64 :: u64) \<Longrightarrow> uint v64 = sint v64"
proof -
  assume nn: "0 \<le> sint v64"
  have ne: "be_bytes 8 (unat v64) \<noteq> []" by (simp flip: length_0_conv)
  have "be_val (be_bytes 8 (unat v64)) = unat v64"
    using unsigned_less [of v64, where 'a = nat] by (simp add: byte_order)
  then show ?thesis
    using nn tc_value_be8 [of v64] tc_value_neg [OF ne] by (simp add: tc_value_def)
qed

lemma writes_CBB_add_asn1_int64_with_tag:
  "writes E d (CBB_add_asn1_int64_with_tag E d v64 tag) (der_element tag (int_content (sint v64)))"
proof (cases "sint v64 \<ge> 0")
  case True
  then have "uint v64 = sint v64" by (rule sint_nonneg)
  with True show ?thesis
    using writes_CBB_add_asn1_uint64_with_tag [of E d v64 tag]
    by (simp add: CBB_add_asn1_int64_with_tag_def)
next
  case False
  define be where "be = be_bytes 8 (unat v64)"
  let ?le = "CRYPTO_store_u64_le v64"
  have le: "?le = le_bytes 8 (unat v64)" by (simp add: CRYPTO_store_u64_le_def)
  have ne: "be \<noteq> []" unfolding be_def by (simp flip: length_0_conv)
  have tc: "tc_value be = sint v64" unfolding be_def by (rule tc_value_be8)
  have neg: "128 \<le> unat (hd be)" using tc_value_neg [OF ne] tc False by linarith
  have "map ((!) ?le) (rev [0..<Suc (asn1_int64_start ?le 7)]) = strip_sign be"
  proof -
    have len: "7 < length ?le" by (simp add: le)
    have "Suc 7 = 8" by simp
    then show ?thesis
      unfolding be_def asn1_int64_start_strip [OF len] unfolding le
      by (simp only: rev_upt_le_bytes)
  qed
  moreover have "strip_sign be = int_content (sint v64)"
    using strip_sign_spec [OF ne neg] int_content_tc_value [of "strip_sign be"] tc by simp
  ultimately have w: "writes E (Suc d)
      (cbb_add_u8s E (Suc d) (map ((!) ?le) (rev [0..<Suc (asn1_int64_start ?le 7)]))) (int_content (sint v64))"
    using writes_cbb_add_u8s by simp
  have "length (int_content (sint v64)) \<le> 0xfffffffe"
    using length_int_content_64(2) [of v64] by simp
  from writes_element [OF this w] have "writes E d
      (cbb_and (cbb_err d (cbb_and (CBB_add_asn1 E d tag)
         (cbb_add_u8s E (Suc d) (map ((!) ?le) (rev [0..<Suc (asn1_int64_start ?le 7)]))))) (CBB_flush E d))
      (der_element tag (int_content (sint v64)))"
    by (intro writes_err_flush) (simp add: cbb_and_assoc)
  with False show ?thesis
    by (simp only: CBB_add_asn1_int64_with_tag_def Let_def if_False)
qed

lemma writes_CBB_add_asn1_ints [writes_intro]:
  "writes E d (CBB_add_asn1_uint64 E d w) (uint64_element w)"
  "writes E d (CBB_add_asn1_int64 E d w) (int64_element w)"
  by (simp_all add: CBB_add_asn1_uint64_def CBB_add_asn1_int64_def uint64_element_def int64_element_def
      writes_CBB_add_asn1_uint64_with_tag writes_CBB_add_asn1_int64_with_tag)

lemma writes_CBB_add_asn1_octet_string [writes_intro]:
  "length C \<le> 0xfffffffe \<Longrightarrow>
   writes E d (CBB_add_asn1_octet_string E d C) (der_element CBS_ASN1_OCTETSTRING C)"
  unfolding CBB_add_asn1_octet_string_def
  by (intro writes_err writes_element writes_CBB_add_bytes) simp_all

lemma writes_CBB_add_asn1_bool [writes_intro]:
  "writes E d (CBB_add_asn1_bool E d z) (bool_element (z \<noteq> 0))"
  unfolding CBB_add_asn1_bool_def bool_element_def
  by (intro writes_err writes_element writes_CBB_add_u) simp_all

end
