(* ===== verification/Cbb_Tree.thy ===== *)
theory Cbb_Tree
  imports Cbb_Asn1
begin

text \<open>
  Whole messages.  An \<open>item\<close> is a tree of strings, length-prefixed strings, elements and values;
  \<open>build\<close> writes it with the calls of \<^verbatim>\<open>cbb.c\<close> the way its clients do (open a child, fill it, flush the
  parent), \<open>item_bytes\<close> is what the message is.  The theorems say that a builder produces exactly these
  bytes or reports an error, in a fixed buffer precisely when they fit, and that the parser of \<^verbatim>\<open>cbs.c\<close>
  reads the elements back.
\<close>

datatype item =
  Raw bytes
| Zeros nat
| Number_u16 u16
| Number_u32 u32
| Number_u64 u64
| Prefixed nat "item list"
| Element CBS_ASN1_TAG "item list"
| Uint64 u64
| Int64 u64
| Octets bytes
| Boolean bool

fun item_bytes :: "item \<Rightarrow> bytes" where
  "item_bytes (Raw bs) = bs"
| "item_bytes (Zeros n) = replicate n 0"
| "item_bytes (Number_u16 w) = be_bytes 2 (unat w)"
| "item_bytes (Number_u32 w) = be_bytes 4 (unat w)"
| "item_bytes (Number_u64 w) = be_bytes 8 (unat w)"
| "item_bytes (Prefixed n xs) = (let c = concat (map item_bytes xs) in be_bytes n (length c) @ c)"
| "item_bytes (Element tag xs) = der_element tag (concat (map item_bytes xs))"
| "item_bytes (Uint64 w) = der_element CBS_ASN1_INTEGER (int_content (uint w))"
| "item_bytes (Int64 w) = der_element CBS_ASN1_INTEGER (int_content (sint w))"
| "item_bytes (Octets c) = der_element CBS_ASN1_OCTETSTRING c"
| "item_bytes (Boolean b) = der_element CBS_ASN1_BOOLEAN [if b then 0xff else 0]"

text \<open>The limits of the format: prefixes of one to three bytes that hold the length, 32-bit lengths.\<close>

fun item_ok :: "item \<Rightarrow> bool" where
  "item_ok (Raw bs) \<longleftrightarrow> length bs < size_bound"
| "item_ok (Zeros n) \<longleftrightarrow> n < size_bound"
| "item_ok (Prefixed n xs) \<longleftrightarrow>
     n \<in> {1, 2, 3} \<and> length (concat (map item_bytes xs)) < 256 ^ n \<and> list_all item_ok xs"
| "item_ok (Element tag xs) \<longleftrightarrow> length (concat (map item_bytes xs)) \<le> 0xfffffffe \<and> list_all item_ok xs"
| "item_ok (Octets c) \<longleftrightarrow> length c \<le> 0xfffffffe"
| "item_ok _ \<longleftrightarrow> True"

fun cbb_seq :: "cbb_op list \<Rightarrow> cbb_op" where
  "cbb_seq [] = cbb_true"
| "cbb_seq (p # ps) = cbb_and p (cbb_seq ps)"

fun build :: "env \<Rightarrow> nat \<Rightarrow> item \<Rightarrow> cbb_op" where
  "build E d (Raw bs) = CBB_add_bytes E d bs"
| "build E d (Zeros n) = CBB_add_zeros E d n"
| "build E d (Number_u16 w) = CBB_add_u16 E d w"
| "build E d (Number_u32 w) = CBB_add_u32 E d w"
| "build E d (Number_u64 w) = CBB_add_u64 E d w"
| "build E d (Prefixed n xs)
     = cbb_and (if n = 1 then CBB_add_u8_length_prefixed E d
                else if n = 2 then CBB_add_u16_length_prefixed E d
                else CBB_add_u24_length_prefixed E d)
         (cbb_and (cbb_seq (map (build E (Suc d)) xs)) (CBB_flush E d))"
| "build E d (Element tag xs)
     = cbb_and (CBB_add_asn1 E d tag) (cbb_and (cbb_seq (map (build E (Suc d)) xs)) (CBB_flush E d))"
| "build E d (Uint64 w) = CBB_add_asn1_uint64 E d w"
| "build E d (Int64 w) = CBB_add_asn1_int64 E d w"
| "build E d (Octets c) = CBB_add_asn1_octet_string E d c"
| "build E d (Boolean b) = CBB_add_asn1_bool E d (if b then 1 else 0)"

lemma writes_seq:
  "(\<And>x. x \<in> set xs \<Longrightarrow> writes E d (f x) (g x)) \<Longrightarrow> writes E d (cbb_seq (map f xs)) (concat (map g xs))"
  by (induction xs) (auto intro: writes_true writes_and)

lemma writes_build: "item_ok it \<Longrightarrow> writes E d (build E d it) (item_bytes it)"
proof (induction it arbitrary: d)
  case (Prefixed n xs)
  then have "writes E (Suc d) (cbb_seq (map (build E (Suc d)) xs)) (concat (map item_bytes xs))"
    by (intro writes_seq) (auto simp: list_all_iff)
  with writes_length_prefixed [of n _ E d] Prefixed.prems show ?case
    by (auto simp: CBB_add_u8_length_prefixed_def CBB_add_u16_length_prefixed_def
        CBB_add_u24_length_prefixed_def Let_def)
next
  case (Element tag xs)
  then have "writes E (Suc d) (cbb_seq (map (build E (Suc d)) xs)) (concat (map item_bytes xs))"
    by (intro writes_seq) (auto simp: list_all_iff)
  with writes_element [of _ E d] Element.prems show ?case by auto
next
  case (Uint64 w)
  show ?case using writes_CBB_add_asn1_ints(1) [of E d w] by (simp add: uint64_element_def)
next
  case (Int64 w)
  show ?case using writes_CBB_add_asn1_ints(2) [of E d w] by (simp add: int64_element_def)
next
  case (Boolean b)
  show ?case using writes_CBB_add_asn1_bool [of E d "if b then 1 else 0"] by (cases b) (simp_all add: bool_element_def)
qed (auto intro: writes_intro)

lemma cbb_wf_init: "length b < size_bound \<Longrightarrow> cbb_wf (cbb_init b (length b) r)"
  by (simp add: cbb_wf_def cbb_init_def)

lemma CBB_init_wf: "CBB_init E n = Some s \<Longrightarrow> n < size_bound \<Longrightarrow>
   cbb_wf s \<and> \<not> cbb_error s \<and> cbb_children s = [] \<and> cbb_bytes s = [] \<and> cbb_len s = 0 \<and> cbb_can_resize s"
  using cbb_wf_init [of "map (env_fresh E) [0..<n]" True]
  by (auto simp: CBB_init_def cbb_init_def cbb_bytes_def split: if_splits)

lemma CBB_init_fixed_wf: "length b < size_bound \<Longrightarrow>
   cbb_wf (CBB_init_fixed b) \<and> \<not> cbb_error (CBB_init_fixed b) \<and> cbb_children (CBB_init_fixed b) = [] \<and>
   cbb_bytes (CBB_init_fixed b) = [] \<and> cbb_len (CBB_init_fixed b) = 0 \<and>
   \<not> cbb_can_resize (CBB_init_fixed b) \<and> cbb_cap (CBB_init_fixed b) = length b"
  using cbb_wf_init [of b False]
  by (auto simp: CBB_init_fixed_def cbb_init_def cbb_bytes_def)

lemma CBB_finish_ok:
  assumes "cbb_wf s" "\<not> cbb_error s" "cbb_children s = []" "cbb_bytes s = bs"
  shows "\<exists>b s'. CBB_finish E 0 False False s = (Some (b, length bs), s') \<and> take (length bs) b = bs"
  using assms length_cbb_bytes [OF assms(1)]
  by (auto simp: CBB_finish_def CBB_flush_leaf cbb_bytes_def)

lemma CBB_finish_error:
  "cbb_error s \<Longrightarrow> fst (CBB_finish E 0 a b s) = None"
  by (simp add: CBB_finish_def CBB_flush.simps)

text \<open>A message used as an example: a SEQUENCE of an INTEGER and a string with a 16-bit length.\<close>

definition sample_item :: item where
  "sample_item = Element 0x20000010 [Uint64 200, Prefixed 2 [Raw [1, 2]]]"

definition sample_env :: env where
  "sample_env = \<lparr>env_heap = \<lambda>k. True, env_fresh = \<lambda>k. 0\<rparr>"

lemma sample_item_bytes:
  "item_bytes sample_item = [0x30, 8, 2, 2, 0, 200, 0, 2, 1, 2]" "item_ok sample_item"
proof -
  have ic: "int_content 200 = [0, 200]" by (simp add: int_content.simps)
  have tags: "der_tag 0x20000010 = [0x30]" "der_tag CBS_ASN1_INTEGER = [2]"
    by (simp_all add: der_tag_def tag_number_def tag_bits_def CBS_ASN1_INTEGER_def)
  have le: "der_length (Suc (Suc 0)) = [2]" "der_length (Suc (Suc (Suc (Suc (Suc (Suc (Suc (Suc 0)))))))) = [8]"
    by (simp_all add: der_length_def)
  have be: "be_bytes 2 (Suc (Suc 0)) = [0, 2]" by (simp add: be_bytes_def numeral_2_eq_2)
  show "item_bytes sample_item = [0x30, 8, 2, 2, 0, 200, 0, 2, 1, 2]" "item_ok sample_item"
    by (simp_all add: sample_item_def ic tags le be der_element_def der_header_def Let_def)
qed

section \<open>Properties\<close>

text \<open>
  C1: Building a message in a growing buffer.  Writing any tree of strings, length-prefixed strings,
  ASN.1 elements and values that respects the limits of the format either succeeds, and then
  \<^verbatim>\<open>CBB_finish\<close> hands over exactly the bytes of the message (every pending length prefix completed, the
  contents moved when the prefix needed more room), or it fails because memory ran out, and then
  \<^verbatim>\<open>CBB_finish\<close> fails too, so no partial message is ever handed over.
\<close>
theorem build_message:
  assumes "item_ok it" "CBB_init E n = Some s" "n < size_bound" "build E 0 it s = (ok, s1)"
  shows "if ok
     then \<exists>b s2. CBB_finish E 0 False False s1 = (Some (b, length (item_bytes it)), s2) \<and>
            take (length (item_bytes it)) b = item_bytes it
     else \<not> ((\<forall>k. env_heap E k) \<and> length (item_bytes it) < 2 ^ 62) \<and>
          fst (CBB_finish E 0 False False s1) = None"
proof -
  note w = writes_build [OF assms(1), of E 0]
  from CBB_init_wf [OF assms(2,3)] have s: "cbb_wf s" "\<not> cbb_error s" "length (cbb_children s) = 0"
    "cbb_bytes s = []" "cbb_len s = 0" "cbb_can_resize s" by simp_all
  show ?thesis
  proof (cases ok)
    case True
    with assms(4) have ok: "build E 0 it s = (True, s1)" by simp
    note r = writes_True [OF w s(1-3) ok]
    have "cbb_children s1 = []" "cbb_bytes s1 = item_bytes it" using r(3,4) s(3,4) by simp_all
    from CBB_finish_ok [OF r(1,2) this, of E] True show ?thesis by simp
  next
    case False
    with assms(4) have err: "build E 0 it s = (False, s1)" by simp
    note r = writes_False [OF w s(1-3) err]
    have "\<not> ((\<forall>k. env_heap E k) \<and> length (item_bytes it) < 2 ^ 62)"
      using r(2) s(5,6) by (simp add: cbb_room_def)
    with False r(1) show ?thesis by (simp add: CBB_finish_error)
  qed
qed

lemma build_message_witness:
  "\<exists>b s2. CBB_finish sample_env 0 False False
       (snd (build sample_env 0 sample_item (the (CBB_init sample_env 0)))) = (Some (b, 10), s2) \<and>
      take 10 b = [0x30, 8, 2, 2, 0, 200, 0, 2, 1, 2]"
proof -
  have init: "CBB_init sample_env 0 = Some (the (CBB_init sample_env 0))" by (simp add: CBB_init_def)
  have room: "\<forall>k. env_heap sample_env k" by (simp add: sample_env_def)
  have len: "length (item_bytes sample_item) = 10" by (simp add: sample_item_bytes(1))
  from build_message [OF sample_item_bytes(2) init _ surjective_pairing] room
  show ?thesis unfolding len unfolding sample_item_bytes(1) by (simp split: if_splits)
qed

text \<open>
  C5: Building a message in the caller's fixed buffer.  The calls succeed exactly when the message fits
  in the buffer; then \<^verbatim>\<open>CBB_finish\<close> reports its length and the buffer starts with it; otherwise the
  builder is left in the error state and nothing is handed over.
\<close>
theorem build_message_fixed:
  assumes "item_ok it" "length buf < size_bound" "build E 0 it (CBB_init_fixed buf) = (ok, s1)"
  shows "(ok \<longleftrightarrow> length (item_bytes it) \<le> length buf) \<and>
    (if ok
     then \<exists>b s2. CBB_finish E 0 False False s1 = (Some (b, length (item_bytes it)), s2) \<and>
            length b = length buf \<and> take (length (item_bytes it)) b = item_bytes it
     else fst (CBB_finish E 0 False False s1) = None)"
proof -
  note w = writes_build [OF assms(1), of E 0]
  from CBB_init_fixed_wf [OF assms(2)] have s: "cbb_wf (CBB_init_fixed buf)" "\<not> cbb_error (CBB_init_fixed buf)"
    "length (cbb_children (CBB_init_fixed buf)) = 0" "cbb_bytes (CBB_init_fixed buf) = []"
    "cbb_len (CBB_init_fixed buf) = 0" "\<not> cbb_can_resize (CBB_init_fixed buf)"
    "cbb_cap (CBB_init_fixed buf) = length buf" by simp_all
  show ?thesis
  proof (cases ok)
    case True
    with assms(3) have ok: "build E 0 it (CBB_init_fixed buf) = (True, s1)" by simp
    note r = writes_True [OF w s(1-3) ok]
    have c: "cbb_children s1 = []" "cbb_bytes s1 = item_bytes it" using r(3,4) s(3,4) by simp_all
    have cap: "cbb_cap s1 = length buf" using r(6) s(6,7) by simp
    from CBB_finish_ok [OF r(1,2) c, of E] obtain b s2 where
      b: "CBB_finish E 0 False False s1 = (Some (b, length (item_bytes it)), s2)"
      "take (length (item_bytes it)) b = item_bytes it" by blast
    have "b = cbb_buf s1" using b(1) r(2) c(1) by (auto simp: CBB_finish_def CBB_flush_leaf split: if_splits)
    then show ?thesis
      using b True cap length_cbb_bytes [OF r(1)] c(2) r(1) by (auto simp: cbb_wf_def)
  next
    case False
    with assms(3) have err: "build E 0 it (CBB_init_fixed buf) = (False, s1)" by simp
    note r = writes_False [OF w s(1-3) err]
    then have "\<not> length (item_bytes it) \<le> length buf"
      using s(5,7) by (simp add: cbb_room_def)
    with False r(1) show ?thesis by (simp add: CBB_finish_error)
  qed
qed


lemma build_message_fixed_witness:
  "(\<exists>b s2. CBB_finish sample_env 0 False False
       (snd (build sample_env 0 sample_item (CBB_init_fixed (replicate 12 7)))) = (Some (b, 10), s2)) \<and>
   fst (build sample_env 0 sample_item (CBB_init_fixed (replicate 9 7))) = False"
proof -
  have len: "length (item_bytes sample_item) = 10" by (simp add: sample_item_bytes(1))
  have l: "length (replicate 12 (7 :: u8)) < size_bound" "length (replicate 9 (7 :: u8)) < size_bound"
    by simp_all
  from build_message_fixed [OF sample_item_bytes(2) l(1) surjective_pairing, of sample_env]
    build_message_fixed [OF sample_item_bytes(2) l(2) surjective_pairing, of sample_env]
  show ?thesis unfolding len by (simp split: if_splits) blast
qed

text \<open>
  C2: Round trip through builder and parser.  Elements with any tags and contents, written one after
  the other with \<^verbatim>\<open>CBB_add_asn1\<close>, \<^verbatim>\<open>CBB_add_bytes\<close> and \<^verbatim>\<open>CBB_flush\<close>, are read back by
  \<^verbatim>\<open>CBS_get_any_asn1\<close> from the finished buffer as exactly the same list of contents and tags.
\<close>
theorem elements_roundtrip:
  assumes "list_all (\<lambda>(c, tag). valid_element tag c \<and> length c \<le> 0xfffffffe) xs"
    and "CBB_init E n = Some s" "n < size_bound"
    and "cbb_seq (map (\<lambda>(c, tag). build E 0 (Element tag [Raw c])) xs) s = (ok, s1)"
  shows "if ok
    then \<exists>b k s2. CBB_finish E 0 False False s1 = (Some (b, k), s2) \<and>
           get_many k CBS_get_any_asn1 (take k b) = Some xs
    else \<not> ((\<forall>k. env_heap E k) \<and> length (concat (map (\<lambda>(c, tag). der_element tag c) xs)) < 2 ^ 62)"
proof -
  let ?f = "\<lambda>(c, tag). build E 0 (Element tag [Raw c])" and ?g = "\<lambda>(c, tag). der_element tag c"
  have w: "writes E 0 (cbb_seq (map ?f xs)) (concat (map ?g xs))"
  proof (rule writes_seq)
    fix x assume "x \<in> set xs"
    with assms(1) have "item_ok (Element (snd x) [Raw (fst x)])"
      by (auto simp: list_all_iff valid_element_def)
    from writes_build [OF this] show "writes E 0 (?f x) (?g x)" by (cases x) simp
  qed
  from CBB_init_wf [OF assms(2,3)] have s: "cbb_wf s" "\<not> cbb_error s" "length (cbb_children s) = 0"
    "cbb_bytes s = []" "cbb_len s = 0" "cbb_can_resize s" by simp_all
  show ?thesis
  proof (cases ok)
    case True
    with assms(4) have ok: "cbb_seq (map ?f xs) s = (True, s1)" by simp
    note r = writes_True [OF w s(1-3) ok]
    have c: "cbb_children s1 = []" "cbb_bytes s1 = concat (map ?g xs)" using r(3,4) s(3,4) by simp_all
    have "list_all (\<lambda>(c, tag). valid_element tag c) xs"
      using assms(1) by (auto simp: list_all_iff)
    from any_asn1.get_many_concat [OF this order_refl] CBB_finish_ok [OF r(1,2) c, of E] True
    show ?thesis by auto
  next
    case False
    with assms(4) have "cbb_seq (map ?f xs) s = (False, s1)" by simp
    from writes_False(2) [OF w s(1-3) this] False s(5,6) show ?thesis by (simp add: cbb_room_def)
  qed
qed

lemma elements_roundtrip_witness:
  "\<exists>b k s2. CBB_finish sample_env 0 False False
      (snd (cbb_seq (map (\<lambda>(c, tag). build sample_env 0 (Element tag [Raw c])) [([1, 2], 4), ([], 5)])
              (the (CBB_init sample_env 0)))) = (Some (b, k), s2) \<and>
     get_many k CBS_get_any_asn1 (take k b) = Some [([1, 2], 4), ([], 5)]"
proof -
  let ?xs = "[([1, 2], 4), ([], 5)] :: (bytes \<times> CBS_ASN1_TAG) list"
  have init: "CBB_init sample_env 0 = Some (the (CBB_init sample_env 0))" by (simp add: CBB_init_def)
  have room: "\<forall>k. env_heap sample_env k" by (simp add: sample_env_def)
  have ok: "list_all (\<lambda>(c, tag). valid_element tag c \<and> length c \<le> 0xfffffffe) ?xs"
    by (simp add: valid_element_def valid_tag_def)
  have len: "length (concat (map (\<lambda>(c, tag). der_element tag c) ?xs)) < 2 ^ 62"
    by (simp add: der_element_def der_header_def der_length_def der_tag_def tag_number_def)
  note r = elements_roundtrip [OF ok init _ surjective_pairing]
  show ?thesis
  proof (rule ccontr)
    assume "\<not> ?thesis"
    with r room len show False by (metis zero_less_numeral)
  qed
qed

text \<open>
  C6: Implicit flushing.  A call on a handle first completes all children that are still open below
  it.  If \<^verbatim>\<open>CBB_flush\<close> succeeds on a well-formed builder, the contents are the old contents with the
  length prefixes of exactly the children below the handle filled in, from the innermost outwards (each
  prefix counts the bytes its own children gained), the handles above it stay open, and the builder
  is well formed again.
\<close>
theorem flush_closes_children:
  assumes "cbb_wf s" "CBB_flush E d s = (True, s')"
  shows "cbb_bytes s' = close_frames (drop d (cbb_children s)) (cbb_bytes s) \<and>
    cbb_children s' = take d (cbb_children s) \<and> cbb_wf s' \<and> \<not> cbb_error s'"
  using CBB_flush_spec [OF assms] by (simp add: closed_def)

text \<open>Two open children, an element in a string with a 16-bit length, both filled in by one flush.\<close>

definition sample_open :: cbb where
  "sample_open = \<lparr>cbb_buf = [0, 0, 4, 0, 9, 9, 9, 1], cbb_len = 7, cbb_cap = 8, cbb_can_resize = False,
     cbb_error = False, cbb_children =
       [\<lparr>child_offset = 0, child_pending_len_len = 2, child_pending_is_asn1 = False\<rparr>,
        \<lparr>child_offset = 3, child_pending_len_len = 1, child_pending_is_asn1 = True\<rparr>]\<rparr>"

lemma flush_closes_children_witness:
  "cbb_bytes (snd (CBB_flush sample_env 0 sample_open)) = [0, 5, 4, 3, 9, 9, 9]"
proof -
  have wf: "cbb_wf sample_open"
    by (simp add: cbb_wf_def sample_open_def child_ok_def)
  have ok: "fst (CBB_flush sample_env 0 sample_open) = True"
    by (simp add: sample_open_def CBB_flush.simps cbb_close_child_def cbb_store_length_def
        asn1_length_prefix_def numeral_2_eq_2)
  have "CBB_flush sample_env 0 sample_open = (True, snd (CBB_flush sample_env 0 sample_open))"
    using ok by (metis prod.collapse)
  from flush_closes_children [OF wf this] show ?thesis
    by (simp add: sample_open_def cbb_bytes_def child_prefix_def der_length_def be_bytes_def numeral_2_eq_2)
qed

definition fails_on :: "cbb_op \<Rightarrow> cbb \<Rightarrow> bool" where
  "fails_on f s \<longleftrightarrow> \<not> fst (f s) \<and> cbb_error (snd (f s))"

text \<open>
  C7: No partial write goes unnoticed.  None of these calls takes the error flag of a builder away.  While it is set, whatever
  children are recorded, flushing, finishing, reserving room and every call that adds bytes, integers, zeros or a child to
  any handle fails and leaves the state alone; the writers of whole ASN.1 values fail too (they may forget the children
  that are open below the handle).  \<^verbatim>\<open>CBB_did_write\<close> and \<^verbatim>\<open>CBB_discard_child\<close> do not look at the flag, but keep it, so that
  \<^verbatim>\<open>CBB_finish\<close> never returns the buffer of a builder that has failed.
\<close>
theorem error_is_permanent:
  assumes "cbb_error s"
  shows "CBB_flush E d s = (False, s) \<and> CBB_add_space E d n s = (None, s) \<and> CBB_reserve E d n s = (None, s) \<and>
    CBB_add_bytes E d bs s = (False, s) \<and> CBB_add_zeros E d n s = (False, s) \<and> CBB_add_u8 E d b s = (False, s) \<and>
    CBB_add_u16 E d w s = (False, s) \<and> CBB_add_u24 E d x s = (False, s) \<and> CBB_add_u32 E d x s = (False, s) \<and>
    CBB_add_u64 E d y s = (False, s) \<and> CBB_add_u16le E d w s = (False, s) \<and> CBB_add_u32le E d x s = (False, s) \<and>
    CBB_add_u64le E d y s = (False, s) \<and> CBB_add_asn1 E d tag s = (False, s) \<and>
    cbb_add_length_prefixed E d n s = (False, s) \<and> CBB_finish E d p q s = (None, s) \<and>
    fails_on (CBB_add_asn1_uint64_with_tag E d y tag) s \<and> fails_on (CBB_add_asn1_int64_with_tag E d y tag) s \<and>
    fails_on (CBB_add_asn1_octet_string E d bs) s \<and> fails_on (CBB_add_asn1_bool E d i) s \<and>
    cbb_error (snd (CBB_did_write d n s)) \<and> cbb_error (CBB_discard_child d s)"
proof -
  have f: "CBB_flush E d s = (False, s)" for d using assms by (simp add: CBB_flush.simps)
  have asn1: "CBB_add_asn1 E d t s = (False, s)" for t by (simp add: f CBB_add_asn1_def cbb_and_def)
  have u: "fails_on (CBB_add_asn1_uint64_with_tag E d y tag) s"
    by (simp add: fails_on_def CBB_add_asn1_uint64_with_tag_def cbb_and_def cbb_err_def asn1 cbb_on_error_def)
  then have i: "fails_on (CBB_add_asn1_int64_with_tag E d y tag) s"
    by (simp add: fails_on_def CBB_add_asn1_int64_with_tag_def cbb_and_def cbb_err_def asn1 cbb_on_error_def Let_def)
  have "fails_on (CBB_add_asn1_octet_string E d bs) s" "fails_on (CBB_add_asn1_bool E d i) s"
    by (simp_all add: fails_on_def CBB_add_asn1_octet_string_def CBB_add_asn1_bool_def cbb_and_def cbb_err_def asn1 cbb_on_error_def)
  moreover have "cbb_error (snd (CBB_did_write d n s))" "cbb_error (CBB_discard_child d s)"
    using assms by (simp_all add: CBB_did_write_def CBB_discard_child_def Let_def)
  ultimately show ?thesis
    using u i by (simp add: f asn1 CBB_add_space_def CBB_reserve_def CBB_add_bytes_def CBB_add_zeros_def CBB_add_u8_def
        CBB_add_u16_def CBB_add_u24_def CBB_add_u32_def CBB_add_u64_def CBB_add_u16le_def CBB_add_u32le_def CBB_add_u64le_def
        cbb_add_u_def cbb_add_length_prefixed_def cbb_and_def CBB_finish_def)
qed

lemma error_is_permanent_witness:
  "CBB_finish sample_env 0 False False (cbb_on_error 1 sample_open) = (None, cbb_on_error 1 sample_open)"
proof -
  have "cbb_error (cbb_on_error 1 sample_open)" by (simp add: cbb_on_error_def)
  from error_is_permanent [OF this, where E = sample_env and d = 0 and p = False and q = False] show ?thesis by blast
qed

text \<open>
  A number that does not fit is refused.  On a well-formed builder with no open child,
  \<^verbatim>\<open>cbb_add_u\<close> for \<open>n\<close> bytes (as called with 1, 2, 3, 4 or 8) succeeds only for values below 256^n, and
  then it appends their \<open>n\<close> big-endian bytes; for any other value it returns 0 and locks the builder.
\<close>
theorem sized_integers_checked:
  assumes "cbb_wf s" "\<not> cbb_error s" "length (cbb_children s) = d" "n \<le> 8" "cbb_add_u E d v n s = (ok, s')"
  shows "(ok \<longrightarrow> unat v < 256 ^ n \<and> cbb_bytes s' = cbb_bytes s @ be_bytes n (unat v)) \<and>
    (unat v < 256 ^ n \<and> cbb_room E s n \<longrightarrow> ok) \<and> (\<not> ok \<longrightarrow> cbb_error s')"
proof (cases "unat v < 256 ^ n")
  case True
  note w = writes_cbb_add_u [OF assms(4) True, of E d]
  show ?thesis
    using writes_True [OF w assms(1-3), of s'] writes_False [OF w assms(1-3), of s'] assms(5) True
    by (cases ok) auto
next
  case False
  with cbb_add_u_overflow [OF assms(1,4) _ assms(2,3,5)] show ?thesis by auto
qed

lemma sized_integers_checked_witness:
  "cbb_error (snd (cbb_add_u sample_env 0 0x1000000 3 (CBB_init_fixed [0, 0, 0])))"
proof -
  let ?s = "CBB_init_fixed [0, 0, 0]"
  have wf: "cbb_wf ?s" "\<not> cbb_error ?s" "length (cbb_children ?s) = 0"
    using CBB_init_fixed_wf [of "[0, 0, 0]"] by simp_all
  from sized_integers_checked [OF wf _ surjective_pairing, of 3 sample_env "0x1000000"]
  show ?thesis by auto
qed

end
