(* ===== verification/Unicode.thy ===== *)
theory Unicode
  imports Cbb_Spec
begin

text \<open>
  \<^verbatim>\<open>crypto/bytestring/unicode.c\<close>: reading and writing of code points in UTF-8, Latin-1, UCS-2 and
  UTF-32.  The specification of UTF-8 is \<open>utf8_bytes\<close>, the shortest form of a code point.
\<close>

section \<open>The code\<close>

definition is_valid_code_point :: "u32 \<Rightarrow> bool" where
  "is_valid_code_point v
     = (if v > 0x10ffff \<or> v AND 0xfffe = 0xfffe \<or> (v \<ge> 0xfdd0 \<and> v \<le> 0xfdef) \<or>
           (v \<ge> 0xd800 \<and> v \<le> 0xdfff)
        then False else True)"

definition BOTTOM_BITS :: "nat \<Rightarrow> u8" where
  "BOTTOM_BITS n = ucast (push_bit n 1 - 1 :: u32)"

definition TOP_BITS :: "nat \<Rightarrow> u8" where
  "TOP_BITS n = NOT (BOTTOM_BITS (8 - n))"

text \<open>The loop over the continuation bytes.\<close>

fun utf8_tail :: "nat \<Rightarrow> u32 \<Rightarrow> u32 get" where
  "utf8_tail 0 v = get_return v"
| "utf8_tail (Suc len) v = get_bind CBS_get_u8 (\<lambda>c.
     if c AND TOP_BITS 2 \<noteq> TOP_BITS 1 then get_fail
     else utf8_tail len (push_bit 6 v OR ucast (c AND BOTTOM_BITS 6)))"

definition utf8_rest :: "u32 \<Rightarrow> nat \<Rightarrow> u32 \<Rightarrow> u32 get" where
  "utf8_rest v len lower_bound = get_bind (utf8_tail len v) (\<lambda>v.
     if \<not> is_valid_code_point v \<or> v < lower_bound then get_fail else get_return v)"

definition CBS_get_utf8 :: "u32 get" where
  "CBS_get_utf8 = get_bind CBS_get_u8 (\<lambda>c.
     if c \<le> 0x7f then get_return (ucast c)
     else if c AND TOP_BITS 3 = TOP_BITS 2 then utf8_rest (ucast (c AND BOTTOM_BITS 5)) 1 0x80
     else if c AND TOP_BITS 4 = TOP_BITS 3 then utf8_rest (ucast (c AND BOTTOM_BITS 4)) 2 0x800
     else if c AND TOP_BITS 5 = TOP_BITS 4 then utf8_rest (ucast (c AND BOTTOM_BITS 3)) 3 0x10000
     else get_fail)"

definition CBS_get_latin1 :: "u32 get" where
  "CBS_get_latin1 = get_bind CBS_get_u8 (\<lambda>c. get_return (ucast c))"

definition CBS_get_ucs2_be :: "u32 get" where
  "CBS_get_ucs2_be = get_bind CBS_get_u16 (\<lambda>c.
     if \<not> is_valid_code_point (ucast c) then get_fail else get_return (ucast c))"

definition CBS_get_utf32_be :: "u32 get" where
  "CBS_get_utf32_be = get_bind CBS_get_u32 (\<lambda>u. if is_valid_code_point u then get_return u else get_fail)"

definition CBB_get_utf8_len :: "u32 \<Rightarrow> nat" where
  "CBB_get_utf8_len u
     = (if u \<le> 0x7f then 1 else if u \<le> 0x7ff then 2 else if u \<le> 0xffff then 3 else 4)"

definition cbb_false :: cbb_op where
  "cbb_false = (\<lambda>s. (False, s))"

definition CBB_add_utf8 :: "env \<Rightarrow> nat \<Rightarrow> u32 \<Rightarrow> cbb_op" where
  "CBB_add_utf8 E d u
     = (if \<not> is_valid_code_point u then cbb_false
        else if u \<le> 0x7f then CBB_add_u8 E d (ucast u)
        else if u \<le> 0x7ff
        then cbb_and (CBB_add_u8 E d (ucast (ucast (TOP_BITS 2) OR drop_bit 6 u)))
               (CBB_add_u8 E d (ucast (ucast (TOP_BITS 1) OR (u AND ucast (BOTTOM_BITS 6)))))
        else if u \<le> 0xffff
        then cbb_and (CBB_add_u8 E d (ucast (ucast (TOP_BITS 3) OR drop_bit 12 u)))
              (cbb_and (CBB_add_u8 E d (ucast (ucast (TOP_BITS 1) OR (drop_bit 6 u AND ucast (BOTTOM_BITS 6)))))
               (CBB_add_u8 E d (ucast (ucast (TOP_BITS 1) OR (u AND ucast (BOTTOM_BITS 6))))))
        else if u \<le> 0x10ffff
        then cbb_and (CBB_add_u8 E d (ucast (ucast (TOP_BITS 4) OR drop_bit 18 u)))
              (cbb_and (CBB_add_u8 E d (ucast (ucast (TOP_BITS 1) OR (drop_bit 12 u AND ucast (BOTTOM_BITS 6)))))
               (cbb_and (CBB_add_u8 E d (ucast (ucast (TOP_BITS 1) OR (drop_bit 6 u AND ucast (BOTTOM_BITS 6)))))
                (CBB_add_u8 E d (ucast (ucast (TOP_BITS 1) OR (u AND ucast (BOTTOM_BITS 6)))))))
        else cbb_false)"

definition CBB_add_latin1 :: "env \<Rightarrow> nat \<Rightarrow> u32 \<Rightarrow> cbb_op" where
  "CBB_add_latin1 E d u = (if u > 0xff then cbb_false else CBB_add_u8 E d (ucast u))"

definition CBB_add_ucs2_be :: "env \<Rightarrow> nat \<Rightarrow> u32 \<Rightarrow> cbb_op" where
  "CBB_add_ucs2_be E d u
     = (if u > 0xffff \<or> \<not> is_valid_code_point u then cbb_false else CBB_add_u16 E d (ucast u))"

definition CBB_add_utf32_be :: "env \<Rightarrow> nat \<Rightarrow> u32 \<Rightarrow> cbb_op" where
  "CBB_add_utf32_be E d u = (if is_valid_code_point u then CBB_add_u32 E d u else cbb_false)"

section \<open>The bytes of a code point\<close>

fun utf8_cont :: "nat \<Rightarrow> nat \<Rightarrow> bytes" where
  "utf8_cont 0 x = []"
| "utf8_cont (Suc n) x = word_of_nat (128 + x div 64 ^ n mod 64) # utf8_cont n x"

definition utf8_bytes :: "nat \<Rightarrow> bytes" where
  "utf8_bytes x
     = (if x < 0x80 then [word_of_nat x]
        else if x < 0x800 then word_of_nat (192 + x div 64) # utf8_cont 1 x
        else if x < 0x10000 then word_of_nat (224 + x div 64 ^ 2) # utf8_cont 2 x
        else word_of_nat (240 + x div 64 ^ 3) # utf8_cont 3 x)"

lemma length_utf8_cont [simp]: "length (utf8_cont n x) = n"
  by (induction n) simp_all

lemma utf8_cont_add: "utf8_cont k (a * 64 ^ k + x) = utf8_cont k x"
proof (induction k arbitrary: a)
  case (Suc k)
  have "a * 64 ^ Suc k + x = (a * 64) * 64 ^ k + x" by simp
  moreover have "((a * 64) * 64 ^ k + x) div 64 ^ k mod 64 = x div 64 ^ k mod 64" by simp
  ultimately show ?case using Suc [of "a * 64"] by (simp only: utf8_cont.simps)
qed simp

text \<open>The masks.\<close>

lemma utf8_masks [simp]:
  "TOP_BITS 1 = 0x80" "TOP_BITS 2 = 0xc0" "TOP_BITS 3 = 0xe0" "TOP_BITS 4 = 0xf0" "TOP_BITS 5 = 0xf8"
  "BOTTOM_BITS 6 = 0x3f" "BOTTOM_BITS 5 = 0x1f" "BOTTOM_BITS 4 = 0xf" "BOTTOM_BITS 3 = 7"
  by (simp_all add: TOP_BITS_def BOTTOM_BITS_def)

lemma utf8_masks_1 [simp]: "TOP_BITS (Suc 0) = 0x80"
  using utf8_masks(1) by simp

lemma unat_and_not_mask: "unat ((w :: 'a::len word) AND NOT (mask k)) = unat w div 2 ^ k * 2 ^ k"
proof -
  have "w AND NOT (mask k) = push_bit k (drop_bit k w)"
    by (rule bit_word_eqI) (auto simp: bit_simps)
  moreover have "unat w div 2 ^ k * 2 ^ k < 2 ^ LENGTH('a)"
    using unsigned_less [of w, where 'a = nat] by (rule le_less_trans [rotated]) (rule div_times_less_eq_dividend)
  ultimately show ?thesis by (simp add: unat_push_bit unat_drop_bit)
qed

lemma byte_top:
  "(c :: u8) AND 0xc0 = 0x80 \<longleftrightarrow> unat c div 64 = 2"
  "(c :: u8) AND 0xe0 = 0xc0 \<longleftrightarrow> unat c div 32 = 6"
  "(c :: u8) AND 0xf0 = 0xe0 \<longleftrightarrow> unat c div 16 = 14"
  "(c :: u8) AND 0xf8 = 0xf0 \<longleftrightarrow> unat c div 8 = 30"
proof -
  have m: "(0xc0 :: u8) = NOT (mask 6)" "(0xe0 :: u8) = NOT (mask 5)" "(0xf0 :: u8) = NOT (mask 4)"
    "(0xf8 :: u8) = NOT (mask 3)" by (simp_all add: mask_eq_exp_minus_1)
  have u: "unat (c AND 0xc0) = unat c div 64 * 64" "unat (c AND 0xe0) = unat c div 32 * 32"
    "unat (c AND 0xf0) = unat c div 16 * 16" "unat (c AND 0xf8) = unat c div 8 * 8"
    unfolding m unat_and_not_mask by simp_all
  show "c AND 0xc0 = 0x80 \<longleftrightarrow> unat c div 64 = 2" "c AND 0xe0 = 0xc0 \<longleftrightarrow> unat c div 32 = 6"
    "c AND 0xf0 = 0xe0 \<longleftrightarrow> unat c div 16 = 14" "c AND 0xf8 = 0xf0 \<longleftrightarrow> unat c div 8 = 30"
    unfolding word_unat_eq_iff u by simp_all
qed

lemma byte_bottom:
  "unat (ucast ((c :: u8) AND 0x3f) :: u32) = unat c mod 64"
  "unat (ucast ((c :: u8) AND 0x1f) :: u32) = unat c mod 32"
  "unat (ucast ((c :: u8) AND 0xf) :: u32) = unat c mod 16"
  "unat (ucast ((c :: u8) AND 7) :: u32) = unat c mod 8"
  using unat_and_mask [of c 6] unat_and_mask [of c 5] unat_and_mask [of c 4] unat_and_mask [of c 3]
  by (simp_all add: mask_eq_exp_minus_1 unat_ucast_up)

section \<open>Reading\<close>

lemma utf8_step: "push_bit 6 (word_of_nat a :: u32) OR ucast ((c :: u8) AND 0x3f) = word_of_nat (a * 64 + unat c mod 64)"
proof -
  have "push_bit 6 (word_of_nat a :: u32) OR ucast (c AND 0x3f) = push_bit 6 (word_of_nat a) + ucast (c AND 0x3f)"
    by (rule shift_or_plus) (simp add: byte_bottom)
  moreover have "(ucast (c AND 0x3f) :: u32) = word_of_nat (unat c mod 64)"
    using byte_bottom(1) [of c] by (metis of_nat_unat ucast_id)
  ultimately show ?thesis by (simp add: push_bit_eq_mult)
qed

lemma byte_cont: "unat (c :: u8) div 64 = 2 \<Longrightarrow> word_of_nat (128 + unat c mod 64) = c"
  by (metis div_mult_mod_eq mult.commute numeral_Bit0 of_nat_unat ucast_id mult_2 numeral_times_numeral semiring_norm(12) semiring_norm(13))

lemma utf8_tail_iff:
  "utf8_tail n (word_of_nat a) cbs = (Some v, rest) \<longleftrightarrow>
     (\<exists>x < 64 ^ n. cbs = utf8_cont n x @ rest \<and> v = word_of_nat (a * 64 ^ n + x))"
proof (induction n arbitrary: a cbs)
  case 0
  then show ?case by auto
next
  case (Suc n)
  show ?case
  proof
    assume "utf8_tail (Suc n) (word_of_nat a) cbs = (Some v, rest)"
    then obtain c cs where cbs: "cbs = c # cs" and c: "unat c div 64 = 2"
      and t: "utf8_tail n (word_of_nat (a * 64 + unat c mod 64)) cs = (Some v, rest)"
      by (cases cbs) (auto simp: get_bind_app byte_top utf8_step split: if_splits)
    from t Suc obtain y where y: "y < 64 ^ n" "cs = utf8_cont n y @ rest"
      "v = word_of_nat ((a * 64 + unat c mod 64) * 64 ^ n + y)" by blast
    let ?x = "unat c mod 64 * 64 ^ n + y"
    have "?x div 64 ^ n = unat c mod 64" using y(1) by simp
    moreover have "?x < 64 ^ Suc n"
    proof -
      have "unat c mod 64 * 64 ^ n \<le> 63 * 64 ^ n" by (intro mult_right_mono) auto
      then show ?thesis using y(1) unfolding power_Suc by linarith
    qed
    ultimately show "\<exists>x < 64 ^ Suc n. cbs = utf8_cont (Suc n) x @ rest \<and> v = word_of_nat (a * 64 ^ Suc n + x)"
      using cbs y byte_cont [OF c] utf8_cont_add [of n "unat c mod 64" y]
      by (intro exI [of _ ?x]) (simp add: algebra_simps)
  next
    assume "\<exists>x < 64 ^ Suc n. cbs = utf8_cont (Suc n) x @ rest \<and> v = word_of_nat (a * 64 ^ Suc n + x)"
    then obtain x where x: "x < 64 ^ Suc n" "cbs = utf8_cont (Suc n) x @ rest" "v = word_of_nat (a * 64 ^ Suc n + x)"
      by blast
    define q where "q = x div 64 ^ n"
    have q: "q < 64" using x(1) by (simp add: q_def less_mult_imp_div_less mult.commute)
    define c where "c = (word_of_nat (128 + q) :: u8)"
    have c: "unat c = 128 + q" unfolding c_def by (rule byte_exhaust_nat) (use q in simp)
    have cm: "unat c div 64 = 2" "unat c mod 64 = q"
    proof -
      have "unat c = q + 2 * 64" using c by simp
      moreover have "(q + 2 * 64) mod 64 = q mod 64" "(q + 2 * 64) div 64 = 2 + q div 64"
        by (rule mod_mult_self1, rule div_mult_self1) simp
      ultimately show "unat c div 64 = 2" "unat c mod 64 = q" using q by simp_all
    qed
    have "x = q * 64 ^ n + x mod 64 ^ n" by (simp only: q_def div_mult_mod_eq)
    then have "utf8_cont n x = utf8_cont n (x mod 64 ^ n)" by (metis utf8_cont_add)
    moreover have "a * 64 ^ Suc n + x = (a * 64 + q) * 64 ^ n + x mod 64 ^ n"
      using \<open>x = q * 64 ^ n + x mod 64 ^ n\<close> by (simp add: algebra_simps)
    ultimately have "utf8_tail n (word_of_nat (a * 64 + q)) (utf8_cont n x @ rest) = (Some v, rest)"
      using Suc [of "a * 64 + q" "utf8_cont n x @ rest"] x(3) by (auto intro!: exI [of _ "x mod 64 ^ n"])
    moreover have "cbs = c # utf8_cont n x @ rest" using x(2) q by (simp add: c_def q_def)
    ultimately show "utf8_tail (Suc n) (word_of_nat a) cbs = (Some v, rest)"
      using cm by (simp add: byte_top utf8_step)
  qed
qed

text \<open>One multi-byte form: the leading byte carries \<open>a\<close>, the code point is at least \<open>lb\<close>.\<close>

lemma utf8_rest_iff:
  assumes "unat u = a" "a * 64 ^ n + 64 ^ n \<le> 2 ^ 32"
  shows "utf8_rest u n lb cbs = (Some v, rest) \<longleftrightarrow>
     is_valid_code_point v \<and> unat lb \<le> unat v \<and> unat v div 64 ^ n = a \<and> cbs = utf8_cont n (unat v) @ rest"
proof -
  have u: "u = word_of_nat a" using assms(1) by (metis of_nat_unat ucast_id)
  have "utf8_rest u n lb cbs = (Some v, rest) \<longleftrightarrow>
      is_valid_code_point v \<and> unat lb \<le> unat v \<and> utf8_tail n u cbs = (Some v, rest)"
    by (auto simp: utf8_rest_def get_bind_Some word_less_nat_alt split: if_splits)
  also have "utf8_tail n u cbs = (Some v, rest) \<longleftrightarrow> unat v div 64 ^ n = a \<and> cbs = utf8_cont n (unat v) @ rest"
  proof -
    have "(\<exists>x < 64 ^ n. cbs = utf8_cont n x @ rest \<and> v = word_of_nat (a * 64 ^ n + x)) \<longleftrightarrow>
        unat v div 64 ^ n = a \<and> cbs = utf8_cont n (unat v) @ rest" (is "?L \<longleftrightarrow> ?R")
    proof
      assume ?L
      then obtain x where x: "x < 64 ^ n" "cbs = utf8_cont n x @ rest" "v = word_of_nat (a * 64 ^ n + x)"
        by blast
      have "a * 64 ^ n + x < 2 ^ 32" using x(1) assms(2) by linarith
      then have v: "unat v = a * 64 ^ n + x"
        unfolding x(3) by (simp add: unat_of_nat del: of_nat_add of_nat_mult of_nat_power)
      with x show ?R by (simp add: utf8_cont_add)
    next
      assume r: ?R
      have v: "unat v = a * 64 ^ n + unat v mod 64 ^ n" using r by (metis div_mult_mod_eq)
      then have "utf8_cont n (unat v) = utf8_cont n (unat v mod 64 ^ n)" by (metis utf8_cont_add)
      moreover have "v = word_of_nat (a * 64 ^ n + unat v mod 64 ^ n)" using v by (metis of_nat_unat ucast_id)
      ultimately show ?L using r by (intro exI [of _ "unat v mod 64 ^ n"]) auto
    qed
    then show ?thesis unfolding u utf8_tail_iff .
  qed
  finally show ?thesis .
qed

lemma valid_code_point_small: "unat v < 0xd800 \<Longrightarrow> is_valid_code_point v"
proof -
  assume v: "unat v < 0xd800"
  have "v AND 0xfffe \<noteq> 0xfffe"
  proof
    assume "v AND 0xfffe = 0xfffe"
    then have "0xfffe \<le> v" by (metis word_and_le1 word_and_le2)
    with v show False by (simp add: word_le_nat_alt)
  qed
  with v show ?thesis by (auto simp: is_valid_code_point_def word_le_nat_alt word_less_nat_alt)
qed

lemma valid_code_point_bound: "is_valid_code_point v \<Longrightarrow> unat v \<le> 0x10ffff"
  by (simp add: is_valid_code_point_def word_less_nat_alt split: if_splits)

lemma byte_eq_iff: "k < 256 \<Longrightarrow> (c :: u8) = word_of_nat k \<longleftrightarrow> unat c = k"
  by (auto simp: word_unat_eq_iff byte_exhaust_nat)

text \<open>The two sides of the contract for a first byte \<open>c\<close>.\<close>

lemma CBS_get_utf8_Cons:
  "CBS_get_utf8 (c # cs) = (Some v, rest) \<longleftrightarrow> is_valid_code_point v \<and>
    (if unat c < 128 then unat v = unat c \<and> cs = rest
     else if unat c div 32 = 6
     then 0x80 \<le> unat v \<and> unat v div 64 ^ 1 = unat c mod 32 \<and> cs = utf8_cont 1 (unat v) @ rest
     else if unat c div 16 = 14
     then 0x800 \<le> unat v \<and> unat v div 64 ^ 2 = unat c mod 16 \<and> cs = utf8_cont 2 (unat v) @ rest
     else if unat c div 8 = 30
     then 0x10000 \<le> unat v \<and> unat v div 64 ^ 3 = unat c mod 8 \<and> cs = utf8_cont 3 (unat v) @ rest
     else False)"
proof -
  have lt: "c \<le> 0x7f \<longleftrightarrow> unat c < 128" by (auto simp: word_le_nat_alt)
  have m: "unat c mod 32 < 32" "unat c mod 16 < 16" "unat c mod 8 < 8" by simp_all
  have i: "unat c mod 32 * 64 ^ 1 + 64 ^ 1 \<le> 2 ^ 32" "unat c mod 16 * 64 ^ 2 + 64 ^ 2 \<le> 2 ^ 32"
    "unat c mod 8 * 64 ^ 3 + 64 ^ 3 \<le> 2 ^ 32"
    using m by simp_all
  note r = utf8_rest_iff [OF byte_bottom(2) [of c] i(1), of "0x80" cs v rest]
    utf8_rest_iff [OF byte_bottom(3) [of c] i(2), of "0x800" cs v rest]
    utf8_rest_iff [OF byte_bottom(4) [of c] i(3), of "0x10000" cs v rest]
  have v: "ucast c = v \<longleftrightarrow> unat v = unat c" by (auto simp: word_unat_eq_iff unat_ucast_up)
  have ok: "unat v = unat c \<Longrightarrow> unat c < 128 \<Longrightarrow> is_valid_code_point v"
    by (rule valid_code_point_small) simp
  show ?thesis
    using ok r
    by (simp add: CBS_get_utf8_def get_bind_app lt byte_top v) auto
qed

lemma utf8_lead:
  assumes "x \<le> 0x10ffff"
  shows "x < 0x80 \<Longrightarrow> c = word_of_nat x \<longleftrightarrow> unat (c :: u8) = x"
    "x < 0x800 \<Longrightarrow> c = word_of_nat (192 + x div 64) \<longleftrightarrow> unat c = 192 + x div 64"
    "x < 0x10000 \<Longrightarrow> c = word_of_nat (224 + x div 64 ^ 2) \<longleftrightarrow> unat c = 224 + x div 64 ^ 2"
    "c = word_of_nat (240 + x div 64 ^ 3) \<longleftrightarrow> unat c = 240 + x div 64 ^ 3"
  by (rule byte_eq_iff; use assms in \<open>simp add: div_less_iff_less_mult\<close>)+

lemma div_range:
  "(k :: nat) div 32 = 6 \<longleftrightarrow> (\<exists>a < 32. k = 192 + a)"
  "(k :: nat) div 16 = 14 \<longleftrightarrow> (\<exists>a < 16. k = 224 + a)"
  "(k :: nat) div 8 = 30 \<longleftrightarrow> (\<exists>a < 8. k = 240 + a)"
proof -
  have "k div d = m \<longleftrightarrow> (\<exists>a < d. k = d * m + a)" if "0 < d" for d m :: nat
    using that by (metis div_mult_mod_eq mult.commute mod_less_divisor add_cancel_left_right div_less
        div_mult_self4 less_not_refl)
  from this [of 32 6] this [of 16 14] this [of 8 30] show
    "k div 32 = 6 \<longleftrightarrow> (\<exists>a < 32. k = 192 + a)" "k div 16 = 14 \<longleftrightarrow> (\<exists>a < 16. k = 224 + a)"
    "k div 8 = 30 \<longleftrightarrow> (\<exists>a < 8. k = 240 + a)" by simp_all
qed

lemma CBS_get_utf8_iff:
  "CBS_get_utf8 cbs = (Some v, rest) \<longleftrightarrow> is_valid_code_point v \<and> cbs = utf8_bytes (unat v) @ rest"
proof (cases cbs)
  case Nil
  then show ?thesis by (simp add: CBS_get_utf8_def get_bind_app utf8_bytes_def)
next
  case (Cons c cs)
  show ?thesis
  proof (cases "is_valid_code_point v")
    case True
    define x where "x = unat v"
    define k where "k = unat c"
    have x: "x \<le> 0x10ffff" using valid_code_point_bound [OF True] by (simp add: x_def)
    have lhs: "CBS_get_utf8 cbs = (Some v, rest) \<longleftrightarrow>
      (if k < 128 then x = k \<and> cs = rest
       else if k div 32 = 6 then 0x80 \<le> x \<and> x div 64 ^ 1 = k mod 32 \<and> cs = utf8_cont 1 x @ rest
       else if k div 16 = 14 then 0x800 \<le> x \<and> x div 64 ^ 2 = k mod 16 \<and> cs = utf8_cont 2 x @ rest
       else if k div 8 = 30 then 0x10000 \<le> x \<and> x div 64 ^ 3 = k mod 8 \<and> cs = utf8_cont 3 x @ rest
       else False)"
      unfolding Cons CBS_get_utf8_Cons x_def k_def using True by simp
    have rhs: "cbs = utf8_bytes x @ rest \<longleftrightarrow>
      (if x < 0x80 then k = x \<and> cs = rest
       else if x < 0x800 then k = 192 + x div 64 \<and> cs = utf8_cont 1 x @ rest
       else if x < 0x10000 then k = 224 + x div 64 ^ 2 \<and> cs = utf8_cont 2 x @ rest
       else k = 240 + x div 64 ^ 3 \<and> cs = utf8_cont 3 x @ rest)"
      using utf8_lead [OF x, of c] unfolding Cons utf8_bytes_def k_def
      by (simp only: append_Cons append_Nil list.inject if_distrib [of "\<lambda>y. y @ rest"] split: if_split) auto
    have md: "(192 + a) mod 32 = a mod 32" "(224 + a) mod 16 = a mod 16" "(240 + a) mod 8 = a mod 8" for a :: nat
      using mod_mult_self2 [of a 32 6] mod_mult_self2 [of a 16 14] mod_mult_self2 [of a 8 30]
      by (simp_all add: add.commute)
    have e1: "k div 32 = 6 \<and> 0x80 \<le> x \<and> x div 64 ^ 1 = k mod 32 \<longleftrightarrow>
        0x80 \<le> x \<and> x < 0x800 \<and> k = 192 + x div 64"
      by (auto simp: div_range md div_less_iff_less_mult)
    have e2: "k div 16 = 14 \<and> 0x800 \<le> x \<and> x div 64 ^ 2 = k mod 16 \<longleftrightarrow>
        0x800 \<le> x \<and> x < 0x10000 \<and> k = 224 + x div 64 ^ 2"
      by (auto simp: div_range md div_less_iff_less_mult)
    have e3: "k div 8 = 30 \<and> 0x10000 \<le> x \<and> x div 64 ^ 3 = k mod 8 \<longleftrightarrow>
        0x10000 \<le> x \<and> k = 240 + x div 64 ^ 3"
      using x by (auto simp: div_range md div_less_iff_less_mult)
    have ex: "k div 32 = 6 \<longrightarrow> \<not> k < 128 \<and> k div 16 \<noteq> 14 \<and> k div 8 \<noteq> 30"
      "k div 16 = 14 \<longrightarrow> \<not> k < 128 \<and> k div 8 \<noteq> 30" "k div 8 = 30 \<longrightarrow> \<not> k < 128"
      by (auto simp: div_range)
    have sep: "k = 192 + x div 64 \<longrightarrow> \<not> k < 128" "k = 224 + x div 64 ^ 2 \<longrightarrow> \<not> k < 128"
      "k = 240 + x div 64 ^ 3 \<longrightarrow> \<not> k < 128" by linarith+
    have o: "0x80 \<le> x \<longleftrightarrow> \<not> x < 0x80" "0x800 \<le> x \<longleftrightarrow> \<not> x < 0x800" "0x10000 \<le> x \<longleftrightarrow> \<not> x < 0x10000"
      "x < 0x80 \<longrightarrow> x < 0x800" "x < 0x800 \<longrightarrow> x < 0x10000" "k = x \<longrightarrow> (k < 128 \<longleftrightarrow> x < 0x80)" "x = k \<longleftrightarrow> k = x"
      by auto
    have "CBS_get_utf8 cbs = (Some v, rest) \<longleftrightarrow> cbs = utf8_bytes x @ rest"
      unfolding lhs rhs if_bool_eq_conj using e1 e2 e3 ex sep o by satx
    with True show ?thesis by (simp add: x_def)
  qed (auto simp: Cons CBS_get_utf8_Cons)
qed


interpretation utf8: byte_codec_nonempty CBS_get_utf8 "\<lambda>v. utf8_bytes (unat v)" is_valid_code_point
  by unfold_locales (auto simp: CBS_get_utf8_iff utf8_bytes_def)

interpretation latin1: byte_codec_nonempty CBS_get_latin1 "\<lambda>v. [ucast v]" "\<lambda>v. unat v < 256"
proof unfold_locales
  show "CBS_get_latin1 ([ucast v] @ rest) = (Some v, rest)" if "unat v < 256" for v rest
    using that by (simp add: CBS_get_latin1_def get_bind_app word_unat_eq_iff unat_ucast_mod)
  show "unat v < 256 \<and> cbs = [ucast v] @ rest" if "CBS_get_latin1 cbs = (Some v, rest)" for cbs v rest
  proof (cases cbs)
    case (Cons a cs)
    with that have v: "v = ucast a" "rest = cs" by (simp_all add: CBS_get_latin1_def get_bind_app)
    then have "unat v = unat a" by (simp add: unat_ucast_up)
    then show ?thesis using Cons v(2) byte_lt [of a] by (simp add: word_unat_eq_iff unat_ucast_mod)
  qed (use that in \<open>simp add: CBS_get_latin1_def get_bind_app\<close>)
qed simp

interpretation ucs2: byte_codec_nonempty CBS_get_ucs2_be "\<lambda>v. be_bytes 2 (unat v)"
  "\<lambda>v. is_valid_code_point v \<and> unat v < 256 ^ 2"
proof unfold_locales
  fix v rest
  assume v: "is_valid_code_point v \<and> unat v < 256 ^ 2"
  then have c: "unat (ucast v :: u16) = unat v" by (simp add: unat_ucast_mod)
  then have "ucast (ucast v :: u16) = v" by (simp add: word_unat_eq_iff unat_ucast_up)
  moreover have "CBS_get_u16 (be_bytes 2 (unat v) @ rest) = (Some (ucast v), rest)"
    using u16.dec_enc [of "ucast v" rest] v c by simp
  ultimately show "CBS_get_ucs2_be (be_bytes 2 (unat v) @ rest) = (Some v, rest)"
    using v by (simp add: CBS_get_ucs2_be_def)
next
  fix cbs v rest
  assume "CBS_get_ucs2_be cbs = (Some v, rest)"
  then obtain c where "CBS_get_u16 cbs = (Some c, rest)" "v = ucast c" "is_valid_code_point v"
    by (auto simp: CBS_get_ucs2_be_def get_bind_Some split: if_splits)
  with u16.enc_dec show "(is_valid_code_point v \<and> unat v < 256 ^ 2) \<and> cbs = be_bytes 2 (unat v) @ rest"
    by (fastforce simp: unat_ucast_up)
qed (auto simp flip: length_0_conv)

interpretation utf32: byte_codec_nonempty CBS_get_utf32_be "\<lambda>v. be_bytes 4 (unat v)" is_valid_code_point
proof unfold_locales
  have lt: "unat v < 256 ^ 4" for v :: u32 using unsigned_less [of v, where 'a = nat] by simp
  show "CBS_get_utf32_be (be_bytes 4 (unat v) @ rest) = (Some v, rest)" if "is_valid_code_point v" for v rest
    using that u32.dec_enc [OF lt, of v rest] by (simp add: CBS_get_utf32_be_def)
  show "is_valid_code_point v \<and> cbs = be_bytes 4 (unat v) @ rest"
    if "CBS_get_utf32_be cbs = (Some v, rest)" for cbs v rest
    using that u32.enc_dec by (auto simp: CBS_get_utf32_be_def get_bind_Some split: if_splits)
qed (auto simp flip: length_0_conv)

section \<open>Writing\<close>

lemma utf8_out_byte:
  assumes "unat (w :: u32) < 2 ^ k" "k \<le> 6"
  shows "ucast (push_bit k t OR w) = (word_of_nat (unat t * 2 ^ k + unat w) :: u8)"
proof -
  have "push_bit k t OR w = push_bit k t + w" by (rule shift_or_plus) (rule assms)
  then have "unat (ucast (push_bit k t OR w) :: u8) = (unat t * 2 ^ k + unat w) mod 2 ^ 32 mod 2 ^ 8"
    by (simp add: unat_ucast_mod unat_word_ariths unat_push_bit mod_add_left_eq)
  also have "\<dots> = (unat t * 2 ^ k + unat w) mod 2 ^ 8"
    by (rule mod_mod_cancel) simp
  also have "\<dots> = unat (word_of_nat (unat t * 2 ^ k + unat w) :: u8)"
    by (simp add: unat_of_nat del: of_nat_add of_nat_mult of_nat_power)
  finally show ?thesis by (simp only: word_unat_eq_iff)
qed

lemma utf8_cont_byte:
  "ucast (ucast (TOP_BITS 1) OR ((u :: u32) AND ucast (BOTTOM_BITS 6))) = (word_of_nat (128 + unat u mod 64) :: u8)"
proof -
  have m: "unat (u AND 0x3f) = unat u mod 64"
    using unat_and_mask [of u 6] by (simp add: mask_eq_exp_minus_1)
  have "ucast (push_bit 6 2 OR (u AND 0x3f)) = (word_of_nat (unat (2 :: u32) * 2 ^ 6 + unat (u AND 0x3f)) :: u8)"
    by (rule utf8_out_byte) (simp_all add: m)
  then show ?thesis by (simp add: m)
qed

lemma utf8_lead_bytes:
  fixes u :: u32
  shows "unat u < 0x800 \<Longrightarrow> ucast (ucast (TOP_BITS 2) OR drop_bit 6 u) = (word_of_nat (192 + unat u div 64) :: u8)"
    "unat u < 0x10000 \<Longrightarrow> ucast (ucast (TOP_BITS 3) OR drop_bit 12 u) = (word_of_nat (224 + unat u div 64 ^ 2) :: u8)"
    "unat u \<le> 0x10ffff \<Longrightarrow> ucast (ucast (TOP_BITS 4) OR drop_bit 18 u) = (word_of_nat (240 + unat u div 64 ^ 3) :: u8)"
  using utf8_out_byte [of "drop_bit 6 u" 5 6] utf8_out_byte [of "drop_bit 12 u" 4 14]
    utf8_out_byte [of "drop_bit 18 u" 3 30]
  by (simp_all add: unat_drop_bit div_less_iff_less_mult)

lemma writes_CBB_add_utf8 [writes_intro]:
  assumes "is_valid_code_point u"
  shows "writes E d (CBB_add_utf8 E d u) (utf8_bytes (unat u))"
proof -
  let ?x = "unat u"
  have x: "?x \<le> 0x10ffff" by (rule valid_code_point_bound) (rule assms)
  have le: "u \<le> 0x7f \<longleftrightarrow> ?x < 0x80" "u \<le> 0x7ff \<longleftrightarrow> ?x < 0x800" "u \<le> 0xffff \<longleftrightarrow> ?x < 0x10000"
    "u \<le> 0x10ffff"
    using x by (auto simp: word_le_nat_alt)
  have c: "?x div 2 ^ 6 = ?x div 64" "?x div 2 ^ 12 = ?x div 64 ^ 2" by simp_all
  note cont = utf8_cont_byte [of u] utf8_cont_byte [of "drop_bit 6 u"] utf8_cont_byte [of "drop_bit 12 u"]
  consider "?x < 0x80" | "0x80 \<le> ?x" "?x < 0x800" | "0x800 \<le> ?x" "?x < 0x10000" | "0x10000 \<le> ?x"
    by linarith
  then show ?thesis
  proof cases
    case 1
    with writes_CBB_add_u(1) [of E d "ucast u"] show ?thesis
      by (simp add: CBB_add_utf8_def assms le utf8_bytes_def)
  next
    case 2
    have "CBB_add_utf8 E d u = cbb_and (CBB_add_u8 E d (word_of_nat (192 + ?x div 64)))
        (CBB_add_u8 E d (word_of_nat (128 + ?x mod 64)))"
      using 2 utf8_lead_bytes(1) [of u] by (simp only: CBB_add_utf8_def assms le cont) simp
    moreover have "utf8_bytes ?x = [word_of_nat (192 + ?x div 64)] @ [word_of_nat (128 + ?x mod 64)]"
      using 2 by (simp add: utf8_bytes_def)
    ultimately show ?thesis by (simp only: writes_and writes_CBB_add_u)
  next
    case 3
    have "CBB_add_utf8 E d u = cbb_and (CBB_add_u8 E d (word_of_nat (224 + ?x div 64 ^ 2)))
        (cbb_and (CBB_add_u8 E d (word_of_nat (128 + ?x div 64 mod 64))) (CBB_add_u8 E d (word_of_nat (128 + ?x mod 64))))"
      using 3 utf8_lead_bytes(2) [of u] by (simp only: CBB_add_utf8_def assms le cont unat_drop_bit c) simp
    moreover have "utf8_bytes ?x = [word_of_nat (224 + ?x div 64 ^ 2)] @ [word_of_nat (128 + ?x div 64 mod 64)]
        @ [word_of_nat (128 + ?x mod 64)]"
      using 3 by (simp add: utf8_bytes_def numeral_2_eq_2)
    ultimately show ?thesis by (simp only: writes_and writes_CBB_add_u)
  next
    case 4
    have "CBB_add_utf8 E d u = cbb_and (CBB_add_u8 E d (word_of_nat (240 + ?x div 64 ^ 3)))
        (cbb_and (CBB_add_u8 E d (word_of_nat (128 + ?x div 64 ^ 2 mod 64)))
        (cbb_and (CBB_add_u8 E d (word_of_nat (128 + ?x div 64 mod 64))) (CBB_add_u8 E d (word_of_nat (128 + ?x mod 64)))))"
      using 4 utf8_lead_bytes(3) [of u] x by (simp only: CBB_add_utf8_def assms le cont unat_drop_bit c) simp
    moreover have "utf8_bytes ?x = [word_of_nat (240 + ?x div 64 ^ 3)] @ [word_of_nat (128 + ?x div 64 ^ 2 mod 64)]
        @ [word_of_nat (128 + ?x div 64 mod 64)] @ [word_of_nat (128 + ?x mod 64)]"
      using 4 by (simp add: utf8_bytes_def numeral_3_eq_3 numeral_2_eq_2)
    ultimately show ?thesis by (simp only: writes_and writes_CBB_add_u)
  qed
qed

section \<open>Properties\<close>

text \<open>
  C10: UTF-8 is read strictly.  \<^verbatim>\<open>CBS_get_utf8\<close> returns a code point exactly when it is valid (at most
  0x10ffff, no surrogate, no noncharacter) and the input starts with its shortest UTF-8 form: overlong
  forms, truncated sequences and stray continuation bytes are refused and the rest is left untouched.
\<close>
theorem utf8_reader_exact:
  "CBS_get_utf8 cbs = (Some v, rest) \<longleftrightarrow> is_valid_code_point v \<and> cbs = utf8_bytes (unat v) @ rest"
  by (rule CBS_get_utf8_iff)

text \<open>
  UTF-8 text.  Reading characters until the input is used up yields a list of code points exactly
  when the input is the concatenation of their shortest forms, so every text has one encoding and
  every encoding one text.
\<close>
theorem utf8_text_exact:
  "get_many (length cbs) CBS_get_utf8 cbs = Some vs \<longleftrightarrow>
     list_all is_valid_code_point vs \<and> cbs = concat (map (\<lambda>v. utf8_bytes (unat v)) vs)"
  by (rule utf8.get_many_iff)

text \<open>
  C11: UTF-8 is written as it is read.  On a well-formed builder without open children,
  \<^verbatim>\<open>CBB_add_utf8\<close> succeeds only for valid code points, and then the contents grow by bytes that
  \<^verbatim>\<open>CBS_get_utf8\<close> reads back as that code point, whatever follows them; their number is
  \<^verbatim>\<open>CBB_get_utf8_len\<close>.
\<close>
theorem utf8_writer_roundtrip:
  assumes "cbb_wf s" "\<not> cbb_error s" "length (cbb_children s) = d" "CBB_add_utf8 E d u s = (True, s')"
  shows "\<exists>bs. cbb_bytes s' = cbb_bytes s @ bs \<and> length bs = CBB_get_utf8_len u \<and>
    CBS_get_utf8 (bs @ rest) = (Some u, rest)"
proof -
  have u: "is_valid_code_point u"
    using assms(4) by (auto simp: CBB_add_utf8_def cbb_false_def split: if_splits)
  have "length (utf8_bytes (unat u)) = CBB_get_utf8_len u"
    by (auto simp: utf8_bytes_def CBB_get_utf8_len_def word_le_nat_alt)
  moreover have "cbb_bytes s' = cbb_bytes s @ utf8_bytes (unat u)"
    by (rule writes_True(4) [OF writes_CBB_add_utf8 [OF u] assms])
  ultimately show ?thesis using utf8.dec_enc [OF u] by blast
qed

lemma utf8_writer_roundtrip_witness:
  "\<exists>bs. cbb_bytes (snd (CBB_add_utf8 \<lparr>env_heap = \<lambda>k. True, env_fresh = \<lambda>k. 0\<rparr> 0 0x20ac (CBB_init_fixed (replicate 4 0))))
      = [] @ bs \<and> length bs = 3 \<and> CBS_get_utf8 (bs @ [65]) = (Some 0x20ac, [65])"
proof -
  let ?E = "\<lparr>env_heap = \<lambda>k. True, env_fresh = \<lambda>k. 0\<rparr>" and ?s = "CBB_init_fixed (replicate 4 0)"
  have s: "cbb_wf ?s" "\<not> cbb_error ?s" "length (cbb_children ?s) = 0" "cbb_bytes ?s = []"
    by (simp_all add: cbb_wf_def CBB_init_fixed_def cbb_init_def cbb_bytes_def)
  have v: "is_valid_code_point 0x20ac" by (rule valid_code_point_small) simp
  have len: "length (utf8_bytes (unat (0x20ac :: u32))) = 3"
    by (simp add: utf8_bytes_def)
  have room: "cbb_room ?E ?s (length (utf8_bytes (unat (0x20ac :: u32))))"
    unfolding len by (simp add: cbb_room_def CBB_init_fixed_def cbb_init_def)
  obtain ok s' where r: "CBB_add_utf8 ?E 0 0x20ac ?s = (ok, s')" by (cases "CBB_add_utf8 ?E 0 0x20ac ?s")
  have "ok"
  proof (rule ccontr)
    assume "\<not> ok"
    with r have "CBB_add_utf8 ?E 0 0x20ac ?s = (False, s')" by simp
    from writes_False(2) [OF writes_CBB_add_utf8 [OF v] s(1-3) this] room show False by simp
  qed
  with r have r: "CBB_add_utf8 ?E 0 0x20ac ?s = (True, s')" by simp
  from utf8_writer_roundtrip [OF s(1-3) r, of "[65]"] s(4) r
  show ?thesis by (simp add: CBB_get_utf8_len_def)
qed

end
