(* ===== verification/Ber.thy ===== *)
theory Ber
  imports Cbb_Asn1
begin

text \<open>
  \<^verbatim>\<open>crypto/bytestring/ber.c\<close> and \<^verbatim>\<open>asn1_compat.c\<close>: the conversion of BER (indefinite lengths,
  constructed strings, lengths that are not minimal) to DER.  The recursion of the two walkers is
  bounded by \<^verbatim>\<open>kMaxDepth\<close>; each round of their loops consumes input, which is why they are total here.
\<close>

section \<open>The code\<close>

definition kMaxDepth :: nat where "kMaxDepth = 128"

definition CBS_ASN1_UTF8STRING :: CBS_ASN1_TAG where "CBS_ASN1_UTF8STRING = 0xc"
definition CBS_ASN1_NUMERICSTRING :: CBS_ASN1_TAG where "CBS_ASN1_NUMERICSTRING = 0x12"
definition CBS_ASN1_PRINTABLESTRING :: CBS_ASN1_TAG where "CBS_ASN1_PRINTABLESTRING = 0x13"
definition CBS_ASN1_T61STRING :: CBS_ASN1_TAG where "CBS_ASN1_T61STRING = 0x14"
definition CBS_ASN1_VIDEOTEXSTRING :: CBS_ASN1_TAG where "CBS_ASN1_VIDEOTEXSTRING = 0x15"
definition CBS_ASN1_IA5STRING :: CBS_ASN1_TAG where "CBS_ASN1_IA5STRING = 0x16"
definition CBS_ASN1_GRAPHICSTRING :: CBS_ASN1_TAG where "CBS_ASN1_GRAPHICSTRING = 0x19"
definition CBS_ASN1_VISIBLESTRING :: CBS_ASN1_TAG where "CBS_ASN1_VISIBLESTRING = 0x1a"
definition CBS_ASN1_GENERALSTRING :: CBS_ASN1_TAG where "CBS_ASN1_GENERALSTRING = 0x1b"
definition CBS_ASN1_UNIVERSALSTRING :: CBS_ASN1_TAG where "CBS_ASN1_UNIVERSALSTRING = 0x1c"
definition CBS_ASN1_BMPSTRING :: CBS_ASN1_TAG where "CBS_ASN1_BMPSTRING = 0x1e"

definition is_string_type :: "CBS_ASN1_TAG \<Rightarrow> bool" where
  "is_string_type tag \<longleftrightarrow> tag AND NOT CBS_ASN1_CONSTRUCTED \<in>
     {CBS_ASN1_OCTETSTRING, CBS_ASN1_UTF8STRING, CBS_ASN1_NUMERICSTRING, CBS_ASN1_PRINTABLESTRING,
      CBS_ASN1_T61STRING, CBS_ASN1_VIDEOTEXSTRING, CBS_ASN1_IA5STRING, CBS_ASN1_GRAPHICSTRING,
      CBS_ASN1_VISIBLESTRING, CBS_ASN1_GENERALSTRING, CBS_ASN1_UNIVERSALSTRING, CBS_ASN1_BMPSTRING}"

lemma asn1_element_shrinks:
  assumes "cbs_get_any_asn1_element ber cbs = (Some el, rest)"
  shows "2 \<le> el_header_len el \<and> el_header_len el \<le> length (el_out el) \<and> cbs = el_out el @ rest"
proof -
  have take: "2 \<le> el_header_len el \<and> el_header_len el \<le> length (el_out el) \<and> cbs = el_out el @ rest"
    if "asn1_take t n hl bf ind cbs = (Some el, rest)" "2 \<le> hl" "hl \<le> n" for t n hl bf ind
    using that by (auto simp: asn1_take_Some)
  obtain t h1 where t: "parse_asn1_tag cbs = (Some t, h1)"
    using assms by (auto simp: cbs_get_any_asn1_element_def split: prod.splits option.splits)
  then have c1: "cbs = der_tag t @ h1" using tag.enc_dec by auto
  obtain lb h2 where h1: "h1 = lb # h2"
    using assms by (cases h1) (auto simp: cbs_get_any_asn1_element_def t)
  have hl: "length cbs - length h2 = length (der_tag t) + 1" by (simp add: c1 h1)
  note len = length_der_tag [of t]
  show ?thesis
  proof (cases "lb AND 0x80 = 0")
    case True
    with assms have "asn1_take t (unat lb + (length (der_tag t) + 1)) (length (der_tag t) + 1) False False cbs
        = (Some el, rest)"
      by (simp add: cbs_get_any_asn1_element_def t h1 hl Let_def)
    from take [OF this] len show ?thesis by simp
  next
    case False
    let ?k = "unat (lb AND 0x7f)"
    show ?thesis
    proof (cases "ber \<and> t AND CBS_ASN1_CONSTRUCTED \<noteq> 0 \<and> ?k = 0")
      case True
      with assms False have "asn1_take t (length (der_tag t) + 1) (length (der_tag t) + 1) True True cbs
          = (Some el, rest)"
        by (simp add: cbs_get_any_asn1_element_def t h1 hl Let_def)
      from take [OF this] len show ?thesis by simp
    next
      case nb: False
      with assms False obtain w h3 bf where k: "0 < ?k" "?k \<le> 4" and u: "cbs_get_u ?k h2 = (Some w, h3)"
        and tk: "asn1_take t (size_add (unat w) (length (der_tag t) + 1 + ?k)) (length (der_tag t) + 1 + ?k)
          bf False cbs = (Some el, rest)"
        by (auto simp: cbs_get_any_asn1_element_def t h1 hl Let_def split: prod.splits option.splits if_splits)
      have "unat w < 256 ^ ?k" using cbs_get_u_Some(2) [OF u] k by simp
      then have "unat w < 2 ^ 32" using pow256_le [of ?k 32] k by simp
      then have "size_add (unat w) (length (der_tag t) + 1 + ?k) = unat w + (length (der_tag t) + 1 + ?k)"
        using k len(2) by simp
      with take [OF tk] len show ?thesis by simp
    qed
  qed
qed

lemma ber_element_shrinks:
  "CBS_get_any_ber_asn1_element cbs = (Some el, rest) \<Longrightarrow> length rest < length cbs"
  "CBS_get_any_ber_asn1_element cbs = (Some el, rest) \<Longrightarrow>
     CBS_skip (el_header_len el) (el_out el) = (Some u, contents) \<Longrightarrow> length contents < length cbs"
  by (auto simp: CBS_get_any_ber_asn1_element_def cbs_simps dest!: asn1_element_shrinks split: if_splits)

lemma ber_element_shrinks_sym:
  "(Some el, rest) = CBS_get_any_ber_asn1_element cbs \<Longrightarrow> length rest < length cbs"
  "(Some el, rest) = CBS_get_any_ber_asn1_element cbs \<Longrightarrow>
     (Some u, contents) = CBS_skip (el_header_len el) (el_out el) \<Longrightarrow> length contents < length cbs"
  by (metis ber_element_shrinks(1), metis ber_element_shrinks(2))

text \<open>\<open>Some ber_found\<close> on success.\<close>

function cbs_find_ber :: "bytes \<Rightarrow> nat \<Rightarrow> bool option" where
  "cbs_find_ber inp depth
     = (if depth > kMaxDepth then None
        else if length inp = 0 then Some False
        else case CBS_get_any_ber_asn1_element inp of
               (None, _) \<Rightarrow> None
             | (Some el, inp') \<Rightarrow>
                 if el_ber_found el then Some True
                 else if el_tag el AND CBS_ASN1_CONSTRUCTED \<noteq> 0
                 then if is_string_type (el_tag el) then Some True
                      else case CBS_skip (el_header_len el) (el_out el) of
                             (None, _) \<Rightarrow> None
                           | (Some _, contents) \<Rightarrow>
                               (case cbs_find_ber contents (depth + 1) of
                                  None \<Rightarrow> None
                                | Some True \<Rightarrow> Some True
                                | Some False \<Rightarrow> cbs_find_ber inp' depth)
                 else cbs_find_ber inp' depth)"
  by pat_completeness auto
termination
  by (relation "measure (\<lambda>(inp, depth). length inp)") (auto intro: ber_element_shrinks_sym)

declare cbs_find_ber.simps [simp del]

definition cbs_get_eoc :: "unit get" where
  "cbs_get_eoc cbs
     = (if length cbs \<ge> 2 \<and> cbs ! 0 = 0 \<and> cbs ! 1 = 0 then CBS_skip 2 cbs else (None, cbs))"

text \<open>
  Where the contents of an element with tag \<open>tag\<close> go: the handle and the tag its fragments must have,
  after an element has been opened unless fragments of a string are being joined.
\<close>

definition ber_out_contents :: "env \<Rightarrow> nat \<Rightarrow> CBS_ASN1_TAG \<Rightarrow> CBS_ASN1_TAG \<Rightarrow> cbb
    \<Rightarrow> (nat \<times> CBS_ASN1_TAG) option \<times> cbb" where
  "ber_out_contents E d string_tag tag s
     = (if string_tag \<noteq> 0
        then if tag AND NOT CBS_ASN1_CONSTRUCTED \<noteq> string_tag then (None, s) else (Some (d, string_tag), s)
        else let (out_tag, child_string_tag) =
               (if tag AND CBS_ASN1_CONSTRUCTED \<noteq> 0 \<and> is_string_type tag
                then (tag AND NOT CBS_ASN1_CONSTRUCTED, tag AND NOT CBS_ASN1_CONSTRUCTED)
                else (tag, string_tag)) in
             case CBB_add_asn1 E d out_tag s of
               (False, s) \<Rightarrow> (None, s)
             | (True, s) \<Rightarrow> (Some (Suc d, child_string_tag), s))"

text \<open>
  One round of the loop up to the recursive call: failure with the rest of the input, or what is to be
  converted next, with the input behind the element.
\<close>

datatype ber_round =
  Round_fail bytes cbb
| Round_indefinite nat CBS_ASN1_TAG bytes cbb
| Round_constructed nat CBS_ASN1_TAG bytes bytes cbb
| Round_primitive bytes cbb

definition ber_round :: "env \<Rightarrow> nat \<Rightarrow> CBS_ASN1_TAG \<Rightarrow> bytes \<Rightarrow> cbb \<Rightarrow> ber_round" where
  "ber_round E d string_tag inp s
     = (case CBS_get_any_ber_asn1_element inp of
          (None, inp) \<Rightarrow> Round_fail inp s
        | (Some el, inp) \<Rightarrow>
        (case ber_out_contents E d string_tag (el_tag el) s of
           (None, s) \<Rightarrow> Round_fail inp s
         | (Some (out_contents, child_string_tag), s) \<Rightarrow>
           if el_indefinite el then Round_indefinite out_contents child_string_tag inp s
           else (case CBS_skip (el_header_len el) (el_out el) of
                   (None, _) \<Rightarrow> Round_fail inp s
                 | (Some _, contents) \<Rightarrow>
                     if el_tag el AND CBS_ASN1_CONSTRUCTED \<noteq> 0
                     then Round_constructed out_contents child_string_tag contents inp s
                     else (case CBB_add_bytes E out_contents contents s of
                             (False, s) \<Rightarrow> Round_fail inp s
                           | (True, s) \<Rightarrow> Round_primitive inp s))))"

text \<open>Success, what is left of the input, and the builder.\<close>

function cbs_convert_ber :: "env \<Rightarrow> nat \<Rightarrow> CBS_ASN1_TAG \<Rightarrow> bool \<Rightarrow> nat \<Rightarrow> bytes \<Rightarrow> cbb
    \<Rightarrow> bool \<times> bytes \<times> cbb" where
  "cbs_convert_ber E d string_tag looking_for_eoc depth inp s
     = (if depth > kMaxDepth then (False, inp, s)
        else if length inp = 0 then (\<not> looking_for_eoc, inp, s)
        else if looking_for_eoc \<and> fst (cbs_get_eoc inp) \<noteq> None then (True, snd (cbs_get_eoc inp), s)
        else case ber_round E d string_tag inp s of
               Round_fail inp s \<Rightarrow> (False, inp, s)
             | Round_indefinite out_contents child_string_tag inp s \<Rightarrow>
                 (case cbs_convert_ber E out_contents child_string_tag True (depth + 1) inp s of
                    (False, inp, s) \<Rightarrow> (False, inp, s)
                  | (True, inp, s) \<Rightarrow>
                      (case CBB_flush E d s of
                         (False, s) \<Rightarrow> (False, inp, s)
                       | (True, s) \<Rightarrow> cbs_convert_ber E d string_tag looking_for_eoc depth inp s))
             | Round_constructed out_contents child_string_tag contents inp s \<Rightarrow>
                 (case cbs_convert_ber E out_contents child_string_tag False (depth + 1) contents s of
                    (False, _, s) \<Rightarrow> (False, inp, s)
                  | (True, _, s) \<Rightarrow>
                      (case CBB_flush E d s of
                         (False, s) \<Rightarrow> (False, inp, s)
                       | (True, s) \<Rightarrow> cbs_convert_ber E d string_tag looking_for_eoc depth inp s))
             | Round_primitive inp s \<Rightarrow>
                 (case CBB_flush E d s of
                    (False, s) \<Rightarrow> (False, inp, s)
                  | (True, s) \<Rightarrow> cbs_convert_ber E d string_tag looking_for_eoc depth inp s))"
  by pat_completeness auto

lemma ber_element_fails: "CBS_get_any_ber_asn1_element cbs = (None, rest) \<Longrightarrow> rest = cbs"
  by (auto simp: CBS_get_any_ber_asn1_element_def cbs_get_any_asn1_element_def asn1_take_eq Let_def
      split: prod.splits option.splits if_splits)

lemma ber_round_fail: "ber_round E d t inp s = Round_fail inp' s' \<Longrightarrow> length inp' \<le> length inp"
  by (auto simp: ber_round_def dest!: ber_element_fails dest: ber_element_shrinks less_imp_le
      split: prod.splits option.splits if_splits bool.splits)

lemma ber_round_next:
  "ber_round E d t inp s = Round_indefinite oc ct inp' s' \<Longrightarrow> length inp' < length inp"
  "ber_round E d t inp s = Round_constructed oc ct contents inp' s' \<Longrightarrow> length inp' < length inp"
  "ber_round E d t inp s = Round_constructed oc ct contents inp' s' \<Longrightarrow> length contents < length inp"
  "ber_round E d t inp s = Round_primitive inp' s' \<Longrightarrow> length inp' < length inp"
  by (auto simp: ber_round_def dest: ber_element_shrinks
      split: prod.splits option.splits if_splits bool.splits)

lemma cbs_get_eoc_shrinks: "length (snd (cbs_get_eoc inp)) \<le> length inp"
  by (simp add: cbs_get_eoc_def cbs_simps)

lemma cbs_convert_ber_shrinks:
  "cbs_convert_ber_dom (E, d, t, eoc, depth, inp, s) \<Longrightarrow>
   length (fst (snd (cbs_convert_ber E d t eoc depth inp s))) \<le> length inp"
proof (induction E d t eoc depth inp s rule: cbs_convert_ber.pinduct)
  case (1 E d t eoc depth inp s)
  show ?case
  proof (cases "depth > kMaxDepth \<or> length inp = 0 \<or> eoc \<and> fst (cbs_get_eoc inp) \<noteq> None")
    case True
    then show ?thesis
      using cbs_get_eoc_shrinks [of inp] by (auto simp: cbs_convert_ber.psimps [OF "1.hyps"])
  next
    case False
    then have g: "\<not> depth > kMaxDepth" "\<not> length inp = 0" "\<not> (eoc \<and> fst (cbs_get_eoc inp) \<noteq> None)" by auto
    note ps = cbs_convert_ber.psimps [OF "1.hyps"]
    have after: "length (fst (snd (case CBB_flush E d u of (False, s) \<Rightarrow> (False, j, s)
        | (True, s) \<Rightarrow> cbs_convert_ber E d t eoc depth j s))) \<le> length inp"
      if "\<And>s3. CBB_flush E d u = (True, s3) \<Longrightarrow>
          length (fst (snd (cbs_convert_ber E d t eoc depth j s3))) \<le> length j"
        and "length j \<le> length inp" for j u
      using that by (auto split: prod.split bool.split intro: order_trans)
    show ?thesis
    proof (cases "ber_round E d t inp s")
      case (Round_fail i s1)
      with g ber_round_fail [OF this] show ?thesis by (subst ps) auto
    next
      case (Round_indefinite oc ct i s1)
      note i = ber_round_next(1) [OF this]
      obtain ok i2 s2 where c: "cbs_convert_ber E oc ct True (depth + 1) i s1 = (ok, i2, s2)"
        by (metis prod_cases3)
      have i2: "length i2 \<le> length inp"
        using "1.IH"(1) [OF g Round_indefinite] c i by simp
      show ?thesis
      proof (cases ok)
        case False
        with g Round_indefinite c i2 show ?thesis by (subst ps) auto
      next
        case True
        with c have c': "cbs_convert_ber E oc ct True (depth + 1) i s1 = (True, i2, s2)" by simp
        have "length (fst (snd (cbs_convert_ber E d t eoc depth i2 s3))) \<le> length i2"
          if "CBB_flush E d s2 = (True, s3)" for s3
          using "1.IH"(2) [OF g Round_indefinite, of True "(i2, s2)" i2 s2 True s3] c' that by simp
        from after [where u = s2 and j = i2, OF this i2] show ?thesis
          using g Round_indefinite c' by (subst ps) auto
      qed
    next
      case (Round_constructed oc ct contents i s1)
      note i = ber_round_next(2) [OF this]
      obtain ok i2 s2 where c: "cbs_convert_ber E oc ct False (depth + 1) contents s1 = (ok, i2, s2)"
        by (metis prod_cases3)
      show ?thesis
      proof (cases ok)
        case False
        with g Round_constructed c i show ?thesis by (subst ps) auto
      next
        case True
        with c have c': "cbs_convert_ber E oc ct False (depth + 1) contents s1 = (True, i2, s2)" by simp
        have "length (fst (snd (cbs_convert_ber E d t eoc depth i s3))) \<le> length i"
          if "CBB_flush E d s2 = (True, s3)" for s3
          using "1.IH"(4) [OF g Round_constructed, of True "(i2, s2)" i2 s2 True s3] c' that by simp
        from after [where u = s2 and j = i, OF this less_imp_le [OF i]] show ?thesis
          using g Round_constructed c' by (subst ps) auto
      qed
    next
      case (Round_primitive i s1)
      note i = ber_round_next(4) [OF this]
      have "length (fst (snd (cbs_convert_ber E d t eoc depth i s3))) \<le> length i"
        if "CBB_flush E d s1 = (True, s3)" for s3
        using "1.IH"(5) [OF g Round_primitive, of True s3] that by simp
      from after [where u = s1 and j = i, OF this less_imp_le [OF i]] show ?thesis
        using g Round_primitive by (subst ps) auto
    qed
  qed
qed

termination cbs_convert_ber
proof (relation "measure (\<lambda>(E, d, t, eoc, depth, inp, s). length inp)", goal_cases)
  case (3 E d t eoc depth inp s oc ct i s1 ok y i2 s2)
  then show ?case
    using cbs_convert_ber_shrinks [of E oc ct True "depth + 1" i s1] ber_round_next(1) [of E d t inp s oc ct i s1]
    by (auto simp: prod_eq_iff)
qed (auto dest: ber_round_next)

declare cbs_convert_ber.simps [simp del]

text \<open>The output, with a flag for \<^verbatim>\<open>*out_storage\<close> being a new buffer, and the rest of the input.\<close>

definition CBS_asn1_ber_to_der :: "env \<Rightarrow> bytes \<Rightarrow> (bytes \<times> bool) option \<times> bytes" where
  "CBS_asn1_ber_to_der E inp
     = (case cbs_find_ber inp 0 of
          None \<Rightarrow> (None, inp)
        | Some False \<Rightarrow>
            (case CBS_get_any_asn1_element inp of
               (None, inp) \<Rightarrow> (None, inp)
             | (Some el, inp) \<Rightarrow> (Some (el_out el, False), inp))
        | Some True \<Rightarrow>
            (case CBB_init E (length inp) of
               None \<Rightarrow> (None, inp)
             | Some cbb \<Rightarrow>
                 (case cbs_convert_ber E 0 0 False 0 inp cbb of
                    (False, inp, _) \<Rightarrow> (None, inp)
                  | (True, inp, cbb) \<Rightarrow>
                      (case CBB_finish E 0 False False cbb of
                         (None, _) \<Rightarrow> (None, inp)
                       | (Some (b, n), _) \<Rightarrow> (Some (take n b, True), inp)))))"

lemma CBS_get_asn1_shrinks: "CBS_get_asn1 tag cbs = (Some c, rest) \<Longrightarrow> length rest < length cbs"
  using byte_codec.enc_dec [OF byte_codec_nonempty.axioms(1) [OF asn1_codec]] der_element_nonempty [of tag c]
  by fastforce

lemma CBS_get_asn1_shrinks_sym: "(Some c, rest) = CBS_get_asn1 tag cbs \<Longrightarrow> length rest < length cbs"
  by (metis CBS_get_asn1_shrinks)

function implicit_chunks :: "env \<Rightarrow> CBS_ASN1_TAG \<Rightarrow> bytes \<Rightarrow> cbb_op" where
  "implicit_chunks E inner_tag child result
     = (if length child = 0 then (True, result)
        else case CBS_get_asn1 inner_tag child of
               (None, _) \<Rightarrow> (False, result)
             | (Some chunk, child) \<Rightarrow>
                 (case CBB_add_bytes E 0 chunk result of
                    (False, result) \<Rightarrow> (False, result)
                  | (True, result) \<Rightarrow> implicit_chunks E inner_tag child result))"
  by pat_completeness auto
termination
  by (relation "measure (\<lambda>(E, t, child, r). length child)") (auto intro: CBS_get_asn1_shrinks_sym)

declare implicit_chunks.simps [simp del]

definition CBS_get_asn1_implicit_string :: "env \<Rightarrow> CBS_ASN1_TAG \<Rightarrow> CBS_ASN1_TAG \<Rightarrow> (bytes \<times> bool) get" where
  "CBS_get_asn1_implicit_string E outer_tag inner_tag inp
     = (if CBS_peek_asn1_tag outer_tag inp
        then get_bind (CBS_get_asn1 outer_tag) (\<lambda>out. get_return (out, False)) inp
        else case CBB_init E (length inp) of
               None \<Rightarrow> (None, inp)
             | Some result \<Rightarrow>
                 (case CBS_get_asn1 (outer_tag OR CBS_ASN1_CONSTRUCTED) inp of
                    (None, inp) \<Rightarrow> (None, inp)
                  | (Some child, inp) \<Rightarrow>
                      (case implicit_chunks E inner_tag child result of
                         (False, _) \<Rightarrow> (None, inp)
                       | (True, result) \<Rightarrow>
                           (case CBB_finish E 0 False False result of
                              (None, _) \<Rightarrow> (None, inp)
                            | (Some (data, n), _) \<Rightarrow> (Some (take n data, True), inp)))))"

text \<open>
  \<open>outp\<close> is \<open>None\<close> for a null pointer, \<open>Some None\<close> for a pointer to null (a buffer is handed over), and
  \<open>Some (Some buf)\<close> for a pointer to the caller's buffer; the last result is how far \<^verbatim>\<open>*outp\<close> moves.
\<close>

definition CBB_finish_i2d :: "env \<Rightarrow> bytes option option \<Rightarrow> cbb \<Rightarrow> int \<times> bytes option option \<times> nat" where
  "CBB_finish_i2d E outp s
     = (case CBB_finish E 0 False False s of
          (None, _) \<Rightarrow> (- 1, outp, 0)
        | (Some (der, der_len), _) \<Rightarrow>
            if der_len > INT_MAX then (- 1, outp, 0)
            else (case outp of
                    None \<Rightarrow> (int der_len, None, 0)
                  | Some None \<Rightarrow> (int der_len, Some (Some der), 0)
                  | Some (Some buf) \<Rightarrow>
                      (int der_len, Some (Some (mem_write buf 0 (take der_len der))), der_len)))"

end
