(* ===== verification/Ber_Der.thy ===== *)
theory Ber_Der
  imports Ber
begin

text \<open>
  What the converter of \<^verbatim>\<open>ber.c\<close> computes: BER messages as trees, the form they are converted to, and the
  theorem that the conversion of the bytes of a tree writes that form of the tree.
\<close>

section \<open>BER as trees\<close>

text \<open>
  An element with its tag and the way its length is written: short, in \<open>k\<close> bytes (possibly more than
  needed), or indefinite.
\<close>

datatype length_form = Short | Long nat

datatype ber =
  Primitive CBS_ASN1_TAG length_form bytes
| Definite CBS_ASN1_TAG length_form "ber list"
| Indefinite CBS_ASN1_TAG "ber list"

fun ber_length :: "length_form \<Rightarrow> nat \<Rightarrow> bytes" where
  "ber_length Short n = [word_of_nat n]"
| "ber_length (Long k) n = word_of_nat (128 + k) # be_bytes k n"

fun ber_length_ok :: "length_form \<Rightarrow> nat \<Rightarrow> bool" where
  "ber_length_ok Short n \<longleftrightarrow> n < 128"
| "ber_length_ok (Long k) n \<longleftrightarrow> 0 < k \<and> k \<le> 4 \<and> n < 256 ^ k"

fun ber_bytes :: "ber \<Rightarrow> bytes" where
  "ber_bytes (Primitive t f c) = der_tag t @ ber_length f (length c) @ c"
| "ber_bytes (Definite t f xs)
     = (let c = concat (map ber_bytes xs) in der_tag t @ ber_length f (length c) @ c)"
| "ber_bytes (Indefinite t xs) = der_tag t @ [0x80] @ concat (map ber_bytes xs) @ [0, 0]"

fun ber_tag :: "ber \<Rightarrow> CBS_ASN1_TAG" where
  "ber_tag (Primitive t f c) = t"
| "ber_tag (Definite t f xs) = t"
| "ber_tag (Indefinite t xs) = t"

fun ber_children :: "ber \<Rightarrow> ber list" where
  "ber_children (Primitive t f c) = []"
| "ber_children (Definite t f xs) = xs"
| "ber_children (Indefinite t xs) = xs"

definition base_tag :: "CBS_ASN1_TAG \<Rightarrow> CBS_ASN1_TAG" where
  "base_tag t = t AND NOT CBS_ASN1_CONSTRUCTED"

definition is_constructed :: "CBS_ASN1_TAG \<Rightarrow> bool" where
  "is_constructed t \<longleftrightarrow> t AND CBS_ASN1_CONSTRUCTED \<noteq> 0"

text \<open>
  The universal types of strings that may come in fragments, by their numbers in X.680: OCTET STRING and the character
  strings.  (A constructed BIT STRING is left as it is.)
\<close>

definition joined_string :: "CBS_ASN1_TAG \<Rightarrow> bool" where
  "joined_string t \<longleftrightarrow> base_tag t \<in> {4, 12, 18, 19, 20, 21, 22, 25, 26, 27, 28, 30}"

text \<open>
  What a tree is converted to: all lengths definite and as short as they can be, strings in fragments joined to
  primitive ones, and everything else as it was.  The first argument is the type of the string whose fragments are
  joined, \<open>0\<close> outside of constructed strings.
\<close>

fun definite_form :: "CBS_ASN1_TAG \<Rightarrow> ber \<Rightarrow> bytes" where
  "definite_form st (Primitive t f c) = (if st \<noteq> 0 then c else der_element t c)"
| "definite_form st (Definite t f xs)
     = (if st \<noteq> 0 then concat (map (definite_form st) xs)
        else if joined_string t then der_element (base_tag t) (concat (map (definite_form (base_tag t)) xs))
        else der_element t (concat (map (definite_form 0) xs)))"
| "definite_form st (Indefinite t xs)
     = (if st \<noteq> 0 then concat (map (definite_form st) xs)
        else if joined_string t then der_element (base_tag t) (concat (map (definite_form (base_tag t)) xs))
        else der_element t (concat (map (definite_form 0) xs)))"

text \<open>Trees that are BER: nested at most \<open>n\<close> deep, fragments of one type, outputs within 32 bits.\<close>

fun ber_ok :: "CBS_ASN1_TAG \<Rightarrow> nat \<Rightarrow> ber \<Rightarrow> bool" where
  "ber_ok st n (Primitive t f c) \<longleftrightarrow>
     valid_tag t \<and> \<not> is_constructed t \<and> (st \<noteq> 0 \<longrightarrow> base_tag t = st) \<and>
     ber_length_ok f (length c) \<and> length c \<le> 0xfffffffe"
| "ber_ok st 0 (Definite t f xs) \<longleftrightarrow> False"
| "ber_ok st 0 (Indefinite t xs) \<longleftrightarrow> False"
| "ber_ok st (Suc n) (Definite t f xs) \<longleftrightarrow>
     valid_tag t \<and> is_constructed t \<and> (st \<noteq> 0 \<longrightarrow> base_tag t = st) \<and>
     ber_length_ok f (length (concat (map ber_bytes xs))) \<and>
     (let st' = (if st \<noteq> 0 then st else if joined_string t then base_tag t else 0) in
      length (concat (map (definite_form st') xs)) \<le> 0xfffffffe \<and> list_all (ber_ok st' n) xs)"
| "ber_ok st (Suc n) (Indefinite t xs) \<longleftrightarrow>
     valid_tag t \<and> is_constructed t \<and> (st \<noteq> 0 \<longrightarrow> base_tag t = st) \<and>
     (let st' = (if st \<noteq> 0 then st else if joined_string t then base_tag t else 0) in
      length (concat (map (definite_form st') xs)) \<le> 0xfffffffe \<and> list_all (ber_ok st' n) xs)"

lemma joined_string_code: "joined_string t = is_string_type t"
  unfolding joined_string_def is_string_type_def base_tag_def CBS_ASN1_OCTETSTRING_def CBS_ASN1_UTF8STRING_def
    CBS_ASN1_NUMERICSTRING_def CBS_ASN1_PRINTABLESTRING_def CBS_ASN1_T61STRING_def CBS_ASN1_VIDEOTEXSTRING_def
    CBS_ASN1_IA5STRING_def CBS_ASN1_GRAPHICSTRING_def CBS_ASN1_VISIBLESTRING_def CBS_ASN1_GENERALSTRING_def
    CBS_ASN1_UNIVERSALSTRING_def CBS_ASN1_BMPSTRING_def
  by simp

declare definite_form.simps [simp del] ber_ok.simps [simp del]

lemmas definite_form_code [simp] = definite_form.simps [unfolded joined_string_code]

lemmas ber_ok_code [simp] = ber_ok.simps [unfolded joined_string_code]

lemma string_base_tag: "is_string_type t \<Longrightarrow> base_tag t \<noteq> 0"
  by (auto simp: is_string_type_def base_tag_def CBS_ASN1_OCTETSTRING_def CBS_ASN1_UTF8STRING_def
      CBS_ASN1_NUMERICSTRING_def CBS_ASN1_PRINTABLESTRING_def CBS_ASN1_T61STRING_def
      CBS_ASN1_VIDEOTEXSTRING_def CBS_ASN1_IA5STRING_def CBS_ASN1_GRAPHICSTRING_def
      CBS_ASN1_VISIBLESTRING_def CBS_ASN1_GENERALSTRING_def CBS_ASN1_UNIVERSALSTRING_def CBS_ASN1_BMPSTRING_def)

section \<open>Reading a BER element\<close>

lemma parse_ber_definite:
  assumes t: "valid_tag t" and f: "ber_length_ok f (length c)"
  shows "\<exists>bf. CBS_get_any_ber_asn1_element (der_tag t @ ber_length f (length c) @ c @ rest)
     = (Some \<lparr>el_out = der_tag t @ ber_length f (length c) @ c, el_tag = t,
          el_header_len = length (der_tag t @ ber_length f (length c)), el_ber_found = bf,
          el_indefinite = False\<rparr>, rest)"
proof -
  let ?n = "length c" and ?cbs = "der_tag t @ ber_length f (length c) @ c @ rest"
  have p: "parse_asn1_tag ?cbs = (Some t, ber_length f ?n @ c @ rest)"
    using t parse_der_tag [of t "ber_length f ?n @ c @ rest"] by simp
  show ?thesis
  proof (cases f)
    case Short
    define lb where "lb = (word_of_nat ?n :: u8)"
    have lb: "unat lb = ?n" unfolding lb_def by (rule byte_exhaust_nat) (use f Short in simp)
    have z: "lb AND 0x80 = 0" using f Short lb by (simp add: byte_bit7_zero)
    have bl: "ber_length f ?n = [lb]" by (simp add: Short lb_def)
    show ?thesis
      unfolding CBS_get_any_ber_asn1_element_def cbs_get_any_asn1_element_def bl append_Cons append_Nil
        p [unfolded bl append_Cons append_Nil]
      by (intro exI [of _ False]) (simp add: Let_def z lb asn1_take_eq)
  next
    case (Long k)
    define lb where "lb = (word_of_nat (128 + k) :: u8)"
    have k: "0 < k" "k \<le> 4" "?n < 256 ^ k" using f Long by simp_all
    have n: "?n < 2 ^ 32" using k(3) pow256_le [of k 32] k(2) by simp
    have lb: "unat lb = 128 + k" unfolding lb_def by (rule byte_exhaust_nat) (use k in simp)
    have bl: "ber_length f ?n = lb # be_bytes k ?n" by (simp add: Long lb_def)
    have top: "lb AND 0x80 \<noteq> 0" unfolding byte_bit7 lb by simp
    have low: "unat (lb AND 0x7f) = k" using k by (simp add: byte_low7 lb)
    define w where "w = (word_of_nat ?n :: u64)"
    have w: "unat w = ?n" using n by (simp add: w_def unat_of_nat)
    have u: "cbs_get_u k (be_bytes k ?n @ c @ rest) = (Some w, c @ rest)"
      using k by (simp add: cbs_get_u_be_bytes w_def)
    show ?thesis
      using n k length_der_tag(2) [of t]
      unfolding CBS_get_any_ber_asn1_element_def cbs_get_any_asn1_element_def bl append_Cons append_Nil
        p [unfolded bl append_Cons append_Nil]
      by (simp add: Let_def top low u w asn1_take_eq)
  qed
qed

lemma parse_ber_indefinite:
  assumes t: "valid_tag t" "is_constructed t"
  shows "CBS_get_any_ber_asn1_element (der_tag t @ 0x80 # rest)
     = (Some \<lparr>el_out = der_tag t @ [0x80], el_tag = t, el_header_len = length (der_tag t) + 1,
          el_ber_found = True, el_indefinite = True\<rparr>, rest)"
proof -
  have p: "parse_asn1_tag (der_tag t @ 0x80 # rest) = (Some t, 0x80 # rest)"
    using t(1) by (rule parse_der_tag)
  show ?thesis
    using t(2) unfolding CBS_get_any_ber_asn1_element_def cbs_get_any_asn1_element_def p
    by (simp add: Let_def asn1_take_eq is_constructed_def)
qed

text \<open>No element starts like the end-of-contents mark.\<close>

lemma no_eoc:
  assumes "valid_tag t"
  shows "fst (cbs_get_eoc (der_tag t @ rest)) = None"
proof -
  have "der_tag t \<noteq> []" using length_der_tag(1) [of t] by auto
  then obtain b bs where b: "der_tag t = b # bs" by (cases "der_tag t") auto
  have "parse_asn1_tag (b # bs) = (Some t, [])"
    using parse_der_tag [OF assms, of "[]"] b by simp
  moreover have "parse_asn1_tag (0 # bs) \<noteq> (Some t, [])"
    by (simp add: parse_asn1_tag_Cons tag_make_def valid_tag_def)
  ultimately have "b \<noteq> 0" by auto
  then show ?thesis by (simp add: cbs_get_eoc_def b)
qed

section \<open>The conversion of a tree\<close>

text \<open>The call runs like \<open>P\<close> on the builder and goes on behind \<open>inp\<close>.\<close>

definition converts :: "env \<Rightarrow> nat \<Rightarrow> CBS_ASN1_TAG \<Rightarrow> bool \<Rightarrow> nat \<Rightarrow> bytes \<Rightarrow> cbb_op \<Rightarrow> bool" where
  "converts E d st eoc depth inp P \<longleftrightarrow>
     (\<forall>s rst ok s1. cbb_wf s \<and> \<not> cbb_error s \<and> length (cbb_children s) = d \<and> P s = (ok, s1) \<longrightarrow>
        (if ok
         then cbs_convert_ber E d st eoc depth (inp @ rst) s = cbs_convert_ber E d st eoc depth rst s1
         else \<exists>i. cbs_convert_ber E d st eoc depth (inp @ rst) s = (False, i, s1)))"

lemma convertsD:
  assumes "converts E d st eoc depth inp P" "cbb_wf s" "\<not> cbb_error s" "length (cbb_children s) = d"
  shows "P s = (True, s1) \<Longrightarrow>
      cbs_convert_ber E d st eoc depth (inp @ rst) s = cbs_convert_ber E d st eoc depth rst s1"
    "P s = (False, s1) \<Longrightarrow> \<exists>i. cbs_convert_ber E d st eoc depth (inp @ rst) s = (False, i, s1)"
  using assms unfolding converts_def by (metis (full_types))+

lemma converts_Nil: "converts E d st eoc depth [] cbb_true"
  by (simp add: converts_def cbb_true_def)

lemma converts_append:
  assumes "converts E d st eoc depth xs P" "writes E d P bs" "converts E d st eoc depth ys Q"
  shows "converts E d st eoc depth (xs @ ys) (cbb_and P Q)"
  unfolding converts_def
proof (intro allI impI, elim conjE)
  fix s rst ok s1
  assume s: "cbb_wf s" "\<not> cbb_error s" "length (cbb_children s) = d" and r: "cbb_and P Q s = (ok, s1)"
  obtain ok' s' where p: "P s = (ok', s')" by (cases "P s")
  show "if ok
         then cbs_convert_ber E d st eoc depth ((xs @ ys) @ rst) s = cbs_convert_ber E d st eoc depth rst s1
         else \<exists>i. cbs_convert_ber E d st eoc depth ((xs @ ys) @ rst) s = (False, i, s1)"
  proof (cases ok')
    case True
    with p have p: "P s = (True, s')" by simp
    note w = writes_True [OF assms(2) s p]
    have "length (cbb_children s') = d" using w(3) s(3) by simp
    note d = convertsD [OF assms(3) w(1,2) this]
    from r p have q: "Q s' = (ok, s1)" by (simp add: cbb_and_def)
    have "cbs_convert_ber E d st eoc depth (xs @ (ys @ rst)) s = cbs_convert_ber E d st eoc depth (ys @ rst) s'"
      by (rule convertsD(1) [OF assms(1) s p])
    with d(1) [of s1 rst] d(2) [of s1 rst] q show ?thesis by (cases ok) simp_all
  next
    case False
    with p r have "P s = (False, s1)" "\<not> ok" by (auto simp: cbb_and_def)
    with convertsD(2) [OF assms(1) s, of s1 "ys @ rst"] show ?thesis by simp
  qed
qed

lemma converts_concat:
  assumes "\<And>x. x \<in> set xs \<Longrightarrow> \<exists>P. writes E d P (g x) \<and> (\<forall>eoc. converts E d st eoc depth (f x) P)"
  shows "\<exists>P. writes E d P (concat (map g xs)) \<and> (\<forall>eoc. converts E d st eoc depth (concat (map f xs)) P)"
  using assms
proof (induction xs)
  case Nil
  show ?case by (auto intro!: exI [of _ cbb_true] converts_Nil writes_true)
next
  case (Cons x xs)
  obtain P where p: "writes E d P (g x)" "\<And>eoc. converts E d st eoc depth (f x) P"
    using Cons.prems [of x] by auto
  obtain Q where q: "writes E d Q (concat (map g xs))" "\<And>eoc. converts E d st eoc depth (concat (map f xs)) Q"
    using Cons.IH Cons.prems by auto
  show ?case using writes_and [OF p(1) q(1)] converts_append [OF p(2,1) q(2)] by auto
qed

text \<open>The ends of the loop.\<close>

lemma convert_end:
  "depth \<le> 128 \<Longrightarrow> cbs_convert_ber E d st False depth [] s = (True, [], s)"
  "depth \<le> 128 \<Longrightarrow> cbs_convert_ber E d st True depth ([0, 0] @ rst) s = (True, rst, s)"
  by (simp_all add: cbs_convert_ber.simps [of _ _ _ _ depth] kMaxDepth_def cbs_get_eoc_def cbs_simps)

lemma convert_start:
  assumes "depth \<le> 128" "valid_tag t"
  shows "cbs_convert_ber E d st eoc depth (der_tag t @ inp) s =
     (case ber_round E d st (der_tag t @ inp) s of
               Round_fail inp s \<Rightarrow> (False, inp, s)
             | Round_indefinite out_contents child_string_tag inp s \<Rightarrow>
                 (case cbs_convert_ber E out_contents child_string_tag True (depth + 1) inp s of
                    (False, inp, s) \<Rightarrow> (False, inp, s)
                  | (True, inp, s) \<Rightarrow>
                      (case CBB_flush E d s of
                         (False, s) \<Rightarrow> (False, inp, s)
                       | (True, s) \<Rightarrow> cbs_convert_ber E d st eoc depth inp s))
             | Round_constructed out_contents child_string_tag contents inp s \<Rightarrow>
                 (case cbs_convert_ber E out_contents child_string_tag False (depth + 1) contents s of
                    (False, _, s) \<Rightarrow> (False, inp, s)
                  | (True, _, s) \<Rightarrow>
                      (case CBB_flush E d s of
                         (False, s) \<Rightarrow> (False, inp, s)
                       | (True, s) \<Rightarrow> cbs_convert_ber E d st eoc depth inp s))
             | Round_primitive inp s \<Rightarrow>
                 (case CBB_flush E d s of
                    (False, s) \<Rightarrow> (False, inp, s)
                  | (True, s) \<Rightarrow> cbs_convert_ber E d st eoc depth inp s))"
proof -
  have "der_tag t \<noteq> []" using length_der_tag(1) [of t] by auto
  with assms no_eoc [OF assms(2), of inp] show ?thesis
    by (subst cbs_convert_ber.simps) (simp add: kMaxDepth_def)
qed

text \<open>Opening an element, or staying in the string that is being joined.\<close>

definition ber_open :: "env \<Rightarrow> nat \<Rightarrow> CBS_ASN1_TAG \<Rightarrow> CBS_ASN1_TAG \<Rightarrow> cbb_op" where
  "ber_open E d st t
     = (if st \<noteq> 0 then cbb_true
        else CBB_add_asn1 E d (if is_constructed t \<and> is_string_type t then base_tag t else t))"

definition ber_child_string :: "CBS_ASN1_TAG \<Rightarrow> CBS_ASN1_TAG \<Rightarrow> CBS_ASN1_TAG" where
  "ber_child_string st t
     = (if st \<noteq> 0 then st else if is_constructed t \<and> is_string_type t then base_tag t else 0)"

lemma ber_out_contents_eq:
  assumes "st \<noteq> 0 \<longrightarrow> base_tag t = st"
  shows "ber_out_contents E d st t s = (case ber_open E d st t s of (ok, s1) \<Rightarrow>
     if ok then (Some (if st \<noteq> 0 then d else Suc d, ber_child_string st t), s1) else (None, s1))"
  using assms
  by (auto simp: ber_out_contents_def ber_open_def ber_child_string_def base_tag_def is_constructed_def
      cbb_true_def split: prod.split bool.split)


lemma ber_open_True:
  assumes "cbb_wf s" "\<not> cbb_error s" "length (cbb_children s) = d" "ber_open E d st t s = (True, s1)"
  shows "cbb_wf s1" "\<not> cbb_error s1" "length (cbb_children s1) = (if st \<noteq> 0 then d else Suc d)"
  using assms opens_CBB_add_asn1 [of E d "if is_constructed t \<and> is_string_type t then base_tag t else t",
      unfolded opens_def, rule_format, of s True s1]
  by (auto simp: ber_open_def cbb_true_def split: if_splits)

lemma ber_der_parts:
  assumes "st \<noteq> 0 \<longrightarrow> base_tag t = st" "is_constructed t"
  shows "definite_form st (Definite t f xs) = definite_form st (Indefinite t xs)"
    "length (concat (map (definite_form (ber_child_string st t)) xs)) \<le> 0xfffffffe \<Longrightarrow>
     writes E (if st \<noteq> 0 then d else Suc d) q (concat (map (definite_form (ber_child_string st t)) xs)) \<Longrightarrow>
     writes E d (cbb_and (ber_open E d st t) (cbb_and q (CBB_flush E d))) (definite_form st (Indefinite t xs))"
proof -
  show "definite_form st (Definite t f xs) = definite_form st (Indefinite t xs)" by simp
  assume l: "length (concat (map (definite_form (ber_child_string st t)) xs)) \<le> 0xfffffffe"
    and q: "writes E (if st \<noteq> 0 then d else Suc d) q (concat (map (definite_form (ber_child_string st t)) xs))"
  show "writes E d (cbb_and (ber_open E d st t) (cbb_and q (CBB_flush E d))) (definite_form st (Indefinite t xs))"
  proof (cases "st = 0")
    case True
    with q have "writes E (Suc d) q (concat (map (definite_form (ber_child_string st t)) xs))" by simp
    from writes_element [OF l this, of "if is_string_type t then base_tag t else t"] True assms
    show ?thesis by (auto simp: ber_open_def ber_child_string_def)
  next
    case False
    with q have "writes E d q (concat (map (definite_form st) xs))" by (simp add: ber_child_string_def)
    from writes_and [OF writes_true writes_and [OF this writes_flush]] False
    show ?thesis by (simp add: ber_open_def)
  qed
qed

lemma ber_der_primitive:
  assumes "\<not> is_constructed t" "length c \<le> 0xfffffffe"
  shows "writes E d (cbb_and (ber_open E d st t)
     (cbb_and (CBB_add_bytes E (if st \<noteq> 0 then d else Suc d) c) (CBB_flush E d))) (definite_form st (Primitive t f c))"
proof -
  have c: "length c < size_bound" using assms(2) by simp
  show ?thesis
  proof (cases "st = 0")
    case True
    with writes_element [OF assms(2) writes_CBB_add_bytes [OF c], of E d t] assms(1)
    show ?thesis by (simp add: ber_open_def)
  next
    case False
    with writes_and [OF writes_true writes_and [OF writes_CBB_add_bytes [OF c] writes_flush]]
    show ?thesis by (simp add: ber_open_def)
  qed
qed


text \<open>One round on the bytes of an element.\<close>

lemma ber_round_primitive:
  assumes "valid_tag t" "\<not> is_constructed t" "st \<noteq> 0 \<longrightarrow> base_tag t = st" "ber_length_ok f (length c)"
  shows "ber_round E d st (der_tag t @ ber_length f (length c) @ c @ rst) s =
     (case ber_open E d st t s of
        (False, s) \<Rightarrow> Round_fail rst s
      | (True, s) \<Rightarrow> (case CBB_add_bytes E (if st \<noteq> 0 then d else Suc d) c s of
                      (False, s) \<Rightarrow> Round_fail rst s
                    | (True, s) \<Rightarrow> Round_primitive rst s))"
proof -
  obtain bf where "CBS_get_any_ber_asn1_element (der_tag t @ ber_length f (length c) @ c @ rst)
     = (Some \<lparr>el_out = der_tag t @ ber_length f (length c) @ c, el_tag = t,
          el_header_len = length (der_tag t @ ber_length f (length c)), el_ber_found = bf,
          el_indefinite = False\<rparr>, rst)"
    using parse_ber_definite [OF assms(1,4)] by blast
  with assms(2) show ?thesis
    unfolding ber_round_def
    by (simp add: ber_out_contents_eq [OF assms(3)] cbs_simps is_constructed_def split: prod.split bool.split)
qed

lemma ber_round_definite:
  assumes "valid_tag t" "is_constructed t" "st \<noteq> 0 \<longrightarrow> base_tag t = st" "ber_length_ok f (length c)"
  shows "ber_round E d st (der_tag t @ ber_length f (length c) @ c @ rst) s =
     (case ber_open E d st t s of
        (False, s) \<Rightarrow> Round_fail rst s
      | (True, s) \<Rightarrow> Round_constructed (if st \<noteq> 0 then d else Suc d) (ber_child_string st t) c rst s)"
proof -
  obtain bf where "CBS_get_any_ber_asn1_element (der_tag t @ ber_length f (length c) @ c @ rst)
     = (Some \<lparr>el_out = der_tag t @ ber_length f (length c) @ c, el_tag = t,
          el_header_len = length (der_tag t @ ber_length f (length c)), el_ber_found = bf,
          el_indefinite = False\<rparr>, rst)"
    using parse_ber_definite [OF assms(1,4)] by blast
  with assms(2) show ?thesis
    unfolding ber_round_def
    by (simp add: ber_out_contents_eq [OF assms(3)] cbs_simps is_constructed_def split: prod.split bool.split)
qed

lemma ber_round_indefinite:
  assumes "valid_tag t" "is_constructed t" "st \<noteq> 0 \<longrightarrow> base_tag t = st"
  shows "ber_round E d st (der_tag t @ 0x80 # rst) s =
     (case ber_open E d st t s of
        (False, s) \<Rightarrow> Round_fail rst s
      | (True, s) \<Rightarrow> Round_indefinite (if st \<noteq> 0 then d else Suc d) (ber_child_string st t) rst s)"
  unfolding ber_round_def
  by (simp add: parse_ber_indefinite [OF assms(1,2)] ber_out_contents_eq [OF assms(3)] split: prod.split bool.split)

lemma converts_primitive:
  assumes "depth \<le> 128" "valid_tag t" "\<not> is_constructed t" "st \<noteq> 0 \<longrightarrow> base_tag t = st"
    "ber_length_ok f (length c)"
  shows "converts E d st eoc depth (ber_bytes (Primitive t f c)) (cbb_and (ber_open E d st t)
     (cbb_and (CBB_add_bytes E (if st \<noteq> 0 then d else Suc d) c) (CBB_flush E d)))"
  unfolding converts_def ber_bytes.simps append_assoc convert_start [OF assms(1,2)]
    ber_round_primitive [OF assms(2-5)] cbb_and_def
  by (auto split: prod.split bool.split)

lemma converts_constructed:
  assumes "depth + 1 \<le> 128" "valid_tag t" "is_constructed t" "st \<noteq> 0 \<longrightarrow> base_tag t = st"
    and q: "\<And>eoc. converts E (if st \<noteq> 0 then d else Suc d) (ber_child_string st t) eoc (depth + 1) c q"
      "writes E (if st \<noteq> 0 then d else Suc d) q bs"
  shows "converts E d st eoc depth (der_tag t @ [0x80] @ c @ [0, 0])
       (cbb_and (ber_open E d st t) (cbb_and q (CBB_flush E d)))"
    "ber_length_ok f (length c) \<Longrightarrow> converts E d st eoc depth (der_tag t @ ber_length f (length c) @ c)
       (cbb_and (ber_open E d st t) (cbb_and q (CBB_flush E d)))"
proof -
  let ?d = "if st \<noteq> 0 then d else Suc d" and ?st = "ber_child_string st t"
  have dep: "depth \<le> 128" using assms(1) by simp
  have child: "(\<exists>s2. q s1 = (True, s2) \<and> cbs_convert_ber E ?d ?st True (depth + 1) (c @ 0 # 0 # rst) s1 = (True, rst, s2)
        \<and> cbs_convert_ber E ?d ?st False (depth + 1) c s1 = (True, [], s2)) \<or>
      (\<exists>s2 i j. q s1 = (False, s2) \<and> cbs_convert_ber E ?d ?st True (depth + 1) (c @ 0 # 0 # rst) s1 = (False, i, s2)
        \<and> cbs_convert_ber E ?d ?st False (depth + 1) c s1 = (False, j, s2))"
    if "cbb_wf s" "\<not> cbb_error s" "length (cbb_children s) = d" "ber_open E d st t s = (True, s1)" for s s1 rst
  proof -
    note o = ber_open_True [OF that]
    note T = convertsD [OF q(1) [of True] o] and F = convertsD [OF q(1) [of False] o]
    obtain ok s2 where r: "q s1 = (ok, s2)" by (cases "q s1")
    show ?thesis
    proof (cases ok)
      case True
      with r have r: "q s1 = (True, s2)" by simp
      from T(1) [OF r, of "0 # 0 # rst"] F(1) [OF r, of "[]"] r convert_end [OF assms(1)] show ?thesis by auto
    next
      case False
      with r have r: "q s1 = (False, s2)" by simp
      from T(2) [OF r, of "0 # 0 # rst"] F(2) [OF r, of "[]"] r show ?thesis by auto
    qed
  qed
  show "converts E d st eoc depth (der_tag t @ [0x80] @ c @ [0, 0])
       (cbb_and (ber_open E d st t) (cbb_and q (CBB_flush E d)))"
    unfolding converts_def
  proof (intro allI impI, elim conjE)
    fix s rst ok s'
    assume s: "cbb_wf s" "\<not> cbb_error s" "length (cbb_children s) = d"
      and r: "cbb_and (ber_open E d st t) (cbb_and q (CBB_flush E d)) s = (ok, s')"
    obtain ok1 s1 where p: "ber_open E d st t s = (ok1, s1)" by (cases "ber_open E d st t s")
    show "if ok
         then cbs_convert_ber E d st eoc depth ((der_tag t @ [0x80] @ c @ [0, 0]) @ rst) s
            = cbs_convert_ber E d st eoc depth rst s'
         else \<exists>i. cbs_convert_ber E d st eoc depth ((der_tag t @ [0x80] @ c @ [0, 0]) @ rst) s = (False, i, s')"
      using r p child [OF s, of s1 rst]
      unfolding append_assoc append_Cons append_Nil convert_start [OF dep assms(2)] ber_round_indefinite [OF assms(2-4)] cbb_and_def
      by (cases ok1) (auto split: prod.splits bool.splits)
  qed
  show "converts E d st eoc depth (der_tag t @ ber_length f (length c) @ c)
       (cbb_and (ber_open E d st t) (cbb_and q (CBB_flush E d)))" if f: "ber_length_ok f (length c)"
    unfolding converts_def
  proof (intro allI impI, elim conjE)
    fix s rst ok s'
    assume s: "cbb_wf s" "\<not> cbb_error s" "length (cbb_children s) = d"
      and r: "cbb_and (ber_open E d st t) (cbb_and q (CBB_flush E d)) s = (ok, s')"
    obtain ok1 s1 where p: "ber_open E d st t s = (ok1, s1)" by (cases "ber_open E d st t s")
    show "if ok
         then cbs_convert_ber E d st eoc depth ((der_tag t @ ber_length f (length c) @ c) @ rst) s
            = cbs_convert_ber E d st eoc depth rst s'
         else \<exists>i. cbs_convert_ber E d st eoc depth ((der_tag t @ ber_length f (length c) @ c) @ rst) s = (False, i, s')"
      using r p child [OF s, of s1 rst]
      unfolding append_assoc append_Cons append_Nil convert_start [OF dep assms(2)] ber_round_definite [OF assms(2-4) f] cbb_and_def
      by (cases ok1) (auto split: prod.splits bool.splits)
  qed
qed


lemma ber_child_string_eq:
  "is_constructed t \<Longrightarrow> (if st \<noteq> 0 then st else if is_string_type t then base_tag t else 0) = ber_child_string st t"
  by (simp add: ber_child_string_def)

lemma converts_ber:
  "ber_ok st n x \<Longrightarrow> depth + n \<le> 128 \<Longrightarrow>
   \<exists>P. writes E d P (definite_form st x) \<and> (\<forall>eoc. converts E d st eoc depth (ber_bytes x) P)"
proof (induction x arbitrary: st n depth d)
  case (Primitive t f c)
  then show ?case
    using converts_primitive [of depth t st f c E d] ber_der_primitive [of t c E d st f] by auto
next
  case (Definite t f xs)
  then obtain m where n: "n = Suc m" by (cases n) simp_all
  let ?st = "ber_child_string st t"
  have t: "valid_tag t" "is_constructed t" "st \<noteq> 0 \<longrightarrow> base_tag t = st"
    "ber_length_ok f (length (concat (map ber_bytes xs)))"
    "length (concat (map (definite_form ?st) xs)) \<le> 0xfffffffe" "list_all (ber_ok ?st m) xs"
    using Definite.prems(1) by (auto simp: n Let_def ber_child_string_def split: if_splits)
  have "\<exists>q. writes E (if st \<noteq> 0 then d else Suc d) q (concat (map (definite_form ?st) xs)) \<and>
      (\<forall>eoc. converts E (if st \<noteq> 0 then d else Suc d) ?st eoc (depth + 1) (concat (map ber_bytes xs)) q)"
    by (rule converts_concat) (use Definite.IH t(6) Definite.prems(2) n in \<open>auto simp: list_all_iff\<close>)
  then obtain q where q: "writes E (if st \<noteq> 0 then d else Suc d) q (concat (map (definite_form ?st) xs))"
    "\<And>eoc. converts E (if st \<noteq> 0 then d else Suc d) ?st eoc (depth + 1) (concat (map ber_bytes xs)) q" by blast
  have d: "depth + 1 \<le> 128" using Definite.prems(2) n by simp
  show ?case
    using converts_constructed(2) [OF d t(1-3) q(2,1) t(4)] ber_der_parts(2) [OF t(3,2,5) q(1)]
    unfolding ber_der_parts(1) [OF t(3,2)] ber_bytes.simps Let_def by blast
next
  case (Indefinite t xs)
  then obtain m where n: "n = Suc m" by (cases n) simp_all
  let ?st = "ber_child_string st t"
  have t: "valid_tag t" "is_constructed t" "st \<noteq> 0 \<longrightarrow> base_tag t = st"
    "length (concat (map (definite_form ?st) xs)) \<le> 0xfffffffe" "list_all (ber_ok ?st m) xs"
    using Indefinite.prems(1) by (auto simp: n Let_def ber_child_string_def split: if_splits)
  have "\<exists>q. writes E (if st \<noteq> 0 then d else Suc d) q (concat (map (definite_form ?st) xs)) \<and>
      (\<forall>eoc. converts E (if st \<noteq> 0 then d else Suc d) ?st eoc (depth + 1) (concat (map ber_bytes xs)) q)"
    by (rule converts_concat) (use Indefinite.IH t(5) Indefinite.prems(2) n in \<open>auto simp: list_all_iff\<close>)
  then obtain q where q: "writes E (if st \<noteq> 0 then d else Suc d) q (concat (map (definite_form ?st) xs))"
    "\<And>eoc. converts E (if st \<noteq> 0 then d else Suc d) ?st eoc (depth + 1) (concat (map ber_bytes xs)) q" by blast
  have d: "depth + 1 \<le> 128" using Indefinite.prems(2) n by simp
  show ?case
    using converts_constructed(1) [OF d t(1-3) q(2,1)] ber_der_parts(2) [OF t(3,2,4) q(1)]
    unfolding ber_bytes.simps by blast
qed

end
