(* ===== verification/Ber_Find.thy ===== *)
theory Ber_Find
  imports Ber_Der Cbb_Tree
begin

text \<open>
  When \<^verbatim>\<open>ber.c\<close> converts at all: \<^verbatim>\<open>cbs_find_ber\<close> recognises the trees that need no conversion.  With the
  conversion of a tree this gives the behaviour of \<^verbatim>\<open>CBS_asn1_ber_to_der\<close> on every BER message.
\<close>

section \<open>Trees that need no conversion\<close>

text \<open>All lengths definite and as short as they can be, no strings in fragments.\<close>

fun in_definite_form :: "ber \<Rightarrow> bool" where
  "in_definite_form (Primitive t f c) \<longleftrightarrow> ber_length f (length c) = der_length (length c)"
| "in_definite_form (Definite t f xs) \<longleftrightarrow> \<not> joined_string t \<and>
     ber_length f (length (concat (map ber_bytes xs))) = der_length (length (concat (map ber_bytes xs))) \<and>
     list_all in_definite_form xs"
| "in_definite_form (Indefinite t xs) \<longleftrightarrow> False"

declare in_definite_form.simps [simp del]

lemmas in_definite_form_code [simp] = in_definite_form.simps [unfolded joined_string_code]


text \<open>The two parsers agree on what is DER.\<close>

lemma asn1_take_ber: "asn1_take t n hl bf ind cbs = (Some el, rest) \<Longrightarrow> el_ber_found el = bf"
  by (auto simp: asn1_take_eq split: if_splits)

lemma strict_is_ber:
  assumes "CBS_get_any_asn1_element cbs = (Some el, rest)"
  shows "CBS_get_any_ber_asn1_element cbs = (Some el, rest)"
  using assms
  by (auto simp: CBS_get_any_asn1_element_def CBS_get_any_ber_asn1_element_def cbs_get_any_asn1_element_def Let_def
      split: prod.splits option.splits if_splits)

lemma ber_is_strict:
  assumes "CBS_get_any_ber_asn1_element cbs = (Some el, rest)" "\<not> el_ber_found el"
  shows "CBS_get_any_asn1_element cbs = (Some el, rest)"
  using assms
  by (auto simp: CBS_get_any_asn1_element_def CBS_get_any_ber_asn1_element_def cbs_get_any_asn1_element_def Let_def
      dest: asn1_take_ber split: prod.splits option.splits if_splits)

lemma parse_ber_found:
  assumes t: "valid_tag t" and f: "ber_length_ok f (length c)"
  shows "CBS_get_any_ber_asn1_element (der_tag t @ ber_length f (length c) @ c @ rest)
     = (Some \<lparr>el_out = der_tag t @ ber_length f (length c) @ c, el_tag = t,
          el_header_len = length (der_tag t @ ber_length f (length c)),
          el_ber_found = (ber_length f (length c) \<noteq> der_length (length c)),
          el_indefinite = False\<rparr>, rest)"
proof -
  let ?cbs = "der_tag t @ ber_length f (length c) @ c @ rest"
  obtain bf where p: "CBS_get_any_ber_asn1_element ?cbs
     = (Some \<lparr>el_out = der_tag t @ ber_length f (length c) @ c, el_tag = t,
          el_header_len = length (der_tag t @ ber_length f (length c)), el_ber_found = bf,
          el_indefinite = False\<rparr>, rest)" (is "_ = (Some ?el, _)")
    using parse_ber_definite [OF assms] by blast
  have "length c < 2 ^ 32"
  proof (cases f)
    case (Long k)
    with f pow256_le [of k 32] show ?thesis by simp
  qed (use f in simp)
  then have v: "valid_element t c" using t by (simp add: valid_element_def)
  have "bf \<longleftrightarrow> ber_length f (length c) \<noteq> der_length (length c)"
  proof (rule iffI)
    assume bf: "bf"
    show "ber_length f (length c) \<noteq> der_length (length c)"
    proof
      assume "ber_length f (length c) = der_length (length c)"
      then have "?cbs = der_element t c @ rest" by (simp add: der_element_def der_header_def)
      with strict_is_ber [OF parse_der_element [OF v, of rest]] p bf
      show False by (simp add: der_record_def)
    qed
  next
    assume ne: "ber_length f (length c) \<noteq> der_length (length c)"
    show bf
    proof (rule ccontr)
      assume "\<not> bf"
      with ber_is_strict [OF p] obtain tag c' where "?el = der_record tag c'" "?cbs = der_element tag c' @ rest"
        using parse_element_sound by fastforce
      then have e: "tag = t" "der_tag t @ ber_length f (length c) @ c = der_tag tag @ der_length (length c') @ c'"
        "length (der_tag t @ ber_length f (length c)) = length (der_tag tag @ der_length (length c'))"
        by (auto simp: der_record_def der_element_def der_header_def)
      have "ber_length f (length c) @ c = der_length (length c') @ c'" using e(2) by (simp add: e(1))
      moreover have "length (ber_length f (length c)) = length (der_length (length c'))" using e(3) by (simp add: e(1))
      ultimately have "ber_length f (length c) = der_length (length c')" "c = c'" by (metis append_eq_append_conv)+
      with ne show False by simp
    qed
  qed
  with p show ?thesis by simp
qed

lemma der_tag_nonempty [simp]: "der_tag t \<noteq> []"
  using length_der_tag(1) [of t] by auto

lemma ber_bytes_nonempty: "ber_bytes x \<noteq> []"
  by (cases x) (auto simp: Let_def)

lemma find_ber_concat:
  "list_all (ber_ok 0 n) xs \<Longrightarrow> depth + n \<le> 128 \<Longrightarrow>
   cbs_find_ber (concat (map ber_bytes xs)) depth = Some (\<not> list_all in_definite_form xs)"
proof (induction n arbitrary: xs depth rule: less_induct)
  case (less n)
  have dep: "\<not> depth > kMaxDepth" using less.prems(2) by (simp add: kMaxDepth_def)
  from less.prems(1) show ?case
  proof (induction xs)
    case Nil
    show ?case using dep by (simp add: cbs_find_ber.simps)
  next
    case (Cons x xs)
    then have x: "ber_ok 0 n x"
      and tl: "cbs_find_ber (concat (map ber_bytes xs)) depth = Some (\<not> list_all in_definite_form xs)" by simp_all
    let ?r = "concat (map ber_bytes xs)"
    have ne: "length (ber_bytes x @ ?r) \<noteq> 0" using ber_bytes_nonempty by simp
    note unf = cbs_find_ber.simps [of "ber_bytes x @ ?r" depth]
    have "cbs_find_ber (ber_bytes x @ ?r) depth = Some (\<not> (in_definite_form x \<and> list_all in_definite_form xs))"
    proof (cases x)
      case (Primitive t f c)
      with x have "valid_tag t" "\<not> is_constructed t" "ber_length_ok f (length c)" by simp_all
      with parse_ber_found [of t f c ?r] tl dep ne Primitive show ?thesis
        by (subst unf) (simp add: is_constructed_def)
    next
      case (Indefinite t ys)
      with x have "valid_tag t" "is_constructed t" by (cases n; simp)+
      with parse_ber_indefinite [of t "concat (map ber_bytes ys) @ [0, 0] @ ?r"] dep ne Indefinite show ?thesis
        by (subst unf) simp
    next
      case (Definite t f ys)
      with x obtain m where n: "n = Suc m" by (cases n) simp_all
      let ?c = "concat (map ber_bytes ys)"
      from x Definite n have t: "valid_tag t" "is_constructed t" "ber_length_ok f (length ?c)"
        "\<not> is_string_type t \<Longrightarrow> list_all (ber_ok 0 m) ys" by (auto simp: Let_def)
      have sub: "cbs_find_ber ?c (depth + 1) = Some (\<not> list_all in_definite_form ys)" if "\<not> is_string_type t"
        using less.IH [of m ys "depth + 1"] t(4) [OF that] n less.prems(2) by simp
      show ?thesis
        using parse_ber_found [OF t(1,3), of ?r] t(2) tl sub dep ne
        by (subst unf) (auto simp: Definite Let_def is_constructed_def cbs_simps split: bool.split)
    qed
    then show ?case by simp
  qed
qed


lemma ber_to_der_list:
  assumes "list_all (ber_ok 0 n) xs" "n \<le> 128" "length (concat (map ber_bytes xs)) < size_bound"
    "\<not> list_all in_definite_form xs"
  shows "case CBS_asn1_ber_to_der E (concat (map ber_bytes xs)) of
      (Some (out, fresh), rest) \<Rightarrow> out = concat (map (definite_form 0) xs) \<and> fresh \<and> rest = []
    | (None, rest) \<Rightarrow> \<not> ((\<forall>k. env_heap E k) \<and> length (concat (map ber_bytes xs)) < 2 ^ 62 \<and>
        length (concat (map (definite_form 0) xs)) < 2 ^ 62)"
proof -
  define bs where "bs = concat (map ber_bytes xs)"
  define der where "der = concat (map (definite_form 0) xs)"
  have find: "cbs_find_ber bs 0 = Some True"
    unfolding bs_def using find_ber_concat [of n xs 0] assms by simp
  show ?thesis
  proof (cases "CBB_init E (length bs)")
    case None
    then have "\<not> ((\<forall>k. env_heap E k) \<and> length bs < 2 ^ 62)"
      by (auto simp: CBB_init_def OPENSSL_malloc_def OPENSSL_MALLOC_PREFIX_def split: if_splits)
    with find None show ?thesis unfolding bs_def [symmetric] by (auto simp: CBS_asn1_ber_to_der_def)
  next
    case (Some s)
    from CBB_init_wf [OF this] assms(3) have s: "cbb_wf s" "\<not> cbb_error s" "length (cbb_children s) = 0"
      "cbb_bytes s = []" "cbb_len s = 0" "cbb_can_resize s" by (simp_all add: bs_def)
    have "\<exists>P. writes E 0 P der \<and> (\<forall>eoc. converts E 0 0 eoc 0 bs P)"
      unfolding der_def bs_def
      by (rule converts_concat, rule converts_ber [of 0 n]) (use assms in \<open>auto simp: list_all_iff\<close>)
    then obtain P where w: "writes E 0 P der" and "converts E 0 0 False 0 bs P" by auto
    note c = convertsD [OF this(2) s(1-3), of _ "[]"]
    obtain ok s1 where p: "P s = (ok, s1)" by (cases "P s")
    show ?thesis
    proof (cases ok)
      case True
      with p have p: "P s = (True, s1)" by simp
      note r = writes_True [OF w s(1-3) p]
      have "cbb_children s1 = []" "cbb_bytes s1 = der" using r(3,4) s(3,4) by simp_all
      from CBB_finish_ok [OF r(1,2) this, of E] c(1) [OF p] find Some show ?thesis
        unfolding bs_def [symmetric] der_def [symmetric]
        by (auto simp: CBS_asn1_ber_to_der_def convert_end(1))
    next
      case False
      with p have p: "P s = (False, s1)" by simp
      have "\<not> ((\<forall>k. env_heap E k) \<and> length der < 2 ^ 62)"
        using writes_False(2) [OF w s(1-3) p] s(5,6) by (simp add: cbb_room_def)
      with c(2) [OF p] find Some show ?thesis
        unfolding bs_def [symmetric] der_def [symmetric] by (auto simp: CBS_asn1_ber_to_der_def)
    qed
  qed
qed

section \<open>Properties\<close>





text \<open>
  The conversion takes the whole input.  When any element of a sequence of BER messages is not DER,
  \<^verbatim>\<open>CBS_asn1_ber_to_der\<close> converts and consumes all of them, not only the first element that the
  header of the function promises; the output is the concatenation of the DER of all.
\<close>
theorem ber_to_der_takes_all:
  assumes "list_all (ber_ok 0 n) xs" "n \<le> 128" "length (concat (map ber_bytes xs)) < 2 ^ 62"
    "length (concat (map (definite_form 0) xs)) < 2 ^ 62" "\<not> list_all in_definite_form xs" "\<forall>k. env_heap E k"
  shows "CBS_asn1_ber_to_der E (concat (map ber_bytes xs)) = (Some (concat (map (definite_form 0) xs), True), [])"
  using ber_to_der_list [of n xs E] assms by (auto split: prod.splits option.splits)

lemma ber_to_der_takes_all_witness:
  "CBS_asn1_ber_to_der sample_env [0x30, 0x80, 0, 0, 4, 0] = (Some ([0x30, 0, 4, 0], True), [])"
proof -
  let ?xs = "[Indefinite 0x20000010 [], Primitive 4 Short []]"
  have tags: "der_tag 0x20000010 = [0x30]" "der_tag 4 = [4]"
    by (simp_all add: der_tag_def tag_number_def tag_bits_def)
  have st: "\<not> is_string_type 0x20000010"
    by (simp add: is_string_type_def CBS_ASN1_OCTETSTRING_def CBS_ASN1_UTF8STRING_def
      CBS_ASN1_NUMERICSTRING_def CBS_ASN1_PRINTABLESTRING_def CBS_ASN1_T61STRING_def
      CBS_ASN1_VIDEOTEXSTRING_def CBS_ASN1_IA5STRING_def CBS_ASN1_GRAPHICSTRING_def
      CBS_ASN1_VISIBLESTRING_def CBS_ASN1_GENERALSTRING_def CBS_ASN1_UNIVERSALSTRING_def CBS_ASN1_BMPSTRING_def)
  have v: "valid_tag 0x20000010" "valid_tag 4" "is_constructed 0x20000010" "\<not> is_constructed 4"
    by (simp_all add: valid_tag_def is_constructed_def)
  have bytes: "concat (map ber_bytes ?xs) = [0x30, 0x80, 0, 0, 4, 0]" by (simp add: tags)
  have der: "concat (map (definite_form 0) ?xs) = [0x30, 0, 4, 0]"
    by (simp add: tags st der_element_def der_header_def der_length_def)
  have ok: "list_all (ber_ok 0 1) ?xs" by (simp add: v st)
  from ber_to_der_takes_all [OF ok, of sample_env] show ?thesis
    unfolding bytes der by (simp add: sample_env_def)
qed

end
