(* ===== verification/Oid.thy ===== *)
theory Oid
  imports Cbb_Tree
begin

text \<open>
  Object identifiers: the decimal reader and the validity test of \<^verbatim>\<open>crypto/bytestring/cbs.c\<close>, the
  conversion of an encoded OID to dotted text (\<^verbatim>\<open>CBS_asn1_oid_to_text\<close>) and back
  (\<^verbatim>\<open>CBB_add_asn1_oid_from_text\<close> in \<^verbatim>\<open>cbb.c\<close>).  \<open>oid_value\<close> and \<open>oid_text\<close> give the two forms of a list
  of arcs; the theorems say that the code converts exactly between them.
\<close>

section \<open>The code\<close>

text \<open>What \<^verbatim>\<open>snprintf\<close> prints for the format \<^verbatim>\<open>PRIu64\<close>.\<close>

fun decimal :: "nat \<Rightarrow> bytes" where
  "decimal n = (if n < 10 then [word_of_nat (48 + n)] else decimal (n div 10) @ [word_of_nat (48 + n mod 10)])"

declare decimal.simps [simp del]

definition add_decimal :: "env \<Rightarrow> nat \<Rightarrow> u64 \<Rightarrow> cbb_op" where
  "add_decimal E d v = CBB_add_bytes E d (decimal (unat v))"

lemma parse_base128_shrinks: "parse_base128_integer cbs = (Some v, rest) \<Longrightarrow> length rest < length cbs"
  by (auto dest!: b128.enc_dec simp: base128_def)

function oid_text_loop :: "env \<Rightarrow> bytes \<Rightarrow> cbb_op" where
  "oid_text_loop E copy s
     = (if length copy = 0 then (True, s)
        else case parse_base128_integer copy of
               (None, _) \<Rightarrow> (False, s)
             | (Some v, copy) \<Rightarrow>
                 (case CBB_add_u8 E 0 46 s of
                    (False, s) \<Rightarrow> (False, s)
                  | (True, s) \<Rightarrow>
                      (case add_decimal E 0 v s of
                         (False, s) \<Rightarrow> (False, s)
                       | (True, s) \<Rightarrow> oid_text_loop E copy s)))"
  by pat_completeness auto
termination
  by (relation "measure (\<lambda>(E, copy, s). length copy)") (metis parse_base128_shrinks in_measure case_prod_conv wf_measure)+

declare oid_text_loop.simps [simp del]

text \<open>The text with its terminating zero byte.\<close>

definition CBS_asn1_oid_to_text :: "env \<Rightarrow> bytes \<Rightarrow> bytes option" where
  "CBS_asn1_oid_to_text E cbs
     = (case CBB_init E 32 of
          None \<Rightarrow> None
        | Some cbb \<Rightarrow>
       case parse_base128_integer cbs of
          (None, _) \<Rightarrow> None
        | (Some v, copy) \<Rightarrow>
       case (if v \<ge> 80
             then cbb_and (CBB_add_bytes E 0 [50, 46]) (add_decimal E 0 (v - 80))
             else cbb_and (add_decimal E 0 (v div 40))
                    (cbb_and (CBB_add_u8 E 0 46) (add_decimal E 0 (v mod 40)))) cbb of
          (False, _) \<Rightarrow> None
        | (True, cbb) \<Rightarrow>
       case oid_text_loop E copy cbb of
          (False, _) \<Rightarrow> None
        | (True, cbb) \<Rightarrow>
       case CBB_add_u8 E 0 0 cbb of
          (False, _) \<Rightarrow> None
        | (True, cbb) \<Rightarrow>
       case CBB_finish E 0 False False cbb of
          (None, _) \<Rightarrow> None
        | (Some (txt, txt_len), _) \<Rightarrow> Some (take txt_len txt))"

text \<open>The component and the dot behind it; a text that ends with a dot is refused.\<close>

definition parse_dotted_decimal :: "u64 get" where
  "parse_dotted_decimal cbs
     = (case CBS_get_u64_decimal cbs of
          (None, cbs) \<Rightarrow> (None, cbs)
        | (Some out, cbs) \<Rightarrow>
            (case CBS_get_u8 cbs of
               (None, cbs) \<Rightarrow> (Some out, cbs)
             | (Some dot, cbs) \<Rightarrow> (if dot = 46 \<and> length cbs > 0 then Some out else None, cbs)))"

lemma u64_decimal_loop_length:
  "length (snd (cbs_get_u64_decimal_loop v seen cbs)) \<le> length cbs"
  "fst (cbs_get_u64_decimal_loop v False cbs) \<noteq> None \<Longrightarrow>
     length (snd (cbs_get_u64_decimal_loop v False cbs)) < length cbs"
proof -
  show le: "length (snd (cbs_get_u64_decimal_loop v seen cbs)) \<le> length cbs" for v seen cbs
    by (induction v seen cbs rule: cbs_get_u64_decimal_loop.induct) (auto simp: le_SucI)
  assume "fst (cbs_get_u64_decimal_loop v False cbs) \<noteq> None"
  then show "length (snd (cbs_get_u64_decimal_loop v False cbs)) < length cbs"
    by (cases cbs) (auto simp: le_imp_less_Suc [OF le] simp del: not_None_eq split: if_splits)
qed

lemma parse_dotted_shrinks: "parse_dotted_decimal cbs = (Some v, rest) \<Longrightarrow> length rest < length cbs"
  using u64_decimal_loop_length(2) [of 0 cbs]
  by (auto simp: parse_dotted_decimal_def CBS_get_u64_decimal_def CBS_get_u8_Some CBS_get_u8_None
      split: prod.splits option.splits if_splits)

function oid_arcs_loop :: "env \<Rightarrow> nat \<Rightarrow> bytes \<Rightarrow> cbb_op" where
  "oid_arcs_loop E d cbs s
     = (if length cbs > 0
        then case parse_dotted_decimal cbs of
               (None, _) \<Rightarrow> (False, s)
             | (Some a, cbs) \<Rightarrow>
                 (case add_base128_integer E d a s of
                    (False, s) \<Rightarrow> (False, s)
                  | (True, s) \<Rightarrow> oid_arcs_loop E d cbs s)
        else (True, s))"
  by pat_completeness auto
termination
  by (relation "measure (\<lambda>(E, d, cbs, s). length cbs)") (metis parse_dotted_shrinks in_measure case_prod_conv wf_measure)+

declare oid_arcs_loop.simps [simp del]

definition CBB_add_asn1_oid_from_text :: "env \<Rightarrow> nat \<Rightarrow> bytes \<Rightarrow> cbb_op" where
  "CBB_add_asn1_oid_from_text E d txt s
     = (case CBB_flush E d s of
          (False, s) \<Rightarrow> (False, s)
        | (True, s) \<Rightarrow>
       case parse_dotted_decimal txt of
          (None, _) \<Rightarrow> (False, s)
        | (Some a, cbs) \<Rightarrow>
       case parse_dotted_decimal cbs of
          (None, _) \<Rightarrow> (False, s)
        | (Some b, cbs) \<Rightarrow>
       if a > 2 \<or> (a < 2 \<and> b > 39) \<or> b > 0xffffffffffffffff - 80 then (False, s)
       else case add_base128_integer E d (40 * a + b) s of
              (False, s) \<Rightarrow> (False, s)
            | (True, s) \<Rightarrow> oid_arcs_loop E d cbs s)"

section \<open>Decimal numbers\<close>

definition no_digit :: "bytes \<Rightarrow> bool" where
  "no_digit cbs \<longleftrightarrow> (case cbs of [] \<Rightarrow> True | c # _ \<Rightarrow> \<not> OPENSSL_isdigit (int (unat c)))"

lemma decimal_step: "0 < n \<Longrightarrow> k < 10 \<Longrightarrow> decimal (n * 10 + k) = decimal n @ [word_of_nat (48 + k)]"
  by (simp add: decimal.simps [of "n * 10 + k"])

lemma decimal_digit: "k < 10 \<Longrightarrow> decimal k = [word_of_nat (48 + k)]"
  by (simp add: decimal.simps)

lemma digit_iff:
  "OPENSSL_isdigit (int (unat (c :: u8))) \<longleftrightarrow> 48 \<le> unat c \<and> unat c < 58"
  "OPENSSL_isdigit (uint c) \<longleftrightarrow> 48 \<le> unat c \<and> unat c < 58"
proof -
  show "OPENSSL_isdigit (int (unat (c :: u8))) \<longleftrightarrow> 48 \<le> unat c \<and> unat c < 58"
    unfolding OPENSSL_isdigit_def by arith
  then show "OPENSSL_isdigit (uint c) \<longleftrightarrow> 48 \<le> unat c \<and> unat c < 58" by (simp only: uint_nat)
qed

text \<open>One digit of the reader.\<close>

lemma decimal_loop_digit:
  assumes "48 \<le> unat c" "unat c < 58"
  shows "cbs_get_u64_decimal_loop v seen (c # cbs)
    = (if v = 0 \<and> seen \<or> 2 ^ 64 \<le> unat v * 10 + (unat c - 48) then (None, cbs)
       else cbs_get_u64_decimal_loop (word_of_nat (unat v * 10 + (unat c - 48))) True cbs)"
proof -
  let ?d = "ucast c - 48 :: u64"
  have c: "unat (ucast c :: u64) = unat c" by (simp add: unat_ucast_up)
  have d: "unat ?d = unat c - 48" using assms c by (subst unat_sub) (simp_all add: word_le_nat_alt)
  have v: "unat v < 2 ^ 64" using unsigned_less [of v, where 'a = nat] by simp
  have lim: "v > 0xffffffffffffffff div 10 \<longleftrightarrow> 1844674407370955161 < unat v"
    by (simp add: word_less_nat_alt unat_div)
  have prod: "unat (v * 10) = unat v * 10" if "unat v \<le> 1844674407370955161"
    using that by (simp add: unat_word_ariths)
  have sub: "unat (0xffffffffffffffff - ?d) = 18446744073709551615 - (unat c - 48)"
    using d assms by (subst unat_sub) (simp_all add: word_le_nat_alt)
  have over: "(v > 0xffffffffffffffff div 10 \<or> v * 10 > 0xffffffffffffffff - ?d)
      \<longleftrightarrow> 2 ^ 64 \<le> unat v * 10 + (unat c - 48)"
  proof (cases "unat v \<le> 1844674407370955161")
    case True
    then show ?thesis
      unfolding lim word_less_nat_alt sub prod [OF True] using assms by (simp add: not_less) arith
  next
    case False
    then show ?thesis unfolding lim by simp
  qed
  have sum: "v * 10 + ?d = word_of_nat (unat v * 10 + (unat c - 48))"
  proof -
    have "word_of_nat (unat c - 48) = ?d" by (metis d of_nat_unat ucast_id)
    then show ?thesis by simp
  qed
  have "OPENSSL_isdigit (int (unat c))" using assms by (simp add: digit_iff)
  then show ?thesis
    unfolding cbs_get_u64_decimal_loop.simps over sum by simp
qed

lemma decimal_loop_stop:
  "no_digit cbs \<Longrightarrow> cbs_get_u64_decimal_loop v seen cbs = (if seen then Some v else None, cbs)"
  by (cases cbs) (auto simp: no_digit_def)

declare cbs_get_u64_decimal_loop.simps(2) [simp del]

lemma decimal_loop_decimal:
  "n < 2 ^ 64 \<Longrightarrow> cbs_get_u64_decimal_loop 0 False (decimal n @ rest)
     = cbs_get_u64_decimal_loop (word_of_nat n) True rest"
proof (induction n arbitrary: rest rule: decimal.induct)
  case (1 n)
  have ch: "unat (word_of_nat (48 + k) :: u8) = 48 + k" if "k < 10" for k
    using that by (intro byte_exhaust_nat) simp
  show ?case
  proof (cases "n < 10")
    case True
    then show ?thesis
      using decimal_loop_digit [of "word_of_nat (48 + n)" 0 False rest] ch [OF True]
      by (simp add: decimal_digit del: of_nat_add)
  next
    case False
    let ?c = "word_of_nat (48 + n mod 10) :: u8" and ?v = "word_of_nat (n div 10) :: u64"
    have v: "unat ?v = n div 10" using "1.prems" by (simp add: unat_of_nat)
    have nz: "?v \<noteq> 0" using v False by (metis div_eq_0_iff unat_0 zero_neq_numeral)
    have c: "unat ?c = 48 + n mod 10" by (rule ch) simp
    have "cbs_get_u64_decimal_loop 0 False (decimal n @ rest)
        = cbs_get_u64_decimal_loop 0 False (decimal (n div 10) @ ?c # rest)"
      using False by (simp add: decimal.simps [of n])
    also have "\<dots> = cbs_get_u64_decimal_loop ?v True (?c # rest)"
      using "1.IH" [OF False] "1.prems" by simp
    also have "\<dots> = cbs_get_u64_decimal_loop (word_of_nat n) True rest"
      using decimal_loop_digit [of ?c ?v True rest] "1.prems" by (simp add: c v nz del: of_nat_add)
    finally show ?thesis .
  qed
qed

lemma decimal_loop_sound:
  assumes "cbs_get_u64_decimal_loop v seen cbs = (Some w, rest)" "\<not> seen \<longrightarrow> v = 0"
  shows "no_digit rest \<and> (\<exists>pre. cbs = pre @ rest \<and> (if seen then decimal (unat v) else []) @ pre = decimal (unat w))"
  using assms
proof (induction cbs arbitrary: v seen)
  case Nil
  then show ?case by (simp add: no_digit_def split: if_splits)
next
  case (Cons c cbs)
  show ?case
  proof (cases "OPENSSL_isdigit (int (unat c))")
    case False
    with Cons.prems show ?thesis
      by (auto simp: no_digit_def cbs_get_u64_decimal_loop.simps(2) simp del: uint_nat split: if_splits)
  next
    case True
    then have c: "48 \<le> unat c" "unat c < 58" by (simp_all add: digit_iff)
    let ?n = "unat v * 10 + (unat c - 48)"
    have r: "\<not> (v = 0 \<and> seen)" "?n < 2 ^ 64" "cbs_get_u64_decimal_loop (word_of_nat ?n) True cbs = (Some w, rest)"
      using Cons.prems(1) unfolding decimal_loop_digit [OF c] by (auto split: if_splits)
    have n: "unat (word_of_nat ?n :: u64) = ?n" using r(2) by (simp add: unat_of_nat del: of_nat_add of_nat_mult)
    from Cons.IH [OF r(3)] n obtain pre where pre: "no_digit rest" "cbs = pre @ rest" "decimal ?n @ pre = decimal (unat w)"
      by auto
    have ch: "word_of_nat (48 + (unat c - 48)) = c" using c(1) by simp
    have k: "unat c - 48 < 10" using c(2) by simp
    have "decimal ?n = (if seen then decimal (unat v) else []) @ [c]"
    proof (cases seen)
      case True
      with r(1) have "0 < unat v" by (simp add: unat_gt_0)
      from decimal_step [OF this k] True ch show ?thesis by (simp del: of_nat_add)
    next
      case False
      with Cons.prems(2) decimal_digit [OF k] ch show ?thesis by (simp del: of_nat_add)
    qed
    with pre show ?thesis by (intro conjI exI [of _ "c # pre"]) auto
  qed
qed

lemma CBS_get_u64_decimal_iff:
  "CBS_get_u64_decimal cbs = (Some v, rest) \<longleftrightarrow> cbs = decimal (unat v) @ rest \<and> no_digit rest"
proof
  assume "CBS_get_u64_decimal cbs = (Some v, rest)"
  with decimal_loop_sound [of 0 False cbs v rest] show "cbs = decimal (unat v) @ rest \<and> no_digit rest"
    by (simp add: CBS_get_u64_decimal_def)
next
  assume "cbs = decimal (unat v) @ rest \<and> no_digit rest"
  moreover have "unat v < 2 ^ 64" using unsigned_less [of v, where 'a = nat] by simp
  ultimately show "CBS_get_u64_decimal cbs = (Some v, rest)"
    using decimal_loop_decimal [of "unat v" rest]
    by (simp add: CBS_get_u64_decimal_def decimal_loop_stop)
qed

lemma parse_dotted_iff:
  "parse_dotted_decimal cbs = (Some v, rest) \<longleftrightarrow>
     cbs = decimal (unat v) @ (if rest = [] then [] else 46 # rest)"
proof -
  have dot: "no_digit (46 # xs)" "no_digit []" for xs by (simp_all add: no_digit_def OPENSSL_isdigit_def)
  show ?thesis
  proof
    assume "parse_dotted_decimal cbs = (Some v, rest)"
    then show "cbs = decimal (unat v) @ (if rest = [] then [] else 46 # rest)"
      by (auto simp: parse_dotted_decimal_def CBS_get_u8_Some CBS_get_u8_None CBS_get_u64_decimal_iff
          split: prod.splits option.splits if_splits)
  next
    assume "cbs = decimal (unat v) @ (if rest = [] then [] else 46 # rest)"
    with dot have "CBS_get_u64_decimal cbs = (Some v, if rest = [] then [] else 46 # rest)"
      by (simp add: CBS_get_u64_decimal_iff)
    then show "parse_dotted_decimal cbs = (Some v, rest)"
      by (cases rest) (auto simp: parse_dotted_decimal_def)
  qed
qed

section \<open>Arcs\<close>

text \<open>The two forms of an OID with the arcs \<open>xs\<close>.\<close>

fun oid_value :: "nat list \<Rightarrow> bytes" where
  "oid_value (a # b # xs) = base128 (40 * a + b) @ concat (map base128 xs)"
| "oid_value _ = []"

fun oid_text :: "nat list \<Rightarrow> bytes" where
  "oid_text [] = []"
| "oid_text [a] = decimal a"
| "oid_text (a # xs) = decimal a @ 46 # oid_text xs"

fun valid_arcs :: "nat list \<Rightarrow> bool" where
  "valid_arcs (a # b # xs) \<longleftrightarrow> a \<le> 2 \<and> (a < 2 \<longrightarrow> b \<le> 39) \<and> b \<le> 2 ^ 64 - 81 \<and> list_all (\<lambda>n. n < 2 ^ 64) xs"
| "valid_arcs _ \<longleftrightarrow> False"

lemma decimal_nonempty [simp]: "decimal n \<noteq> []"
  by (simp add: decimal.simps [of n])

lemma oid_text_nonempty [simp]: "xs \<noteq> [] \<Longrightarrow> oid_text xs \<noteq> []"
  by (cases xs rule: oid_text.cases) simp_all

lemma oid_text_Cons: "oid_text (a # xs) = decimal a @ (if xs = [] then [] else 46 # oid_text xs)"
  by (cases xs) simp_all

lemma base128_nonempty [simp]: "base128 n \<noteq> []"
  by (simp add: base128_def)

lemma oid_text_eq_Nil [simp]: "oid_text xs = [] \<longleftrightarrow> xs = []"
  by (cases xs rule: oid_text.cases) simp_all

text \<open>Reading components until the text is used up.\<close>

lemma parse_dotted_text:
  "parse_dotted_decimal (oid_text (unat v # xs)) = (Some v, oid_text xs)"
  by (simp add: parse_dotted_iff oid_text_Cons)

lemma u64_arc: "n < 2 ^ 64 \<Longrightarrow> unat (word_of_nat n :: u64) = n"
  by (simp add: unat_of_nat)

lemma oid_arcs_loop_writes:
  "list_all (\<lambda>n. n < 2 ^ 64) xs \<Longrightarrow> writes E d (oid_arcs_loop E d (oid_text xs)) (concat (map base128 xs))"
proof (induction xs)
  case Nil
  have "oid_arcs_loop E d (oid_text []) = cbb_true"
    by (rule ext) (simp add: oid_arcs_loop.simps cbb_true_def)
  then show ?case by (simp add: writes_true)
next
  case (Cons a xs)
  then have "unat (word_of_nat a :: u64) = a" by (intro u64_arc) simp
  then have p: "parse_dotted_decimal (oid_text (a # xs)) = (Some (word_of_nat a), oid_text xs)"
    using parse_dotted_text [of "word_of_nat a" xs] by simp
  have "oid_arcs_loop E d (oid_text (a # xs))
      = cbb_and (add_base128_integer E d (word_of_nat a)) (oid_arcs_loop E d (oid_text xs))"
    by (rule ext) (simp add: oid_arcs_loop.simps [of E d "oid_text (a # xs)"] p cbb_and_def split: prod.split bool.split)
  moreover have "writes E d (add_base128_integer E d (word_of_nat a)) (base128 a)"
    using writes_add_base128_integer [of E d "word_of_nat a"] \<open>unat (word_of_nat a :: u64) = a\<close> by simp
  ultimately show ?case using writes_and Cons by auto
qed

lemma oid_arcs_loop_sound:
  "oid_arcs_loop E d cbs s = (True, s') \<Longrightarrow> \<exists>xs. list_all (\<lambda>n. n < 2 ^ 64) xs \<and> cbs = oid_text xs"
proof (induction E d cbs s rule: oid_arcs_loop.induct)
  case (1 E d cbs s)
  show ?case
  proof (cases "cbs = []")
    case True
    then show ?thesis by (intro exI [of _ "[]"]) simp
  next
    case False
    with "1.prems" obtain a rest s1 where r: "parse_dotted_decimal cbs = (Some a, rest)"
      "add_base128_integer E d a s = (True, s1)" "oid_arcs_loop E d rest s1 = (True, s')"
      by (auto simp: oid_arcs_loop.simps [of E d cbs] split: prod.splits option.splits bool.splits)
    with "1.IH" [of "Some a" rest a True s1] False obtain xs where
      xs: "list_all (\<lambda>n. n < 2 ^ 64) xs" "rest = oid_text xs" by auto
    have "cbs = oid_text (unat a # xs)"
      using r(1) xs(2) by (simp add: parse_dotted_iff oid_text_Cons)
    moreover have "unat a < 2 ^ 64" using unsigned_less [of a, where 'a = nat] by simp
    ultimately show ?thesis using xs(1) by (intro exI [of _ "unat a # xs"]) simp
  qed
qed

lemma first_component:
  assumes "a \<le> 2" "b \<le> 2 ^ 64 - 81"
  shows "unat (40 * word_of_nat a + word_of_nat b :: u64) = 40 * a + b"
proof -
  have "40 * a + b < 2 ^ 64" using assms by simp
  then have "unat (word_of_nat (40 * a + b) :: u64) = 40 * a + b" by (rule u64_arc)
  moreover have "40 * word_of_nat a + word_of_nat b = (word_of_nat (40 * a + b) :: u64)"
    by (simp only: of_nat_add of_nat_mult of_nat_numeral)
  ultimately show ?thesis by (simp only:)
qed

lemma from_text_eq:
  assumes "valid_arcs (a # b # xs)"
  shows "CBB_add_asn1_oid_from_text E d (oid_text (a # b # xs))
    = cbb_and (CBB_flush E d) (cbb_and (add_base128_integer E d (40 * word_of_nat a + word_of_nat b))
        (oid_arcs_loop E d (oid_text xs)))"
proof -
  have ab: "unat (word_of_nat a :: u64) = a" "unat (word_of_nat b :: u64) = b"
    using assms by (auto intro!: u64_arc)
  define v where "v = (word_of_nat a :: u64)"
  define w where "w = (word_of_nat b :: u64)"
  have v: "unat v = a" "unat w = b" using ab by (simp_all add: v_def w_def)
  have p: "parse_dotted_decimal (oid_text (a # b # xs)) = (Some v, oid_text (b # xs))"
    "parse_dotted_decimal (oid_text (b # xs)) = (Some w, oid_text xs)"
    using parse_dotted_text [of v "b # xs"] parse_dotted_text [of w xs] v by simp_all
  have g: "\<not> v > 2" "\<not> (v < 2 \<and> w > 39)" "\<not> w > 18446744073709551535"
    using assms v by (auto simp: word_less_nat_alt)
  show ?thesis
    unfolding v_def [symmetric] w_def [symmetric]
    by (rule ext) (simp add: CBB_add_asn1_oid_from_text_def p g cbb_and_def del: oid_text.simps
        split: prod.split bool.split)
qed

lemma from_text_writes:
  assumes "valid_arcs xs"
  shows "writes E d (CBB_add_asn1_oid_from_text E d (oid_text xs)) (oid_value xs)"
proof -
  from assms obtain a b ys where xs: "xs = a # b # ys" by (cases xs rule: valid_arcs.cases) auto
  have "writes E d (add_base128_integer E d (40 * word_of_nat a + word_of_nat b)) (base128 (40 * a + b))"
    using writes_add_base128_integer [of E d "40 * word_of_nat a + word_of_nat b"] first_component [of a b] assms
    by (simp add: xs)
  from writes_and [OF writes_flush writes_and [OF this oid_arcs_loop_writes [of ys]]] assms
  show ?thesis using from_text_eq [of a b ys E d] by (simp add: xs)
qed

lemma from_text_sound:
  assumes "CBB_add_asn1_oid_from_text E d txt s = (True, s')"
  shows "\<exists>xs. valid_arcs xs \<and> txt = oid_text xs"
proof -
  note def = CBB_add_asn1_oid_from_text_def
  obtain ok1 s1 where f: "CBB_flush E d s = (ok1, s1)" by (cases "CBB_flush E d s")
  have ok1: "ok1" using assms f by (cases ok1) (simp_all add: def)
  obtain oa c1 where pa: "parse_dotted_decimal txt = (oa, c1)" by (cases "parse_dotted_decimal txt")
  then obtain a where a: "oa = Some a" using assms f ok1 by (cases oa) (simp_all add: def)
  obtain ob c2 where pb: "parse_dotted_decimal c1 = (ob, c2)" by (cases "parse_dotted_decimal c1")
  then obtain b where b: "ob = Some b" using assms f ok1 pa a by (cases ob) (simp_all add: def)
  obtain ok2 s2 where ad: "add_base128_integer E d (40 * a + b) s1 = (ok2, s2)"
    by (cases "add_base128_integer E d (40 * a + b) s1")
  have g: "\<not> (a > 2 \<or> (a < 2 \<and> b > 39) \<or> b > 0xffffffffffffffff - 80)"
  proof
    assume bad: "a > 2 \<or> (a < 2 \<and> b > 39) \<or> b > 0xffffffffffffffff - 80"
    from assms show False unfolding def f pa a by (simp only: pb b ok1 if_P [OF bad] prod.case option.case bool.case prod.inject simp_thms)
  qed
  have "oid_arcs_loop E d c2 s2 = (True, s')"
    using assms ok1 ad unfolding def f pa a by (cases ok2) (auto simp: pb b split: if_splits)
  with pa pb a b g have p: "parse_dotted_decimal txt = (Some a, c1)"
    "parse_dotted_decimal c1 = (Some b, c2)" "\<not> (a > 2 \<or> (a < 2 \<and> b > 39) \<or> b > 0xffffffffffffffff - 80)"
    "oid_arcs_loop E d c2 s2 = (True, s')" by simp_all
  from oid_arcs_loop_sound [OF p(4)] obtain xs where xs: "list_all (\<lambda>n. n < 2 ^ 64) xs" "c2 = oid_text xs" by blast
  have "txt = oid_text (unat a # unat b # xs)"
    using p(1,2) xs(2) by (auto simp: parse_dotted_iff oid_text_Cons)
  moreover have "valid_arcs (unat a # unat b # xs)"
    using p(3) xs(1) by (auto simp: word_less_nat_alt not_less)
  ultimately show ?thesis by blast
qed

section \<open>From the encoding to text\<close>

lemma oid_text_concat: "oid_text (a # xs) = decimal a @ concat (map (\<lambda>n. 46 # decimal n) xs)"
  by (induction xs arbitrary: a) (simp_all add: oid_text_Cons)

lemma writes_add_decimal: "writes E d (add_decimal E d v) (decimal (unat v))"
proof -
  have len: "length (decimal n) < 30" if "n < 10 ^ 29" for n
  proof -
    have "length (decimal n) \<le> k" if "n < 10 ^ k" "0 < k" for n k
      using that
    proof (induction k arbitrary: n)
      case (Suc k)
      show ?case
      proof (cases "n < 10")
        case False
        with Suc.prems have "n div 10 < 10 ^ k" "0 < k" by (auto intro: gr0I)
        with Suc.IH [of "n div 10"] show ?thesis by (simp add: decimal.simps [of n])
      qed (simp add: decimal.simps [of n])
    qed simp
    from this [of n 29] that show ?thesis by simp
  qed
  have "unat v < 10 ^ 29" using unsigned_less [of v, where 'a = nat] by simp
  from len [OF this] show ?thesis
    unfolding add_decimal_def by (intro writes_CBB_add_bytes) simp
qed

text \<open>The two numbers in the first component.\<close>

definition arc1 :: "nat \<Rightarrow> nat" where "arc1 v = (if v \<ge> 80 then 2 else v div 40)"
definition arc2 :: "nat \<Rightarrow> nat" where "arc2 v = v - 40 * arc1 v"

lemma arcs_valid:
  "v < 2 ^ 64 \<Longrightarrow> valid_arcs (arc1 v # arc2 v # xs) \<longleftrightarrow> list_all (\<lambda>n. n < 2 ^ 64) xs"
  "40 * arc1 v + arc2 v = v"
  by (auto simp: arc1_def arc2_def)

lemma valid_arcs_arc: "valid_arcs (a # b # xs) \<Longrightarrow> arc1 (40 * a + b) = a \<and> arc2 (40 * a + b) = b"
  by (cases "a = 2") (auto simp: arc1_def arc2_def)

definition oid_first_text :: "env \<Rightarrow> u64 \<Rightarrow> cbb_op" where
  "oid_first_text E v
     = (if v \<ge> 80
        then cbb_and (CBB_add_bytes E 0 [50, 46]) (add_decimal E 0 (v - 80))
        else cbb_and (add_decimal E 0 (v div 40))
               (cbb_and (CBB_add_u8 E 0 46) (add_decimal E 0 (v mod 40))))"

lemma writes_oid_first_text:
  "writes E 0 (oid_first_text E v) (decimal (arc1 (unat v)) @ 46 # decimal (arc2 (unat v)))"
proof (cases "v \<ge> 80")
  case True
  then have v: "80 \<le> unat v" "unat (v - 80) = unat v - 80"
    by (simp_all add: word_le_nat_alt unat_sub)
  have d2: "decimal 2 = [50]" by (simp add: decimal.simps)
  have "writes E 0 (cbb_and (CBB_add_bytes E 0 [50, 46]) (add_decimal E 0 (v - 80))) ([50, 46] @ decimal (unat (v - 80)))"
    by (intro writes_and writes_CBB_add_bytes writes_add_decimal) simp
  with True v d2 show ?thesis by (simp add: oid_first_text_def arc1_def arc2_def)
next
  case False
  then have v: "\<not> 80 \<le> unat v" "unat (v div 40) = unat v div 40" "unat (v mod 40) = unat v mod 40"
    by (simp_all add: word_le_nat_alt unat_div unat_mod)
  have m: "unat v - 40 * (unat v div 40) = unat v mod 40" by (simp add: minus_mult_div_eq_mod)
  have "writes E 0 (cbb_and (add_decimal E 0 (v div 40)) (cbb_and (CBB_add_u8 E 0 46) (add_decimal E 0 (v mod 40))))
      (decimal (unat (v div 40)) @ [46] @ decimal (unat (v mod 40)))"
    by (intro writes_and writes_CBB_add_u writes_add_decimal)
  with False v m show ?thesis by (simp add: oid_first_text_def arc1_def arc2_def)
qed

lemma oid_text_loop_writes:
  "list_all (\<lambda>n. n < 2 ^ 64) xs \<Longrightarrow>
     writes E 0 (oid_text_loop E (concat (map base128 xs))) (concat (map (\<lambda>n. 46 # decimal n) xs))"
proof (induction xs)
  case Nil
  have "oid_text_loop E (concat (map base128 [])) = cbb_true"
    by (rule ext) (simp add: oid_text_loop.simps cbb_true_def)
  then show ?case by (simp add: writes_true)
next
  case (Cons a xs)
  then have a: "unat (word_of_nat a :: u64) = a" by (intro u64_arc) simp
  let ?bs = "concat (map base128 xs)"
  have p: "parse_base128_integer (base128 a @ ?bs) = (Some (word_of_nat a), ?bs)"
    by (rule base128_parse) (use Cons.prems in simp)
  have "oid_text_loop E (base128 a @ ?bs)
      = cbb_and (CBB_add_u8 E 0 46) (cbb_and (add_decimal E 0 (word_of_nat a)) (oid_text_loop E ?bs))"
    by (intro ext) (simp add: oid_text_loop.simps [of E "base128 a @ ?bs"] p cbb_and_def split: prod.split bool.split)
  moreover have "writes E 0 (add_decimal E 0 (word_of_nat a)) (decimal a)"
    using writes_add_decimal [of E 0 "word_of_nat a"] a by simp
  ultimately show ?case
    using writes_and [OF writes_CBB_add_u(1) [of E 0 46] writes_and] Cons by fastforce
qed

lemma oid_text_loop_sound:
  "oid_text_loop E cbs s = (True, s') \<Longrightarrow> \<exists>xs. list_all (\<lambda>n. n < 2 ^ 64) xs \<and> cbs = concat (map base128 xs)"
proof (induction E cbs s rule: oid_text_loop.induct)
  case (1 E cbs s)
  show ?case
  proof (cases "cbs = []")
    case True
    then show ?thesis by (intro exI [of _ "[]"]) simp
  next
    case False
    with "1.prems" obtain a rest s1 s2 where r: "parse_base128_integer cbs = (Some a, rest)"
      "CBB_add_u8 E 0 46 s = (True, s1)" "add_decimal E 0 a s1 = (True, s2)" "oid_text_loop E rest s2 = (True, s')"
      by (auto simp: oid_text_loop.simps [of E cbs] split: prod.splits option.splits bool.splits)
    with "1.IH" [of "Some a" rest a True s1 True s2] False obtain xs where
      xs: "list_all (\<lambda>n. n < 2 ^ 64) xs" "rest = concat (map base128 xs)" by auto
    have "cbs = base128 (unat a) @ rest" using b128.enc_dec [OF r(1)] by simp
    moreover have "unat a < 2 ^ 64" using unsigned_less [of a, where 'a = nat] by simp
    ultimately show ?thesis using xs by (intro exI [of _ "unat a # xs"]) simp
  qed
qed

lemma to_text_eq:
  assumes "parse_base128_integer cbs = (Some v, copy)"
  shows "CBS_asn1_oid_to_text E cbs = (case CBB_init E 32 of None \<Rightarrow> None
     | Some s \<Rightarrow> (case cbb_and (oid_first_text E v) (cbb_and (oid_text_loop E copy) (CBB_add_u8 E 0 0)) s of
          (False, _) \<Rightarrow> None
        | (True, s) \<Rightarrow> (case CBB_finish E 0 False False s of
                        (None, _) \<Rightarrow> None | (Some (txt, n), _) \<Rightarrow> Some (take n txt))))"
  unfolding CBS_asn1_oid_to_text_def oid_first_text_def [symmetric]
  by (simp add: assms cbb_and_def split: option.split prod.split bool.split)

lemma to_text_valid:
  assumes "valid_arcs xs"
  shows "case CBS_asn1_oid_to_text E (oid_value xs) of
     Some t \<Rightarrow> t = oid_text xs @ [0]
   | None \<Rightarrow> \<not> ((\<forall>k. env_heap E k) \<and> length (oid_text xs) + 1 < 2 ^ 62)"
proof -
  from assms obtain a b ys where xs: "xs = a # b # ys" by (cases xs rule: valid_arcs.cases) auto
  define v where "v = (word_of_nat (40 * a + b) :: u64)"
  have ab: "40 * a + b < 2 ^ 64" "list_all (\<lambda>n. n < 2 ^ 64) ys" using assms by (auto simp: xs)
  then have v: "unat v = 40 * a + b" unfolding v_def by (intro u64_arc)
  have p: "parse_base128_integer (oid_value xs) = (Some v, concat (map base128 ys))"
    using base128_parse [OF ab(1)] by (simp add: xs v_def)
  let ?P = "cbb_and (oid_first_text E v) (cbb_and (oid_text_loop E (concat (map base128 ys))) (CBB_add_u8 E 0 0))"
  have "writes E 0 ?P ((decimal (arc1 (unat v)) @ 46 # decimal (arc2 (unat v))) @
      concat (map (\<lambda>n. 46 # decimal n) ys) @ [0])"
    by (intro writes_and writes_oid_first_text oid_text_loop_writes ab(2) writes_CBB_add_u)
  then have w: "writes E 0 ?P (oid_text xs @ [0])"
    using valid_arcs_arc [of a b ys] assms by (simp add: v xs oid_text_concat)
  show ?thesis
  proof (cases "CBB_init E 32")
    case None
    then have "\<not> (\<forall>k. env_heap E k)"
      by (auto simp: CBB_init_def OPENSSL_malloc_def OPENSSL_MALLOC_PREFIX_def split: if_splits)
    with None show ?thesis by (simp add: to_text_eq [OF p])
  next
    case (Some s)
    from CBB_init_wf [OF this] have s: "cbb_wf s" "\<not> cbb_error s" "length (cbb_children s) = 0"
      "cbb_bytes s = []" "cbb_len s = 0" "cbb_can_resize s" by simp_all
    obtain ok s1 where P: "?P s = (ok, s1)" by (cases "?P s")
    show ?thesis
    proof (cases ok)
      case True
      with P have P: "?P s = (True, s1)" by simp
      note r = writes_True [OF w s(1-3) P]
      have "cbb_children s1 = []" "cbb_bytes s1 = oid_text xs @ [0]" using r(3,4) s(3,4) by simp_all
      from CBB_finish_ok [OF r(1,2) this, of E] obtain b' s' where
        "CBB_finish E 0 False False s1 = (Some (b', length (oid_text xs @ [0])), s')"
        "take (length (oid_text xs @ [0])) b' = oid_text xs @ [0]" by blast
      with Some P show ?thesis by (simp add: to_text_eq [OF p])
    next
      case False
      with P have P: "?P s = (False, s1)" by simp
      have "\<not> ((\<forall>k. env_heap E k) \<and> length (oid_text xs @ [0]) < 2 ^ 62)"
        using writes_False(2) [OF w s(1-3) P] s(5,6) by (simp add: cbb_room_def)
      with Some P show ?thesis by (simp add: to_text_eq [OF p])
    qed
  qed
qed

lemma to_text_sound:
  assumes "CBS_asn1_oid_to_text E cbs = Some t"
  shows "\<exists>xs. valid_arcs xs \<and> cbs = oid_value xs"
proof -
  obtain ov copy where pv: "parse_base128_integer cbs = (ov, copy)" by (cases "parse_base128_integer cbs")
  have "ov \<noteq> None" using assms pv by (auto simp: CBS_asn1_oid_to_text_def split: option.splits)
  with pv obtain v where p: "parse_base128_integer cbs = (Some v, copy)" by auto
  from assms obtain s s1 where "cbb_and (oid_first_text E v) (cbb_and (oid_text_loop E copy) (CBB_add_u8 E 0 0)) s = (True, s1)"
    by (auto simp: to_text_eq [OF p] split: option.splits prod.splits bool.splits)
  then obtain s2 s3 where "oid_text_loop E copy s2 = (True, s3)"
    by (auto simp: cbb_and_def split: prod.splits if_splits)
  from oid_text_loop_sound [OF this] obtain ys where
    ys: "list_all (\<lambda>n. n < 2 ^ 64) ys" "copy = concat (map base128 ys)" by blast
  have "cbs = oid_value (arc1 (unat v) # arc2 (unat v) # ys)"
    using b128.enc_dec [OF p] ys(2) arcs_valid(2) [of "unat v"] by simp
  moreover have "valid_arcs (arc1 (unat v) # arc2 (unat v) # ys)"
    using arcs_valid(1) [of "unat v" ys] ys(1) unsigned_less [of v, where 'a = nat] by simp
  ultimately show ?thesis by blast
qed

section \<open>Valid encodings\<close>

lemma oid_loop_prev: "(a AND 0x80 = 0) = (b AND 0x80 = 0) \<Longrightarrow> oid_loop a cbs = oid_loop b cbs"
  by (cases cbs) auto

lemma oid_loop_high:
  "0 < v \<Longrightarrow> prev AND 0x80 = 0 \<Longrightarrow> oid_loop prev (base128_high v @ rest) = oid_loop 0x80 rest"
proof (induction v arbitrary: rest rule: base128_high.induct)
  case (1 v)
  define b where "b = (word_of_nat (v mod 128 + 128) :: u8)"
  have b: "unat b = v mod 128 + 128" unfolding b_def by (rule byte_exhaust_nat) simp
  have top: "b AND 0x80 \<noteq> 0" unfolding byte_bit7 b by simp
  have high: "base128_high v = base128_high (v div 128) @ [b]"
    using base128_high_pos [OF "1.prems"(1)] by (simp add: b_def)
  have next_b: "oid_loop b rest = oid_loop 0x80 rest" by (rule oid_loop_prev) (simp add: top)
  show ?case
  proof (cases "v div 128 = 0")
    case True
    then have "v mod 128 = v" by (simp add: div_eq_0_iff)
    then have "unat b \<noteq> unat (0x80 :: u8)" using b "1.prems"(1) by simp
    then have "b \<noteq> 0x80" by auto
    with True high next_b "1.prems"(2) show ?thesis by simp
  next
    case False
    with "1.IH" [of "b # rest"] "1.prems" high next_b show ?thesis by simp
  qed
qed

lemma oid_loop_base128:
  assumes "prev AND 0x80 = 0"
  shows "oid_loop prev (base128 n @ rest) = oid_loop 0 rest"
proof -
  define b where "b = (word_of_nat (n mod 128) :: u8)"
  have b: "unat b = n mod 128" unfolding b_def by (rule byte_exhaust_nat) (simp add: less_trans [of _ 128])
  have "n mod 128 < 128" by simp
  then have z: "b AND 0x80 = 0" by (simp add: byte_bit7_zero b)
  have "unat b \<noteq> unat (0x80 :: u8)" using b \<open>n mod 128 < 128\<close> by simp
  then have ne: "b \<noteq> 0x80" by auto
  have "oid_loop b rest = oid_loop 0 rest" by (rule oid_loop_prev) (simp add: z)
  moreover have "base128 n = base128_high (n div 128) @ [b]" by (simp add: base128_def b_def)
  ultimately show ?thesis
    using oid_loop_high [of "n div 128" prev "b # rest"] assms ne by (cases "n div 128 = 0") simp_all
qed

lemma oid_loop_sound:
  "oid_loop prev cbs \<Longrightarrow> prev AND 0x80 = 0 \<longleftrightarrow> v = 0 \<Longrightarrow> \<exists>ns. base128_high v @ cbs = concat (map base128 ns)"
proof (induction cbs arbitrary: prev v)
  case Nil
  then show ?case by (intro exI [of _ "[]"]) simp
next
  case (Cons b cbs)
  from Cons.prems have g: "\<not> (v = 0 \<and> b = 0x80)" and r: "oid_loop b cbs" by (auto split: if_splits)
  show ?case
  proof (cases "b AND 0x80 = 0")
    case True
    from Cons.IH [OF r, of 0] True obtain ns where ns: "cbs = concat (map base128 ns)" by auto
    have "unat b < 128" using True by (simp add: byte_bit7_zero)
    then have "base128 (v * 128 + unat b) = base128_high v @ [b]" by (simp add: base128_def)
    with ns show ?thesis by (intro exI [of _ "(v * 128 + unat b) # ns"]) simp
  next
    case False
    then have b: "128 \<le> unat b" by (simp add: byte_bit7)
    then obtain k where k: "unat b = k + 128" by (metis le_Suc_ex add.commute)
    then have k128: "k < 128" using byte_lt [of b] by linarith
    let ?v = "v * 128 + k"
    have "k \<noteq> 0 \<or> v \<noteq> 0" using g k by (auto simp: word_unat_eq_iff)
    then have pos: "0 < ?v" by auto
    have "word_of_nat (k + 128) = b" using k by (metis of_nat_unat ucast_id)
    then have "base128_high ?v = base128_high v @ [b]"
      using base128_high_pos [OF pos] k128 by (simp del: of_nat_add)
    with Cons.IH [OF r, of ?v] False pos show ?thesis by auto
  qed
qed

lemma valid_oid_iff:
  "CBS_is_valid_asn1_oid cbs \<longleftrightarrow> cbs \<noteq> [] \<and> (\<exists>ns. cbs = concat (map base128 ns))"
proof -
  have "oid_loop 0 (concat (map base128 ns))" for ns
    by (induction ns) (simp_all add: oid_loop_base128)
  then show ?thesis
    using oid_loop_sound [of 0 cbs 0] by (auto simp: CBS_is_valid_asn1_oid_def)
qed

section \<open>Properties\<close>

text \<open>
  Decimal numbers.  \<^verbatim>\<open>CBS_get_u64_decimal\<close> accepts exactly the decimal forms, without leading
  zeros, of the numbers below \<open>2 ^ 64\<close>, up to the first character that is no digit.
\<close>
theorem decimal_reader_exact:
  "CBS_get_u64_decimal cbs = (Some v, rest) \<longleftrightarrow> cbs = decimal (unat v) @ rest \<and> no_digit rest"
  by (rule CBS_get_u64_decimal_iff)

text \<open>
  Valid OIDs.  \<^verbatim>\<open>CBS_is_valid_asn1_oid\<close> accepts exactly the non-empty concatenations of minimal
  base-128 numbers, of any size.
\<close>
theorem valid_oid_exact:
  "CBS_is_valid_asn1_oid cbs \<longleftrightarrow> cbs \<noteq> [] \<and> (\<exists>ns. cbs = concat (map base128 ns))"
  by (rule valid_oid_iff)

text \<open>
  C12: OID to text.  When memory suffices, \<^verbatim>\<open>CBS_asn1_oid_to_text\<close> succeeds on exactly the encodings of
  OIDs whose arcs fit in 64 bits and gives their dotted form with a terminating zero.
\<close>
theorem oid_to_text_exact:
  assumes "\<forall>k. env_heap E k"
  shows "(\<forall>xs. valid_arcs xs \<and> length (oid_text xs) < 2 ^ 61 \<longrightarrow>
      CBS_asn1_oid_to_text E (oid_value xs) = Some (oid_text xs @ [0])) \<and>
    (\<forall>cbs t. CBS_asn1_oid_to_text E cbs = Some t \<longrightarrow>
      (\<exists>xs. valid_arcs xs \<and> cbs = oid_value xs \<and> t = oid_text xs @ [0]))"
proof (intro conjI allI impI)
  fix xs assume "valid_arcs xs \<and> length (oid_text xs) < 2 ^ 61"
  with to_text_valid [of xs E] assms show "CBS_asn1_oid_to_text E (oid_value xs) = Some (oid_text xs @ [0])"
    by (simp split: option.splits)
next
  fix cbs t assume t: "CBS_asn1_oid_to_text E cbs = Some t"
  from to_text_sound [OF this] obtain xs where "valid_arcs xs" "cbs = oid_value xs" by blast
  with to_text_valid [of xs E] t show "\<exists>xs. valid_arcs xs \<and> cbs = oid_value xs \<and> t = oid_text xs @ [0]"
    by (intro exI [of _ xs]) simp
qed

lemma oid_to_text_exact_witness:
  "CBS_asn1_oid_to_text sample_env [0x2a, 0x86, 0x48] = Some [49, 46, 50, 46, 56, 52, 48, 0]"
proof -
  have b: "base128 42 = [0x2a]" "base128 840 = [0x86, 0x48]"
    by (simp_all add: base128_def base128_high_pos)
  have v: "oid_value [1, 2, 840] = [0x2a, 0x86, 0x48]" by (simp add: b)
  have d: "decimal 1 = [49]" "decimal 2 = [50]" "decimal 840 = [56, 52, 48]"
    by (simp_all add: decimal.simps)
  have t: "oid_text [1, 2, 840] = [49, 46, 50, 46, 56, 52, 48]" by (simp add: d del: One_nat_def)
  have l: "valid_arcs [1, 2, 840] \<and> length (oid_text [1, 2, 840]) < 2 ^ 61" unfolding t by simp
  have "\<forall>k. env_heap sample_env k" by (simp add: sample_env_def)
  from mp [OF spec [OF conjunct1 [OF oid_to_text_exact [OF this]]] l] show ?thesis
    unfolding v t by simp
qed

text \<open>
  C13: Text to OID.  \<^verbatim>\<open>CBB_add_asn1_oid_from_text\<close> succeeds only on the dotted form of an OID with at
  least two arcs in range, and then appends its encoding to the builder, which
  \<^verbatim>\<open>CBS_is_valid_asn1_oid\<close> accepts.
\<close>
theorem oid_from_text_exact:
  assumes "cbb_wf s" "\<not> cbb_error s" "length (cbb_children s) = d"
    "CBB_add_asn1_oid_from_text E d txt s = (True, s')"
  shows "\<exists>xs. valid_arcs xs \<and> txt = oid_text xs \<and> cbb_bytes s' = cbb_bytes s @ oid_value xs \<and>
    CBS_is_valid_asn1_oid (oid_value xs)"
proof -
  from from_text_sound [OF assms(4)] obtain xs where xs: "valid_arcs xs" "txt = oid_text xs" by blast
  then obtain a b ys where x: "xs = a # b # ys" by (cases xs rule: valid_arcs.cases) auto
  have "oid_value xs = concat (map base128 ((40 * a + b) # ys))" by (simp add: x)
  then have "CBS_is_valid_asn1_oid (oid_value xs)"
    unfolding valid_oid_iff by (metis base128_nonempty append_is_Nil_conv concat.simps(2) list.map(2))
  moreover have "cbb_bytes s' = cbb_bytes s @ oid_value xs"
    by (rule writes_True(4) [OF from_text_writes [OF xs(1)] assms(1-3)]) (use assms(4) xs(2) in simp)
  ultimately show ?thesis using xs by blast
qed

lemma oid_from_text_exact_witness:
  "\<exists>xs. valid_arcs xs \<and> [49, 46, 50, 46, 51] = oid_text xs \<and>
     cbb_bytes (snd (CBB_add_asn1_oid_from_text sample_env 0 [49, 46, 50, 46, 51] (CBB_init_fixed (replicate 4 0))))
       = oid_value xs"
proof -
  let ?s = "CBB_init_fixed (replicate 4 0)"
  have s: "cbb_wf ?s" "\<not> cbb_error ?s" "length (cbb_children ?s) = 0" "cbb_bytes ?s = []" "cbb_len ?s = 0"
    using CBB_init_fixed_wf [of "replicate 4 0"] by simp_all
  have d: "decimal 1 = [49]" "decimal 2 = [50]" "decimal 3 = [51]" by (simp_all add: decimal.simps)
  have b: "base128 42 = [42]" "base128 3 = [3]" by (simp_all add: base128_def)
  have t: "oid_text [1, 2, 3] = [49, 46, 50, 46, 51]" by (simp add: d del: One_nat_def)
  have v: "oid_value [1, 2, 3] = [42, 3]" by (simp add: b)
  have va: "valid_arcs [1, 2, 3]" by simp
  let ?r = "CBB_add_asn1_oid_from_text sample_env 0 [49, 46, 50, 46, 51] ?s"
  have room: "cbb_room sample_env ?s (length (oid_value [1, 2, 3]))"
    unfolding v by (simp add: cbb_room_def CBB_init_fixed_def cbb_init_def)
  obtain ok s' where r: "?r = (ok, s')" by (cases ?r)
  have ok
  proof (rule ccontr)
    assume "\<not> ok"
    with r writes_False(2) [OF from_text_writes [OF va, of sample_env 0] s(1-3), of s'] room show False
      by (simp only: t) simp
  qed
  with r have r: "?r = (True, s')" by simp
  from oid_from_text_exact [OF s(1-3) r] r s(4) show ?thesis by auto
qed

end
