(* ===== verification/Stack.thy ===== *)
theory Stack
  imports Mem "HOL-Library.Multiset"
begin

text \<open>
  \<^verbatim>\<open>crypto/stack/stack.c\<close>: the growable array of pointers under all \<^verbatim>\<open>STACK_OF\<close> types.  A pointer is
  an \<open>option\<close> with \<open>None\<close> for NULL, a stack pointer too.  The comparison function stored in the stack
  is called through \<open>call_cmp\<close>, as in the code.  \<open>sk_list\<close> abstracts a stack to the list of its
  pointers; this theory has the code, the invariant \<open>sk_wf\<close> and what the container operations do to
  the list.  Sorting and searching are in \<open>Stack_Sort\<close>.
\<close>

section \<open>The code\<close>

type_synonym 'a ptr = "'a option"

record ('a, 'c) stack_st =
  num :: nat
  data :: "'a ptr list"
  sorted_flag :: bool
  num_alloc :: nat
  comp :: "'c option"

definition kMinSize :: nat where "kMinSize = 4"

definition sizeof_stack :: nat where "sizeof_stack = 40"

text \<open>Growing an array of pointers; \<open>fresh\<close> is what the new memory holds.\<close>

definition realloc_ptrs :: "heap \<Rightarrow> (nat \<Rightarrow> 'a ptr) \<Rightarrow> 'a ptr list \<Rightarrow> nat \<Rightarrow> nat \<Rightarrow> 'a ptr list option" where
  "realloc_ptrs heap fresh old alloc_size n
     = (if OPENSSL_malloc heap alloc_size then Some (take n old @ map fresh [length old..<n]) else None)"

definition OPENSSL_sk_new :: "heap \<Rightarrow> 'c option \<Rightarrow> ('a, 'c) stack_st option" where
  "OPENSSL_sk_new heap cmp
     = (if OPENSSL_zalloc heap sizeof_stack = None then None
        else if OPENSSL_calloc heap kMinSize 8 = None then None
        else Some \<lparr>num = 0, data = replicate kMinSize None, sorted_flag = False, num_alloc = kMinSize, comp = cmp\<rparr>)"

definition OPENSSL_sk_new_null :: "heap \<Rightarrow> ('a, 'c) stack_st option" where
  "OPENSSL_sk_new_null heap = OPENSSL_sk_new heap None"

definition OPENSSL_sk_num :: "('a, 'c) stack_st option \<Rightarrow> nat" where
  "OPENSSL_sk_num sk = (case sk of None \<Rightarrow> 0 | Some sk \<Rightarrow> num sk)"

definition OPENSSL_sk_zero :: "('a, 'c) stack_st option \<Rightarrow> ('a, 'c) stack_st option" where
  "OPENSSL_sk_zero sk
     = (case sk of None \<Rightarrow> None
        | Some sk \<Rightarrow>
            if num sk = 0 then Some sk
            else Some (sk\<lparr>data := replicate (num sk) None @ drop (num sk) (data sk), num := 0, sorted_flag := False\<rparr>))"

definition OPENSSL_sk_value :: "('a, 'c) stack_st option \<Rightarrow> nat \<Rightarrow> 'a ptr" where
  "OPENSSL_sk_value sk i
     = (case sk of None \<Rightarrow> None | Some sk \<Rightarrow> if i \<ge> num sk then None else data sk ! i)"

definition OPENSSL_sk_set :: "('a, 'c) stack_st option \<Rightarrow> nat \<Rightarrow> 'a ptr \<Rightarrow> 'a ptr \<times> ('a, 'c) stack_st option" where
  "OPENSSL_sk_set sk i v
     = (case sk of None \<Rightarrow> (None, None)
        | Some sk \<Rightarrow> if i \<ge> num sk then (None, Some sk) else (v, Some (sk\<lparr>data := (data sk)[i := v]\<rparr>)))"

text \<open>The pointers on which \<^verbatim>\<open>free_func\<close> is called, in order.\<close>

definition OPENSSL_sk_pop_free_ex :: "('a, 'c) stack_st option \<Rightarrow> 'a list" where
  "OPENSSL_sk_pop_free_ex sk
     = (case sk of None \<Rightarrow> []
        | Some sk \<Rightarrow> concat (map (\<lambda>i. case data sk ! i of None \<Rightarrow> [] | Some p \<Rightarrow> [p]) [0..<num sk]))"

text \<open>Doubling the array, or growing it by one when the doubled size overflows.\<close>

definition sk_grow :: "heap \<Rightarrow> (nat \<Rightarrow> 'a ptr) \<Rightarrow> ('a, 'c) stack_st \<Rightarrow> ('a, 'c) stack_st option" where
  "sk_grow heap fresh sk
     = (let new_alloc = size_mul (num_alloc sk) 2;
            alloc_size = size_mul new_alloc 8;
            (new_alloc, alloc_size) =
              (if new_alloc < num_alloc sk \<or> alloc_size div 8 \<noteq> new_alloc
               then (size_add (num_alloc sk) 1, size_mul (size_add (num_alloc sk) 1) 8)
               else (new_alloc, alloc_size)) in
        if new_alloc < num_alloc sk \<or> alloc_size div 8 \<noteq> new_alloc then None
        else case realloc_ptrs heap fresh (data sk) alloc_size new_alloc of
               None \<Rightarrow> None
             | Some d \<Rightarrow> Some (sk\<lparr>data := d, num_alloc := new_alloc\<rparr>))"

text \<open>\<^verbatim>\<open>memmove\<close> within an array, by entries.\<close>

definition memmove :: "'p list \<Rightarrow> nat \<Rightarrow> nat \<Rightarrow> nat \<Rightarrow> 'p list" where
  "memmove d dst src n = take dst d @ take n (drop src d) @ drop (dst + n) d"

definition OPENSSL_sk_insert ::
    "heap \<Rightarrow> (nat \<Rightarrow> 'a ptr) \<Rightarrow> ('a, 'c) stack_st option \<Rightarrow> 'a ptr \<Rightarrow> nat \<Rightarrow> nat \<times> ('a, 'c) stack_st option" where
  "OPENSSL_sk_insert heap fresh sk p pos
     = (case sk of None \<Rightarrow> (0, None)
        | Some sk \<Rightarrow>
            if num sk \<ge> INT_MAX then (0, Some sk)
            else case (if num_alloc sk \<le> num sk + 1 then sk_grow heap fresh sk else Some sk) of
                   None \<Rightarrow> (0, Some sk)
                 | Some sk \<Rightarrow>
                     let sk = (if pos \<ge> num sk then sk\<lparr>data := (data sk)[num sk := p]\<rparr>
                               else sk\<lparr>data := (memmove (data sk) (pos + 1) pos (num sk - pos))[pos := p]\<rparr>) in
                     (num sk + 1, Some (sk\<lparr>num := num sk + 1, sorted_flag := False\<rparr>)))"

definition OPENSSL_sk_delete :: "('a, 'c) stack_st option \<Rightarrow> nat \<Rightarrow> 'a ptr \<times> ('a, 'c) stack_st option" where
  "OPENSSL_sk_delete sk pos
     = (case sk of None \<Rightarrow> (None, None)
        | Some sk \<Rightarrow>
            if pos \<ge> num sk then (None, Some sk)
            else let ret = data sk ! pos;
                     sk = (if pos \<noteq> num sk - 1
                           then sk\<lparr>data := memmove (data sk) pos (pos + 1) (num sk - pos - 1)\<rparr>
                           else sk) in
                 (ret, Some (sk\<lparr>num := num sk - 1\<rparr>)))"

text \<open>The index of the first entry with a property, as the loops over all entries find it.\<close>

fun sk_first :: "('p \<Rightarrow> bool) \<Rightarrow> 'p list \<Rightarrow> nat \<Rightarrow> nat option" where
  "sk_first P [] i = None"
| "sk_first P (x # xs) i = (if P x then Some i else sk_first P xs (Suc i))"

definition OPENSSL_sk_delete_ptr :: "('a, 'c) stack_st option \<Rightarrow> 'a ptr \<Rightarrow> 'a ptr \<times> ('a, 'c) stack_st option" where
  "OPENSSL_sk_delete_ptr sk p
     = (case sk of None \<Rightarrow> (None, None)
        | Some s \<Rightarrow> (case sk_first (\<lambda>x. x = p) (take (num s) (data s)) 0 of
                       None \<Rightarrow> (None, sk) | Some i \<Rightarrow> OPENSSL_sk_delete sk i))"

text \<open>Entries are moved down in place while the loop walks over them.\<close>

definition delete_if_step :: "('a ptr \<Rightarrow> bool) \<Rightarrow> 'a ptr list \<times> nat \<Rightarrow> nat \<Rightarrow> 'a ptr list \<times> nat" where
  "delete_if_step func = (\<lambda>(d, new_num) i. if \<not> func (d ! i) then (d[new_num := d ! i], new_num + 1) else (d, new_num))"

definition OPENSSL_sk_delete_if :: "('a, 'c) stack_st option \<Rightarrow> ('a ptr \<Rightarrow> bool) \<Rightarrow> ('a, 'c) stack_st option" where
  "OPENSSL_sk_delete_if sk func
     = (case sk of None \<Rightarrow> None
        | Some sk \<Rightarrow> let (d, new_num) = foldl (delete_if_step func) (data sk, 0) [0..<num sk] in
                     Some (sk\<lparr>data := d, num := new_num\<rparr>))"

definition OPENSSL_sk_shift :: "('a, 'c) stack_st option \<Rightarrow> 'a ptr \<times> ('a, 'c) stack_st option" where
  "OPENSSL_sk_shift sk
     = (case sk of None \<Rightarrow> (None, None) | Some s \<Rightarrow> if num s = 0 then (None, sk) else OPENSSL_sk_delete sk 0)"

definition OPENSSL_sk_push ::
    "heap \<Rightarrow> (nat \<Rightarrow> 'a ptr) \<Rightarrow> ('a, 'c) stack_st option \<Rightarrow> 'a ptr \<Rightarrow> nat \<times> ('a, 'c) stack_st option" where
  "OPENSSL_sk_push heap fresh sk p = OPENSSL_sk_insert heap fresh sk p (OPENSSL_sk_num sk)"

definition OPENSSL_sk_pop :: "('a, 'c) stack_st option \<Rightarrow> 'a ptr \<times> ('a, 'c) stack_st option" where
  "OPENSSL_sk_pop sk
     = (case sk of None \<Rightarrow> (None, None)
        | Some s \<Rightarrow> if num s = 0 then (None, sk) else OPENSSL_sk_delete sk (num s - 1))"

definition OPENSSL_sk_dup :: "heap \<Rightarrow> ('a, 'c) stack_st option \<Rightarrow> ('a, 'c) stack_st option" where
  "OPENSSL_sk_dup heap sk
     = (case sk of None \<Rightarrow> None
        | Some sk \<Rightarrow>
            if OPENSSL_zalloc heap sizeof_stack = None then None
            else if size_mul 8 (num_alloc sk) = 0 \<or> \<not> OPENSSL_malloc heap (size_mul 8 (num_alloc sk)) then None
            else Some \<lparr>num = num sk, data = data sk, sorted_flag = sorted_flag sk, num_alloc = num_alloc sk, comp = comp sk\<rparr>)"

definition OPENSSL_sk_is_sorted :: "('a, 'c) stack_st option \<Rightarrow> bool" where
  "OPENSSL_sk_is_sorted sk
     = (case sk of None \<Rightarrow> True | Some sk \<Rightarrow> sorted_flag sk \<or> (comp sk \<noteq> None \<and> num sk < 2))"

definition OPENSSL_sk_set_cmp_func :: "('a, 'c) stack_st \<Rightarrow> 'c option \<Rightarrow> 'c option \<times> ('a, 'c) stack_st" where
  "OPENSSL_sk_set_cmp_func sk cmp
     = (comp sk, (if comp sk \<noteq> cmp then sk\<lparr>sorted_flag := False\<rparr> else sk)\<lparr>comp := cmp\<rparr>)"

text \<open>
  The copy, or the pointers that are freed again when \<^verbatim>\<open>copy_func\<close> (with \<open>None\<close> for a failure) gives
  up at some entry.
\<close>

fun deep_copy_loop :: "('a \<Rightarrow> 'a ptr) \<Rightarrow> 'a ptr list \<Rightarrow> nat \<Rightarrow> nat \<Rightarrow> 'a list + 'a ptr list" where
  "deep_copy_loop copy_func d i 0 = Inr d"
| "deep_copy_loop copy_func d i (Suc n)
     = (case d ! i of
          None \<Rightarrow> deep_copy_loop copy_func d (Suc i) n
        | Some p \<Rightarrow> (case copy_func p of
                       None \<Rightarrow> Inl (concat (map (\<lambda>j. case d ! j of None \<Rightarrow> [] | Some q \<Rightarrow> [q]) [0..<i]))
                     | Some q \<Rightarrow> deep_copy_loop copy_func (d[i := Some q]) (Suc i) n))"

definition OPENSSL_sk_deep_copy ::
    "heap \<Rightarrow> ('a \<Rightarrow> 'a ptr) \<Rightarrow> ('a, 'c) stack_st option \<Rightarrow> 'a list \<times> ('a, 'c) stack_st option" where
  "OPENSSL_sk_deep_copy heap copy_func sk
     = (case OPENSSL_sk_dup heap sk of
          None \<Rightarrow> ([], None)
        | Some ret \<Rightarrow> (case deep_copy_loop copy_func (data ret) 0 (num ret) of
                         Inl freed \<Rightarrow> (freed, None)
                       | Inr d \<Rightarrow> ([], Some (ret\<lparr>data := d\<rparr>))))"

section \<open>The heap sort\<close>

definition parent_idx :: "nat \<Rightarrow> nat" where
  "parent_idx idx = (idx - 1) div 2"

definition left_idx :: "nat \<Rightarrow> nat" where
  "left_idx idx = 2 * idx + 1"

definition swap :: "'p list \<Rightarrow> nat \<Rightarrow> nat \<Rightarrow> 'p list" where
  "swap d i j = d[i := d ! j, j := d ! i]"

definition heap_next :: "('p \<Rightarrow> 'p \<Rightarrow> int) \<Rightarrow> 'p list \<Rightarrow> nat \<Rightarrow> nat \<Rightarrow> nat" where
  "heap_next cmp d i n
     = (let left = left_idx i;
            next = (if cmp (d ! i) (d ! left) < 0 then left else i);
            right = left + 1 in
        if right < n \<and> cmp (d ! next) (d ! right) < 0 then right else next)"

function down_heap :: "('p \<Rightarrow> 'p \<Rightarrow> int) \<Rightarrow> nat \<Rightarrow> nat \<Rightarrow> 'p list \<Rightarrow> 'p list" where
  "down_heap cmp i n d
     = (if left_idx i \<ge> n then d
        else if i = heap_next cmp d i n then d
        else down_heap cmp (heap_next cmp d i n) n (swap d i (heap_next cmp d i n)))"
  by pat_completeness auto
termination
  by (relation "measure (\<lambda>(cmp, i, n, d). n - i)") (auto simp: heap_next_def left_idx_def Let_def split: if_splits)

declare down_heap.simps [simp del]

fun build_heap :: "('p \<Rightarrow> 'p \<Rightarrow> int) \<Rightarrow> nat \<Rightarrow> nat \<Rightarrow> 'p list \<Rightarrow> 'p list" where
  "build_heap cmp n 0 d = d"
| "build_heap cmp n (Suc i) d = build_heap cmp n i (down_heap cmp i n d)"

fun extract_max :: "('p \<Rightarrow> 'p \<Rightarrow> int) \<Rightarrow> nat \<Rightarrow> 'p list \<Rightarrow> 'p list" where
  "extract_max cmp 0 d = d"
| "extract_max cmp (Suc i) d = extract_max cmp i (down_heap cmp 0 (Suc i) (swap d 0 (Suc i)))"

definition OPENSSL_sk_sort :: "('c \<Rightarrow> 'a ptr \<Rightarrow> 'a ptr \<Rightarrow> int) \<Rightarrow> ('a, 'c) stack_st option \<Rightarrow> ('a, 'c) stack_st option" where
  "OPENSSL_sk_sort call_cmp sk
     = (case sk of None \<Rightarrow> None
        | Some sk \<Rightarrow>
            (case comp sk of None \<Rightarrow> Some sk
             | Some c \<Rightarrow>
                 if sorted_flag sk then Some sk
                 else let sk = (if num sk \<ge> 2
                        then sk\<lparr>data := extract_max (call_cmp c) (num sk - 1)
                                   (build_heap (call_cmp c) (num sk) (Suc (parent_idx (num sk - 1))) (data sk))\<rparr>
                        else sk) in
                      Some (sk\<lparr>sorted_flag := True\<rparr>)))"

section \<open>The search\<close>

function sk_bsearch :: "('p \<Rightarrow> 'p \<Rightarrow> int) \<Rightarrow> 'p \<Rightarrow> 'p list \<Rightarrow> nat \<Rightarrow> nat \<Rightarrow> nat option" where
  "sk_bsearch cmp p d lo hi
     = (if lo < hi
        then let mid = lo + (hi - lo - 1) div 2;
                 r = cmp p (d ! mid) in
             if r > 0 then sk_bsearch cmp p d (mid + 1) hi
             else if r < 0 then sk_bsearch cmp p d lo mid
             else if hi - lo = 1 then Some mid
             else sk_bsearch cmp p d lo (mid + 1)
        else None)"
  by pat_completeness auto
termination
  by (relation "measure (\<lambda>(cmp, p, d, lo, hi). hi - lo)") auto

declare sk_bsearch.simps [simp del]

definition OPENSSL_sk_find :: "('c \<Rightarrow> 'a ptr \<Rightarrow> 'a ptr \<Rightarrow> int) \<Rightarrow> ('a, 'c) stack_st option \<Rightarrow> 'a ptr \<Rightarrow> nat option" where
  "OPENSSL_sk_find call_cmp sk p
     = (case sk of None \<Rightarrow> None
        | Some s \<Rightarrow>
            (case comp s of
               None \<Rightarrow> sk_first (\<lambda>x. x = p) (take (num s) (data s)) 0
             | Some c \<Rightarrow>
                 if p = None then None
                 else if \<not> OPENSSL_sk_is_sorted sk
                 then sk_first (\<lambda>x. call_cmp c p x = 0) (take (num s) (data s)) 0
                 else sk_bsearch (call_cmp c) p (data s) 0 (num s)))"

section \<open>The list of a stack\<close>

definition sk_list :: "('a, 'c) stack_st \<Rightarrow> 'a ptr list" where
  "sk_list sk = take (num sk) (data sk)"

text \<open>The array always has room for one more entry, and is short enough for its sizes not to overflow.\<close>

definition sk_wf :: "('a, 'c) stack_st \<Rightarrow> bool" where
  "sk_wf sk \<longleftrightarrow> length (data sk) = num_alloc sk \<and> num sk < num_alloc sk \<and> 4 \<le> num_alloc sk \<and>
     num sk \<le> INT_MAX \<and> num_alloc sk \<le> 2 ^ 33"

lemma length_sk_list: "sk_wf sk \<Longrightarrow> length (sk_list sk) = num sk"
  by (simp add: sk_wf_def sk_list_def)

lemma sk_new_list:
  "OPENSSL_sk_new heap c = Some sk \<Longrightarrow> sk_wf sk \<and> sk_list sk = [] \<and> \<not> sorted_flag sk \<and> comp sk = c"
  by (auto simp: OPENSSL_sk_new_def sk_wf_def sk_list_def kMinSize_def split: if_splits)

lemma sk_value_list: "sk_wf sk \<Longrightarrow> OPENSSL_sk_value (Some sk) i = (if i < length (sk_list sk) then sk_list sk ! i else None)"
  by (simp add: OPENSSL_sk_value_def length_sk_list) (simp add: sk_list_def)

lemma sk_zero_list:
  assumes "sk_wf sk" "OPENSSL_sk_zero (Some sk) = Some sk'"
  shows "sk_wf sk' \<and> sk_list sk' = []"
  using assms by (auto simp: OPENSSL_sk_zero_def sk_wf_def sk_list_def split: if_splits)

lemma sk_set_list:
  assumes "sk_wf sk" "OPENSSL_sk_set (Some sk) i p = (q, Some sk')"
  shows "sk_wf sk' \<and> sk_list sk' = (sk_list sk)[i := p] \<and> q = (if i < length (sk_list sk) then p else None)"
proof (cases "i < num sk")
  case True
  with assms show ?thesis
    by (auto simp: OPENSSL_sk_set_def length_sk_list sk_wf_def) (auto simp: sk_list_def take_update_swap)
next
  case False
  then have "(sk_list sk)[i := p] = sk_list sk" using assms(1) by (simp add: length_sk_list list_update_beyond)
  with False assms show ?thesis by (auto simp: OPENSSL_sk_set_def length_sk_list)
qed

lemma length_memmove: "dst + n \<le> length d \<Longrightarrow> src + n \<le> length d \<Longrightarrow> length (memmove d dst src n) = length d"
  by (simp add: memmove_def)

lemma sk_delete_list:
  assumes "sk_wf sk"
  shows "\<exists>sk'. OPENSSL_sk_delete (Some sk) i =
      (if i < num sk then sk_list sk ! i else None, Some sk') \<and> sk_wf sk' \<and>
     sk_list sk' = (if i < num sk then take i (sk_list sk) @ drop (Suc i) (sk_list sk) else sk_list sk) \<and>
     comp sk' = comp sk \<and> sorted_flag sk' = sorted_flag sk \<and> num_alloc sk' = num_alloc sk"
proof (cases "i < num sk")
  case False
  with assms show ?thesis by (simp add: OPENSSL_sk_delete_def)
next
  case True
  from assms have l: "length (data sk) = num_alloc sk" "num sk < num_alloc sk" by (simp_all add: sk_wf_def)
  show ?thesis
  proof (cases "i = num sk - 1")
    case lst: True
    with True l assms show ?thesis
      by (auto simp: OPENSSL_sk_delete_def sk_list_def sk_wf_def min_def)
  next
    case False
    let ?d = "memmove (data sk) i (i + 1) (num sk - i - 1)"
    have len: "length ?d = num_alloc sk" using l True False by (subst length_memmove) auto
    have "take (num sk - 1) ?d = take i (data sk) @ take (num sk - i - 1) (drop (i + 1) (data sk))"
      using l True False by (simp add: memmove_def)
    then have "take (num sk - 1) ?d = take i (sk_list sk) @ drop (Suc i) (sk_list sk)"
      using True by (simp add: sk_list_def min_def drop_take)
    with len True False assms show ?thesis
      by (auto simp: OPENSSL_sk_delete_def sk_list_def sk_wf_def)
  qed
qed

lemma sk_grow_spec:
  assumes wf: "sk_wf sk" and small: "num_alloc sk \<le> 2 ^ 32"
  shows "(sk_grow heap fresh sk = None \<and> \<not> (\<forall>k. heap k)) \<or>
    (\<exists>d. sk_grow heap fresh sk = Some (sk\<lparr>data := data sk @ d, num_alloc := 2 * num_alloc sk\<rparr>) \<and> length d = num_alloc sk)"
proof -
  have eq: "size_mul (num_alloc sk) 2 = 2 * num_alloc sk" "size_mul (2 * num_alloc sk) 8 = 16 * num_alloc sk"
    using small by simp_all
  have mal: "OPENSSL_malloc heap (16 * num_alloc sk)" if "\<forall>k. heap k"
    using that small by (simp add: OPENSSL_malloc_def OPENSSL_MALLOC_PREFIX_def)
  show ?thesis
    using wf mal unfolding sk_grow_def Let_def eq by (auto simp: realloc_ptrs_def sk_wf_def)
qed

lemma sk_store_list:
  assumes l: "length d = m" "n < m"
  shows "take (Suc n) (if i \<ge> n then d[n := p] else (memmove d (i + 1) i (n - i))[i := p])
      = take i (take n d) @ p # drop i (take n d)"
    "length (if i \<ge> n then d[n := p] else (memmove d (i + 1) i (n - i))[i := p]) = m"
proof -
  have mm: "length (memmove d (i + 1) i (n - i)) = m" if "i < n"
    using l that by (subst length_memmove) auto
  then show "length (if i \<ge> n then d[n := p] else (memmove d (i + 1) i (n - i))[i := p]) = m"
    using l by simp
  show "take (Suc n) (if i \<ge> n then d[n := p] else (memmove d (i + 1) i (n - i))[i := p])
      = take i (take n d) @ p # drop i (take n d)"
  proof (cases "i \<ge> n")
    case True
    then show ?thesis using l by (simp add: take_Suc_conv_app_nth)
  next
    case False
    then have "memmove d (i + 1) i (n - i) = take i d @ d ! i # take (n - i) (drop i d) @ drop (Suc n) d"
      using l by (simp add: memmove_def take_Suc_conv_app_nth)
    then have "(memmove d (i + 1) i (n - i))[i := p] = take i d @ p # take (n - i) (drop i d) @ drop (Suc n) d"
      using l False by (simp add: list_update_append)
    with False l show ?thesis by (simp add: drop_take Suc_diff_le)
  qed
qed

lemma sk_insert_list:
  assumes wf: "sk_wf sk"
  shows "(OPENSSL_sk_insert heap fresh (Some sk) p i = (0, Some sk) \<and> (num sk = INT_MAX \<or> \<not> (\<forall>k. heap k))) \<or>
     (\<exists>sk'. OPENSSL_sk_insert heap fresh (Some sk) p i = (length (sk_list sk) + 1, Some sk') \<and> sk_wf sk' \<and>
        sk_list sk' = take i (sk_list sk) @ p # drop i (sk_list sk) \<and> \<not> sorted_flag sk' \<and> comp sk' = comp sk)"
proof (cases "num sk \<ge> INT_MAX")
  case True
  with wf show ?thesis by (auto simp: OPENSSL_sk_insert_def sk_wf_def)
next
  case False
  define g where "g = (if num_alloc sk \<le> num sk + 1 then sk_grow heap fresh sk else Some sk)"
  have ins: "OPENSSL_sk_insert heap fresh (Some sk) p i = (case g of None \<Rightarrow> (0, Some sk)
       | Some sk \<Rightarrow> (num sk + 1, Some (sk\<lparr>data := (if i \<ge> num sk then (data sk)[num sk := p]
             else (memmove (data sk) (i + 1) i (num sk - i))[i := p]), num := num sk + 1, sorted_flag := False\<rparr>)))"
    unfolding OPENSSL_sk_insert_def option.case if_not_P [OF False] g_def [symmetric] by (cases g) (simp_all add: Let_def)
  have g: "(g = None \<and> \<not> (\<forall>k. heap k)) \<or> (\<exists>sk1. g = Some sk1 \<and> length (data sk1) = num_alloc sk1 \<and>
      num sk1 = num sk \<and> num sk + 1 < num_alloc sk1 \<and> num_alloc sk1 \<le> 2 ^ 33 \<and> 4 \<le> num_alloc sk1 \<and>
      sk_list sk1 = sk_list sk \<and> comp sk1 = comp sk)"
  proof (cases "num_alloc sk \<le> num sk + 1")
    case True
    with False have "num_alloc sk \<le> 2 ^ 32" by simp
    from sk_grow_spec [OF wf this, of heap fresh] True wf False show ?thesis
      by (auto simp: g_def sk_wf_def sk_list_def)
  next
    case no: False
    with wf show ?thesis by (auto simp: g_def sk_wf_def)
  qed
  then show ?thesis
  proof (elim disjE exE conjE)
    assume "g = None" "\<not> (\<forall>k. heap k)"
    then show ?thesis by (simp add: ins)
  next
    fix sk1
    assume h: "g = Some sk1" "length (data sk1) = num_alloc sk1" "num sk1 = num sk" "num sk + 1 < num_alloc sk1"
      "num_alloc sk1 \<le> 2 ^ 33" "4 \<le> num_alloc sk1" "sk_list sk1 = sk_list sk" "comp sk1 = comp sk"
    define d where "d = (if i \<ge> num sk then (data sk1)[num sk := p]
             else (memmove (data sk1) (i + 1) i (num sk - i))[i := p])"
    have d: "take (Suc (num sk)) d = take i (sk_list sk) @ p # drop i (sk_list sk)" "length d = num_alloc sk1"
      using sk_store_list [of "data sk1" "num_alloc sk1" "num sk" i p, folded d_def]
        h(2-4) h(7) [unfolded sk_list_def [of sk1] h(3)] by (simp_all del: take_take drop_take)
    have "OPENSSL_sk_insert heap fresh (Some sk) p i
        = (num sk + 1, Some (sk1\<lparr>data := d, num := num sk + 1, sorted_flag := False\<rparr>))"
      by (simp add: ins h d_def)
    moreover have "sk_wf (sk1\<lparr>data := d, num := num sk + 1, sorted_flag := False\<rparr>)"
      using h d False by (simp add: sk_wf_def)
    ultimately show ?thesis
      using d h length_sk_list [OF wf] by (auto simp: sk_list_def)
  qed
qed

end
