(* ===== verification/Stack_Sort.thy ===== *)
theory Stack_Sort
  imports Stack
begin

text \<open>
  Sorting and searching in \<^verbatim>\<open>stack.c\<close>.  The laws of a comparison function are the locale
  \<open>comparator\<close>; inside it the heap sort is proved to sort, and the binary search to find the first
  match, as the linear search does.
\<close>

text \<open>The linear search.\<close>

lemma sk_first_Some:
  "sk_first P xs k = Some i \<longleftrightarrow> k \<le> i \<and> i - k < length xs \<and> P (xs ! (i - k)) \<and> (\<forall>j < i - k. \<not> P (xs ! j))"
proof (induction xs arbitrary: k)
  case (Cons x xs)
  show ?case
  proof (cases "P x")
    case True
    then show ?thesis by (auto simp: nth_Cons' split: if_splits)
  next
    case False
    have "(i - k < Suc (length xs) \<and> P ((x # xs) ! (i - k)) \<and> (\<forall>j < i - k. \<not> P ((x # xs) ! j)) \<and> k \<le> i)
      \<longleftrightarrow> (Suc k \<le> i \<and> i - Suc k < length xs \<and> P (xs ! (i - Suc k)) \<and> (\<forall>j < i - Suc k. \<not> P (xs ! j)))"
    proof (cases "k < i")
      case True
      then obtain m where m: "i - k = Suc m" "i - Suc k = m" by (metis Suc_diff_Suc)
      then show ?thesis using True False by (auto simp: less_Suc_eq_0_disj)
    next
      case no: False
      then show ?thesis using False by (cases "i = k") auto
    qed
    with False Cons.IH [of "Suc k"] show ?thesis by auto
  qed
qed simp

lemma sk_first_None: "sk_first P xs k = None \<longleftrightarrow> (\<forall>x \<in> set xs. \<not> P x)"
  by (induction xs arbitrary: k) auto

section \<open>Comparison functions\<close>

locale comparator =
  fixes cmp :: "'p \<Rightarrow> 'p \<Rightarrow> int"
  assumes cmp_flip: "cmp a b < 0 \<longleftrightarrow> 0 < cmp b a"
    and cmp_trans: "cmp a b \<le> 0 \<Longrightarrow> cmp b c \<le> 0 \<Longrightarrow> cmp a c \<le> 0"
begin

abbreviation le :: "'p \<Rightarrow> 'p \<Rightarrow> bool" where
  "le a b \<equiv> cmp a b \<le> 0"

lemma cmp_refl [simp]: "cmp a a = 0"
  using cmp_flip [of a a] by linarith

lemma le_total: "le a b \<or> le b a"
  using cmp_flip [of a b] cmp_flip [of b a] by linarith

lemma less_le: "cmp a b < 0 \<Longrightarrow> le a b"
  by simp

lemma not_less_le: "\<not> cmp a b < 0 \<Longrightarrow> le b a"
  using cmp_flip [of a b] by simp

lemma less_le_trans: "cmp a b < 0 \<Longrightarrow> le b c \<Longrightarrow> cmp a c < 0"
  using cmp_trans [of b c a] cmp_flip [of a c] cmp_flip [of a b] by (smt (verit) cmp_trans)

lemma le_less_trans: "le a b \<Longrightarrow> cmp b c < 0 \<Longrightarrow> cmp a c < 0"
  using cmp_trans [of c a b] cmp_flip [of a c] cmp_flip [of b c] by linarith

text \<open>
  Every node from \<open>k\<close> on dominates its children among the first \<open>n\<close> entries, node \<open>i\<close> perhaps
  excepted, whose children are dominated by its parent.
\<close>

definition heap_on :: "nat \<Rightarrow> nat \<Rightarrow> 'p list \<Rightarrow> bool" where
  "heap_on k n d \<longleftrightarrow> (\<forall>p\<ge>k. \<forall>c \<in> {2 * p + 1, 2 * p + 2}. c < n \<longrightarrow> le (d ! c) (d ! p))"

definition heap_but :: "nat \<Rightarrow> nat \<Rightarrow> nat \<Rightarrow> 'p list \<Rightarrow> bool" where
  "heap_but k i n d \<longleftrightarrow>
     (\<forall>p\<ge>k. p \<noteq> i \<longrightarrow> (\<forall>c \<in> {2 * p + 1, 2 * p + 2}. c < n \<longrightarrow> le (d ! c) (d ! p))) \<and>
     (\<forall>p\<ge>k. i \<in> {2 * p + 1, 2 * p + 2} \<longrightarrow> (\<forall>c \<in> {2 * i + 1, 2 * i + 2}. c < n \<longrightarrow> le (d ! c) (d ! p)))"

lemma heap_next_max:
  assumes "left_idx i < n"
  shows "heap_next cmp d i n \<in> {i, 2 * i + 1, 2 * i + 2}"
    "heap_next cmp d i n < n \<or> heap_next cmp d i n = i"
    "\<And>c. c \<in> {i, 2 * i + 1, 2 * i + 2} \<Longrightarrow> c < n \<Longrightarrow> le (d ! c) (d ! heap_next cmp d i n)"
proof -
  have lt: "le (d ! i) (d ! r)" if "cmp (d ! i) (d ! l) < 0" "cmp (d ! l) (d ! r) < 0" for l r
    using cmp_trans [OF less_le [OF that(1)] less_le [OF that(2)]] .
  have ge: "le (d ! l) (d ! r)" if "\<not> cmp (d ! i) (d ! l) < 0" "cmp (d ! i) (d ! r) < 0" for l r
    using cmp_trans [OF not_less_le [OF that(1)] less_le [OF that(2)]] .
  have gl: "le (d ! r) (d ! l)" if "\<not> cmp (d ! l) (d ! r) < 0" for l r
    using not_less_le [OF that] .
  show "heap_next cmp d i n \<in> {i, 2 * i + 1, 2 * i + 2}"
    by (auto simp: heap_next_def left_idx_def Let_def)
  show "heap_next cmp d i n < n \<or> heap_next cmp d i n = i"
    using assms by (auto simp: heap_next_def left_idx_def Let_def)
  show "le (d ! c) (d ! heap_next cmp d i n)" if "c \<in> {i, 2 * i + 1, 2 * i + 2}" "c < n" for c
    using that assms lt ge gl by (auto simp: heap_next_def left_idx_def Let_def)
qed

lemma down_heap_heap:
  "heap_but k i n d \<Longrightarrow> k \<le> i \<Longrightarrow> i < length d \<Longrightarrow> n \<le> length d \<Longrightarrow> heap_on k n (down_heap cmp i n d)"
proof (induction cmp' \<equiv> cmp i n d rule: down_heap.induct)
  case (1 i n d)
  note but = "1.prems"(1) [unfolded heap_but_def]
  show ?case
  proof (cases "left_idx i \<ge> n")
    case True
    with but have "heap_on k n d" by (auto simp: heap_on_def left_idx_def)
    with True show ?thesis by (simp add: down_heap.simps [of cmp i])
  next
    case False
    define m where "m = heap_next cmp d i n"
    have m: "m \<in> {i, 2 * i + 1, 2 * i + 2}" "m < n \<or> m = i"
      "\<And>c. c \<in> {i, 2 * i + 1, 2 * i + 2} \<Longrightarrow> c < n \<Longrightarrow> le (d ! c) (d ! m)"
      using heap_next_max [where i = i and n = n and d = d] False by (simp_all add: m_def)
    show ?thesis
    proof (cases "i = m")
      case True
      with but m have "heap_on k n d" unfolding heap_on_def by (metis insertI2)
      moreover have "heap_next cmp d i n = i" using True m_def by simp
      then have "down_heap cmp i n d = d" by (subst down_heap.simps) simp
      ultimately show ?thesis by simp
    next
      case ne: False
      with m have mn: "m < n" "i < m" "m \<in> {2 * i + 1, 2 * i + 2}" by auto
      let ?e = "swap d i m"
      have e: "?e ! i = d ! m" "?e ! m = d ! i" "\<And>j. j \<noteq> i \<Longrightarrow> j \<noteq> m \<Longrightarrow> ?e ! j = d ! j"
        using "1.prems"(3,4) mn by (simp_all add: swap_def nth_list_update)
      have "heap_but k m n ?e"
        unfolding heap_but_def
      proof (intro conjI allI impI ballI)
        fix p c assume p: "k \<le> p" "p \<noteq> m" "c \<in> {2 * p + 1, 2 * p + 2}" "c < n"
        show "le (?e ! c) (?e ! p)"
        proof (cases "p = i")
          case True
          with p m(3) [of i] m(3) [of c] e mn show ?thesis by (cases "c = m") auto
        next
          case False
          with p mn have "c \<noteq> m" by auto
          show ?thesis
          proof (cases "c = i")
            case True
            with p have "le (d ! m) (d ! p)" using but mn by blast
            with True False e p(2) show ?thesis by simp
          next
            case ci: False
            with but p False have "le (d ! c) (d ! p)" by blast
            with ci False e p(2) \<open>c \<noteq> m\<close> show ?thesis by simp
          qed
        qed
      next
        fix p c assume p: "k \<le> p" "m \<in> {2 * p + 1, 2 * p + 2}" "c \<in> {2 * m + 1, 2 * m + 2}" "c < n"
        with mn have "p = i" by auto
        moreover have "le (d ! c) (d ! m)" using but p "1.prems"(2) mn by (metis less_imp_le order_trans nat_neq_iff)
        moreover have "c \<noteq> i" "c \<noteq> m" using p mn by auto
        ultimately show "le (?e ! c) (?e ! p)" using e by simp
      qed
      moreover have "length ?e = length d" by (simp add: swap_def)
      ultimately have "heap_on k n (down_heap cmp m n ?e)"
        using "1.hyps" False ne mn "1.prems"(2,4) by (simp add: m_def)
      with False ne show ?thesis by (subst down_heap.simps) (simp add: m_def [symmetric])
    qed
  qed
qed

text \<open>What stays: the length, the entries from \<open>n\<close> on, and the multiset.\<close>

lemma swap_perm:
  "i < length d \<Longrightarrow> j < length d \<Longrightarrow> mset (swap d i j) = mset d"
  by (simp add: swap_def mset_swap)

lemma down_heap_keeps:
  "i < n \<Longrightarrow> n \<le> length d \<Longrightarrow> length (down_heap cmp i n d) = length d \<and>
     drop n (down_heap cmp i n d) = drop n d \<and> mset (down_heap cmp i n d) = mset d"
proof (induction cmp' \<equiv> cmp i n d rule: down_heap.induct)
  case (1 i n d)
  let ?m = "heap_next cmp d i n"
  show ?case
  proof (cases "left_idx i \<ge> n \<or> i = ?m")
    case True
    then have "down_heap cmp i n d = d" by (subst down_heap.simps) auto
    then show ?thesis by simp
  next
    case False
    then have m: "?m < n" using heap_next_max(2) [where i = i and n = n and d = d] by auto
    have sw: "length (swap d i ?m) = length d" "drop n (swap d i ?m) = drop n d"
      using "1.prems" m by (simp_all add: swap_def)
    have sm: "mset (swap d i ?m) = mset d" using "1.prems" m by (intro swap_perm) auto
    have "down_heap cmp i n d = down_heap cmp ?m n (swap d i ?m)"
      using False by (subst down_heap.simps) simp
    with "1.hyps" False m "1.prems" sw sm show ?thesis by auto
  qed
qed

lemma take_mset:
  assumes "mset d = mset e" "drop n d = drop n e"
  shows "mset (take n d) = mset (take n e)"
proof -
  have "mset (take n d) + mset (drop n d) = mset (take n e) + mset (drop n e)"
    using assms(1) by (metis append_take_drop_id mset_append)
  with assms(2) show ?thesis by simp
qed

lemma heap_on_but: "heap_on (Suc i) n d \<Longrightarrow> heap_but i i n d"
  by (auto simp: heap_on_def heap_but_def)

lemma build_heap_heap:
  assumes "heap_on i n d" "i \<le> n" "n \<le> length d"
  shows "heap_on 0 n (build_heap cmp n i d) \<and> length (build_heap cmp n i d) = length d \<and>
     drop n (build_heap cmp n i d) = drop n d \<and> mset (build_heap cmp n i d) = mset d"
  using assms
proof (induction i arbitrary: d)
  case (Suc i)
  have k: "length (down_heap cmp i n d) = length d" "drop n (down_heap cmp i n d) = drop n d"
    "mset (down_heap cmp i n d) = mset d"
    using down_heap_keeps [of i n d] Suc.prems by auto
  have "heap_on i n (down_heap cmp i n d)"
    by (rule down_heap_heap [OF heap_on_but]) (use Suc.prems in auto)
  from Suc.IH [OF this] k Suc.prems show ?case by simp
qed simp

lemma heap_start: "heap_on (Suc (parent_idx (n - 1))) n d"
  by (auto simp: heap_on_def parent_idx_def)

text \<open>The root of a heap is its maximum.\<close>

lemma heap_root:
  assumes "heap_on 0 n d" "j < n"
  shows "le (d ! j) (d ! 0)"
  using assms(2)
proof (induction j rule: less_induct)
  case (less j)
  show ?case
  proof (cases "j = 0")
    case False
    then obtain p where p: "p < j" "j \<in> {2 * p + 1, 2 * p + 2}"
      by (intro that [of "(j - 1) div 2"]) auto
    then have "le (d ! j) (d ! p)" using assms(1) less.prems by (auto simp: heap_on_def)
    moreover have "le (d ! p) (d ! 0)" using less p by simp
    ultimately show ?thesis by (rule cmp_trans)
  qed simp
qed

text \<open>
  With \<open>Suc i\<close> entries left in the heap, the entries behind them are sorted and dominate them.
\<close>

lemma extract_max_sorts:
  assumes "heap_on 0 (Suc i) d" "Suc i \<le> n" "n = length d"
    "sorted_wrt le (drop (Suc i) d)" "\<forall>x \<in> set (take (Suc i) d). \<forall>y \<in> set (drop (Suc i) d). le x y"
  shows "sorted_wrt le (extract_max cmp i d) \<and> mset (extract_max cmp i d) = mset d"
  using assms
proof (induction i arbitrary: d)
  case 0
  then obtain x xs where "d = x # xs" by (cases d) auto
  with "0.prems" show ?case by simp
next
  case (Suc i)
  let ?s = "swap d 0 (Suc i)"
  let ?e = "down_heap cmp 0 (Suc i) ?s"
  have len: "Suc i < length d" "length ?s = length d" "d \<noteq> []" using Suc.prems by (auto simp: swap_def)
  have sw: "mset ?s = mset d" using len by (intro swap_perm) auto
  have e: "length ?e = length d" "drop (Suc i) ?e = drop (Suc i) ?s" "mset ?e = mset d"
    using down_heap_keeps [of 0 "Suc i" ?s] len sw by simp_all
  have root: "le x (d ! 0)" if "x \<in> set (take (Suc (Suc i)) d)" for x
    using heap_root [OF Suc.prems(1)] that by (auto simp: in_set_conv_nth)
  have drop_s: "drop (Suc i) ?s = d ! 0 # drop (Suc (Suc i)) d"
    using len by (simp add: swap_def Cons_nth_drop_Suc [symmetric])
  have take_s: "set (take (Suc i) ?s) \<subseteq> set (take (Suc (Suc i)) d)"
  proof
    fix x assume "x \<in> set (take (Suc i) ?s)"
    then obtain j where j: "j < Suc i" "x = ?s ! j" using len by (auto simp: in_set_conv_nth)
    then have "x = d ! j \<or> x = d ! Suc i" using len by (auto simp: swap_def nth_list_update split: if_splits)
    with j len show "x \<in> set (take (Suc (Suc i)) d)"
      by (metis in_set_conv_nth length_take lessI less_SucI min.absorb2 nth_take Suc_leI)
  qed
  have take_e: "set (take (Suc i) ?e) = set (take (Suc i) ?s)"
  proof -
    have "mset (take (Suc i) ?e) = mset (take (Suc i) ?s)"
      using take_mset [of ?e ?s "Suc i"] e sw by simp
    then show ?thesis by (metis set_mset_mset)
  qed
  have "heap_on (Suc 0) (Suc i) ?s"
    unfolding heap_on_def
  proof (intro allI impI ballI)
    fix p c assume p: "Suc 0 \<le> p" "c \<in> {2 * p + 1, 2 * p + 2}" "c < Suc i"
    then have "le (d ! c) (d ! p)" using Suc.prems(1) by (auto simp: heap_on_def)
    moreover have "?s ! c = d ! c" "?s ! p = d ! p" using p len by (auto simp: swap_def nth_list_update)
    ultimately show "le (?s ! c) (?s ! p)" by simp
  qed
  then have heap: "heap_on 0 (Suc i) ?e"
    by (intro down_heap_heap heap_on_but) (use len in auto)
  have tail: "\<forall>y \<in> set (drop (Suc (Suc i)) d). le (d ! 0) y"
  proof -
    have "d ! 0 \<in> set (take (Suc (Suc i)) d)" using len by (cases d) auto
    with Suc.prems(5) show ?thesis by blast
  qed
  have "sorted_wrt le (extract_max cmp i ?e) \<and> mset (extract_max cmp i ?e) = mset ?e"
  proof (rule Suc.IH [OF heap])
    show "Suc i \<le> n" "n = length ?e" using Suc.prems e by simp_all
    show "sorted_wrt le (drop (Suc i) ?e)" using e(2) drop_s tail Suc.prems(4) by simp
    show "\<forall>x \<in> set (take (Suc i) ?e). \<forall>y \<in> set (drop (Suc i) ?e). le x y"
      unfolding take_e e(2) drop_s using take_s root Suc.prems(5) by auto
  qed
  with e(3) show ?case by simp
qed

text \<open>Sorting the first \<open>n\<close> entries; what lies behind them does not matter to \<open>down_heap\<close>.\<close>

lemma heap_sort_full:
  assumes "2 \<le> length d"
  defines "r \<equiv> extract_max cmp (length d - 1) (build_heap cmp (length d) (Suc (parent_idx (length d - 1))) d)"
  shows "sorted_wrt le r \<and> mset r = mset d"
proof -
  let ?n = "length d" and ?b = "build_heap cmp (length d) (Suc (parent_idx (length d - 1))) d"
  have "Suc (parent_idx (?n - 1)) \<le> ?n" using assms(1) by (simp add: parent_idx_def)
  from build_heap_heap [OF heap_start this order_refl] have b: "heap_on 0 ?n ?b" "length ?b = ?n" "mset ?b = mset d"
    by simp_all
  have "Suc (?n - 1) = ?n" using assms(1) by simp
  with extract_max_sorts [of "?n - 1" ?b ?n] b show ?thesis by (simp add: r_def)
qed

lemma down_heap_append:
  "i < n \<Longrightarrow> n \<le> length d \<Longrightarrow> down_heap cmp i n (d @ t) = down_heap cmp i n d @ t"
proof (induction cmp' \<equiv> cmp i n d rule: down_heap.induct)
  case (1 i n d)
  show ?case
  proof (cases "left_idx i \<ge> n")
    case True
    then show ?thesis by (simp add: down_heap.simps)
  next
    case False
    have nx: "heap_next cmp (d @ t) i n = heap_next cmp d i n"
      using False "1.prems" by (auto simp: heap_next_def left_idx_def Let_def nth_append)
    show ?thesis
    proof (cases "i = heap_next cmp d i n")
      case True
      then show ?thesis using nx by (subst (1 2) down_heap.simps) simp
    next
      case ne: False
      then have m: "heap_next cmp d i n < n" using heap_next_max(2) [where i = i and n = n and d = d] False by auto
      have "swap (d @ t) i (heap_next cmp d i n) = swap d i (heap_next cmp d i n) @ t"
        using m "1.prems" by (simp add: swap_def nth_append list_update_append)
      with "1.hyps" [OF False ne m] "1.prems" m False ne nx show ?thesis
        by (subst (1 2) down_heap.simps) (simp add: swap_def)
    qed
  qed
qed

lemma build_heap_append:
  "i \<le> n \<Longrightarrow> n \<le> length d \<Longrightarrow> build_heap cmp n i (d @ t) = build_heap cmp n i d @ t"
proof (induction i arbitrary: d)
  case (Suc i)
  then show ?case using down_heap_keeps [of i n d] by (simp add: down_heap_append)
qed simp

lemma extract_max_append:
  "i < length d \<Longrightarrow> extract_max cmp i (d @ t) = extract_max cmp i d @ t"
proof (induction i arbitrary: d)
  case (Suc i)
  have "swap (d @ t) 0 (Suc i) = swap d 0 (Suc i) @ t" "length (swap d 0 (Suc i)) = length d"
    using Suc.prems by (auto simp: swap_def nth_append list_update_append)
  with Suc down_heap_keeps [of 0 "Suc i" "swap d 0 (Suc i)"] show ?case by (simp add: down_heap_append)
qed simp

lemma heap_sort:
  assumes "2 \<le> n" "n \<le> length d"
  defines "r \<equiv> extract_max cmp (n - 1) (build_heap cmp n (Suc (parent_idx (n - 1))) d)"
  shows "sorted_wrt le (take n r) \<and> mset (take n r) = mset (take n d) \<and> length r = length d \<and> drop n r = drop n d"
proof -
  let ?x = "take n d" and ?t = "drop n d"
  have p: "Suc (parent_idx (n - 1)) \<le> n" using assms(1) by (simp add: parent_idx_def)
  have l: "length ?x = n" using assms(2) by simp
  let ?b = "build_heap cmp n (Suc (parent_idx (n - 1))) ?x"
  have b: "build_heap cmp n (Suc (parent_idx (n - 1))) d = ?b @ ?t"
    using build_heap_append [OF p, of ?x ?t] l by simp
  have lb: "length ?b = n" using build_heap_heap [OF heap_start p, of ?x] l by simp
  have "r = extract_max cmp (n - 1) ?b @ ?t"
    unfolding r_def b using extract_max_append [of "n - 1" ?b ?t] lb assms(1) by simp
  moreover have "sorted_wrt le (extract_max cmp (n - 1) ?b) \<and> mset (extract_max cmp (n - 1) ?b) = mset ?x"
    using heap_sort_full [of ?x] l assms(1) by simp
  moreover from this have "length (extract_max cmp (n - 1) ?b) = n" using l by (metis size_mset)
  ultimately show ?thesis using assms(2) by simp
qed

text \<open>The search.\<close>

lemma sk_bsearch_first:
  assumes "sorted_wrt le (take n d)" "hi \<le> n" "n \<le> length d"
    and "\<And>j. j < lo \<Longrightarrow> cmp p (d ! j) \<noteq> 0"
    and "\<And>m. m < n \<Longrightarrow> cmp p (d ! m) = 0 \<Longrightarrow> \<exists>m' < hi. cmp p (d ! m') = 0"
  shows "sk_bsearch cmp p d lo hi = sk_first (\<lambda>x. cmp p x = 0) (take n d) 0"
  using assms
proof (induction cmp' \<equiv> cmp p d lo hi rule: sk_bsearch.induct)
  case (1 p d lo hi)
  let ?mid = "lo + (hi - lo - 1) div 2"
  have ord: "le (d ! i) (d ! j)" if "i < j" "j < n" for i j
    using sorted_wrt_nth_less [OF "1.prems"(1) that(1)] that "1.prems"(3) by simp
  show ?case
  proof (cases "lo < hi")
    case False
    then have "sk_first (\<lambda>x. cmp p x = 0) (take n d) 0 = None"
      unfolding sk_first_None using "1.prems" by (auto simp: in_set_conv_nth) (metis leI le_less_trans not_less order_less_le_trans)
    with False show ?thesis by (subst sk_bsearch.simps) simp
  next
    case True
    then have mid: "lo \<le> ?mid" "?mid < hi" by auto
    consider "cmp p (d ! ?mid) > 0" | "cmp p (d ! ?mid) < 0" | "cmp p (d ! ?mid) = 0" "hi - lo = 1"
      | "cmp p (d ! ?mid) = 0" "hi - lo \<noteq> 1" by linarith
    then show ?thesis
    proof cases
      case 1
      have "cmp p (d ! j) \<noteq> 0" if "j < ?mid + 1" for j
      proof (cases "j = ?mid")
        case False
        then have "le (d ! j) (d ! ?mid)" using that mid "1.prems"(2) by (intro ord) auto
        moreover have "cmp (d ! ?mid) p < 0" using 1 cmp_flip by blast
        ultimately have "cmp (d ! j) p < 0" by (rule le_less_trans)
        then show ?thesis using cmp_flip by force
      qed (use 1 in simp)
      with "1.hyps"(1) [OF True refl refl 1] "1.prems" have
        "sk_bsearch cmp p d (?mid + 1) hi = sk_first (\<lambda>x. cmp p x = 0) (take n d) 0" by blast
      with True 1 show ?thesis by (subst sk_bsearch.simps) (simp add: Let_def)
    next
      case 2
      have "\<exists>m' < ?mid. cmp p (d ! m') = 0" if "m < n" "cmp p (d ! m) = 0" for m
      proof (rule ccontr)
        assume "\<not> (\<exists>m' < ?mid. cmp p (d ! m') = 0)"
        with that have "?mid \<le> m" by (meson not_less)
        moreover have "?mid \<noteq> m" using 2 that by auto
        ultimately have "le (d ! ?mid) (d ! m)" using that by (intro ord) auto
        with 2 have "cmp p (d ! m) < 0" by (rule less_le_trans)
        with that show False by simp
      qed
      with "1.hyps"(2) [OF True refl refl] 2 "1.prems" mid have
        "sk_bsearch cmp p d lo ?mid = sk_first (\<lambda>x. cmp p x = 0) (take n d) 0" by auto
      with True 2 show ?thesis by (subst sk_bsearch.simps) (simp add: Let_def)
    next
      case 3
      then have "?mid = lo" by simp
      with 3 "1.prems"(2-4) mid have "sk_first (\<lambda>x. cmp p x = 0) (take n d) 0 = Some ?mid"
        unfolding sk_first_Some by auto
      with True 3 show ?thesis by (subst sk_bsearch.simps) (simp add: Let_def)
    next
      case 4
      have "?mid + 1 \<le> n" using mid "1.prems"(2) by simp
      moreover have "\<exists>m' < ?mid + 1. cmp p (d ! m') = 0" using 4 by auto
      ultimately have "sk_bsearch cmp p d lo (?mid + 1) = sk_first (\<lambda>x. cmp p x = 0) (take n d) 0"
        using "1.hyps"(3) [OF True refl refl] 4 "1.prems" by auto
      with True 4 show ?thesis by (subst sk_bsearch.simps) (simp add: Let_def)
    qed
  qed
qed

end

section \<open>Stacks in use\<close>

lemma delete_if_loop:
  assumes "n \<le> length d"
  shows "case foldl (delete_if_step f) (d, 0) [0..<n] of (e, k) \<Rightarrow>
     length e = length d \<and> k \<le> n \<and> take k e = filter (\<lambda>x. \<not> f x) (take n d) \<and> drop n e = drop n d"
  using assms
proof (induction n)
  case (Suc n)
  obtain e k where ek: "foldl (delete_if_step f) (d, 0) [0..<n] = (e, k)" by (cases "foldl (delete_if_step f) (d, 0) [0..<n]")
  with Suc have i: "length e = length d" "k \<le> n" "take k e = filter (\<lambda>x. \<not> f x) (take n d)" "drop n e = drop n d"
    by simp_all
  have en: "e ! n = d ! n" using i(1,4) Suc.prems by (metis Cons_nth_drop_Suc Suc_le_lessD list.inject)
  have dn: "drop (Suc n) e = drop (Suc n) d" using i(4) by (metis drop_Suc tl_drop)
  have tk: "take (Suc k) (e[k := d ! n]) = take k e @ [d ! n]"
    using i(1,2) Suc.prems by (simp add: take_Suc_conv_app_nth)
  show ?case
    using i en dn tk ek Suc.prems by (auto simp: delete_if_step_def take_Suc_conv_app_nth)
qed simp

lemma sk_delete_if_list:
  assumes "sk_wf sk"
  shows "\<exists>sk'. OPENSSL_sk_delete_if (Some sk) f = Some sk' \<and> sk_wf sk' \<and>
     sk_list sk' = filter (\<lambda>x. \<not> f x) (sk_list sk) \<and> comp sk' = comp sk \<and> sorted_flag sk' = sorted_flag sk"
proof -
  obtain e k where ek: "foldl (delete_if_step f) (data sk, 0) [0..<num sk] = (e, k)"
    by (cases "foldl (delete_if_step f) (data sk, 0) [0..<num sk]")
  with delete_if_loop [of "num sk" "data sk" f] assms show ?thesis
    by (auto simp: OPENSSL_sk_delete_if_def sk_wf_def sk_list_def)
qed

lemma sk_delete_ptr_list:
  assumes "sk_wf sk"
  shows "\<exists>sk'. OPENSSL_sk_delete_ptr (Some sk) p = (if p \<in> set (sk_list sk) then p else None, Some sk') \<and> sk_wf sk' \<and>
     sk_list sk' = remove1 p (sk_list sk) \<and> comp sk' = comp sk \<and> sorted_flag sk' = sorted_flag sk"
proof (cases "sk_first (\<lambda>x. x = p) (sk_list sk) 0")
  case None
  then have "p \<notin> set (sk_list sk)" by (auto simp: sk_first_None)
  with None assms show ?thesis by (simp add: OPENSSL_sk_delete_ptr_def sk_list_def remove1_idem)
next
  case (Some i)
  then have i: "i < length (sk_list sk)" "sk_list sk ! i = p" "\<forall>j<i. sk_list sk ! j \<noteq> p"
    by (simp_all add: sk_first_Some)
  have "p \<notin> set (take i (sk_list sk))" using i by (auto simp: in_set_conv_nth)
  moreover have "sk_list sk = take i (sk_list sk) @ p # drop (Suc i) (sk_list sk)"
    using i by (metis id_take_nth_drop)
  ultimately have rm: "remove1 p (sk_list sk) = take i (sk_list sk) @ drop (Suc i) (sk_list sk)"
    by (metis remove1_append remove1.simps(2))
  have mem: "p \<in> set (sk_list sk)" using i by (metis nth_mem)
  have n: "i < num sk" using i(1) assms by (simp add: length_sk_list)
  have del: "OPENSSL_sk_delete_ptr (Some sk) p = OPENSSL_sk_delete (Some sk) i"
    using Some by (simp add: OPENSSL_sk_delete_ptr_def sk_list_def)
  from sk_delete_list [OF assms, of i] n rm mem i(2) del show ?thesis by auto
qed

text \<open>The flag is set only when the entries are in the order of the comparison function.\<close>

definition sk_ordered :: "('c \<Rightarrow> 'a ptr \<Rightarrow> 'a ptr \<Rightarrow> int) \<Rightarrow> ('a, 'c) stack_st \<Rightarrow> bool" where
  "sk_ordered call_cmp sk \<longleftrightarrow> (sorted_flag sk \<longrightarrow>
     (case comp sk of None \<Rightarrow> False | Some c \<Rightarrow> sorted_wrt (\<lambda>a b. call_cmp c a b \<le> 0) (sk_list sk)))"

lemma sorted_wrt_cut:
  assumes "sorted_wrt P xs"
  shows "sorted_wrt P (take i xs @ drop (Suc i) xs)"
proof -
  have "sorted_wrt P (take i xs @ drop i xs)" using assms by simp
  then have "\<forall>x \<in> set (take i xs). \<forall>y \<in> set (drop i xs). P x y" unfolding sorted_wrt_append by blast
  moreover have "set (drop (Suc i) xs) \<subseteq> set (drop i xs)" by (rule set_drop_subset_set_drop) simp
  ultimately show ?thesis
    unfolding sorted_wrt_append using assms sorted_wrt_take sorted_wrt_drop by blast
qed

lemma sk_ordered_del:
  assumes "sk_ordered call_cmp sk" "comp sk' = comp sk" "sorted_flag sk' = sorted_flag sk"
    "sk_list sk' = take i (sk_list sk) @ drop (Suc i) (sk_list sk)"
  shows "sk_ordered call_cmp sk'"
  using assms sorted_wrt_cut by (auto simp: sk_ordered_def split: option.splits)

lemma sk_sort_list:
  assumes wf: "sk_wf sk" and c: "comp sk = Some c" and law: "comparator (call_cmp c)" and ord: "sk_ordered call_cmp sk"
  shows "\<exists>sk'. OPENSSL_sk_sort call_cmp (Some sk) = Some sk' \<and> sk_wf sk' \<and> sorted_flag sk' \<and> comp sk' = comp sk \<and>
     mset (sk_list sk') = mset (sk_list sk) \<and> sorted_wrt (\<lambda>a b. call_cmp c a b \<le> 0) (sk_list sk')"
proof (cases "sorted_flag sk")
  case True
  with assms show ?thesis by (auto simp: OPENSSL_sk_sort_def sk_ordered_def)
next
  case False
  show ?thesis
  proof (cases "num sk \<ge> 2")
    case True
    have "num sk \<le> length (data sk)" using wf by (simp add: sk_wf_def)
    from comparator.heap_sort [OF law True this] False c wf True show ?thesis
      by (auto simp: OPENSSL_sk_sort_def sk_wf_def sk_list_def)
  next
    case small: False
    then have "length (sk_list sk) \<le> 1" using length_sk_list [OF wf] by simp
    then have "sorted_wrt (\<lambda>a b. call_cmp c a b \<le> 0) (sk_list sk)"
      by (cases "sk_list sk") auto
    with False c wf small show ?thesis
      by (auto simp: OPENSSL_sk_sort_def sk_wf_def sk_list_def)
  qed
qed

end
