(* ===== verification/Set_Of.thy ===== *)
theory Set_Of
  imports Ber Cbb_Tree Stack_Sort
begin

text \<open>
  \<^verbatim>\<open>CBB_flush_asn1_set_of\<close> of \<^verbatim>\<open>crypto/bytestring/cbb.c\<close>: the elements of a SET OF are put in the order
  of their encodings.  \<^verbatim>\<open>compare_set_of_element\<close> interprets the contract \<open>comparator\<close>; the C library's
  \<^verbatim>\<open>memcmp\<close> gives the sign of the first difference, and its \<^verbatim>\<open>qsort\<close> is an insertion sort.
\<close>

section \<open>The code\<close>

fun memcmp :: "bytes \<Rightarrow> bytes \<Rightarrow> nat \<Rightarrow> int" where
  "memcmp (x # xs) (y # ys) (Suc n) = (if x < y then - 1 else if y < x then 1 else memcmp xs ys n)"
| "memcmp _ _ _ = 0"

definition OPENSSL_memcmp :: "bytes \<Rightarrow> bytes \<Rightarrow> nat \<Rightarrow> int" where
  "OPENSSL_memcmp s1 s2 n = (if n = 0 then 0 else memcmp s1 s2 n)"

definition compare_set_of_element :: "bytes \<Rightarrow> bytes \<Rightarrow> int" where
  "compare_set_of_element a b
     = (let a_len = length a; b_len = length b;
            min_len = (if a_len < b_len then a_len else b_len);
            ret = OPENSSL_memcmp a b min_len in
        if ret \<noteq> 0 then ret
        else if a_len = b_len then 0
        else if a_len < b_len then - 1 else 1)"

fun insert_by :: "('p \<Rightarrow> 'p \<Rightarrow> int) \<Rightarrow> 'p \<Rightarrow> 'p list \<Rightarrow> 'p list" where
  "insert_by cmp x [] = [x]"
| "insert_by cmp x (y # ys) = (if cmp x y \<le> 0 then x # y # ys else y # insert_by cmp x ys)"

fun qsort :: "('p \<Rightarrow> 'p \<Rightarrow> int) \<Rightarrow> 'p list \<Rightarrow> 'p list" where
  "qsort cmp [] = []"
| "qsort cmp (x # xs) = insert_by cmp x (qsort cmp xs)"

lemma any_element_shrinks: "CBS_get_any_asn1_element cbs = (Some el, rest) \<Longrightarrow> length rest < length cbs"
  by (auto simp: CBS_get_any_asn1_element_def dest!: asn1_element_shrinks)

lemma any_element_shrinks_sym: "(Some el, rest) = CBS_get_any_asn1_element cbs \<Longrightarrow> length rest < length cbs"
  by (metis any_element_shrinks)

text \<open>The number of elements, \<open>None\<close> when the contents are no sequence of elements.\<close>

function count_children :: "bytes \<Rightarrow> nat option" where
  "count_children cbs
     = (if length cbs = 0 then Some 0
        else case CBS_get_any_asn1_element cbs of
               (None, _) \<Rightarrow> None
             | (Some _, cbs) \<Rightarrow> map_option Suc (count_children cbs))"
  by pat_completeness auto
termination
  by (relation "measure length") (auto intro: any_element_shrinks_sym)

declare count_children.simps [simp del]

fun read_children :: "nat \<Rightarrow> bytes \<Rightarrow> bytes list option" where
  "read_children 0 cbs = Some []"
| "read_children (Suc n) cbs
     = (case CBS_get_any_asn1_element cbs of
          (None, _) \<Rightarrow> None
        | (Some el, cbs) \<Rightarrow> map_option (Cons (el_out el)) (read_children n cbs))"

text \<open>The children written one behind the other from \<open>offset\<close> on.\<close>

fun write_children :: "nat \<Rightarrow> bytes list \<Rightarrow> bytes \<Rightarrow> bytes" where
  "write_children offset [] buf = buf"
| "write_children offset (c # cs) buf = write_children (offset + length c) cs (mem_write buf offset c)"

definition sizeof_CBS :: nat where "sizeof_CBS = 16"

definition CBB_flush_asn1_set_of :: "env \<Rightarrow> nat \<Rightarrow> cbb_op" where
  "CBB_flush_asn1_set_of E d s
     = (case CBB_flush E d s of
          (False, s) \<Rightarrow> (False, s)
        | (True, s) \<Rightarrow>
       let cbs = mem_read (cbb_buf s) (CBB_data d s) (CBB_len d s) in
       case count_children cbs of
          None \<Rightarrow> (False, s)
        | Some num_children \<Rightarrow>
       if num_children < 2 then (True, s)
       else case (OPENSSL_memdup (env_heap E) cbs, OPENSSL_calloc (env_heap E) num_children sizeof_CBS) of
          (Some buf, Some _) \<Rightarrow>
            (case read_children num_children buf of
               None \<Rightarrow> (False, s)
             | Some children \<Rightarrow>
                 (True, s\<lparr>cbb_buf := write_children (CBB_data d s) (qsort compare_set_of_element children) (cbb_buf s)\<rparr>))
        | _ \<Rightarrow> (False, s))"

section \<open>The order\<close>

lemma compare_simps [simp]:
  "compare_set_of_element [] [] = 0"
  "compare_set_of_element [] (y # b) = - 1"
  "compare_set_of_element (x # a) [] = 1"
  "compare_set_of_element (x # a) (y # b) = (if x < y then - 1 else if y < x then 1 else compare_set_of_element a b)"
  by (auto simp: compare_set_of_element_def OPENSSL_memcmp_def Let_def)

lemma compare_less: "compare_set_of_element a b < 0 \<longleftrightarrow> 0 < compare_set_of_element b a"
proof (induction a arbitrary: b)
  case Nil
  show ?case by (cases b) simp_all
next
  case (Cons x a)
  show ?case by (cases b) (auto simp: Cons)
qed

lemma compare_trans:
  "compare_set_of_element a b \<le> 0 \<Longrightarrow> compare_set_of_element b c \<le> 0 \<Longrightarrow> compare_set_of_element a c \<le> 0"
proof (induction a arbitrary: b c)
  case Nil
  show ?case by (cases c) simp_all
next
  case (Cons x a)
  from Cons.prems obtain y b' where b: "b = y # b'" by (cases b) auto
  with Cons.prems obtain z c' where c: "c = z # c'" by (cases c) auto
  from Cons.prems have "x \<le> y" "y \<le> z" by (auto simp: b c split: if_splits)
  then have "x < z \<or> (x = y \<and> y = z)" by auto
  then show ?case using Cons b c by (auto split: if_splits)
qed

lemma compare_eq: "compare_set_of_element a b = 0 \<longleftrightarrow> a = b"
proof (induction a arbitrary: b)
  case Nil
  show ?case by (cases b) simp_all
next
  case (Cons x a)
  show ?case by (cases b) (auto simp: Cons)
qed

interpretation set_of: comparator compare_set_of_element
  by unfold_locales (rule compare_less, rule compare_trans)

lemma qsort_mset: "mset (qsort cmp xs) = mset xs"
proof -
  have "mset (insert_by cmp x ys) = add_mset x (mset ys)" for x ys
    by (induction ys) auto
  then show ?thesis by (induction xs) auto
qed

lemma qsort_length: "length (concat (qsort cmp xs)) = length (concat xs)"
proof -
  have "length (concat (insert_by cmp x ys)) = length x + length (concat ys)" for x ys
    by (induction ys) auto
  then show ?thesis by (induction xs) auto
qed

context comparator
begin

lemma insert_by_sorted: "sorted_wrt le xs \<Longrightarrow> sorted_wrt le (insert_by cmp x xs)"
proof (induction xs)
  case (Cons y ys)
  have set: "set (insert_by cmp x ys) = insert x (set ys)" by (induction ys) auto
  show ?case
  proof (cases "le x y")
    case True
    with Cons.prems show ?thesis using cmp_trans by fastforce
  next
    case False
    then have "le y x" using le_total by blast
    with False Cons set show ?thesis by auto
  qed
qed simp

lemma qsort_sorted: "sorted_wrt le (qsort cmp xs)"
  by (induction xs) (simp_all add: insert_by_sorted)

end

section \<open>Reading and writing the children\<close>

definition der_bytes :: "bytes \<Rightarrow> bool" where
  "der_bytes c \<longleftrightarrow> (\<exists>tag body. valid_element tag body \<and> c = der_element tag body)"

lemma any_element_iff:
  "(\<exists>el. CBS_get_any_asn1_element cbs = (Some el, rest) \<and> el_out el = c) \<longleftrightarrow> der_bytes c \<and> cbs = c @ rest"
proof
  assume "\<exists>el. CBS_get_any_asn1_element cbs = (Some el, rest) \<and> el_out el = c"
  then obtain el where el: "CBS_get_any_asn1_element cbs = (Some el, rest)" "el_out el = c" by blast
  from parse_element_sound [OF el(1)] el(2) show "der_bytes c \<and> cbs = c @ rest"
    unfolding der_bytes_def der_record_def by (metis asn1_element.select_convs(1))
next
  assume "der_bytes c \<and> cbs = c @ rest"
  then show "\<exists>el. CBS_get_any_asn1_element cbs = (Some el, rest) \<and> el_out el = c"
    using parse_der_element by (auto simp: der_bytes_def der_record_def)
qed

lemma der_bytes_nonempty: "der_bytes c \<Longrightarrow> c \<noteq> []"
  by (auto simp: der_bytes_def der_element_nonempty)

lemma count_read:
  "count_children cbs = Some n \<Longrightarrow>
     \<exists>cs. length cs = n \<and> list_all der_bytes cs \<and> cbs = concat cs \<and> read_children n cbs = Some cs"
proof (induction cbs arbitrary: n rule: count_children.induct)
  case (1 cbs)
  show ?case
  proof (cases "cbs = []")
    case True
    with "1.prems" show ?thesis by (simp add: count_children.simps)
  next
    case False
    with "1.prems" obtain el rest m where el: "CBS_get_any_asn1_element cbs = (Some el, rest)"
      and m: "count_children rest = Some m" "n = Suc m"
      by (auto simp: count_children.simps [of cbs] split: prod.splits option.splits)
    from "1.IH" [of "Some el" rest el m] False el m(1) obtain cs where
      cs: "length cs = m" "list_all der_bytes cs" "rest = concat cs" "read_children m rest = Some cs" by auto
    have "der_bytes (el_out el) \<and> cbs = el_out el @ rest" using any_element_iff el by blast
    with cs el m(2) show ?thesis by (intro exI [of _ "el_out el # cs"]) simp
  qed
qed

lemma count_concat: "list_all der_bytes cs \<Longrightarrow> count_children (concat cs) = Some (length cs)"
proof (induction cs)
  case Nil
  show ?case by (simp add: count_children.simps)
next
  case (Cons c cs)
  then obtain el where "CBS_get_any_asn1_element (c @ concat cs) = (Some el, concat cs)"
    using any_element_iff [of "c @ concat cs" "concat cs" c] by auto
  with Cons der_bytes_nonempty show ?case by (simp add: count_children.simps [of "c @ concat cs"])
qed

lemma write_children_eq:
  "offset + length (concat cs) \<le> length buf \<Longrightarrow>
   write_children offset cs buf = take offset buf @ concat cs @ drop (offset + length (concat cs)) buf"
proof (induction cs arbitrary: offset buf)
  case (Cons c cs)
  let ?b = "mem_write buf offset c"
  have b: "length ?b = length buf" "take (offset + length c) ?b = take offset buf @ c"
    "drop (offset + length c + n) ?b = drop (offset + length c + n) buf" for n
    using Cons.prems by (auto simp: mem_write_def ac_simps)
  have "write_children (offset + length c) cs ?b
      = take (offset + length c) ?b @ concat cs @ drop (offset + length c + length (concat cs)) ?b"
    by (rule Cons.IH) (use Cons.prems b(1) in simp)
  with b show ?case by (simp add: add.assoc)
qed simp

lemma CBB_data_le: "cbb_wf s \<Longrightarrow> length (cbb_children s) = d \<Longrightarrow> CBB_data d s + CBB_len d s = cbb_len s"
proof (cases "cbb_children s" rule: rev_cases)
  case (snoc cs c)
  assume "cbb_wf s" "length (cbb_children s) = d"
  with snoc have "child_offset c + child_pending_len_len c \<le> cbb_len s" "d \<noteq> 0" "cbb_children s ! (d - 1) = c"
    by (auto simp: cbb_wf_def child_chain_append nth_append)
  then show ?thesis by (simp add: CBB_data_def CBB_len_def Let_def)
qed (simp add: CBB_data_def CBB_len_def)

lemma set_of_flush:
  assumes s: "cbb_wf s" "\<not> cbb_error s" "length (cbb_children s) = d"
  shows "case CBB_flush_asn1_set_of E d s of
      (True, s') \<Rightarrow> \<exists>cs. list_all der_bytes cs \<and> drop (CBB_data d s) (cbb_bytes s) = concat cs \<and>
         cbb_bytes s' = take (CBB_data d s) (cbb_bytes s) @ concat (qsort compare_set_of_element cs) \<and>
         cbb_wf s' \<and> \<not> cbb_error s' \<and> cbb_children s' = cbb_children s
    | (False, s') \<Rightarrow> s' = s \<and>
         \<not> ((\<forall>k. env_heap E k) \<and> length (cbb_bytes s) < 2 ^ 59 \<and>
            (\<exists>cs. list_all der_bytes cs \<and> drop (CBB_data d s) (cbb_bytes s) = concat cs))"
proof -
  let ?o = "CBB_data d s" and ?n = "CBB_len d s"
  have on: "?o + ?n = cbb_len s" by (rule CBB_data_le [OF s(1,3)])
  have wf: "cbb_len s \<le> length (cbb_buf s)" using s(1) by (simp add: cbb_wf_def)
  have cbs: "mem_read (cbb_buf s) ?o ?n = drop ?o (cbb_bytes s)" (is "_ = ?c")
    by (simp add: mem_read_def cbb_bytes_def drop_take flip: on)
  have lc: "length ?c = ?n" using on length_cbb_bytes [OF s(1)] by simp
  have fl: "CBB_flush E d s = (True, s)" using s by (simp add: CBB_flush_leaf)
  note code = CBB_flush_asn1_set_of_def [of E d s, unfolded fl prod.case bool.case Let_def cbs]
  show ?thesis
  proof (cases "count_children ?c")
    case None
    with count_concat have "\<not> (\<exists>cs. list_all der_bytes cs \<and> ?c = concat cs)" by auto
    with None show ?thesis by (simp add: code)
  next
    case (Some n)
    from count_read [OF this] obtain cs where cs: "length cs = n" "list_all der_bytes cs" "?c = concat cs"
      "read_children n ?c = Some cs" by blast
    show ?thesis
    proof (cases "n < 2")
      case True
      have "qsort compare_set_of_element cs = cs" using True cs(1) by (cases cs) (auto simp: length_Suc_conv)
      with True Some cs s show ?thesis
        by (auto simp: code intro!: exI [of _ cs]) (metis append_take_drop_id)
    next
      case False
      have nn: "n \<le> ?n"
      proof -
        have "length cs \<le> length (concat cs)"
          using cs(2) by (induction cs) (auto dest!: der_bytes_nonempty simp: Suc_le_eq add_strict_increasing)
        with cs(1,3) lc show ?thesis by simp
      qed
      have pos: "?c \<noteq> []" using nn lc False by auto
      show ?thesis
      proof (cases "OPENSSL_memdup (env_heap E) ?c = None \<or> OPENSSL_calloc (env_heap E) n sizeof_CBS = None")
        case True
        have "\<not> ((\<forall>k. env_heap E k) \<and> length (cbb_bytes s) < 2 ^ 59)"
        proof
          assume m: "(\<forall>k. env_heap E k) \<and> length (cbb_bytes s) < 2 ^ 59"
          then have "?n < 2 ^ 59" using on length_cbb_bytes [OF s(1)] by simp
          with m nn lc pos True show False
            by (auto simp: OPENSSL_memdup_def OPENSSL_calloc_def OPENSSL_zalloc_def OPENSSL_malloc_def
                OPENSSL_MALLOC_PREFIX_def sizeof_CBS_def split: if_splits)
        qed
        with True Some False show ?thesis by (auto simp: code split: option.split)
      next
        case mem: False
        then obtain b z where bz: "OPENSSL_memdup (env_heap E) ?c = Some b" "OPENSSL_calloc (env_heap E) n sizeof_CBS = Some z"
          by auto
        then have b: "b = ?c" by (auto simp: OPENSSL_memdup_def split: if_splits)
        let ?q = "qsort compare_set_of_element cs"
        have lq: "length (concat ?q) = ?n"
          using qsort_length [of compare_set_of_element cs] cs(3) lc by simp
        let ?s = "s\<lparr>cbb_buf := write_children ?o ?q (cbb_buf s)\<rparr>"
        have w: "write_children ?o ?q (cbb_buf s) = take ?o (cbb_buf s) @ concat ?q @ drop (cbb_len s) (cbb_buf s)"
          using write_children_eq [of ?o ?q "cbb_buf s"] lq on wf by simp
        have "length (take ?o (cbb_buf s) @ concat ?q) = cbb_len s" using lq on wf by simp
        then have "take (cbb_len s) ((take ?o (cbb_buf s) @ concat ?q) @ drop (cbb_len s) (cbb_buf s))
            = take ?o (cbb_buf s) @ concat ?q"
          by (metis append_eq_conv_conj)
        moreover have "take ?o (cbb_bytes s) = take ?o (cbb_buf s)" using on by (simp add: cbb_bytes_def min_def)
        ultimately have "cbb_bytes ?s = take ?o (cbb_bytes s) @ concat ?q" by (simp add: cbb_bytes_def w)
        moreover have "cbb_wf ?s" using s(1) lq on wf by (simp add: cbb_wf_def w)
        moreover have "CBB_flush_asn1_set_of E d s = (True, ?s)"
          using Some False bz cs(4) b by (simp add: code)
        ultimately show ?thesis using s cs by auto
      qed
    qed
  qed
qed

section \<open>The order of X.690\<close>

text \<open>
  The order of the encodings in a SET OF (X.690, section 11.6), stated on its own: octet by octet from the left, as
  unsigned numbers, a string before any that continues it.
\<close>

fun octets_le :: "bytes \<Rightarrow> bytes \<Rightarrow> bool" where
  "octets_le [] ys \<longleftrightarrow> True"
| "octets_le (x # xs) [] \<longleftrightarrow> False"
| "octets_le (x # xs) (y # ys) \<longleftrightarrow> unat x < unat y \<or> unat x = unat y \<and> octets_le xs ys"

lemma compare_Nil: "compare_set_of_element [] ys \<le> 0"
  by (cases ys) simp_all

lemma compare_octets: "compare_set_of_element a b \<le> 0 \<longleftrightarrow> octets_le a b"
  by (induction a b rule: octets_le.induct) (auto simp: word_less_nat_alt word_unat_eq_iff compare_Nil)

lemma sorted_octets: "sorted_wrt octets_le (qsort compare_set_of_element cs)"
  using set_of.qsort_sorted [of cs] by (simp only: compare_octets)

section \<open>Properties\<close>

text \<open>
  C18: SET OF.  On a handle without open children, \<^verbatim>\<open>CBB_flush_asn1_set_of\<close> succeeds only when the
  contents are a sequence of DER elements, and leaves the same elements in ascending order of their
  encodings, compared octet by octet (\<open>octets_le\<close>), with the rest of the builder as it was; it fails, changing nothing, only when the
  contents are no such sequence or memory runs out.
\<close>
theorem set_of_sorted:
  assumes "cbb_wf s" "\<not> cbb_error s" "length (cbb_children s) = d"
  shows "case CBB_flush_asn1_set_of E d s of
      (True, s') \<Rightarrow> \<exists>cs cs'. list_all der_bytes cs \<and> drop (CBB_data d s) (cbb_bytes s) = concat cs \<and>
         mset cs' = mset cs \<and> sorted_wrt octets_le cs' \<and>
         cbb_bytes s' = take (CBB_data d s) (cbb_bytes s) @ concat cs' \<and>
         cbb_wf s' \<and> \<not> cbb_error s' \<and> cbb_children s' = cbb_children s
    | (False, s') \<Rightarrow> s' = s \<and>
         \<not> ((\<forall>k. env_heap E k) \<and> length (cbb_bytes s) < 2 ^ 59 \<and>
            (\<exists>cs. list_all der_bytes cs \<and> drop (CBB_data d s) (cbb_bytes s) = concat cs))"
  using set_of_flush [OF assms, of E] qsort_mset sorted_octets
  by (fastforce split: prod.splits bool.splits)

lemma set_of_sorted_witness:
  "let s = (CBB_init_fixed [5, 0, 4, 0])\<lparr>cbb_len := 4\<rparr>; s' = snd (CBB_flush_asn1_set_of sample_env 0 s) in
   \<exists>cs cs'. list_all der_bytes cs \<and> [5, 0, 4, 0] = concat cs \<and> mset cs' = mset cs \<and>
      sorted_wrt octets_le cs' \<and> cbb_bytes s' = concat cs'"
proof -
  define s where "s = (CBB_init_fixed [5, 0, 4, 0])\<lparr>cbb_len := 4\<rparr>"
  have s: "cbb_wf s" "\<not> cbb_error s" "length (cbb_children s) = 0" "cbb_bytes s = [5, 0, 4, 0]"
    by (simp_all add: s_def cbb_wf_def CBB_init_fixed_def cbb_init_def cbb_bytes_def)
  have tags: "der_tag 5 = [5]" "der_tag 4 = [4]" by (simp_all add: der_tag_def tag_number_def tag_bits_def)
  have "der_element 5 [] = [5, 0]" "der_element 4 [] = [4, 0]"
    by (simp_all add: der_element_def der_header_def der_length_def tags)
  moreover have "valid_element 5 []" "valid_element 4 []" by (simp_all add: valid_element_def valid_tag_def)
  ultimately have "list_all der_bytes [[5, 0], [4, 0]]" unfolding der_bytes_def by simp metis
  then have parts: "\<exists>cs. list_all der_bytes cs \<and> [5, 0, 4, 0] = concat cs"
    by (intro exI [of _ "[[5, 0], [4, 0]]"]) simp
  have heap: "\<forall>k. env_heap sample_env k" by (simp add: sample_env_def)
  have zero: "CBB_data 0 s = 0" by (simp add: CBB_data_def)
  obtain ok s' where r: "CBB_flush_asn1_set_of sample_env 0 s = (ok, s')" by (cases "CBB_flush_asn1_set_of sample_env 0 s")
  from set_of_sorted [OF s(1-3), of sample_env] parts heap show ?thesis
    unfolding s_def [symmetric] r zero s(4) Let_def by (cases ok) auto
qed

end
