(* ===== verification/Stack_Props.thy ===== *)
theory Stack_Props
  imports Set_Of
begin

text \<open>
  The stacks a program can build with the calls of \<^verbatim>\<open>stack.c\<close> (\<open>sk_reach\<close>), their invariant, and the properties of the container.  A contract \<open>pointer_seq\<close>
  collects what insertion and deletion promise; the facts about queues are proved from it alone.
\<close>

section \<open>The container contract\<close>

locale pointer_seq =
  fixes wf :: "'s \<Rightarrow> bool" and elems :: "'s \<Rightarrow> 'p list"
    and ins :: "'s \<Rightarrow> 'p \<Rightarrow> nat \<Rightarrow> 's option" and del :: "'s \<Rightarrow> nat \<Rightarrow> 'p \<times> 's"
  assumes ins: "wf s \<Longrightarrow> ins s p i = Some s' \<Longrightarrow> wf s' \<and> elems s' = take i (elems s) @ p # drop i (elems s)"
    and del: "wf s \<Longrightarrow> i < length (elems s) \<Longrightarrow> del s i = (p, s') \<Longrightarrow>
      p = elems s ! i \<and> wf s' \<and> elems s' = take i (elems s) @ drop (Suc i) (elems s)"
begin

fun add_all :: "'s \<Rightarrow> 'p list \<Rightarrow> 's option" where
  "add_all s [] = Some s"
| "add_all s (p # ps) = (case ins s p (length (elems s)) of None \<Rightarrow> None | Some s \<Rightarrow> add_all s ps)"

fun take_all :: "nat \<Rightarrow> 's \<Rightarrow> 'p list" where
  "take_all 0 s = []"
| "take_all (Suc n) s = (case del s 0 of (p, s) \<Rightarrow> p # take_all n s)"

lemma add_all_elems: "wf s \<Longrightarrow> add_all s ps = Some s' \<Longrightarrow> wf s' \<and> elems s' = elems s @ ps"
proof (induction ps arbitrary: s)
  case (Cons p ps)
  then obtain s1 where s1: "ins s p (length (elems s)) = Some s1" "add_all s1 ps = Some s'"
    by (auto split: option.splits)
  from ins [OF Cons.prems(1) s1(1)] Cons.IH [OF _ s1(2)] show ?case by simp
qed simp

lemma take_all_elems: "wf s \<Longrightarrow> n \<le> length (elems s) \<Longrightarrow> take_all n s = take n (elems s)"
proof (induction n arbitrary: s)
  case (Suc n)
  obtain p s1 where d: "del s 0 = (p, s1)" by (cases "del s 0")
  have "0 < length (elems s)" using Suc.prems(2) by linarith
  from del [OF Suc.prems(1) this d] have "p = elems s ! 0" "wf s1" "elems s1 = drop 1 (elems s)" by auto
  moreover obtain x xs where "elems s = x # xs" using Suc.prems by (cases "elems s") auto
  ultimately show ?case using Suc d by simp
qed simp

lemma queue: "wf s \<Longrightarrow> elems s = [] \<Longrightarrow> add_all s ps = Some s' \<Longrightarrow> take_all (length ps) s' = ps"
  using add_all_elems [of s ps s'] take_all_elems [of s' "length ps"] by simp

lemma ins_del:
  assumes "wf s" "i \<le> length (elems s)" "ins s p i = Some s'" "del s' i = (q, s'')"
  shows "q = p \<and> elems s'' = elems s"
proof -
  from ins [OF assms(1,3)] have s': "wf s'" "elems s' = take i (elems s) @ p # drop i (elems s)" by simp_all
  with assms(2) have i: "i < length (elems s')" "elems s' ! i = p" by (simp_all add: nth_append)
  from del [OF s'(1) i(1) assms(4)] i(2) s'(2) assms(2) show ?thesis by simp
qed

end

text \<open>The calls of the code as operations on stacks: a failed insertion gives no stack.\<close>

definition stack_ins :: "heap \<Rightarrow> (nat \<Rightarrow> 'a ptr) \<Rightarrow> ('a, 'c) stack_st \<Rightarrow> 'a ptr \<Rightarrow> nat \<Rightarrow> ('a, 'c) stack_st option" where
  "stack_ins heap fresh sk p i = (case OPENSSL_sk_insert heap fresh (Some sk) p i of (n, sk') \<Rightarrow> if n = 0 then None else sk')"

definition stack_del :: "('a, 'c) stack_st \<Rightarrow> nat \<Rightarrow> 'a ptr \<times> ('a, 'c) stack_st" where
  "stack_del sk i = (case OPENSSL_sk_delete (Some sk) i of (p, sk') \<Rightarrow> (p, the sk'))"

interpretation stack_seq: pointer_seq sk_wf sk_list "stack_ins heap fresh" stack_del for heap fresh
proof
  fix s :: "('a, 'c) stack_st" and p i s'
  assume wf: "sk_wf s" and i: "stack_ins heap fresh s p i = Some s'"
  from sk_insert_list [OF wf, of heap fresh p i] i
  show "sk_wf s' \<and> sk_list s' = take i (sk_list s) @ p # drop i (sk_list s)"
    by (auto simp: stack_ins_def split: prod.splits if_splits)
next
  fix s :: "('a, 'c) stack_st" and p i s'
  assume wf: "sk_wf s" and i: "i < length (sk_list s)" "stack_del s i = (p, s')"
  from sk_delete_list [OF wf, of i] i wf
  show "p = sk_list s ! i \<and> sk_wf s' \<and> sk_list s' = take i (sk_list s) @ drop (Suc i) (sk_list s)"
    by (auto simp: stack_del_def length_sk_list)
qed

section \<open>Reachable stacks\<close>

text \<open>
  The stacks that the calls of \<^verbatim>\<open>stack.c\<close> lead to, with a mark: \<open>True\<close> if no entry was written by \<^verbatim>\<open>OPENSSL_sk_set\<close>, or
  copied by a function after which entries compare differently, while the sorted flag was set.  The mark is about the
  history, not part of the state: \<open>OPENSSL_sk_set\<close> takes it away, and it is back when the flag is clear.
\<close>

definition copied :: "('a \<Rightarrow> 'a ptr) \<Rightarrow> 'a ptr \<Rightarrow> 'a ptr \<Rightarrow> bool" where
  "copied f p q \<longleftrightarrow> (case p of None \<Rightarrow> q = None | Some a \<Rightarrow> q = f a \<and> q \<noteq> None)"

definition copy_respects :: "('c \<Rightarrow> 'a ptr \<Rightarrow> 'a ptr \<Rightarrow> int) \<Rightarrow> ('a \<Rightarrow> 'a ptr) \<Rightarrow> bool" where
  "copy_respects call_cmp f \<longleftrightarrow> (\<forall>c p q p' q'. copied f p p' \<longrightarrow> copied f q q' \<longrightarrow> call_cmp c p' q' = call_cmp c p q)"

inductive sk_reach :: "('c \<Rightarrow> 'a ptr \<Rightarrow> 'a ptr \<Rightarrow> int) \<Rightarrow> heap \<Rightarrow> (nat \<Rightarrow> 'a ptr) \<Rightarrow> bool
    \<Rightarrow> ('a, 'c) stack_st \<Rightarrow> bool"
  for call_cmp heap fresh where
  new: "OPENSSL_sk_new heap c = Some sk \<Longrightarrow> sk_reach call_cmp heap fresh True sk"
| insert: "sk_reach call_cmp heap fresh ok sk \<Longrightarrow> OPENSSL_sk_insert heap fresh (Some sk) p i = (n, Some sk') \<Longrightarrow>
    sk_reach call_cmp heap fresh ok sk'"
| push: "sk_reach call_cmp heap fresh ok sk \<Longrightarrow> OPENSSL_sk_push heap fresh (Some sk) p = (n, Some sk') \<Longrightarrow>
    sk_reach call_cmp heap fresh ok sk'"
| delete: "sk_reach call_cmp heap fresh ok sk \<Longrightarrow> OPENSSL_sk_delete (Some sk) i = (p, Some sk') \<Longrightarrow>
    sk_reach call_cmp heap fresh ok sk'"
| delete_ptr: "sk_reach call_cmp heap fresh ok sk \<Longrightarrow> OPENSSL_sk_delete_ptr (Some sk) p = (q, Some sk') \<Longrightarrow>
    sk_reach call_cmp heap fresh ok sk'"
| delete_if: "sk_reach call_cmp heap fresh ok sk \<Longrightarrow> OPENSSL_sk_delete_if (Some sk) f = Some sk' \<Longrightarrow>
    sk_reach call_cmp heap fresh ok sk'"
| shift: "sk_reach call_cmp heap fresh ok sk \<Longrightarrow> OPENSSL_sk_shift (Some sk) = (p, Some sk') \<Longrightarrow>
    sk_reach call_cmp heap fresh ok sk'"
| pop: "sk_reach call_cmp heap fresh ok sk \<Longrightarrow> OPENSSL_sk_pop (Some sk) = (p, Some sk') \<Longrightarrow>
    sk_reach call_cmp heap fresh ok sk'"
| zero: "sk_reach call_cmp heap fresh ok sk \<Longrightarrow> OPENSSL_sk_zero (Some sk) = Some sk' \<Longrightarrow>
    sk_reach call_cmp heap fresh ok sk'"
| sort: "sk_reach call_cmp heap fresh ok sk \<Longrightarrow> OPENSSL_sk_sort call_cmp (Some sk) = Some sk' \<Longrightarrow>
    sk_reach call_cmp heap fresh ok sk'"
| set_cmp: "sk_reach call_cmp heap fresh ok sk \<Longrightarrow> OPENSSL_sk_set_cmp_func sk c = (old, sk') \<Longrightarrow>
    sk_reach call_cmp heap fresh ok sk'"
| dup: "sk_reach call_cmp heap fresh ok sk \<Longrightarrow> OPENSSL_sk_dup heap (Some sk) = Some sk' \<Longrightarrow>
    sk_reach call_cmp heap fresh ok sk'"
| deep_copy: "sk_reach call_cmp heap fresh ok sk \<Longrightarrow> OPENSSL_sk_deep_copy heap f (Some sk) = (freed, Some sk') \<Longrightarrow>
    sk_reach call_cmp heap fresh (ok \<and> copy_respects call_cmp f) sk'"
| set: "sk_reach call_cmp heap fresh ok sk \<Longrightarrow> OPENSSL_sk_set (Some sk) i p = (q, Some sk') \<Longrightarrow>
    sk_reach call_cmp heap fresh False sk'"
| clean: "sk_reach call_cmp heap fresh ok sk \<Longrightarrow> \<not> sorted_flag sk \<Longrightarrow> sk_reach call_cmp heap fresh True sk"

definition sk_inv :: "('c \<Rightarrow> 'a ptr \<Rightarrow> 'a ptr \<Rightarrow> int) \<Rightarrow> ('a, 'c) stack_st \<Rightarrow> bool" where
  "sk_inv call_cmp sk \<longleftrightarrow> sk_wf sk \<and> sk_ordered call_cmp sk"

lemma sk_list_comp [simp]: "sk_list (sk\<lparr>comp := c\<rparr>) = sk_list sk"
  by (simp add: sk_list_def)

lemma sk_inv_del:
  assumes "sk_inv call_cmp sk" "OPENSSL_sk_delete (Some sk) i = (p, Some sk')"
  shows "sk_inv call_cmp sk'"
proof -
  have wf: "sk_wf sk" using assms(1) by (simp add: sk_inv_def)
  from sk_delete_list [OF wf, of i] assms(2) have d: "sk_wf sk'" "comp sk' = comp sk" "sorted_flag sk' = sorted_flag sk"
    "sk_list sk' = (if i < num sk then take i (sk_list sk) @ drop (Suc i) (sk_list sk) else sk_list sk)" by auto
  then have "sk_list sk' = take i (sk_list sk) @ drop (Suc i) (sk_list sk)"
    using length_sk_list [OF wf] by simp
  with d sk_ordered_del [of call_cmp sk sk' i] assms(1) show ?thesis by (simp add: sk_inv_def)
qed

lemma sk_inv_filter:
  assumes "sk_inv call_cmp sk" "sk_wf sk'" "sk_list sk' = filter P (sk_list sk)" "comp sk' = comp sk"
    "sorted_flag sk' = sorted_flag sk"
  shows "sk_inv call_cmp sk'"
  using assms by (auto simp: sk_inv_def sk_ordered_def sorted_wrt_filter split: option.splits)

lemma sk_inv_insert:
  assumes "sk_inv call_cmp sk" "OPENSSL_sk_insert heap fresh (Some sk) p i = (n, Some sk')"
  shows "sk_inv call_cmp sk'"
  using assms sk_insert_list [of sk heap fresh p i] by (auto simp: sk_inv_def sk_ordered_def)

lemma sk_inv_delete_ptr:
  assumes "sk_inv call_cmp sk" "OPENSSL_sk_delete_ptr (Some sk) p = (q, Some sk')"
  shows "sk_inv call_cmp sk'"
proof (cases "sk_first (\<lambda>x. x = p) (take (num sk) (data sk)) 0")
  case None
  with assms show ?thesis by (simp add: OPENSSL_sk_delete_ptr_def)
next
  case (Some i)
  with assms sk_inv_del [of call_cmp sk i q sk'] show ?thesis by (simp add: OPENSSL_sk_delete_ptr_def)
qed

lemma sk_inv_sort:
  assumes "sk_inv call_cmp sk" "\<And>c. comparator (call_cmp c)" "OPENSSL_sk_sort call_cmp (Some sk) = Some sk'"
  shows "sk_inv call_cmp sk'"
proof (cases "comp sk")
  case None
  with assms show ?thesis by (simp add: OPENSSL_sk_sort_def)
next
  case (Some c)
  with sk_sort_list [of sk c call_cmp] assms show ?thesis by (auto simp: sk_inv_def sk_ordered_def)
qed

lemma deep_copy_loop_copied:
  assumes "deep_copy_loop f d i n = Inr d'" "i + n \<le> length d"
  shows "length d' = length d \<and> (\<forall>j < length d. if i \<le> j \<and> j < i + n then copied f (d ! j) (d' ! j) else d' ! j = d ! j)"
  using assms
proof (induction n arbitrary: d i)
  case (Suc n)
  have i: "i < length d" using Suc.prems(2) by simp
  show ?case
  proof (cases "d ! i")
    case None
    with Suc.prems have "deep_copy_loop f d (Suc i) n = Inr d'" by simp
    with Suc.IH [OF this] Suc.prems(2)
    have IH: "length d' = length d" "\<And>j. j < length d \<Longrightarrow> if Suc i \<le> j \<and> j < Suc i + n then copied f (d ! j) (d' ! j) else d' ! j = d ! j"
      by auto
    have "copied f (d ! i) (d' ! i)" using IH(2) [OF i] None by (simp add: copied_def)
    with IH show ?thesis by (auto simp: Suc_le_eq) (metis Suc_leI add_Suc le_neq_implies_less)
  next
    case (Some a)
    with Suc.prems obtain q where q: "f a = Some q" "deep_copy_loop f (d[i := Some q]) (Suc i) n = Inr d'"
      by (auto split: option.splits)
    with Suc.IH [OF q(2)] Suc.prems(2)
    have IH: "length d' = length d" "\<And>j. j < length d \<Longrightarrow> if Suc i \<le> j \<and> j < Suc i + n
        then copied f (d[i := Some q] ! j) (d' ! j) else d' ! j = d[i := Some q] ! j"
      by auto
    have "copied f (d ! i) (d' ! i)" using IH(2) [OF i] i Some q(1) by (simp add: copied_def)
    moreover have "if Suc i \<le> j \<and> j < Suc i + n then copied f (d ! j) (d' ! j) else d' ! j = d ! j" if "j < length d" "j \<noteq> i" for j
    proof -
      have "d[i := Some q] ! j = d ! j" using that(2) by (intro nth_list_update_neq) auto
      with IH(2) [OF that(1)] show ?thesis by (simp only: add_Suc split: if_split)
    qed
    ultimately show ?thesis using IH(1) by (auto simp: Suc_le_eq) (metis Suc_leI add_Suc le_neq_implies_less)
  qed
qed auto

lemma sk_dup_same: "OPENSSL_sk_dup heap (Some sk) = Some sk' \<Longrightarrow> sk' = sk"
  by (cases sk) (auto simp: OPENSSL_sk_dup_def split: if_splits)

lemma sk_deep_copy_list:
  assumes "sk_wf sk" "OPENSSL_sk_deep_copy heap f (Some sk) = (freed, Some sk')"
  shows "sk_wf sk'" "comp sk' = comp sk" "sorted_flag sk' = sorted_flag sk" "list_all2 (copied f) (sk_list sk) (sk_list sk')"
proof -
  obtain d where d: "deep_copy_loop f (data sk) 0 (num sk) = Inr d" "sk' = sk\<lparr>data := d\<rparr>"
    using assms(2) sk_dup_same [of heap sk] by (auto simp: OPENSSL_sk_deep_copy_def split: option.splits sum.splits)
  have n: "num sk < length (data sk)" using assms(1) by (simp add: sk_wf_def)
  from deep_copy_loop_copied [OF d(1)] n
  have c: "length d = length (data sk)" "\<And>j. j < num sk \<Longrightarrow> copied f (data sk ! j) (d ! j)" by auto
  show "sk_wf sk'" using assms(1) c(1) d(2) by (simp add: sk_wf_def)
  show "comp sk' = comp sk" "sorted_flag sk' = sorted_flag sk" using d(2) by simp_all
  show "list_all2 (copied f) (sk_list sk) (sk_list sk')"
    using c n d(2) by (simp add: sk_list_def list_all2_conv_all_nth)
qed

lemma sorted_copied:
  assumes "copy_respects call_cmp f" "list_all2 (copied f) xs ys" "sorted_wrt (\<lambda>a b. call_cmp c a b \<le> 0) xs"
  shows "sorted_wrt (\<lambda>a b. call_cmp c a b \<le> 0) ys"
proof (rule sorted_wrt_iff_nth_less [THEN iffD2], intro allI impI)
  fix i j assume ij: "i < j" "j < length ys"
  then have "copied f (xs ! i) (ys ! i)" "copied f (xs ! j) (ys ! j)" "call_cmp c (xs ! i) (xs ! j) \<le> 0"
    using assms(2,3) by (auto simp: list_all2_conv_all_nth sorted_wrt_iff_nth_less)
  with assms(1) show "call_cmp c (ys ! i) (ys ! j) \<le> 0" unfolding copy_respects_def by metis
qed

lemma sk_inv_deep_copy:
  assumes "sk_inv call_cmp sk" "OPENSSL_sk_deep_copy heap f (Some sk) = (freed, Some sk')" "copy_respects call_cmp f"
  shows "sk_inv call_cmp sk'"
  using sk_deep_copy_list [OF _ assms(2)] sorted_copied [OF assms(3)] assms(1)
  by (auto simp: sk_inv_def sk_ordered_def split: option.splits)

text \<open>What every stack keeps, and what a marked one keeps besides.\<close>

definition sk_sane :: "('a, 'c) stack_st \<Rightarrow> bool" where
  "sk_sane sk \<longleftrightarrow> sk_wf sk \<and> (sorted_flag sk \<longrightarrow> comp sk \<noteq> None)"

lemma sk_inv_sane: "sk_inv call_cmp sk \<Longrightarrow> sk_sane sk"
  by (auto simp: sk_inv_def sk_sane_def sk_ordered_def split: option.splits)

lemma sk_sane_del: "sk_sane sk \<Longrightarrow> OPENSSL_sk_delete (Some sk) i = (p, Some sk') \<Longrightarrow> sk_sane sk'"
  using sk_delete_list [of sk i] by (auto simp: sk_sane_def)

lemma sk_sane_delete_ptr: "sk_sane sk \<Longrightarrow> OPENSSL_sk_delete_ptr (Some sk) p = (q, Some sk') \<Longrightarrow> sk_sane sk'"
  using sk_sane_del [of sk] by (auto simp: OPENSSL_sk_delete_ptr_def split: option.splits)

lemma sk_sane_insert: "sk_sane sk \<Longrightarrow> OPENSSL_sk_insert heap fresh (Some sk) p i = (n, Some sk') \<Longrightarrow> sk_sane sk'"
  using sk_insert_list [of sk heap fresh p i] by (auto simp: sk_sane_def)

lemma sk_sane_sort:
  assumes "sk_sane sk" "\<And>c. comparator (call_cmp c)" "OPENSSL_sk_sort call_cmp (Some sk) = Some sk'"
  shows "sk_sane sk'"
proof (cases "sorted_flag sk")
  case True
  then have "sk' = sk" using assms(3) by (auto simp: OPENSSL_sk_sort_def split: option.splits)
  with assms(1) show ?thesis by simp
next
  case False
  then have "sk_inv call_cmp sk" using assms(1) by (simp add: sk_sane_def sk_inv_def sk_ordered_def)
  from sk_inv_sort [OF this assms(2,3)] show ?thesis by (rule sk_inv_sane)
qed

lemma sk_sane_reach:
  assumes "sk_reach call_cmp heap fresh ok sk" "\<And>c. comparator (call_cmp c)"
  shows "sk_sane sk"
  using assms(1)
proof induction
  case (new c sk)
  then show ?case using sk_new_list [of heap c sk] by (simp add: sk_sane_def)
next
  case (delete_if ok sk f sk')
  then show ?case using sk_delete_if_list [of sk f] by (auto simp: sk_sane_def)
next
  case (shift ok sk p sk')
  then show ?case using sk_sane_del [of sk 0 p sk'] by (auto simp: OPENSSL_sk_shift_def split: if_splits)
next
  case (pop ok sk p sk')
  then show ?case using sk_sane_del [of sk "num sk - 1" p sk'] by (auto simp: OPENSSL_sk_pop_def split: if_splits)
next
  case (zero ok sk sk')
  then show ?case using sk_zero_list [of sk sk'] by (auto simp: sk_sane_def OPENSSL_sk_zero_def split: if_splits)
next
  case (set_cmp ok sk c old sk')
  then show ?case by (auto simp: sk_sane_def sk_wf_def OPENSSL_sk_set_cmp_func_def split: if_splits)
next
  case (dup ok sk sk')
  then show ?case using sk_dup_same by blast
next
  case (deep_copy ok sk f freed sk')
  then show ?case using sk_deep_copy_list [OF _ deep_copy.hyps(2)] by (simp add: sk_sane_def)
next
  case (set ok sk i p q sk')
  then show ?case using sk_set_list [of sk i p q sk'] by (auto simp: sk_sane_def OPENSSL_sk_set_def split: if_splits)
qed (use assms(2) in \<open>auto simp: OPENSSL_sk_push_def intro: sk_sane_insert sk_sane_del sk_sane_delete_ptr sk_sane_sort\<close>)

lemma sk_inv_reach_mark:
  assumes "sk_reach call_cmp heap fresh ok sk" "\<And>c. comparator (call_cmp c)"
  shows "ok \<longrightarrow> sk_inv call_cmp sk"
  using assms(1)
proof induction
  case (new c sk)
  then show ?case using sk_new_list [of heap c sk] by (simp add: sk_inv_def sk_ordered_def)
next
  case (delete_if ok sk f sk')
  show ?case
  proof
    assume ok
    with delete_if have inv: "sk_inv call_cmp sk" by simp
    then have "sk_wf sk" by (simp add: sk_inv_def)
    from sk_delete_if_list [OF this, of f] delete_if(2) sk_inv_filter [OF inv, of sk'] show "sk_inv call_cmp sk'" by auto
  qed
next
  case (shift ok sk p sk')
  then show ?case using sk_inv_del [of call_cmp sk 0 p sk'] by (auto simp: OPENSSL_sk_shift_def split: if_splits)
next
  case (pop ok sk p sk')
  then show ?case using sk_inv_del [of call_cmp sk "num sk - 1" p sk'] by (auto simp: OPENSSL_sk_pop_def split: if_splits)
next
  case (zero ok sk sk')
  then show ?case
    using sk_zero_list [of sk sk'] by (auto simp: sk_inv_def sk_ordered_def OPENSSL_sk_zero_def split: if_splits option.splits)
next
  case (set_cmp ok sk c old sk')
  then show ?case
    by (auto simp: sk_inv_def sk_ordered_def sk_wf_def OPENSSL_sk_set_cmp_func_def split: option.splits)
next
  case (dup ok sk sk')
  then show ?case using sk_dup_same by blast
next
  case (clean ok sk)
  from sk_sane_reach [OF clean.hyps(1) assms(2)] clean.hyps(2) show ?case by (simp add: sk_sane_def sk_inv_def sk_ordered_def)
qed (use assms(2) in \<open>auto simp: OPENSSL_sk_push_def intro: sk_inv_insert sk_inv_del sk_inv_delete_ptr sk_inv_sort sk_inv_deep_copy\<close>)

lemma sk_inv_reach:
  "sk_reach call_cmp heap fresh True sk \<Longrightarrow> (\<And>c. comparator (call_cmp c)) \<Longrightarrow> sk_inv call_cmp sk"
  using sk_inv_reach_mark by blast

lemma sk_find_inv:
  assumes "sk_inv call_cmp sk" "comparator (call_cmp c)" "comp sk = Some c" "p \<noteq> None"
  shows "OPENSSL_sk_find call_cmp (Some sk) p = sk_first (\<lambda>x. call_cmp c p x = 0) (sk_list sk) 0"
proof (cases "OPENSSL_sk_is_sorted (Some sk)")
  case False
  with assms(3,4) show ?thesis by (cases p) (simp_all add: OPENSSL_sk_find_def sk_list_def)
next
  case True
  have wf: "sk_wf sk" using assms(1) by (simp add: sk_inv_def)
  have srt: "sorted_wrt (\<lambda>a b. call_cmp c a b \<le> 0) (take (num sk) (data sk))"
  proof (cases "sorted_flag sk")
    case True
    with assms(1,3) show ?thesis by (simp add: sk_inv_def sk_ordered_def sk_list_def)
  next
    case False
    with True have "length (sk_list sk) < 2" using length_sk_list [OF wf] by (simp add: OPENSSL_sk_is_sorted_def)
    then have "length (sk_list sk) \<le> 1" by simp
    then show ?thesis unfolding sk_list_def [symmetric] by (cases "sk_list sk") auto
  qed
  have "sk_bsearch (call_cmp c) p (data sk) 0 (num sk)
      = sk_first (\<lambda>x. call_cmp c p x = 0) (take (num sk) (data sk)) 0"
    by (rule comparator.sk_bsearch_first [OF assms(2) srt]) (use wf in \<open>auto simp: sk_wf_def\<close>)
  with True assms(3,4) show ?thesis by (cases p) (simp_all add: OPENSSL_sk_find_def sk_list_def)
qed

section \<open>Properties\<close>

text \<open>An example: byte strings compared like the elements of a SET OF, with NULL as the empty string.\<close>

definition bytes_cmp :: "unit \<Rightarrow> bytes ptr \<Rightarrow> bytes ptr \<Rightarrow> int" where
  "bytes_cmp c a b = compare_set_of_element (case_option [] id a) (case_option [] id b)"

lemma bytes_cmp_comparator: "comparator (bytes_cmp c)"
  by unfold_locales (auto simp: bytes_cmp_def compare_less intro: compare_trans)

definition sample_heap :: heap where "sample_heap n = True"

definition sample_stack :: "(u8 list, unit) stack_st" where
  "sample_stack = \<lparr>num = 3, data = [Some [3], Some [1], Some [2], None], sorted_flag = False, num_alloc = 4, comp = Some ()\<rparr>"

lemma sample_stack_wf: "sk_wf sample_stack" "sk_list sample_stack = [Some [3], Some [1], Some [2]]"
  "sk_inv bytes_cmp sample_stack"
  by (simp_all add: sample_stack_def sk_wf_def sk_list_def sk_inv_def sk_ordered_def)

text \<open>
  C17: The container.  On a well-formed stack, insertion at any index (the end, if the index is beyond
  it), deletion by index, by pointer and by predicate are the list operations, keep the stack well
  formed, and insertion fails, changing nothing, only at \<^verbatim>\<open>INT_MAX\<close> entries or without memory.
\<close>
theorem stack_refines_list:
  assumes "sk_wf sk"
  shows "(case OPENSSL_sk_insert heap fresh (Some sk) p i of
       (n, None) \<Rightarrow> False
     | (n, Some sk') \<Rightarrow>
         if n = 0 then sk' = sk \<and> (num sk = INT_MAX \<or> \<not> (\<forall>k. heap k))
         else n = length (sk_list sk') \<and> sk_wf sk' \<and> sk_list sk' = take i (sk_list sk) @ p # drop i (sk_list sk)) \<and>
    (case OPENSSL_sk_delete (Some sk) i of
       (q, None) \<Rightarrow> False
     | (q, Some sk') \<Rightarrow> sk_wf sk' \<and> q = OPENSSL_sk_value (Some sk) i \<and>
         sk_list sk' = take i (sk_list sk) @ drop (Suc i) (sk_list sk)) \<and>
    (case OPENSSL_sk_delete_ptr (Some sk) p of
       (q, None) \<Rightarrow> False
     | (q, Some sk') \<Rightarrow> sk_wf sk' \<and> q = (if p \<in> set (sk_list sk) then p else None) \<and>
         sk_list sk' = remove1 p (sk_list sk)) \<and>
    (case OPENSSL_sk_delete_if (Some sk) f of
       None \<Rightarrow> False
     | Some sk' \<Rightarrow> sk_wf sk' \<and> sk_list sk' = filter (\<lambda>x. \<not> f x) (sk_list sk))"
proof (intro conjI)
  note len = length_sk_list [OF assms]
  show "case OPENSSL_sk_insert heap fresh (Some sk) p i of
       (n, None) \<Rightarrow> False
     | (n, Some sk') \<Rightarrow>
         if n = 0 then sk' = sk \<and> (num sk = INT_MAX \<or> \<not> (\<forall>k. heap k))
         else n = length (sk_list sk') \<and> sk_wf sk' \<and> sk_list sk' = take i (sk_list sk) @ p # drop i (sk_list sk)"
    using sk_insert_list [OF assms, of heap fresh p i] by auto
  show "case OPENSSL_sk_delete (Some sk) i of
       (q, None) \<Rightarrow> False
     | (q, Some sk') \<Rightarrow> sk_wf sk' \<and> q = OPENSSL_sk_value (Some sk) i \<and>
         sk_list sk' = take i (sk_list sk) @ drop (Suc i) (sk_list sk)"
    using sk_delete_list [OF assms, of i] sk_value_list [OF assms, of i] len by auto
  show "case OPENSSL_sk_delete_ptr (Some sk) p of
       (q, None) \<Rightarrow> False
     | (q, Some sk') \<Rightarrow> sk_wf sk' \<and> q = (if p \<in> set (sk_list sk) then p else None) \<and>
         sk_list sk' = remove1 p (sk_list sk)"
    using sk_delete_ptr_list [OF assms, of p] by auto
  show "case OPENSSL_sk_delete_if (Some sk) f of
       None \<Rightarrow> False
     | Some sk' \<Rightarrow> sk_wf sk' \<and> sk_list sk' = filter (\<lambda>x. \<not> f x) (sk_list sk)"
    using sk_delete_if_list [OF assms, of f] by auto
qed

lemma stack_refines_list_witness:
  "case OPENSSL_sk_delete (Some sample_stack) 0 of
     (q, None) \<Rightarrow> False | (q, Some sk') \<Rightarrow> q = Some [3] \<and> sk_list sk' = [Some [1], Some [2]]"
proof -
  have "OPENSSL_sk_value (Some sample_stack) 0 = Some [3]" by (simp add: OPENSSL_sk_value_def sample_stack_def)
  with stack_refines_list [OF sample_stack_wf(1), where heap = sample_heap and fresh = "\<lambda>k. None" and p = None and i = 0
      and f = "\<lambda>x. True"]
  show ?thesis by (auto simp: sample_stack_wf(2) split: prod.splits option.splits)
qed

text \<open>A stack on which the sorting of four entries was called, and what the program does to get there.\<close>

definition sample_sorted :: "(u8 list, unit) stack_st" where
  "sample_sorted = \<lparr>num = 3, data = [Some [1], Some [2], Some [3], None], sorted_flag = True, num_alloc = 4, comp = Some ()\<rparr>"

lemma sample_sorted_reach:
  "sk_reach bytes_cmp sample_heap (\<lambda>k. None) True sample_sorted" "sk_list sample_sorted = [Some [1], Some [2], Some [3]]"
proof -
  let ?R = "sk_reach bytes_cmp sample_heap (\<lambda>k. None) True"
  let ?s = "\<lambda>n d. \<lparr>num = n, data = d, sorted_flag = False, num_alloc = 4, comp = Some ()\<rparr>"
  have r4: "replicate 4 p = [p, p, p, p]" for p :: "u8 list ptr" by (simp add: numeral_eq_Suc)
  have "(OPENSSL_sk_new sample_heap (Some ()) :: (u8 list, unit) stack_st option) = Some (?s 0 [None, None, None, None])"
    by (simp add: OPENSSL_sk_new_def OPENSSL_zalloc_def OPENSSL_calloc_def OPENSSL_malloc_def OPENSSL_MALLOC_PREFIX_def
        sample_heap_def kMinSize_def sizeof_stack_def r4)
  then have r: "?R (?s 0 [None, None, None, None])" by (rule sk_reach.new)
  have "OPENSSL_sk_insert sample_heap (\<lambda>k. None) (Some (?s 0 [None, None, None, None])) (Some [3]) 0
      = (1, Some (?s 1 [Some [3], None, None, None]))" by (simp add: OPENSSL_sk_insert_def Let_def)
  from sk_reach.insert [OF r this] have r: "?R (?s 1 [Some [3], None, None, None])" .
  have "OPENSSL_sk_insert sample_heap (\<lambda>k. None) (Some (?s 1 [Some [3], None, None, None])) (Some [1]) 5
      = (2, Some (?s 2 [Some [3], Some [1], None, None]))" by (simp add: OPENSSL_sk_insert_def Let_def)
  from sk_reach.insert [OF r this] have r: "?R (?s 2 [Some [3], Some [1], None, None])" .
  have "OPENSSL_sk_push sample_heap (\<lambda>k. None) (Some (?s 2 [Some [3], Some [1], None, None])) (Some [2]) = (3, Some sample_stack)"
    by (simp add: OPENSSL_sk_push_def OPENSSL_sk_num_def OPENSSL_sk_insert_def Let_def sample_stack_def)
  from sk_reach.push [OF r this] have r: "?R sample_stack" .
  have "OPENSSL_sk_sort bytes_cmp (Some sample_stack) = Some sample_sorted" by code_simp
  from sk_reach.sort [OF r this] show "?R sample_sorted" .
  show "sk_list sample_sorted = [Some [1], Some [2], Some [3]]" by code_simp
qed

text \<open>
  C14: The sorted flag.  In every state reachable by the calls of the stack, \<^verbatim>\<open>OPENSSL_sk_set\<close> and deep copies
  included, the array has room for one more entry, and the sorted flag is set only when a comparison function is
  installed.  The entries then are in its order, unless \<^verbatim>\<open>OPENSSL_sk_set\<close> wrote one, or a copy changed how they
  compare, while the flag was set.
\<close>
theorem stack_invariant:
  assumes "\<And>c. comparator (call_cmp c)" "sk_reach call_cmp heap fresh ok sk"
  shows "num sk < length (data sk) \<and> length (data sk) = num_alloc sk \<and> num sk \<le> INT_MAX \<and>
    (sorted_flag sk \<longrightarrow> (\<exists>c. comp sk = Some c \<and> (ok \<longrightarrow> sorted_wrt (\<lambda>a b. call_cmp c a b \<le> 0) (sk_list sk))))"
  using sk_sane_reach [OF assms(2,1)] sk_inv_reach_mark [OF assms(2,1)]
  by (auto simp: sk_sane_def sk_inv_def sk_wf_def sk_ordered_def split: option.splits)

lemma stack_invariant_witness:
  "num sample_sorted < length (data sample_sorted) \<and>
     sorted_wrt (\<lambda>a b. bytes_cmp () a b \<le> 0) [Some [1], Some [2], Some [3]]"
  using stack_invariant [OF bytes_cmp_comparator sample_sorted_reach(1)]
  unfolding sample_sorted_reach(2) by (simp add: sample_sorted_def)

text \<open>
  C16: Sorting.  With a lawful comparison function \<^verbatim>\<open>OPENSSL_sk_sort\<close> leaves the same entries in
  ascending order, sets the flag and keeps the stack well formed; the heap sort terminates on every
  input.
\<close>
theorem stack_sort_sorts:
  assumes "sk_inv call_cmp sk" "comp sk = Some c" "comparator (call_cmp c)"
  shows "\<exists>sk'. OPENSSL_sk_sort call_cmp (Some sk) = Some sk' \<and> sk_wf sk' \<and> sorted_flag sk' \<and>
    mset (sk_list sk') = mset (sk_list sk) \<and> sorted_wrt (\<lambda>a b. call_cmp c a b \<le> 0) (sk_list sk')"
  using sk_sort_list [of sk c call_cmp] assms by (auto simp: sk_inv_def)

lemma stack_sort_sorts_witness:
  "\<exists>sk'. OPENSSL_sk_sort bytes_cmp (Some sample_stack) = Some sk' \<and>
     mset (sk_list sk') = {# Some [1], Some [2], Some [3] #} \<and>
     sorted_wrt (\<lambda>a b. bytes_cmp () a b \<le> 0) (sk_list sk')"
proof -
  have c: "comp sample_stack = Some ()" by (simp add: sample_stack_def)
  from stack_sort_sorts [OF sample_stack_wf(3) c bytes_cmp_comparator] show ?thesis
    by (auto simp: sample_stack_wf(2) add_mset_commute)
qed

text \<open>
  C15: Searching.  On every stack reachable by the calls of the stack, as long as no entry was written by
  \<^verbatim>\<open>OPENSSL_sk_set\<close> or copied to one that compares differently while the sorted flag was set, and with a lawful
  comparison function, the binary search of a sorted stack and the linear search of an unsorted one give the same
  answer: the first entry that compares equal, if there is one.
\<close>
theorem stack_find_first:
  assumes "\<And>c. comparator (call_cmp c)" "sk_reach call_cmp heap fresh True sk" "comp sk = Some c" "p \<noteq> None"
  shows "case OPENSSL_sk_find call_cmp (Some sk) p of
      Some i \<Rightarrow> i < OPENSSL_sk_num (Some sk) \<and> call_cmp c p (OPENSSL_sk_value (Some sk) i) = 0 \<and>
        (\<forall>j < i. call_cmp c p (OPENSSL_sk_value (Some sk) j) \<noteq> 0)
    | None \<Rightarrow> \<forall>x \<in> set (sk_list sk). call_cmp c p x \<noteq> 0"
proof -
  have inv: "sk_inv call_cmp sk" by (rule sk_inv_reach [OF assms(2,1)])
  then have wf: "sk_wf sk" by (simp add: sk_inv_def)
  show ?thesis
    unfolding sk_find_inv [OF inv assms(1,3,4)]
    by (auto simp: sk_first_Some sk_first_None sk_value_list [OF wf] length_sk_list [OF wf] OPENSSL_sk_num_def
        split: option.split)
qed

lemma stack_find_first_witness:
  "\<exists>i. OPENSSL_sk_find bytes_cmp (Some sample_sorted) (Some [2]) = Some i \<and> i < 3 \<and>
     bytes_cmp () (Some [2]) (OPENSSL_sk_value (Some sample_sorted) i) = 0"
proof -
  have c: "comp sample_sorted = Some ()" "OPENSSL_sk_num (Some sample_sorted) = 3"
    by (simp_all add: sample_sorted_def OPENSSL_sk_num_def)
  have "Some [2] \<in> set (sk_list sample_sorted)" "bytes_cmp () (Some [2]) (Some [2]) = 0"
    by (simp_all add: sample_sorted_reach(2) bytes_cmp_def)
  with stack_find_first [OF bytes_cmp_comparator sample_sorted_reach(1) c(1), of "Some [2]"] c(2) show ?thesis
    by (auto split: option.splits)
qed

text \<open>
  Writing an entry with \<^verbatim>\<open>OPENSSL_sk_set\<close> keeps the sorted flag.  After the stack \<open>[3, 1, 2]\<close> has
  been sorted and its first entry replaced by 9, the stack still reports to be sorted, and the search
  misses the entry that is there.
\<close>
theorem stack_set_keeps_flag:
  "let s1 = OPENSSL_sk_sort bytes_cmp (Some sample_stack); s2 = snd (OPENSSL_sk_set s1 0 (Some [9])) in
   OPENSSL_sk_is_sorted s2 \<and> OPENSSL_sk_value s2 0 = Some [9] \<and> OPENSSL_sk_find bytes_cmp s2 (Some [9]) = None"
  by code_simp

text \<open>
  Stacks are queues.  Whatever is pushed onto an empty stack comes back in the same order when it
  is shifted out.
\<close>
theorem stack_is_fifo:
  assumes "sk_wf sk" "sk_list sk = []" "stack_seq.add_all heap fresh sk ps = Some sk'"
  shows "stack_seq.take_all (length ps) sk' = ps"
  by (rule stack_seq.queue [OF assms])

lemma stack_is_fifo_witness:
  "\<exists>sk'. stack_seq.add_all sample_heap (\<lambda>k. None) (sample_stack\<lparr>num := 0\<rparr>) [Some [7], None] = Some sk' \<and>
     stack_seq.take_all 2 sk' = [Some [7], None]"
proof -
  let ?s = "sample_stack\<lparr>num := 0\<rparr>"
  have s: "sk_wf ?s" "sk_list ?s = []" by (simp_all add: sample_stack_def sk_wf_def sk_list_def)
  obtain sk' where "stack_seq.add_all sample_heap (\<lambda>k. None) ?s [Some [7], None] = Some sk'"
    by (simp add: stack_ins_def sample_stack_def OPENSSL_sk_insert_def sk_list_def Let_def)
  moreover have "length [Some [7 :: u8], None] = 2" by simp
  ultimately show ?thesis using stack_is_fifo [OF s, of sample_heap "\<lambda>k. None" "[Some [7], None]" sk'] by metis
qed

end
