(* ===== verification/Posix_Time.thy ===== *)
theory Posix_Time
  imports Prelude "HOL-Library.Signed_Division"
begin

text \<open>
  \<^verbatim>\<open>crypto/asn1/posix_time.c\<close>: conversion between broken-down UTC times and seconds since 1970.  C's
  division truncates towards zero and is \<open>sdiv\<close> here.  All intermediate values stay far within 64 bits
  (the dates are bounded by the year 9999), so they are plain integers.
\<close>

section \<open>The code\<close>

record tm =
  tm_year :: int
  tm_mon :: int
  tm_mday :: int
  tm_hour :: int
  tm_min :: int
  tm_sec :: int

definition SECS_PER_HOUR :: int where "SECS_PER_HOUR = 60 * 60"
definition SECS_PER_DAY :: int where "SECS_PER_DAY = 24 * SECS_PER_HOUR"

definition is_valid_date :: "int \<Rightarrow> int \<Rightarrow> int \<Rightarrow> bool" where
  "is_valid_date year month day
     = (if day < 1 \<or> month < 1 \<or> year < 0 \<or> year > 9999 then False
        else if month \<in> {1, 3, 5, 7, 8, 10, 12} then day > 0 \<and> day \<le> 31
        else if month \<in> {4, 6, 9, 11} then day > 0 \<and> day \<le> 30
        else if month = 2
        then if (year smod 4 = 0 \<and> year smod 100 \<noteq> 0) \<or> year smod 400 = 0
             then day > 0 \<and> day \<le> 29 else day > 0 \<and> day \<le> 28
        else False)"

definition is_valid_time :: "int \<Rightarrow> int \<Rightarrow> int \<Rightarrow> bool" where
  "is_valid_time hours minutes seconds
     = (if hours < 0 \<or> minutes < 0 \<or> seconds < 0 \<or> hours > 23 \<or> minutes > 59 \<or> seconds > 59 then False else True)"

definition MIN_POSIX_TIME :: int where "MIN_POSIX_TIME = - 62167219200"
definition MAX_POSIX_TIME :: int where "MAX_POSIX_TIME = 253402300799"

definition is_valid_posix_time :: "int \<Rightarrow> bool" where
  "is_valid_posix_time time \<longleftrightarrow> MIN_POSIX_TIME \<le> time \<and> time \<le> MAX_POSIX_TIME"

definition posix_time_from_utc :: "int \<Rightarrow> int \<Rightarrow> int \<Rightarrow> int \<Rightarrow> int \<Rightarrow> int \<Rightarrow> int option" where
  "posix_time_from_utc year month day hours minutes seconds
     = (if \<not> is_valid_date year month day \<or> \<not> is_valid_time hours minutes seconds then None
        else let year = (if month \<le> 2 then year - 1 else year);
                 era = (if year \<ge> 0 then year else year - 399) sdiv 400;
                 year_of_era = year - era * 400;
                 day_of_year = (153 * (if month > 2 then month - 3 else month + 9) + 2) sdiv 5 + day - 1;
                 day_of_era = year_of_era * 365 + year_of_era sdiv 4 - year_of_era sdiv 100 + day_of_year;
                 posix_days = era * 146097 + day_of_era - 719468 in
             Some (posix_days * SECS_PER_DAY + hours * SECS_PER_HOUR + minutes * 60 + seconds))"

text \<open>Year, month and day of a day counted from 1 March 0000.\<close>

definition date_from_days :: "int \<Rightarrow> int \<times> int \<times> int" where
  "date_from_days days
     = (let era = (if days > 0 then days else days - 146096) sdiv 146097;
            day_of_era = days - era * 146097;
            year_of_era = (day_of_era - day_of_era sdiv 1460 + day_of_era sdiv 36524
                           - day_of_era sdiv 146096) sdiv 365;
            year = year_of_era + era * 400;
            day_of_year = day_of_era - (365 * year_of_era + year_of_era sdiv 4 - year_of_era sdiv 100);
            month_of_year = (5 * day_of_year + 2) sdiv 153;
            month = (if month_of_year < 10 then month_of_year + 3 else month_of_year - 9);
            year = (if month \<le> 2 then year + 1 else year);
            day = day_of_year - (153 * month_of_year + 2) sdiv 5 + 1 in
        (year, month, day))"

text \<open>Year, month, day, hours, minutes and seconds.\<close>

definition utc_from_posix_time :: "int \<Rightarrow> (int \<times> int \<times> int \<times> int \<times> int \<times> int) option" where
  "utc_from_posix_time time
     = (if \<not> is_valid_posix_time time then None
        else let days = time sdiv SECS_PER_DAY;
                 leftover_seconds = time smod SECS_PER_DAY;
                 (days, leftover_seconds) =
                   (if leftover_seconds < 0 then (days - 1, leftover_seconds + SECS_PER_DAY)
                    else (days, leftover_seconds));
                 days = days + 719468;
                 (year, month, day) = date_from_days days;
                 hours = leftover_seconds sdiv SECS_PER_HOUR;
                 leftover_seconds = leftover_seconds smod SECS_PER_HOUR in
             Some (year, month, day, hours, leftover_seconds sdiv 60, leftover_seconds smod 60))"

definition OPENSSL_tm_to_posix :: "tm \<Rightarrow> int option" where
  "OPENSSL_tm_to_posix tm
     = posix_time_from_utc (tm_year tm + 1900) (tm_mon tm + 1) (tm_mday tm) (tm_hour tm) (tm_min tm) (tm_sec tm)"

definition OPENSSL_posix_to_tm :: "int \<Rightarrow> tm option" where
  "OPENSSL_posix_to_tm time
     = (case utc_from_posix_time time of
          None \<Rightarrow> None
        | Some (year, mon, mday, hour, minute, sec) \<Rightarrow>
            Some \<lparr>tm_year = year - 1900, tm_mon = mon - 1, tm_mday = mday, tm_hour = hour, tm_min = minute, tm_sec = sec\<rparr>)"

text \<open>\<open>bits\<close> is the width of \<^verbatim>\<open>time_t\<close>, 32 or 64.\<close>

definition OPENSSL_timegm :: "nat \<Rightarrow> tm \<Rightarrow> int option" where
  "OPENSSL_timegm bits tm
     = (case OPENSSL_tm_to_posix tm of
          None \<Rightarrow> None
        | Some posix_time \<Rightarrow>
            if bits = 32 \<and> (posix_time > 2147483647 \<or> posix_time < - 2147483648) then None else Some posix_time)"

definition OPENSSL_gmtime :: "int \<Rightarrow> tm option" where
  "OPENSSL_gmtime time = OPENSSL_posix_to_tm time"

abbreviation INT64_MAX :: int where "INT64_MAX \<equiv> 9223372036854775807"
abbreviation INT64_MIN :: int where "INT64_MIN \<equiv> - 9223372036854775808"

definition OPENSSL_gmtime_adj :: "tm \<Rightarrow> int \<Rightarrow> int \<Rightarrow> tm option" where
  "OPENSSL_gmtime_adj tm offset_day offset_sec
     = (case OPENSSL_tm_to_posix tm of
          None \<Rightarrow> None
        | Some posix_time \<Rightarrow>
            let posix_time = posix_time + offset_day * SECS_PER_DAY in
            if posix_time > 0 \<and> offset_sec > INT64_MAX - posix_time then None
            else if posix_time < 0 \<and> offset_sec < INT64_MIN - posix_time then None
            else OPENSSL_posix_to_tm (posix_time + offset_sec))"

definition OPENSSL_gmtime_diff :: "tm \<Rightarrow> tm \<Rightarrow> (int \<times> int) option" where
  "OPENSSL_gmtime_diff from_tm to_tm
     = (case (OPENSSL_tm_to_posix to_tm, OPENSSL_tm_to_posix from_tm) of
          (Some time_to, Some time_from) \<Rightarrow>
            let timediff = time_to - time_from in Some (timediff sdiv SECS_PER_DAY, timediff smod SECS_PER_DAY)
        | _ \<Rightarrow> None)"

section \<open>Division\<close>

lemma sdiv_nonneg: "0 \<le> a \<Longrightarrow> 0 < b \<Longrightarrow> (a :: int) sdiv b = a div b \<and> a smod b = a mod b"
  by (simp add: signed_divide_int_def signed_modulo_int_def sgn_if minus_mult_div_eq_mod [symmetric] mult.commute)

lemma sdiv_neg: "a < 0 \<Longrightarrow> 0 < b \<Longrightarrow> (a :: int) sdiv b = - (- a div b)"
  by (simp add: signed_divide_int_def sgn_if)

lemma div_eqI: "x = b * q + r \<Longrightarrow> 0 \<le> r \<Longrightarrow> r < b \<Longrightarrow> (x :: int) div b = q"
  by (metis int_div_pos_eq)

text \<open>The adjusted divisions of the code round down.\<close>

lemma floor_adjust:
  assumes "0 < b" "c = b - 1"
  shows "(if x \<ge> 0 then x else x - c) sdiv b = (x :: int) div b"
    "(if x > 0 then x else x - c) sdiv b = x div b"
proof -
  have neg: "(x - (b - 1)) sdiv b = x div b" if "x \<le> 0"
  proof (cases "x - (b - 1) < 0")
    case True
    define q where "q = x div b"
    define r where "r = x mod b"
    have x: "x = b * q + r" "0 \<le> r" "r < b" using assms by (simp_all add: q_def r_def)
    have "- (x - (b - 1)) = b * (- q) + (b - 1 - r)" using x(1) by simp
    then have "- (x - (b - 1)) div b = - q" by (rule div_eqI) (use x in simp_all)
    with sdiv_neg [OF True assms(1)] show ?thesis by (simp add: q_def)
  next
    case False
    with that assms have "x = 0" "b = 1" by simp_all
    then show ?thesis by (simp add: signed_divide_int_def)
  qed
  then show "(if x \<ge> 0 then x else x - c) sdiv b = x div b"
    "(if x > 0 then x else x - c) sdiv b = x div b"
    using sdiv_nonneg [of x b] assms by simp_all
qed

lemma floor_divmod:
  assumes "0 < b"
  shows "(if x smod b < 0 then (x sdiv b - 1, x smod b + b) else (x sdiv b, x smod b)) = ((x :: int) div b, x mod b)"
proof (cases "0 \<le> x")
  case True
  with sdiv_nonneg [OF True assms] pos_mod_sign [OF assms, of x] show ?thesis by (simp add: not_less)
next
  case False
  define q where "q = - x div b"
  define r where "r = - x mod b"
  have x: "x = - (b * q) - r" "0 \<le> r" "r < b"
  proof -
    have "- x = b * q + r" by (simp add: q_def r_def)
    then show "x = - (b * q) - r" by linarith
  qed (use assms in \<open>simp_all add: r_def\<close>)
  have sd: "x sdiv b = - q" using sdiv_neg [of x b] False assms by (simp add: q_def)
  have sm: "x smod b = - r" using False assms by (simp add: signed_modulo_int_def r_def sgn_if)
  show ?thesis
  proof (cases "r = 0")
    case True
    then have "x = b * (- q) + 0" using x(1) by simp
    then have "x div b = - q" by (rule div_eqI) (use assms in simp_all)
    with True x sd sm show ?thesis by (simp add: minus_div_mult_eq_mod [symmetric])
  next
    case nz: False
    have "x = b * (- q - 1) + (b - r)" using x(1) by (simp add: algebra_simps)
    then have dv: "x div b = - q - 1" by (rule div_eqI) (use x nz in simp_all)
    have "x mod b = x - b * (x div b)" by (simp add: minus_mult_div_eq_mod)
    also have "\<dots> = b - r" unfolding dv using x(1) by (simp add: algebra_simps)
    finally show ?thesis using nz x(2) sd sm dv by simp
  qed
qed

section \<open>Days and dates\<close>

text \<open>The number of days from 1 March 0000 to a date, and back.\<close>

definition leap_year :: "int \<Rightarrow> bool" where
  "leap_year y \<longleftrightarrow> 4 dvd y \<and> (\<not> 100 dvd y \<or> 400 dvd y)"

definition month_start :: "int \<Rightarrow> int" where
  "month_start mp = (153 * mp + 2) div 5"

text \<open>Days before 1 March of a year.\<close>

definition march_days :: "int \<Rightarrow> int" where
  "march_days y = 365 * y + y div 4 - y div 100 + y div 400"

lemma era_days:
  assumes "e = y div 400" "k = y - e * 400"
  shows "e * 146097 + (k * 365 + k div 4 - k div 100) = march_days y" "0 \<le> k" "k < 400"
proof -
  have y: "y = 400 * e + k" "k = y mod 400" using assms by (simp_all add: minus_div_mult_eq_mod)
  then show k: "0 \<le> k" "k < 400" by simp_all
  have "(k + 100 * e * 4) div 4 = 100 * e + k div 4" "(k + 4 * e * 100) div 100 = 4 * e + k div 100"
    by (rule div_mult_self1, simp)+
  moreover have "k + 100 * e * 4 = y" "k + 4 * e * 100 = y" using y(1) by linarith+
  ultimately have "y div 4 = 100 * e + k div 4" "y div 100 = 4 * e + k div 100" by (simp_all only:)
  then show "e * 146097 + (k * 365 + k div 4 - k div 100) = march_days y"
    using y(1) assms(1) unfolding march_days_def by linarith
qed

lemma march_days_step: "march_days (y + 1) = march_days y + (if leap_year (y + 1) then 366 else 365)"
proof -
  have step: "(y + 1) div b = y div b + (if b dvd y + 1 then 1 else 0)" if "0 < b" for b :: int
  proof (cases "b dvd y + 1")
    case True
    then obtain m where m: "y + 1 = b * m" by (elim dvdE)
    then have "y = b * (m - 1) + (b - 1)" by (simp add: algebra_simps)
    then have "y div b = m - 1" by (rule div_eqI) (use that in simp_all)
    with True m that show ?thesis by simp
  next
    case False
    define q where "q = y div b"
    define r where "r = y mod b"
    have y: "y = b * q + r" "0 \<le> r" "r < b" using that by (simp_all add: q_def r_def)
    have "r \<noteq> b - 1"
    proof
      assume "r = b - 1"
      with y(1) have "y + 1 = b * (q + 1)" by (simp add: algebra_simps)
      with False show False by simp
    qed
    then have "(y + 1) div b = q" by (intro div_eqI [where r = "r + 1"]) (use y in simp_all)
    with False show ?thesis by (simp add: q_def)
  qed
  have s4: "(y + 1) div 4 = y div 4 + (if 4 dvd y + 1 then 1 else 0)" by (rule step) simp
  have s100: "(y + 1) div 100 = y div 100 + (if 100 dvd y + 1 then 1 else 0)" by (rule step) simp
  have s400: "(y + 1) div 400 = y div 400 + (if 400 dvd y + 1 then 1 else 0)" by (rule step) simp
  have "(4 :: int) dvd 100" "(100 :: int) dvd 400" by simp_all
  then have imp: "400 dvd y + 1 \<Longrightarrow> 100 dvd y + 1" "100 dvd y + 1 \<Longrightarrow> 4 dvd y + 1"
    by (metis dvd_trans)+
  have arith: "365 * (y + 1) + (a + (if A then 1 else 0)) - (b + (if B then 1 else 0)) + (c + (if C then 1 else 0))
      = 365 * y + a - b + c + (if A \<and> (\<not> B \<or> C) then 366 else 365)"
    if "C \<longrightarrow> B" "B \<longrightarrow> A" for A B C and a b c :: int
    using that by (cases A; cases B; cases C) simp_all
  show ?thesis
    unfolding march_days_def leap_year_def s4 s100 s400 by (rule arith) (use imp in blast)+
qed

text \<open>The day of a year that starts in March, in terms of centuries, quadrennia and years.\<close>

lemma year_of_era:
  fixes k doy :: int
  assumes k: "0 \<le> k" "k < 400" and doy: "0 \<le> doy" "doy \<le> 365" "doy = 365 \<longrightarrow> leap_year (k + 1)"
  defines "doe \<equiv> k * 365 + k div 4 - k div 100 + doy"
  shows "0 \<le> doe" "doe < 146097"
    "(doe - doe div 1460 + doe div 36524 - doe div 146096) div 365 = k"
proof -
  define c where "c = k div 100"
  define q where "q = k mod 100 div 4"
  define r where "r = k mod 100 mod 4"
  have c: "0 \<le> c" "c \<le> 3" using k by (auto simp: c_def)
  have "k mod 100 < 100" by simp
  then have q: "0 \<le> q" "q \<le> 24" unfolding q_def by auto
  have r: "0 \<le> r" "r \<le> 3" using pos_mod_bound [of 4 "k mod 100"] by (auto simp: r_def)
  have k': "k = 100 * c + 4 * q + r" by (simp add: c_def q_def r_def)
  have "k div 4 = 25 * c + q" by (rule div_eqI [where r = r]) (use r k' in simp_all)
  moreover have "k div 100 = c" by (simp add: c_def)
  ultimately have doe: "doe = 36524 * c + 1461 * q + 365 * r + doy" unfolding doe_def k' by simp
  have leap: "doy = 365 \<longrightarrow> r = 3 \<and> (q \<noteq> 24 \<or> c = 3)"
  proof
    assume "doy = 365"
    with doy(3) have l: "leap_year (k + 1)" by simp
    then have "4 dvd k + 1" by (simp add: leap_year_def)
    then have "4 dvd r + 1" unfolding k' by presburger
    then have r3: "r = 3" using r by presburger
    moreover have "q \<noteq> 24 \<or> c = 3"
    proof (rule ccontr)
      assume "\<not> (q \<noteq> 24 \<or> c = 3)"
      then have "k + 1 = 100 * (c + 1)" "c + 1 < 4" using k' r3 c by auto
      moreover have "c = 0 \<or> c = 1 \<or> c = 2" using c \<open>c + 1 < 4\<close> by linarith
      ultimately have "100 dvd k + 1 \<and> \<not> 400 dvd k + 1" by (elim disjE) simp_all
      with l show False unfolding leap_year_def by blast
    qed
    ultimately show "r = 3 \<and> (q \<noteq> 24 \<or> c = 3)" by simp
  qed
  show bounds: "0 \<le> doe" "doe < 146097" using doe c q r doy by linarith+
  define t where "t = 24 * c + q + 365 * r + doy"
  have d1460: "doe div 1460 = 25 * c + q + (if t < 1460 then 0 else 1)"
    by (rule div_eqI [where r = "t - (if t < 1460 then 0 else 1460)"])
      (use doe c q r doy in \<open>auto simp: t_def\<close>)
  have corr: "doe div 36524 - doe div 146096 = c"
  proof (cases "c = 3 \<and> q = 24 \<and> r = 3 \<and> doy = 365")
    case True
    then show ?thesis using doe by simp
  next
    case False
    have small: "1461 * q + 365 * r + doy < 36524 \<and> doe < 146096"
    proof (cases "q = 24 \<and> r = 3")
      case True
      with leap False have "doy \<le> 364" using doy by auto
      with True doe c show ?thesis by simp
    next
      case no: False
      then have "q \<le> 23 \<or> r \<le> 2" using q r by auto
      with doe c q r doy show ?thesis by auto
    qed
    have "doe div 36524 = c" by (rule div_eqI [where r = "1461 * q + 365 * r + doy"]) (use doe q r doy small in simp_all)
    moreover have "doe div 146096 = 0" using small bounds by simp
    ultimately show ?thesis by simp
  qed
  have "doe - doe div 1460 + doe div 36524 - doe div 146096 = 365 * k + (doy - (if t < 1460 then 0 else 1))"
    using d1460 corr doe k' by simp
  moreover have "0 \<le> doy - (if t < 1460 then 0 else 1)"
    using doy c q r by (auto simp: t_def)
  moreover have "doy - (if t < 1460 then 0 else 1) < 365"
    using doy leap c q by (auto simp: t_def)
  ultimately show "(doe - doe div 1460 + doe div 36524 - doe div 146096) div 365 = k"
    by (intro div_eqI) simp_all
qed

lemma day_in_era:
  fixes doe :: int
  assumes "0 \<le> doe" "doe < 146097"
  shows "\<exists>k doy. 0 \<le> k \<and> k < 400 \<and> 0 \<le> doy \<and> doy \<le> 365 \<and> (doy = 365 \<longrightarrow> leap_year (k + 1)) \<and>
     doe = k * 365 + k div 4 - k div 100 + doy"
proof -
  define c where "c = (if doe div 36524 \<le> 3 then doe div 36524 else 3)"
  define u where "u = doe - 36524 * c"
  define q where "q = u div 1461"
  define v where "v = u mod 1461"
  define r where "r = (if v div 365 \<le> 3 then v div 365 else 3)"
  define doy where "doy = v - 365 * r"
  have dm: "doe = 36524 * (doe div 36524) + doe mod 36524" "0 \<le> doe mod 36524" "doe mod 36524 < 36524" by simp_all
  have "0 \<le> doe div 36524" "doe div 36524 \<le> 4" using assms by (auto simp: pos_imp_zdiv_nonneg_iff)
  with dm assms have c: "0 \<le> c" "c \<le> 3" "0 \<le> u" "u \<le> 36524" "c < 3 \<longrightarrow> u < 36524"
    unfolding c_def u_def by (auto split: if_splits)
  have uv: "u = 1461 * q + v" "0 \<le> v" "v < 1461" by (simp_all add: q_def v_def)
  have q: "0 \<le> q" "q \<le> 24" using c uv by linarith+
  have dv: "v = 365 * (v div 365) + v mod 365" "0 \<le> v mod 365" "v mod 365 < 365" by simp_all
  have "0 \<le> v div 365" "v div 365 \<le> 4" using uv dv by linarith+
  with dv uv have r: "0 \<le> r" "r \<le> 3" "0 \<le> doy" "doy \<le> 365" "doy = 365 \<longrightarrow> r = 3"
    unfolding r_def doy_def by (auto split: if_splits)
  have v: "v = 365 * r + doy" by (simp add: doy_def)
  define k where "k = 100 * c + 4 * q + r"
  have k: "0 \<le> k" "k < 400" using c q r by (auto simp: k_def)
  have k4: "k div 4 = 25 * c + q" by (rule div_eqI [where r = r]) (use r in \<open>simp_all add: k_def\<close>)
  have k100: "k div 100 = c" by (rule div_eqI [where r = "4 * q + r"]) (use q r in \<open>simp_all add: k_def\<close>)
  have doe: "doe = k * 365 + k div 4 - k div 100 + doy"
    unfolding k4 k100 using uv v by (simp add: k_def u_def)
  have "leap_year (k + 1)" if "doy = 365"
  proof -
    have r3: "r = 3" using that r by simp
    have qc: "q = 24 \<longrightarrow> c = 3" using c uv(1) v that r3 by linarith
    have k1: "k + 1 = 100 * c + 4 * (q + 1)" using r3 by (simp add: k_def)
    have "k + 1 = 4 * (25 * c + q + 1)" unfolding k1 by simp
    then have A: "4 dvd k + 1" by (rule dvdI)
    have B: "400 dvd k + 1" if "100 dvd k + 1"
    proof -
      from that obtain m where "100 * c + 4 * (q + 1) = 100 * m" unfolding k1 by (elim dvdE)
      then have "q + 1 = 25 * (m - c)" by (simp add: algebra_simps)
      moreover from this q have "0 < m - c" "m - c < 2" by simp_all
      then have "m - c = 1" by simp
      ultimately have "q = 24" by simp
      then show ?thesis using qc k1 by simp
    qed
    show ?thesis unfolding leap_year_def using A B by blast
  qed
  with k r doe show ?thesis by blast
qed

text \<open>Months that start in March.\<close>

definition month_days :: "int \<Rightarrow> int \<Rightarrow> int" where
  "month_days y mp
     = (if mp = 11 then if leap_year (y + 1) then 29 else 28 else if mp \<in> {1, 3, 6, 8} then 30 else 31)"

lemma twelve:
  "0 \<le> mp \<Longrightarrow> mp < 12 \<Longrightarrow> mp = 0 \<or> mp = 1 \<or> mp = 2 \<or> mp = 3 \<or> mp = 4 \<or> mp = 5 \<or> mp = 6 \<or> mp = 7 \<or>
     mp = 8 \<or> mp = 9 \<or> mp = 10 \<or> mp = (11 :: int)"
  by presburger

lemma month_start_vals [simp]:
  "month_start 0 = 0" "month_start 1 = 31" "month_start 2 = 61" "month_start 3 = 92" "month_start 4 = 122"
  "month_start 5 = 153" "month_start 6 = 184" "month_start 7 = 214" "month_start 8 = 245" "month_start 9 = 275"
  "month_start 10 = 306" "month_start 11 = 337"
  by (simp_all add: month_start_def)

lemma month_of_day:
  assumes mp: "0 \<le> mp" "mp < 12" and d: "1 \<le> d" "d \<le> month_days y mp"
  defines "doy \<equiv> month_start mp + d - 1"
  shows "(5 * doy + 2) div 153 = mp" "0 \<le> doy" "doy \<le> 365" "doy = 365 \<longrightarrow> leap_year (y + 1)"
proof -
  have "153 * mp \<le> 5 * doy + 2 \<and> 5 * doy + 2 < 153 * mp + 153 \<and> 0 \<le> doy \<and> doy \<le> 365 \<and>
      (doy = 365 \<longrightarrow> leap_year (y + 1))"
    using twelve [OF mp] d unfolding doy_def month_days_def
    by (elim disjE) (simp_all split: if_splits)
  then show "0 \<le> doy" "doy \<le> 365" "doy = 365 \<longrightarrow> leap_year (y + 1)" and "(5 * doy + 2) div 153 = mp"
    by (simp_all add: div_eqI [where r = "5 * doy + 2 - 153 * mp"])
qed

lemma day_in_year:
  assumes "0 \<le> doy" "doy \<le> 365" "doy = 365 \<longrightarrow> leap_year (y + 1)"
  shows "\<exists>mp d. 0 \<le> mp \<and> mp < 12 \<and> 1 \<le> d \<and> d \<le> month_days y mp \<and> doy = month_start mp + d - 1"
proof -
  define mp where "mp = (5 * doy + 2) div 153"
  define r where "r = (5 * doy + 2) mod 153"
  have m: "5 * doy + 2 = 153 * mp + r" "0 \<le> r" "r < 153" by (simp_all add: mp_def r_def)
  have mp: "0 \<le> mp" "mp < 12" using m assms by linarith+
  have "1 \<le> doy - month_start mp + 1 \<and> doy - month_start mp + 1 \<le> month_days y mp"
    using twelve [OF mp] m assms unfolding month_days_def
    by (elim disjE) (simp_all, linarith?)
  with mp show ?thesis by (intro exI [of _ mp] exI [of _ "doy - month_start mp + 1"]) simp
qed

section \<open>The conversions\<close>

text \<open>The date as a year that starts in March, the month counted from March, and the day.\<close>

definition march_year :: "int \<Rightarrow> int \<Rightarrow> int" where
  "march_year y m = (if m \<le> 2 then y - 1 else y)"

definition march_month :: "int \<Rightarrow> int" where
  "march_month m = (if m > 2 then m - 3 else m + 9)"

definition civil_days :: "int \<Rightarrow> int \<Rightarrow> int \<Rightarrow> int" where
  "civil_days y m d = march_days (march_year y m) + month_start (march_month m) + d - 1"

lemma leap_year_smod:
  "0 \<le> y \<Longrightarrow> (y smod 4 = 0 \<and> y smod 100 \<noteq> 0) \<or> y smod 400 = 0 \<longleftrightarrow> leap_year y"
proof -
  assume y: "0 \<le> y"
  have "400 dvd y \<Longrightarrow> 4 dvd y" using dvd_trans [of 4 400 y] by simp
  then show ?thesis
    using sdiv_nonneg [OF y, of 4] sdiv_nonneg [OF y, of 100] sdiv_nonneg [OF y, of 400]
    unfolding leap_year_def by (simp add: mod_eq_0_iff_dvd) blast
qed

lemma is_valid_date_iff:
  "is_valid_date y m d \<longleftrightarrow> 0 \<le> y \<and> y \<le> 9999 \<and> 1 \<le> m \<and> m \<le> 12 \<and> 1 \<le> d \<and>
     d \<le> month_days (march_year y m) (march_month m)"
proof (cases "0 \<le> y \<and> y \<le> 9999 \<and> 1 \<le> m \<and> m \<le> 12")
  case False
  then show ?thesis by (auto simp: is_valid_date_def)
next
  case True
  then have "m = 1 \<or> m = 2 \<or> m = 3 \<or> m = 4 \<or> m = 5 \<or> m = 6 \<or> m = 7 \<or> m = 8 \<or> m = 9 \<or> m = 10 \<or> m = 11 \<or> m = 12"
    by presburger
  then show ?thesis
    using True leap_year_smod [of y]
    by (elim disjE) (auto simp: is_valid_date_def month_days_def march_year_def march_month_def)
qed

lemma from_utc_eq:
  "posix_time_from_utc y m d hh mi ss
     = (if is_valid_date y m d \<and> is_valid_time hh mi ss
        then Some ((civil_days y m d - 719468) * 86400 + hh * 3600 + mi * 60 + ss) else None)"
proof (cases "is_valid_date y m d \<and> is_valid_time hh mi ss")
  case False
  then show ?thesis by (auto simp: posix_time_from_utc_def)
next
  case True
  define Y where "Y = march_year y m"
  define e where "e = Y div 400"
  define k where "k = Y - e * 400"
  have e: "(if Y \<ge> 0 then Y else Y - 399) sdiv 400 = e" using floor_adjust(1) [of 400 399 Y] by (simp add: e_def)
  note k = era_days [OF e_def k_def]
  have mm: "0 \<le> march_month m" using True by (auto simp: is_valid_date_iff march_month_def)
  have s5: "(153 * march_month m + 2) sdiv 5 = month_start (march_month m)"
    using sdiv_nonneg [of "153 * march_month m + 2" 5] mm by (simp add: month_start_def)
  have k4: "k sdiv 4 = k div 4" "k sdiv 100 = k div 100" using sdiv_nonneg [of k] k(2) by simp_all
  have "posix_time_from_utc y m d hh mi ss
      = Some ((e * 146097 + (k * 365 + k div 4 - k div 100 + (month_start (march_month m) + d - 1)) - 719468) * 86400
          + hh * 3600 + mi * 60 + ss)"
    using True unfolding posix_time_from_utc_def Let_def march_year_def [symmetric] march_month_def [symmetric]
      Y_def [symmetric] e k_def [symmetric] s5 k4 SECS_PER_DAY_def SECS_PER_HOUR_def by simp
  also have "e * 146097 + (k * 365 + k div 4 - k div 100 + (month_start (march_month m) + d - 1)) = civil_days y m d"
    using k(1) by (simp add: civil_days_def Y_def)
  finally show ?thesis using True by simp
qed

lemma date_from_days_eq:
  assumes y: "0 \<le> mp" "mp < 12" "1 \<le> d" "d \<le> month_days Y mp" and n: "n = march_days Y + month_start mp + d - 1"
  shows "date_from_days n = (if mp < 10 then Y else Y + 1, if mp < 10 then mp + 3 else mp - 9, d)"
proof -
  define e where "e = Y div 400"
  define k where "k = Y - e * 400"
  define doy where "doy = month_start mp + d - 1"
  define doe where "doe = k * 365 + k div 4 - k div 100 + doy"
  note k = era_days [OF e_def k_def]
  note my = month_of_day [OF y(1-4), folded doy_def]
  have leap: "leap_year (Y + 1) \<longleftrightarrow> leap_year (k + 1)"
  proof -
    have Y: "Y + 1 = (k + 1) + 400 * e" unfolding k_def by linarith
    have "4 dvd (k + 1) + 400 * e \<longleftrightarrow> 4 dvd k + 1" by (rule dvd_add_left_iff) (simp add: dvd_mult2)
    moreover have "100 dvd (k + 1) + 400 * e \<longleftrightarrow> 100 dvd k + 1"
      by (rule dvd_add_left_iff) (simp add: dvd_mult2)
    moreover have "400 dvd (k + 1) + 400 * e \<longleftrightarrow> 400 dvd k + 1"
      by (rule dvd_add_left_iff) simp
    ultimately show ?thesis unfolding leap_year_def Y by blast
  qed
  note yoe = year_of_era [OF k(2,3) my(2,3), folded doe_def]
  have l: "doy = 365 \<longrightarrow> leap_year (k + 1)" using my(4) leap by simp
  note yoe = yoe [OF l]
  have "n = 146097 * e + doe" using n k(1) by (simp add: doe_def doy_def)
  then have ne: "n div 146097 = e" "n - e * 146097 = doe"
    using div_eqI [of n 146097 e doe] yoe(1,2) by simp_all
  have era: "(if n > 0 then n else n - 146096) sdiv 146097 = e"
    using floor_adjust(2) [of 146097 146096 n] ne(1) by simp
  have sd: "doe sdiv 1460 = doe div 1460" "doe sdiv 36524 = doe div 36524" "doe sdiv 146096 = doe div 146096"
    using sdiv_nonneg [OF yoe(1)] by simp_all
  define w where "w = doe - doe div 1460 + doe div 36524 - doe div 146096"
  have "w = 365 * (w div 365) + w mod 365" "0 \<le> w mod 365" by simp_all
  then have nn: "0 \<le> w" using k(2) unfolding yoe(3) [folded w_def] by linarith
  have sy: "(doe - doe sdiv 1460 + doe sdiv 36524 - doe sdiv 146096) sdiv 365 = k"
    unfolding sd w_def [symmetric] using sdiv_nonneg [OF nn, of 365] yoe(3) [folded w_def] by simp
  have ks: "k sdiv 4 = k div 4" "k sdiv 100 = k div 100" using sdiv_nonneg [OF k(2)] by simp_all
  have dy: "doe - (365 * k + k sdiv 4 - k sdiv 100) = doy" unfolding ks by (simp add: doe_def)
  have ms: "(5 * doy + 2) sdiv 153 = mp" using sdiv_nonneg [of "5 * doy + 2" 153] my(1,2) by simp
  have s5: "(153 * mp + 2) sdiv 5 = month_start mp" using sdiv_nonneg [of "153 * mp + 2" 5] y(1) by (simp add: month_start_def)
  have yr: "k + e * 400 = Y" by (simp add: k_def)
  have mo: "(if (if mp < 10 then mp + 3 else mp - 9) \<le> 2 then Y + 1 else Y) = (if mp < 10 then Y else Y + 1)"
    using y(1,2) by simp
  have dd: "doy - month_start mp + 1 = d" by (simp add: doy_def)
  show ?thesis
    unfolding date_from_days_def Let_def era ne(2) sy yr dy ms s5 dd mo ..
qed

lemma utc_from_eq:
  assumes "is_valid_posix_time t"
  shows "utc_from_posix_time t = (case date_from_days (t div 86400 + 719468) of (y, m, d) \<Rightarrow>
     Some (y, m, d, t mod 86400 div 3600, t mod 3600 div 60, t mod 60))"
proof -
  have dm: "(if t smod 86400 < 0 then (t sdiv 86400 - 1, t smod 86400 + 86400) else (t sdiv 86400, t smod 86400))
      = (t div 86400, t mod 86400)" by (rule floor_divmod) simp
  define s where "s = t mod 86400"
  have s: "0 \<le> s" by (simp add: s_def)
  have sm: "s mod 3600 = t mod 3600" "t mod 3600 mod 60 = t mod 60"
    unfolding s_def by (rule mod_mod_cancel, simp)+
  then have hms: "s sdiv 3600 = s div 3600" "(s smod 3600) sdiv 60 = t mod 3600 div 60" "(s smod 3600) smod 60 = t mod 60"
    using sdiv_nonneg [OF s, of 3600] sdiv_nonneg [of "t mod 3600" 60] by simp_all
  have sec: "SECS_PER_DAY = 86400" "SECS_PER_HOUR = 3600" by (simp_all add: SECS_PER_DAY_def SECS_PER_HOUR_def)
  show ?thesis
    unfolding utc_from_posix_time_def sec Let_def dm prod.case s_def [symmetric] hms using assms by simp
qed

text \<open>Every day has a date.\<close>

lemma day_has_date:
  "\<exists>Y mp d. 0 \<le> mp \<and> mp < 12 \<and> 1 \<le> d \<and> d \<le> month_days Y mp \<and> n = march_days Y + month_start mp + d - 1"
proof -
  define e where "e = n div 146097"
  have "0 \<le> n mod 146097" "n mod 146097 < 146097" by simp_all
  from day_in_era [OF this] obtain k doy where kd: "0 \<le> k" "k < 400" "0 \<le> doy" "doy \<le> 365"
    "doy = 365 \<longrightarrow> leap_year (k + 1)" "n mod 146097 = k * 365 + k div 4 - k div 100 + doy" by blast
  define Y where "Y = 400 * e + k"
  have "Y div 400 = e" unfolding Y_def by (rule div_eqI [OF refl kd(1,2)])
  moreover have "Y - e * 400 = k" by (simp add: Y_def)
  ultimately have md: "e * 146097 + (k * 365 + k div 4 - k div 100) = march_days Y"
    using era_days(1) [of e Y k] by simp
  have "n = 146097 * e + n mod 146097" by (simp add: e_def)
  then have n: "n = march_days Y + doy" using kd(6) md by linarith
  have "leap_year (k + 1) \<Longrightarrow> leap_year (Y + 1)"
  proof -
    assume l: "leap_year (k + 1)"
    have Y: "Y + 1 = (k + 1) + 400 * e" unfolding Y_def by linarith
    have "4 dvd (k + 1) + 400 * e \<longleftrightarrow> 4 dvd k + 1" "100 dvd (k + 1) + 400 * e \<longleftrightarrow> 100 dvd k + 1"
      "400 dvd (k + 1) + 400 * e \<longleftrightarrow> 400 dvd k + 1"
      by (rule dvd_add_left_iff, simp add: dvd_mult2)+
    with l show "leap_year (Y + 1)" unfolding leap_year_def Y by blast
  qed
  with kd(5) have "doy = 365 \<longrightarrow> leap_year (Y + 1)" by blast
  from day_in_year [OF kd(3,4) this] obtain mp d where
    "0 \<le> mp" "mp < 12" "1 \<le> d" "d \<le> month_days Y mp" "doy = month_start mp + d - 1" by blast
  with n show ?thesis by (intro exI [of _ Y] exI [of _ mp] exI [of _ d]) simp
qed

lemma march_civil:
  assumes "0 \<le> mp" "mp < 12"
  shows "march_year (if mp < 10 then Y else Y + 1) (if mp < 10 then mp + 3 else mp - 9) = Y"
    "march_month (if mp < 10 then mp + 3 else mp - 9) = mp"
    "1 \<le> (if mp < 10 then mp + 3 else mp - 9)" "(if mp < 10 then mp + 3 else mp - 9) \<le> 12"
  using assms by (auto simp: march_year_def march_month_def)

lemma date_from_days_iff:
  "date_from_days n = (y, m, d) \<longleftrightarrow>
     1 \<le> m \<and> m \<le> 12 \<and> 1 \<le> d \<and> d \<le> month_days (march_year y m) (march_month m) \<and> n = civil_days y m d"
proof
  assume "date_from_days n = (y, m, d)"
  moreover obtain Y mp d' where p: "0 \<le> mp" "mp < 12" "1 \<le> d'" "d' \<le> month_days Y mp"
    "n = march_days Y + month_start mp + d' - 1" using day_has_date by blast
  ultimately have e: "y = (if mp < 10 then Y else Y + 1)" "m = (if mp < 10 then mp + 3 else mp - 9)" "d = d'"
    using date_from_days_eq [OF p] by simp_all
  show "1 \<le> m \<and> m \<le> 12 \<and> 1 \<le> d \<and> d \<le> month_days (march_year y m) (march_month m) \<and> n = civil_days y m d"
    unfolding civil_days_def e march_civil(1,2) [OF p(1,2)] using march_civil(3,4) [OF p(1,2)] p(3-5) by blast
next
  assume a: "1 \<le> m \<and> m \<le> 12 \<and> 1 \<le> d \<and> d \<le> month_days (march_year y m) (march_month m) \<and> n = civil_days y m d"
  then have mp: "0 \<le> march_month m" "march_month m < 12" by (auto simp: march_month_def)
  from date_from_days_eq [OF mp _ _ a [THEN conjunct2, THEN conjunct2, THEN conjunct2, THEN conjunct2, unfolded civil_days_def]] a
  show "date_from_days n = (y, m, d)"
    by (auto simp: march_year_def march_month_def split: if_splits)
qed

text \<open>The years of the valid range.\<close>

lemma march_days_mono: "x \<le> y \<Longrightarrow> march_days x \<le> march_days y"
proof (induction y rule: int_ge_induct)
  case (step y)
  with march_days_step [of y] show ?case by (simp split: if_splits)
qed simp

definition jan1 :: "int \<Rightarrow> int" where
  "jan1 y = march_days (y - 1) + 306"

lemma civil_year_bounds:
  assumes "1 \<le> m" "m \<le> 12" "1 \<le> d" "d \<le> month_days (march_year y m) (march_month m)"
  shows "jan1 y \<le> civil_days y m d" "civil_days y m d < jan1 (y + 1)"
proof -
  let ?mp = "march_month m"
  have mp: "0 \<le> ?mp" "?mp < 12" using assms by (auto simp: march_month_def)
  have "m \<le> 2 \<longleftrightarrow> ?mp \<in> {10, 11}" using assms by (auto simp: march_month_def)
  then have Y: "march_year y m = (if ?mp \<in> {10, 11} then y - 1 else y)" by (simp add: march_year_def)
  note step = march_days_step [of "y - 1", simplified]
  have "jan1 y \<le> civil_days y m d \<and> civil_days y m d < jan1 (y + 1)"
    using twelve [OF mp] assms(3,4) step unfolding civil_days_def Y jan1_def month_days_def
    by (elim disjE) (simp_all split: if_splits)
  then show "jan1 y \<le> civil_days y m d" "civil_days y m d < jan1 (y + 1)" by simp_all
qed

lemma year_range:
  assumes "1 \<le> m" "m \<le> 12" "1 \<le> d" "d \<le> month_days (march_year y m) (march_month m)"
  shows "0 \<le> y \<and> y \<le> 9999 \<longleftrightarrow> - 60 \<le> civil_days y m d \<and> civil_days y m d \<le> 3652364"
proof -
  have mono: "jan1 a \<le> jan1 b" if "a \<le> b" for a b using march_days_mono [of "a - 1" "b - 1"] that by (simp add: jan1_def)
  have ends: "jan1 0 = - 60" "jan1 10000 = 3652365" by (simp_all add: jan1_def march_days_def)
  note b = civil_year_bounds [OF assms]
  consider "y < 0" | "0 \<le> y \<and> y \<le> 9999" | "10000 \<le> y" by linarith
  then show ?thesis
  proof cases
    case 1
    then show ?thesis using b mono [of "y + 1" 0] ends by simp
  next
    case 2
    then show ?thesis using b mono [of 0 y] mono [of "y + 1" 10000] ends by simp
  next
    case 3
    then show ?thesis using b mono [of 10000 y] ends by simp
  qed
qed

lemma seconds_of_day:
  fixes n :: int
  assumes "0 \<le> hh" "hh \<le> 23" "0 \<le> mi" "mi \<le> 59" "0 \<le> ss" "ss \<le> (59 :: int)"
    and t_def: "t = n * 86400 + hh * 3600 + mi * 60 + ss"
  shows "t div 86400 = n" "t mod 86400 div 3600 = hh" "t mod 3600 div 60 = mi" "t mod 60 = ss"
proof -
  have d: "t div 86400 = n" by (rule div_eqI [where r = "hh * 3600 + mi * 60 + ss"]) (use assms in simp_all)
  then have m: "t mod 86400 = hh * 3600 + (mi * 60 + ss)"
    using mult_div_mod_eq [of 86400 t] unfolding t_def by linarith
  show "t div 86400 = n" by (rule d)
  show "t mod 86400 div 3600 = hh" unfolding m by (rule div_eqI [where r = "mi * 60 + ss"]) (use assms in simp_all)
  have "t div 3600 = n * 24 + hh" by (rule div_eqI [where r = "mi * 60 + ss"]) (use assms in simp_all)
  then have m': "t mod 3600 = mi * 60 + ss" using mult_div_mod_eq [of 3600 t] unfolding t_def by linarith
  show "t mod 3600 div 60 = mi" unfolding m' by (rule div_eqI [where r = ss]) (use assms in simp_all)
  have "t div 60 = n * 1440 + hh * 60 + mi" by (rule div_eqI [where r = ss]) (use assms in simp_all)
  then show "t mod 60 = ss" using mult_div_mod_eq [of 60 t] unfolding t_def by linarith
qed

lemma time_split:
  fixes t :: int
  obtains n hh mi ss where "t = n * 86400 + hh * 3600 + mi * 60 + ss"
    "0 \<le> hh" "hh \<le> 23" "0 \<le> mi" "mi \<le> 59" "0 \<le> ss" "ss \<le> 59"
proof -
  have dm: "\<exists>q r. x = q * b + r \<and> 0 \<le> r \<and> r < b" if "0 < b" for x b :: int
    by (intro exI [of _ "x div b"] exI [of _ "x mod b"]) (use that in simp)
  obtain x ss where a: "t = x * 60 + ss" "0 \<le> ss" "ss < 60" using dm [of 60 t] by auto
  obtain y mi where b: "x = y * 60 + mi" "0 \<le> mi" "mi < 60" using dm [of 60 x] by auto
  obtain n hh where c: "y = n * 24 + hh" "0 \<le> hh" "hh < 24" using dm [of 24 y] by auto
  show ?thesis by (rule that [of n hh mi ss]) (use a b c in linarith)+
qed

lemma utc_iff:
  "utc_from_posix_time t = Some (y, m, d, hh, mi, ss) \<longleftrightarrow> posix_time_from_utc y m d hh mi ss = Some t"
proof
  assume u: "utc_from_posix_time t = Some (y, m, d, hh, mi, ss)"
  then have v: "is_valid_posix_time t" unfolding utc_from_posix_time_def by (meson option.distinct(1))
  obtain n' hh' mi' ss' where t: "t = n' * 86400 + hh' * 3600 + mi' * 60 + ss'"
    and h: "0 \<le> hh'" "hh' \<le> 23" "0 \<le> mi'" "mi' \<le> 59" "0 \<le> ss'" "ss' \<le> 59"
    by (rule time_split)
  define n where "n = n' + 719468"
  obtain y' m' d' where dy: "date_from_days n = (y', m', d')" by (metis prod_cases3)
  from u utc_from_eq [OF v] have e: "y' = y" "m' = m" "d' = d" "hh' = hh" "mi' = mi" "ss' = ss"
    unfolding seconds_of_day [OF h t] n_def [symmetric] dy by simp_all
  note h = h [unfolded e] and t = t [unfolded e] and dy = dy [unfolded e]
  from dy have dd: "1 \<le> m" "m \<le> 12" "1 \<le> d" "d \<le> month_days (march_year y m) (march_month m)" "n = civil_days y m d"
    by (simp_all add: date_from_days_iff)
  have "- 60 \<le> n \<and> n \<le> 3652364"
    using v h unfolding n_def is_valid_posix_time_def MIN_POSIX_TIME_def MAX_POSIX_TIME_def t by linarith
  with year_range [OF dd(1-4)] dd have valid: "is_valid_date y m d" by (simp add: is_valid_date_iff)
  have "is_valid_time hh mi ss" using h by (simp add: is_valid_time_def)
  moreover have "(civil_days y m d - 719468) * 86400 + hh * 3600 + mi * 60 + ss = t"
    unfolding t dd(5) [symmetric] by (simp add: n_def)
  ultimately show "posix_time_from_utc y m d hh mi ss = Some t" using valid by (simp add: from_utc_eq)
next
  assume p: "posix_time_from_utc y m d hh mi ss = Some t"
  then have v: "is_valid_date y m d" "is_valid_time hh mi ss"
    "t = (civil_days y m d - 719468) * 86400 + hh * 3600 + mi * 60 + ss"
    by (auto simp: from_utc_eq split: if_splits)
  then have dd: "1 \<le> m" "m \<le> 12" "1 \<le> d" "d \<le> month_days (march_year y m) (march_month m)" "0 \<le> y \<and> y \<le> 9999"
    by (simp_all add: is_valid_date_iff)
  have h: "0 \<le> hh" "hh \<le> 23" "0 \<le> mi" "mi \<le> 59" "0 \<le> ss" "ss \<le> 59"
    using v(2) by (auto simp: is_valid_time_def split: if_splits)
  note s = seconds_of_day [OF h v(3)]
  have "- 60 \<le> civil_days y m d \<and> civil_days y m d \<le> 3652364" using year_range [OF dd(1-4)] dd(5) by simp
  then have tv: "is_valid_posix_time t"
    using h by (simp add: is_valid_posix_time_def MIN_POSIX_TIME_def MAX_POSIX_TIME_def v(3))
  have "date_from_days (civil_days y m d) = (y, m, d)" using dd by (simp add: date_from_days_iff)
  with utc_from_eq [OF tv] s show "utc_from_posix_time t = Some (y, m, d, hh, mi, ss)" by simp
qed

section \<open>Properties\<close>

lemma posix_to_tm_iff:
  "OPENSSL_posix_to_tm t = Some tm \<longleftrightarrow> OPENSSL_tm_to_posix tm = Some t"
proof -
  have "OPENSSL_posix_to_tm t = Some tm \<longleftrightarrow>
      utc_from_posix_time t = Some (tm_year tm + 1900, tm_mon tm + 1, tm_mday tm, tm_hour tm, tm_min tm, tm_sec tm)"
    by (cases tm) (auto simp: OPENSSL_posix_to_tm_def split: option.splits)
  then show ?thesis by (simp add: utc_iff OPENSSL_tm_to_posix_def)
qed

lemma posix_to_tm_None: "OPENSSL_posix_to_tm t = None \<longleftrightarrow> \<not> is_valid_posix_time t"
proof (cases "is_valid_posix_time t")
  case True
  then show ?thesis
    using utc_from_eq [OF True] by (simp add: OPENSSL_posix_to_tm_def split: prod.split option.split)
next
  case False
  then show ?thesis by (simp add: OPENSSL_posix_to_tm_def utc_from_posix_time_def)
qed

text \<open>
  C19: The two conversions are inverse to each other: \<^verbatim>\<open>OPENSSL_posix_to_tm\<close> gives a date and time
  exactly when \<^verbatim>\<open>OPENSSL_tm_to_posix\<close> accepts it and gives back the same number of seconds, on all
  times from year 0 to year 9999 and on no others.
\<close>
theorem posix_time_inverse:
  "(OPENSSL_posix_to_tm t = Some tm \<longleftrightarrow> OPENSSL_tm_to_posix tm = Some t)
    \<and> (OPENSSL_posix_to_tm t = None \<longleftrightarrow> t < - 62167219200 \<or> 253402300799 < t)"
  by (auto simp: posix_to_tm_iff posix_to_tm_None is_valid_posix_time_def MIN_POSIX_TIME_def MAX_POSIX_TIME_def)

text \<open>
  The calendar, by itself: the length of a month, and the day after a day.
\<close>

definition days_in_month :: "int \<Rightarrow> int \<Rightarrow> int" where
  "days_in_month y m = (if m = 2 then if leap_year y then 29 else 28 else if m \<in> {4, 6, 9, 11} then 30 else 31)"

fun next_date :: "int \<times> int \<times> int \<Rightarrow> int \<times> int \<times> int" where
  "next_date (y, m, d)
     = (if d < days_in_month y m then (y, m, d + 1) else if m < 12 then (y, m + 1, 1) else (y + 1, 1, 1))"

lemma month_cases:
  "1 \<le> m \<Longrightarrow> m \<le> 12 \<Longrightarrow> m = 1 \<or> m = 2 \<or> m = 3 \<or> m = 4 \<or> m = 5 \<or> m = 6 \<or> m = 7 \<or> m = 8 \<or> m = 9 \<or>
     m = 10 \<or> m = 11 \<or> m = (12 :: int)"
  by presburger

lemma month_days_march:
  "1 \<le> m \<Longrightarrow> m \<le> 12 \<Longrightarrow> month_days (march_year y m) (march_month m) = days_in_month y m"
  by (drule (1) month_cases, elim disjE)
    (simp_all add: month_days_def march_year_def march_month_def days_in_month_def)

lemma civil_days_next:
  assumes "1 \<le> m" "m \<le> 12" "1 \<le> d" "d \<le> days_in_month y m" and n: "next_date (y, m, d) = (y', m', d')"
  shows "civil_days y' m' d' = civil_days y m d + 1"
proof (cases "d < days_in_month y m")
  case True
  with n show ?thesis by (auto simp: civil_days_def)
next
  case False
  with assms(4) have d: "d = days_in_month y m" by simp
  note step = march_days_step [of "y - 1", simplified]
  have "civil_days (if m < 12 then y else y + 1) (if m < 12 then m + 1 else 1) 1
      = civil_days y m (days_in_month y m) + 1"
    using month_cases [OF assms(1,2)] step
    by (elim disjE) (simp_all add: civil_days_def march_year_def march_month_def days_in_month_def)
  with n False d show ?thesis by (auto split: if_splits)
qed

text \<open>
  C20: \<^verbatim>\<open>posix_time_from_utc\<close> counts seconds by the Gregorian calendar: 1 January 1970 is zero, the
  day after any valid day, over month ends, leap days and year ends, is 86400 seconds later at the same
  time of day, and within a day hours, minutes and seconds count as such.
\<close>
theorem posix_time_calendar:
  "posix_time_from_utc 1970 1 1 0 0 0 = Some 0
    \<and> (posix_time_from_utc y m d hh mi ss = Some t \<and> next_date (y, m, d) = (y', m', d') \<and> y' \<le> 9999
        \<longrightarrow> posix_time_from_utc y' m' d' hh mi ss = Some (t + 86400))
    \<and> (posix_time_from_utc y m d 0 0 0 = Some t \<and> is_valid_time hh mi ss
        \<longrightarrow> posix_time_from_utc y m d hh mi ss = Some (t + 3600 * hh + 60 * mi + ss))"
proof (intro conjI impI)
  show "posix_time_from_utc 1970 1 1 0 0 0 = Some 0" by code_simp
next
  assume a: "posix_time_from_utc y m d hh mi ss = Some t \<and> next_date (y, m, d) = (y', m', d') \<and> y' \<le> 9999"
  then have v: "is_valid_date y m d" "is_valid_time hh mi ss"
    and t: "t = (civil_days y m d - 719468) * 86400 + hh * 3600 + mi * 60 + ss"
    by (auto simp: from_utc_eq split: if_splits)
  from v(1) have d: "0 \<le> y" "1 \<le> m" "m \<le> 12" "1 \<le> d" "d \<le> days_in_month y m"
    by (auto simp: is_valid_date_iff month_days_march)
  have n: "next_date (y, m, d) = (y', m', d')" using a by blast
  from n d(1-4) have "0 \<le> y'" "1 \<le> m'" "m' \<le> 12" "1 \<le> d'" "d' \<le> days_in_month y' m'"
    by (auto split: if_splits simp: days_in_month_def)
  with a have "is_valid_date y' m' d'" by (simp add: is_valid_date_iff month_days_march)
  with v(2) civil_days_next [OF d(2-5) n] show "posix_time_from_utc y' m' d' hh mi ss = Some (t + 86400)"
    by (simp add: from_utc_eq t)
next
  assume "posix_time_from_utc y m d 0 0 0 = Some t \<and> is_valid_time hh mi ss"
  then show "posix_time_from_utc y m d hh mi ss = Some (t + 3600 * hh + 60 * mi + ss)"
    by (auto simp: from_utc_eq split: if_splits)
qed

lemma posix_time_calendar_witness:
  "posix_time_from_utc 2000 2 29 23 59 59 = Some 951868799 \<and> posix_time_from_utc 2000 3 1 23 59 59 = Some (951868799 + 86400)"
proof -
  have "posix_time_from_utc 2000 2 29 23 59 59 = Some 951868799" by code_simp
  moreover have "next_date (2000, 2, 29) = (2000, 3, 1)" by (simp add: days_in_month_def leap_year_def)
  ultimately show ?thesis
    using posix_time_calendar [of 2000 2 29 23 59 59 951868799 2000 3 1] by simp
qed

text \<open>The overflow tests of \<^verbatim>\<open>OPENSSL_gmtime_adj\<close> reject only what is out of range anyway.\<close>

lemma valid_tm_range: "OPENSSL_tm_to_posix tm = Some t \<Longrightarrow> is_valid_posix_time t"
  using posix_to_tm_iff [of t tm] posix_to_tm_None [of t] by simp

lemma gmtime_adj_eq:
  assumes "OPENSSL_tm_to_posix tm = Some t"
  shows "OPENSSL_gmtime_adj tm offset_day offset_sec
    = OPENSSL_posix_to_tm (t + offset_day * 86400 + offset_sec)"
proof -
  define p where "p = t + offset_day * SECS_PER_DAY"
  have none: "OPENSSL_posix_to_tm x = None" if "INT64_MAX < x \<or> x < INT64_MIN" for x
    using that by (simp add: posix_to_tm_None is_valid_posix_time_def MIN_POSIX_TIME_def MAX_POSIX_TIME_def) linarith
  have "OPENSSL_gmtime_adj tm offset_day offset_sec = OPENSSL_posix_to_tm (p + offset_sec)"
    using assms none [of "p + offset_sec"] by (auto simp: OPENSSL_gmtime_adj_def p_def Let_def)
  then show ?thesis by (simp add: p_def SECS_PER_DAY_def SECS_PER_HOUR_def)
qed

text \<open>
  C21: \<^verbatim>\<open>OPENSSL_gmtime_diff\<close> accepts any two valid times; its days and seconds have one sign, with
  less than a day of seconds, and \<^verbatim>\<open>OPENSSL_gmtime_adj\<close> by the difference leads from the one to the other.
\<close>
theorem gmtime_diff_adj:
  assumes "OPENSSL_tm_to_posix a = Some t" "OPENSSL_tm_to_posix b = Some u"
  shows "\<exists>days secs. OPENSSL_gmtime_diff a b = Some (days, secs) \<and> \<bar>secs\<bar> < 86400
    \<and> (t \<le> u \<longrightarrow> 0 \<le> days \<and> 0 \<le> secs) \<and> (u \<le> t \<longrightarrow> days \<le> 0 \<and> secs \<le> 0)
    \<and> OPENSSL_gmtime_adj a days secs = Some b"
proof -
  define x where "x = u - t"
  have sec: "SECS_PER_DAY = 86400" by (simp add: SECS_PER_DAY_def SECS_PER_HOUR_def)
  have split: "x sdiv 86400 * 86400 + x smod 86400 = x" by (rule sdiv_mult_smod_eq)
  have s: "\<bar>x smod 86400\<bar> < 86400 \<and> (0 \<le> x \<longrightarrow> 0 \<le> x sdiv 86400 \<and> 0 \<le> x smod 86400)
      \<and> (x \<le> 0 \<longrightarrow> x sdiv 86400 \<le> 0 \<and> x smod 86400 \<le> 0)"
    by (cases x "0 :: int" rule: linorder_cases)
      (auto simp: signed_divide_int_def signed_modulo_int_def sgn_if pos_imp_zdiv_nonneg_iff abs_if not_less)
  have "OPENSSL_gmtime_adj a (x sdiv 86400) (x smod 86400) = OPENSSL_posix_to_tm (t + (x sdiv 86400 * 86400 + x smod 86400))"
    using gmtime_adj_eq [OF assms(1)] by (simp add: add.assoc)
  also have "t + (x sdiv 86400 * 86400 + x smod 86400) = u" unfolding split by (simp add: x_def)
  also have "OPENSSL_posix_to_tm u = Some b" using assms(2) by (simp add: posix_to_tm_iff)
  finally show ?thesis
    using s assms by (auto simp: OPENSSL_gmtime_diff_def sec x_def Let_def)
qed

lemma gmtime_diff_adj_witness:
  "\<exists>a b days secs. OPENSSL_gmtime_diff a b = Some (days, secs) \<and> days < 0 \<and> OPENSSL_gmtime_adj a days secs = Some b"
proof -
  let ?a = "\<lparr>tm_year = 124, tm_mon = 2, tm_mday = 1, tm_hour = 0, tm_min = 0, tm_sec = 0\<rparr>"
  let ?b = "\<lparr>tm_year = 124, tm_mon = 1, tm_mday = 28, tm_hour = 12, tm_min = 0, tm_sec = 0\<rparr>"
  have "OPENSSL_tm_to_posix ?a = Some 1709251200" "OPENSSL_tm_to_posix ?b = Some 1709121600" by code_simp+
  note gmtime_diff_adj [OF this]
  moreover have "OPENSSL_gmtime_diff ?a ?b = Some (- 1, - 43200)" by code_simp
  ultimately show ?thesis by force
qed

end
