(* ===== verification/Cbs_Time.thy ===== *)
theory Cbs_Time
  imports Cbs Posix_Time
begin

text \<open>
  The parser of ASN.1 times in \<^verbatim>\<open>crypto/bytestring/cbs.c\<close> (\<^verbatim>\<open>CBS_parse_generalized_time\<close> and
  \<^verbatim>\<open>CBS_parse_utc_time\<close>), on top of \<^verbatim>\<open>posix_time.c\<close>.  The theorems give the exact language the parser
  accepts and the time it computes for each string of it.
\<close>

section \<open>The code\<close>

definition cbs_get_two_digits :: "int get" where
  "cbs_get_two_digits =
     get_bind CBS_get_u8 (\<lambda>first_digit.
     get_bind (get_guard (OPENSSL_isdigit (uint first_digit))) (\<lambda>_.
     get_bind CBS_get_u8 (\<lambda>second_digit.
     get_bind (get_guard (OPENSSL_isdigit (uint second_digit))) (\<lambda>_.
     get_return ((uint first_digit - 48) * 10 + (uint second_digit - 48))))))"

definition is_valid_day :: "int \<Rightarrow> int \<Rightarrow> int \<Rightarrow> bool" where
  "is_valid_day year month day
     = (if day < 1 then False
        else if month \<in> {1, 3, 5, 7, 8, 10, 12} then day \<le> 31
        else if month \<in> {4, 6, 9, 11} then day \<le> 30
        else if month = 2
        then if (year smod 4 = 0 \<and> year smod 100 \<noteq> 0) \<or> year smod 400 = 0 then day \<le> 29 else day \<le> 28
        else False)"

text \<open>The year, with two or four digits.\<close>

definition rfc5280_year :: "bool \<Rightarrow> int get" where
  "rfc5280_year is_gentime
     = (if is_gentime
        then get_bind cbs_get_two_digits (\<lambda>tmp.
             let year = tmp * 100 in
             get_bind cbs_get_two_digits (\<lambda>tmp.
             get_return (year + tmp)))
        else let year = 1900 in
             get_bind cbs_get_two_digits (\<lambda>tmp.
             let year = year + tmp; year = (if year < 1950 then year + 100 else year) in
             if year \<ge> 2050 then get_fail else get_return year))"

text \<open>The zone after the byte \<open>tz\<close>, as an offset in seconds: \<open>Z\<close>, or a sign and four digits.\<close>

definition rfc5280_offset :: "bool \<Rightarrow> u8 \<Rightarrow> int get" where
  "rfc5280_offset allow_timezone_offset tz
     = get_bind (if tz = 90 then get_return 0 else if tz = 43 then get_return 1
                 else if tz = 45 then get_return (- 1) else get_fail) (\<lambda>offset_sign.
       if offset_sign \<noteq> 0
       then if \<not> allow_timezone_offset then get_fail
            else get_bind cbs_get_two_digits (\<lambda>offset_hours.
                 get_bind (get_guard (offset_hours \<le> 23)) (\<lambda>_.
                 get_bind cbs_get_two_digits (\<lambda>offset_minutes.
                 get_bind (get_guard (offset_minutes \<le> 59)) (\<lambda>_.
                 get_return (offset_sign * (offset_hours * 3600 + offset_minutes * 60))))))
       else get_return 0)"

definition rfc5280_time :: "bool \<Rightarrow> bool \<Rightarrow> (tm \<times> int) get" where
  "rfc5280_time is_gentime allow_timezone_offset
     = get_bind (rfc5280_year is_gentime) (\<lambda>year.
       get_bind cbs_get_two_digits (\<lambda>month.
       get_bind (get_guard (\<not> (month < 1 \<or> month > 12))) (\<lambda>_.
       get_bind cbs_get_two_digits (\<lambda>day.
       get_bind (get_guard (is_valid_day year month day)) (\<lambda>_.
       get_bind cbs_get_two_digits (\<lambda>hour.
       get_bind (get_guard (\<not> hour > 23)) (\<lambda>_.
       get_bind cbs_get_two_digits (\<lambda>minute.
       get_bind (get_guard (\<not> minute > 59)) (\<lambda>_.
       get_bind cbs_get_two_digits (\<lambda>sec.
       get_bind (get_guard (\<not> sec > 59)) (\<lambda>_.
       get_bind CBS_get_u8 (\<lambda>tz.
       get_bind (rfc5280_offset allow_timezone_offset tz) (\<lambda>offset_seconds.
       get_bind (\<lambda>copy. get_guard (length copy = 0) copy) (\<lambda>_.
       get_return (\<lparr>tm_year = year - 1900, tm_mon = month - 1, tm_mday = day,
                    tm_hour = hour, tm_min = minute, tm_sec = sec\<rparr>, offset_seconds)))))))))))))))"

text \<open>
  \<open>None\<close> is the result 0.  \<open>out_tm\<close> tells whether there is a place for the time; without it the offset is
  not applied and \<open>Some None\<close> is the result 1.
\<close>

definition CBS_parse_rfc5280_time_internal :: "bytes \<Rightarrow> bool \<Rightarrow> bool \<Rightarrow> bool \<Rightarrow> tm option option" where
  "CBS_parse_rfc5280_time_internal cbs is_gentime allow_timezone_offset out_tm
     = (case fst (rfc5280_time is_gentime allow_timezone_offset cbs) of
          None \<Rightarrow> None
        | Some (tm, offset_seconds) \<Rightarrow>
            if \<not> out_tm then Some None
            else if offset_seconds \<noteq> 0
            then (case OPENSSL_gmtime_adj tm 0 offset_seconds of None \<Rightarrow> None | Some tm \<Rightarrow> Some (Some tm))
            else Some (Some tm))"

definition CBS_parse_generalized_time :: "bytes \<Rightarrow> bool \<Rightarrow> bool \<Rightarrow> tm option option" where
  "CBS_parse_generalized_time cbs out_tm allow_timezone_offset
     = CBS_parse_rfc5280_time_internal cbs True allow_timezone_offset out_tm"

definition CBS_parse_utc_time :: "bytes \<Rightarrow> bool \<Rightarrow> bool \<Rightarrow> tm option option" where
  "CBS_parse_utc_time cbs out_tm allow_timezone_offset
     = CBS_parse_rfc5280_time_internal cbs False allow_timezone_offset out_tm"

section \<open>Two digits\<close>

definition two_digits :: "int \<Rightarrow> bytes" where
  "two_digits n = [word_of_int (48 + n div 10), word_of_int (48 + n mod 10)]"

lemma get_u8_cases [simp]: "CBS_get_u8 [] = (None, [])" "CBS_get_u8 (c # cbs) = (Some c, cbs)"
  by (simp_all add: CBS_get_u8_def get_bind_def cbs_get_def)

lemma get_u8_iff: "CBS_get_u8 cbs = (Some c, rest) \<longleftrightarrow> cbs = c # rest"
  by (cases cbs) auto

lemma get_guard_iff [simp]: "get_guard c cbs = (Some x, rest) \<longleftrightarrow> c \<and> rest = cbs"
  by auto

lemma get_return_iff: "get_return x cbs = (Some y, rest) \<longleftrightarrow> y = x \<and> cbs = rest"
  by auto

lemma two_digits_iff:
  "cbs_get_two_digits cbs = (Some n, rest) \<longleftrightarrow> 0 \<le> n \<and> n < 100 \<and> cbs = two_digits n @ rest"
proof
  assume "cbs_get_two_digits cbs = (Some n, rest)"
  then obtain a b where d: "OPENSSL_isdigit (uint a)" "OPENSSL_isdigit (uint b)" and cbs: "cbs = a # b # rest"
    and n: "n = (uint a - 48) * 10 + (uint b - 48)"
    by (auto simp: cbs_get_two_digits_def get_bind_Some get_u8_iff split: if_splits)
  have ab: "0 \<le> uint a - 48" "uint a - 48 < 10" "0 \<le> uint b - 48" "uint b - 48 < 10"
    using d by (simp_all add: OPENSSL_isdigit_def)
  have "n div 10 = uint a - 48" by (rule div_eqI [where r = "uint b - 48"]) (use ab n in simp_all)
  moreover have "n mod 10 = uint b - 48" using calculation mult_div_mod_eq [of 10 n] n by simp
  ultimately show "0 \<le> n \<and> n < 100 \<and> cbs = two_digits n @ rest"
    using ab n by (simp add: two_digits_def cbs)
next
  assume a: "0 \<le> n \<and> n < 100 \<and> cbs = two_digits n @ rest"
  then have "0 \<le> n div 10" "n div 10 < 10" "0 \<le> n mod 10" "n mod 10 < 10" by auto
  then have u: "uint (word_of_int (48 + n div 10) :: u8) = 48 + n div 10"
    "uint (word_of_int (48 + n mod 10) :: u8) = 48 + n mod 10"
    by (simp_all add: uint_word_of_int del: of_int_add)
  have "OPENSSL_isdigit (48 + n div 10)" "OPENSSL_isdigit (48 + n mod 10)"
    using a \<open>n div 10 < 10\<close> \<open>0 \<le> n div 10\<close> \<open>n mod 10 < 10\<close> by (simp_all add: OPENSSL_isdigit_def)
  then show "cbs_get_two_digits cbs = (Some n, rest)"
    using a unfolding cbs_get_two_digits_def get_bind_def two_digits_def by (simp add: u del: of_int_add)
qed

lemma get_two_digits_iff:
  "get_bind cbs_get_two_digits f cbs = (Some y, rest) \<longleftrightarrow>
     (\<exists>n cbs'. 0 \<le> n \<and> n < 100 \<and> cbs = two_digits n @ cbs' \<and> f n cbs' = (Some y, rest))"
  unfolding get_bind_Some two_digits_iff by blast

lemma get_guarded_iff: "get_bind (get_guard c) f cbs = (Some y, rest) \<longleftrightarrow> c \<and> f () cbs = (Some y, rest)"
  unfolding get_bind_Some get_guard_iff by auto

lemma two_digits_inj:
  "0 \<le> m \<Longrightarrow> m < 100 \<Longrightarrow> 0 \<le> n \<Longrightarrow> n < 100 \<Longrightarrow> two_digits m @ xs = two_digits n @ ys \<longleftrightarrow> m = n \<and> xs = ys"
  using two_digits_iff [of "two_digits m @ xs" m xs] two_digits_iff [of "two_digits n @ ys" n ys]
  by (metis option.inject prod.inject)

lemma is_valid_day_date:
  "0 \<le> y \<Longrightarrow> y \<le> 9999 \<Longrightarrow> 1 \<le> m \<Longrightarrow> is_valid_day y m d = is_valid_date y m d"
  by (auto simp: is_valid_day_def is_valid_date_def)

section \<open>The accepted strings\<close>

text \<open>The digits of a valid time with a two-digit or a four-digit year.\<close>

definition year_ok :: "bool \<Rightarrow> int \<Rightarrow> bool" where
  "year_ok gen y \<longleftrightarrow> (if gen then 0 \<le> y \<and> y \<le> 9999 else 1950 \<le> y \<and> y < 2050)"

definition year_text :: "bool \<Rightarrow> int \<Rightarrow> bytes" where
  "year_text gen y = (if gen then two_digits (y div 100) else []) @ two_digits (y mod 100)"

definition time_text :: "bool \<Rightarrow> tm \<Rightarrow> bytes" where
  "time_text gen tm = year_text gen (tm_year tm + 1900) @ two_digits (tm_mon tm + 1) @ two_digits (tm_mday tm)
     @ two_digits (tm_hour tm) @ two_digits (tm_min tm) @ two_digits (tm_sec tm)"

lemma rfc5280_year_iff:
  "rfc5280_year gen cbs = (Some y, rest) \<longleftrightarrow> year_ok gen y \<and> cbs = year_text gen y @ rest"
proof (cases gen)
  case True
  have split: "(\<exists>a b. 0 \<le> a \<and> a < 100 \<and> 0 \<le> b \<and> b < 100 \<and> y = a * 100 + b \<and> cbs = two_digits a @ two_digits b @ rest)
      \<longleftrightarrow> 0 \<le> y \<and> y \<le> 9999 \<and> cbs = two_digits (y div 100) @ two_digits (y mod 100) @ rest" (is "?l \<longleftrightarrow> ?r")
  proof
    assume ?l
    then obtain a b where ab: "0 \<le> a" "a < 100" "0 \<le> b" "b < 100" "y = a * 100 + b"
      "cbs = two_digits a @ two_digits b @ rest" by blast
    have "y div 100 = a" by (rule div_eqI [where r = b]) (use ab in simp_all)
    moreover have "y mod 100 = b" using calculation mult_div_mod_eq [of 100 y] ab by simp
    ultimately show ?r using ab by simp
  next
    assume r: ?r
    then have y: "0 \<le> y" "y \<le> 9999" by simp_all
    have e: "y = y div 100 * 100 + y mod 100" "0 \<le> y mod 100" "y mod 100 < 100" by simp_all
    with y have "0 \<le> y div 100" "y div 100 < 100" by linarith+
    with r e show ?l by blast
  qed
  have "rfc5280_year gen cbs = (Some y, rest) \<longleftrightarrow>
      (\<exists>a b. 0 \<le> a \<and> a < 100 \<and> 0 \<le> b \<and> b < 100 \<and> y = a * 100 + b \<and> cbs = two_digits a @ two_digits b @ rest)"
    unfolding rfc5280_year_def if_P [OF True] Let_def get_two_digits_iff get_return_iff by metis
  then show ?thesis unfolding split using True by (simp add: year_ok_def year_text_def)
next
  case False
  have rd: "rfc5280_year gen cbs = (Some y, rest) \<longleftrightarrow> (\<exists>a. 0 \<le> a \<and> a < 100 \<and> cbs = two_digits a @ rest \<and>
      y = (if a < 50 then a + 2000 else a + 1900))"
  proof -
    have y: "(if 1900 + a < 1950 then 1900 + a + 100 else 1900 + a) = (if a < 50 then a + 2000 else a + 1900)"
      "(if a < 50 then a + 2000 else a + 1900) < 2050" if "0 \<le> a" "a < 100" for a :: int
      using that by simp_all
    have "rfc5280_year gen cbs = (Some y, rest) \<longleftrightarrow> (\<exists>a cbs'. 0 \<le> a \<and> a < 100 \<and> cbs = two_digits a @ cbs' \<and>
        get_return (if a < 50 then a + 2000 else a + 1900) cbs' = (Some y, rest))"
      unfolding rfc5280_year_def if_not_P [OF False] Let_def get_two_digits_iff
      by (intro ex_cong1 conj_cong refl) (simp add: y not_le add.commute del: get_return_app)
    then show ?thesis unfolding get_return_iff by blast
  qed
  have m: "y mod 100 = (if y < 2000 then y - 1900 else y - 2000)" if "1950 \<le> y" "y < 2050"
  proof (cases "y < 2000")
    case True
    have "y div 100 = 19" by (rule div_eqI [where r = "y - 1900"]) (use True that in simp_all)
    then show ?thesis using mult_div_mod_eq [of 100 y] True by simp
  next
    case nt: False
    have "y div 100 = 20" by (rule div_eqI [where r = "y - 2000"]) (use nt that in simp_all)
    then show ?thesis using mult_div_mod_eq [of 100 y] nt by simp
  qed
  show ?thesis
  proof
    assume "rfc5280_year gen cbs = (Some y, rest)"
    then obtain a where a: "0 \<le> a" "a < 100" "cbs = two_digits a @ rest" "y = (if a < 50 then a + 2000 else a + 1900)"
      unfolding rd by blast
    then have y: "1950 \<le> y" "y < 2050" by (auto split: if_splits)
    with m a have "y mod 100 = a" by (simp split: if_splits)
    with a y False show "year_ok gen y \<and> cbs = year_text gen y @ rest" by (simp add: year_ok_def year_text_def)
  next
    assume "year_ok gen y \<and> cbs = year_text gen y @ rest"
    then have y: "1950 \<le> y" "y < 2050" "cbs = two_digits (y mod 100) @ rest"
      using False by (simp_all add: year_ok_def year_text_def)
    then show "rfc5280_year gen cbs = (Some y, rest)"
      unfolding rd using m [OF y(1,2)] by (intro exI [of _ "y mod 100"]) (simp split: if_splits)
  qed
qed

text \<open>The zone at the end and its offset: \<open>Z\<close>, or, where allowed, a sign with hours and minutes.\<close>

definition is_zone :: "bool \<Rightarrow> bytes \<Rightarrow> int \<Rightarrow> bool" where
  "is_zone allow zone off \<longleftrightarrow> zone = [90] \<and> off = 0 \<or>
     allow \<and> (\<exists>h m. 0 \<le> h \<and> h \<le> 23 \<and> 0 \<le> m \<and> m \<le> 59 \<and>
       (zone = 43 # two_digits h @ two_digits m \<and> off = h * 3600 + m * 60 \<or>
        zone = 45 # two_digits h @ two_digits m \<and> off = - (h * 3600 + m * 60)))"

lemma rfc5280_offset_iff:
  "rfc5280_offset allow tz cbs = (Some off, []) \<longleftrightarrow> is_zone allow (tz # cbs) off"
proof -
  have digits: "get_bind cbs_get_two_digits (\<lambda>oh. get_bind (get_guard (oh \<le> 23)) (\<lambda>_. get_bind cbs_get_two_digits (\<lambda>om.
      get_bind (get_guard (om \<le> 59)) (\<lambda>_. get_return (sg * (oh * 3600 + om * 60)))))) cbs = (Some off, [])
    \<longleftrightarrow> (\<exists>h m. 0 \<le> h \<and> h \<le> 23 \<and> 0 \<le> m \<and> m \<le> 59 \<and> cbs = two_digits h @ two_digits m \<and> off = sg * (h * 3600 + m * 60))"
    for sg :: int
  proof -
    have "get_bind cbs_get_two_digits (\<lambda>oh. get_bind (get_guard (oh \<le> 23)) (\<lambda>_. get_bind cbs_get_two_digits (\<lambda>om.
        get_bind (get_guard (om \<le> 59)) (\<lambda>_. get_return (sg * (oh * 3600 + om * 60)))))) cbs = (Some off, [])
      \<longleftrightarrow> (\<exists>h r. 0 \<le> h \<and> h < 100 \<and> cbs = two_digits h @ r \<and> h \<le> 23 \<and> (\<exists>m q. 0 \<le> m \<and> m < 100 \<and> r = two_digits m @ q \<and>
            m \<le> 59 \<and> off = sg * (h * 3600 + m * 60) \<and> q = []))"
      unfolding get_two_digits_iff get_guarded_iff get_return_iff ..
    also have "\<dots> \<longleftrightarrow> (\<exists>h m. 0 \<le> h \<and> h \<le> 23 \<and> 0 \<le> m \<and> m \<le> 59 \<and> cbs = two_digits h @ two_digits m \<and> off = sg * (h * 3600 + m * 60))"
      by (intro iffI; elim exE conjE; simp; fastforce)
    finally show ?thesis .
  qed
  consider "tz = 90" | "tz = 43" | "tz = 45" | "tz \<noteq> 90" "tz \<noteq> 43" "tz \<noteq> 45" by blast
  then show ?thesis
  proof cases
    case 1
    then show ?thesis by (auto simp: rfc5280_offset_def is_zone_def)
  next
    case 2
    then have "rfc5280_offset allow tz cbs = (Some off, []) \<longleftrightarrow> allow \<and> (\<exists>h m. 0 \<le> h \<and> h \<le> 23 \<and> 0 \<le> m \<and> m \<le> 59 \<and>
        cbs = two_digits h @ two_digits m \<and> off = 1 * (h * 3600 + m * 60))"
      unfolding digits [symmetric] by (simp add: rfc5280_offset_def)
    with 2 show ?thesis by (simp add: is_zone_def)
  next
    case 3
    then have "rfc5280_offset allow tz cbs = (Some off, []) \<longleftrightarrow> allow \<and> (\<exists>h m. 0 \<le> h \<and> h \<le> 23 \<and> 0 \<le> m \<and> m \<le> 59 \<and>
        cbs = two_digits h @ two_digits m \<and> off = - 1 * (h * 3600 + m * 60))"
      unfolding digits [symmetric] by (simp add: rfc5280_offset_def)
    with 3 show ?thesis by (simp add: is_zone_def)
  next
    case 4
    then show ?thesis by (auto simp: rfc5280_offset_def is_zone_def)
  qed
qed

lemma valid_tm_iff:
  "(\<exists>t. OPENSSL_tm_to_posix tm = Some t) \<longleftrightarrow>
     is_valid_date (tm_year tm + 1900) (tm_mon tm + 1) (tm_mday tm) \<and> is_valid_time (tm_hour tm) (tm_min tm) (tm_sec tm)"
  by (simp add: OPENSSL_tm_to_posix_def from_utc_eq)

lemma get_end_iff:
  "get_bind (\<lambda>copy. get_guard (length copy = 0) copy) f cbs = (Some y, rest) \<longleftrightarrow> cbs = [] \<and> f () [] = (Some y, rest)"
  unfolding get_bind_Some by auto

lemma rfc5280_time_fields:
  "(\<exists>rest. rfc5280_time gen allow cbs = (Some (tm, off), rest)) \<longleftrightarrow>
     (\<exists>y mo d h mi s tz z. year_ok gen y \<and> 1 \<le> mo \<and> mo \<le> 12 \<and> 0 \<le> d \<and> d < 100 \<and> is_valid_day y mo d
        \<and> 0 \<le> h \<and> h \<le> 23 \<and> 0 \<le> mi \<and> mi \<le> 59 \<and> 0 \<le> s \<and> s \<le> 59 \<and> is_zone allow (tz # z) off
        \<and> cbs = year_text gen y @ two_digits mo @ two_digits d @ two_digits h @ two_digits mi @ two_digits s @ tz # z
        \<and> tm = \<lparr>tm_year = y - 1900, tm_mon = mo - 1, tm_mday = d, tm_hour = h, tm_min = mi, tm_sec = s\<rparr>)"
  (is "?l \<longleftrightarrow> ?r")
proof
  note steps = rfc5280_time_def get_bind_Some [of "rfc5280_year gen"] get_bind_Some [of CBS_get_u8]
    get_bind_Some [of "rfc5280_offset _ _"] rfc5280_year_iff get_two_digits_iff get_guarded_iff get_u8_iff
    get_end_iff get_return_iff not_less
  {
    assume ?l
    then show ?r
      unfolding steps
    proof (elim exE conjE)
      fix y r1 mo r2 d r3 h r4 mi r5 s r6 tz r7 off' r8
      assume a: "year_ok gen y" "\<not> (mo < 1 \<or> 12 < mo)" "0 \<le> d" "d < 100" "is_valid_day y mo d" "0 \<le> h" "h \<le> 23"
        "0 \<le> mi" "mi \<le> 59" "0 \<le> s" "s \<le> 59"
        and off: "rfc5280_offset allow tz r7 = (Some off', r8)" "r8 = []" "(tm, off) =
          (\<lparr>tm_year = y - 1900, tm_mon = mo - 1, tm_mday = d, tm_hour = h, tm_min = mi, tm_sec = s\<rparr>, off')"
        and r: "cbs = year_text gen y @ r1" "r1 = two_digits mo @ r2" "r2 = two_digits d @ r3" "r3 = two_digits h @ r4"
          "r4 = two_digits mi @ r5" "r5 = two_digits s @ r6" "r6 = tz # r7"
      from a off r have "year_ok gen y \<and> 1 \<le> mo \<and> mo \<le> 12 \<and> 0 \<le> d \<and> d < 100 \<and> is_valid_day y mo d
        \<and> 0 \<le> h \<and> h \<le> 23 \<and> 0 \<le> mi \<and> mi \<le> 59 \<and> 0 \<le> s \<and> s \<le> 59 \<and> is_zone allow (tz # r7) off
        \<and> cbs = year_text gen y @ two_digits mo @ two_digits d @ two_digits h @ two_digits mi @ two_digits s @ tz # r7
        \<and> tm = \<lparr>tm_year = y - 1900, tm_mon = mo - 1, tm_mday = d, tm_hour = h, tm_min = mi, tm_sec = s\<rparr>"
        by (simp add: rfc5280_offset_iff [symmetric] not_less)
      then show ?r by blast
    qed
  next
    assume ?r
    then obtain y mo d h mi s tz z where a: "year_ok gen y" "1 \<le> mo" "mo \<le> 12" "0 \<le> d" "d < 100" "is_valid_day y mo d"
      "0 \<le> h" "h \<le> 23" "0 \<le> mi" "mi \<le> 59" "0 \<le> s" "s \<le> 59" "is_zone allow (tz # z) off"
      and cbs: "cbs = year_text gen y @ two_digits mo @ two_digits d @ two_digits h @ two_digits mi @ two_digits s @ tz # z"
      and tm: "tm = \<lparr>tm_year = y - 1900, tm_mon = mo - 1, tm_mday = d, tm_hour = h, tm_min = mi, tm_sec = s\<rparr>"
      by (elim exE conjE) (rule that)
    have two: "cbs_get_two_digits (two_digits n @ r) = (Some n, r)" if "0 \<le> n" "n < 100" for n r
      using that by (simp add: two_digits_iff)
    have year: "rfc5280_year gen (year_text gen y @ r) = (Some y, r)" for r using a(1) by (simp add: rfc5280_year_iff)
    have zone: "rfc5280_offset allow tz z = (Some off, [])" using a(13) by (simp add: rfc5280_offset_iff)
    show ?l
      unfolding rfc5280_time_def cbs tm using a by (simp add: get_bind_app year two zone)
  }
qed

lemma rfc5280_time_iff:
  "fst (rfc5280_time gen allow cbs) = Some (tm, off) \<longleftrightarrow>
     (\<exists>t. OPENSSL_tm_to_posix tm = Some t) \<and> year_ok gen (tm_year tm + 1900) \<and>
     (\<exists>zone. cbs = time_text gen tm @ zone \<and> is_zone allow zone off)"
  (is "?l \<longleftrightarrow> ?r")
proof -
  have "?l \<longleftrightarrow> (\<exists>rest. rfc5280_time gen allow cbs = (Some (tm, off), rest))" by (metis prod.collapse fst_conv)
  also have "\<dots> \<longleftrightarrow> ?r"
    unfolding rfc5280_time_fields
  proof
    assume "\<exists>y mo d h mi s tz z. year_ok gen y \<and> 1 \<le> mo \<and> mo \<le> 12 \<and> 0 \<le> d \<and> d < 100 \<and> is_valid_day y mo d
        \<and> 0 \<le> h \<and> h \<le> 23 \<and> 0 \<le> mi \<and> mi \<le> 59 \<and> 0 \<le> s \<and> s \<le> 59 \<and> is_zone allow (tz # z) off
        \<and> cbs = year_text gen y @ two_digits mo @ two_digits d @ two_digits h @ two_digits mi @ two_digits s @ tz # z
        \<and> tm = \<lparr>tm_year = y - 1900, tm_mon = mo - 1, tm_mday = d, tm_hour = h, tm_min = mi, tm_sec = s\<rparr>"
    then show ?r
    proof (elim exE conjE)
      fix y mo d h mi s tz z
      assume a: "year_ok gen y" "1 \<le> mo" "mo \<le> 12" "is_valid_day y mo d" "0 \<le> h" "h \<le> 23" "0 \<le> mi" "mi \<le> 59"
        "0 \<le> s" "s \<le> 59" "is_zone allow (tz # z) off"
        "cbs = year_text gen y @ two_digits mo @ two_digits d @ two_digits h @ two_digits mi @ two_digits s @ tz # z"
        "tm = \<lparr>tm_year = y - 1900, tm_mon = mo - 1, tm_mday = d, tm_hour = h, tm_min = mi, tm_sec = s\<rparr>"
      from a(1) have "0 \<le> y" "y \<le> 9999" by (auto simp: year_ok_def split: if_splits)
      with a have "is_valid_date y mo d" "is_valid_time h mi s" by (simp_all add: is_valid_day_date is_valid_time_def)
      with a show ?r unfolding valid_tm_iff by (auto simp: time_text_def)
    qed
  next
    assume r: ?r
    then obtain zone where z: "cbs = time_text gen tm @ zone" "is_zone allow zone off" by blast
    then obtain tz zr where zone: "zone = tz # zr" by (cases zone) (auto simp: is_zone_def)
    from r have v: "is_valid_date (tm_year tm + 1900) (tm_mon tm + 1) (tm_mday tm)"
      "is_valid_time (tm_hour tm) (tm_min tm) (tm_sec tm)" unfolding valid_tm_iff by blast+
    from v(1) have d: "0 \<le> tm_year tm + 1900" "tm_year tm + 1900 \<le> 9999" "1 \<le> tm_mon tm + 1" "tm_mon tm + 1 \<le> 12"
      "0 \<le> tm_mday tm" "tm_mday tm < 100"
      by (auto simp: is_valid_date_def split: if_splits)
    have vd: "is_valid_day (tm_year tm + 1900) (tm_mon tm + 1) (tm_mday tm)"
      using v(1) by (simp only: is_valid_day_date [OF d(1-3)])
    have t: "0 \<le> tm_hour tm" "tm_hour tm \<le> 23" "0 \<le> tm_min tm" "tm_min tm \<le> 59" "0 \<le> tm_sec tm" "tm_sec tm \<le> 59"
      using v(2) by (auto simp: is_valid_time_def split: if_splits)
    have yo: "year_ok gen (tm_year tm + 1900)" using r by blast
    have digits: "cbs = year_text gen (tm_year tm + 1900) @ two_digits (tm_mon tm + 1) @ two_digits (tm_mday tm)
        @ two_digits (tm_hour tm) @ two_digits (tm_min tm) @ two_digits (tm_sec tm) @ tz # zr"
      unfolding z(1) zone by (simp add: time_text_def)
    have tm: "tm = \<lparr>tm_year = tm_year tm + 1900 - 1900, tm_mon = tm_mon tm + 1 - 1, tm_mday = tm_mday tm,
        tm_hour = tm_hour tm, tm_min = tm_min tm, tm_sec = tm_sec tm\<rparr>" by simp
    show "\<exists>y mo d h mi s tz z. year_ok gen y \<and> 1 \<le> mo \<and> mo \<le> 12 \<and> 0 \<le> d \<and> d < 100 \<and> is_valid_day y mo d
        \<and> 0 \<le> h \<and> h \<le> 23 \<and> 0 \<le> mi \<and> mi \<le> 59 \<and> 0 \<le> s \<and> s \<le> 59 \<and> is_zone allow (tz # z) off
        \<and> cbs = year_text gen y @ two_digits mo @ two_digits d @ two_digits h @ two_digits mi @ two_digits s @ tz # z
        \<and> tm = \<lparr>tm_year = y - 1900, tm_mon = mo - 1, tm_mday = d, tm_hour = h, tm_min = mi, tm_sec = s\<rparr>"
      by (rule exI conjI yo d(3-6) vd t z(2) [unfolded zone] digits tm)+
  qed
  finally show ?thesis .
qed

lemma opt_pair_iff:
  "(case x of None \<Rightarrow> None | Some (a, b) \<Rightarrow> F a b) = Some z \<longleftrightarrow> (\<exists>a b. x = Some (a, b) \<and> F a b = Some z)"
  by (cases x) auto

lemma time_parser_iff:
  "CBS_parse_rfc5280_time_internal cbs is_gentime allow True = Some (Some tm) \<longleftrightarrow>
     (\<exists>written t zone off. OPENSSL_tm_to_posix written = Some t \<and> year_ok is_gentime (tm_year written + 1900)
        \<and> cbs = time_text is_gentime written @ zone \<and> is_zone allow zone off
        \<and> OPENSSL_tm_to_posix tm = Some (t + off))"
proof -
  have apply_off: "(if off \<noteq> 0 then (case OPENSSL_gmtime_adj w 0 off of None \<Rightarrow> None | Some tm \<Rightarrow> Some (Some tm)) else Some (Some w))
      = Some (Some tm) \<longleftrightarrow> OPENSSL_tm_to_posix tm = Some (t + off)" if "OPENSSL_tm_to_posix w = Some t" for w t off
    using gmtime_adj_eq [OF that, of 0 off] that posix_to_tm_iff [of t w] posix_to_tm_iff [of "t + off" tm]
    by (auto split: option.splits)
  have "CBS_parse_rfc5280_time_internal cbs is_gentime allow True = Some (Some tm) \<longleftrightarrow>
      (\<exists>w off. fst (rfc5280_time is_gentime allow cbs) = Some (w, off) \<and>
        (if off \<noteq> 0 then (case OPENSSL_gmtime_adj w 0 off of None \<Rightarrow> None | Some tm \<Rightarrow> Some (Some tm)) else Some (Some w))
          = Some (Some tm))"
    by (simp only: CBS_parse_rfc5280_time_internal_def opt_pair_iff not_True_eq_False if_False)
  also have "\<dots> \<longleftrightarrow> (\<exists>written t zone off. OPENSSL_tm_to_posix written = Some t \<and> year_ok is_gentime (tm_year written + 1900)
        \<and> cbs = time_text is_gentime written @ zone \<and> is_zone allow zone off
        \<and> OPENSSL_tm_to_posix tm = Some (t + off))"
    unfolding rfc5280_time_iff using apply_off by blast
  finally show ?thesis .
qed

section \<open>Properties\<close>

text \<open>A zone as it is written: \<open>Z\<close>, or, where allowed, a sign with hours and minutes.\<close>

definition zone_text :: "bool \<Rightarrow> bytes \<Rightarrow> bool" where
  "zone_text allow zone \<longleftrightarrow> zone = [90] \<or>
     allow \<and> (\<exists>sign h m. (sign = 43 \<or> sign = 45) \<and> 0 \<le> h \<and> h \<le> 23 \<and> 0 \<le> m \<and> m \<le> 59 \<and> zone = sign # two_digits h @ two_digits m)"

lemma zone_text_iff: "zone_text allow zone \<longleftrightarrow> (\<exists>off. is_zone allow zone off)"
  unfolding zone_text_def is_zone_def by blast

lemma zone_Z: "is_zone allow zone off \<Longrightarrow> zone \<noteq> [90] \<Longrightarrow> \<exists>m. 0 \<le> m \<and> m \<le> 59 \<and> last zone = word_of_int (48 + m mod 10)"
  unfolding is_zone_def two_digits_def by auto

lemma digit_not_Z: "word_of_int (48 + m mod 10) \<noteq> (90 :: u8)"
proof
  assume e: "word_of_int (48 + m mod 10) = (90 :: u8)"
  have b: "0 \<le> m mod 10" "m mod 10 < 10" by simp_all
  have "uint (word_of_int (48 + m mod 10) :: u8) = (48 + m mod 10) mod 2 ^ 8" by (simp only: uint_word_of_int) simp
  also have "\<dots> = 48 + m mod 10" using b by (intro mod_pos_pos_trivial) simp_all
  finally show False using b unfolding e by simp
qed

lemma zone_end_Z: "is_zone allow zone off \<Longrightarrow> xs @ [90] = ys @ zone \<Longrightarrow> zone = [90] \<and> off = 0"
proof -
  assume z: "is_zone allow zone off" and e: "xs @ [90] = ys @ zone"
  have "zone \<noteq> []" using z by (auto simp: is_zone_def)
  then have "last zone = 90" using e by (metis last_appendR last_snoc)
  with zone_Z [OF z] digit_not_Z have "zone = [90]" by metis
  with z show ?thesis by (auto simp: is_zone_def two_digits_def)
qed

lemma time_parser_Z:
  "CBS_parse_rfc5280_time_internal (xs @ [90]) is_gentime allow True = Some (Some tm) \<longleftrightarrow>
     OPENSSL_tm_to_posix tm \<noteq> None \<and> year_ok is_gentime (tm_year tm + 1900) \<and> xs = time_text is_gentime tm"
  (is "?l \<longleftrightarrow> ?r")
proof
  assume ?l
  then obtain w t zone off where w: "OPENSSL_tm_to_posix w = Some t" "year_ok is_gentime (tm_year w + 1900)"
      "xs @ [90] = time_text is_gentime w @ zone" "is_zone allow zone off" "OPENSSL_tm_to_posix tm = Some (t + off)"
    unfolding time_parser_iff by blast
  have z: "zone = [90]" "off = 0" using zone_end_Z [OF w(4,3)] by simp_all
  then have "w = tm" using w(1,5) by (simp add: posix_to_tm_iff [symmetric])
  then show ?r using w z by simp
next
  assume ?r
  moreover have "is_zone allow [90] 0" by (simp add: is_zone_def)
  ultimately show ?l unfolding time_parser_iff by (metis add.right_neutral not_None_eq)
qed

text \<open>
  C22: The parser of ASN.1 times.  A string is valid (accepted without storing the time) exactly if it is the digits of a
  valid date and time, where two-digit years stand for 1950 to 2049, followed by \<open>Z\<close> or, where offsets are allowed, by a
  sign with hours and minutes in range.  A string that ends in \<open>Z\<close>, and any string where offsets are not
  allowed, gives a time exactly if it is the text of that time, so it is read back as it was written.
\<close>
theorem time_parser_exact:
  "(CBS_parse_rfc5280_time_internal cbs is_gentime allow False = Some None \<longleftrightarrow>
      (\<exists>written zone. OPENSSL_tm_to_posix written \<noteq> None \<and> year_ok is_gentime (tm_year written + 1900)
         \<and> cbs = time_text is_gentime written @ zone \<and> zone_text allow zone))
   \<and> (CBS_parse_rfc5280_time_internal (xs @ [90]) is_gentime allow True = Some (Some tm) \<longleftrightarrow>
      OPENSSL_tm_to_posix tm \<noteq> None \<and> year_ok is_gentime (tm_year tm + 1900) \<and> xs = time_text is_gentime tm)
   \<and> (CBS_parse_rfc5280_time_internal cbs is_gentime False True = Some (Some tm) \<longleftrightarrow>
      OPENSSL_tm_to_posix tm \<noteq> None \<and> year_ok is_gentime (tm_year tm + 1900) \<and> cbs = time_text is_gentime tm @ [90])"
proof (intro conjI)
  have "CBS_parse_rfc5280_time_internal cbs is_gentime allow False = Some None \<longleftrightarrow> (\<exists>w off. fst (rfc5280_time is_gentime allow cbs) = Some (w, off))"
    unfolding CBS_parse_rfc5280_time_internal_def opt_pair_iff by simp
  then show "CBS_parse_rfc5280_time_internal cbs is_gentime allow False = Some None \<longleftrightarrow>
      (\<exists>written zone. OPENSSL_tm_to_posix written \<noteq> None \<and> year_ok is_gentime (tm_year written + 1900)
         \<and> cbs = time_text is_gentime written @ zone \<and> zone_text allow zone)"
    unfolding rfc5280_time_iff zone_text_iff by blast
  show "CBS_parse_rfc5280_time_internal cbs is_gentime False True = Some (Some tm) \<longleftrightarrow>
      OPENSSL_tm_to_posix tm \<noteq> None \<and> year_ok is_gentime (tm_year tm + 1900) \<and> cbs = time_text is_gentime tm @ [90]"
    (is "?l \<longleftrightarrow> ?r")
  proof
    assume l: ?l
    then obtain ys zone off where "cbs = ys @ zone" "is_zone False zone off" unfolding time_parser_iff by blast
    then have "cbs = ys @ [90]" by (simp add: is_zone_def)
    with l show ?r using time_parser_Z [of ys is_gentime False tm] by simp
  qed (use time_parser_Z [of "time_text is_gentime tm" is_gentime False tm] in simp)
qed (rule time_parser_Z)

text \<open>
  Without offsets, GeneralizedTime and its parser are inverse to each other: a string is accepted as
  a time exactly when it is the printed form of that time, and every valid time has one.
\<close>
theorem generalized_time_roundtrip:
  "CBS_parse_generalized_time cbs True False = Some (Some tm) \<longleftrightarrow>
     OPENSSL_tm_to_posix tm \<noteq> None \<and> cbs = time_text True tm @ [90]"
proof -
  have "is_zone False zone off \<longleftrightarrow> zone = [90] \<and> off = 0" for zone off by (simp add: is_zone_def)
  moreover have "year_ok True (tm_year w + 1900)" if "OPENSSL_tm_to_posix w = Some t" for w t
    using that valid_tm_iff [of w] by (auto simp: year_ok_def is_valid_date_def split: if_splits)
  ultimately have "CBS_parse_generalized_time cbs True False = Some (Some tm) \<longleftrightarrow>
      (\<exists>w t. OPENSSL_tm_to_posix w = Some t \<and> cbs = time_text True w @ [90] \<and> OPENSSL_tm_to_posix tm = Some t)"
    unfolding CBS_parse_generalized_time_def time_parser_iff by (metis add.right_neutral)
  moreover have "w = tm" if "OPENSSL_tm_to_posix w = Some t" "OPENSSL_tm_to_posix tm = Some t" for w t
    using that by (simp add: posix_to_tm_iff [symmetric])
  ultimately show ?thesis by blast
qed

text \<open>
  The sign of the offset: the zone \<open>+0100\<close> is east of Greenwich (local time is ahead of UTC), and the
  code adds the offset where UTC is the written time less the offset.
\<close>
lemma utc_time_offset_sign:
  "CBS_parse_utc_time [56, 53, 48, 49, 48, 50, 48, 48, 48, 48, 48, 48, 43, 48, 49, 48, 48] True True
    = Some (Some \<lparr>tm_year = 85, tm_mon = 0, tm_mday = 2, tm_hour = 1, tm_min = 0, tm_sec = 0\<rparr>)"
  by code_simp

text \<open>Whether a string with an offset is accepted depends on whether the caller wants the time.\<close>
lemma generalized_time_null_out:
  "CBS_parse_generalized_time [48, 48, 48, 48, 48, 49, 48, 49, 48, 48, 48, 48, 48, 48, 45, 48, 48, 48, 49] False True = Some None"
  "CBS_parse_generalized_time [48, 48, 48, 48, 48, 49, 48, 49, 48, 48, 48, 48, 48, 48, 45, 48, 48, 48, 49] True True = None"
  by code_simp+

end
