(* ===== verification/Lhash_Map.thy ===== *)
theory Lhash_Map
  imports Lhash
begin

text \<open>
  The hash table as a map: the invariant \<open>lh_wf\<close> of the table of \<^verbatim>\<open>Lhash.thy\<close>, the map \<open>lh_map\<close> it stands
  for, and what every operation does to it.  \<open>key\<close> is any function that tells apart exactly what the
  table's comparison function tells apart; the hash must depend on it only.
\<close>

section \<open>The invariant\<close>

definition key_ok :: "('a \<Rightarrow> 'k) \<Rightarrow> 'a lhash \<Rightarrow> bool" where
  "key_ok key lh \<longleftrightarrow> (\<forall>a b. lh_comp lh a b = 0 \<longleftrightarrow> key a = key b) \<and> (\<forall>a b. key a = key b \<longrightarrow> lh_hash lh a = lh_hash lh b)"

lemma key_okD:
  "key_ok key lh \<Longrightarrow> lh_comp lh a b = 0 \<longleftrightarrow> key a = key b"
  "key_ok key lh \<Longrightarrow> key a = key b \<Longrightarrow> lh_hash lh a = lh_hash lh b"
  unfolding key_ok_def by blast+

lemma key_ok_cong: "lh_comp lh' = lh_comp lh \<Longrightarrow> lh_hash lh' = lh_hash lh \<Longrightarrow> key_ok key lh' = key_ok key lh"
  unfolding key_ok_def by (simp only:)

lemma key_ok_update [simp]:
  "key_ok key (lh\<lparr>buckets := bs\<rparr>) = key_ok key lh" "key_ok key (lh\<lparr>num_items := n\<rparr>) = key_ok key lh"
  "key_ok key (lh\<lparr>callback_depth := d\<rparr>) = key_ok key lh"
  by (rule key_ok_cong; simp)+

definition lh_items :: "'a lhash \<Rightarrow> 'a lhash_item list" where
  "lh_items lh = concat (buckets lh)"

definition lh_placed :: "nat \<Rightarrow> 'a lhash_item list list \<Rightarrow> bool" where
  "lh_placed n bs \<longleftrightarrow> length bs = n \<and> (\<forall>i<n. \<forall>it\<in>set (bs ! i). unat (it_hash it) mod n = i)"

definition lh_wf :: "('a \<Rightarrow> 'k) \<Rightarrow> 'a lhash \<Rightarrow> bool" where
  "lh_wf key lh \<longleftrightarrow> key_ok key lh \<and> kMinNumBuckets \<le> num_buckets lh \<and> lh_placed (num_buckets lh) (buckets lh)
     \<and> num_items lh = length (lh_items lh)
     \<and> (\<forall>it\<in>set (lh_items lh). it_hash it = lh_hash lh (it_data it))
     \<and> distinct (map (key \<circ> it_data) (lh_items lh)) \<and> distinct (map it_addr (lh_items lh))"

text \<open>The map: what the table holds under a key.\<close>

definition lh_map :: "('a \<Rightarrow> 'k) \<Rightarrow> 'a lhash \<Rightarrow> 'k \<rightharpoonup> 'a" where
  "lh_map key lh = map_of (map (\<lambda>it. (key (it_data it), it_data it)) (lh_items lh))"

lemma lh_map_iff:
  "lh_wf key lh \<Longrightarrow> lh_map key lh k = Some d \<longleftrightarrow> (\<exists>it\<in>set (lh_items lh). it_data it = d \<and> key d = k)"
  unfolding lh_map_def lh_wf_def
  by (subst map_of_eq_Some_iff) (auto simp: comp_def image_iff)

lemma lh_map_None:
  "lh_map key lh k = None \<longleftrightarrow> (\<forall>it\<in>set (lh_items lh). key (it_data it) \<noteq> k)"
  unfolding lh_map_def by (force simp: map_of_eq_None_iff)

lemma map_eqI: "(\<And>k d. m k = Some d \<longleftrightarrow> m' k = Some d) \<Longrightarrow> m = m'"
  by (rule ext) (metis option.exhaust)

text \<open>Changing one chain.\<close>

lemma mset_concat_update:
  "b < length xs \<Longrightarrow> mset (concat (xs[b := ys])) + mset (xs ! b) = mset (concat xs) + mset ys"
proof (induction xs arbitrary: b)
  case (Cons x xs)
  then show ?case by (cases b) (auto simp: ac_simps)
qed simp

lemma mset_map_distinct: "image_mset f (mset xs) = image_mset f (mset ys) \<Longrightarrow> distinct (map f xs) = distinct (map f ys)"
  by (rule mset_eq_imp_distinct_iff) (simp add: mset_map)

lemma lh_placed_update:
  assumes "lh_placed n bs" "b < n" "\<And>it. it \<in> set ys \<Longrightarrow> unat (it_hash it) mod n = b"
  shows "lh_placed n (bs[b := ys])"
  using assms by (auto simp: lh_placed_def nth_list_update)

text \<open>The invariant only needs the items as a multiset.\<close>

lemma lh_wf_mset:
  assumes "lh_wf key lh" "lh_comp lh' = lh_comp lh" "lh_hash lh' = lh_hash lh" "num_items lh' = num_items lh"
    "kMinNumBuckets \<le> num_buckets lh'" "lh_placed (num_buckets lh') (buckets lh')"
    "mset (lh_items lh') = mset (lh_items lh)"
  shows "lh_wf key lh'"
proof -
  have "length (lh_items lh') = length (lh_items lh)" "set (lh_items lh') = set (lh_items lh)"
    using assms(7) mset_eq_length mset_eq_setD by blast+
  moreover have "distinct (map f (lh_items lh')) = distinct (map f (lh_items lh))" for f :: "'a lhash_item \<Rightarrow> 'z"
    by (rule mset_map_distinct) (simp add: assms(7))
  moreover have "distinct (map it_addr (lh_items lh')) = distinct (map it_addr (lh_items lh))"
    by (rule mset_map_distinct) (simp add: assms(7))
  moreover have "distinct (map (key \<circ> it_data) (lh_items lh')) = distinct (map (key \<circ> it_data) (lh_items lh))"
    by (rule mset_map_distinct) (simp add: assms(7))
  moreover have "key_ok key lh' = key_ok key lh" by (rule key_ok_cong [OF assms(2,3)])
  ultimately show ?thesis using assms by (simp add: lh_wf_def)
qed

lemma lh_map_mset:
  assumes "lh_wf key lh" "lh_wf key lh'" "mset (lh_items lh') = mset (lh_items lh)"
  shows "lh_map key lh' = lh_map key lh"
  using mset_eq_setD [OF assms(3)] by (intro map_eqI) (simp add: lh_map_iff assms)

section \<open>Resizing\<close>

lemma fold_fold: "fold (fold f) xss s = fold f (concat xss) s"
  by (induction xss arbitrary: s) simp_all

lemma lh_move_fold:
  assumes "0 < n" "lh_placed n nb"
  shows "lh_placed n (fold (lh_move n) its nb) \<and> mset (concat (fold (lh_move n) its nb)) = mset (concat nb) + mset its"
  using assms(2)
proof (induction its arbitrary: nb)
  case (Cons it its)
  let ?b = "unat (it_hash it) mod n"
  have b: "?b < n" "?b < length nb" using assms(1) Cons.prems by (simp_all add: lh_placed_def)
  have move: "lh_move n it nb = nb[?b := it # nb ! ?b]" by (simp add: lh_move_def Let_def)
  have p: "lh_placed n (lh_move n it nb)"
    unfolding move by (rule lh_placed_update [OF Cons.prems b(1)]) (use Cons.prems b in \<open>auto simp: lh_placed_def\<close>)
  have "mset (concat (lh_move n it nb)) = add_mset it (mset (concat nb))"
    unfolding move using mset_concat_update [OF b(2), of "it # nb ! ?b"] by simp
  with Cons.IH [OF p] show ?case by simp
qed simp

definition same_items :: "'a lhash \<Rightarrow> 'a lhash \<Rightarrow> bool" where
  "same_items lh lh' \<longleftrightarrow> mset (lh_items lh') = mset (lh_items lh) \<and> lh_comp lh' = lh_comp lh \<and> lh_hash lh' = lh_hash lh
     \<and> num_items lh' = num_items lh \<and> callback_depth lh' = callback_depth lh"

lemma same_items_refl [simp]: "same_items lh lh"
  by (simp add: same_items_def)

lemma lh_rebucket_wf:
  assumes wf: "lh_wf key lh" and n: "kMinNumBuckets \<le> n"
  shows "lh_wf key (lh_rebucket heap lh n) \<and> same_items lh (lh_rebucket heap lh n)"
proof (cases "8 * n mod 2 ^ 64 div 8 \<noteq> n \<or> OPENSSL_zalloc heap (8 * n mod 2 ^ 64) = None")
  case True
  then have "lh_rebucket heap lh n = lh" unfolding lh_rebucket_def Let_def by presburger
  with wf show ?thesis by simp
next
  case False
  define nb where "nb = fold (lh_move n) (concat (buckets lh)) (replicate n [])"
  have take: "take (num_buckets lh) (buckets lh) = buckets lh" using wf by (simp add: lh_wf_def lh_placed_def)
  have n0: "0 < n" using n by (simp add: kMinNumBuckets_def)
  have "lh_placed n (replicate n [])" by (simp add: lh_placed_def)
  from lh_move_fold [OF n0 this, of "concat (buckets lh)"]
  have nb: "lh_placed n nb" "mset (concat nb) = mset (lh_items lh)"
    by (simp_all add: nb_def lh_items_def concat_replicate_trivial)
  have r: "lh_rebucket heap lh n = lh\<lparr>num_buckets := n, buckets := nb\<rparr>"
    using False unfolding lh_rebucket_def Let_def take fold_fold nb_def [symmetric] by presburger
  have s: "same_items lh (lh_rebucket heap lh n)" using nb(2) by (simp add: r same_items_def lh_items_def)
  moreover have "lh_wf key (lh_rebucket heap lh n)"
    by (rule lh_wf_mset [OF wf]) (use s n nb in \<open>simp_all add: same_items_def r\<close>)
  ultimately show ?thesis by simp
qed

lemma lh_maybe_resize_wf:
  assumes wf: "lh_wf key lh"
  shows "lh_wf key (lh_maybe_resize heap lh) \<and> same_items lh (lh_maybe_resize heap lh)"
proof -
  have n: "kMinNumBuckets \<le> num_buckets lh" using wf by (simp add: lh_wf_def)
  then show ?thesis
    unfolding lh_maybe_resize_def Let_def using wf by (auto intro!: lh_rebucket_wf [THEN conjunct1] lh_rebucket_wf [THEN conjunct2])
qed

lemma lh_maybe_resize_map:
  "lh_wf key lh \<Longrightarrow> lh_map key (lh_maybe_resize heap lh) = lh_map key lh"
  using lh_maybe_resize_wf [of key lh heap] by (intro lh_map_mset) (auto simp: same_items_def)

lemma addrs_resize: "lh_wf key lh \<Longrightarrow> it_addr ` set (lh_items (lh_maybe_resize heap lh)) = it_addr ` set (lh_items lh)"
  using lh_maybe_resize_wf [of key lh heap] by (auto simp: same_items_def dest!: mset_eq_setD)

section \<open>Lookup\<close>

lemma chain_walk_le: "chain_walk eq c \<le> length c"
  by (induction c) simp_all

lemma chain_walk_less: "chain_walk eq c < length c \<longleftrightarrow> (\<exists>x\<in>set c. eq x)"
  by (induction c) auto

lemma chain_walk_eq: "chain_walk eq c < length c \<Longrightarrow> eq (c ! chain_walk eq c)"
  by (induction c) (auto split: if_splits)

lemma lh_items_bucket:
  assumes "lh_placed n (buckets lh)" "it \<in> set (lh_items lh)"
  shows "it \<in> set (buckets lh ! (unat (it_hash it) mod n))"
proof -
  from assms(2) obtain i where "i < length (buckets lh)" "it \<in> set (buckets lh ! i)"
    unfolding lh_items_def set_concat by (metis UN_E in_set_conv_nth)
  with assms(1) show ?thesis by (simp add: lh_placed_def)
qed

text \<open>The walk ends at the item with the key, if there is one, and otherwise at the end of its chain.\<close>

lemma lh_find:
  assumes wf: "lh_wf key lh" and g: "get_next_ptr_and_hash lh data = (h, b, k)"
  shows "h = lh_hash lh data" "b < num_buckets lh" "unat h mod num_buckets lh = b"
    "lh_at lh (b, k) = Some it \<Longrightarrow>
       k < length (buckets lh ! b) \<and> buckets lh ! b ! k = it \<and> it \<in> set (lh_items lh) \<and> key (it_data it) = key data"
    "lh_at lh (b, k) = None \<Longrightarrow> \<forall>it\<in>set (lh_items lh). key (it_data it) \<noteq> key data"
proof -
  let ?n = "num_buckets lh"
  from wf have ok: "key_ok key lh" and n: "0 < ?n" and pl: "lh_placed ?n (buckets lh)"
    and hs: "\<And>it. it \<in> set (lh_items lh) \<Longrightarrow> it_hash it = lh_hash lh (it_data it)"
    by (auto simp: lh_wf_def kMinNumBuckets_def)
  from g show h: "h = lh_hash lh data" and b: "unat h mod ?n = b"
    by (auto simp: get_next_ptr_and_hash_def Let_def)
  with n show bn: "b < ?n" by auto
  have k: "k = chain_walk (\<lambda>cur. key (it_data cur) = key data) (buckets lh ! b)"
    using g by (auto simp: get_next_ptr_and_hash_def Let_def key_okD(1) [OF ok])
  show "k < length (buckets lh ! b) \<and> buckets lh ! b ! k = it \<and> it \<in> set (lh_items lh) \<and> key (it_data it) = key data"
    if "lh_at lh (b, k) = Some it"
  proof -
    from that have kl: "k < length (buckets lh ! b)" "buckets lh ! b ! k = it" by (auto simp: lh_at_def split: if_splits)
    moreover have "it \<in> set (lh_items lh)"
      using kl bn pl nth_mem [of b "buckets lh"] nth_mem [OF kl(1)] unfolding lh_items_def set_concat lh_placed_def by auto
    moreover have "key (it_data it) = key data" using chain_walk_eq [OF kl(1) [unfolded k]] kl(2) k by simp
    ultimately show ?thesis by simp
  qed
  show "\<forall>it\<in>set (lh_items lh). key (it_data it) \<noteq> key data" if "lh_at lh (b, k) = None"
  proof
    fix it assume it: "it \<in> set (lh_items lh)"
    from that have "\<not> k < length (buckets lh ! b)" by (auto simp: lh_at_def split: if_splits)
    then have none: "\<forall>x\<in>set (buckets lh ! b). key (it_data x) \<noteq> key data" unfolding k chain_walk_less by blast
    show "key (it_data it) \<noteq> key data"
    proof
      assume "key (it_data it) = key data"
      moreover from this ok have "lh_hash lh (it_data it) = lh_hash lh data" by (blast dest: key_okD(2))
      ultimately show False
        using none it hs [OF it] h b lh_items_bucket [OF pl it] by simp
    qed
  qed
qed

lemma lh_retrieve_map:
  assumes wf: "lh_wf key lh"
  shows "OPENSSL_lh_retrieve lh data = lh_map key lh (key data)"
proof -
  obtain h b k where g: "get_next_ptr_and_hash lh data = (h, b, k)" by (metis prod_cases3)
  note f = lh_find [OF wf g]
  show ?thesis
  proof (cases "lh_at lh (b, k)")
    case None
    then have "lh_map key lh (key data) = None" unfolding lh_map_None by (rule f(5))
    with None show ?thesis by (simp add: OPENSSL_lh_retrieve_def g)
  next
    case (Some it)
    with f(4) have "lh_map key lh (key data) = Some (it_data it)" by (auto simp: lh_map_iff [OF wf])
    with Some show ?thesis by (simp add: OPENSSL_lh_retrieve_def g)
  qed
qed

text \<open>Lookup by a key of another type.\<close>

lemma lh_retrieve_key_map:
  assumes wf: "lh_wf key lh" and c: "\<And>d. cmp_key x d = 0 \<longleftrightarrow> key d = k"
    and h: "\<And>d. key d = k \<Longrightarrow> key_hash = lh_hash lh d"
  shows "OPENSSL_lh_retrieve_key lh x key_hash cmp_key = lh_map key lh k"
proof (cases "\<exists>d. key d = k")
  case True
  then obtain d where d: "key d = k" by blast
  have ko: "key_ok key lh" using wf by (simp add: lh_wf_def)
  have "OPENSSL_lh_retrieve_key lh x key_hash cmp_key = OPENSSL_lh_retrieve lh d"
    by (simp add: OPENSSL_lh_retrieve_key_def OPENSSL_lh_retrieve_def get_next_ptr_by_key_def
        get_next_ptr_and_hash_def Let_def c h [OF d] key_okD(1) [OF ko] d)
  then show ?thesis using lh_retrieve_map [OF wf, of d] d by simp
next
  case False
  then have n: "lh_map key lh k = None" by (auto simp: lh_map_None)
  have "\<not> chain_walk (\<lambda>cur. cmp_key x (it_data cur) = 0) ch < length ch" for ch
    unfolding chain_walk_less c using False by blast
  then show ?thesis by (simp add: OPENSSL_lh_retrieve_key_def get_next_ptr_by_key_def lh_at_def Let_def n)
qed

section \<open>Insertion and deletion\<close>

abbreviation key_values :: "('a \<Rightarrow> 'k) \<Rightarrow> 'a lhash_item list \<Rightarrow> ('k \<times> 'a) list" where
  "key_values key \<equiv> map (\<lambda>it. (key (it_data it), it_data it))"

text \<open>The invariant and the map of a table with the items \<open>xs\<close> in any order.\<close>

definition items_ok :: "('a \<Rightarrow> 'k) \<Rightarrow> 'a lhash \<Rightarrow> 'a lhash_item list \<Rightarrow> bool" where
  "items_ok key lh xs \<longleftrightarrow> (\<forall>it\<in>set xs. it_hash it = lh_hash lh (it_data it))
     \<and> distinct (map (key \<circ> it_data) xs) \<and> distinct (map it_addr xs)"

lemma items_ok_mset: "mset xs = mset ys \<Longrightarrow> items_ok key lh xs = items_ok key lh ys"
  using mset_map_distinct [of "key \<circ> it_data" xs ys] mset_map_distinct [of it_addr xs ys] mset_eq_setD [of xs ys]
  by (simp add: items_ok_def)

lemma lh_wf_items:
  assumes "mset (lh_items lh) = mset xs"
  shows "lh_wf key lh \<longleftrightarrow> key_ok key lh \<and> kMinNumBuckets \<le> num_buckets lh
     \<and> lh_placed (num_buckets lh) (buckets lh) \<and> num_items lh = length xs \<and> items_ok key lh xs"
  using items_ok_mset [OF assms, of key lh] mset_eq_length [OF assms] by (auto simp: lh_wf_def items_ok_def)

lemma lh_map_items:
  assumes "lh_wf key lh" "mset (lh_items lh) = mset xs"
  shows "lh_map key lh = map_of (key_values key xs)"
  unfolding lh_map_def
proof (rule map_of_eqI)
  show "set (map fst (key_values key (lh_items lh))) = set (map fst (key_values key xs))"
    using mset_eq_setD [OF assms(2)] by simp
  have "items_ok key lh xs" using assms by (simp add: lh_wf_items)
  then have d: "distinct (map fst (key_values key (lh_items lh)))" "distinct (map fst (key_values key xs))"
    using assms(1) by (simp_all add: lh_wf_def items_ok_def comp_def)
  have "set (key_values key (lh_items lh)) = set (key_values key xs)" using mset_eq_setD [OF assms(2)] by simp
  then have "map_of (key_values key (lh_items lh)) k = Some d \<longleftrightarrow> map_of (key_values key xs) k = Some d" for k d
    unfolding map_of_eq_Some_iff [OF d(1)] map_of_eq_Some_iff [OF d(2)] by simp
  then have "map_of (key_values key (lh_items lh)) = map_of (key_values key xs)" by (rule map_eqI)
  then show "\<forall>k\<in>set (map fst (key_values key (lh_items lh))).
      map_of (key_values key (lh_items lh)) k = map_of (key_values key xs) k" by simp
qed

lemma key_values_None: "k \<notin> (key \<circ> it_data) ` set xs \<Longrightarrow> map_of (key_values key xs) k = None"
  by (force simp: map_of_eq_None_iff)

lemma list_split_nth: "k < length xs \<Longrightarrow> mset xs = mset (xs ! k # take k xs @ drop (k + 1) xs)"
  using id_take_nth_drop [of k xs] by (metis Suc_eq_plus1 mset.simps(2) mset_append union_mset_add_mset_right)

lemma lh_insert_map:
  assumes wf: "lh_wf key lh" and fresh: "addr \<notin> it_addr ` set (lh_items lh)"
    and i: "OPENSSL_lh_insert heap addr lh data = (ok, old, lh')"
  shows "lh_wf key lh'" "old = lh_map key lh (key data)"
    "ok \<Longrightarrow> lh_map key lh' = (lh_map key lh)(key data \<mapsto> data)"
    "\<not> ok \<Longrightarrow> lh' = lh \<and> \<not> OPENSSL_malloc heap 24 \<and> lh_map key lh (key data) = None"
    "it_addr ` set (lh_items lh') \<subseteq> insert addr (it_addr ` set (lh_items lh))"
proof -
  obtain h b k where g: "get_next_ptr_and_hash lh data = (h, b, k)" by (metis prod_cases3)
  note f = lh_find [OF wf g]
  from wf have pl: "lh_placed (num_buckets lh) (buckets lh)" and bl: "b < length (buckets lh)" and ko: "key_ok key lh"
    and n: "kMinNumBuckets \<le> num_buckets lh"
    using f(2) by (simp_all add: lh_wf_def lh_placed_def)
  have "lh_wf key lh' \<and> old = lh_map key lh (key data) \<and> (ok \<longrightarrow> lh_map key lh' = (lh_map key lh)(key data \<mapsto> data))
      \<and> (\<not> ok \<longrightarrow> lh' = lh \<and> \<not> OPENSSL_malloc heap 24 \<and> lh_map key lh (key data) = None)
      \<and> it_addr ` set (lh_items lh') \<subseteq> insert addr (it_addr ` set (lh_items lh))"
  proof (cases "lh_at lh (b, k)")
    case (Some it)
    note it = f(4) [OF Some]
    let ?c = "buckets lh ! b" and ?new = "it\<lparr>it_data := data\<rparr>"
    have r: "ok" "old = Some (it_data it)" "lh' = lh\<lparr>buckets := (buckets lh)[b := ?c[k := ?new]]\<rparr>"
      using i Some by (simp_all add: OPENSSL_lh_insert_def g)
    define C where "C = take k ?c @ drop (k + 1) ?c"
    have c: "mset ?c = mset (it # C)" "mset (?c[k := ?new]) = mset (?new # C)"
      using list_split_nth [of k ?c] list_split_nth [of k "?c[k := ?new]"] it by (simp_all add: C_def)
    have "it \<in># mset (lh_items lh)" using it by simp
    then obtain R where R: "mset (lh_items lh) = mset (it # R)" by (metis ex_mset insert_DiffM mset.simps(2))
    have R': "mset (lh_items lh') = mset (?new # R)"
      using mset_concat_update [OF bl, of "?c[k := ?new]"] R unfolding c lh_items_def r(3) by simp
    have okR: "items_ok key lh (it # R)" and len: "num_items lh = Suc (length R)"
      using wf unfolding lh_wf_items [OF R] by simp_all
    have hk: "it_hash it = lh_hash lh data"
      using okR it key_okD(2) [OF ko, of "it_data it" data] by (simp add: items_ok_def)
    have "lh_placed (num_buckets lh) ((buckets lh)[b := ?c[k := ?new]])"
      using f(1,2,3) it hk pl by (intro lh_placed_update)
        (auto simp: lh_placed_def dest!: subsetD [OF set_update_subset_insert])
    then have wf': "lh_wf key lh'"
      unfolding lh_wf_items [OF R'] using okR len ko n it hk by (simp add: r(3) items_ok_def)
    have "map_of (key_values key R) (key data) = None"
      using okR it by (intro key_values_None) (auto simp: items_ok_def)
    then show ?thesis
      using r(1,2) wf' it mset_eq_setD [OF R] mset_eq_setD [OF R']
      by (auto simp: lh_map_items [OF wf R] lh_map_items [OF wf' R'])
  next
    case None
    note it = f(5) [OF None]
    have none: "lh_map key lh (key data) = None" unfolding lh_map_None by (rule it)
    show ?thesis
    proof (cases "OPENSSL_malloc heap 24")
      case False
      with i None have "\<not> ok" "old = None" "lh' = lh" by (simp_all add: OPENSSL_lh_insert_def g)
      with False wf none show ?thesis by auto
    next
      case True
      let ?item = "\<lparr>it_data = data, it_addr = addr, it_hash = h\<rparr>"
      define lh1 where "lh1 = lh\<lparr>buckets := (buckets lh)[b := buckets lh ! b @ [?item]], num_items := num_items lh + 1\<rparr>"
      have r: "ok" "old = None" "lh' = lh_maybe_resize heap lh1"
        using i None True by (simp_all add: OPENSSL_lh_insert_def g lh1_def Let_def)
      have R': "mset (lh_items lh1) = mset (?item # lh_items lh)"
        using mset_concat_update [OF bl, of "buckets lh ! b @ [?item]"] by (simp add: lh1_def lh_items_def)
      have "lh_placed (num_buckets lh) ((buckets lh)[b := buckets lh ! b @ [?item]])"
        using f(2,3) pl by (intro lh_placed_update) (auto simp: lh_placed_def)
      then have wf1: "lh_wf key lh1"
        unfolding lh_wf_items [OF R'] using wf it fresh f(1) ko n
        by (auto simp: lh1_def items_ok_def lh_wf_def image_iff)
      have "lh_map key lh1 = (lh_map key lh)(key data \<mapsto> data)"
        using lh_map_items [OF wf1 R'] by (simp add: lh_map_def)
      with r none show ?thesis
        using lh_maybe_resize_wf [OF wf1, of heap] lh_maybe_resize_map [OF wf1, of heap]
          addrs_resize [OF wf1, of heap] mset_eq_setD [OF R'] by simp
    qed
  qed
  then show "lh_wf key lh'" "old = lh_map key lh (key data)"
    "ok \<Longrightarrow> lh_map key lh' = (lh_map key lh)(key data \<mapsto> data)"
    "\<not> ok \<Longrightarrow> lh' = lh \<and> \<not> OPENSSL_malloc heap 24 \<and> lh_map key lh (key data) = None"
    "it_addr ` set (lh_items lh') \<subseteq> insert addr (it_addr ` set (lh_items lh))" by simp_all
qed

lemma lh_delete_map:
  assumes wf: "lh_wf key lh" and i: "OPENSSL_lh_delete heap lh data = (old, lh')"
  shows "lh_wf key lh'" "old = lh_map key lh (key data)" "lh_map key lh' = (lh_map key lh)(key data := None)" "it_addr ` set (lh_items lh') \<subseteq> it_addr ` set (lh_items lh)"
proof -
  obtain h b k where g: "get_next_ptr_and_hash lh data = (h, b, k)" by (metis prod_cases3)
  note f = lh_find [OF wf g]
  from wf have pl: "lh_placed (num_buckets lh) (buckets lh)" and bl: "b < length (buckets lh)" and ko: "key_ok key lh"
    and n: "kMinNumBuckets \<le> num_buckets lh"
    using f(2) by (simp_all add: lh_wf_def lh_placed_def)
  have "lh_wf key lh' \<and> old = lh_map key lh (key data) \<and> lh_map key lh' = (lh_map key lh)(key data := None)
      \<and> it_addr ` set (lh_items lh') \<subseteq> it_addr ` set (lh_items lh)"
  proof (cases "lh_at lh (b, k)")
    case None
    with i have "old = None" "lh' = lh" by (simp_all add: OPENSSL_lh_delete_def g)
    moreover have "lh_map key lh (key data) = None" unfolding lh_map_None by (rule f(5) [OF None])
    ultimately show ?thesis using wf by (simp add: fun_upd_idem)
  next
    case (Some it)
    note it = f(4) [OF Some]
    let ?c = "buckets lh ! b"
    define C where "C = take k ?c @ drop (k + 1) ?c"
    define lh1 where "lh1 = lh\<lparr>buckets := (buckets lh)[b := C], num_items := num_items lh - 1\<rparr>"
    have r: "old = Some (it_data it)" "lh' = lh_maybe_resize heap lh1"
      using i Some by (simp_all add: OPENSSL_lh_delete_def g lh1_def C_def)
    have fields: "lh_comp lh1 = lh_comp lh" "lh_hash lh1 = lh_hash lh" "num_buckets lh1 = num_buckets lh"
      "buckets lh1 = (buckets lh)[b := C]" "num_items lh1 = num_items lh - 1" by (simp_all add: lh1_def)
    have c: "mset ?c = mset (it # C)" using list_split_nth [of k ?c] it by (simp add: C_def)
    have R: "mset (lh_items lh) = mset (it # lh_items lh1)"
      using mset_concat_update [OF bl, of C] unfolding c lh_items_def lh1_def by simp
    have okR: "items_ok key lh (it # lh_items lh1)" and len: "num_items lh = Suc (length (lh_items lh1))"
      using wf unfolding lh_wf_items [OF R] by simp_all
    have "lh_placed (num_buckets lh) ((buckets lh)[b := C])"
      using f(2) pl by (intro lh_placed_update) (auto simp: lh_placed_def C_def dest: in_set_takeD in_set_dropD)
    then have wf1: "lh_wf key lh1"
      unfolding lh_wf_items [OF refl] using okR len ko n
      by (simp only: fields key_ok_cong [OF fields(1,2)] items_ok_def) (simp add: items_ok_def)
    have "map_of (key_values key (lh_items lh1)) (key data) = None"
      using okR it by (intro key_values_None) (auto simp: items_ok_def)
    then have "lh_map key lh1 = (lh_map key lh)(key data := None)" "lh_map key lh (key data) = Some (it_data it)"
      using it by (simp_all add: lh_map_items [OF wf R] lh_map_items [OF wf1 refl] fun_upd_idem)
    with r show ?thesis
      using lh_maybe_resize_wf [OF wf1, of heap] lh_maybe_resize_map [OF wf1, of heap]
        addrs_resize [OF wf1, of heap] mset_eq_setD [OF R] by auto
  qed
  then show "lh_wf key lh'" "old = lh_map key lh (key data)" "lh_map key lh' = (lh_map key lh)(key data := None)" "it_addr ` set (lh_items lh') \<subseteq> it_addr ` set (lh_items lh)"
    by simp_all
qed

end
