(* ===== verification/Lhash_Props.thy ===== *)
theory Lhash_Props
  imports Lhash_Map "HOL-Library.Code_Target_Nat"
begin

text \<open>
  What users of the hash table rely on.  The locale \<open>keyed_store\<close> is the contract of a store of data under
  keys; a history of calls on such a store gives the answers a finite map would give.  It is interpreted
  on the table of \<^verbatim>\<open>lhash.c\<close>.  The last part is about iterating over a table while deleting from it.
\<close>

section \<open>The contract of a keyed store\<close>

datatype 'v store_call = Put 'v | Del 'v

text \<open>
  A call answers \<open>None\<close> if it fails for lack of memory, and otherwise with what was stored under the key.
\<close>

locale keyed_store =
  fixes inv :: "'t \<Rightarrow> bool" and view :: "'t \<Rightarrow> 'k \<rightharpoonup> 'v" and key :: "'v \<Rightarrow> 'k"
    and store_put :: "'v \<Rightarrow> 't \<Rightarrow> 'v option option \<times> 't"
    and store_del :: "'v \<Rightarrow> 't \<Rightarrow> 'v option option \<times> 't"
  assumes put_inv: "inv t \<Longrightarrow> inv (snd (store_put d t))"
    and put_ok: "inv t \<Longrightarrow> store_put d t = (Some old, t') \<Longrightarrow> old = view t (key d) \<and> view t' = (view t)(key d \<mapsto> d)"
    and put_fail: "inv t \<Longrightarrow> store_put d t = (None, t') \<Longrightarrow> view t' = view t \<and> view t (key d) = None"
    and del_inv: "inv t \<Longrightarrow> inv (snd (store_del d t))"
    and del_ok: "inv t \<Longrightarrow> store_del d t = (r, t') \<Longrightarrow> r = Some (view t (key d)) \<and> view t' = (view t)(key d := None)"

fun store_run :: "('v \<Rightarrow> 't \<Rightarrow> 'v option option \<times> 't) \<Rightarrow> ('v \<Rightarrow> 't \<Rightarrow> 'v option option \<times> 't)
    \<Rightarrow> 'v store_call list \<Rightarrow> 't \<Rightarrow> 'v option option list \<times> 't" where
  "store_run put del [] t = ([], t)"
| "store_run put del (c # cs) t
     = (let (r, t) = (case c of Put d \<Rightarrow> put d t | Del d \<Rightarrow> del d t); (rs, t) = store_run put del cs t in (r # rs, t))"

text \<open>The same calls on a map, for given failures: the map after them if the answers are the right ones.\<close>

fun map_run :: "('v \<Rightarrow> 'k) \<Rightarrow> 'v store_call list \<Rightarrow> 'v option option list \<Rightarrow> ('k \<rightharpoonup> 'v) \<Rightarrow> ('k \<rightharpoonup> 'v) option" where
  "map_run key [] [] m = Some m"
| "map_run key (Put d # cs) (r # rs) m
     = (case r of
          None \<Rightarrow> if m (key d) = None then map_run key cs rs m else None
        | Some old \<Rightarrow> if old = m (key d) then map_run key cs rs (m(key d \<mapsto> d)) else None)"
| "map_run key (Del d # cs) (r # rs) m
     = (if r = Some (m (key d)) then map_run key cs rs (m(key d := None)) else None)"
| "map_run key _ _ m = None"

context keyed_store
begin

lemma run_refines:
  assumes "inv t" "store_run store_put store_del cs t = (rs, t')"
  shows "inv t' \<and> map_run key cs rs (view t) = Some (view t')"
  using assms
proof (induction cs arbitrary: t rs)
  case (Cons c cs)
  obtain r t1 where s: "(case c of Put d \<Rightarrow> store_put d t | Del d \<Rightarrow> store_del d t) = (r, t1)" by (metis prod.exhaust)
  obtain rs1 where r: "store_run store_put store_del cs t1 = (rs1, t')" "rs = r # rs1"
    using Cons.prems(2) s by (auto split: prod.splits)
  have i: "inv t1" using s put_inv [OF Cons.prems(1)] del_inv [OF Cons.prems(1)]
    by (cases c) (metis snd_conv store_call.simps)+
  note IH = Cons.IH [OF i r(1)]
  show ?case
  proof (cases c)
    case (Put d)
    with s put_ok [OF Cons.prems(1), of d _ t1] put_fail [OF Cons.prems(1), of d t1] IH r(2)
    show ?thesis by (cases r) (auto simp del: fun_upd_apply)
  next
    case (Del d)
    with s del_ok [OF Cons.prems(1), of d r t1] IH r(2) show ?thesis by (auto simp del: fun_upd_apply)
  qed
qed simp

end

section \<open>The hash table keeps the contract\<close>

text \<open>
  A table together with the number of calls so far.  The \<open>n\<close>th call meets the heap \<open>heaps n\<close>, and the
  address of an item is the number of the call that allocated it.
\<close>

definition lh_put :: "(nat \<Rightarrow> heap) \<Rightarrow> 'a \<Rightarrow> 'a lhash \<times> nat \<Rightarrow> 'a option option \<times> 'a lhash \<times> nat" where
  "lh_put heaps d t = (case OPENSSL_lh_insert (heaps (snd t)) (snd t) (fst t) d of
     (ok, old, lh) \<Rightarrow> (if ok then Some old else None, lh, snd t + 1))"

definition lh_del :: "(nat \<Rightarrow> heap) \<Rightarrow> 'a \<Rightarrow> 'a lhash \<times> nat \<Rightarrow> 'a option option \<times> 'a lhash \<times> nat" where
  "lh_del heaps d t = (case OPENSSL_lh_delete (heaps (snd t)) (fst t) d of (old, lh) \<Rightarrow> (Some old, lh, snd t + 1))"

definition lh_inv :: "('a \<Rightarrow> 'k) \<Rightarrow> 'a lhash \<times> nat \<Rightarrow> bool" where
  "lh_inv key t \<longleftrightarrow> lh_wf key (fst t) \<and> (\<forall>it\<in>set (lh_items (fst t)). it_addr it < snd t)"

lemma lh_put_inv:
  assumes "lh_inv key t" "lh_put heaps d t = (r, t')"
  shows "lh_inv key t'" "r = Some old \<Longrightarrow> old = lh_map key (fst t) (key d) \<and> lh_map key (fst t') = (lh_map key (fst t))(key d \<mapsto> d)"
    "r = None \<Longrightarrow> t' = (fst t, snd t + 1) \<and> lh_map key (fst t) (key d) = None"
proof -
  from assms(1) have wf: "lh_wf key (fst t)" and fresh: "snd t \<notin> it_addr ` set (lh_items (fst t))"
    by (auto simp: lh_inv_def)
  obtain ok old' lh where i: "OPENSSL_lh_insert (heaps (snd t)) (snd t) (fst t) d = (ok, old', lh)" by (metis prod_cases3)
  note m = lh_insert_map [OF wf fresh i]
  have e: "r = (if ok then Some old' else None)" "t' = (lh, snd t + 1)" using assms(2) by (simp_all add: lh_put_def i)
  show "lh_inv key t'" using m(1,5) assms(1) by (fastforce simp: lh_inv_def e)
  show "r = Some old \<Longrightarrow> old = lh_map key (fst t) (key d) \<and> lh_map key (fst t') = (lh_map key (fst t))(key d \<mapsto> d)"
    using m(2,3) by (simp add: e split: if_splits)
  show "r = None \<Longrightarrow> t' = (fst t, snd t + 1) \<and> lh_map key (fst t) (key d) = None"
    using m(4) by (simp add: e split: if_splits)
qed

lemma lh_del_inv:
  assumes "lh_inv key t" "lh_del heaps d t = (r, t')"
  shows "lh_inv key t'" "r = Some (lh_map key (fst t) (key d)) \<and> lh_map key (fst t') = (lh_map key (fst t))(key d := None)"
proof -
  from assms(1) have wf: "lh_wf key (fst t)" by (simp add: lh_inv_def)
  obtain old lh where i: "OPENSSL_lh_delete (heaps (snd t)) (fst t) d = (old, lh)" by (metis prod.exhaust)
  note m = lh_delete_map [OF wf i]
  have e: "r = Some old" "t' = (lh, snd t + 1)" using assms(2) by (simp_all add: lh_del_def i)
  show "lh_inv key t'" using m(1,4) assms(1) by (fastforce simp: lh_inv_def e)
  show "r = Some (lh_map key (fst t) (key d)) \<and> lh_map key (fst t') = (lh_map key (fst t))(key d := None)"
    using m(2,3) by (simp add: e)
qed

interpretation hash_table: keyed_store "lh_inv key" "\<lambda>t. lh_map key (fst t)" key "lh_put heaps" "lh_del heaps" for key heaps
proof
  fix t :: "'a lhash \<times> nat" and t' d old r
  assume i: "lh_inv key t"
  show "lh_inv key (snd (lh_put heaps d t))" "lh_inv key (snd (lh_del heaps d t))"
    using lh_put_inv(1) [OF i] lh_del_inv(1) [OF i] by (metis prod.collapse)+
  show "old = lh_map key (fst t) (key d) \<and> lh_map key (fst t') = (lh_map key (fst t))(key d \<mapsto> d)"
    if "lh_put heaps d t = (Some old, t')" using lh_put_inv(2) [OF i that] by simp
  show "lh_map key (fst t') = lh_map key (fst t) \<and> lh_map key (fst t) (key d) = None"
    if "lh_put heaps d t = (None, t')" using lh_put_inv(3) [OF i that] by simp
  show "r = Some (lh_map key (fst t) (key d)) \<and> lh_map key (fst t') = (lh_map key (fst t))(key d := None)"
    if "lh_del heaps d t = (r, t')" using lh_del_inv(2) [OF i that] by simp
qed

lemma lh_new_inv:
  assumes "OPENSSL_lh_new heap hash cmp = Some lh" "\<And>a b. cmp a b = 0 \<longleftrightarrow> key a = key b"
    "\<And>a b. key a = key b \<Longrightarrow> hash a = hash b"
  shows "lh_inv key (lh, n)" "lh_map key lh = Map.empty"
proof -
  from assms(1) have lh: "lh = \<lparr>num_items = 0, buckets = replicate kMinNumBuckets [], num_buckets = kMinNumBuckets,
      callback_depth = 0, lh_comp = cmp, lh_hash = hash\<rparr>"
    by (auto simp: OPENSSL_lh_new_def split: if_splits)
  have items: "lh_items lh = []" by (simp add: lh_items_def lh concat_replicate_trivial)
  have "lh_comp lh = cmp" "lh_hash lh = hash" by (simp_all add: lh)
  then have "key_ok key lh" unfolding key_ok_def using assms(2,3) by blast
  moreover have "lh_placed kMinNumBuckets (replicate kMinNumBuckets [])" by (simp add: lh_placed_def)
  ultimately show "lh_inv key (lh, n)" by (simp add: lh_inv_def lh_wf_def items) (simp add: lh)
  show "lh_map key lh = Map.empty" by (simp add: lh_map_def items)
qed

lemma lh_num_items_card:
  assumes "lh_wf key lh"
  shows "num_items lh = card (dom (lh_map key lh))"
proof -
  have "dom (lh_map key lh) = set (map (key \<circ> it_data) (lh_items lh))"
    by (simp add: lh_map_def dom_map_of_conv_image_fst image_image)
  moreover have "card (set (map (key \<circ> it_data) (lh_items lh))) = length (lh_items lh)"
    using assms distinct_card [of "map (key \<circ> it_data) (lh_items lh)"] by (simp only: lh_wf_def length_map)
  ultimately show ?thesis using assms by (simp add: lh_wf_def)
qed

section \<open>Iteration\<close>

text \<open>A callback that deletes the datum it is called with, if \<open>p\<close> holds, and records the call.\<close>

definition sweep :: "heap \<Rightarrow> ('a \<Rightarrow> bool) \<Rightarrow> 'a \<Rightarrow> 'a lhash \<times> 'a list \<Rightarrow> 'a lhash \<times> 'a list" where
  "sweep heap p d st = (if p d then snd (OPENSSL_lh_delete heap (fst st) d) else fst st, snd st @ [d])"

lemma chain_distinct:
  assumes wf: "lh_wf key lh" and i: "i < num_buckets lh"
  shows "distinct (map (key \<circ> it_data) (buckets lh ! i))" "distinct (map it_addr (buckets lh ! i))"
    "it \<in> set (buckets lh ! i) \<Longrightarrow> it_hash it = lh_hash lh (it_data it) \<and> unat (it_hash it) mod num_buckets lh = i"
proof -
  from wf i have b: "buckets lh ! i \<in> set (buckets lh)" and l: "i < length (buckets lh)"
    by (auto simp: lh_wf_def lh_placed_def)
  from split_list [OF b] obtain us vs where "buckets lh = us @ buckets lh ! i # vs" by blast
  then have "lh_items lh = concat us @ buckets lh ! i @ concat vs" unfolding lh_items_def by (metis concat.simps(2) concat_append)
  then obtain x y where xy: "lh_items lh = x @ buckets lh ! i @ y" by blast
  show "distinct (map (key \<circ> it_data) (buckets lh ! i))" "distinct (map it_addr (buckets lh ! i))"
    using wf unfolding lh_wf_def xy by simp_all
  show "it_hash it = lh_hash lh (it_data it) \<and> unat (it_hash it) mod num_buckets lh = i" if "it \<in> set (buckets lh ! i)"
  proof -
    have "it \<in> set (lh_items lh)" unfolding xy using that by simp
    with wf i that show ?thesis unfolding lh_wf_def lh_placed_def by blast
  qed
qed

lemma chain_walk_append:
  "(\<And>x. x \<in> set dn \<Longrightarrow> \<not> eq x) \<Longrightarrow> eq it \<Longrightarrow> chain_walk eq (dn @ it # rest) = length dn"
  by (induction dn) auto

lemma chain_at_append:
  "distinct (map it_addr (dn @ it # rest)) \<Longrightarrow> chain_at (it_addr it) (dn @ it # rest) = Some (it_data it, chain_head rest)"
  by (induction dn) (auto simp: image_iff)

text \<open>While a table is being iterated over, a deletion only unlinks the item.\<close>

lemma lh_delete_exact:
  assumes wf: "lh_wf key lh" and i: "i < num_buckets lh" and c: "buckets lh ! i = dn @ it # rest" and cd: "0 < callback_depth lh"
  shows "OPENSSL_lh_delete heap lh (it_data it)
    = (Some (it_data it), lh\<lparr>buckets := (buckets lh)[i := dn @ rest], num_items := num_items lh - 1\<rparr>)"
proof -
  note d = chain_distinct [OF wf i]
  have ko: "key_ok key lh" using wf by (simp add: lh_wf_def)
  have h: "unat (lh_hash lh (it_data it)) mod num_buckets lh = i" using d(3) [of it] c by (metis in_set_conv_decomp)
  have "chain_walk (\<lambda>cur. key (it_data cur) = key (it_data it)) (dn @ it # rest) = length dn"
    using d(1) unfolding c
    by (intro chain_walk_append) (fastforce simp: image_iff)+
  then have g: "get_next_ptr_and_hash lh (it_data it) = (lh_hash lh (it_data it), i, length dn)"
    by (simp add: get_next_ptr_and_hash_def Let_def h c key_okD(1) [OF ko])
  show ?thesis using cd by (simp add: OPENSSL_lh_delete_def g lh_at_def c lh_maybe_resize_def)
qed

text \<open>Walking a chain: everything in it is visited, and what \<open>p\<close> selects is unlinked.\<close>

lemma doall_chain:
  assumes "lh_wf key lh" "i < num_buckets lh" "buckets lh ! i = dn @ todo" "0 < callback_depth lh"
  shows "\<exists>lh'. lh_doall_chain (sweep heap p) i (chain_head todo) (lh, log) = Some (lh', log @ map it_data todo)
    \<and> lh_wf key lh' \<and> num_buckets lh' = num_buckets lh \<and> callback_depth lh' = callback_depth lh
    \<and> buckets lh' = (buckets lh)[i := dn @ filter (\<lambda>it. \<not> p (it_data it)) todo]"
  using assms
proof (induction todo arbitrary: lh dn log)
  case Nil
  then show ?case by (simp add: chain_head_def lh_doall_chain.simps) (metis list_update_id)
next
  case (Cons it todo)
  note wf = Cons.prems(1) and i = Cons.prems(2) and c = Cons.prems(3) and cd = Cons.prems(4)
  have at: "chain_at (it_addr it) (buckets lh ! i) = Some (it_data it, chain_head todo)"
    unfolding c by (rule chain_at_append) (use chain_distinct(2) [OF wf i] c in simp)
  have il: "i < length (buckets lh)" using wf i by (simp add: lh_wf_def lh_placed_def)
  have hd: "chain_head (it # todo) = Some (it_addr it)" by (simp add: chain_head_def)
  show ?case
  proof (cases "p (it_data it)")
    case True
    define lh1 where "lh1 = lh\<lparr>buckets := (buckets lh)[i := dn @ todo], num_items := num_items lh - 1\<rparr>"
    have del: "OPENSSL_lh_delete heap lh (it_data it) = (Some (it_data it), lh1)"
      unfolding lh1_def by (rule lh_delete_exact [OF wf i c cd])
    have wf1: "lh_wf key lh1" by (rule lh_delete_map(1) [OF wf del])
    have "\<exists>lh'. lh_doall_chain (sweep heap p) i (chain_head todo) (lh1, log @ [it_data it])
        = Some (lh', (log @ [it_data it]) @ map it_data todo)
      \<and> lh_wf key lh' \<and> num_buckets lh' = num_buckets lh1 \<and> callback_depth lh' = callback_depth lh1
      \<and> buckets lh' = (buckets lh1)[i := dn @ filter (\<lambda>it. \<not> p (it_data it)) todo]"
      by (rule Cons.IH [OF wf1]) (use i il cd in \<open>simp_all add: lh1_def\<close>)
    then show ?thesis
      using True by (subst lh_doall_chain.simps) (simp add: hd at sweep_def del, simp add: lh1_def)
  next
    case False
    have "\<exists>lh'. lh_doall_chain (sweep heap p) i (chain_head todo) (lh, log @ [it_data it])
        = Some (lh', (log @ [it_data it]) @ map it_data todo)
      \<and> lh_wf key lh' \<and> num_buckets lh' = num_buckets lh \<and> callback_depth lh' = callback_depth lh
      \<and> buckets lh' = (buckets lh)[i := (dn @ [it]) @ filter (\<lambda>it. \<not> p (it_data it)) todo]"
      by (rule Cons.IH [OF wf i _ cd]) (simp add: c)
    then show ?thesis
      using False by (subst lh_doall_chain.simps) (simp add: hd at sweep_def)
  qed
qed

lemma doall_buckets:
  assumes "lh_wf key lh" "0 < callback_depth lh"
  shows "\<exists>lh'. lh_doall_buckets (sweep heap p) i (lh, log) = Some (lh', log @ map it_data (concat (drop i (buckets lh))))
    \<and> lh_wf key lh' \<and> callback_depth lh' = callback_depth lh
    \<and> buckets lh' = take i (buckets lh) @ map (filter (\<lambda>it. \<not> p (it_data it))) (drop i (buckets lh))"
  using assms
proof (induction "num_buckets lh - i" arbitrary: i lh log)
  case 0
  then have "length (buckets lh) \<le> i" by (simp add: lh_wf_def lh_placed_def)
  with 0 show ?case by (subst lh_doall_buckets.simps) simp
next
  case (Suc n)
  then have i: "i < num_buckets lh" and il: "i < length (buckets lh)" by (simp_all add: lh_wf_def lh_placed_def)
  let ?keep = "filter (\<lambda>it. \<not> p (it_data it))"
  obtain lh1 where c: "lh_doall_chain (sweep heap p) i (chain_head (buckets lh ! i)) (lh, log)
      = Some (lh1, log @ map it_data (buckets lh ! i))"
    and wf1: "lh_wf key lh1" and n1: "num_buckets lh1 = num_buckets lh" and cd1: "callback_depth lh1 = callback_depth lh"
    and b1: "buckets lh1 = (buckets lh)[i := ?keep (buckets lh ! i)]"
    using doall_chain [OF Suc.prems(1) i _ Suc.prems(2), of "[]" "buckets lh ! i" heap p log] by auto
  have d1: "drop (i + 1) (buckets lh1) = drop (i + 1) (buckets lh)"
    and t1: "take (i + 1) (buckets lh1) = take i (buckets lh) @ [?keep (buckets lh ! i)]"
    using il by (simp_all add: b1 take_Suc_conv_app_nth)
  have "n = num_buckets lh1 - (i + 1)" using Suc.hyps(2) n1 by simp
  from Suc.hyps(1) [OF this wf1, of "log @ map it_data (buckets lh ! i)"] Suc.prems(2) cd1
  obtain lh2 where l2: "lh_doall_buckets (sweep heap p) (i + 1) (lh1, log @ map it_data (buckets lh ! i))
      = Some (lh2, (log @ map it_data (buckets lh ! i)) @ map it_data (concat (drop (i + 1) (buckets lh))))"
    and p2: "lh_wf key lh2" "callback_depth lh2 = callback_depth lh1"
      "buckets lh2 = take (i + 1) (buckets lh1) @ map ?keep (drop (i + 1) (buckets lh))"
    unfolding d1 by auto
  have dr: "drop i (buckets lh) = buckets lh ! i # drop (i + 1) (buckets lh)" using il by (simp add: Cons_nth_drop_Suc)
  have "lh_doall_buckets (sweep heap p) i (lh, log) = lh_doall_buckets (sweep heap p) (i + 1) (lh1, log @ map it_data (buckets lh ! i))"
    using i by (subst lh_doall_buckets.simps) (simp add: c)
  then show ?case using l2 p2 cd1 unfolding dr t1 by simp
qed

lemma lh_map_filter:
  assumes "lh_wf key lh" "lh_wf key lh'" "lh_items lh' = filter (\<lambda>it. \<not> p (it_data it)) (lh_items lh)"
  shows "lh_map key lh' = (\<lambda>k. case lh_map key lh k of None \<Rightarrow> None | Some d \<Rightarrow> if p d then None else Some d)"
proof (rule map_eqI)
  fix k d
  have "lh_map key lh' k = Some d \<longleftrightarrow> lh_map key lh k = Some d \<and> \<not> p d"
    unfolding lh_map_iff [OF assms(1)] lh_map_iff [OF assms(2)] assms(3) by auto
  then show "lh_map key lh' k = Some d \<longleftrightarrow>
      (case lh_map key lh k of None \<Rightarrow> None | Some d \<Rightarrow> if p d then None else Some d) = Some d"
    by (auto split: option.splits)
qed

lemma lh_wf_depth [simp]: "lh_wf key (lh\<lparr>callback_depth := d\<rparr>) = lh_wf key lh"
  by (simp add: lh_wf_def lh_items_def)

lemma lh_map_depth [simp]: "lh_map key (lh\<lparr>callback_depth := d\<rparr>) = lh_map key lh"
  by (simp add: lh_map_def lh_items_def)

lemma doall_sweep:
  assumes wf: "lh_wf key lh"
  shows "\<exists>lh'. OPENSSL_lh_doall_arg heap (sweep heap p) (lh, []) = Some (lh', map it_data (lh_items lh))
    \<and> lh_wf key lh' \<and> lh_map key lh' = (\<lambda>k. case lh_map key lh k of None \<Rightarrow> None | Some d \<Rightarrow> if p d then None else Some d)"
proof -
  define lh1 where "lh1 = (if callback_depth lh < 0xffffffff then lh\<lparr>callback_depth := callback_depth lh + 1\<rparr> else lh)"
  have b1: "buckets lh1 = buckets lh" "lh_wf key lh1" using wf by (simp_all add: lh1_def)
  have "0 < callback_depth lh1"
  proof (cases "callback_depth lh < 0xffffffff")
    case True
    have "callback_depth lh + 1 \<noteq> 0"
    proof
      assume "callback_depth lh + 1 = 0"
      then have "callback_depth lh = - 1" by (simp add: eq_neg_iff_add_eq_0)
      with True show False by simp
    qed
    with True show ?thesis by (simp add: lh1_def word_neq_0_conv)
  next
    case False
    then have "callback_depth lh \<noteq> 0" by auto
    with False show ?thesis by (simp add: lh1_def word_neq_0_conv)
  qed
  from doall_buckets [OF b1(2) this, of heap p 0 "[]"] obtain lh2 where
    r: "lh_doall_buckets (sweep heap p) 0 (lh1, []) = Some (lh2, map it_data (lh_items lh))" "lh_wf key lh2"
      "buckets lh2 = map (filter (\<lambda>it. \<not> p (it_data it))) (buckets lh)"
    by (auto simp: lh_items_def b1)
  define lh3 where "lh3 = (if callback_depth lh2 < 0xffffffff then lh2\<lparr>callback_depth := callback_depth lh2 - 1\<rparr> else lh2)"
  have e3: "lh_wf key lh3" "lh_map key lh3 = lh_map key lh2" using r(2) by (simp_all add: lh3_def)
  have "lh_items lh2 = filter (\<lambda>it. \<not> p (it_data it)) (lh_items lh)" by (simp add: lh_items_def r(3) filter_concat)
  note m = lh_map_filter [OF wf r(2) this]
  have "OPENSSL_lh_doall_arg heap (sweep heap p) (lh, []) = Some (lh_maybe_resize heap lh3, map it_data (lh_items lh))"
    by (simp add: OPENSSL_lh_doall_arg_def Let_def lh1_def [symmetric] r(1) lh3_def [symmetric])
  then show ?thesis
    using lh_maybe_resize_wf [OF e3(1), of heap] lh_maybe_resize_map [OF e3(1), of heap] e3(2) m by auto
qed

section \<open>Properties\<close>

lemma lh_run_wf:
  fixes key :: "'a \<Rightarrow> 'k"
  assumes new: "OPENSSL_lh_new heap hash cmp = Some lh0"
    and key: "\<And>a b. cmp a b = 0 \<longleftrightarrow> key a = key b" "\<And>a b. key a = key b \<Longrightarrow> hash a = hash b"
    and run: "store_run (lh_put heaps) (lh_del heaps) cs (lh0, 0) = (rs, lh, n)"
  shows "lh_wf key lh" "map_run key cs rs Map.empty = Some (lh_map key lh)"
proof -
  note i = lh_new_inv(1) [where key = key and n = 0, OF new key] lh_new_inv(2) [where key = key, OF new key]
  have "lh_inv key (lh, n) \<and> map_run key cs rs (lh_map key lh0) = Some (lh_map key lh)"
    using hash_table.run_refines [OF i(1) run] by simp
  then show "lh_wf key lh" "map_run key cs rs Map.empty = Some (lh_map key lh)"
    by (simp_all add: lh_inv_def i(2))
qed

text \<open>
  C23: The hash table is a finite map.  Let \<open>key\<close> tell apart what the comparison function tells apart, and
  let equal keys hash alike.  Whatever calls of insert and delete are made on a new table, growing and
  shrinking it, with allocations failing at any of them: every answer is the one a map from keys to data
  gives (an insertion that fails finds no entry and changes nothing), afterwards every lookup is that of
  the map, and the number of items is the number of its keys.
\<close>
theorem lhash_refines_map:
  assumes "OPENSSL_lh_new heap hash cmp = Some lh0"
    and "\<And>a b. cmp a b = 0 \<longleftrightarrow> key a = key b" "\<And>a b. key a = key b \<Longrightarrow> hash a = hash b"
    and "store_run (lh_put heaps) (lh_del heaps) cs (lh0, 0) = (rs, lh, n)"
  shows "\<exists>m. map_run key cs rs Map.empty = Some m \<and> (\<forall>d. OPENSSL_lh_retrieve lh d = m (key d))
    \<and> OPENSSL_lh_num_items lh = card (dom m)"
  using lh_run_wf [OF assms(1), of key heaps cs rs lh n, OF assms(2-4)]
  by (intro exI [of _ "lh_map key lh"]) (simp add: lh_retrieve_map OPENSSL_lh_num_items_def lh_num_items_card)

lemma lhash_refines_map_witness:
  "\<exists>lh0 lh n m. OPENSSL_lh_new (\<lambda>_. True) (\<lambda>x :: nat. word_of_nat (x mod 8)) (\<lambda>a b. if a = b then 0 else 1) = Some lh0
    \<and> store_run (lh_put (\<lambda>i _. i < 3)) (lh_del (\<lambda>i _. i < 3)) [Put 1, Put 9, Del 1, Put 5] (lh0, 0)
      = ([Some None, Some None, Some (Some 1), None], lh, n)
    \<and> map_run (\<lambda>x. x) [Put 1, Put 9, Del 1, Put 5] [Some None, Some None, Some (Some 1), None] Map.empty = Some m
    \<and> (\<forall>d. OPENSSL_lh_retrieve lh d = m d)"
proof -
  let ?new = "OPENSSL_lh_new (\<lambda>_. True) (\<lambda>x :: nat. word_of_nat (x mod 8)) (\<lambda>a b. if a = b then 0 else 1)"
  let ?run = "store_run (lh_put (\<lambda>i _. i < 3)) (lh_del (\<lambda>i _. i < 3)) [Put 1, Put 9, Del 1, Put 5]"
  have "(case ?new of None \<Rightarrow> False | Some lh0 \<Rightarrow> fst (?run (lh0, 0)) = [Some None, Some None, Some (Some 1), None])"
    by code_simp
  then obtain lh0 where new: "?new = Some lh0" and r: "fst (?run (lh0, 0)) = [Some None, Some None, Some (Some 1), None]"
    by (auto split: option.splits)
  obtain lh n where run: "?run (lh0, 0) = ([Some None, Some None, Some (Some 1), None], lh, n)"
    using r by (metis prod.collapse)
  from lhash_refines_map [OF new _ _ run, of "\<lambda>x. x"] new run show ?thesis by auto
qed

text \<open>
  C24: Iterating over a table always ends, calls the callback once for every entry and for nothing else,
  and never follows an item that has been freed, also when the callback deletes the entry it is called
  with; afterwards the table holds exactly the entries that were not deleted.
\<close>
theorem lhash_doall_visits:
  assumes "OPENSSL_lh_new heap hash cmp = Some lh0"
    and "\<And>a b. cmp a b = 0 \<longleftrightarrow> key a = key b" "\<And>a b. key a = key b \<Longrightarrow> hash a = hash b"
    and "store_run (lh_put heaps) (lh_del heaps) cs (lh0, 0) = (rs, lh, n)"
  shows "\<exists>lh' visited. OPENSSL_lh_doall_arg heap' (sweep heap' p) (lh, []) = Some (lh', visited)
    \<and> distinct (map key visited) \<and> set visited = {d. OPENSSL_lh_retrieve lh d = Some d}
    \<and> (\<forall>d. OPENSSL_lh_retrieve lh' d
         = (case OPENSSL_lh_retrieve lh d of None \<Rightarrow> None | Some e \<Rightarrow> if p e then None else Some e))"
proof -
  note wf = lh_run_wf(1) [OF assms(1), of key heaps cs rs lh n, OF assms(2-4)]
  obtain lh' where r: "OPENSSL_lh_doall_arg heap' (sweep heap' p) (lh, []) = Some (lh', map it_data (lh_items lh))"
    "lh_wf key lh'" "lh_map key lh' = (\<lambda>k. case lh_map key lh k of None \<Rightarrow> None | Some d \<Rightarrow> if p d then None else Some d)"
    using doall_sweep [OF wf] by blast
  have "distinct (map key (map it_data (lh_items lh)))" using wf by (simp add: lh_wf_def)
  moreover have "set (map it_data (lh_items lh)) = {d. OPENSSL_lh_retrieve lh d = Some d}"
    by (auto simp: lh_retrieve_map [OF wf] lh_map_iff [OF wf])
  ultimately show ?thesis using r by (simp add: lh_retrieve_map [OF wf] lh_retrieve_map [OF r(2)])
qed

lemma lhash_doall_visits_witness:
  "\<exists>lh0 lh lh' n. OPENSSL_lh_new (\<lambda>_. True) (\<lambda>x :: nat. word_of_nat (x mod 8)) (\<lambda>a b. if a = b then 0 else 1) = Some lh0
    \<and> store_run (lh_put (\<lambda>_ _. True)) (lh_del (\<lambda>_ _. True)) [Put 1, Put 9, Put 3] (lh0, 0) = ([Some None, Some None, Some None], lh, n)
    \<and> OPENSSL_lh_doall_arg (\<lambda>_. True) (sweep (\<lambda>_. True) (\<lambda>x. x = 9)) (lh, []) = Some (lh', [1, 9, 3])
    \<and> OPENSSL_lh_retrieve lh' 9 = None"
proof -
  let ?new = "OPENSSL_lh_new (\<lambda>_. True) (\<lambda>x :: nat. word_of_nat (x mod 8)) (\<lambda>a b. if a = b then 0 else 1)"
  let ?run = "store_run (lh_put (\<lambda>_ _. True)) (lh_del (\<lambda>_ _. True)) [Put 1, Put 9, Put 3]"
  let ?all = "\<lambda>lh. OPENSSL_lh_doall_arg (\<lambda>_. True) (sweep (\<lambda>_. True) (\<lambda>x. x = 9)) (lh, [])"
  have "(case ?new of None \<Rightarrow> False | Some lh0 \<Rightarrow> (case ?run (lh0, 0) of (rs, lh, n) \<Rightarrow> rs = [Some None, Some None, Some None]
      \<and> map_option snd (?all lh) = Some [1, 9, 3] \<and> OPENSSL_lh_retrieve lh 9 = Some 9))"
    by code_simp
  then obtain lh0 lh n where new: "?new = Some lh0" and run: "?run (lh0, 0) = ([Some None, Some None, Some None], lh, n)"
    and all: "map_option snd (?all lh) = Some [1, 9, 3]" "OPENSSL_lh_retrieve lh 9 = Some 9"
    by (auto split: option.splits prod.splits)
  from all(1) obtain lh' where l: "?all lh = Some (lh', [1, 9, 3])" by auto
  with lhash_doall_visits [OF new _ _ run, of "\<lambda>x. x" "\<lambda>_. True" "\<lambda>x. x = 9"] all(2)
  have "OPENSSL_lh_retrieve lh' 9 = None" by auto
  with new run l show ?thesis by blast
qed

end
