(* ===== verification/Base64.thy ===== *)
theory Base64
  imports Mem
begin

text \<open>
  \<^verbatim>\<open>crypto/base64/base64.c\<close>: base64 in constant time, as single calls and as streams.  Output that the C
  code writes through a moving pointer is the list of the bytes written.
\<close>

section \<open>The code\<close>

definition constant_time_lt_args_8 :: "u8 \<Rightarrow> u8 \<Rightarrow> u8" where
  "constant_time_lt_args_8 a b = ucast (constant_time_msb_w (ucast a - ucast b))"

text \<open>The bounds are computed as \<^verbatim>\<open>int\<close> and passed as bytes.\<close>

definition constant_time_in_range_8 :: "u8 \<Rightarrow> u8 \<Rightarrow> u8 \<Rightarrow> u8" where
  "constant_time_in_range_8 a lo hi = constant_time_lt_args_8 (a - lo) (hi - lo + 1)"

definition conv_bin2ascii :: "u8 \<Rightarrow> u8" where
  "conv_bin2ascii a
     = (let a = a AND 0x3f;
            ret = constant_time_select_8 (ucast (constant_time_eq_8 (ucast a) 62)) 43 47;
            ret = constant_time_select_8 (ucast (constant_time_lt_args_8 a 62)) (a - 52 + 48) ret;
            ret = constant_time_select_8 (ucast (constant_time_lt_args_8 a 52)) (a - 26 + 97) ret;
            ret = constant_time_select_8 (ucast (constant_time_lt_args_8 a 26)) (a + 65) ret in
        ret)"

definition EVP_EncodedLength :: "nat \<Rightarrow> nat option" where
  "EVP_EncodedLength len
     = (if size_add len 2 < len then None
        else let len = size_add len 2 div 3 in
             if size_mul len 4 div 4 \<noteq> len then None
             else let len = size_mul len 4 in
                  if size_add len 1 < len then None else Some (size_add len 1))"

record evp_encode_ctx_st =
  data_used :: nat
  ctx_data :: bytes
  eof_seen :: bool
  error_encountered :: bool

text \<open>The context after \<^verbatim>\<open>OPENSSL_memset\<close> or \<^verbatim>\<open>OPENSSL_zalloc\<close>.\<close>

definition zero_ctx :: evp_encode_ctx_st where
  "zero_ctx = \<lparr>data_used = 0, ctx_data = replicate 48 0, eof_seen = False, error_encountered = False\<rparr>"

definition EVP_ENCODE_CTX_new :: "heap \<Rightarrow> evp_encode_ctx_st option" where
  "EVP_ENCODE_CTX_new heap = (if OPENSSL_zalloc heap 56 = None then None else Some zero_ctx)"

definition EVP_EncodeInit :: "evp_encode_ctx_st \<Rightarrow> evp_encode_ctx_st" where
  "EVP_EncodeInit ctx = zero_ctx"

fun encode_block_loop :: "bytes \<Rightarrow> bytes" where
  "encode_block_loop [] = []"
| "encode_block_loop (a # b # c # src)
     = (let l = (push_bit 16 (ucast a) OR push_bit 8 (ucast b)) OR ucast c :: u32 in
        conv_bin2ascii (ucast (drop_bit 18 l)) # conv_bin2ascii (ucast (drop_bit 12 l))
        # conv_bin2ascii (ucast (drop_bit 6 l)) # conv_bin2ascii (ucast l) # encode_block_loop src)"
| "encode_block_loop (a # rest)
     = (let l = push_bit 16 (ucast a) :: u32;
            l = (case rest of [b] \<Rightarrow> l OR push_bit 8 (ucast b) | _ \<Rightarrow> l) in
        [conv_bin2ascii (ucast (drop_bit 18 l)), conv_bin2ascii (ucast (drop_bit 12 l)),
         if rest = [] then 61 else conv_bin2ascii (ucast (drop_bit 6 l)), 61])"

text \<open>The bytes written, with the terminating zero, and the length without it.\<close>

definition EVP_EncodeBlock :: "bytes \<Rightarrow> bytes \<times> nat" where
  "EVP_EncodeBlock src = (let ret = encode_block_loop src in (ret @ [0], length ret))"

text \<open>A block and a newline; the zero after it is overwritten by the next block, if there is one.\<close>

definition encode_line :: "bytes \<Rightarrow> bytes" where
  "encode_line src = (case EVP_EncodeBlock src of (dst, encoded) \<Rightarrow> take encoded dst @ [10])"

text \<open>The loop over whole blocks: the text, the total (\<open>None\<close> when it overflows) and what is left.\<close>

function encode_update_loop :: "nat \<Rightarrow> bytes \<Rightarrow> bytes \<times> nat option \<times> bytes" where
  "encode_update_loop tot inp
     = (if length inp \<ge> 48
        then let out = encode_line (take 48 inp);
                 encoded = snd (EVP_EncodeBlock (take 48 inp)) in
             if size_add (size_add tot encoded) 1 < tot then (out, None, drop 48 inp)
             else (case encode_update_loop (size_add (size_add tot encoded) 1) (drop 48 inp) of
                     (out', r) \<Rightarrow> (out @ out', r))
        else ([], Some tot, inp))"
  by pat_completeness auto
termination
  by (relation "measure (\<lambda>(tot, inp). length inp)") auto

declare encode_update_loop.simps [simp del]

text \<open>The context, the text written (without the zero after the last line), and \<^verbatim>\<open>*out_len\<close>.\<close>

definition EVP_EncodeUpdate :: "evp_encode_ctx_st \<Rightarrow> bytes \<Rightarrow> evp_encode_ctx_st \<times> bytes \<times> nat" where
  "EVP_EncodeUpdate ctx inp
     = (if length inp = 0 then (ctx, [], 0)
        else if 48 - data_used ctx > length inp
        then (ctx\<lparr>ctx_data := take (data_used ctx) (ctx_data ctx) @ inp @ drop (data_used ctx + length inp) (ctx_data ctx),
                  data_used := data_used ctx + length inp\<rparr>, [], 0)
        else let (ctx, out, tot, inp) =
               (if data_used ctx \<noteq> 0
                then let todo = 48 - data_used ctx;
                         full = take (data_used ctx) (ctx_data ctx) @ take todo inp in
                     (ctx\<lparr>ctx_data := full, data_used := 0\<rparr>, encode_line full,
                      snd (EVP_EncodeBlock full) + 1, drop todo inp)
                else (ctx, [], 0, inp)) in
             case encode_update_loop tot inp of
               (out', None, _) \<Rightarrow> (ctx, out @ out', 0)
             | (out', Some tot, inp) \<Rightarrow>
                 (ctx\<lparr>ctx_data := inp @ drop (length inp) (ctx_data ctx), data_used := length inp\<rparr>,
                  out @ out', if tot > INT_MAX then 0 else tot))"

definition EVP_EncodeFinal :: "evp_encode_ctx_st \<Rightarrow> evp_encode_ctx_st \<times> bytes \<times> nat" where
  "EVP_EncodeFinal ctx
     = (if data_used ctx = 0 then (ctx, [], 0)
        else let (dst, encoded) = EVP_EncodeBlock (take (data_used ctx) (ctx_data ctx)) in
             (ctx\<lparr>data_used := 0\<rparr>, take encoded dst @ [10], encoded + 1))"

definition EVP_DecodedLength :: "nat \<Rightarrow> nat option" where
  "EVP_DecodedLength len = (if len mod 4 \<noteq> 0 then None else Some (size_mul (len div 4) 3))"

definition EVP_DecodeInit :: "evp_encode_ctx_st \<Rightarrow> evp_encode_ctx_st" where
  "EVP_DecodeInit ctx = zero_ctx"

definition base64_ascii_to_bin :: "u8 \<Rightarrow> u8" where
  "base64_ascii_to_bin a
     = (let is_upper = constant_time_in_range_8 a 65 90;
            is_lower = constant_time_in_range_8 a 97 122;
            is_digit = constant_time_in_range_8 a 48 57;
            is_plus = constant_time_eq_8 (ucast a) 43;
            is_slash = constant_time_eq_8 (ucast a) 47;
            is_equals = constant_time_eq_8 (ucast a) 61;
            ret = 0;
            ret = ret OR (is_upper AND (a - 65));
            ret = ret OR (is_lower AND (a - 97 + 26));
            ret = ret OR (is_digit AND (a - 48 + 52));
            ret = ret OR (is_plus AND 62);
            ret = ret OR (is_slash AND 63);
            is_valid = ((((is_upper OR is_lower) OR is_digit) OR is_plus) OR is_slash) OR is_equals in
        ret OR NOT is_valid)"

text \<open>The bytes of a quad, one to three.\<close>

definition base64_decode_quad :: "u8 \<Rightarrow> u8 \<Rightarrow> u8 \<Rightarrow> u8 \<Rightarrow> bytes option" where
  "base64_decode_quad in0 in1 in2 in3
     = (let a = base64_ascii_to_bin in0;
            b = base64_ascii_to_bin in1;
            c = base64_ascii_to_bin in2;
            d = base64_ascii_to_bin in3 in
        if a = 0xff \<or> b = 0xff \<or> c = 0xff \<or> d = 0xff then None
        else let v = ((push_bit 18 (ucast a) OR push_bit 12 (ucast b)) OR push_bit 6 (ucast c)) OR ucast d :: u32;
                 padding_pattern = ((push_bit 3 (of_bool (in0 = 61)) OR push_bit 2 (of_bool (in1 = 61)))
                    OR push_bit 1 (of_bool (in2 = 61))) OR of_bool (in3 = 61) :: u32 in
             if padding_pattern = 0 then Some [ucast (drop_bit 16 v), ucast (drop_bit 8 v), ucast v]
             else if padding_pattern = 1 then Some [ucast (drop_bit 16 v), ucast (drop_bit 8 v)]
             else if padding_pattern = 3 then Some [ucast (drop_bit 16 v)]
             else None)"

text \<open>The loop of the streaming decoder: success, the context, and the bytes written.\<close>

fun decode_update_loop :: "evp_encode_ctx_st \<Rightarrow> bytes \<Rightarrow> bool \<times> evp_encode_ctx_st \<times> bytes" where
  "decode_update_loop ctx [] = (True, ctx, [])"
| "decode_update_loop ctx (c # inp)
     = (if c \<in> {32, 9, 13, 10} then decode_update_loop ctx inp
        else if eof_seen ctx then (False, ctx\<lparr>error_encountered := True\<rparr>, [])
        else let ctx = ctx\<lparr>ctx_data := (ctx_data ctx)[data_used ctx := c], data_used := data_used ctx + 1\<rparr> in
             if data_used ctx = 4
             then (case base64_decode_quad (ctx_data ctx ! 0) (ctx_data ctx ! 1) (ctx_data ctx ! 2) (ctx_data ctx ! 3) of
                     None \<Rightarrow> (False, ctx\<lparr>error_encountered := True\<rparr>, [])
                   | Some bytes_resulting \<Rightarrow>
                       (case decode_update_loop
                          (ctx\<lparr>data_used := 0, eof_seen := (if length bytes_resulting < 3 then True else eof_seen ctx)\<rparr>) inp of
                          (ok, ctx, out) \<Rightarrow> (ok, ctx, bytes_resulting @ out)))
             else decode_update_loop ctx inp)"

text \<open>The result -1, 0 or 1, the context, the bytes written, and \<^verbatim>\<open>*out_len\<close>.\<close>

definition EVP_DecodeUpdate :: "evp_encode_ctx_st \<Rightarrow> bytes \<Rightarrow> int \<times> evp_encode_ctx_st \<times> bytes \<times> nat" where
  "EVP_DecodeUpdate ctx inp
     = (if error_encountered ctx then (- 1, ctx, [], 0)
        else case decode_update_loop ctx inp of
               (False, ctx, out) \<Rightarrow> (- 1, ctx, out, 0)
             | (True, ctx, out) \<Rightarrow>
                 if length out > INT_MAX then (- 1, ctx\<lparr>error_encountered := True\<rparr>, out, 0)
                 else (if eof_seen ctx then 0 else 1, ctx, out, length out))"

definition EVP_DecodeFinal :: "evp_encode_ctx_st \<Rightarrow> int" where
  "EVP_DecodeFinal ctx = (if error_encountered ctx \<or> data_used ctx \<noteq> 0 then - 1 else 1)"

fun decode_base64_loop :: "bytes \<Rightarrow> bytes option" where
  "decode_base64_loop (in0 # in1 # in2 # in3 # inp)
     = (case base64_decode_quad in0 in1 in2 in3 of
          None \<Rightarrow> None
        | Some bytes_resulting \<Rightarrow>
            if length bytes_resulting \<noteq> 3 \<and> inp \<noteq> [] then None
            else map_option (\<lambda>out. bytes_resulting @ out) (decode_base64_loop inp))"
| "decode_base64_loop _ = Some []"

definition EVP_DecodeBase64 :: "nat \<Rightarrow> bytes \<Rightarrow> bytes option" where
  "EVP_DecodeBase64 max_out inp
     = (if length inp mod 4 \<noteq> 0 then None
        else case EVP_DecodedLength (length inp) of
               None \<Rightarrow> None
             | Some max_len \<Rightarrow> if max_out < max_len then None else decode_base64_loop inp)"

text \<open>The result and the bytes written, which are not modelled after a failure.\<close>

definition EVP_DecodeBlock :: "bytes \<Rightarrow> int \<times> bytes" where
  "EVP_DecodeBlock src
     = (let src = dropWhile (\<lambda>c. c = 32 \<or> c = 9) src;
            src = rev (dropWhile (\<lambda>c. c \<in> {32, 9, 13, 10}) (rev src)) in
        case EVP_DecodedLength (length src) of
          None \<Rightarrow> (- 1, [])
        | Some dst_len \<Rightarrow>
            if dst_len > INT_MAX then (- 1, [])
            else case EVP_DecodeBase64 dst_len src of
                   None \<Rightarrow> (- 1, [])
                 | Some dst \<Rightarrow>
                     let dst = dst @ replicate ((3 - length dst mod 3) mod 3) 0 in (int (length dst), dst))"

end
