(* ===== verification/Base64_Spec.thy ===== *)
theory Base64_Spec
  imports Base64
begin

text \<open>
  What base64 is: the alphabet and the text of a byte string in plain arithmetic, against the
  constant-time code of \<^verbatim>\<open>Base64.thy\<close>.  \<open>b64_text r bs\<close> is the text of \<open>bs\<close> whose unused low bits, next to
  the padding, are \<open>r\<close>; the canonical text has \<open>r = 0\<close>.
\<close>

section \<open>The alphabet\<close>

definition b64_char :: "nat \<Rightarrow> u8" where
  "b64_char n = (if n < 26 then word_of_nat (n + 65) else if n < 52 then word_of_nat (n + 71)
     else if n < 62 then word_of_nat (n - 4) else if n = 62 then 43 else 47)"

lemma unat_less_256: "unat (a :: u8) < 256"
  using unsigned_less [of a, where 'a = nat] by simp

lemma lt_args_8_eq [consttime]: "constant_time_lt_args_8 a b = mask_8 (a < b)"
proof -
  have "bit (ucast a - ucast b :: u64) 63 \<longleftrightarrow> a < b"
  proof -
    have u: "unat (ucast a :: u64) = unat a" "unat (ucast b :: u64) = unat b" by (simp_all add: unat_ucast_up)
    have "9223372036854775808 \<le> (if y \<le> x then x - y else x + size_bound - y) \<longleftrightarrow> x < y" if "x < 256" "y < 256" for x y :: nat
      using that by auto
    from this [OF unat_less_256 [of a] unat_less_256 [of b]] show ?thesis
      unfolding bit_63_iff unat_sub_if' u word_less_nat_alt by (simp split: if_splits)
  qed
  then show ?thesis by (simp add: constant_time_lt_args_8_def consttime)
qed

lemma in_range_8_eq:
  assumes "lo \<le> hi" "hi < 255"
  shows "constant_time_in_range_8 a lo hi = mask_8 (lo \<le> a \<and> a \<le> hi)"
proof -
  have h: "unat lo \<le> unat hi" "unat hi < 255" using assms by (simp_all add: word_le_nat_alt word_less_nat_alt)
  have d: "unat (hi - lo) = unat hi - unat lo" using assms(1) by (simp add: unat_sub)
  then have d1: "unat (hi - lo + 1) = unat hi - unat lo + 1" using h by (subst unat_plus_simple [THEN iffD1]) (auto simp: word_le_nat_alt unat_word_ariths)
  have "a - lo < hi - lo + 1 \<longleftrightarrow> lo \<le> a \<and> a \<le> hi"
    unfolding word_less_nat_alt word_le_nat_alt d1 unat_sub_if' using h unat_less_256 [of a] by auto
  then show ?thesis by (simp add: constant_time_in_range_8_def consttime)
qed

lemma conv_bin2ascii_eq: "conv_bin2ascii a = b64_char (unat a mod 64)"
proof -
  define w where "w = a AND 0x3f"
  have w: "unat w = unat a mod 64"
    using unat_and_mask [of a 6] by (simp add: w_def mask_eq_exp_minus_1)
  then have l: "unat w < 64" by simp
  have e: "(ucast w :: u64) = 62 \<longleftrightarrow> unat w = 62"
    by (simp add: word_eq_iff_unsigned [where 'a = nat] unat_ucast_up)
  have c: "conv_bin2ascii a = (if w < 26 then w + 65 else if w < 52 then w - 26 + 97 else if w < 62 then w - 52 + 48
      else if unat w = 62 then 43 else 47)"
    unfolding conv_bin2ascii_def Let_def w_def [symmetric] by (simp add: consttime e)
  have wn: "w = word_of_nat (unat w)" by simp
  have "w + 65 = word_of_nat (unat w + 65)" "w - 26 + 97 = word_of_nat (unat w + 71)" by simp_all
  moreover have "w - 52 + 48 = word_of_nat (unat w - 4)" if "52 \<le> unat w"
  proof -
    have "word_of_nat (unat w - 4) = word_of_nat (unat w) - (4 :: u8)" using that by (simp add: of_nat_diff)
    then show ?thesis by simp
  qed
  ultimately show ?thesis
    unfolding c w [symmetric] b64_char_def by (auto simp: word_less_nat_alt)
qed

lemma unat_b64_char: "n < 64 \<Longrightarrow> unat (b64_char n) = (if n < 26 then n + 65 else if n < 52 then n + 71
     else if n < 62 then n - 4 else if n = 62 then 43 else 47)"
  by (simp add: b64_char_def unat_of_nat del: of_nat_add of_nat_diff)

text \<open>The value of a character.\<close>

lemma ascii_to_bin_eq:
  "base64_ascii_to_bin a =
     (if 65 \<le> unat a \<and> unat a \<le> 90 then word_of_nat (unat a - 65) else if 97 \<le> unat a \<and> unat a \<le> 122 then word_of_nat (unat a - 71)
      else if 48 \<le> unat a \<and> unat a \<le> 57 then word_of_nat (unat a + 4) else if unat a = 43 then 62 else if unat a = 47 then 63
      else if unat a = 61 then 0 else 255)"
proof -
  have e: "(ucast a :: u64) = 43 \<longleftrightarrow> unat a = 43" "(ucast a :: u64) = 47 \<longleftrightarrow> unat a = 47" "(ucast a :: u64) = 61 \<longleftrightarrow> unat a = 61"
    by (simp_all add: word_eq_iff_unsigned [where 'a = nat] unat_ucast_up)
  have r: "constant_time_in_range_8 a 65 90 = mask_8 (65 \<le> unat a \<and> unat a \<le> 90)"
    "constant_time_in_range_8 a 97 122 = mask_8 (97 \<le> unat a \<and> unat a \<le> 122)"
    "constant_time_in_range_8 a 48 57 = mask_8 (48 \<le> unat a \<and> unat a \<le> 57)"
    by (subst in_range_8_eq; simp add: word_le_nat_alt)+
  have m: "a - 65 = word_of_nat (unat a - 65)" if "65 \<le> unat a" using that by (simp add: of_nat_diff)
  have n: "a - 97 + 26 = word_of_nat (unat a - 71)" if "71 \<le> unat a" using that by (simp add: of_nat_diff)
  have k: "a - 48 + 52 = word_of_nat (unat a + 4)" by simp
  have all: "base64_ascii_to_bin a = ((((mask_8 (65 \<le> unat a \<and> unat a \<le> 90) AND (a - 65))
      OR (mask_8 (97 \<le> unat a \<and> unat a \<le> 122) AND (a - 97 + 26))) OR (mask_8 (48 \<le> unat a \<and> unat a \<le> 57) AND (a - 48 + 52)))
      OR (mask_8 (unat a = 43) AND 62) OR (mask_8 (unat a = 47) AND 63))
      OR NOT (((((mask_8 (65 \<le> unat a \<and> unat a \<le> 90) OR mask_8 (97 \<le> unat a \<and> unat a \<le> 122)) OR mask_8 (48 \<le> unat a \<and> unat a \<le> 57))
        OR mask_8 (unat a = 43)) OR mask_8 (unat a = 47)) OR mask_8 (unat a = 61))"
    unfolding base64_ascii_to_bin_def Let_def r by (simp add: consttime e or.assoc)
  consider "65 \<le> unat a \<and> unat a \<le> 90" | "97 \<le> unat a \<and> unat a \<le> 122" | "48 \<le> unat a \<and> unat a \<le> 57" | "unat a = 43" | "unat a = 47"
    | "unat a = 61" | "\<not> (65 \<le> unat a \<and> unat a \<le> 90)" "\<not> (97 \<le> unat a \<and> unat a \<le> 122)" "\<not> (48 \<le> unat a \<and> unat a \<le> 57)"
      "unat a \<noteq> 43" "unat a \<noteq> 47" "unat a \<noteq> 61" by blast
  then show ?thesis
    unfolding all by cases (use m n in \<open>auto simp: mask_8_def\<close>)
qed

lemma ascii_to_bin_char: "n < 64 \<Longrightarrow> base64_ascii_to_bin (b64_char n) = word_of_nat n"
proof -
  assume n: "n < 64"
  then consider "n < 26" | "26 \<le> n" "n < 52" | "52 \<le> n" "n < 62" | "n = 62" | "n = 63" by linarith
  then show ?thesis unfolding ascii_to_bin_eq unat_b64_char [OF n] by cases auto
qed

lemma b64_char_cases:
  obtains n where "n < 64" "c = b64_char n" | "c = 61" | "base64_ascii_to_bin c = 255" "c \<noteq> 61" "\<And>n. n < 64 \<Longrightarrow> c \<noteq> b64_char n"
proof -
  have num: "c = b64_char n" if "n < 64" "unat c = unat (b64_char n)" for n using that(2) by (simp add: word_eq_iff_unsigned [where 'a = nat])
  consider "65 \<le> unat c \<and> unat c \<le> 90" | "97 \<le> unat c \<and> unat c \<le> 122" | "48 \<le> unat c \<and> unat c \<le> 57" | "unat c = 43" | "unat c = 47"
    | "unat c = 61" | "\<not> (65 \<le> unat c \<and> unat c \<le> 90)" "\<not> (97 \<le> unat c \<and> unat c \<le> 122)" "\<not> (48 \<le> unat c \<and> unat c \<le> 57)"
      "unat c \<noteq> 43" "unat c \<noteq> 47" "unat c \<noteq> 61" by blast
  then show ?thesis
  proof cases
    case 1 then show ?thesis by (intro that(1) [of "unat c - 65"] num) (auto simp: unat_b64_char)
  next
    case 2 then show ?thesis by (intro that(1) [of "unat c - 71"] num) (auto simp: unat_b64_char)
  next
    case 3 then show ?thesis by (intro that(1) [of "unat c + 4"] num) (auto simp: unat_b64_char)
  next
    case 4 then show ?thesis by (intro that(1) [of 62] num) (auto simp: unat_b64_char)
  next
    case 5 then show ?thesis by (intro that(1) [of 63] num) (auto simp: unat_b64_char)
  next
    case 6 then have "c = 61" by (simp add: word_eq_iff_unsigned [where 'a = nat])
    then show ?thesis by (rule that(2))
  next
    case 7
    have "c \<noteq> b64_char n" if "n < 64" for n
    proof
      assume "c = b64_char n"
      with 7 unat_b64_char [OF that] that show False by (auto split: if_splits; arith)
    qed
    with 7 show ?thesis by (intro that(3)) (auto simp: ascii_to_bin_eq)
  qed
qed

lemma b64_char_not_pad [simp]: "n < 64 \<Longrightarrow> b64_char n \<noteq> 61" "n < 64 \<Longrightarrow> b64_char n \<notin> {32, 9, 13, 10}"
  using unat_b64_char [of n] by (auto simp: word_eq_iff_unsigned [where 'a = nat] split: if_splits)

lemma b64_char_inj: "m < 64 \<Longrightarrow> n < 64 \<Longrightarrow> b64_char m = b64_char n \<longleftrightarrow> m = n"
proof
  assume a: "m < 64" "n < 64" "b64_char m = b64_char n"
  then have "unat (word_of_nat m :: u8) = unat (word_of_nat n :: u8)" by (metis ascii_to_bin_char)
  with a show "m = n" by (simp add: unat_of_nat)
qed simp

section \<open>The text of a byte string\<close>

fun b64_text :: "nat \<Rightarrow> bytes \<Rightarrow> bytes" where
  "b64_text r [] = []"
| "b64_text r [a] = (let n = unat a * 16 + r in [b64_char (n div 64), b64_char (n mod 64), 61, 61])"
| "b64_text r [a, b] = (let n = (unat a * 256 + unat b) * 4 + r in
     [b64_char (n div 4096), b64_char (n div 64 mod 64), b64_char (n mod 64), 61])"
| "b64_text r (a # b # c # rest) = (let n = (unat a * 256 + unat b) * 256 + unat c in
     [b64_char (n div 262144), b64_char (n div 4096 mod 64), b64_char (n div 64 mod 64), b64_char (n mod 64)] @ b64_text r rest)"

definition low_bits :: "bytes \<Rightarrow> nat" where
  "low_bits bs = (if length bs mod 3 = 0 then 1 else if length bs mod 3 = 1 then 16 else 4)"

lemma length_b64_text: "length (b64_text r bs) = (length bs + 2) div 3 * 4"
proof (induction r bs rule: b64_text.induct)
  case (4 r a b c rest)
  from 4 have "length (b64_text r (a # b # c # rest)) = ((length rest + 2) div 3 + 1) * 4" by (simp add: Let_def)
  also have "(length rest + 2) div 3 + 1 = (length (a # b # c # rest) + 2) div 3" by simp
  finally show ?case .
qed (simp_all add: Let_def)

lemma conv_bits:
  fixes l :: u32
  shows "conv_bin2ascii (ucast (drop_bit k l)) = b64_char (unat l div 2 ^ k mod 64)"
  unfolding conv_bin2ascii_eq by (simp add: unat_ucast_mod unat_drop_bit mod_mod_cancel)

lemma unat_shift_or:
  assumes "unat v < 2 ^ n" "unat w * 2 ^ n + unat v < 2 ^ LENGTH('a)"
  shows "unat (push_bit n w OR v) = unat (w :: 'a::len word) * 2 ^ n + unat v"
  using assms(2) by (simp add: shift_or_plus [OF assms(1)] unat_word_ariths unat_push_bit mod_add_left_eq)

lemma unat_shift:
  "unat w * 2 ^ n < 2 ^ LENGTH('a) \<Longrightarrow> unat (push_bit n w) = unat (w :: 'a::len word) * 2 ^ n"
  by (simp add: unat_push_bit)

lemma unat_bytes_3:
  fixes a b c :: u8
  shows "unat ((push_bit 16 (ucast a) OR push_bit 8 (ucast b)) OR ucast c :: u32) = (unat a * 256 + unat b) * 256 + unat c"
    "unat (push_bit 16 (ucast a) OR push_bit 8 (ucast b) :: u32) = (unat a * 256 + unat b) * 256"
    "unat (push_bit 16 (ucast a) :: u32) = unat a * 65536"
proof -
  have u: "unat (ucast x :: u32) = unat x" for x :: u8 by (simp add: unat_ucast_up)
  have l: "unat b * 256 + unat c < 65536" "unat a * 65536 + (unat b * 256 + unat c) < 4294967296"
    "unat b * 256 < 65536" "unat a * 65536 + unat b * 256 < 4294967296" "unat a * 65536 < 4294967296"
    using byte_lt [of a] byte_lt [of b] byte_lt [of c] by linarith+
  have bc: "unat (push_bit 8 (ucast b) OR ucast c :: u32) = unat b * 256 + unat c"
    by (subst unat_shift_or) (use l order.strict_trans [OF l(1), of 4294967296] in \<open>simp_all add: u\<close>)
  show "unat ((push_bit 16 (ucast a) OR push_bit 8 (ucast b)) OR ucast c :: u32) = (unat a * 256 + unat b) * 256 + unat c"
    unfolding or.assoc by (subst unat_shift_or) (use l in \<open>simp_all add: u bc\<close>)
  have b: "unat (push_bit 8 (ucast b) :: u32) = unat b * 256"
    by (subst unat_shift) (use order.strict_trans [OF l(3), of 4294967296] in \<open>simp_all add: u\<close>)
  show "unat (push_bit 16 (ucast a) OR push_bit 8 (ucast b) :: u32) = (unat a * 256 + unat b) * 256"
    by (subst unat_shift_or) (use l in \<open>simp_all add: u b\<close>)
  show "unat (push_bit 16 (ucast a) :: u32) = unat a * 65536"
    by (subst unat_shift) (use l in \<open>simp_all add: u\<close>)
qed

lemma unat_sextets_4:
  fixes a b c d :: u8
  assumes "unat a < 64" "unat b < 64" "unat c < 64" "unat d < 64"
  shows "unat (((push_bit 18 (ucast a) OR push_bit 12 (ucast b)) OR push_bit 6 (ucast c)) OR ucast d :: u32)
    = ((unat a * 64 + unat b) * 64 + unat c) * 64 + unat d"
proof -
  have u: "unat (ucast x :: u32) = unat x" for x :: u8 by (simp add: unat_ucast_up)
  have cd: "unat (push_bit 6 (ucast c) OR ucast d :: u32) = unat c * 64 + unat d"
    by (subst unat_shift_or) (use assms in \<open>simp_all add: u\<close>)
  have bcd: "unat (push_bit 12 (ucast b) OR (push_bit 6 (ucast c) OR ucast d) :: u32) = unat b * 4096 + (unat c * 64 + unat d)"
    by (subst unat_shift_or) (use assms in \<open>simp_all add: u cd\<close>)
  show ?thesis
    unfolding or.assoc by (subst unat_shift_or) (use assms in \<open>simp_all add: u bcd\<close>)
qed

lemma encode_block_eq: "encode_block_loop src = b64_text 0 src"
proof (induction "0 :: nat" src rule: b64_text.induct)
  case (2 a)
  define n where "n = unat a * 16"
  have "n < 4096" using byte_lt [of a] unfolding n_def by linarith
  then have "n div 64 < 64" by linarith
  moreover have "n * 4096 div 262144 = n div 64" using div_mult2_eq [of "n * 4096" 4096 64] by simp
  moreover have "unat a * 65536 = n * 4096" "n div 64 = unat a div 4" by (simp_all add: n_def)
  ultimately show ?case by (simp add: Let_def conv_bits unat_bytes_3 n_def [symmetric])
next
  case (3 a b)
  define n where "n = unat a * 256 + unat b"
  have "n < 65536" using byte_lt [of a] byte_lt [of b] unfolding n_def by linarith
  then have "n * 4 div 4096 < 64" by linarith
  moreover have "n * 256 div 262144 = n * 4 div 4096" "n * 256 div 4096 mod 64 = n * 4 div 64 mod 64"
    "n * 256 div 64 mod 64 = n * 4 mod 64"
    using div_mult2_eq [of "n * 256" 64 4096] div_mult2_eq [of "n * 256" 64 64] by (simp_all add: mult.commute)
  ultimately show ?case by (simp add: Let_def conv_bits unat_bytes_3 n_def [symmetric])
next
  case (4 a b c rest)
  define n where "n = (unat a * 256 + unat b) * 256 + unat c"
  have "n = unat a * 65536 + unat b * 256 + unat c" by (simp add: n_def)
  then have "n < 16777216" using byte_lt [of a] byte_lt [of b] byte_lt [of c] by linarith
  then have hi: "n div 262144 < 64" by linarith
  have u: "unat ((push_bit 16 (ucast a) OR push_bit 8 (ucast b)) OR ucast c :: u32) = n"
    by (simp only: unat_bytes_3 n_def)
  have m: "conv_bin2ascii (ucast ((push_bit 16 (ucast a) OR push_bit 8 (ucast b)) OR ucast c :: u32)) = b64_char (n mod 64)"
    using conv_bits [of 0 "(push_bit 16 (ucast a) OR push_bit 8 (ucast b)) OR ucast c"] by (simp add: u)
  have "encode_block_loop (a # b # c # rest) = [b64_char (n div 262144), b64_char (n div 4096 mod 64),
      b64_char (n div 64 mod 64), b64_char (n mod 64)] @ encode_block_loop rest"
    unfolding encode_block_loop.simps Let_def m conv_bits u using hi by simp
  moreover have "encode_block_loop rest = b64_text 0 rest" using 4 by simp
  ultimately show ?case unfolding b64_text.simps Let_def n_def by (simp only:)
qed simp

lemma encode_block_text: "EVP_EncodeBlock src = (b64_text 0 src @ [0], length (b64_text 0 src))"
  by (simp add: EVP_EncodeBlock_def Let_def encode_block_eq)

section \<open>Decoding a quad\<close>

lemma quad_pad:
  "base64_decode_quad w x y z =
    (if base64_ascii_to_bin w = 255 \<or> base64_ascii_to_bin x = 255 \<or> base64_ascii_to_bin y = 255 \<or> base64_ascii_to_bin z = 255 then None
     else let v = ((push_bit 18 (ucast (base64_ascii_to_bin w)) OR push_bit 12 (ucast (base64_ascii_to_bin x)))
            OR push_bit 6 (ucast (base64_ascii_to_bin y))) OR ucast (base64_ascii_to_bin z) :: u32 in
       if w = 61 \<or> x = 61 then None
       else if y = 61 then if z = 61 then Some [ucast (drop_bit 16 v)] else None
       else if z = 61 then Some [ucast (drop_bit 16 v), ucast (drop_bit 8 v)]
       else Some [ucast (drop_bit 16 v), ucast (drop_bit 8 v), ucast v])"
  by (cases "w = 61"; cases "x = 61"; cases "y = 61"; cases "z = 61") (simp_all add: base64_decode_quad_def Let_def)

lemma quad_value:
  assumes "i < 64" "j < 64" "k < 64" "l < 64"
  shows "unat (((push_bit 18 (ucast (word_of_nat i :: u8)) OR push_bit 12 (ucast (word_of_nat j :: u8)))
     OR push_bit 6 (ucast (word_of_nat k :: u8))) OR ucast (word_of_nat l :: u8) :: u32) = ((i * 64 + j) * 64 + k) * 64 + l"
  by (subst unat_sextets_4) (use assms in \<open>simp_all add: unat_of_nat\<close>)

lemma split_base: "l < b \<Longrightarrow> (q * b + l) div b = (q :: nat)" "l < b \<Longrightarrow> (q * b + l) mod b = l"
  by simp_all

lemma digits_64:
  assumes "i < 64" "j < 64" "k < 64" "l < 64" and v: "v = ((i * 64 + j) * 64 + k) * 64 + (l :: nat)"
  shows "v div 262144 = i" "v div 4096 mod 64 = j" "v div 64 mod 64 = k" "v mod 64 = l" "v < 16777216"
proof -
  have s: "v div 64 = (i * 64 + j) * 64 + k" "v mod 64 = l" unfolding v by (rule split_base [OF assms(4)])+
  have "v div 64 div 64 = i * 64 + j" "v div 64 mod 64 = k" unfolding s by (rule split_base [OF assms(3)])+
  moreover have "(i * 64 + j) div 64 = i" "(i * 64 + j) mod 64 = j" by (rule split_base [OF assms(2)])+
  ultimately show "v div 262144 = i" "v div 4096 mod 64 = j" "v div 64 mod 64 = k" "v mod 64 = l"
    using s(2) div_mult2_eq [of v 64 64] div_mult2_eq [of v 4096 64] by simp_all
  have "v = i * 262144 + j * 4096 + k * 64 + l" by (simp add: v)
  with assms(1-4) show "v < 16777216" by linarith
qed

lemma digits_256:
  assumes "a < 256" "b < 256" "c < 256" and v: "v = (a * 256 + b) * 256 + (c :: nat)"
  shows "v div 65536 mod 256 = a" "v div 256 mod 256 = b" "v mod 256 = c"
proof -
  have s: "v div 256 = a * 256 + b" "v mod 256 = c" unfolding v by (rule split_base [OF assms(3)])+
  have "v div 256 div 256 = a" "v div 256 mod 256 = b" unfolding s by (rule split_base [OF assms(2)])+
  then show "v div 65536 mod 256 = a" "v div 256 mod 256 = b" "v mod 256 = c"
    using s(2) div_mult2_eq [of v 256 256] assms(1) by simp_all
qed

lemma join_64: "v < 16777216 \<Longrightarrow> v = ((v div 262144 * 64 + v div 4096 mod 64) * 64 + v div 64 mod 64) * 64 + v mod (64 :: nat)"
  using div_mult2_eq [of v 64 64] div_mult2_eq [of v 4096 64] div_mult_mod_eq [of v 64] div_mult_mod_eq [of "v div 64" 64]
    div_mult_mod_eq [of "v div 4096" 64] by simp

lemma join_256: "v < 16777216 \<Longrightarrow> v = (v div 65536 mod 256 * 256 + v div 256 mod 256) * 256 + v mod (256 :: nat)"
  using div_mult2_eq [of v 256 256] div_mult_mod_eq [of v 256] div_mult_mod_eq [of "v div 256" 256] by simp

text \<open>What a quad of valid characters decodes to.\<close>

lemma quad_chars:
  assumes "i < 64" "j < 64" "k < 64" "l < 64"
  shows "base64_decode_quad (b64_char i) (b64_char j) (b64_char k) (b64_char l)
      = (let v = ((i * 64 + j) * 64 + k) * 64 + l in
         Some [word_of_nat (v div 65536 mod 256), word_of_nat (v div 256 mod 256), word_of_nat (v mod 256)])"
    "base64_decode_quad (b64_char i) (b64_char j) (b64_char k) 61
      = (let v = ((i * 64 + j) * 64 + k) * 64 in Some [word_of_nat (v div 65536 mod 256), word_of_nat (v div 256 mod 256)])"
    "base64_decode_quad (b64_char i) (b64_char j) 61 61
      = (let v = (i * 64 + j) * 4096 in Some [word_of_nat (v div 65536 mod 256)])"
proof -
  have w: "(word_of_nat n :: u8) \<noteq> 255" if "n < 64" for n
    using that by (simp add: word_eq_iff_unsigned [where 'a = nat] unat_of_nat)
  have p: "base64_ascii_to_bin 61 = word_of_nat 0" by (simp add: ascii_to_bin_eq)
  have p255: "(word_of_nat 0 :: u8) \<noteq> 255" by simp
  note simps = ascii_to_bin_char [OF assms(1)] ascii_to_bin_char [OF assms(2)] ascii_to_bin_char [OF assms(3)]
    ascii_to_bin_char [OF assms(4)] w [OF assms(1)] w [OF assms(2)] w [OF assms(3)] w [OF assms(4)]
    b64_char_not_pad(1) [OF assms(1)] b64_char_not_pad(1) [OF assms(2)] b64_char_not_pad(1) [OF assms(3)]
    b64_char_not_pad(1) [OF assms(4)] if_False if_True simp_thms
  have d: "ucast (v :: u32) = (word_of_nat (unat v mod 256) :: u8)" for v
    by (simp add: word_eq_iff_unsigned [where 'a = nat] unat_ucast_mod unat_of_nat)
  show "base64_decode_quad (b64_char i) (b64_char j) (b64_char k) (b64_char l)
      = (let v = ((i * 64 + j) * 64 + k) * 64 + l in
         Some [word_of_nat (v div 65536 mod 256), word_of_nat (v div 256 mod 256), word_of_nat (v mod 256)])"
    by (simp only: quad_pad Let_def simps d unat_drop_bit quad_value [OF assms], simp)
  show "base64_decode_quad (b64_char i) (b64_char j) (b64_char k) 61
      = (let v = ((i * 64 + j) * 64 + k) * 64 in Some [word_of_nat (v div 65536 mod 256), word_of_nat (v div 256 mod 256)])"
    using quad_value [OF assms(1-3), of 0]
    by (simp only: quad_pad Let_def simps p p255 d unat_drop_bit, simp)
  show "base64_decode_quad (b64_char i) (b64_char j) 61 61
      = (let v = (i * 64 + j) * 4096 in Some [word_of_nat (v div 65536 mod 256)])"
    using quad_value [OF assms(1-2), of 0 0]
    by (simp only: quad_pad Let_def simps p p255 d unat_drop_bit, simp add: mult.commute)
qed

lemma quad_text:
  assumes "r < low_bits bs" "bs \<noteq> []" "length bs \<le> 3" "b64_text r bs = [w, x, y, z]"
  shows "base64_decode_quad w x y z = Some bs"
proof -
  consider a where "bs = [a]" | a b where "bs = [a, b]" | a b c where "bs = [a, b, c]"
    using assms(2,3) by (cases "(r, bs)" rule: b64_text.cases) auto
  then show ?thesis
  proof cases
    case 1
    define n where "n = unat a * 16 + r"
    have r: "r < 16" using assms(1) by (simp add: 1 low_bits_def)
    then have n: "n < 4096" using byte_lt [of a] unfolding n_def by linarith
    have q: "w = b64_char (n div 64)" "x = b64_char (n mod 64)" "y = 61" "z = 61"
      using assms(4) by (simp_all add: 1 Let_def n_def)
    have "(n div 64 * 64 + n mod 64) * 4096 = n * 4096" by simp
    moreover have "n * 4096 div 65536 mod 256 = unat a"
    proof -
      have "n * 4096 div 65536 = n div 16" using div_mult2_eq [of "n * 4096" 4096 16] by simp
      also have "n div 16 = unat a" unfolding n_def by (rule split_base [OF r])
      finally show ?thesis by simp
    qed
    ultimately have "base64_decode_quad w x y z = Some [word_of_nat (unat a)]"
      using quad_chars(3) [of "n div 64" "n mod 64" 0 0] n unfolding q by (simp only: Let_def)
    then show ?thesis by (simp add: 1)
  next
    case 2
    define m where "m = unat a * 256 + unat b"
    define n where "n = m * 4 + r"
    have r: "r < 4" using assms(1) by (simp add: 2 low_bits_def)
    have m: "m < 65536" using byte_lt [of a] byte_lt [of b] unfolding m_def by linarith
    then have n: "n < 262144" using r unfolding n_def by linarith
    have q: "w = b64_char (n div 4096)" "x = b64_char (n div 64 mod 64)" "y = b64_char (n mod 64)" "z = 61"
      using assms(4) by (simp_all add: 2 Let_def n_def m_def)
    have j: "((n div 4096 * 64 + n div 64 mod 64) * 64 + n mod 64) * 64 = n * 64"
      using div_mult2_eq [of n 64 64] div_mult_mod_eq [of "n div 64" 64] div_mult_mod_eq [of n 64] by simp
    have n4: "n div 4 = m" unfolding n_def by (rule split_base [OF r])
    have "n * 64 div 256 = m" using div_mult2_eq [of "n * 64" 64 4] n4 by simp
    moreover have "n * 64 div 65536 = m div 256" using div_mult2_eq [of "n * 64" 256 256] calculation by simp
    moreover have "m div 256 = unat a" "m mod 256 = unat b" unfolding m_def by (rule split_base [OF byte_lt])+
    ultimately have "n * 64 div 65536 mod 256 = unat a" "n * 64 div 256 mod 256 = unat b" by simp_all
    moreover have "n div 4096 < 64" using n by linarith
    ultimately have "base64_decode_quad w x y z = Some [word_of_nat (unat a), word_of_nat (unat b)]"
      using quad_chars(2) [of "n div 4096" "n div 64 mod 64" "n mod 64" 0] unfolding q Let_def j by simp
    then show ?thesis by (simp add: 2)
  next
    case 3
    define n where "n = (unat a * 256 + unat b) * 256 + unat c"
    have "n = unat a * 65536 + unat b * 256 + unat c" by (simp add: n_def)
    then have n: "n < 16777216" using byte_lt [of a] byte_lt [of b] byte_lt [of c] by linarith
    have q: "w = b64_char (n div 262144)" "x = b64_char (n div 4096 mod 64)" "y = b64_char (n div 64 mod 64)" "z = b64_char (n mod 64)"
      using assms(4) unfolding 3 b64_text.simps Let_def n_def by simp_all
    have "n div 262144 < 64" using n by linarith
    then have "base64_decode_quad w x y z = Some [word_of_nat (unat a), word_of_nat (unat b), word_of_nat (unat c)]"
      using quad_chars(1) [of "n div 262144" "n div 4096 mod 64" "n div 64 mod 64" "n mod 64"]
      unfolding q Let_def join_64 [OF n, symmetric] digits_256 [OF byte_lt byte_lt byte_lt n_def] by simp
    then show ?thesis by (simp add: 3)
  qed
qed

lemma quad_sound:
  assumes "base64_decode_quad w x y z = Some bs"
  shows "\<exists>r. r < low_bits bs \<and> bs \<noteq> [] \<and> length bs \<le> 3 \<and> b64_text r bs = [w, x, y, z]"
proof -
  have v: "base64_ascii_to_bin w \<noteq> 255" "base64_ascii_to_bin x \<noteq> 255" "base64_ascii_to_bin y \<noteq> 255" "base64_ascii_to_bin z \<noteq> 255"
    using assms by (auto simp: quad_pad split: if_splits)
  have np: "w \<noteq> 61" "x \<noteq> 61" "y = 61 \<Longrightarrow> z = 61" using assms by (auto simp: quad_pad Let_def split: if_splits)
  obtain i where w: "i < 64" "w = b64_char i" using v(1) np(1) by (cases w rule: b64_char_cases) auto
  obtain j where x: "j < 64" "x = b64_char j" using v(2) np(2) by (cases x rule: b64_char_cases) auto
  show ?thesis
  proof (cases "y = 61")
    case True
    with np have z: "z = 61" by simp
    define m where "m = i * 64 + j"
    have m: "m < 4096" using w(1) x(1) unfolding m_def by linarith
    have "bs = [word_of_nat (m * 4096 div 65536 mod 256)]"
      using assms quad_chars(3) [OF w(1) x(1), of 0 0] by (simp add: w x True z Let_def m_def)
    moreover have "m * 4096 div 65536 = m div 16" using div_mult2_eq [of "m * 4096" 4096 16] by simp
    moreover have "m div 16 < 256" using m by linarith
    ultimately have bs: "bs = [word_of_nat (m div 16)]" "unat (word_of_nat (m div 16) :: u8) = m div 16"
      by (simp_all add: unat_of_nat)
    have "m div 64 = i" "m mod 64 = j" unfolding m_def by (rule split_base [OF x(1)])+
    then have "b64_text (m mod 16) bs = [w, x, y, z]" by (simp add: bs Let_def w x True z)
    then show ?thesis by (intro exI [of _ "m mod 16"]) (simp add: bs(1) low_bits_def)
  next
    case False
    then obtain k where y: "k < 64" "y = b64_char k" using v(3) by (cases y rule: b64_char_cases) auto
    show ?thesis
    proof (cases "z = 61")
      case True
      define m where "m = (i * 64 + j) * 64 + k"
      have "m = i * 4096 + j * 64 + k" by (simp add: m_def)
      then have m: "m < 262144" using w(1) x(1) y(1) by linarith
      have "bs = [word_of_nat (m * 64 div 65536 mod 256), word_of_nat (m * 64 div 256 mod 256)]"
        using assms quad_chars(2) [OF w(1) x(1) y(1), of 0] unfolding w(2) x(2) y(2) True Let_def m_def by simp
      moreover have "m * 64 div 65536 = m div 1024" "m * 64 div 256 = m div 4"
        using div_mult2_eq [of "m * 64" 64 1024] div_mult2_eq [of "m * 64" 64 4] by simp_all
      moreover have "m div 1024 < 256" using m by linarith
      ultimately have bs: "bs = [word_of_nat (m div 1024), word_of_nat (m div 4 mod 256)]"
        "unat (word_of_nat (m div 1024) :: u8) = m div 1024" "unat (word_of_nat (m div 4 mod 256) :: u8) = m div 4 mod 256"
        by (simp_all add: unat_of_nat)
      have d: "m div 64 = i * 64 + j" "m mod 64 = k" unfolding m_def by (rule split_base [OF y(1)])+
      have e: "(i * 64 + j) div 64 = i" "(i * 64 + j) mod 64 = j" by (rule split_base [OF x(1)])+
      have n: "(m div 1024 * 256 + m div 4 mod 256) * 4 + m mod 4 = m"
        using div_mult2_eq [of m 4 256] div_mult_mod_eq [of "m div 4" 256] div_mult_mod_eq [of m 4] by simp
      have "m div 4096 = i" using div_mult2_eq [of m 64 64] d e by simp
      then have "b64_text (m mod 4) bs = [w, x, y, z]"
        unfolding bs(1) b64_text.simps Let_def bs(2,3) n by (simp add: w x y True d e)
      then show ?thesis by (intro exI [of _ "m mod 4"]) (simp add: bs(1) low_bits_def)
    next
      case zc: False
      then obtain l where z: "l < 64" "z = b64_char l" using v(4) by (cases z rule: b64_char_cases) auto
      define m where "m = ((i * 64 + j) * 64 + k) * 64 + l"
      note d = digits_64 [OF w(1) x(1) y(1) z(1) m_def]
      have bs: "bs = [word_of_nat (m div 65536 mod 256), word_of_nat (m div 256 mod 256), word_of_nat (m mod 256)]"
        using assms quad_chars(1) [OF w(1) x(1) y(1) z(1)] unfolding w(2) x(2) y(2) z(2) Let_def m_def by simp
      have u: "unat (word_of_nat (q mod 256) :: u8) = q mod 256" for q by (simp add: unat_of_nat)
      have "b64_text 0 bs = [w, x, y, z]"
        unfolding bs b64_text.simps Let_def u join_256 [OF d(5), symmetric] d by (simp add: w x y z)
      then show ?thesis by (intro exI [of _ 0]) (simp add: bs low_bits_def)
    qed
  qed
qed

section \<open>Decoding a text\<close>

lemma b64_text_quad:
  assumes "length bs = 3" shows "\<exists>q0 q1 q2 q3. b64_text 0 bs = [q0, q1, q2, q3] \<and> (\<forall>r rest. b64_text r (bs @ rest) = [q0, q1, q2, q3] @ b64_text r rest)"
proof -
  from assms obtain a b c where "bs = [a, b, c]" by (auto simp: numeral_3_eq_3 length_Suc_conv)
  then show ?thesis by (simp add: Let_def)
qed

lemma low_bits_append: "length bs = 3 \<Longrightarrow> low_bits (bs @ rest) = low_bits rest"
  by (simp add: low_bits_def)

lemma decode_loop_text: "r < low_bits bs \<Longrightarrow> decode_base64_loop (b64_text r bs) = Some bs"
proof (induction bs rule: length_induct)
  case (1 bs)
  show ?case
  proof (cases "length bs \<le> 3")
    case True
    show ?thesis
    proof (cases "bs = []")
      case nn: False
      then have "length (b64_text r bs) = 4" using True by (cases bs) (auto simp: length_b64_text)
      then obtain w x y z where q: "b64_text r bs = [w, x, y, z]" by (auto simp: numeral_eq_Suc length_Suc_conv)
      from quad_text [OF "1.prems" nn True q] show ?thesis by (simp add: q)
    qed simp
  next
    case False
    define h t where "h = take 3 bs" and "t = drop 3 bs"
    have h: "length h = 3" "bs = h @ t" "t \<noteq> []" using False by (simp_all add: h_def t_def)
    obtain q0 q1 q2 q3 where q: "b64_text 0 h = [q0, q1, q2, q3]" "b64_text r (h @ t) = [q0, q1, q2, q3] @ b64_text r t"
      using b64_text_quad [OF h(1)] by blast
    have "base64_decode_quad q0 q1 q2 q3 = Some h"
      by (rule quad_text [OF _ _ _ q(1)]) (use h in \<open>auto simp: low_bits_def\<close>)
    moreover have "decode_base64_loop (b64_text r t) = Some t"
      using "1.IH" "1.prems" h by (simp add: low_bits_append)
    ultimately show ?thesis using h q(2) by simp
  qed
qed

lemma decode_loop_sound:
  "length inp mod 4 = 0 \<Longrightarrow> decode_base64_loop inp = Some bs \<Longrightarrow> \<exists>r. r < low_bits bs \<and> inp = b64_text r bs"
proof (induction inp arbitrary: bs rule: decode_base64_loop.induct)
  case (1 w x y z inp)
  from "1.prems"(2) obtain h where q: "base64_decode_quad w x y z = Some h"
    and l: "length h = 3 \<or> inp = []" and m: "map_option (\<lambda>out. h @ out) (decode_base64_loop inp) = Some bs"
    by (auto split: option.splits if_splits)
  from m obtain t where t: "decode_base64_loop inp = Some t" "bs = h @ t" by auto
  obtain r0 where r0: "r0 < low_bits h" "h \<noteq> []" "length h \<le> 3" "b64_text r0 h = [w, x, y, z]" using quad_sound [OF q] by blast
  show ?case
  proof (cases "inp = []")
    case True
    with t r0 show ?thesis by auto
  next
    case False
    with l have h3: "length h = 3" by simp
    with r0(1) have r: "r0 = 0" by (simp add: low_bits_def)
    have "length inp mod 4 = 0" using "1.prems"(1) by (simp add: mod_Suc split: if_splits)
    then obtain r1 where r1: "r1 < low_bits t" "inp = b64_text r1 t" using "1.IH" [OF q _ _ t(1)] h3 by auto
    with b64_text_quad [OF h3] r0(4) r h3 t(2) show ?thesis by (intro exI [of _ r1]) (auto simp: low_bits_append)
  qed
qed (auto simp: low_bits_def)

lemma b64_lengths: "length (b64_text r bs) mod 4 = 0" "length bs \<le> length (b64_text r bs) div 4 * 3"
  by (simp_all add: length_b64_text)

end
