(* ===== verification/Base64_Stream.thy ===== *)
theory Base64_Stream
  imports Base64_Spec "HOL-Library.Code_Target_Nat"
begin

text \<open>
  The streaming interfaces of \<^verbatim>\<open>base64.c\<close>.  However the input is cut into pieces, the encoder writes the
  lines of the whole input, and the decoder gives what the one-shot decoder gives for the whole text
  without its white space.
\<close>

section \<open>Encoding in pieces\<close>

function b64_lines :: "bytes \<Rightarrow> bytes" where
  "b64_lines bs = (if bs = [] then [] else b64_text 0 (take 48 bs) @ [10] @ b64_lines (drop 48 bs))"
  by pat_completeness auto
termination
  by (relation "measure length") auto

declare b64_lines.simps [simp del]

lemma b64_lines_Nil [simp]: "b64_lines [] = []"
  by (simp add: b64_lines.simps)

lemma b64_lines_append: "length xs = 48 * n \<Longrightarrow> b64_lines (xs @ ys) = b64_lines xs @ b64_lines ys"
proof (induction n arbitrary: xs)
  case (Suc n)
  then have "xs \<noteq> []" "length (drop 48 xs) = 48 * n" "48 \<le> length xs" by auto
  with Suc.IH [of "drop 48 xs"] show ?case
    by (simp add: b64_lines.simps [of "xs @ ys"] b64_lines.simps [of xs])
qed simp

lemma encode_line_eq: "encode_line src = b64_text 0 src @ [10]"
  by (simp add: encode_line_def encode_block_text)

lemma b64_lines_block: "length xs = 48 \<Longrightarrow> b64_lines xs = encode_line xs"
  by (subst b64_lines.simps) (auto simp: encode_line_eq)

lemma update_loop_eq:
  "tot + 65 * (length inp div 48) < size_bound \<Longrightarrow> encode_update_loop tot inp
    = (b64_lines (take (48 * (length inp div 48)) inp), Some (tot + 65 * (length inp div 48)), drop (48 * (length inp div 48)) inp)"
proof (induction tot inp rule: encode_update_loop.induct)
  case (1 tot inp)
  show ?case
  proof (cases "48 \<le> length inp")
    case False
    then show ?thesis by (simp add: encode_update_loop.simps)
  next
    case True
    define q where "q = length (drop 48 inp) div 48"
    have q: "length inp div 48 = Suc q" using True by (simp add: q_def le_div_geq)
    have enc: "snd (EVP_EncodeBlock (take 48 inp)) = 64" using True by (simp add: encode_block_text length_b64_text)
    have bound: "tot + 65 + 65 * q < size_bound" using "1.prems" q by simp
    have sz: "size_add (size_add tot 64) 1 = tot + 65" using bound by simp
    have len: "length (take 48 inp) = 48" using True by simp
    have "encode_update_loop (tot + 65) (drop 48 inp)
        = (b64_lines (take (48 * q) (drop 48 inp)), Some (tot + 65 + 65 * q), drop (48 * q) (drop 48 inp))"
      using "1.IH" [OF True refl refl] bound unfolding enc sz q_def by simp
    moreover have "take (48 * Suc q) inp = take 48 inp @ take (48 * q) (drop 48 inp)"
      using take_add [of 48 "48 * q" inp] by simp
    then have "b64_lines (take (48 * Suc q) inp) = encode_line (take 48 inp) @ b64_lines (take (48 * q) (drop 48 inp))"
      using b64_lines_append [of "take 48 inp" 1] len by (simp add: b64_lines_block)
    ultimately show ?thesis
      using True unfolding q by (subst encode_update_loop.simps) (simp add: Let_def enc sz sz [unfolded One_nat_def] add.commute)
  qed
qed

text \<open>A context that holds the bytes \<open>p\<close> of an unfinished line.\<close>

definition enc_pending :: "evp_encode_ctx_st \<Rightarrow> bytes \<Rightarrow> bool" where
  "enc_pending ctx p \<longleftrightarrow> length p < 48 \<and> data_used ctx = length p \<and> length (ctx_data ctx) = 48
     \<and> take (length p) (ctx_data ctx) = p"

lemma encode_update_pending:
  assumes p: "enc_pending ctx p" and small: "length inp \<le> 1073741824" and u: "EVP_EncodeUpdate ctx inp = (ctx', out, n)"
  defines "k \<equiv> 48 * (length (p @ inp) div 48)"
  shows "enc_pending ctx' (drop k (p @ inp))" "out = b64_lines (take k (p @ inp))" "n = length out"
proof -
  have pl: "length p < 48" "data_used ctx = length p" "length (ctx_data ctx) = 48" "take (length p) (ctx_data ctx) = p"
    using p by (simp_all add: enc_pending_def)
  have len65: "length (b64_lines xs) = 65 * m" if "length xs = 48 * m" for xs m
    using that
  proof (induction m arbitrary: xs)
    case (Suc m)
    then have "xs \<noteq> []" "length (drop 48 xs) = 48 * m" "48 \<le> length xs" by auto
    with Suc.IH [of "drop 48 xs"] show ?case by (simp add: b64_lines.simps [of xs] length_b64_text)
  qed simp
  have lk: "length (take k (p @ inp)) = 48 * (length (p @ inp) div 48)" unfolding k_def by simp
  have "enc_pending ctx' (drop k (p @ inp)) \<and> out = b64_lines (take k (p @ inp)) \<and> n = length out"
  proof (cases "48 - data_used ctx > length inp")
    case True
    then have k: "k = 0" using pl by (simp add: k_def)
    show ?thesis
    proof (cases "inp = []")
      case True
      with u k p show ?thesis by (simp add: EVP_EncodeUpdate_def)
    next
      case False
      with True u pl k show ?thesis by (auto simp: EVP_EncodeUpdate_def enc_pending_def)
    qed
  next
    case False
    then have big: "48 \<le> length (p @ inp)" "inp \<noteq> []" using pl by auto
    define first where "first = (if p = [] then [] else p @ take (48 - length p) inp)"
    define rest where "rest = (if p = [] then inp else drop (48 - length p) inp)"
    define f where "f = (if p = [] then 0 else 1 :: nat)"
    have fr: "p @ inp = first @ rest" "length first = 48 * f"
      using False pl by (auto simp: first_def rest_def f_def)
    define q where "q = length rest div 48"
    have kq: "k = 48 * (f + q)" unfolding k_def fr by (simp add: fr(2) q_def)
    have "length rest \<le> length inp" by (simp add: rest_def)
    with small have "length rest \<le> 1073741824" by simp
    then have "q \<le> 22369622" "f \<le> 1" by (simp_all add: q_def f_def)
    then have bound: "65 * f + 65 * q < size_bound" "65 * f + 65 * q \<le> INT_MAX" by linarith+
    have loop: "encode_update_loop (65 * f) rest = (b64_lines (take (48 * q) rest), Some (65 * f + 65 * q), drop (48 * q) rest)"
      using update_loop_eq [of "65 * f" rest] bound unfolding q_def by simp
    define ctx1 where "ctx1 = (if p = [] then ctx else ctx\<lparr>ctx_data := first, data_used := 0\<rparr>)"
    have r: "EVP_EncodeUpdate ctx inp
        = (ctx1\<lparr>ctx_data := drop (48 * q) rest @ drop (length (drop (48 * q) rest)) (ctx_data ctx1), data_used := length (drop (48 * q) rest)\<rparr>,
           b64_lines first @ b64_lines (take (48 * q) rest), 65 * f + 65 * q)"
    proof (cases "p = []")
      case True
      then have "data_used ctx = 0" "first = []" "rest = inp" "f = 0" "ctx1 = ctx"
        using pl by (simp_all add: first_def rest_def f_def ctx1_def)
      with False big loop bound show ?thesis by (simp add: EVP_EncodeUpdate_def)
    next
      case np: False
      have fl: "length first = 48" using fr(2) np by (simp add: f_def)
      have enc: "snd (EVP_EncodeBlock first) + 1 = 65 * f" using fl np by (simp add: encode_block_text length_b64_text f_def)
      have c: "take (data_used ctx) (ctx_data ctx) @ take (48 - data_used ctx) inp = first" "drop (48 - data_used ctx) inp = rest"
        "data_used ctx \<noteq> 0" "ctx1 = ctx\<lparr>ctx_data := first, data_used := 0\<rparr>"
        using pl np by (simp_all add: first_def rest_def ctx1_def)
      have l0: "length inp \<noteq> 0" using big by simp
      show ?thesis
        unfolding EVP_EncodeUpdate_def if_not_P [OF l0] if_not_P [OF False] Let_def if_P [OF c(3)] c(1,2) prod.case enc loop
        using bound by (simp add: c(4) b64_lines_block [OF fl])
    qed
    have drest: "length (drop (48 * q) rest) < 48" unfolding q_def by simp
    have "length (ctx_data ctx1) = 48" using pl fr(2) by (simp add: ctx1_def f_def)
    then have "enc_pending ctx' (drop (48 * q) rest)" using r u drest by (auto simp: enc_pending_def)
    moreover have "drop k (p @ inp) = drop (48 * q) rest" "take k (p @ inp) = first @ take (48 * q) rest"
      unfolding kq fr using fr(2) by (simp_all add: algebra_simps)
    moreover have "b64_lines (first @ take (48 * q) rest) = b64_lines first @ b64_lines (take (48 * q) rest)"
      by (rule b64_lines_append [OF fr(2)])
    moreover have "n = 65 * (f + q)" "out = b64_lines first @ b64_lines (take (48 * q) rest)" using r u by simp_all
    moreover have "length (b64_lines (take k (p @ inp))) = 65 * (f + q)"
      using len65 [OF lk] kq by (simp add: k_def)
    ultimately show ?thesis by simp
  qed
  then show "enc_pending ctx' (drop k (p @ inp))" "out = b64_lines (take k (p @ inp))" "n = length out" by simp_all
qed

text \<open>The encoder as it is used: the bytes it announces after every piece, and those of the final call.\<close>

fun encode_pieces :: "evp_encode_ctx_st \<Rightarrow> bytes list \<Rightarrow> bytes" where
  "encode_pieces ctx [] = (case EVP_EncodeFinal ctx of (_, out, n) \<Rightarrow> take n out)"
| "encode_pieces ctx (inp # inps) = (case EVP_EncodeUpdate ctx inp of (ctx, out, n) \<Rightarrow> take n out @ encode_pieces ctx inps)"

lemma encode_pieces_pending:
  assumes "enc_pending ctx p" "\<forall>inp\<in>set inps. length inp \<le> 1073741824"
  shows "encode_pieces ctx inps = b64_lines (p @ concat inps)"
  using assms
proof (induction inps arbitrary: ctx p)
  case Nil
  show ?case
  proof (cases "p = []")
    case False
    with Nil have "take (data_used ctx) (ctx_data ctx) = p" "data_used ctx \<noteq> 0" "length p < 48"
      by (auto simp: enc_pending_def)
    with False show ?thesis
      by (simp add: EVP_EncodeFinal_def encode_block_text b64_lines.simps [of p])
  qed (use Nil in \<open>simp add: EVP_EncodeFinal_def enc_pending_def\<close>)
next
  case (Cons inp inps)
  obtain ctx' out n where u: "EVP_EncodeUpdate ctx inp = (ctx', out, n)" by (metis prod_cases3)
  define k where "k = 48 * (length (p @ inp) div 48)"
  have small: "length inp \<le> 1073741824" using Cons.prems by simp
  note e = encode_update_pending [OF Cons.prems(1) small u, folded k_def]
  have "length (take k (p @ inp)) = 48 * (length (p @ inp) div 48)" unfolding k_def by simp
  moreover have "p @ inp @ concat inps = take k (p @ inp) @ (drop k (p @ inp) @ concat inps)"
    by (metis append.assoc append_take_drop_id)
  ultimately have "b64_lines (p @ inp @ concat inps) = b64_lines (take k (p @ inp)) @ b64_lines (drop k (p @ inp) @ concat inps)"
    by (metis b64_lines_append)
  then show ?case
    using Cons.IH [OF e(1)] Cons.prems e(2,3) by (simp add: u)
qed

lemma encode_init_pending: "enc_pending (EVP_EncodeInit ctx) []"
  by (simp add: enc_pending_def EVP_EncodeInit_def zero_ctx_def)

section \<open>Decoding in pieces\<close>

abbreviation b64_space :: "u8 \<Rightarrow> bool" where
  "b64_space c \<equiv> c \<in> {32, 9, 13, 10}"

text \<open>One byte that is not white space, before the end of the data.\<close>

definition push_byte :: "evp_encode_ctx_st \<Rightarrow> u8 \<Rightarrow> evp_encode_ctx_st" where
  "push_byte ctx c = ctx\<lparr>ctx_data := (ctx_data ctx)[data_used ctx := c], data_used := data_used ctx + 1\<rparr>"

definition after_quad :: "evp_encode_ctx_st \<Rightarrow> bytes \<Rightarrow> evp_encode_ctx_st" where
  "after_quad ctx b = ctx\<lparr>data_used := 0, eof_seen := (if length b < 3 then True else eof_seen ctx)\<rparr>"

abbreviation ctx_quad :: "evp_encode_ctx_st \<Rightarrow> bytes option" where
  "ctx_quad ctx \<equiv> base64_decode_quad (ctx_data ctx ! 0) (ctx_data ctx ! 1) (ctx_data ctx ! 2) (ctx_data ctx ! 3)"

lemma decode_loop_step:
  assumes "\<not> b64_space c" "\<not> eof_seen ctx"
  shows "data_used (push_byte ctx c) \<noteq> 4 \<Longrightarrow> decode_update_loop ctx (c # inp) = decode_update_loop (push_byte ctx c) inp"
    "data_used (push_byte ctx c) = 4 \<Longrightarrow> ctx_quad (push_byte ctx c) = None \<Longrightarrow>
       decode_update_loop ctx (c # inp) = (False, (push_byte ctx c)\<lparr>error_encountered := True\<rparr>, [])"
    "data_used (push_byte ctx c) = 4 \<Longrightarrow> ctx_quad (push_byte ctx c) = Some b \<Longrightarrow> decode_update_loop ctx (c # inp)
       = (case decode_update_loop (after_quad (push_byte ctx c) b) inp of (ok, ctx, out) \<Rightarrow> (ok, ctx, b @ out))"
  using assms by (simp_all add: push_byte_def after_quad_def)

lemma decode_loop_skip:
  "b64_space c \<Longrightarrow> decode_update_loop ctx (c # inp) = decode_update_loop ctx inp"
  "\<not> b64_space c \<Longrightarrow> eof_seen ctx \<Longrightarrow> decode_update_loop ctx (c # inp) = (False, ctx\<lparr>error_encountered := True\<rparr>, [])"
  by simp_all

declare decode_update_loop.simps(2) [simp del]

lemma decode_loop_induct [case_names Nil space eof byte bad quad]:
  assumes "\<And>ctx. P ctx []" "\<And>ctx c inp. b64_space c \<Longrightarrow> P ctx inp \<Longrightarrow> P ctx (c # inp)"
    "\<And>ctx c inp. \<not> b64_space c \<Longrightarrow> eof_seen ctx \<Longrightarrow> P ctx (c # inp)"
    "\<And>ctx c inp. \<not> b64_space c \<Longrightarrow> \<not> eof_seen ctx \<Longrightarrow> data_used (push_byte ctx c) \<noteq> 4 \<Longrightarrow> P (push_byte ctx c) inp \<Longrightarrow> P ctx (c # inp)"
    "\<And>ctx c inp. \<not> b64_space c \<Longrightarrow> \<not> eof_seen ctx \<Longrightarrow> data_used (push_byte ctx c) = 4 \<Longrightarrow> ctx_quad (push_byte ctx c) = None \<Longrightarrow>
       P ctx (c # inp)"
    "\<And>ctx c inp b. \<not> b64_space c \<Longrightarrow> \<not> eof_seen ctx \<Longrightarrow> data_used (push_byte ctx c) = 4 \<Longrightarrow> ctx_quad (push_byte ctx c) = Some b \<Longrightarrow>
       P (after_quad (push_byte ctx c) b) inp \<Longrightarrow> P ctx (c # inp)"
  shows "P ctx inp"
proof (induction inp arbitrary: ctx)
  case (Cons c inp)
  then show ?case using assms(2-6) by (metis option.exhaust)
qed (rule assms(1))

lemma decode_loop_append:
  "decode_update_loop ctx (xs @ ys) = (case decode_update_loop ctx xs of
     (False, c, out) \<Rightarrow> (False, c, out)
   | (True, c, out) \<Rightarrow> (case decode_update_loop c ys of (ok, c', out') \<Rightarrow> (ok, c', out @ out')))"
proof (induction ctx xs rule: decode_loop_induct)
  case (quad ctx c inp b)
  obtain ok c2 o2 where "decode_update_loop (after_quad (push_byte ctx c) b) inp = (ok, c2, o2)" by (metis prod_cases3)
  with quad(5) show ?case
    by (cases ok) (simp_all add: decode_loop_step(3) [OF quad(1-4)] split: prod.split)
next
  case (byte ctx c inp)
  then show ?case by (simp only: append_Cons decode_loop_step(1) [OF byte(1-3)])
next
  case (bad ctx c inp)
  then show ?case by (simp only: append_Cons decode_loop_step(2) [OF bad(1-4)] prod.case bool.case)
next
  case (space ctx c inp)
  then show ?case by (simp only: append_Cons decode_loop_skip(1) [OF space(1)])
next
  case (eof ctx c inp)
  then show ?case by (simp only: append_Cons decode_loop_skip(2) [OF eof(1,2)] prod.case bool.case)
qed (simp split: prod.split)

lemma decode_loop_strip: "decode_update_loop ctx inp = decode_update_loop ctx (filter (\<lambda>c. \<not> b64_space c) inp)"
proof (induction ctx inp rule: decode_loop_induct)
  case (quad ctx c inp b)
  then show ?case by (simp only: filter.simps if_True simp_thms decode_loop_step(3) [OF quad(1-4)])
next
  case (byte ctx c inp)
  then show ?case by (simp only: filter.simps if_True simp_thms decode_loop_step(1) [OF byte(1-3)])
next
  case (bad ctx c inp)
  then show ?case by (simp only: filter.simps if_True simp_thms decode_loop_step(2) [OF bad(1-4)])
next
  case (space ctx c inp)
  then show ?case by (simp only: filter.simps if_False simp_thms decode_loop_skip(1) [OF space(1)])
next
  case (eof ctx c inp)
  then show ?case by (simp only: filter.simps if_True simp_thms decode_loop_skip(2) [OF eof(1,2)])
qed simp

lemma quad_length: "base64_decode_quad w x y z = Some b \<Longrightarrow> length b \<le> 3"
  using quad_sound by blast

lemma decode_loop_flags:
  "decode_update_loop ctx inp = (ok, ctx', out) \<Longrightarrow> length (ctx_data ctx') = length (ctx_data ctx) \<and>
     (ok \<longrightarrow> error_encountered ctx' = error_encountered ctx) \<and> length out \<le> 3 * length inp"
proof (induction ctx inp arbitrary: ok ctx' out rule: decode_loop_induct)
  case (quad ctx c inp b)
  obtain ok2 c2 o2 where r: "decode_update_loop (after_quad (push_byte ctx c) b) inp = (ok2, c2, o2)" by (metis prod_cases3)
  with quad(6) decode_loop_step(3) [OF quad(1-4)] have e: "ok = ok2" "ctx' = c2" "out = b @ o2" by simp_all
  from quad(5) [OF r] quad_length [OF quad(4)] show ?case unfolding e by (simp add: push_byte_def after_quad_def)
next
  case (byte ctx c inp)
  have "decode_update_loop (push_byte ctx c) inp = (ok, ctx', out)" using byte(5) decode_loop_step(1) [OF byte(1-3)] by simp
  from byte(4) [OF this] show ?case by (simp add: push_byte_def)
next
  case (bad ctx c inp)
  then show ?case using decode_loop_step(2) [OF bad(1-4)] by (auto simp: push_byte_def)
next
  case (space ctx c inp)
  then show ?case using decode_loop_skip(1) [OF space(1), of ctx inp] by fastforce
next
  case (eof ctx c inp)
  then show ?case using decode_loop_skip(2) [OF eof(1,2), of inp] by auto
qed simp

text \<open>The decoder as it is used.\<close>

fun decode_pieces :: "evp_encode_ctx_st \<Rightarrow> bytes list \<Rightarrow> bytes option" where
  "decode_pieces ctx [] = (if EVP_DecodeFinal ctx = 1 then Some [] else None)"
| "decode_pieces ctx (inp # inps)
     = (case EVP_DecodeUpdate ctx inp of
          (r, ctx, out, n) \<Rightarrow> if r = - 1 then None else map_option (\<lambda>rest. take n out @ rest) (decode_pieces ctx inps))"

definition decode_whole :: "evp_encode_ctx_st \<Rightarrow> bytes \<Rightarrow> bytes option" where
  "decode_whole ctx inp = (case decode_update_loop ctx inp of
     (ok, ctx', out) \<Rightarrow> if ok \<and> data_used ctx' = 0 then Some out else None)"

lemma decode_pieces_whole:
  assumes "\<not> error_encountered ctx" "\<forall>inp\<in>set inps. length inp \<le> 536870912"
  shows "decode_pieces ctx inps = decode_whole ctx (concat inps)"
  using assms
proof (induction inps arbitrary: ctx)
  case Nil
  then show ?case by (simp add: EVP_DecodeFinal_def decode_whole_def)
next
  case (Cons inp inps)
  obtain ok ctx1 out where l: "decode_update_loop ctx inp = (ok, ctx1, out)" by (metis prod_cases3)
  note fl = decode_loop_flags [OF l]
  show ?case
  proof (cases ok)
    case False
    with l Cons.prems show ?thesis by (simp add: EVP_DecodeUpdate_def decode_whole_def decode_loop_append)
  next
    case True
    have "length out \<le> INT_MAX" using fl Cons.prems(2) by simp
    then have "EVP_DecodeUpdate ctx inp = (if eof_seen ctx1 then 0 else 1, ctx1, out, length out)"
      using l True Cons.prems(1) by (simp add: EVP_DecodeUpdate_def)
    moreover have "decode_whole ctx (inp @ concat inps) = map_option (\<lambda>rest. out @ rest) (decode_whole ctx1 (concat inps))"
      using l True by (simp add: decode_whole_def decode_loop_append split: prod.split)
    moreover have "decode_pieces ctx1 inps = decode_whole ctx1 (concat inps)"
      using Cons.IH fl True Cons.prems by simp
    ultimately show ?thesis by simp
  qed
qed

text \<open>Four bytes, and fewer than four.\<close>

lemma decode_quad_step:
  assumes "data_used ctx = 0" "4 \<le> length (ctx_data ctx)" "\<not> eof_seen ctx" "\<forall>c\<in>set [w, x, y, z]. \<not> b64_space c"
  shows "\<exists>d. length d = length (ctx_data ctx) \<and> decode_update_loop ctx (w # x # y # z # rest)
    = (case base64_decode_quad w x y z of
         None \<Rightarrow> (False, ctx\<lparr>data_used := 4, ctx_data := d, error_encountered := True\<rparr>, [])
       | Some b \<Rightarrow> (case decode_update_loop (after_quad (ctx\<lparr>data_used := 4, ctx_data := d\<rparr>) b) rest of
                     (ok, c, out) \<Rightarrow> (ok, c, b @ out)))"
proof -
  define d where "d = (ctx_data ctx)[0 := w, 1 := x, 2 := y, 3 := z]"
  have "0 < length (ctx_data ctx)" "1 < length (ctx_data ctx)" "2 < length (ctx_data ctx)" "3 < length (ctx_data ctx)"
    using assms(2) by linarith+
  then have dn: "d ! 0 = w" "d ! 1 = x" "d ! 2 = y" "d ! 3 = z" by (simp_all add: d_def nth_list_update)
  have n: "\<not> b64_space w" "\<not> b64_space x" "\<not> b64_space y" "\<not> b64_space z" using assms(4) by simp_all
  let ?c1 = "push_byte ctx w" let ?c2 = "push_byte ?c1 x" let ?c3 = "push_byte ?c2 y" let ?c4 = "push_byte ?c3 z"
  have u: "data_used ?c1 = 1" "data_used ?c2 = 2" "data_used ?c3 = 3" "data_used ?c4 = 4"
    and e: "\<not> eof_seen ?c1" "\<not> eof_seen ?c2" "\<not> eof_seen ?c3" using assms(1,3) by (simp_all add: push_byte_def)
  have c4: "?c4 = ctx\<lparr>data_used := 4, ctx_data := d\<rparr>" using assms(1) by (simp add: push_byte_def d_def eval_nat_numeral)
  have q: "ctx_quad ?c4 = base64_decode_quad w x y z" unfolding c4 by (simp add: dn del: One_nat_def)
  have "decode_update_loop ctx (w # x # y # z # rest) = decode_update_loop ?c3 (z # rest)"
    using decode_loop_step(1) [OF n(1) assms(3)] decode_loop_step(1) [OF n(2) e(1)] decode_loop_step(1) [OF n(3) e(2)] u by simp
  also have "\<dots> = (case base64_decode_quad w x y z of
         None \<Rightarrow> (False, ?c4\<lparr>error_encountered := True\<rparr>, [])
       | Some b \<Rightarrow> (case decode_update_loop (after_quad ?c4 b) rest of (ok, c, out) \<Rightarrow> (ok, c, b @ out)))"
    using decode_loop_step(2) [OF n(4) e(3) u(4)] decode_loop_step(3) [OF n(4) e(3) u(4)] unfolding q
    by (simp split: option.split)
  finally show ?thesis unfolding c4 by (intro exI [of _ d]) (simp add: d_def)
qed

lemma decode_short:
  assumes "data_used ctx + length inp < 4" "\<not> eof_seen ctx" "\<forall>c\<in>set inp. \<not> b64_space c"
  shows "\<exists>d. decode_update_loop ctx inp = (True, ctx\<lparr>ctx_data := d, data_used := data_used ctx + length inp\<rparr>, [])"
  using assms
proof (induction inp arbitrary: ctx)
  case Nil
  then show ?case by (intro exI [of _ "ctx_data ctx"]) simp
next
  case (Cons c inp)
  have p: "data_used (push_byte ctx c) = data_used ctx + 1" "eof_seen (push_byte ctx c) = eof_seen ctx"
    "(push_byte ctx c)\<lparr>ctx_data := d, data_used := n\<rparr> = ctx\<lparr>ctx_data := d, data_used := n\<rparr>" for d n
    by (simp_all add: push_byte_def)
  from Cons.IH [of "push_byte ctx c"] obtain d where
    "decode_update_loop (push_byte ctx c) inp = (True, ctx\<lparr>ctx_data := d, data_used := data_used ctx + length (c # inp)\<rparr>, [])"
    using Cons.prems unfolding p by auto
  moreover have "decode_update_loop ctx (c # inp) = decode_update_loop (push_byte ctx c) inp"
    by (rule decode_loop_step(1)) (use Cons.prems p in auto)
  ultimately show ?case by auto
qed

lemma decode_whole_eq:
  assumes "data_used ctx = 0" "4 \<le> length (ctx_data ctx)" "\<not> eof_seen ctx" "\<forall>c\<in>set inp. \<not> b64_space c"
  shows "decode_whole ctx inp = (if length inp mod 4 = 0 then decode_base64_loop inp else None)"
  using assms
proof (induction inp arbitrary: ctx rule: length_induct)
  case (1 inp)
  show ?case
  proof (cases "length inp < 4")
    case True
    obtain d where "decode_update_loop ctx inp = (True, ctx\<lparr>ctx_data := d, data_used := length inp\<rparr>, [])"
      using decode_short [of ctx inp] True "1.prems" by auto
    with True "1.prems"(1) show ?thesis by (cases "inp = []") (simp_all add: decode_whole_def)
  next
    case False
    then obtain w x y z rest where inp: "inp = w # x # y # z # rest"
      by (cases inp rule: decode_base64_loop.cases) auto
    obtain d where d: "length d = length (ctx_data ctx)" "decode_update_loop ctx inp
      = (case base64_decode_quad w x y z of
         None \<Rightarrow> (False, ctx\<lparr>data_used := 4, ctx_data := d, error_encountered := True\<rparr>, [])
       | Some b \<Rightarrow> (case decode_update_loop (after_quad (ctx\<lparr>data_used := 4, ctx_data := d\<rparr>) b) rest of
                     (ok, c, out) \<Rightarrow> (ok, c, b @ out)))"
      using decode_quad_step [of ctx w x y z rest] "1.prems" unfolding inp by auto
    show ?thesis
    proof (cases "base64_decode_quad w x y z")
      case None
      then show ?thesis using d(2) by (simp add: decode_whole_def inp)
    next
      case (Some b)
      define ctx1 where "ctx1 = after_quad (ctx\<lparr>data_used := 4, ctx_data := d\<rparr>) b"
      have w: "decode_whole ctx inp = map_option (\<lambda>out. b @ out) (decode_whole ctx1 rest)"
        using d(2) Some by (simp add: decode_whole_def ctx1_def split: prod.split)
      show ?thesis
      proof (cases "length b = 3")
        case True
        then have "decode_whole ctx1 rest = (if length rest mod 4 = 0 then decode_base64_loop rest else None)"
          using "1.IH" "1.prems" d(1) by (simp add: inp ctx1_def after_quad_def)
        then show ?thesis unfolding w using Some True by (simp add: inp mod_Suc split: if_splits)
      next
        case False
        with quad_length [OF Some] have eof: "eof_seen ctx1" by (simp add: ctx1_def after_quad_def)
        show ?thesis
        proof (cases rest)
          case Nil
          then show ?thesis unfolding w using Some False by (simp add: inp decode_whole_def ctx1_def after_quad_def)
        next
          case (Cons c rest')
          then have "\<not> b64_space c" using "1.prems"(4) inp by auto
          with eof Cons have "decode_whole ctx1 rest = None" by (simp add: decode_whole_def decode_loop_skip(2))
          then show ?thesis unfolding w using Some False Cons by (simp add: inp)
        qed
      qed
    qed
  qed
qed

section \<open>Properties\<close>

text \<open>
  C25: The one-shot decoder succeeds, given room for three bytes per quad, on exactly the texts of byte
  strings with padding (the unused low bits before the padding may be anything), and gives that string.
\<close>
theorem base64_decoder_exact:
  assumes "length inp < size_bound"
  shows "EVP_DecodeBase64 max_out inp = Some bs \<longleftrightarrow>
    length inp div 4 * 3 \<le> max_out \<and> (\<exists>r. r < low_bits bs \<and> inp = b64_text r bs)"
proof -
  have dl: "EVP_DecodedLength (length inp) = Some (length inp div 4 * 3)" if "length inp mod 4 = 0"
    using that assms by (simp add: EVP_DecodedLength_def)
  show ?thesis
  proof (cases "length inp mod 4 = 0 \<and> length inp div 4 * 3 \<le> max_out")
    case True
    then show ?thesis
      using decode_loop_sound [of inp bs] decode_loop_text by (auto simp: EVP_DecodeBase64_def dl)
  next
    case False
    then show ?thesis by (auto simp: EVP_DecodeBase64_def dl b64_lengths)
  qed
qed

lemma base64_decoder_exact_witness:
  "EVP_DecodeBase64 3 [81, 82, 61, 61] = Some [65] \<and> 1 < low_bits [65 :: u8]
    \<and> (\<exists>r. r < low_bits [65] \<and> [81, 82, 61, 61] = b64_text r [65])"
proof -
  have "EVP_DecodeBase64 3 [81, 82, 61, 61] = Some [65]" by code_simp
  moreover have "1 < low_bits [65 :: u8]" by (simp add: low_bits_def)
  ultimately show ?thesis using base64_decoder_exact [of "[81, 82, 61, 61]" 3 "[65]"] by simp
qed

text \<open>
  C26: The encoder writes the canonical text and a zero byte, exactly as many bytes as announced, and the
  decoder gives the input back.
\<close>
theorem base64_block_roundtrip:
  assumes "length src \<le> 4611686018427387904"
  shows "EVP_EncodeBlock src = (b64_text 0 src @ [0], length (b64_text 0 src))
    \<and> EVP_EncodedLength (length src) = Some (length (b64_text 0 src) + 1)
    \<and> EVP_DecodedLength (length (b64_text 0 src)) \<noteq> None
    \<and> EVP_DecodeBase64 (length (b64_text 0 src) div 4 * 3) (b64_text 0 src) = Some src"
proof -
  have "(length src + 2) div 3 \<le> 1537228672809129302" using assms by linarith
  then have b: "(length src + 2) div 3 * 4 + 1 < size_bound" by linarith
  have l: "length (b64_text 0 src) = (length src + 2) div 3 * 4" by (rule length_b64_text)
  have a: "size_add (length src) 2 = length src + 2" "size_mul ((length src + 2) div 3) 4 = (length src + 2) div 3 * 4"
    "size_add ((length src + 2) div 3 * 4) 1 = (length src + 2) div 3 * 4 + 1"
    by (rule size_add_exact size_mul_exact; use assms b in linarith)+
  have "EVP_EncodedLength (length src) = Some (length (b64_text 0 src) + 1)"
    unfolding EVP_EncodedLength_def Let_def a l by simp
  moreover have "0 < low_bits src" by (simp add: low_bits_def)
  then have "decode_base64_loop (b64_text 0 src) = Some src" by (rule decode_loop_text)
  ultimately show ?thesis
    using b by (simp add: encode_block_text EVP_DecodeBase64_def EVP_DecodedLength_def l)
qed

lemma base64_block_roundtrip_witness:
  "EVP_EncodeBlock [72, 105] = ([83, 71, 107, 61, 0], 4) \<and> EVP_DecodeBase64 3 [83, 71, 107, 61] = Some [72, 105]"
proof -
  have "b64_text 0 [72, 105] = [83, 71, 107, 61]" by code_simp
  with base64_block_roundtrip [of "[72, 105]"] show ?thesis by simp
qed

text \<open>
  C27: However the input is cut into pieces, the streaming encoder writes the lines of the whole input:
  the text of every 48 bytes, and of what is left, each ended by a newline.
\<close>
theorem base64_stream_encodes:
  assumes "\<forall>inp\<in>set inps. length inp \<le> 1073741824"
  shows "encode_pieces (EVP_EncodeInit ctx) inps = b64_lines (concat inps)"
  using encode_pieces_pending [OF encode_init_pending assms] by simp

lemma base64_stream_encodes_witness:
  "encode_pieces (EVP_EncodeInit zero_ctx) [[72], [], [105, 33]] = [83, 71, 107, 104, 10]"
proof -
  have "b64_lines [72, 105, 33] = [83, 71, 107, 104, 10]" by code_simp
  with base64_stream_encodes [of "[[72], [], [105, 33]]" zero_ctx] show ?thesis by simp
qed

lemma b64_text_append: "3 dvd length xs \<Longrightarrow> b64_text r (xs @ ys) = b64_text 0 xs @ b64_text r ys"
proof (induction "length xs div 3" arbitrary: xs)
  case 0
  then have "xs = []" by (cases xs) (auto simp: dvd_def)
  then show ?case by simp
next
  case (Suc n)
  then obtain a b c t where xs: "xs = a # b # c # t" by (cases "(0 :: nat, xs)" rule: b64_text.cases) auto
  have "n = length t div 3" using Suc.hyps(2) xs by simp
  moreover have "3 dvd length t" using Suc.prems unfolding xs by (simp, presburger)
  ultimately have "b64_text r (t @ ys) = b64_text 0 t @ b64_text r ys" by (rule Suc.hyps(1))
  then show ?case by (simp add: xs Let_def)
qed

lemma b64_char_not_space: "\<not> b64_space (b64_char n)"
proof (cases "n < 64")
  case True
  then show ?thesis by (rule b64_char_not_pad(2))
next
  case False
  then show ?thesis by (simp add: b64_char_def)
qed

lemma b64_lines_text: "filter (\<lambda>c. \<not> b64_space c) (b64_lines bs) = b64_text 0 bs"
proof (induction bs rule: length_induct)
  case (1 bs)
  have chars: "filter (\<lambda>c. \<not> b64_space c) (b64_text 0 xs) = b64_text 0 xs" for xs
  proof (rule filter_True)
    show "\<forall>c\<in>set (b64_text 0 xs). \<not> b64_space c"
      by (induction "0 :: nat" xs rule: b64_text.induct) (use b64_char_not_space in \<open>simp_all add: Let_def\<close>)
  qed
  show ?case
  proof (cases "length bs \<le> 48")
    case True
    then show ?thesis by (subst b64_lines.simps) (simp add: chars [simplified])
  next
    case False
    then have "filter (\<lambda>c. \<not> b64_space c) (b64_lines (drop 48 bs)) = b64_text 0 (drop 48 bs)" using 1 by simp
    moreover have "b64_text 0 bs = b64_text 0 (take 48 bs) @ b64_text 0 (drop 48 bs)"
      using b64_text_append [of "take 48 bs" 0 "drop 48 bs"] False by simp
    ultimately show ?thesis using False by (subst b64_lines.simps) (auto simp: chars [simplified])
  qed
qed

text \<open>
  C28: However the text is cut into pieces, the streaming decoder accepts it exactly if it is, without its
  white space, the text of a byte string, and gives that string; so it undoes the streaming encoder.
\<close>
theorem base64_stream_decodes:
  assumes "\<forall>inp\<in>set inps. length inp \<le> 536870912"
  shows "(decode_pieces (EVP_DecodeInit ctx) inps = Some bs \<longleftrightarrow>
      (\<exists>r. r < low_bits bs \<and> filter (\<lambda>c. \<not> b64_space c) (concat inps) = b64_text r bs))
    \<and> (concat inps = b64_lines bs \<longrightarrow> decode_pieces (EVP_DecodeInit ctx) inps = Some bs)"
proof -
  let ?t = "filter (\<lambda>c. \<not> b64_space c) (concat inps)"
  have "decode_pieces (EVP_DecodeInit ctx) inps = decode_whole zero_ctx (concat inps)"
    using decode_pieces_whole [of zero_ctx inps] assms by (simp add: EVP_DecodeInit_def zero_ctx_def)
  also have "\<dots> = decode_whole zero_ctx ?t" unfolding decode_whole_def by (subst decode_loop_strip) (rule refl)
  also have "\<dots> = (if length ?t mod 4 = 0 then decode_base64_loop ?t else None)"
    by (rule decode_whole_eq) (auto simp: zero_ctx_def)
  finally have e: "decode_pieces (EVP_DecodeInit ctx) inps = \<dots>" .
  have iff: "decode_pieces (EVP_DecodeInit ctx) inps = Some bs \<longleftrightarrow> (\<exists>r. r < low_bits bs \<and> ?t = b64_text r bs)"
  proof (cases "length ?t mod 4 = 0")
    case True
    then have "decode_pieces (EVP_DecodeInit ctx) inps = decode_base64_loop ?t" using e by simp
    with decode_loop_sound [OF True, of bs] decode_loop_text [of _ bs] show ?thesis by metis
  next
    case False
    then have "decode_pieces (EVP_DecodeInit ctx) inps = None" using e by simp
    moreover have "?t \<noteq> b64_text r bs" for r using False b64_lengths(1) by metis
    ultimately show ?thesis by simp
  qed
  moreover have "\<exists>r. r < low_bits bs \<and> ?t = b64_text r bs" if "concat inps = b64_lines bs"
    unfolding that b64_lines_text by (intro exI [of _ 0]) (simp add: low_bits_def)
  ultimately show ?thesis by blast
qed

lemma base64_stream_decodes_witness:
  "decode_pieces (EVP_DecodeInit zero_ctx) [[83, 71], [107, 10, 104], [32]] = Some [72, 105, 33]"
proof -
  have "filter (\<lambda>c. \<not> b64_space c) (concat [[83, 71], [107, 10, 104], [32 :: u8]]) = b64_text 0 [72, 105, 33]" by code_simp
  then show ?thesis
    using base64_stream_decodes [of "[[83, 71], [107, 10, 104], [32]]" zero_ctx "[72, 105, 33]"]
    by (auto simp: low_bits_def)
qed

text \<open>
  \<^verbatim>\<open>EVP_DecodeBlock\<close> trims white space only, not the minus signs that \<^verbatim>\<open>base64.h\<close> mentions.
\<close>
lemma decode_block_keeps_minus:
  "EVP_DecodeBlock [83, 71, 107, 104, 32] = (3, [72, 105, 33])" "EVP_DecodeBlock [83, 71, 107, 104, 45] = (- 1, [])"
  by code_simp+

end
