(* ===== verification/Bio.thy ===== *)
theory Bio
  imports Cbb "HOL-Library.Monad_Syntax"
begin

text \<open>
  \<^verbatim>\<open>crypto/bio/bio.c\<close> and \<^verbatim>\<open>crypto/refcount.c\<close>: the I/O abstraction.  A BIO is an object in a store, found
  by its address; its method table is a record of functions, as the C structure is a record of function
  pointers.  BUF_MEMs and the state of BIO pairs are objects of the store as well, so that two BIOs can
  share one.  The value \<open>None\<close> of an operation means that it does not return: it aborts, loops, or
  follows a pointer to an object that does not exist or was freed.
\<close>

section \<open>The store\<close>

definition BIO_FLAGS_READ :: u32 where "BIO_FLAGS_READ = 0x01"
definition BIO_FLAGS_WRITE :: u32 where "BIO_FLAGS_WRITE = 0x02"
definition BIO_FLAGS_IO_SPECIAL :: u32 where "BIO_FLAGS_IO_SPECIAL = 0x04"
definition BIO_FLAGS_RWS :: u32 where "BIO_FLAGS_RWS = (BIO_FLAGS_READ OR BIO_FLAGS_WRITE) OR BIO_FLAGS_IO_SPECIAL"
definition BIO_FLAGS_SHOULD_RETRY :: u32 where "BIO_FLAGS_SHOULD_RETRY = 0x08"
definition BIO_FLAGS_MEM_RDONLY :: u32 where "BIO_FLAGS_MEM_RDONLY = 0x200"

definition kRetryFlags :: u32 where "kRetryFlags = BIO_FLAGS_RWS OR BIO_FLAGS_SHOULD_RETRY"

definition BIO_CTRL_RESET :: int where "BIO_CTRL_RESET = 1"
definition BIO_CTRL_EOF :: int where "BIO_CTRL_EOF = 2"
definition BIO_CTRL_INFO :: int where "BIO_CTRL_INFO = 3"
definition BIO_CTRL_GET_CLOSE :: int where "BIO_CTRL_GET_CLOSE = 8"
definition BIO_CTRL_SET_CLOSE :: int where "BIO_CTRL_SET_CLOSE = 9"
definition BIO_CTRL_PENDING :: int where "BIO_CTRL_PENDING = 10"
definition BIO_CTRL_FLUSH :: int where "BIO_CTRL_FLUSH = 11"
definition BIO_CTRL_WPENDING :: int where "BIO_CTRL_WPENDING = 13"

text \<open>The methods of the library's own BIOs handled here, and those an application registers.\<close>

datatype bio_method = Mem_method | Pair_method | User_method nat

record bio_st =
  bio_method :: "bio_method option"
  bio_init :: int
  bio_shutdown :: int
  bio_flags :: u32
  bio_retry_reason :: int
  bio_num :: int
  bio_references :: u32
  bio_ptr :: "nat option"
  next_bio :: "nat option"
  num_read :: u64
  num_write :: u64

text \<open>
  \<^verbatim>\<open>data\<close> points into the memory object \<open>bm_data\<close>, \<open>bm_start\<close> bytes behind its beginning; only read-only
  BIOs move it.
\<close>

record buf_mem_st =
  bm_length :: nat
  bm_data :: "bytes option"
  bm_start :: nat
  bm_max :: nat

record bio_bio_st =
  bio_peer :: "nat option"
  bio_closed :: bool
  bio_len :: nat
  bio_offset :: nat
  bio_size :: nat
  bio_buf :: "bytes option"
  bio_request :: nat

text \<open>
  \<open>w_heap n\<close> says which sizes the \<open>n\<close>-th allocation is granted, \<open>w_fresh n\<close> what its memory holds.
\<close>

record world =
  bios :: "nat \<Rightarrow> bio_st option"
  bufs :: "nat \<Rightarrow> buf_mem_st option"
  pairs :: "nat \<Rightarrow> bio_bio_st option"
  w_next :: nat
  w_heap :: "nat \<Rightarrow> heap"
  w_fresh :: "nat \<Rightarrow> nat \<Rightarrow> u8"

definition w_malloc :: "nat \<Rightarrow> world \<Rightarrow> nat option \<times> world" where
  "w_malloc n w
     = (if OPENSSL_malloc (w_heap w (w_next w)) n then Some (w_next w) else None, w\<lparr>w_next := w_next w + 1\<rparr>)"

definition bio_upd :: "nat \<Rightarrow> (bio_st \<Rightarrow> bio_st) \<Rightarrow> world \<Rightarrow> world option" where
  "bio_upd b f w = do { bio \<leftarrow> bios w b; Some (w\<lparr>bios := (bios w)(b \<mapsto> f bio)\<rparr>) }"

definition buf_upd :: "nat \<Rightarrow> (buf_mem_st \<Rightarrow> buf_mem_st) \<Rightarrow> world \<Rightarrow> world option" where
  "buf_upd a f w = do { buf \<leftarrow> bufs w a; Some (w\<lparr>bufs := (bufs w)(a \<mapsto> f buf)\<rparr>) }"

definition pair_upd :: "nat \<Rightarrow> (bio_bio_st \<Rightarrow> bio_bio_st) \<Rightarrow> world \<Rightarrow> world option" where
  "pair_upd a f w = do { b \<leftarrow> pairs w a; Some (w\<lparr>pairs := (pairs w)(a \<mapsto> f b)\<rparr>) }"

text \<open>Conversions to the signed types \<^verbatim>\<open>int\<close> and \<^verbatim>\<open>long\<close>.\<close>

definition c_int :: "int \<Rightarrow> int" where "c_int x = sint (word_of_int x :: 32 word)"
definition c_long :: "int \<Rightarrow> int" where "c_long x = sint (word_of_int x :: 64 word)"

section \<open>Reference counts\<close>

definition CRYPTO_REFCOUNT_MAX :: u32 where "CRYPTO_REFCOUNT_MAX = 0xffffffff"

definition CRYPTO_refcount_inc :: "u32 \<Rightarrow> u32" where
  "CRYPTO_refcount_inc count = (if count \<noteq> CRYPTO_REFCOUNT_MAX then count + 1 else count)"

text \<open>Whether the count reached zero, and the new count; \<open>None\<close> when the code aborts.\<close>

definition CRYPTO_refcount_dec_and_test_zero :: "u32 \<Rightarrow> (bool \<times> u32) option" where
  "CRYPTO_refcount_dec_and_test_zero count
     = (if count = 0 then None
        else if count = CRYPTO_REFCOUNT_MAX then Some (False, count)
        else let new_value = count - 1 in Some (new_value = 0, new_value))"

section \<open>Method tables and dispatch\<close>

text \<open>The last argument of a control call, and what the call writes through it.\<close>

datatype ctrl_arg = No_arg | Out_arg | Int_arg int | Ref_arg nat
datatype ctrl_out = No_out | Data_out "bytes option" nat | Ref_out nat

record bio_method_st =
  method_type :: u32
  bwrite :: "(nat \<Rightarrow> bytes \<Rightarrow> world \<Rightarrow> (int \<times> world) option) option"
  bread :: "(nat \<Rightarrow> int \<Rightarrow> world \<Rightarrow> (int \<times> bytes \<times> world) option) option"
  bgets :: "(nat \<Rightarrow> int \<Rightarrow> world \<Rightarrow> (int \<times> bytes \<times> world) option) option"
  bctrl :: "(nat \<Rightarrow> int \<Rightarrow> int \<Rightarrow> ctrl_arg \<Rightarrow> world \<Rightarrow> (int \<times> ctrl_out \<times> world) option) option"
  bcreate :: "(nat \<Rightarrow> world \<Rightarrow> (bool \<times> world) option) option"
  bdestroy :: "(nat \<Rightarrow> world \<Rightarrow> world option) option"
  bcallback_ctrl :: "(nat \<Rightarrow> int \<Rightarrow> nat option \<Rightarrow> world \<Rightarrow> (int \<times> world) option) option"

type_synonym methods = "bio_method \<Rightarrow> bio_method_st"

text \<open>
  The test at the head of every dispatch: \<open>Some None\<close> when the BIO, its method or the entry is NULL, and
  otherwise the object and the function.
\<close>

definition bio_op :: "methods \<Rightarrow> (bio_method_st \<Rightarrow> 'f option) \<Rightarrow> nat option \<Rightarrow> world
    \<Rightarrow> (nat \<times> bio_st \<times> 'f) option option" where
  "bio_op tab sel bio w
     = (case bio of
          None \<Rightarrow> Some None
        | Some b \<Rightarrow> do { x \<leftarrow> bios w b; Some (do { m \<leftarrow> bio_method x; f \<leftarrow> sel (tab m); Some (b, x, f) }) })"

definition zero_bio :: bio_st where
  "zero_bio = \<lparr>bio_method = None, bio_init = 0, bio_shutdown = 0, bio_flags = 0, bio_retry_reason = 0, bio_num = 0,
               bio_references = 0, bio_ptr = None, next_bio = None, num_read = 0, num_write = 0\<rparr>"

definition BIO_new :: "methods \<Rightarrow> bio_method \<Rightarrow> world \<Rightarrow> (nat option \<times> world) option" where
  "BIO_new tab meth w
     = (case w_malloc 72 w of
          (None, w) \<Rightarrow> Some (None, w)
        | (Some ret, w) \<Rightarrow>
            let w = w\<lparr>bios := (bios w)(ret \<mapsto> zero_bio\<lparr>bio_method := Some meth, bio_shutdown := 1, bio_references := 1\<rparr>)\<rparr> in
            case bcreate (tab meth) of
              None \<Rightarrow> Some (Some ret, w)
            | Some create \<Rightarrow> do {
                (ok, w) \<leftarrow> create ret w;
                if \<not> ok then Some (None, w\<lparr>bios := (bios w)(ret := None)\<rparr>) else Some (Some ret, w) })"

definition BIO_up_ref :: "nat \<Rightarrow> world \<Rightarrow> world option" where
  "BIO_up_ref bio w = bio_upd bio (\<lambda>x. x\<lparr>bio_references := CRYPTO_refcount_inc (bio_references x)\<rparr>) w"

definition BIO_pop :: "nat option \<Rightarrow> world \<Rightarrow> (nat option \<times> world) option" where
  "BIO_pop bio w
     = (case bio of
          None \<Rightarrow> Some (None, w)
        | Some b \<Rightarrow> do { x \<leftarrow> bios w b; w \<leftarrow> bio_upd b (\<lambda>x. x\<lparr>next_bio := None\<rparr>) w; Some (next_bio x, w) })"

partial_function (option) BIO_free :: "methods \<Rightarrow> nat option \<Rightarrow> world \<Rightarrow> (int \<times> world) option" where
  [code]: "BIO_free tab bio w
     = (case bio of
          None \<Rightarrow> Some (1, w)
        | Some b \<Rightarrow> do {
            x \<leftarrow> bios w b;
            (zero, count) \<leftarrow> CRYPTO_refcount_dec_and_test_zero (bio_references x);
            w \<leftarrow> bio_upd b (\<lambda>x. x\<lparr>bio_references := count\<rparr>) w;
            if \<not> zero then Some (0, w)
            else do {
              (next, w) \<leftarrow> BIO_pop bio w;
              w \<leftarrow> (case bio_method x of
                     None \<Rightarrow> Some w
                   | Some m \<Rightarrow> (case bdestroy (tab m) of None \<Rightarrow> Some w | Some destroy \<Rightarrow> destroy b w));
              BIO_free tab next (w\<lparr>bios := (bios w)(b := None)\<rparr>) } })"

section \<open>Reading and writing\<close>

definition BIO_read :: "methods \<Rightarrow> nat option \<Rightarrow> int \<Rightarrow> world \<Rightarrow> (int \<times> bytes \<times> world) option" where
  "BIO_read tab bio len w = do {
     op \<leftarrow> bio_op tab bread bio w;
     case op of
       None \<Rightarrow> Some (- 2, [], w)
     | Some (b, x, read) \<Rightarrow>
         if bio_init x = 0 then Some (- 2, [], w)
         else if len \<le> 0 then Some (0, [], w)
         else do {
           (ret, out, w) \<leftarrow> read b len w;
           w \<leftarrow> (if ret > 0 then bio_upd b (\<lambda>x. x\<lparr>num_read := num_read x + word_of_int ret\<rparr>) w else Some w);
           Some (ret, out, w) } }"

definition BIO_gets :: "methods \<Rightarrow> nat option \<Rightarrow> int \<Rightarrow> world \<Rightarrow> (int \<times> bytes \<times> world) option" where
  "BIO_gets tab bio len w = do {
     op \<leftarrow> bio_op tab bgets bio w;
     case op of
       None \<Rightarrow> Some (- 2, [], w)
     | Some (b, x, gets) \<Rightarrow>
         if bio_init x = 0 then Some (- 2, [], w)
         else if len \<le> 0 then Some (0, [], w)
         else do {
           (ret, out, w) \<leftarrow> gets b len w;
           w \<leftarrow> (if ret > 0 then bio_upd b (\<lambda>x. x\<lparr>num_read := num_read x + word_of_int ret\<rparr>) w else Some w);
           Some (ret, out, w) } }"

text \<open>\<open>inp\<close> holds the \<^verbatim>\<open>inl\<close> bytes to write.\<close>

definition BIO_write :: "methods \<Rightarrow> nat option \<Rightarrow> bytes \<Rightarrow> world \<Rightarrow> (int \<times> world) option" where
  "BIO_write tab bio inp w = do {
     op \<leftarrow> bio_op tab bwrite bio w;
     case op of
       None \<Rightarrow> Some (- 2, w)
     | Some (b, x, write) \<Rightarrow>
         if bio_init x = 0 then Some (- 2, w)
         else if length inp = 0 then Some (0, w)
         else do {
           (ret, w) \<leftarrow> write b inp w;
           w \<leftarrow> (if ret > 0 then bio_upd b (\<lambda>x. x\<lparr>num_write := num_write x + word_of_int ret\<rparr>) w else Some w);
           Some (ret, w) } }"

partial_function (option) BIO_write_all :: "methods \<Rightarrow> nat option \<Rightarrow> bytes \<Rightarrow> world \<Rightarrow> (bool \<times> world) option" where
  [code]: "BIO_write_all tab bio data w
     = (if length data > 0
        then do {
          (ret, w) \<leftarrow> BIO_write tab bio (take INT_MAX data) w;
          if ret \<le> 0 then Some (False, w) else BIO_write_all tab bio (drop (nat ret) data) w }
        else Some (True, w))"

text \<open>\<open>str\<close> is the C string without its terminator.\<close>

definition BIO_puts :: "methods \<Rightarrow> nat option \<Rightarrow> bytes \<Rightarrow> world \<Rightarrow> (int \<times> world) option" where
  "BIO_puts tab bio str w = (if length str > INT_MAX then Some (- 1, w) else BIO_write tab bio str w)"

definition BIO_ctrl :: "methods \<Rightarrow> nat option \<Rightarrow> int \<Rightarrow> int \<Rightarrow> ctrl_arg \<Rightarrow> world \<Rightarrow> (int \<times> ctrl_out \<times> world) option" where
  "BIO_ctrl tab bio cmd larg parg w
     = (if bio = None then Some (0, No_out, w)
        else do {
          op \<leftarrow> bio_op tab bctrl bio w;
          case op of
            None \<Rightarrow> Some (- 2, No_out, w)
          | Some (b, x, ctrl) \<Rightarrow> ctrl b cmd larg parg w })"

definition BIO_flush :: "methods \<Rightarrow> nat option \<Rightarrow> world \<Rightarrow> (int \<times> world) option" where
  "BIO_flush tab bio w = do { (r, _, w) \<leftarrow> BIO_ctrl tab bio BIO_CTRL_FLUSH 0 No_arg w; Some (c_int r, w) }"

definition BIO_ptr_ctrl :: "methods \<Rightarrow> nat option \<Rightarrow> int \<Rightarrow> int \<Rightarrow> world \<Rightarrow> (ctrl_out \<times> world) option" where
  "BIO_ptr_ctrl tab b cmd larg w = do {
     (r, p, w) \<leftarrow> BIO_ctrl tab b cmd larg Out_arg w;
     if r \<le> 0 then Some (No_out, w) else Some (p, w) }"

definition BIO_int_ctrl :: "methods \<Rightarrow> nat option \<Rightarrow> int \<Rightarrow> int \<Rightarrow> int \<Rightarrow> world \<Rightarrow> (int \<times> world) option" where
  "BIO_int_ctrl tab b cmd larg iarg w = do { (r, _, w) \<leftarrow> BIO_ctrl tab b cmd larg (Int_arg iarg) w; Some (r, w) }"

definition BIO_reset :: "methods \<Rightarrow> nat option \<Rightarrow> world \<Rightarrow> (int \<times> world) option" where
  "BIO_reset tab bio w = do { (r, _, w) \<leftarrow> BIO_ctrl tab bio BIO_CTRL_RESET 0 No_arg w; Some (c_int r, w) }"

definition BIO_eof :: "methods \<Rightarrow> nat option \<Rightarrow> world \<Rightarrow> (int \<times> world) option" where
  "BIO_eof tab bio w = do { (r, _, w) \<leftarrow> BIO_ctrl tab bio BIO_CTRL_EOF 0 No_arg w; Some (c_int r, w) }"

definition BIO_set_close :: "methods \<Rightarrow> nat option \<Rightarrow> int \<Rightarrow> world \<Rightarrow> (int \<times> world) option" where
  "BIO_set_close tab bio close_flag w
     = do { (r, _, w) \<leftarrow> BIO_ctrl tab bio BIO_CTRL_SET_CLOSE close_flag No_arg w; Some (c_int r, w) }"

definition BIO_pending :: "methods \<Rightarrow> nat option \<Rightarrow> world \<Rightarrow> (nat \<times> world) option" where
  "BIO_pending tab bio w = do {
     (r, _, w) \<leftarrow> BIO_ctrl tab bio BIO_CTRL_PENDING 0 No_arg w;
     Some (if r < 0 then 0 else nat r, w) }"

definition BIO_wpending :: "methods \<Rightarrow> nat option \<Rightarrow> world \<Rightarrow> (nat \<times> world) option" where
  "BIO_wpending tab bio w = do {
     (r, _, w) \<leftarrow> BIO_ctrl tab bio BIO_CTRL_WPENDING 0 No_arg w;
     Some (if r < 0 then 0 else nat r, w) }"

definition BIO_callback_ctrl :: "methods \<Rightarrow> nat option \<Rightarrow> int \<Rightarrow> nat option \<Rightarrow> world \<Rightarrow> (int \<times> world) option" where
  "BIO_callback_ctrl tab bio cmd fp w = do {
     op \<leftarrow> bio_op tab bcallback_ctrl bio w;
     case op of None \<Rightarrow> Some (0, w) | Some (b, x, f) \<Rightarrow> f b cmd fp w }"

section \<open>Flags\<close>

definition BIO_set_flags :: "nat \<Rightarrow> u32 \<Rightarrow> world \<Rightarrow> world option" where
  "BIO_set_flags bio fl w = bio_upd bio (\<lambda>x. x\<lparr>bio_flags := bio_flags x OR fl\<rparr>) w"

definition BIO_clear_flags :: "nat \<Rightarrow> u32 \<Rightarrow> world \<Rightarrow> world option" where
  "BIO_clear_flags bio fl w = bio_upd bio (\<lambda>x. x\<lparr>bio_flags := bio_flags x AND NOT fl\<rparr>) w"

definition BIO_test_flags :: "bio_st \<Rightarrow> u32 \<Rightarrow> u32" where
  "BIO_test_flags bio fl = bio_flags bio AND fl"

definition BIO_should_read :: "bio_st \<Rightarrow> u32" where
  "BIO_should_read bio = BIO_test_flags bio BIO_FLAGS_READ"

definition BIO_should_write :: "bio_st \<Rightarrow> u32" where
  "BIO_should_write bio = BIO_test_flags bio BIO_FLAGS_WRITE"

definition BIO_should_retry :: "bio_st \<Rightarrow> u32" where
  "BIO_should_retry bio = BIO_test_flags bio BIO_FLAGS_SHOULD_RETRY"

definition BIO_should_io_special :: "bio_st \<Rightarrow> u32" where
  "BIO_should_io_special bio = BIO_test_flags bio BIO_FLAGS_IO_SPECIAL"

definition BIO_set_retry_reason :: "nat \<Rightarrow> int \<Rightarrow> world \<Rightarrow> world option" where
  "BIO_set_retry_reason bio reason w = bio_upd bio (\<lambda>x. x\<lparr>bio_retry_reason := reason\<rparr>) w"

definition BIO_set_retry_read :: "nat \<Rightarrow> world \<Rightarrow> world option" where
  "BIO_set_retry_read bio w
     = bio_upd bio (\<lambda>x. x\<lparr>bio_flags := bio_flags x OR (BIO_FLAGS_READ OR BIO_FLAGS_SHOULD_RETRY)\<rparr>) w"

definition BIO_set_retry_write :: "nat \<Rightarrow> world \<Rightarrow> world option" where
  "BIO_set_retry_write bio w
     = bio_upd bio (\<lambda>x. x\<lparr>bio_flags := bio_flags x OR (BIO_FLAGS_WRITE OR BIO_FLAGS_SHOULD_RETRY)\<rparr>) w"

definition BIO_set_retry_special :: "nat \<Rightarrow> world \<Rightarrow> world option" where
  "BIO_set_retry_special bio w
     = bio_upd bio (\<lambda>x. x\<lparr>bio_flags := bio_flags x OR (BIO_FLAGS_READ OR BIO_FLAGS_IO_SPECIAL)\<rparr>) w"

definition BIO_get_retry_flags :: "bio_st \<Rightarrow> u32" where
  "BIO_get_retry_flags bio = bio_flags bio AND kRetryFlags"

definition BIO_clear_retry_flags :: "nat \<Rightarrow> world \<Rightarrow> world option" where
  "BIO_clear_retry_flags bio w
     = bio_upd bio (\<lambda>x. x\<lparr>bio_flags := bio_flags x AND NOT kRetryFlags, bio_retry_reason := 0\<rparr>) w"

definition BIO_copy_next_retry :: "nat \<Rightarrow> world \<Rightarrow> world option" where
  "BIO_copy_next_retry bio w = do {
     w \<leftarrow> BIO_clear_retry_flags bio w;
     x \<leftarrow> bios w bio;
     n \<leftarrow> next_bio x;
     y \<leftarrow> bios w n;
     w \<leftarrow> BIO_set_flags bio (BIO_get_retry_flags y) w;
     BIO_set_retry_reason bio (bio_retry_reason y) w }"

section \<open>Chains\<close>

definition BIO_next :: "nat option \<Rightarrow> world \<Rightarrow> nat option option" where
  "BIO_next bio w = (case bio of None \<Rightarrow> Some None | Some b \<Rightarrow> do { x \<leftarrow> bios w b; Some (next_bio x) })"

text \<open>The last BIO of the chain, \<open>None\<close> for a chain that is a cycle.\<close>

partial_function (option) bio_last :: "world \<Rightarrow> nat \<Rightarrow> nat option" where
  [code]: "bio_last w b = do { x \<leftarrow> bios w b; case next_bio x of None \<Rightarrow> Some b | Some n \<Rightarrow> bio_last w n }"

definition BIO_push :: "nat option \<Rightarrow> nat option \<Rightarrow> world \<Rightarrow> (nat option \<times> world) option" where
  "BIO_push bio appended_bio w
     = (case bio of
          None \<Rightarrow> Some (bio, w)
        | Some b \<Rightarrow> do {
            end_bio \<leftarrow> bio_last w b;
            w \<leftarrow> bio_upd end_bio (\<lambda>x. x\<lparr>next_bio := appended_bio\<rparr>) w;
            Some (bio, w) })"

partial_function (option) bio_find_loop :: "methods \<Rightarrow> u32 \<Rightarrow> world \<Rightarrow> nat \<Rightarrow> nat option option" where
  [code]: "bio_find_loop tab type w b = do {
     x \<leftarrow> bios w b;
     if (case bio_method x of
           None \<Rightarrow> False
         | Some m \<Rightarrow> if type AND 0xff = 0 then method_type (tab m) AND type \<noteq> 0 else method_type (tab m) = type)
     then Some (Some b)
     else case next_bio x of None \<Rightarrow> Some None | Some n \<Rightarrow> bio_find_loop tab type w n }"

definition BIO_find_type :: "methods \<Rightarrow> nat option \<Rightarrow> u32 \<Rightarrow> world \<Rightarrow> nat option option" where
  "BIO_find_type tab bio type w
     = (case bio of None \<Rightarrow> Some None | Some b \<Rightarrow> bio_find_loop tab type w b)"

fun bio_indent_loop :: "methods \<Rightarrow> nat option \<Rightarrow> nat \<Rightarrow> world \<Rightarrow> (bool \<times> world) option" where
  "bio_indent_loop tab bio 0 w = Some (True, w)"
| "bio_indent_loop tab bio (Suc indent) w = do {
     (r, w) \<leftarrow> BIO_puts tab bio [32] w;
     if r \<noteq> 1 then Some (False, w) else bio_indent_loop tab bio indent w }"

definition BIO_indent :: "methods \<Rightarrow> nat option \<Rightarrow> nat \<Rightarrow> nat \<Rightarrow> world \<Rightarrow> (bool \<times> world) option" where
  "BIO_indent tab bio indent max_indent w
     = bio_indent_loop tab bio (if indent > max_indent then max_indent else indent) w"

text \<open>The index counter \<^verbatim>\<open>g_index\<close> is passed and returned.\<close>

definition BIO_get_new_index :: "int \<Rightarrow> int \<times> int" where
  "BIO_get_new_index g_index = (if g_index > 255 then (- 1, g_index) else (g_index, g_index + 1))"

end
