(* ===== verification/Buf.thy ===== *)
theory Buf
  imports Bio
begin

text \<open>
  \<^verbatim>\<open>crypto/buf/buf.c\<close>: the growing buffer \<^verbatim>\<open>BUF_MEM\<close>, an object of the store.  The contents are the first
  \<open>bm_length\<close> bytes.
\<close>

section \<open>The code\<close>

definition w_realloc :: "bytes option \<Rightarrow> nat \<Rightarrow> world \<Rightarrow> bytes option \<times> world" where
  "w_realloc orig n w
     = (OPENSSL_realloc (w_heap w (w_next w)) (w_fresh w (w_next w)) (case orig of None \<Rightarrow> [] | Some d \<Rightarrow> d) n,
        w\<lparr>w_next := w_next w + 1\<rparr>)"

definition BUF_MEM_new :: "world \<Rightarrow> nat option \<times> world" where
  "BUF_MEM_new w
     = (case w_malloc 24 w of
          (None, w) \<Rightarrow> (None, w)
        | (Some a, w) \<Rightarrow>
            (Some a, w\<lparr>bufs := (bufs w)(a \<mapsto> \<lparr>bm_length = 0, bm_data = None, bm_start = 0, bm_max = 0\<rparr>)\<rparr>))"

definition BUF_MEM_free :: "nat option \<Rightarrow> world \<Rightarrow> world" where
  "BUF_MEM_free buf w = (case buf of None \<Rightarrow> w | Some a \<Rightarrow> w\<lparr>bufs := (bufs w)(a := None)\<rparr>)"

text \<open>Reallocating memory at an address that \<^verbatim>\<open>malloc\<close> did not return is stuck.\<close>

definition BUF_MEM_reserve :: "nat \<Rightarrow> nat \<Rightarrow> world \<Rightarrow> (bool \<times> world) option" where
  "BUF_MEM_reserve buf cap w = do {
     b \<leftarrow> bufs w buf;
     if bm_max b \<ge> cap then Some (True, w)
     else
       let n = size_add cap 3 in
       if n < cap then Some (False, w)
       else
         let n = n div 3; alloc_size = size_mul n 4 in
         if alloc_size div 4 \<noteq> n then Some (False, w)
         else if bm_start b \<noteq> 0 then None
         else case w_realloc (bm_data b) alloc_size w of
                (None, w) \<Rightarrow> Some (False, w)
              | (Some new_buf, w) \<Rightarrow> do {
                  w \<leftarrow> buf_upd buf (\<lambda>b. b\<lparr>bm_data := Some new_buf, bm_max := alloc_size\<rparr>) w;
                  Some (True, w) } }"

definition BUF_MEM_grow :: "nat \<Rightarrow> nat \<Rightarrow> world \<Rightarrow> (nat \<times> world) option" where
  "BUF_MEM_grow buf len w = do {
     (ok, w) \<leftarrow> BUF_MEM_reserve buf len w;
     if \<not> ok then Some (0, w)
     else do {
       b \<leftarrow> bufs w buf;
       w \<leftarrow> (if bm_length b < len
             then do {
               d \<leftarrow> bm_data b;
               buf_upd buf (\<lambda>b. b\<lparr>bm_data := Some (mem_write d (bm_start b + bm_length b) (replicate (len - bm_length b) 0))\<rparr>) w }
             else Some w);
       w \<leftarrow> buf_upd buf (\<lambda>b. b\<lparr>bm_length := len\<rparr>) w;
       Some (len, w) } }"

definition BUF_MEM_grow_clean :: "nat \<Rightarrow> nat \<Rightarrow> world \<Rightarrow> (nat \<times> world) option" where
  "BUF_MEM_grow_clean buf len w = BUF_MEM_grow buf len w"

definition BUF_MEM_append :: "nat \<Rightarrow> bytes \<Rightarrow> world \<Rightarrow> (bool \<times> world) option" where
  "BUF_MEM_append buf inp w
     = (if length inp = 0 then Some (True, w)
        else do {
          b \<leftarrow> bufs w buf;
          let new_len = size_add (bm_length b) (length inp);
          if new_len < length inp then Some (False, w)
          else do {
            (ok, w) \<leftarrow> BUF_MEM_reserve buf new_len w;
            if \<not> ok then Some (False, w)
            else do {
              b \<leftarrow> bufs w buf;
              d \<leftarrow> bm_data b;
              w \<leftarrow> buf_upd buf (\<lambda>b. b\<lparr>bm_data := Some (mem_write d (bm_start b + bm_length b) inp), bm_length := new_len\<rparr>) w;
              Some (True, w) } } })"

end
