(* ===== verification/Bio_Pair.thy ===== *)
theory Bio_Pair
  imports Bio
begin

text \<open>
  \<^verbatim>\<open>crypto/bio/pair.c\<close>: two BIOs connected back to back.  What one end writes into its ring buffer the other
  end reads; the state of an end is an object of the store, and \<open>bio_peer\<close> is the BIO at the other end.
\<close>

section \<open>The code\<close>

definition BIO_C_GET_WRITE_BUF_SIZE :: int where "BIO_C_GET_WRITE_BUF_SIZE = 137"
definition BIO_C_GET_WRITE_GUARANTEE :: int where "BIO_C_GET_WRITE_GUARANTEE = 140"
definition BIO_C_GET_READ_REQUEST :: int where "BIO_C_GET_READ_REQUEST = 141"
definition BIO_C_SHUTDOWN_WR :: int where "BIO_C_SHUTDOWN_WR = 142"
definition BIO_C_RESET_READ_REQUEST :: int where "BIO_C_RESET_READ_REQUEST = 147"

definition bio_new :: "nat \<Rightarrow> world \<Rightarrow> (bool \<times> world) option" where
  "bio_new bio w
     = (case w_malloc 56 w of
          (None, w) \<Rightarrow> Some (False, w)
        | (Some b, w) \<Rightarrow> do {
            let w = w\<lparr>pairs := (pairs w)(b \<mapsto> \<lparr>bio_peer = None, bio_closed = False, bio_len = 0, bio_offset = 0,
              bio_size = 17 * 1024, bio_buf = None, bio_request = 0\<rparr>)\<rparr>;
            w \<leftarrow> bio_upd bio (\<lambda>x. x\<lparr>bio_ptr := Some b\<rparr>) w;
            Some (True, w) })"

definition bio_destroy_pair :: "nat \<Rightarrow> world \<Rightarrow> world option" where
  "bio_destroy_pair bio w = do {
     x \<leftarrow> bios w bio;
     case bio_ptr x of
       None \<Rightarrow> Some w
     | Some b \<Rightarrow> do {
         s \<leftarrow> pairs w b;
         case bio_peer s of
           None \<Rightarrow> Some w
         | Some peer_bio \<Rightarrow> do {
             y \<leftarrow> bios w peer_bio;
             peer_b \<leftarrow> bio_ptr y;
             w \<leftarrow> pair_upd peer_b (\<lambda>s. s\<lparr>bio_peer := None\<rparr>) w;
             w \<leftarrow> bio_upd peer_bio (\<lambda>x. x\<lparr>bio_init := 0\<rparr>) w;
             w \<leftarrow> pair_upd peer_b (\<lambda>s. s\<lparr>bio_len := 0, bio_offset := 0\<rparr>) w;
             w \<leftarrow> pair_upd b (\<lambda>s. s\<lparr>bio_peer := None\<rparr>) w;
             w \<leftarrow> bio_upd bio (\<lambda>x. x\<lparr>bio_init := 0\<rparr>) w;
             pair_upd b (\<lambda>s. s\<lparr>bio_len := 0, bio_offset := 0\<rparr>) w } } }"

definition bio_free :: "nat \<Rightarrow> world \<Rightarrow> world option" where
  "bio_free bio w = do {
     x \<leftarrow> bios w bio;
     b \<leftarrow> bio_ptr x;
     s \<leftarrow> pairs w b;
     w \<leftarrow> (if bio_peer s \<noteq> None then bio_destroy_pair bio w else Some w);
     Some (w\<lparr>pairs := (pairs w)(b := None)\<rparr>) }"

text \<open>The loops over the one or two pieces of the ring buffer.\<close>

partial_function (option) bio_read_loop :: "nat \<Rightarrow> bio_bio_st \<Rightarrow> (bytes \<times> bio_bio_st) option" where
  [code]: "bio_read_loop rest p = do {
     d \<leftarrow> bio_buf p;
     let chunk = (if bio_offset p + rest \<le> bio_size p then rest else bio_size p - bio_offset p);
     let out = mem_read d (bio_offset p) chunk;
     let p = p\<lparr>bio_len := bio_len p - chunk\<rparr>;
     let p = (if bio_len p \<noteq> 0
       then let p = p\<lparr>bio_offset := bio_offset p + chunk\<rparr> in
            if bio_offset p = bio_size p then p\<lparr>bio_offset := 0\<rparr> else p
       else p\<lparr>bio_offset := 0\<rparr>);
     let rest = rest - chunk;
     if rest \<noteq> 0 then do { (out', p) \<leftarrow> bio_read_loop rest p; Some (out @ out', p) }
     else Some (out, p) }"

definition bio_read :: "nat \<Rightarrow> int \<Rightarrow> world \<Rightarrow> (int \<times> bytes \<times> world) option" where
  "bio_read bio len w = do {
     let size = nat (len mod int size_bound);
     w \<leftarrow> BIO_clear_retry_flags bio w;
     x \<leftarrow> bios w bio;
     if bio_init x = 0 then Some (0, [], w)
     else do {
       b \<leftarrow> bio_ptr x;
       s \<leftarrow> pairs w b;
       peer_bio \<leftarrow> bio_peer s;
       y \<leftarrow> bios w peer_bio;
       peer_b \<leftarrow> bio_ptr y;
       w \<leftarrow> pair_upd peer_b (\<lambda>p. p\<lparr>bio_request := 0\<rparr>) w;
       if size = 0 then Some (0, [], w)
       else do {
         p \<leftarrow> pairs w peer_b;
         if bio_len p = 0
         then if bio_closed p then Some (0, [], w)
              else do {
                w \<leftarrow> BIO_set_retry_read bio w;
                w \<leftarrow> pair_upd peer_b (\<lambda>p. p\<lparr>bio_request := (if size \<le> bio_size p then size else bio_size p)\<rparr>) w;
                Some (- 1, [], w) }
         else do {
           let size = (if bio_len p < size then bio_len p else size);
           (out, p) \<leftarrow> bio_read_loop size p;
           w \<leftarrow> pair_upd peer_b (\<lambda>_. p) w;
           Some (c_int (int size), out, w) } } } }"

partial_function (option) bio_write_loop :: "bytes \<Rightarrow> bio_bio_st \<Rightarrow> bio_bio_st option" where
  [code]: "bio_write_loop inp b = do {
     d \<leftarrow> bio_buf b;
     let rest = length inp;
     let write_offset = bio_offset b + bio_len b;
     let write_offset = (if write_offset \<ge> bio_size b then write_offset - bio_size b else write_offset);
     let chunk = (if write_offset + rest \<le> bio_size b then rest else bio_size b - write_offset);
     let b = b\<lparr>bio_buf := Some (mem_write d write_offset (take chunk inp)), bio_len := bio_len b + chunk\<rparr>;
     if rest - chunk \<noteq> 0 then bio_write_loop (drop chunk inp) b else Some b }"

definition bio_write :: "nat \<Rightarrow> bytes \<Rightarrow> world \<Rightarrow> (int \<times> world) option" where
  "bio_write bio inp w = do {
     w \<leftarrow> BIO_clear_retry_flags bio w;
     x \<leftarrow> bios w bio;
     if bio_init x = 0 \<or> length inp = 0 then Some (0, w)
     else do {
       b \<leftarrow> bio_ptr x;
       w \<leftarrow> pair_upd b (\<lambda>s. s\<lparr>bio_request := 0\<rparr>) w;
       s \<leftarrow> pairs w b;
       if bio_closed s then Some (- 1, w)
       else if bio_len s = bio_size s then do { w \<leftarrow> BIO_set_retry_write bio w; Some (- 1, w) }
       else do {
         let num = (if length inp > bio_size s - bio_len s then bio_size s - bio_len s else length inp);
         s \<leftarrow> bio_write_loop (take num inp) s;
         w \<leftarrow> pair_upd b (\<lambda>_. s) w;
         Some (c_int (int num), w) } } }"

text \<open>The part of \<^verbatim>\<open>bio_make_pair\<close> that gives one end its buffer.\<close>

definition bio_make_buf :: "nat \<Rightarrow> nat \<Rightarrow> world \<Rightarrow> (bool \<times> world) option" where
  "bio_make_buf b writebuf_len w = do {
     s \<leftarrow> pairs w b;
     if bio_buf s = None
     then do {
       w \<leftarrow> (if writebuf_len \<noteq> 0 then pair_upd b (\<lambda>s. s\<lparr>bio_size := writebuf_len\<rparr>) w else Some w);
       s \<leftarrow> pairs w b;
       case w_malloc (bio_size s) w of
         (None, w) \<Rightarrow> Some (False, w)
       | (Some n, w) \<Rightarrow> do {
           w \<leftarrow> pair_upd b (\<lambda>s. s\<lparr>bio_buf := Some (map (w_fresh w n) [0..<bio_size s]), bio_len := 0, bio_offset := 0\<rparr>) w;
           Some (True, w) } }
     else Some (True, w) }"

definition bio_make_pair :: "nat \<Rightarrow> nat \<Rightarrow> nat \<Rightarrow> nat \<Rightarrow> world \<Rightarrow> (bool \<times> world) option" where
  "bio_make_pair bio1 bio2 writebuf1_len writebuf2_len w = do {
     x1 \<leftarrow> bios w bio1;
     b1 \<leftarrow> bio_ptr x1;
     x2 \<leftarrow> bios w bio2;
     b2 \<leftarrow> bio_ptr x2;
     s1 \<leftarrow> pairs w b1;
     s2 \<leftarrow> pairs w b2;
     if bio_peer s1 \<noteq> None \<or> bio_peer s2 \<noteq> None then Some (False, w)
     else do {
       (ok, w) \<leftarrow> bio_make_buf b1 writebuf1_len w;
       if \<not> ok then Some (False, w)
       else do {
         (ok, w) \<leftarrow> bio_make_buf b2 writebuf2_len w;
         if \<not> ok then Some (False, w)
         else do {
           w \<leftarrow> pair_upd b1 (\<lambda>s. s\<lparr>bio_peer := Some bio2, bio_closed := False, bio_request := 0\<rparr>) w;
           w \<leftarrow> pair_upd b2 (\<lambda>s. s\<lparr>bio_peer := Some bio1, bio_closed := False, bio_request := 0\<rparr>) w;
           w \<leftarrow> bio_upd bio1 (\<lambda>x. x\<lparr>bio_init := 1\<rparr>) w;
           w \<leftarrow> bio_upd bio2 (\<lambda>x. x\<lparr>bio_init := 1\<rparr>) w;
           Some (True, w) } } } }"

definition bio_ctrl :: "nat \<Rightarrow> int \<Rightarrow> int \<Rightarrow> ctrl_arg \<Rightarrow> world \<Rightarrow> (int \<times> ctrl_out \<times> world) option" where
  "bio_ctrl bio cmd num ptr w = do {
     x \<leftarrow> bios w bio;
     b \<leftarrow> bio_ptr x;
     s \<leftarrow> pairs w b;
     if cmd = BIO_C_GET_WRITE_BUF_SIZE then Some (c_long (int (bio_size s)), No_out, w)
     else if cmd = BIO_C_GET_WRITE_GUARANTEE
     then Some (if bio_peer s = None \<or> bio_closed s then 0 else c_long (int (bio_size s) - int (bio_len s)), No_out, w)
     else if cmd = BIO_C_GET_READ_REQUEST then Some (c_long (int (bio_request s)), No_out, w)
     else if cmd = BIO_C_RESET_READ_REQUEST
     then do { w \<leftarrow> pair_upd b (\<lambda>s. s\<lparr>bio_request := 0\<rparr>) w; Some (1, No_out, w) }
     else if cmd = BIO_C_SHUTDOWN_WR
     then do { w \<leftarrow> pair_upd b (\<lambda>s. s\<lparr>bio_closed := True\<rparr>) w; Some (1, No_out, w) }
     else if cmd = BIO_CTRL_GET_CLOSE then Some (bio_shutdown x, No_out, w)
     else if cmd = BIO_CTRL_SET_CLOSE
     then do { w \<leftarrow> bio_upd bio (\<lambda>x. x\<lparr>bio_shutdown := c_int num\<rparr>) w; Some (1, No_out, w) }
     else if cmd = BIO_CTRL_PENDING
     then (case bio_peer s of
             None \<Rightarrow> Some (0, No_out, w)
           | Some peer_bio \<Rightarrow> do {
               y \<leftarrow> bios w peer_bio;
               peer_b \<leftarrow> bio_ptr y;
               p \<leftarrow> pairs w peer_b;
               Some (c_long (int (bio_len p)), No_out, w) })
     else if cmd = BIO_CTRL_WPENDING
     then Some (if bio_buf s \<noteq> None then c_long (int (bio_len s)) else 0, No_out, w)
     else if cmd = BIO_CTRL_FLUSH then Some (1, No_out, w)
     else if cmd = BIO_CTRL_EOF
     then (case ptr of
             Ref_arg other_bio \<Rightarrow> do {
               y \<leftarrow> bios w other_bio;
               other_b \<leftarrow> bio_ptr y;
               p \<leftarrow> pairs w other_b;
               Some (if bio_len p = 0 \<and> bio_closed p then 1 else 0, No_out, w) }
           | _ \<Rightarrow> Some (1, No_out, w))
     else Some (0, No_out, w) }"

definition methods_biop :: bio_method_st where
  "methods_biop = \<lparr>method_type = 19 OR 0x0400, bwrite = Some bio_write, bread = Some bio_read, bgets = None,
     bctrl = Some bio_ctrl, bcreate = Some bio_new, bdestroy = Some bio_free, bcallback_ctrl = None\<rparr>"

definition BIO_new_bio_pair :: "methods \<Rightarrow> nat \<Rightarrow> nat \<Rightarrow> world \<Rightarrow> ((nat \<times> nat) option \<times> world) option" where
  "BIO_new_bio_pair tab writebuf1_len writebuf2_len w = do {
     (bio1, w) \<leftarrow> BIO_new tab Pair_method w;
     (bio2, w) \<leftarrow> BIO_new tab Pair_method w;
     (ok, w) \<leftarrow> (case (bio1, bio2) of
                 (Some b1, Some b2) \<Rightarrow> bio_make_pair b1 b2 writebuf1_len writebuf2_len w
               | _ \<Rightarrow> Some (False, w));
     if \<not> ok then do {
       (_, w) \<leftarrow> BIO_free tab bio1 w;
       (_, w) \<leftarrow> BIO_free tab bio2 w;
       Some (None, w) }
     else Some (Some (the bio1, the bio2), w) }"

definition BIO_ctrl_get_read_request :: "methods \<Rightarrow> nat option \<Rightarrow> world \<Rightarrow> (nat \<times> world) option" where
  "BIO_ctrl_get_read_request tab bio w = do {
     (r, _, w) \<leftarrow> BIO_ctrl tab bio BIO_C_GET_READ_REQUEST 0 No_arg w;
     Some (nat (r mod int size_bound), w) }"

definition BIO_ctrl_get_write_guarantee :: "methods \<Rightarrow> nat option \<Rightarrow> world \<Rightarrow> (nat \<times> world) option" where
  "BIO_ctrl_get_write_guarantee tab bio w = do {
     (r, _, w) \<leftarrow> BIO_ctrl tab bio BIO_C_GET_WRITE_GUARANTEE 0 No_arg w;
     Some (nat (r mod int size_bound), w) }"

definition BIO_shutdown_wr :: "methods \<Rightarrow> nat option \<Rightarrow> world \<Rightarrow> (int \<times> world) option" where
  "BIO_shutdown_wr tab bio w = do {
     (r, _, w) \<leftarrow> BIO_ctrl tab bio BIO_C_SHUTDOWN_WR 0 No_arg w;
     Some (c_int r, w) }"

end
