(* ===== verification/Mem_String.thy ===== *)
theory Mem_String
  imports Mem "HOL-Library.Monad_Syntax"
begin

text \<open>
  The string functions of \<^verbatim>\<open>crypto/mem.c\<close>.  A pointer to characters is the memory from there to the end of
  its object; \<open>None\<close> means that the code leaves an object before it meets a terminator.
\<close>

section \<open>The code\<close>

definition c_strlen :: "bytes \<Rightarrow> nat option" where
  "c_strlen s = OPENSSL_memchr s 0"

definition OPENSSL_strhash :: "bytes \<Rightarrow> u32 option" where
  "OPENSSL_strhash s = do { n \<leftarrow> c_strlen s; Some (OPENSSL_hash32 (take n s)) }"

text \<open>The outer option is that of reading the string, the inner one the pointer.\<close>

definition OPENSSL_strdup :: "heap \<Rightarrow> bytes option \<Rightarrow> bytes option option" where
  "OPENSSL_strdup heap s
     = (case s of None \<Rightarrow> Some None | Some s \<Rightarrow> do { n \<leftarrow> c_strlen s; Some (OPENSSL_memdup heap (take (n + 1) s)) })"

text \<open>Characters are signed.\<close>

fun OPENSSL_strcasecmp :: "bytes \<Rightarrow> bytes \<Rightarrow> int option" where
  "OPENSSL_strcasecmp (a # as) (b # bs)
     = (let aa = OPENSSL_tolower (sint a); bb = OPENSSL_tolower (sint b) in
        if aa < bb then Some (- 1)
        else if aa > bb then Some 1
        else if aa = 0 then Some 0
        else OPENSSL_strcasecmp as bs)"
| "OPENSSL_strcasecmp _ _ = None"

fun OPENSSL_strncasecmp :: "bytes \<Rightarrow> bytes \<Rightarrow> nat \<Rightarrow> int option" where
  "OPENSSL_strncasecmp as bs 0 = Some 0"
| "OPENSSL_strncasecmp (a # as) (b # bs) (Suc n)
     = (let aa = OPENSSL_tolower (sint a); bb = OPENSSL_tolower (sint b) in
        if aa < bb then Some (- 1)
        else if aa > bb then Some 1
        else if aa = 0 then Some 0
        else OPENSSL_strncasecmp as bs n)"
| "OPENSSL_strncasecmp _ _ (Suc n) = None"

text \<open>The result and the memory at \<^verbatim>\<open>dst\<close>.\<close>

fun OPENSSL_strlcpy :: "bytes \<Rightarrow> bytes \<Rightarrow> nat \<Rightarrow> (nat \<times> bytes) option" where
  "OPENSSL_strlcpy dst (c # src) dst_size
     = (if dst_size > 1 \<and> c \<noteq> 0
        then do {
          (l, d) \<leftarrow> (case dst of [] \<Rightarrow> None | _ # dst \<Rightarrow> OPENSSL_strlcpy dst src (dst_size - 1));
          Some (l + 1, c # d) }
        else do {
          dst \<leftarrow> (if dst_size > 0 then case dst of [] \<Rightarrow> None | _ # dst \<Rightarrow> Some (0 # dst) else Some dst);
          n \<leftarrow> c_strlen (c # src);
          Some (n, dst) })"
| "OPENSSL_strlcpy dst [] dst_size = None"

fun OPENSSL_strlcat :: "bytes \<Rightarrow> bytes \<Rightarrow> nat \<Rightarrow> (nat \<times> bytes) option" where
  "OPENSSL_strlcat [] src dst_size = (if dst_size > 0 then None else OPENSSL_strlcpy [] src dst_size)"
| "OPENSSL_strlcat (c # dst) src dst_size
     = (if dst_size > 0 \<and> c \<noteq> 0
        then do { (l, d) \<leftarrow> OPENSSL_strlcat dst src (dst_size - 1); Some (l + 1, c # d) }
        else OPENSSL_strlcpy (c # dst) src dst_size)"

section \<open>Strings\<close>

text \<open>The string at a pointer.\<close>

abbreviation c_string :: "bytes \<Rightarrow> bytes" where
  "c_string m \<equiv> takeWhile (\<lambda>c. c \<noteq> 0) m"

lemma c_strlen_string: "0 \<in> set m \<Longrightarrow> c_strlen m = Some (length (c_string m))"
  by (induction m) (auto simp: c_strlen_def)

lemma c_strlen_append [simp]: "0 \<notin> set s \<Longrightarrow> c_strlen (s @ 0 # r) = Some (length s)"
  by (induction s) (auto simp: c_strlen_def)

text \<open>What is copied is the string, cut to fit, and a terminator; the result is the length of the whole.\<close>

lemma strlcpy_eq:
  assumes "0 \<notin> set s" "n \<le> length dst"
  shows "OPENSSL_strlcpy dst (s @ 0 # r) n
    = Some (length s, if n = 0 then dst else take (n - 1) s @ 0 # drop (Suc (min (n - 1) (length s))) dst)"
  using assms
proof (induction s arbitrary: dst n)
  case Nil
  then show ?case by (cases dst) (auto simp: c_strlen_def)
next
  case (Cons c s)
  show ?case
  proof (cases "n > 1")
    case True
    then obtain m e d where m: "n = Suc (Suc m)" and d: "dst = e # d"
      using Cons.prems(2) by (cases dst) (auto dest: less_imp_Suc_add)
    show ?thesis using Cons.IH [of "Suc m" d] Cons.prems unfolding m d by simp
  next
    case False
    then have "n = 0 \<or> n = 1" by auto
    then show ?thesis using Cons.prems c_strlen_append [of "c # s" r] by (cases dst) auto
  qed
qed

lemma strlcat_eq:
  assumes "0 \<notin> set s" "0 \<notin> set a" "length a + length s < n" "n \<le> length (a @ 0 # d)"
  shows "OPENSSL_strlcat (a @ 0 # d) (s @ 0 # r) n = Some (length a + length s, a @ s @ 0 # drop (length s) d)"
  using assms
proof (induction a arbitrary: n)
  case Nil
  then show ?case using strlcpy_eq [of s n "0 # d" r] by simp
next
  case (Cons c a)
  then show ?case by simp
qed

end
