(* ===== verification/Bio_Mem.thy ===== *)
theory Bio_Mem
  imports Buf Bio_Pair Mem_String
begin

text \<open>
  \<^verbatim>\<open>crypto/bio/bio_mem.c\<close>: the memory BIO, a queue of bytes in a \<^verbatim>\<open>BUF_MEM\<close>, and the table of the methods
  that are modelled.
\<close>

section \<open>The code\<close>

definition BIO_C_SET_BUF_MEM :: int where "BIO_C_SET_BUF_MEM = 114"
definition BIO_C_GET_BUF_MEM_PTR :: int where "BIO_C_GET_BUF_MEM_PTR = 115"
definition BIO_C_SET_BUF_MEM_EOF_RETURN :: int where "BIO_C_SET_BUF_MEM_EOF_RETURN = 130"

definition mem_new :: "nat \<Rightarrow> world \<Rightarrow> (bool \<times> world) option" where
  "mem_new bio w
     = (case BUF_MEM_new w of
          (None, w) \<Rightarrow> Some (False, w)
        | (Some b, w) \<Rightarrow> do {
            w \<leftarrow> bio_upd bio (\<lambda>x. x\<lparr>bio_shutdown := 1, bio_init := 1, bio_num := - 1, bio_ptr := Some b\<rparr>) w;
            Some (True, w) })"

definition mem_free :: "nat \<Rightarrow> world \<Rightarrow> world option" where
  "mem_free bio w = do {
     x \<leftarrow> bios w bio;
     if bio_shutdown x = 0 \<or> bio_init x = 0 \<or> bio_ptr x = None then Some w
     else do {
       b \<leftarrow> bio_ptr x;
       w \<leftarrow> (if bio_flags x AND BIO_FLAGS_MEM_RDONLY \<noteq> 0 then buf_upd b (\<lambda>b. b\<lparr>bm_data := None\<rparr>) w else Some w);
       bio_upd bio (\<lambda>x. x\<lparr>bio_ptr := None\<rparr>) (BUF_MEM_free (Some b) w) } }"

definition mem_read_bio :: "nat \<Rightarrow> int \<Rightarrow> world \<Rightarrow> (int \<times> bytes \<times> world) option" where
  "mem_read_bio bio outl w = do {
     w \<leftarrow> BIO_clear_retry_flags bio w;
     if outl \<le> 0 then Some (0, [], w)
     else do {
       x \<leftarrow> bios w bio;
       a \<leftarrow> bio_ptr x;
       b \<leftarrow> bufs w a;
       let ret = (if nat outl > bm_length b then c_int (int (bm_length b)) else outl);
       if ret > 0
       then do {
         d \<leftarrow> bm_data b;
         let n = nat ret;
         let out = mem_read d (bm_start b) n;
         let len = bm_length b - n;
         w \<leftarrow> (if bio_flags x AND BIO_FLAGS_MEM_RDONLY \<noteq> 0
               then buf_upd a (\<lambda>b. b\<lparr>bm_length := len, bm_start := bm_start b + n\<rparr>) w
               else buf_upd a (\<lambda>b. b\<lparr>bm_length := len,
                      bm_data := Some (mem_write d (bm_start b) (mem_read d (bm_start b + n) len))\<rparr>) w);
         Some (ret, out, w) }
       else if bm_length b = 0
       then do {
         let ret = bio_num x;
         w \<leftarrow> (if ret \<noteq> 0 then BIO_set_retry_read bio w else Some w);
         Some (ret, [], w) }
       else Some (ret, [], w) } }"

definition mem_write_bio :: "nat \<Rightarrow> bytes \<Rightarrow> world \<Rightarrow> (int \<times> world) option" where
  "mem_write_bio bio inp w = do {
     w \<leftarrow> BIO_clear_retry_flags bio w;
     if length inp = 0 then Some (0, w)
     else do {
       x \<leftarrow> bios w bio;
       if bio_flags x AND BIO_FLAGS_MEM_RDONLY \<noteq> 0 then Some (- 1, w)
       else do {
         b \<leftarrow> bio_ptr x;
         (ok, w) \<leftarrow> BUF_MEM_append b inp w;
         if \<not> ok then Some (- 1, w) else Some (int (length inp), w) } } }"

text \<open>The bytes written to the caller's buffer include the terminator.\<close>

definition mem_gets :: "nat \<Rightarrow> int \<Rightarrow> world \<Rightarrow> (int \<times> bytes \<times> world) option" where
  "mem_gets bio sz w = do {
     w \<leftarrow> BIO_clear_retry_flags bio w;
     if sz \<le> 0 then Some (0, [], w)
     else do {
       x \<leftarrow> bios w bio;
       a \<leftarrow> bio_ptr x;
       b \<leftarrow> bufs w a;
       let ret = sz - 1;
       let ret = (if nat ret > bm_length b then c_int (int (bm_length b)) else ret);
       newline \<leftarrow> (case bm_data b of
                     None \<Rightarrow> if ret = 0 then Some None else None
                   | Some d \<Rightarrow> Some (OPENSSL_memchr (take (nat ret) (drop (bm_start b) d)) 10));
       let ret = (case newline of None \<Rightarrow> ret | Some i \<Rightarrow> c_int (int i + 1));
       (ret, out, w) \<leftarrow> mem_read_bio bio ret w;
       if ret \<ge> 0 then Some (ret, mem_write out (nat ret) [0], w) else Some (ret, out, w) } }"

definition mem_ctrl :: "nat \<Rightarrow> int \<Rightarrow> int \<Rightarrow> ctrl_arg \<Rightarrow> world \<Rightarrow> (int \<times> ctrl_out \<times> world) option" where
  "mem_ctrl bio cmd num ptr w = do {
     x \<leftarrow> bios w bio;
     a \<leftarrow> bio_ptr x;
     if cmd = BIO_CTRL_RESET
     then do {
       b \<leftarrow> bufs w a;
       w \<leftarrow> (case bm_data b of
               None \<Rightarrow> Some w
             | Some d \<Rightarrow>
                 if bio_flags x AND BIO_FLAGS_MEM_RDONLY \<noteq> 0
                 then buf_upd a (\<lambda>b. b\<lparr>bm_start := bm_start b - (bm_max b - bm_length b), bm_length := bm_max b\<rparr>) w
                 else buf_upd a (\<lambda>b. b\<lparr>bm_data := Some (mem_write d (bm_start b) (replicate (bm_max b) 0)), bm_length := 0\<rparr>) w);
       Some (1, No_out, w) }
     else if cmd = BIO_CTRL_EOF then do { b \<leftarrow> bufs w a; Some (if bm_length b = 0 then 1 else 0, No_out, w) }
     else if cmd = BIO_C_SET_BUF_MEM_EOF_RETURN
     then do { w \<leftarrow> bio_upd bio (\<lambda>x. x\<lparr>bio_num := c_int num\<rparr>) w; Some (1, No_out, w) }
     else if cmd = BIO_CTRL_INFO
     then do {
       b \<leftarrow> bufs w a;
       Some (c_long (int (bm_length b)), if ptr = No_arg then No_out else Data_out (bm_data b) (bm_start b), w) }
     else if cmd = BIO_C_SET_BUF_MEM
     then do {
       w \<leftarrow> mem_free bio w;
       w \<leftarrow> bio_upd bio (\<lambda>x. x\<lparr>bio_shutdown := c_int num, bio_ptr := (case ptr of Ref_arg a \<Rightarrow> Some a | _ \<Rightarrow> None)\<rparr>) w;
       Some (1, No_out, w) }
     else if cmd = BIO_C_GET_BUF_MEM_PTR then Some (1, if ptr = No_arg then No_out else Ref_out a, w)
     else if cmd = BIO_CTRL_GET_CLOSE then Some (bio_shutdown x, No_out, w)
     else if cmd = BIO_CTRL_SET_CLOSE
     then do { w \<leftarrow> bio_upd bio (\<lambda>x. x\<lparr>bio_shutdown := c_int num\<rparr>) w; Some (1, No_out, w) }
     else if cmd = BIO_CTRL_WPENDING then Some (0, No_out, w)
     else if cmd = BIO_CTRL_PENDING then do { b \<leftarrow> bufs w a; Some (c_long (int (bm_length b)), No_out, w) }
     else if cmd = BIO_CTRL_FLUSH then Some (1, No_out, w)
     else Some (0, No_out, w) }"

definition mem_method :: bio_method_st where
  "mem_method = \<lparr>method_type = 1 OR 0x0400, bwrite = Some mem_write_bio, bread = Some mem_read_bio, bgets = Some mem_gets,
     bctrl = Some mem_ctrl, bcreate = Some mem_new, bdestroy = Some mem_free, bcallback_ctrl = None\<rparr>"

text \<open>The methods of this development; \<open>user\<close> gives those of an application.\<close>

definition bio_methods :: "(nat \<Rightarrow> bio_method_st) \<Rightarrow> methods" where
  "bio_methods user m = (case m of Mem_method \<Rightarrow> mem_method | Pair_method \<Rightarrow> methods_biop | User_method n \<Rightarrow> user n)"

definition BIO_new_mem_buf :: "methods \<Rightarrow> bytes option \<Rightarrow> int \<Rightarrow> world \<Rightarrow> (nat option \<times> world) option" where
  "BIO_new_mem_buf tab buf len w = do {
     n \<leftarrow> (if len < 0 then do { s \<leftarrow> buf; c_strlen s } else Some (nat len));
     if buf = None \<and> len \<noteq> 0 then Some (None, w)
     else do {
       (ret, w) \<leftarrow> BIO_new tab Mem_method w;
       case ret of
         None \<Rightarrow> Some (None, w)
       | Some r \<Rightarrow> do {
           x \<leftarrow> bios w r;
           b \<leftarrow> bio_ptr x;
           w \<leftarrow> buf_upd b (\<lambda>b. b\<lparr>bm_data := buf, bm_length := n, bm_max := n\<rparr>) w;
           w \<leftarrow> bio_upd r (\<lambda>x. x\<lparr>bio_flags := bio_flags x OR BIO_FLAGS_MEM_RDONLY, bio_num := 0\<rparr>) w;
           Some (ret, w) } } }"

text \<open>The data pointer with the length, if the BIO is a memory BIO.\<close>

definition BIO_mem_contents :: "nat \<Rightarrow> world \<Rightarrow> (bytes option \<times> nat \<times> nat) option option" where
  "BIO_mem_contents bio w = do {
     x \<leftarrow> bios w bio;
     if bio_method x \<noteq> Some Mem_method then Some None
     else do {
       a \<leftarrow> bio_ptr x;
       b \<leftarrow> bufs w a;
       Some (Some (bm_data b, bm_start b, bm_length b)) } }"

definition BIO_get_mem_data :: "methods \<Rightarrow> nat option \<Rightarrow> world \<Rightarrow> (int \<times> ctrl_out \<times> world) option" where
  "BIO_get_mem_data tab bio w = BIO_ctrl tab bio BIO_CTRL_INFO 0 Out_arg w"

definition BIO_get_mem_ptr :: "methods \<Rightarrow> nat option \<Rightarrow> world \<Rightarrow> (int \<times> ctrl_out \<times> world) option" where
  "BIO_get_mem_ptr tab bio w
     = do { (r, out, w) \<leftarrow> BIO_ctrl tab bio BIO_C_GET_BUF_MEM_PTR 0 Out_arg w; Some (c_int r, out, w) }"

definition BIO_set_mem_buf :: "methods \<Rightarrow> nat option \<Rightarrow> nat \<Rightarrow> int \<Rightarrow> world \<Rightarrow> (int \<times> world) option" where
  "BIO_set_mem_buf tab bio b take_ownership w
     = do { (r, _, w) \<leftarrow> BIO_ctrl tab bio BIO_C_SET_BUF_MEM take_ownership (Ref_arg b) w; Some (c_int r, w) }"

definition BIO_set_mem_eof_return :: "methods \<Rightarrow> nat option \<Rightarrow> int \<Rightarrow> world \<Rightarrow> (int \<times> world) option" where
  "BIO_set_mem_eof_return tab bio eof_value w
     = do { (r, _, w) \<leftarrow> BIO_ctrl tab bio BIO_C_SET_BUF_MEM_EOF_RETURN eof_value No_arg w; Some (c_int r, w) }"

end
