(* ===== verification/Bio_Asn1.thy ===== *)
theory Bio_Asn1
  imports Buf Der
begin

text \<open>
  The part of \<^verbatim>\<open>crypto/bio/bio.c\<close> that reads one ASN.1 element from a BIO of any kind.
\<close>

section \<open>The code\<close>

definition size_sub :: "nat \<Rightarrow> nat \<Rightarrow> nat" where
  "size_sub a b = nat ((int a - int b) mod int size_bound)"

definition kChunkSize :: nat where "kChunkSize = 4096"

text \<open>
  The loop of \<^verbatim>\<open>bio_read_all\<close>: \<open>out\<close> is the buffer with its \<open>len\<close> bytes, \<open>filled\<close> the count of bytes taken as read.
  The result is the buffer cut to that count.
\<close>

partial_function (option) bio_read_all_loop :: "methods \<Rightarrow> nat option \<Rightarrow> nat \<Rightarrow> bytes \<Rightarrow> nat \<Rightarrow> nat \<Rightarrow> world
    \<Rightarrow> (bytes option \<times> world) option" where
  [code]: "bio_read_all_loop tab bio max_len out len filled w
     = (if filled = len then Some (None, w)
        else do {
          let todo = size_sub len filled;
          let todo = (if todo > INT_MAX then INT_MAX else todo);
          (n, data, w) \<leftarrow> BIO_read tab bio (int todo) w;
          if n = 0 then Some (Some (take filled out), w)
          else if n = - 1 then Some (None, w)
          else do {
            let out = mem_write out filled data;
            let filled = nat ((int filled + n) mod int size_bound);
            if len < max_len \<and> size_sub len filled < kChunkSize div 2
            then do {
              let len = size_add len kChunkSize;
              let len = (if len < kChunkSize \<or> len > max_len then max_len else len);
              case w_realloc (Some out) len w of
                (None, w) \<Rightarrow> Some (None, w)
              | (Some out, w) \<Rightarrow> bio_read_all_loop tab bio max_len out len filled w }
            else bio_read_all_loop tab bio max_len out len filled w } })"

definition bio_read_all :: "methods \<Rightarrow> nat option \<Rightarrow> bytes \<Rightarrow> nat \<Rightarrow> world \<Rightarrow> (bytes option \<times> world) option" where
  "bio_read_all tab bio prefix max_len w
     = (let len = size_add (length prefix) kChunkSize;
            len = (if len > max_len then max_len else len) in
        if len < length prefix then Some (None, w)
        else case w_malloc len w of
               (None, w) \<Rightarrow> Some (None, w)
             | (Some n, w) \<Rightarrow>
                 bio_read_all_loop tab bio max_len (mem_write (map (w_fresh w n) [0..<len]) 0 prefix) len (length prefix) w)"

text \<open>
  The result, \<^verbatim>\<open>*out_eof_on_first_read\<close> and the bytes read.
\<close>

partial_function (option) bio_read_full_loop :: "methods \<Rightarrow> nat option \<Rightarrow> bool \<Rightarrow> nat \<Rightarrow> world
    \<Rightarrow> (bool \<times> bool \<times> bytes \<times> world) option" where
  [code]: "bio_read_full_loop tab bio first_read len w
     = (if len > 0
        then do {
          let todo = (if len \<le> INT_MAX then len else INT_MAX);
          (ret, data, w) \<leftarrow> BIO_read tab bio (int todo) w;
          if ret \<le> 0 then Some (False, first_read \<and> ret = 0, [], w)
          else do {
            (ok, eof, out, w) \<leftarrow> bio_read_full_loop tab bio False (len - nat ret) w;
            Some (ok, eof, data @ out, w) } }
        else Some (True, False, [], w))"

definition bio_read_full :: "methods \<Rightarrow> nat option \<Rightarrow> nat \<Rightarrow> world \<Rightarrow> (bool \<times> bool \<times> bytes \<times> world) option" where
  "bio_read_full tab bio len w = bio_read_full_loop tab bio True len w"

text \<open>The reasons put on the error queue; \<open>No_memory\<close> stands for the failure of \<^verbatim>\<open>OPENSSL_malloc\<close>.\<close>

datatype asn1_error = Header_too_long | Not_enough_data | Decode_error | Too_long | No_memory

text \<open>The end of the function, once the header is known.\<close>

definition bio_read_asn1_body :: "methods \<Rightarrow> nat option \<Rightarrow> nat \<Rightarrow> bytes \<Rightarrow> nat \<Rightarrow> world \<Rightarrow> ((asn1_error + bytes) \<times> world) option" where
  "bio_read_asn1_body tab bio max_len header len w
     = (let header_len = length header in
        if size_add len header_len < len \<or> size_add len header_len > max_len \<or> len > INT_MAX then Some (Inl Too_long, w)
        else let len = size_add len header_len in
             case w_malloc len w of
               (None, w) \<Rightarrow> Some (Inl No_memory, w)
             | (Some _, w) \<Rightarrow> do {
                 (ok, _, data, w) \<leftarrow> bio_read_full tab bio (len - header_len) w;
                 if \<not> ok then Some (Inl Not_enough_data, w) else Some (Inr (header @ data), w) })"

definition BIO_read_asn1 :: "methods \<Rightarrow> nat option \<Rightarrow> nat \<Rightarrow> world \<Rightarrow> ((asn1_error + bytes) \<times> world) option" where
  "BIO_read_asn1 tab bio max_len w = do {
     (ok, eof_on_first_read, header, w) \<leftarrow> bio_read_full tab bio 2 w;
     if \<not> ok then Some (Inl (if eof_on_first_read then Header_too_long else Not_enough_data), w)
     else do {
       let tag = header ! 0;
       let length_byte = header ! 1;
       if tag AND 0x1f = 0x1f then Some (Inl Decode_error, w)
       else if length_byte AND 0x80 = 0 then bio_read_asn1_body tab bio max_len header (unat length_byte) w
       else do {
         let num_bytes = unat (length_byte AND 0x7f);
         if tag AND 0x20 \<noteq> 0 \<and> num_bytes = 0
         then do {
           (r, w) \<leftarrow> bio_read_all tab bio header max_len w;
           case r of None \<Rightarrow> Some (Inl Not_enough_data, w) | Some out \<Rightarrow> Some (Inr out, w) }
         else if num_bytes = 0 \<or> num_bytes > 4 then Some (Inl Decode_error, w)
         else do {
           (ok, _, len_bytes, w) \<leftarrow> bio_read_full tab bio num_bytes w;
           if \<not> ok then Some (Inl Not_enough_data, w)
           else do {
             let len32 = foldl (\<lambda>v b. push_bit 8 v OR ucast b) (0 :: u32) len_bytes;
             if len32 < 128 then Some (Inl Decode_error, w)
             else if drop_bit ((num_bytes - 1) * 8) len32 = 0 then Some (Inl Decode_error, w)
             else bio_read_asn1_body tab bio max_len (header @ len_bytes) (unat len32) w } } } } }"

section \<open>Elements in a stream\<close>

text \<open>An element with a short tag \<open>t\<close>, and the strings whose first element has an indefinite length.\<close>

definition stream_element :: "u8 \<Rightarrow> bytes \<Rightarrow> bytes" where
  "stream_element t c = t # der_length (length c) @ c"

definition indefinite :: "bytes \<Rightarrow> bool" where
  "indefinite q \<longleftrightarrow> (\<exists>t r. q = t # 0x80 # r \<and> t AND 0x1f \<noteq> 0x1f \<and> t AND 0x20 \<noteq> 0)"

text \<open>
  The element \<open>out\<close> that is read off a source that holds \<open>q\<close> and ends properly or not, and what remains.
\<close>

definition first_element :: "bool \<Rightarrow> nat \<Rightarrow> bytes \<Rightarrow> bytes \<Rightarrow> bytes \<Rightarrow> bool" where
  "first_element ends max_len q out rest \<longleftrightarrow>
     (if indefinite q then ends \<and> length q < max_len \<and> out = q \<and> rest = []
      else (\<exists>t c. out = stream_element t c \<and> t AND 0x1f \<noteq> 0x1f \<and> length c \<le> INT_MAX)
        \<and> q = out @ rest \<and> length out \<le> max_len)"

text \<open>Memory for everything of up to \<open>n\<close> bytes.\<close>

definition plenty :: "(nat \<Rightarrow> heap) \<Rightarrow> nat \<Rightarrow> bool" where
  "plenty heap n \<longleftrightarrow> (\<forall>i k. k \<le> n \<longrightarrow> OPENSSL_malloc (heap i) k)"

lemma size_sub_exact [simp]: "b \<le> a \<Longrightarrow> a < size_bound \<Longrightarrow> size_sub a b = a - b"
  by (simp add: size_sub_def flip: of_nat_diff)

lemma take_write_end: "n \<le> length d \<Longrightarrow> take (n + length bs) (mem_write d n bs) = take n d @ bs"
  by (simp add: mem_write_def)

lemma length_write_within: "n + length bs \<le> length d \<Longrightarrow> length (mem_write d n bs) = length d"
  by (simp add: mem_write_def)

text \<open>One turn of the loop of \<^verbatim>\<open>bio_read_all\<close> after its read.\<close>

definition all_turn :: "methods \<Rightarrow> nat option \<Rightarrow> nat \<Rightarrow> bytes \<Rightarrow> nat \<Rightarrow> nat \<Rightarrow> int \<times> bytes \<times> world
    \<Rightarrow> (bytes option \<times> world) option" where
  "all_turn tab bio max_len out len filled r
     = (case r of (n, data, w) \<Rightarrow>
          if n = 0 then Some (Some (take filled out), w)
          else if n = - 1 then Some (None, w)
          else let out = mem_write out filled data;
                   filled = nat ((int filled + n) mod int size_bound) in
            if len < max_len \<and> size_sub len filled < 2048
            then let len = size_add len 4096;
                     len = (if len < 4096 \<or> len > max_len then max_len else len) in
                 case w_realloc (Some out) len w of
                   (None, w) \<Rightarrow> Some (None, w)
                 | (Some out, w) \<Rightarrow> bio_read_all_loop tab bio max_len out len filled w
            else bio_read_all_loop tab bio max_len out len filled w)"

lemma all_loop_turn:
  "filled \<noteq> len \<Longrightarrow> BIO_read tab bio (int (min (size_sub len filled) INT_MAX)) w = Some r \<Longrightarrow>
     bio_read_all_loop tab bio max_len out len filled w = all_turn tab bio max_len out len filled r"
  by (cases r; cases "INT_MAX < size_sub len filled")
    (simp_all add: bio_read_all_loop.simps [of tab bio max_len out len filled w] all_turn_def Let_def kChunkSize_def min_def)

text \<open>The size of the header and the length it gives, read off the bytes.\<close>

definition parse_head :: "bytes \<Rightarrow> (nat \<times> nat) option" where
  "parse_head q
     = (if length q < 2 then None
        else let l = unat (q ! 1) in
          if l < 128 then Some (2, l)
          else let k = l - 128; v = be_val (take k (drop 2 q)) in
            if k = 0 \<or> 4 < k \<or> length q < 2 + k \<or> v < 128 \<or> v < 256 ^ (k - 1) then None else Some (2 + k, v))"

lemma take_2: "2 \<le> length q \<Longrightarrow> take 2 q = [q ! 0, q ! 1]"
  by (cases q; cases "tl q") auto

lemma parse_head_sound:
  assumes "parse_head q = Some (hl, n)"
  shows "take hl q = q ! 0 # der_length n" "hl \<le> length q" "n < 4294967296" "2 \<le> length q"
proof -
  from assms have l: "2 \<le> length q" by (simp add: parse_head_def split: if_splits)
  have "take hl q = q ! 0 # der_length n \<and> hl \<le> length q \<and> n < 4294967296"
  proof (cases "unat (q ! 1) < 128")
    case True
    then have "hl = 2" "n = unat (q ! 1)" using assms by (simp_all add: parse_head_def Let_def split: if_splits)
    then show ?thesis using l True take_2 [OF l] by (simp add: der_length_def)
  next
    case False
    define k where "k = unat (q ! 1) - 128"
    have h: "hl = 2 + k" "n = be_val (take k (drop 2 q))" "k \<noteq> 0" "k \<le> 4" "2 + k \<le> length q" "128 \<le> n" "256 ^ (k - 1) \<le> n"
      using assms False by (simp_all add: parse_head_def Let_def k_def split: if_splits)
    have b: "n < 256 ^ k" using be_val_less [of "take k (drop 2 q)" k] h(2) by simp
    then have bc: "byte_count n = k" by (rule byte_count_unique) (use h in auto)
    have be: "be_bytes k n = take k (drop 2 q)" using be_bytes_be_val [of "take k (drop 2 q)"] h(2,5) by simp
    have q1: "q ! 1 = word_of_nat (128 + k)" using False by (simp add: k_def)
    have "der_length n = q ! 1 # take k (drop 2 q)" unfolding der_length_def bc be q1 using h(6) by simp
    moreover have "take hl q = [q ! 0, q ! 1] @ take k (drop 2 q)" unfolding h(1) take_add take_2 [OF l] by simp
    ultimately have "take hl q = q ! 0 # der_length n" by simp
    moreover have "(256 :: nat) ^ k \<le> 256 ^ 4" using h(4) by (intro power_increasing) auto
    ultimately show ?thesis using h(1,5) b by simp
  qed
  then show "take hl q = q ! 0 # der_length n" "hl \<le> length q" "n < 4294967296" "2 \<le> length q" using l by simp_all
qed

lemma parse_head_complete:
  assumes "n < 4294967296"
  shows "parse_head (t # der_length n @ r) = Some (1 + length (der_length n), n)"
proof (cases "n < 128")
  case True
  then show ?thesis by (simp add: der_length_def parse_head_def Let_def unat_of_nat)
next
  case False
  note b = byte_count_bounds [of n]
  have k: "byte_count n \<le> 4"
  proof (rule ccontr)
    assume "\<not> ?thesis"
    then have "(256 :: nat) ^ 4 \<le> 256 ^ (byte_count n - 1)" by (intro power_increasing) auto
    with b(2) False assms show False by simp
  qed
  then have u: "unat (word_of_nat (128 + byte_count n) :: u8) = 128 + byte_count n" by (simp add: unat_of_nat del: of_nat_add)
  have "be_val (be_bytes (byte_count n) n) = n" using b(1) by (simp add: be_val_be_bytes)
  then show ?thesis using False k b(2) by (simp add: der_length_def parse_head_def Let_def u [simplified])
qed

lemma stream_element_head:
  "\<not> indefinite q \<Longrightarrow> first_element ends max_len q out rest \<longleftrightarrow>
     (\<exists>hl n. parse_head q = Some (hl, n) \<and> q ! 0 AND 0x1f \<noteq> 0x1f \<and> n \<le> INT_MAX \<and> hl + n \<le> max_len \<and> hl + n \<le> length q
        \<and> out = take (hl + n) q \<and> rest = drop (hl + n) q)" (is "_ \<Longrightarrow> ?l = ?r")
proof
  assume i: "\<not> indefinite q" and ?l
  then obtain t c where e: "out = stream_element t c" "t AND 0x1f \<noteq> 0x1f" "length c \<le> INT_MAX" "q = out @ rest" "length out \<le> max_len"
    by (auto simp: first_element_def)
  have "parse_head q = Some (1 + length (der_length (length c)), length c)"
    using parse_head_complete [of "length c" t "c @ rest"] e(3,4) unfolding e(1) stream_element_def by simp
  moreover have "q ! 0 = t" "length out = 1 + length (der_length (length c)) + length c"
    using e(4) unfolding e(1) stream_element_def by simp_all
  ultimately show ?r using e(2-5) by auto
next
  assume i: "\<not> indefinite q" and ?r
  then obtain hl n where h: "parse_head q = Some (hl, n)" "q ! 0 AND 0x1f \<noteq> 0x1f" "n \<le> INT_MAX" "hl + n \<le> max_len" "hl + n \<le> length q"
    "out = take (hl + n) q" "rest = drop (hl + n) q" by blast
  have "out = stream_element (q ! 0) (take n (drop hl q))"
    using parse_head_sound(1) [OF h(1)] h(5) unfolding h(6) stream_element_def take_add by simp
  moreover have "length (take n (drop hl q)) \<le> INT_MAX" using h(3) by simp
  ultimately have "\<exists>t c. out = stream_element t c \<and> t AND 0x1f \<noteq> 0x1f \<and> length c \<le> INT_MAX" using h(2) by blast
  then show ?l using i h(4-7) by (simp add: first_element_def)
qed

text \<open>What the bits of the second byte say.\<close>

lemma length_byte:
  "(b :: u8) AND 0x80 = 0 \<longleftrightarrow> unat b < 128" "unat ((b :: u8) AND 0x7f) = unat b mod 128"
proof -
  have "unat (b AND mask 7) = unat b mod 2 ^ 7" by (rule unat_and_mask)
  then show "unat (b AND 0x7f) = unat b mod 128" by (simp add: mask_eq_exp_minus_1)
  have "0x80 = (2 ^ 7 :: u8)" by simp
  then have "b AND 0x80 = 0 \<longleftrightarrow> \<not> bit b 7" by (metis and.commute and_exp_eq_0_iff_not_bit)
  also have "\<dots> \<longleftrightarrow> unat b < 128" using word_top_bit_iff [of 7 b] by auto
  finally show "b AND 0x80 = 0 \<longleftrightarrow> unat b < 128" .
qed

lemma be_fold32: "length data \<le> 4 \<Longrightarrow> unat (foldl (\<lambda>r b. push_bit 8 r OR ucast b) (0 :: u32) data) = be_val data"
proof -
  have "foldl (\<lambda>r b. push_bit 8 r OR ucast b) (word_of_nat a :: u32) data = word_of_nat (a * 256 ^ length data + be_val data)" for a
  proof (induction data arbitrary: a)
    case (Cons b data)
    have "push_bit 8 (word_of_nat a :: u32) OR ucast b = word_of_nat (a * 256 + unat b)" by (rule word_shift_or_byte) simp
    then show ?case
      using Cons [of "a * 256 + unat b"] by (simp only: foldl_Cons be_val_Cons) (simp add: algebra_simps)
  qed simp
  from this [of 0] show "length data \<le> 4 \<Longrightarrow> ?thesis" using be_val_less [of data 4] by (simp add: unat_of_nat)
qed

section \<open>Sources of bytes\<close>

text \<open>
  What reading needs of a BIO: in a state that holds the bytes \<open>q\<close>, a read takes some of them from the front,
  at least one if there is one, and otherwise gives the answer \<open>eof\<close>; allocations made in between do not matter.
\<close>

locale byte_source =
  fixes tab :: methods and b :: nat and holds :: "bytes \<Rightarrow> world \<Rightarrow> bool" and eof :: int and heap :: "nat \<Rightarrow> heap"
  assumes eof_neg: "eof \<le> 0"
    and same_heap: "holds q w \<Longrightarrow> w_heap w = heap"
    and alloc: "holds q w \<Longrightarrow> holds q (w\<lparr>w_next := n\<rparr>)"
    and read_some: "holds q w \<Longrightarrow> q \<noteq> [] \<Longrightarrow> 0 < n \<Longrightarrow> n \<le> INT_MAX \<Longrightarrow>
      \<exists>k w'. 0 < k \<and> k \<le> n \<and> k \<le> length q \<and> BIO_read tab (Some b) (int n) w = Some (int k, take k q, w') \<and> holds (drop k q) w'"
    and read_none: "holds [] w \<Longrightarrow> 0 < n \<Longrightarrow> n \<le> INT_MAX \<Longrightarrow>
      \<exists>w'. BIO_read tab (Some b) (int n) w = Some (eof, [], w') \<and> holds [] w'"
begin

lemma read_full:
  assumes "holds q w"
  shows "\<exists>w'. bio_read_full_loop tab (Some b) first len w
      = Some (len \<le> length q, len > length q \<and> first \<and> q = [] \<and> eof = 0, take len q, w') \<and> holds (drop len q) w'"
  using assms
proof (induction len arbitrary: q w first rule: less_induct)
  case (less len)
  show ?case
  proof (cases "len = 0")
    case True
    then show ?thesis using less.prems by (simp add: bio_read_full_loop.simps [of _ _ _ 0])
  next
    case False
    define todo where "todo = (if len \<le> INT_MAX then len else INT_MAX)"
    have todo: "0 < todo" "todo \<le> INT_MAX" "todo \<le> len" using False by (auto simp: todo_def)
    note unf = bio_read_full_loop.simps [of tab "Some b" first len w, folded todo_def]
    show ?thesis
    proof (cases "q = []")
      case True
      obtain w' where "BIO_read tab (Some b) (int todo) w = Some (eof, [], w')" "holds [] w'"
        using read_none [OF _ todo(1,2)] less.prems True by blast
      then show ?thesis using True False eof_neg by (simp add: unf Let_def flip: todo_def)
    next
      case q: False
      obtain k w1 where k: "0 < k" "k \<le> todo" "k \<le> length q" "BIO_read tab (Some b) (int todo) w = Some (int k, take k q, w1)"
        "holds (drop k q) w1" using read_some [OF less.prems q todo(1,2)] by blast
      have "len - k < len" using k(1) False by simp
      from less.IH [OF this k(5), of False] obtain w2 where
        r: "bio_read_full_loop tab (Some b) False (len - k) w1 = Some (len - k \<le> length (drop k q), False, take (len - k) (drop k q), w2)"
          "holds (drop (len - k) (drop k q)) w2" by auto
      have e: "take k q @ take (len - k) (drop k q) = take len q" "drop (len - k) (drop k q) = drop len q"
        using k(2) todo(3) by (metis le_add_diff_inverse order_trans take_add, simp)
      have "(len - k \<le> length q - k) = (len \<le> length q)" using k(3) by linarith
      then show ?thesis using False q k r(2) unfolding e(2)
        by (simp add: unf Let_def r(1) e(1) flip: todo_def)
    qed
  qed
qed

lemma read_all:
  assumes "eof = 0 \<or> eof = - 1" "plenty heap max_len" "max_len < 9223372036854775808"
    and "holds q w" "length out = len" "filled \<le> len" "len \<le> max_len" "len < max_len \<Longrightarrow> filled + 2048 \<le> len"
  shows "\<exists>w'. bio_read_all_loop tab (Some b) max_len out len filled w
      = Some (if eof = 0 \<and> filled + length q < max_len then Some (take filled out @ q) else None, w')
    \<and> (eof = 0 \<and> filled + length q < max_len \<longrightarrow> holds [] w')"
  using assms(4-8)
proof (induction "length q" arbitrary: q w out len filled rule: less_induct)
  case less
  note unf = bio_read_all_loop.simps [of tab "Some b" max_len out len filled w]
  have sz: "max_len < size_bound" "len < size_bound" using assms(3) less.prems(4) by simp_all
  show ?case
  proof (cases "filled = len")
    case True
    then have "len = max_len" using less.prems(4,5) by force
    then show ?thesis using True unfolding unf by simp
  next
    case False
    define todo where "todo = min (size_sub len filled) INT_MAX"
    have todo: "0 < todo" "todo \<le> INT_MAX" "todo \<le> len - filled" using False less.prems(3) sz by (auto simp: todo_def)
    note turn = all_loop_turn [OF False, of tab "Some b" w _ max_len out, folded todo_def]
    show ?thesis
    proof (cases "q = []")
      case True
      obtain w' where "BIO_read tab (Some b) (int todo) w = Some (eof, [], w')" "holds [] w'"
        using read_none [OF _ todo(1,2)] less.prems(1) True by blast
      then show ?thesis using assms(1) True False less.prems(3,4) by (auto simp: turn all_turn_def)
    next
      case q: False
      obtain k w1 where k: "0 < k" "k \<le> todo" "k \<le> length q" "BIO_read tab (Some b) (int todo) w = Some (int k, take k q, w1)"
        "holds (drop k q) w1" using read_some [OF less.prems(1) q todo(1,2)] by blast
      define out1 where "out1 = mem_write out filled (take k q)"
      have fk: "nat ((int filled + int k) mod int size_bound) = filled + k" "filled + k \<le> len"
        using k(2) todo(3) less.prems(3) sz by (simp_all flip: of_nat_add)
      have out1: "length out1 = len" "take (filled + k) out1 = take filled out @ take k q"
        using less.prems(2,3) k(3) fk(2) take_write_end [of filled out "take k q"]
        by (simp_all add: out1_def length_write_within min_absorb2)
      have lt: "length (drop k q) < length q" "filled + k + length (drop k q) = filled + length q" using k(1,3) q by auto
      show ?thesis
      proof (cases "len < max_len \<and> len - (filled + k) < 2048")
        case grow: True
        define len1 where "len1 = min (len + 4096) max_len"
        have l1: "(if size_add len 4096 < 4096 \<or> size_add len 4096 > max_len then max_len else size_add len 4096) = len1"
          using grow assms(3) by (simp add: len1_def min_def)
        have le: "len \<le> len1" "len1 \<le> max_len" using less.prems(4) by (auto simp: len1_def)
        have "OPENSSL_malloc (w_heap w1 (w_next w1)) len1" using assms(2) le(2) same_heap [OF k(5)] by (simp add: plenty_def)
        then obtain out2 where re: "w_realloc (Some out1) len1 w1 = (Some out2, w1\<lparr>w_next := w_next w1 + 1\<rparr>)"
          and out2: "length out2 = len1" "take (filled + k) out2 = take (filled + k) out1"
          using out1(1) fk(2) le(1) by (auto simp: w_realloc_def OPENSSL_realloc_def)
        have "len1 < max_len \<Longrightarrow> filled + k + 2048 \<le> len1" using grow fk(2) by (auto simp: len1_def)
        from less.hyps [OF lt(1) alloc [OF k(5)] out2(1) _ le(2) this] obtain w2 where
          "bio_read_all_loop tab (Some b) max_len out2 len1 (filled + k) (w1\<lparr>w_next := w_next w1 + 1\<rparr>)
             = Some (if eof = 0 \<and> filled + length q < max_len then Some (take (filled + k) out2 @ drop k q) else None, w2)"
          "eof = 0 \<and> filled + length q < max_len \<longrightarrow> holds [] w2" using fk(2) le(1) unfolding lt(2) by auto
        moreover have "bio_read_all_loop tab (Some b) max_len out len filled w
            = bio_read_all_loop tab (Some b) max_len out2 len1 (filled + k) (w1\<lparr>w_next := w_next w1 + 1\<rparr>)"
          using turn [OF k(4)] k(1) grow sz fk re l1 by (simp add: all_turn_def Let_def out1_def)
        ultimately show ?thesis using out1(2) out2(2) by auto
      next
        case stay: False
        then have "len < max_len \<Longrightarrow> filled + k + 2048 \<le> len" using fk(2) by auto
        from less.hyps [OF lt(1) k(5) out1(1) fk(2) less.prems(4) this] obtain w2 where
          "bio_read_all_loop tab (Some b) max_len out1 len (filled + k) w1
             = Some (if eof = 0 \<and> filled + length q < max_len then Some (take (filled + k) out1 @ drop k q) else None, w2)"
          "eof = 0 \<and> filled + length q < max_len \<longrightarrow> holds [] w2" unfolding lt(2) by auto
        moreover have "bio_read_all_loop tab (Some b) max_len out len filled w
            = bio_read_all_loop tab (Some b) max_len out1 len (filled + k) w1"
          using turn [OF k(4)] k(1) stay sz fk by (auto simp add: all_turn_def Let_def out1_def)
        ultimately show ?thesis using out1(2) by auto
      qed
    qed
  qed
qed

lemma read_asn1_body:
  assumes "plenty heap max_len" "max_len < 9223372036854775808" "holds rest w" "length header \<le> 6" "n < 4294967296"
  shows "\<exists>r w'. bio_read_asn1_body tab (Some b) max_len header n w = Some (r, w')
    \<and> (if n \<le> INT_MAX \<and> length header + n \<le> max_len \<and> n \<le> length rest
       then r = Inr (header @ take n rest) \<and> holds (drop n rest) w' else \<exists>e. r = Inl e)"
proof -
  have sz: "size_add n (length header) = n + length header" using assms(4,5) by (intro size_add_exact) simp
  show ?thesis
  proof (cases "n \<le> INT_MAX \<and> n + length header \<le> max_len")
    case True
    have "OPENSSL_malloc (w_heap w (w_next w)) (n + length header)"
      using assms(1) True same_heap [OF assms(3)] by (simp add: plenty_def)
    then have m: "w_malloc (n + length header) w = (Some (w_next w), w\<lparr>w_next := w_next w + 1\<rparr>)" by (simp add: w_malloc_def)
    obtain w' where r: "bio_read_full tab (Some b) n (w\<lparr>w_next := w_next w + 1\<rparr>)
        = Some (n \<le> length rest, n > length rest \<and> rest = [] \<and> eof = 0, take n rest, w')" "holds (drop n rest) w'"
      using read_full [OF alloc [OF assms(3)], of True n] unfolding bio_read_full_def by auto
    then show ?thesis using True sz m by (auto simp: bio_read_asn1_body_def Let_def)
  next
    case False
    then have "bio_read_asn1_body tab (Some b) max_len header n w = Some (Inl Too_long, w)"
      unfolding bio_read_asn1_body_def Let_def sz by auto
    then show ?thesis using False by (auto simp: add.commute)
  qed
qed

lemma read_indefinite:
  assumes "eof = 0 \<or> eof = - 1" "plenty heap max_len" "max_len < 9223372036854775808" "holds q w" "length prefix = 2"
  shows "\<exists>w'. bio_read_all tab (Some b) prefix max_len w
      = Some (if eof = 0 \<and> 2 + length q < max_len then Some (prefix @ q) else None, w')
    \<and> (eof = 0 \<and> 2 + length q < max_len \<longrightarrow> holds [] w')"
proof -
  define len where "len = min 4098 max_len"
  have l: "(if size_add 2 kChunkSize > max_len then max_len else size_add 2 kChunkSize) = len"
    by (simp add: len_def kChunkSize_def min_def)
  show ?thesis
  proof (cases "len < 2")
    case True
    then have "bio_read_all tab (Some b) prefix max_len w = Some (None, w)"
      unfolding bio_read_all_def Let_def assms(5) l by simp
    then show ?thesis using True by (auto simp: len_def min_def split: if_splits)
  next
    case False
    have "OPENSSL_malloc (w_heap w (w_next w)) len" using assms(2) same_heap [OF assms(4)] by (simp add: plenty_def len_def)
    then have m: "w_malloc len w = (Some (w_next w), w\<lparr>w_next := w_next w + 1\<rparr>)" by (simp add: w_malloc_def)
    define out where "out = mem_write (map (w_fresh (w\<lparr>w_next := w_next w + 1\<rparr>) (w_next w)) [0..<len]) 0 prefix"
    have out: "length out = len" "take 2 out = prefix" using False assms(5) by (simp_all add: out_def mem_write_def)
    have "bio_read_all tab (Some b) prefix max_len w
        = bio_read_all_loop tab (Some b) max_len out len 2 (w\<lparr>w_next := w_next w + 1\<rparr>)"
      unfolding bio_read_all_def Let_def assms(5) l using False m by (simp add: out_def)
    moreover have "2 \<le> len" "len \<le> max_len" "len < max_len \<Longrightarrow> 2 + 2048 \<le> len" using False by (auto simp: len_def)
    from read_all [OF assms(1-3) alloc [OF assms(4)] out(1) this, of "w_next w + 1"] obtain w' where
      "bio_read_all_loop tab (Some b) max_len out len 2 (w\<lparr>w_next := w_next w + 1\<rparr>)
         = Some (if eof = 0 \<and> 2 + length q < max_len then Some (take 2 out @ q) else None, w')"
      "eof = 0 \<and> 2 + length q < max_len \<longrightarrow> holds [] w'" by blast
    ultimately show ?thesis by (simp add: out(2))
  qed
qed

lemma read_asn1_finish:
  assumes "plenty heap max_len" "max_len < 9223372036854775808" "\<not> indefinite q" "q ! 0 AND 0x1f \<noteq> 0x1f"
    and "parse_head q = Some (hl, n)" "holds (drop hl q) w2" "hl \<le> 6"
    and "BIO_read_asn1 tab (Some b) max_len w = bio_read_asn1_body tab (Some b) max_len (take hl q) n w2"
  shows "\<exists>r w'. BIO_read_asn1 tab (Some b) max_len w = Some (r, w')
    \<and> (case r of Inr out \<Rightarrow> \<exists>rest. first_element (eof = 0) max_len q out rest \<and> holds rest w'
       | Inl _ \<Rightarrow> \<not> (\<exists>out rest. first_element (eof = 0) max_len q out rest))"
proof -
  note h = parse_head_sound [OF assms(5)]
  have len: "length (take hl q) = hl" using h(2) by simp
  obtain r w' where r: "bio_read_asn1_body tab (Some b) max_len (take hl q) n w2 = Some (r, w')"
    "if n \<le> INT_MAX \<and> hl + n \<le> max_len \<and> n \<le> length (drop hl q)
     then r = Inr (take hl q @ take n (drop hl q)) \<and> holds (drop n (drop hl q)) w' else \<exists>e. r = Inl e"
    using read_asn1_body [OF assms(1,2,6) _ h(3), of "take hl q"] assms(7) unfolding len by auto
  have d: "n \<le> length (drop hl q) \<longleftrightarrow> hl + n \<le> length q" using h(2) by auto
  show ?thesis
  proof (cases "n \<le> INT_MAX \<and> hl + n \<le> max_len \<and> n \<le> length (drop hl q)")
    case True
    then have "r = Inr (take (hl + n) q)" "holds (drop (hl + n) q) w'" using r(2) by (simp_all add: take_add add.commute)
    then show ?thesis using assms(4,5,8) r(1) True d by (auto simp: stream_element_head [OF assms(3)])
  next
    case False
    then obtain e where "r = Inl e" using r(2) by auto
    then show ?thesis using assms(5,8) r(1) False d by (auto simp: stream_element_head [OF assms(3)])
  qed
qed

lemma read_asn1:
  assumes "eof = 0 \<or> eof = - 1" "plenty heap max_len" "max_len < 9223372036854775808" "holds q w"
  shows "\<exists>r w'. BIO_read_asn1 tab (Some b) max_len w = Some (r, w')
    \<and> (case r of Inr out \<Rightarrow> \<exists>rest. first_element (eof = 0) max_len q out rest \<and> holds rest w'
       | Inl _ \<Rightarrow> \<not> (\<exists>out rest. first_element (eof = 0) max_len q out rest))"
proof -
  obtain w1 where 1: "bio_read_full tab (Some b) 2 w = Some (2 \<le> length q, 2 > length q \<and> q = [] \<and> eof = 0, take 2 q, w1)"
    "holds (drop 2 q) w1" using read_full [OF assms(4), of True 2] unfolding bio_read_full_def by auto
  show ?thesis
  proof (cases "2 \<le> length q")
    case False
    then have "\<not> indefinite q" "parse_head q = None" by (auto simp: indefinite_def parse_head_def)
    then show ?thesis using 1(1) False by (auto simp: BIO_read_asn1_def stream_element_head)
  next
    case two: True
    have q2: "take 2 q = [q ! 0, q ! 1]" using take_2 [OF two] .
    show ?thesis
    proof (cases "q ! 0 AND 0x1f = 0x1f")
      case True
      have "\<not> indefinite q" using True by (auto simp: indefinite_def)
      then show ?thesis using 1(1) two True by (auto simp: BIO_read_asn1_def stream_element_head q2)
    next
      case tag: False
      note start = BIO_read_asn1_def [of tab "Some b" max_len w]
      have 1: "bio_read_full tab (Some b) 2 w = Some (True, False, [q ! 0, q ! 1], w1)" using 1(1) two q2 by simp
      have none: ?thesis if "parse_head q = None" "\<not> indefinite q" "BIO_read_asn1 tab (Some b) max_len w = Some (Inl e, w')" for e w'
        using that by (simp add: stream_element_head)
      consider "unat (q ! 1) < 128" | "q ! 1 = 0x80" "q ! 0 AND 0x20 \<noteq> 0"
        | "128 \<le> unat (q ! 1)" "\<not> (q ! 1 = 0x80 \<and> q ! 0 AND 0x20 \<noteq> 0)"
        by fastforce
      then show ?thesis
      proof cases
        case short: 1
        have "parse_head q = Some (2, unat (q ! 1))" using two short by (simp add: parse_head_def)
        moreover have "\<not> indefinite q" using short by (auto simp: indefinite_def)
        ultimately show ?thesis
          by (intro read_asn1_finish [OF assms(2,3) _ tag _ \<open>holds (drop 2 q) w1\<close>]) (use 1 tag short in \<open>simp_all add: start length_byte q2 Let_def\<close>)
      next
        case ind: 2
        have q: "q = q ! 0 # 0x80 # drop 2 q" using q2 ind(1) append_take_drop_id [of 2 q] by simp
        then have i: "indefinite q" using tag ind(2) unfolding indefinite_def by blast
        have "length [q ! 0, q ! 1] = 2" by simp
        from read_indefinite [OF assms(1-3) \<open>holds (drop 2 q) w1\<close> this] obtain w' where
          r: "bio_read_all tab (Some b) [q ! 0, q ! 1] max_len w1
            = Some (if eof = 0 \<and> 2 + length (drop 2 q) < max_len then Some ([q ! 0, q ! 1] @ drop 2 q) else None, w')"
          "eof = 0 \<and> 2 + length (drop 2 q) < max_len \<longrightarrow> holds [] w'" by blast
        have n: "(0x80 :: u8) AND 0x80 \<noteq> 0" "unat ((0x80 :: u8) AND 0x7f) = 0" by (simp_all add: length_byte)
        have e: "2 + length (drop 2 q) = length q" "[q ! 0, q ! 1] @ drop 2 q = q"
          using two append_take_drop_id [of 2 q] unfolding q2 by simp_all
        have s: "BIO_read_asn1 tab (Some b) max_len w
            = Some (if eof = 0 \<and> length q < max_len then Inr q else Inl Not_enough_data, w')"
          using r(1) 1 tag n ind unfolding e by (simp add: start Let_def)
        show ?thesis
        proof (cases "eof = 0 \<and> length q < max_len")
          case True
          then have "first_element (eof = 0) max_len q q []" "holds [] w'" using r(2) i e(1) by (simp_all add: first_element_def)
          then show ?thesis using s True by auto
        next
          case False
          then have "\<not> first_element (eof = 0) max_len q out rest" for out rest using i by (auto simp: first_element_def)
          then show ?thesis using s False by auto
        qed
      next
        case 3
        define k where "k = unat (q ! 1) - 128"
        have "k < 128" using 3(1) byte_lt [of "q ! 1"] unfolding k_def by linarith
        then have "unat (q ! 1) mod 128 = k" using 3(1) le_mod_geq [of 128 "unat (q ! 1)"] by (simp add: k_def)
        then have l: "\<not> unat (q ! 1) < 128" "unat (q ! 1 AND 0x7f) = k" using 3(1) unfolding length_byte(2) by linarith+
        have z: "k = 0 \<longleftrightarrow> q ! 1 = 0x80" using 3(1) by (auto simp: k_def word_unat_eq_iff)
        have i: "\<not> indefinite q" using 3(2) by (auto simp: indefinite_def)
        have hi: "q ! 1 AND 0x80 \<noteq> 0" using l(1) by (simp add: length_byte(1))
        have ph: "parse_head q = (if k = 0 \<or> 4 < k \<or> length q < 2 + k \<or> be_val (take k (drop 2 q)) < 128
            \<or> be_val (take k (drop 2 q)) < 256 ^ (k - 1) then None else Some (2 + k, be_val (take k (drop 2 q))))"
          unfolding parse_head_def Let_def k_def [symmetric] using two l(1) by auto
        show ?thesis
        proof (cases "k = 0 \<or> 4 < k")
          case True
          then show ?thesis using 1 tag l(2) hi z 3(2)
            by (intro none [OF _ i, of Decode_error w1]) (auto simp: start ph Let_def)
        next
          case k: False
          obtain w2 where 2: "bio_read_full tab (Some b) k w1 = Some (k \<le> length (drop 2 q), k > length (drop 2 q) \<and> drop 2 q = [] \<and> eof = 0,
              take k (drop 2 q), w2)" "holds (drop k (drop 2 q)) w2"
            using read_full [OF \<open>holds (drop 2 q) w1\<close>, of True k] unfolding bio_read_full_def by auto
          show ?thesis
          proof (cases "2 + k \<le> length q")
            case False
            then show ?thesis using 1 tag l(2) hi z 3(2) two k 2(1)
              by (intro none [OF _ i, of Not_enough_data w2]) (auto simp: start ph Let_def)
          next
            case enough: True
            define v where "v = be_val (take k (drop 2 q))"
            have u: "unat (foldl (\<lambda>r b. push_bit 8 r OR ucast b) (0 :: u32) (take k (drop 2 q))) = v"
              unfolding v_def by (rule be_fold32) (use k in auto)
            have small: "foldl (\<lambda>r b. push_bit 8 r OR ucast b) (0 :: u32) (take k (drop 2 q)) < 128 \<longleftrightarrow> v < 128"
              using u by (simp add: word_less_nat_alt)
            have zero: "drop_bit ((k - 1) * 8) (foldl (\<lambda>r b. push_bit 8 r OR ucast b) (0 :: u32) (take k (drop 2 q))) = 0
                \<longleftrightarrow> v < 256 ^ (k - 1)"
              unfolding shift_zero_iff u by (simp add: power_mult mult.commute [of _ 8] del: One_nat_def)
            have le: "k \<le> length q - 2" using enough by simp
            have tk: "take (2 + k) q = [q ! 0, q ! 1] @ take k (drop 2 q)" unfolding take_add q2 ..
            have r: "BIO_read_asn1 tab (Some b) max_len w
                = (if v < 128 \<or> v < 256 ^ (k - 1) then Some (Inl Decode_error, w2)
                   else bio_read_asn1_body tab (Some b) max_len (take (2 + k) q) v w2)"
              using 1 tag l(2) hi z 3(2) k 2(1) le tk
              by (simp add: start Let_def small zero u del: One_nat_def)
            show ?thesis
            proof (cases "v < 128 \<or> v < 256 ^ (k - 1)")
              case True
              then show ?thesis using r
                by (intro none [OF _ i, of Decode_error w2]) (auto simp: ph v_def)
            next
              case False
              have p: "parse_head q = Some (2 + k, v)" using k enough False by (auto simp: ph v_def)
              show ?thesis
                by (rule read_asn1_finish [OF assms(2,3) i tag p _ _ ]) (use r False k 2(2) in \<open>simp_all add: add.commute\<close>)
            qed
          qed
        qed
      qed
    qed
  qed
qed

end

end
