(* ===== verification/Bio_Queue.thy ===== *)
theory Bio_Queue
  imports Bio_Mem Bio_Asn1 "HOL-Library.Code_Target_Nat"
begin

text \<open>
  The memory BIO is a queue of bytes: what is written is appended to the contents of its \<^verbatim>\<open>BUF_MEM\<close>, what is
  read is taken from the front, and a failing allocation changes nothing.
\<close>

section \<open>The buffer\<close>

definition buf_ok :: "bool \<Rightarrow> buf_mem_st \<Rightarrow> bool" where
  "buf_ok rdonly u \<longleftrightarrow> bm_length u \<le> bm_max u \<and> bm_max u < 9223372036854775808
     \<and> (case bm_data u of None \<Rightarrow> bm_length u = 0 \<and> bm_max u = 0 \<and> bm_start u = 0
        | Some d \<Rightarrow> if rdonly then bm_start u + bm_length u = bm_max u \<and> bm_max u \<le> length d
                    else bm_start u = 0 \<and> length d = bm_max u)"

definition buf_bytes :: "buf_mem_st \<Rightarrow> bytes" where
  "buf_bytes u = (case bm_data u of None \<Rightarrow> [] | Some d \<Rightarrow> take (bm_length u) (drop (bm_start u) d))"

lemma length_buf_bytes [simp]: "buf_ok ro u \<Longrightarrow> length (buf_bytes u) = bm_length u"
  by (cases "bm_data u") (auto simp: buf_ok_def buf_bytes_def split: if_splits)

lemma buf_upd_eq: "bufs w a = Some u \<Longrightarrow> buf_upd a f w = Some (w\<lparr>bufs := (bufs w)(a \<mapsto> f u)\<rparr>)"
  by (simp add: buf_upd_def)

text \<open>The capacity after a request for \<open>n\<close> bytes.\<close>

definition buf_room :: "nat \<Rightarrow> nat" where "buf_room n = (n + 3) div 3 * 4"

lemma buf_room_le: "n \<le> buf_room n" "buf_room n \<le> 2 * n + 4"
  by (simp_all add: buf_room_def)

lemma reserve_cases:
  assumes "bufs w a = Some u" "buf_ok False u" "n \<le> 2305843009213693952"
  obtains "bm_max u < n" "\<not> OPENSSL_malloc (w_heap w (w_next w)) (buf_room n)"
      "BUF_MEM_reserve a n w = Some (False, w\<lparr>w_next := w_next w + 1\<rparr>)"
    | u' k where "BUF_MEM_reserve a n w = Some (True, w\<lparr>w_next := k, bufs := (bufs w)(a \<mapsto> u')\<rparr>)" "buf_ok False u'"
      "n \<le> bm_max u'" "bm_length u' = bm_length u" "buf_bytes u' = buf_bytes u"
proof (cases "bm_max u \<ge> n")
  case True
  then have "BUF_MEM_reserve a n w = Some (True, w)" using assms(1) by (simp add: BUF_MEM_reserve_def)
  moreover have "w = w\<lparr>w_next := w_next w, bufs := (bufs w)(a \<mapsto> u)\<rparr>" using assms(1) by (simp add: fun_upd_idem)
  ultimately show ?thesis using that(2) [of u "w_next w"] assms(2) True by simp
next
  case False
  have s: "size_add n 3 = n + 3" using assms(3) by (intro size_add_exact) simp
  have "(n + 3) div 3 \<le> n + 3" by simp
  then have m: "size_mul ((n + 3) div 3) 4 = buf_room n" unfolding buf_room_def using assms(3) by (intro size_mul_exact) linarith
  have st: "bm_start u = 0" using assms(2) by (auto simp: buf_ok_def split: option.splits)
  note r = BUF_MEM_reserve_def [of a n w] assms(1) False s m st
  have div: "buf_room n div 4 = (n + 3) div 3" by (simp add: buf_room_def)
  show ?thesis
  proof (cases "OPENSSL_malloc (w_heap w (w_next w)) (buf_room n)")
    case no: False
    then have "BUF_MEM_reserve a n w = Some (False, w\<lparr>w_next := w_next w + 1\<rparr>)"
      by (simp add: r div w_realloc_def OPENSSL_realloc_def)
    then show ?thesis using that(1) no False by simp
  next
    case yes: True
    define d where "d = (case bm_data u of None \<Rightarrow> [] | Some d \<Rightarrow> d)"
    define new where "new = take (buf_room n) d @ map (w_fresh w (w_next w)) [length d..<buf_room n]"
    define u' where "u' = u\<lparr>bm_data := Some new, bm_max := buf_room n\<rparr>"
    have e: "BUF_MEM_reserve a n w = Some (True, w\<lparr>w_next := w_next w + 1, bufs := (bufs w)(a \<mapsto> u')\<rparr>)"
      using yes by (simp add: r div w_realloc_def OPENSSL_realloc_def buf_upd_def u'_def new_def d_def Let_def)
    have ld: "length d = bm_max u" "bm_length u \<le> bm_max u" using assms(2) by (auto simp: buf_ok_def d_def split: option.splits)
    have "length new = buf_room n" by (simp add: new_def)
    moreover have "take (bm_length u) new = take (bm_length u) d"
      using ld False buf_room_le(1) [of n] by (simp add: new_def min_def)
    moreover have "buf_bytes u = take (bm_length u) d" using assms(2) st by (auto simp: buf_bytes_def d_def buf_ok_def split: option.splits)
    moreover have "buf_room n < 9223372036854775808" using buf_room_le(2) [of n] assms(3) by linarith
    ultimately have "buf_ok False u'" "buf_bytes u' = buf_bytes u"
      using ld False buf_room_le [of n] st assms(3) by (auto simp: u'_def buf_ok_def buf_bytes_def)
    then show ?thesis using that(2) [OF e] buf_room_le(1) [of n] by (simp add: u'_def)
  qed
qed

lemma append_cases:
  assumes "bufs w a = Some u" "buf_ok False u" "data \<noteq> []" "bm_length u + length data \<le> 2305843009213693952"
  obtains "\<not> OPENSSL_malloc (w_heap w (w_next w)) (buf_room (bm_length u + length data))"
      "BUF_MEM_append a data w = Some (False, w\<lparr>w_next := w_next w + 1\<rparr>)"
    | u' k where "BUF_MEM_append a data w = Some (True, w\<lparr>w_next := k, bufs := (bufs w)(a \<mapsto> u')\<rparr>)" "buf_ok False u'"
      "buf_bytes u' = buf_bytes u @ data"
proof -
  let ?n = "bm_length u + length data"
  have s: "size_add (bm_length u) (length data) = ?n" using assms(4) by (intro size_add_exact) simp
  show ?thesis
  proof (rule reserve_cases [OF assms(1,2,4)])
    assume "BUF_MEM_reserve a ?n w = Some (False, w\<lparr>w_next := w_next w + 1\<rparr>)"
      "\<not> OPENSSL_malloc (w_heap w (w_next w)) (buf_room ?n)"
    then show ?thesis using that(1) assms(1,3) s by (simp add: BUF_MEM_append_def)
  next
    fix u' k assume r: "BUF_MEM_reserve a ?n w = Some (True, w\<lparr>w_next := k, bufs := (bufs w)(a \<mapsto> u')\<rparr>)" "buf_ok False u'"
      "?n \<le> bm_max u'" "bm_length u' = bm_length u" "buf_bytes u' = buf_bytes u"
    have "0 < length data" using assms(3) by simp
    then have "bm_max u' \<noteq> 0" using r(3) by linarith
    then obtain d where d: "bm_data u' = Some d" "bm_start u' = 0" "length d = bm_max u'" using r(2) by (auto simp: buf_ok_def split: option.splits)
    define u2 where "u2 = u'\<lparr>bm_data := Some (mem_write d (bm_length u') data), bm_length := ?n\<rparr>"
    have "BUF_MEM_append a data w = Some (True, w\<lparr>w_next := k, bufs := (bufs w)(a \<mapsto> u2)\<rparr>)"
      using assms(1,3) s r(1) d r(4) by (simp add: BUF_MEM_append_def buf_upd_def u2_def Let_def)
    moreover have "buf_ok False u2" using r(2,3,4) d by (simp add: buf_ok_def u2_def length_write_within)
    moreover have "buf_bytes u2 = buf_bytes u' @ data"
      using d r(3,4) take_write_end [of "bm_length u'" d data] by (simp add: buf_bytes_def u2_def)
    ultimately show ?thesis using that(2) r(5) by simp
  qed
qed

section \<open>The BIO\<close>

text \<open>
  A memory BIO at \<open>b\<close> that holds the bytes \<open>q\<close>.  One made from a buffer is read-only, and its buffer keeps all its
  contents \<open>v\<close>.
\<close>

definition buf_all :: "buf_mem_st \<Rightarrow> bytes" where
  "buf_all u = (case bm_data u of None \<Rightarrow> [] | Some d \<Rightarrow> take (bm_max u) d)"

definition mem_bio :: "bio_st \<Rightarrow> nat \<Rightarrow> bool \<Rightarrow> int \<Rightarrow> bool" where
  "mem_bio x a rdonly num \<longleftrightarrow> bio_method x = Some Mem_method \<and> bio_init x \<noteq> 0 \<and> bio_ptr x = Some a
     \<and> (bio_flags x AND BIO_FLAGS_MEM_RDONLY \<noteq> 0) = rdonly \<and> bio_num x = num"

definition mem_at :: "(nat \<Rightarrow> heap) \<Rightarrow> nat \<Rightarrow> nat \<Rightarrow> bool \<Rightarrow> bytes \<Rightarrow> int \<Rightarrow> bytes \<Rightarrow> world \<Rightarrow> bool" where
  "mem_at H b a rdonly v num q w \<longleftrightarrow> w_heap w = H \<and> (\<exists>x u. bios w b = Some x \<and> bufs w a = Some u \<and> mem_bio x a rdonly num
     \<and> buf_ok rdonly u \<and> buf_bytes u = q \<and> (rdonly \<longrightarrow> buf_all u = v))"

lemma rdonly_bit: "(f AND NOT kRetryFlags) AND BIO_FLAGS_MEM_RDONLY = f AND BIO_FLAGS_MEM_RDONLY"
    "(f OR (BIO_FLAGS_READ OR BIO_FLAGS_SHOULD_RETRY)) AND BIO_FLAGS_MEM_RDONLY = f AND BIO_FLAGS_MEM_RDONLY"
proof -
  have e: "BIO_FLAGS_MEM_RDONLY = 2 ^ 9" by (simp add: BIO_FLAGS_MEM_RDONLY_def)
  have bit: "bit BIO_FLAGS_MEM_RDONLY n \<longleftrightarrow> n = 9" for n unfolding e bit_exp_iff by auto
  have no: "\<not> bit kRetryFlags 9" "\<not> bit BIO_FLAGS_READ 9" "\<not> bit BIO_FLAGS_SHOULD_RETRY 9"
    by (simp_all add: kRetryFlags_def BIO_FLAGS_RWS_def BIO_FLAGS_READ_def BIO_FLAGS_WRITE_def BIO_FLAGS_IO_SPECIAL_def
        BIO_FLAGS_SHOULD_RETRY_def bit_simps)
  show "(f AND NOT kRetryFlags) AND BIO_FLAGS_MEM_RDONLY = f AND BIO_FLAGS_MEM_RDONLY"
    "(f OR (BIO_FLAGS_READ OR BIO_FLAGS_SHOULD_RETRY)) AND BIO_FLAGS_MEM_RDONLY = f AND BIO_FLAGS_MEM_RDONLY"
    by (rule bit_word_eqI; use no in \<open>auto simp: bit_and_iff bit_or_iff bit_not_iff bit\<close>)+
qed

lemma mem_bio_flags [simp]:
  "mem_bio (x\<lparr>bio_flags := bio_flags x AND NOT kRetryFlags, bio_retry_reason := 0\<rparr>) a ro num = mem_bio x a ro num"
  "mem_bio (x\<lparr>bio_flags := bio_flags x OR (BIO_FLAGS_READ OR BIO_FLAGS_SHOULD_RETRY)\<rparr>) a ro num = mem_bio x a ro num"
  "mem_bio (x\<lparr>num_read := n\<rparr>) a ro num = mem_bio x a ro num" "mem_bio (x\<lparr>num_write := n\<rparr>) a ro num = mem_bio x a ro num"
  by (simp_all add: mem_bio_def rdonly_bit)

lemma bio_op_mem:
  "bios w b = Some x \<Longrightarrow> mem_bio x a ro num \<Longrightarrow>
     bio_op (bio_methods user) sel (Some b) w = Some (map_option (\<lambda>f. (b, x, f)) (sel mem_method))"
  by (cases "sel mem_method") (simp_all add: bio_op_def bio_methods_def mem_bio_def)

lemma mem_table [simp]: "bread mem_method = Some mem_read_bio" "bwrite mem_method = Some mem_write_bio"
    "bgets mem_method = Some mem_gets" "bctrl mem_method = Some mem_ctrl" "bcreate mem_method = Some mem_new"
  by (simp_all add: mem_method_def)

lemma c_int_small: "0 \<le> i \<Longrightarrow> i < 2147483648 \<Longrightarrow> c_int i = i"
  by (simp add: c_int_def sint_sbintrunc' signed_take_bit_int_eq_self)

lemma c_long_small: "0 \<le> i \<Longrightarrow> i < 9223372036854775808 \<Longrightarrow> c_long i = i"
  by (simp add: c_long_def sint_sbintrunc' signed_take_bit_int_eq_self)

text \<open>What a read leaves in the buffer.\<close>

definition buf_taken :: "bool \<Rightarrow> nat \<Rightarrow> buf_mem_st \<Rightarrow> buf_mem_st" where
  "buf_taken ro k u
     = (if ro then u\<lparr>bm_length := bm_length u - k, bm_start := bm_start u + k\<rparr>
        else u\<lparr>bm_length := bm_length u - k,
               bm_data := map_option (\<lambda>d. mem_write d (bm_start u) (mem_read d (bm_start u + k) (bm_length u - k))) (bm_data u)\<rparr>)"

lemma buf_taken:
  assumes "buf_ok ro u" "k \<le> bm_length u" "bm_data u = Some d"
  shows "buf_ok ro (buf_taken ro k u)" "buf_bytes (buf_taken ro k u) = drop k (buf_bytes u)"
    "mem_read d (bm_start u) k = take k (buf_bytes u)" "ro \<Longrightarrow> buf_all (buf_taken ro k u) = buf_all u"
proof -
  show "ro \<Longrightarrow> buf_all (buf_taken ro k u) = buf_all u" by (cases "bm_data u") (simp_all add: buf_all_def buf_taken_def)
  show "buf_ok ro (buf_taken ro k u)"
    using assms by (cases ro) (auto simp: buf_ok_def buf_taken_def length_write_within mem_read_def)
  show "mem_read d (bm_start u) k = take k (buf_bytes u)" using assms by (simp add: mem_read_def buf_bytes_def min_def)
  show "buf_bytes (buf_taken ro k u) = drop k (buf_bytes u)"
    using assms by (cases ro) (auto simp: buf_bytes_def buf_taken_def drop_take mem_write_def mem_read_def buf_ok_def add.commute)
qed

lemma mem_read_step:
  assumes m: "mem_at H b a ro v num q w" and n: "0 < n" "n \<le> INT_MAX"
  shows "q \<noteq> [] \<Longrightarrow> \<exists>w'. mem_read_bio b (int n) w = Some (int (min n (length q)), take n q, w') \<and> mem_at H b a ro v num (drop n q) w'"
    "q = [] \<Longrightarrow> \<exists>w'. mem_read_bio b (int n) w = Some (num, [], w') \<and> mem_at H b a ro v num [] w'"
proof -
  obtain x u where st: "bios w b = Some x" "bufs w a = Some u" "mem_bio x a ro num" "buf_ok ro u" "buf_bytes u = q" "w_heap w = H"
      "ro \<Longrightarrow> buf_all u = v"
    using m by (auto simp: mem_at_def)
  have x: "bio_ptr x = Some a" "(bio_flags x AND BIO_FLAGS_MEM_RDONLY \<noteq> 0) = ro" "bio_num x = num"
    using st(3) by (simp_all add: mem_bio_def)
  define x1 where "x1 = x\<lparr>bio_flags := bio_flags x AND NOT kRetryFlags, bio_retry_reason := 0\<rparr>"
  have x1: "mem_bio x1 a ro num" "bio_ptr x1 = Some a" "(bio_flags x1 AND BIO_FLAGS_MEM_RDONLY \<noteq> 0) = ro" "bio_num x1 = num"
    using st(3) x by (simp_all add: x1_def rdonly_bit(1))
  have l: "length q = bm_length u" using length_buf_bytes [OF st(4)] st(5) by simp
  define w1 where "w1 = w\<lparr>bios := (bios w)(b \<mapsto> x1)\<rparr>"
  have cl: "BIO_clear_retry_flags b w = Some w1" using st(1) by (simp add: BIO_clear_retry_flags_def bio_upd_def x1_def w1_def)
  have w1: "bios w1 b = Some x1" "bufs w1 a = Some u" "w_heap w1 = H" using st by (simp_all add: w1_def)
  note unf = mem_read_bio_def [of b "int n" w] cl w1 x1(2,4)
  show "\<exists>w'. mem_read_bio b (int n) w = Some (int (min n (length q)), take n q, w') \<and> mem_at H b a ro v num (drop n q) w'" if q: "q \<noteq> []"
  proof -
    obtain d where d: "bm_data u = Some d" using q st(5) by (auto simp: buf_bytes_def split: option.splits)
    define k where "k = min n (length q)"
    have "0 < length q" using q by simp
    then have k: "0 < k" "k \<le> bm_length u" "k \<le> INT_MAX" using n l by (auto simp: k_def simp del: length_greater_0_conv)
    have ret: "(if n > bm_length u then c_int (int (bm_length u)) else int n) = int k"
      using n l by (auto simp: k_def c_int_small)
    note t = buf_taken [OF st(4) k(2) d]
    let ?w = "w1\<lparr>bufs := (bufs w1)(a \<mapsto> buf_taken ro k u)\<rparr>"
    have "mem_read_bio b (int n) w = Some (int k, mem_read d (bm_start u) k, ?w)"
      using n k(1) d x1(3) by (cases ro) (simp_all add: unf ret Let_def buf_upd_eq buf_taken_def del: One_nat_def)
    moreover have "mem_at H b a ro v num (drop k q) ?w" using x1(1) w1 t(1,2,4) st(5,7) by (auto simp: mem_at_def)
    moreover have "take k q = take n q" "drop k q = drop n q" by (auto simp: k_def min_def)
    ultimately show ?thesis using t(3) st(5) by (auto simp: k_def)
  qed
  show "\<exists>w'. mem_read_bio b (int n) w = Some (num, [], w') \<and> mem_at H b a ro v num [] w'" if q: "q = []"
  proof -
    have z: "bm_length u = 0" using l q by simp
    define x2 where "x2 = (if num \<noteq> 0 then x1\<lparr>bio_flags := bio_flags x1 OR (BIO_FLAGS_READ OR BIO_FLAGS_SHOULD_RETRY)\<rparr> else x1)"
    have "mem_bio x2 a ro num" using x1(1) by (cases "num = 0") (simp_all add: x2_def)
    moreover have "mem_read_bio b (int n) w = Some (num, [], w1\<lparr>bios := (bios w1)(b \<mapsto> x2)\<rparr>)"
      using n w1(1) z by (auto simp: unf c_int_small x2_def BIO_set_retry_read_def bio_upd_def fun_upd_idem)
    ultimately show ?thesis using w1 st q by (auto simp: mem_at_def)
  qed
qed

lemma mem_at_counters:
  assumes "mem_at H b a ro v num q w"
  shows "\<exists>w'. bio_upd b (\<lambda>x. x\<lparr>num_read := num_read x + i\<rparr>) w = Some w' \<and> mem_at H b a ro v num q w'"
    "\<exists>w'. bio_upd b (\<lambda>x. x\<lparr>num_write := num_write x + i\<rparr>) w = Some w' \<and> mem_at H b a ro v num q w'"
  using assms by (auto simp: mem_at_def bio_upd_def)

lemma mem_at_op:
  assumes "mem_at H b a ro v num q w"
  obtains x where "bio_op (bio_methods user) sel (Some b) w = Some (map_option (\<lambda>f. (b, x, f)) (sel mem_method))" "bio_init x \<noteq> 0"
proof -
  obtain x where x: "bios w b = Some x" "mem_bio x a ro num" using assms by (auto simp: mem_at_def)
  then show ?thesis using that [OF bio_op_mem [OF x]] by (simp add: mem_bio_def)
qed

lemma mem_BIO_read:
  assumes m: "mem_at H b a ro v num q w" and n: "n \<le> INT_MAX"
  shows "n = 0 \<Longrightarrow> BIO_read (bio_methods user) (Some b) (int n) w = Some (0, [], w)"
    "0 < n \<Longrightarrow> q \<noteq> [] \<Longrightarrow> \<exists>w'. BIO_read (bio_methods user) (Some b) (int n) w = Some (int (min n (length q)), take n q, w')
        \<and> mem_at H b a ro v num (drop n q) w'"
    "0 < n \<Longrightarrow> q = [] \<Longrightarrow> num \<le> 0 \<Longrightarrow> \<exists>w'. BIO_read (bio_methods user) (Some b) (int n) w = Some (num, [], w') \<and> mem_at H b a ro v num [] w'"
proof -
  obtain x where o: "bio_op (bio_methods user) bread (Some b) w = Some (Some (b, x, mem_read_bio))" "bio_init x \<noteq> 0"
    by (rule mem_at_op [OF m, of user bread]) (auto simp: mem_method_def)
  show "n = 0 \<Longrightarrow> BIO_read (bio_methods user) (Some b) (int n) w = Some (0, [], w)" using o by (simp add: BIO_read_def)
  show "\<exists>w'. BIO_read (bio_methods user) (Some b) (int n) w = Some (int (min n (length q)), take n q, w')
        \<and> mem_at H b a ro v num (drop n q) w'" if c: "0 < n" "q \<noteq> []"
  proof -
    obtain w1 where r: "mem_read_bio b (int n) w = Some (int (min n (length q)), take n q, w1)" "mem_at H b a ro v num (drop n q) w1"
      using mem_read_step(1) [OF m c(1) n c(2)] by blast
    obtain w2 where "bio_upd b (\<lambda>x. x\<lparr>num_read := num_read x + word_of_int (int (min n (length q)))\<rparr>) w1 = Some w2" "mem_at H b a ro v num (drop n q) w2"
      using mem_at_counters(1) [OF r(2)] by blast
    then show ?thesis using o r(1) c by (simp add: BIO_read_def)
  qed
  show "\<exists>w'. BIO_read (bio_methods user) (Some b) (int n) w = Some (num, [], w') \<and> mem_at H b a ro v num [] w'"
    if c: "0 < n" "q = []" "num \<le> 0"
  proof -
    obtain w1 where "mem_read_bio b (int n) w = Some (num, [], w1)" "mem_at H b a ro v num [] w1"
      using mem_read_step(2) [OF m c(1) n c(2)] by blast
    then show ?thesis using o c by (auto simp: BIO_read_def)
  qed
qed

lemma mem_BIO_write:
  assumes m: "mem_at H b a False v num q w" and d: "data \<noteq> []" "length q + length data \<le> 2305843009213693952"
  obtains w' i where "\<not> OPENSSL_malloc (H i) (buf_room (length q + length data))"
      "BIO_write (bio_methods user) (Some b) data w = Some (- 1, w')" "mem_at H b a False v num q w'"
    | w' where "BIO_write (bio_methods user) (Some b) data w = Some (int (length data), w')" "mem_at H b a False v num (q @ data) w'"
proof -
  obtain y where o: "bio_op (bio_methods user) bwrite (Some b) w = Some (Some (b, y, mem_write_bio))" "bio_init y \<noteq> 0"
    by (rule mem_at_op [OF m, of user bwrite]) (auto simp: mem_method_def)
  obtain x u where st: "bios w b = Some x" "bufs w a = Some u" "mem_bio x a False num" "buf_ok False u" "buf_bytes u = q" "w_heap w = H"
    using m by (auto simp: mem_at_def)
  define x1 where "x1 = x\<lparr>bio_flags := bio_flags x AND NOT kRetryFlags, bio_retry_reason := 0\<rparr>"
  have x1: "mem_bio x1 a False num" "bio_ptr x1 = Some a" "bio_flags x1 AND BIO_FLAGS_MEM_RDONLY = 0"
    using st(3) by (simp_all add: x1_def mem_bio_def rdonly_bit(1))
  have l: "bm_length u = length q" using length_buf_bytes [OF st(4)] st(5) by simp
  define w1 where "w1 = w\<lparr>bios := (bios w)(b \<mapsto> x1)\<rparr>"
  have cl: "BIO_clear_retry_flags b w = Some w1" using st(1) by (simp add: BIO_clear_retry_flags_def bio_upd_def x1_def w1_def)
  have w1: "bios w1 b = Some x1" "bufs w1 a = Some u" "w_heap w1 = H" using st by (simp_all add: w1_def)
  note unf = mem_write_bio_def [of b data w] cl w1 x1(2,3)
  show ?thesis
  proof (rule append_cases [OF w1(2) st(4) d(1), unfolded l, OF d(2)])
    assume f: "\<not> OPENSSL_malloc (w_heap w1 (w_next w1)) (buf_room (length q + length data))"
      "BUF_MEM_append a data w1 = Some (False, w1\<lparr>w_next := w_next w1 + 1\<rparr>)"
    have "mem_write_bio b data w = Some (- 1, w1\<lparr>w_next := w_next w1 + 1\<rparr>)" using d(1) f(2) by (simp add: unf)
    then have "BIO_write (bio_methods user) (Some b) data w = Some (- 1, w1\<lparr>w_next := w_next w1 + 1\<rparr>)"
      using o d(1) by (simp add: BIO_write_def)
    moreover have "mem_at H b a False v num q (w1\<lparr>w_next := w_next w1 + 1\<rparr>)" using w1 x1(1) st(4,5) by (auto simp: mem_at_def)
    ultimately show ?thesis using that(1) f(1) w1(3) by blast
  next
    fix u' k assume f: "BUF_MEM_append a data w1 = Some (True, w1\<lparr>w_next := k, bufs := (bufs w1)(a \<mapsto> u')\<rparr>)" "buf_ok False u'"
      "buf_bytes u' = buf_bytes u @ data"
    let ?w = "w1\<lparr>w_next := k, bufs := (bufs w1)(a \<mapsto> u')\<rparr>"
    have r: "mem_write_bio b data w = Some (int (length data), ?w)" using d(1) f(1) by (simp add: unf)
    have "mem_at H b a False v num (q @ data) ?w" using w1 x1(1) f(2,3) st(5) by (auto simp: mem_at_def)
    then obtain w2 where "bio_upd b (\<lambda>x. x\<lparr>num_write := num_write x + word_of_int (int (length data))\<rparr>) ?w = Some w2" "mem_at H b a False v num (q @ data) w2"
      using mem_at_counters(2) by blast
    moreover from this have "BIO_write (bio_methods user) (Some b) data w = Some (int (length data), w2)"
      using o d(1) r by (simp add: BIO_write_def)
    ultimately show ?thesis using that(2) by blast
  qed
qed

end
