(* ===== verification/Bio_Ring.thy ===== *)
theory Bio_Ring
  imports Bio_Mem
begin

text \<open>
  The ring buffer of a BIO pair is a queue: the loops of \<^verbatim>\<open>bio_read\<close> and \<^verbatim>\<open>bio_write\<close> end after one or two
  pieces, take bytes from its front and append them at its end.
\<close>

definition ring_ok :: "bio_bio_st \<Rightarrow> bool" where
  "ring_ok s \<longleftrightarrow> (\<exists>d. bio_buf s = Some d \<and> length d = bio_size s) \<and> bio_offset s < bio_size s
     \<and> bio_len s \<le> bio_size s"

definition ring :: "bio_bio_st \<Rightarrow> bytes" where
  "ring s = (case bio_buf s of None \<Rightarrow> []
     | Some d \<Rightarrow> take (bio_len s) (drop (bio_offset s) d @ take (bio_offset s) d))"

text \<open>Everything but the ring itself.\<close>

definition same_end :: "bio_bio_st \<Rightarrow> bio_bio_st \<Rightarrow> bool" where
  "same_end s t \<longleftrightarrow> bio_peer t = bio_peer s \<and> bio_closed t = bio_closed s \<and> bio_size t = bio_size s
     \<and> bio_request t = bio_request s"

lemma same_end_refl [simp]: "same_end s s" by (simp add: same_end_def)

lemma same_end_trans: "same_end s t \<Longrightarrow> same_end t u \<Longrightarrow> same_end s u" by (simp add: same_end_def)

lemma length_ring [simp]: "ring_ok s \<Longrightarrow> length (ring s) = bio_len s"
  by (auto simp: ring_ok_def ring_def)

definition read_piece :: "nat \<Rightarrow> bio_bio_st \<Rightarrow> bio_bio_st" where
  "read_piece n p
     = (let p = p\<lparr>bio_len := bio_len p - n\<rparr> in
        if bio_len p \<noteq> 0
        then let p = p\<lparr>bio_offset := bio_offset p + n\<rparr> in if bio_offset p = bio_size p then p\<lparr>bio_offset := 0\<rparr> else p
        else p\<lparr>bio_offset := 0\<rparr>)"

lemma read_piece_ring:
  assumes "ring_ok p" "n \<le> bio_len p" "bio_offset p + n \<le> bio_size p" "bio_buf p = Some d"
  shows "mem_read d (bio_offset p) n = take n (ring p)" "ring (read_piece n p) = drop n (ring p)"
    "ring_ok (read_piece n p)" "same_end p (read_piece n p)" "bio_len (read_piece n p) = bio_len p - n"
proof -
  have l: "length d = bio_size p" using assms(1,4) by (auto simp: ring_ok_def)
  have "take n (ring p) = take n (drop (bio_offset p) d)"
    using assms(2-4) l by (simp add: ring_def min_absorb1 min_absorb2 le_diff_conv2 add.commute)
  then show "mem_read d (bio_offset p) n = take n (ring p)" by (simp add: mem_read_def)
  show "ring_ok (read_piece n p)" "same_end p (read_piece n p)" "bio_len (read_piece n p) = bio_len p - n"
    using assms by (auto simp: read_piece_def ring_ok_def same_end_def Let_def)
  show "ring (read_piece n p) = drop n (ring p)"
  proof (cases "bio_len p = n")
    case True
    then show ?thesis using assms(4) by (simp add: read_piece_def ring_def Let_def)
  next
    case False
    have r: "drop n (ring p) = take (bio_len p - n) (drop (bio_offset p + n) d @ take (bio_offset p) d)"
    proof -
      have "drop n (drop (bio_offset p) d @ take (bio_offset p) d) = drop (bio_offset p + n) d @ take (bio_offset p) d"
        using assms(3) l by (simp add: add.commute)
      then show ?thesis by (simp only: ring_def assms(4) option.case drop_take)
    qed
    have len: "bio_len p \<le> bio_size p" using assms(1) by (simp add: ring_ok_def)
    show ?thesis
    proof (cases "bio_offset p + n = bio_size p")
      case True
      then have "bio_len p - n \<le> bio_offset p" using len by linarith
      then show ?thesis using False True assms(2,4) l r by (simp add: read_piece_def ring_def Let_def min_def)
    next
      case off: False
      have "take (bio_offset p + n) d = take (bio_offset p) d @ take n (drop (bio_offset p) d)" by (rule take_add)
      then show ?thesis using False off assms l r len by (simp add: read_piece_def ring_def Let_def)
    qed
  qed
qed

lemma read_loop_unfold:
  assumes "bio_buf p = Some d"
  shows "bio_offset p + n \<le> bio_size p \<Longrightarrow> bio_read_loop n p = Some (mem_read d (bio_offset p) n, read_piece n p)"
    "\<not> bio_offset p + n \<le> bio_size p \<Longrightarrow> bio_size p - bio_offset p < n \<Longrightarrow> bio_read_loop n p
       = do { (out', p') \<leftarrow> bio_read_loop (n - (bio_size p - bio_offset p)) (read_piece (bio_size p - bio_offset p) p);
              Some (mem_read d (bio_offset p) (bio_size p - bio_offset p) @ out', p') }"
  using assms by (simp_all add: bio_read_loop.simps [of n p] read_piece_def Let_def)

lemma read_loop_ring:
  assumes ok: "ring_ok p" and n: "n \<le> bio_len p"
  shows "\<exists>p'. bio_read_loop n p = Some (take n (ring p), p') \<and> ring_ok p' \<and> ring p' = drop n (ring p) \<and> same_end p p'"
proof -
  obtain d where d: "bio_buf p = Some d" using ok by (auto simp: ring_ok_def)
  show ?thesis
  proof (cases "bio_offset p + n \<le> bio_size p")
    case True
    show ?thesis using read_loop_unfold(1) [OF d True] read_piece_ring [OF ok n True d] by simp
  next
    case False
    define k where "k = bio_size p - bio_offset p"
    have k: "k < n" "k \<le> bio_len p" "bio_offset p + k \<le> bio_size p" "bio_offset p + k = bio_size p"
      using False n ok by (auto simp: k_def ring_ok_def)
    note r = read_piece_ring [OF ok k(2,3) d]
    obtain d' where d': "bio_buf (read_piece k p) = Some d'" using r(3) by (auto simp: ring_ok_def)
    have off: "bio_offset (read_piece k p) = 0" using k by (simp add: read_piece_def Let_def)
    have "n - k \<le> bio_len (read_piece k p)" using r(5) n by simp
    moreover have "bio_len p - k \<le> bio_size p" "bio_size (read_piece k p) = bio_size p"
      using ok r(4) by (auto simp: ring_ok_def same_end_def)
    ultimately have "bio_offset (read_piece k p) + (n - k) \<le> bio_size (read_piece k p)" using off r(5) by simp
    note s = read_loop_unfold(1) [OF d' this] read_piece_ring [OF r(3) \<open>n - k \<le> bio_len (read_piece k p)\<close> this d']
    from read_loop_unfold(2) [OF d False, folded k_def, OF k(1)]
    have "bio_read_loop n p = Some (take k (ring p) @ take (n - k) (drop k (ring p)), read_piece (n - k) (read_piece k p))"
      using s(1,2) r(1,2) by simp
    moreover have "take k (ring p) @ take (n - k) (drop k (ring p)) = take n (ring p)"
      using k(1) by (metis le_add_diff_inverse less_imp_le take_add)
    moreover have "drop (n - k) (drop k (ring p)) = drop n (ring p)" using k(1) by simp
    ultimately show ?thesis using s(3-5) r(2) same_end_trans [OF r(4) s(5)] by auto
  qed
qed

definition write_at :: "bio_bio_st \<Rightarrow> nat" where
  "write_at b = (let off = bio_offset b + bio_len b in if off \<ge> bio_size b then off - bio_size b else off)"

definition write_piece :: "bytes \<Rightarrow> bio_bio_st \<Rightarrow> bio_bio_st" where
  "write_piece inp b = b\<lparr>bio_buf := map_option (\<lambda>d. mem_write d (write_at b) inp) (bio_buf b), bio_len := bio_len b + length inp\<rparr>"

lemma write_piece_ring:
  assumes ok: "ring_ok b" and n: "bio_len b + length inp \<le> bio_size b" "write_at b + length inp \<le> bio_size b"
  shows "ring_ok (write_piece inp b)" "ring (write_piece inp b) = ring b @ inp" "same_end b (write_piece inp b)"
    "bio_len (write_piece inp b) = bio_len b + length inp"
proof -
  obtain d where d: "bio_buf b = Some d" and l: "length d = bio_size b" using ok by (auto simp: ring_ok_def)
  have off: "bio_offset b < bio_size b" using ok by (simp add: ring_ok_def)
  show "ring_ok (write_piece inp b)" "same_end b (write_piece inp b)" "bio_len (write_piece inp b) = bio_len b + length inp"
    using assms d l by (auto simp: write_piece_def ring_ok_def same_end_def mem_write_def)
  show "ring (write_piece inp b) = ring b @ inp"
  proof (cases "bio_offset b + bio_len b < bio_size b")
    case True
    then have w: "write_at b = bio_offset b + bio_len b" by (simp add: write_at_def Let_def)
    have "drop (bio_offset b) (mem_write d (write_at b) inp)
        = take (bio_len b) (drop (bio_offset b) d) @ inp @ drop (write_at b + length inp) d"
      using l True by (simp add: mem_write_def w drop_take)
    then show ?thesis using d l True by (simp add: ring_def write_piece_def)
  next
    case False
    then have w: "write_at b = bio_offset b + bio_len b - bio_size b" by (simp add: write_at_def Let_def)
    then have le: "write_at b + length inp \<le> bio_offset b" "write_at b \<le> bio_len b" using n(1) off False by linarith+
    have len: "bio_len b = (bio_size b - bio_offset b) + write_at b" using w off False by linarith
    have "drop (bio_offset b) (mem_write d (write_at b) inp) = drop (bio_offset b) d"
      using l le(1) off by (simp add: mem_write_def)
    moreover have "take (write_at b + length inp) (mem_write d (write_at b) inp) = take (write_at b) d @ inp"
      using l le(1) off by (simp add: mem_write_def)
    then have "take (write_at b + length inp) (take (bio_offset b) (mem_write d (write_at b) inp)) = take (write_at b) d @ inp"
      using le(1) by (simp add: min_def)
    moreover have "take (write_at b) (take (bio_offset b) d) = take (write_at b) d" using le(1) by (simp add: min_def)
    ultimately show ?thesis using d l off by (simp add: ring_def write_piece_def len)
  qed
qed

lemma write_loop_unfold:
  assumes "bio_buf b = Some d" "n = bio_size b - write_at b" "inp \<noteq> []"
  shows "length inp \<le> n \<Longrightarrow> write_at b \<le> bio_size b \<Longrightarrow> bio_write_loop inp b = Some (write_piece inp b)"
    "n < length inp \<Longrightarrow> write_at b \<le> bio_size b \<Longrightarrow> bio_write_loop inp b = bio_write_loop (drop n inp) (write_piece (take n inp) b)"
  using assms unfolding bio_write_loop.simps [of inp b]
  by (auto simp: write_piece_def write_at_def Let_def min_def split: if_splits)

lemma write_loop_ring:
  assumes ok: "ring_ok b" and n: "inp \<noteq> []" "bio_len b + length inp \<le> bio_size b"
  shows "\<exists>b'. bio_write_loop inp b = Some b' \<and> ring_ok b' \<and> ring b' = ring b @ inp \<and> same_end b b'"
proof -
  obtain d where d: "bio_buf b = Some d" using ok by (auto simp: ring_ok_def)
  define k where "k = bio_size b - write_at b"
  have w: "write_at b < bio_size b" using ok n by (auto simp: ring_ok_def write_at_def Let_def neq_Nil_conv)
  note u = write_loop_unfold [OF d k_def n(1)]
  show ?thesis
  proof (cases "length inp \<le> k")
    case True
    then have "write_at b + length inp \<le> bio_size b" using w k_def by linarith
    from write_piece_ring [OF ok n(2) this] u(1) [OF True] w show ?thesis by auto
  next
    case False
    let ?b = "write_piece (take k inp) b"
    have "bio_len b + length (take k inp) \<le> bio_size b" "write_at b + length (take k inp) \<le> bio_size b"
      using n(2) w k_def by auto
    note r = write_piece_ring [OF ok this]
    obtain d' where d': "bio_buf ?b = Some d'" using r(1) by (auto simp: ring_ok_def)
    have sz: "bio_size ?b = bio_size b" using r(3) by (simp add: same_end_def)
    have len: "bio_len ?b = bio_len b + k" using r(4) False by simp
    have "bio_offset ?b = bio_offset b" by (simp add: write_piece_def)
    moreover have "bio_offset b + bio_len b + k = bio_size b"
      using n(2) False ok w unfolding k_def write_at_def Let_def ring_ok_def by (auto split: if_splits)
    ultimately have at: "write_at ?b = 0" by (simp add: write_at_def len sz)
    have n': "drop k inp \<noteq> []" "bio_len ?b + length (drop k inp) \<le> bio_size ?b" "write_at ?b + length (drop k inp) \<le> bio_size ?b"
      using False n(2) sz len at by auto
    note s = write_piece_ring [OF r(1) n'(2,3)]
    have "bio_write_loop (drop k inp) ?b = Some (write_piece (drop k inp) ?b)"
      by (rule write_loop_unfold(1) [OF d' refl n'(1)]) (use at n'(3) in auto)
    then have "bio_write_loop inp b = Some (write_piece (drop k inp) ?b)" using u(2) False w by simp
    moreover have "ring (write_piece (drop k inp) ?b) = ring b @ inp" by (simp add: s(2) r(2))
    ultimately show ?thesis using s(1) same_end_trans [OF r(3) s(3)] by blast
  qed
qed

end
