(* ===== verification/Bio_Channel.thy ===== *)
theory Bio_Channel
  imports Bio_Ring "HOL-Library.Code_Target_Nat"
begin

text \<open>
  What a BIO pair promises: two bounded queues of bytes, one in each direction, each of which its writer can
  close.  Every call on the pair answers like the queues, whatever was called before.
\<close>

section \<open>The promise\<close>

datatype call = Send bytes | Recv nat | Shut | Room | Pend

text \<open>The queue, its capacity, and whether its writer has closed it.\<close>

type_synonym chan = "bytes \<times> nat \<times> bool"

text \<open>The result, the bytes read, and whether the caller is told to try again.\<close>

type_synonym answer = "int \<times> bytes \<times> bool"

fun chan_step :: "call \<Rightarrow> chan \<times> chan \<Rightarrow> answer \<times> chan \<times> chan" where
  "chan_step (Send data) ((q, n, closed), other)
     = (if data = [] then ((0, [], False), (q, n, closed), other)
        else if closed then ((- 1, [], False), (q, n, closed), other)
        else if length q = n then ((- 1, [], True), (q, n, closed), other)
        else ((int (min (length data) (n - length q)), [], False), (q @ take (n - length q) data, n, closed), other))"
| "chan_step (Recv k) (own, (q, n, closed))
     = (if k = 0 then ((0, [], False), own, (q, n, closed))
        else if q = [] then ((if closed then 0 else - 1, [], \<not> closed), own, (q, n, closed))
        else ((int (min k (length q)), take k q, False), own, (drop k q, n, closed)))"
| "chan_step Shut ((q, n, closed), other) = ((1, [], False), (q, n, True), other)"
| "chan_step Room ((q, n, closed), other) = ((if closed then 0 else int (n - length q), [], False), (q, n, closed), other)"
| "chan_step Pend (own, (q, n, closed)) = ((int (length q), [], False), own, (q, n, closed))"

text \<open>Calls on the first (\<open>True\<close>) and on the second end.\<close>

fun chan_run :: "(bool \<times> call) list \<Rightarrow> chan \<times> chan \<Rightarrow> answer list \<times> chan \<times> chan" where
  "chan_run [] cs = ([], cs)"
| "chan_run ((e, c) # calls) (own, other)
     = (case (if e then chan_step c (own, other) else chan_step c (other, own)) of
          (r, p, q) \<Rightarrow> (case chan_run calls (if e then (p, q) else (q, p)) of (rs, cs) \<Rightarrow> (r # rs, cs)))"

definition end_step :: "methods \<Rightarrow> nat \<Rightarrow> call \<Rightarrow> world \<Rightarrow> (answer \<times> world) option" where
  "end_step tab b c w
     = (case c of
          Send data \<Rightarrow> do {
            (r, w) \<leftarrow> BIO_write tab (Some b) data w;
            x \<leftarrow> bios w b;
            Some ((r, [], r < 0 \<and> BIO_should_retry x \<noteq> 0), w) }
        | Recv k \<Rightarrow> do {
            (r, out, w) \<leftarrow> BIO_read tab (Some b) (int k) w;
            x \<leftarrow> bios w b;
            Some ((r, out, r < 0 \<and> BIO_should_retry x \<noteq> 0), w) }
        | Shut \<Rightarrow> do { (r, w) \<leftarrow> BIO_shutdown_wr tab (Some b) w; Some ((r, [], False), w) }
        | Room \<Rightarrow> do { (n, w) \<leftarrow> BIO_ctrl_get_write_guarantee tab (Some b) w; Some ((int n, [], False), w) }
        | Pend \<Rightarrow> do { (n, w) \<leftarrow> BIO_pending tab (Some b) w; Some ((int n, [], False), w) })"

fun pair_run :: "methods \<Rightarrow> nat \<times> nat \<Rightarrow> (bool \<times> call) list \<Rightarrow> world \<Rightarrow> (answer list \<times> world) option" where
  "pair_run tab bc [] w = Some ([], w)"
| "pair_run tab bc ((e, c) # calls) w = do {
     (r, w) \<leftarrow> end_step tab (if e then fst bc else snd bc) c w;
     (rs, w) \<leftarrow> pair_run tab bc calls w;
     Some (r # rs, w) }"

section \<open>The invariant\<close>

text \<open>
  Two ends, their states, and nothing else that changes: \<open>B\<close> and \<open>P\<close> are the other objects of the store,
  \<open>H\<close> its allocator.
\<close>

definition end_ok :: "bio_st \<Rightarrow> nat \<Rightarrow> bool" where
  "end_ok x a \<longleftrightarrow> bio_method x = Some Pair_method \<and> bio_init x = 1 \<and> bio_ptr x = Some a \<and> bio_references x = 1
     \<and> next_bio x = None"

definition chan_ok :: "bio_bio_st \<Rightarrow> nat \<Rightarrow> bool" where
  "chan_ok s c \<longleftrightarrow> ring_ok s \<and> bio_peer s = Some c \<and> bio_size s < 9223372036854775808"

definition pair_at :: "(nat \<Rightarrow> heap) \<Rightarrow> (nat \<Rightarrow> bio_st option) \<Rightarrow> (nat \<Rightarrow> bio_bio_st option) \<Rightarrow> nat \<Rightarrow> nat \<Rightarrow> nat \<Rightarrow> nat
    \<Rightarrow> bio_st \<Rightarrow> bio_st \<Rightarrow> bio_bio_st \<Rightarrow> bio_bio_st \<Rightarrow> world \<Rightarrow> bool" where
  "pair_at H B P b c a d x y s t w \<longleftrightarrow> b \<noteq> c \<and> a \<noteq> d \<and> bios w = B(b \<mapsto> x, c \<mapsto> y) \<and> pairs w = P(a \<mapsto> s, d \<mapsto> t)
     \<and> end_ok x a \<and> end_ok y d \<and> chan_ok s c \<and> chan_ok t b \<and> w_heap w = H"

definition chan_of :: "bio_bio_st \<Rightarrow> chan" where
  "chan_of s = (ring s, bio_size s, bio_closed s)"

lemma pair_at_sym: "pair_at H B P b c a d x y s t w \<Longrightarrow> pair_at H B P c b d a y x t s w"
  by (simp add: pair_at_def fun_upd_twist)

lemma pair_at_store:
  assumes "pair_at H B P b c a d x y s t w"
  shows "bios w b = Some x" "bios w c = Some y" "pairs w a = Some s" "pairs w d = Some t" "b \<noteq> c" "a \<noteq> d"
    "end_ok x a" "end_ok y d" "chan_ok s c" "chan_ok t b"
  using assms by (simp_all add: pair_at_def)

text \<open>What the calls change: the flags and counters of the end, and one of the rings.\<close>

lemma pair_at_upd:
  assumes "pair_at H B P b c a d x y s t w" "end_ok x' a"
  shows "chan_ok s' c \<Longrightarrow> pair_at H B P b c a d x' y s' t (w\<lparr>bios := (bios w)(b \<mapsto> x'), pairs := (pairs w)(a \<mapsto> s')\<rparr>)"
    "chan_ok t' b \<Longrightarrow> pair_at H B P b c a d x' y s t' (w\<lparr>bios := (bios w)(b \<mapsto> x'), pairs := (pairs w)(d \<mapsto> t')\<rparr>)"
  using assms by (auto simp: pair_at_def fun_upd_twist)

lemma bio_upd_eq: "bios w b = Some x \<Longrightarrow> bio_upd b f w = Some (w\<lparr>bios := (bios w)(b \<mapsto> f x)\<rparr>)"
  by (simp add: bio_upd_def)

lemma pair_upd_eq: "pairs w a = Some s \<Longrightarrow> pair_upd a f w = Some (w\<lparr>pairs := (pairs w)(a \<mapsto> f s)\<rparr>)"
  by (simp add: pair_upd_def)

lemmas bio_monad = bio_upd_eq pair_upd_eq BIO_clear_retry_flags_def BIO_set_retry_read_def BIO_set_retry_write_def

lemma bio_op_eq:
  "bios w b = Some x \<Longrightarrow> bio_method x = Some Pair_method \<Longrightarrow>
     bio_op (bio_methods user) sel (Some b) w = Some (map_option (\<lambda>f. (b, x, f)) (sel methods_biop))"
  by (cases "sel methods_biop") (simp_all add: bio_op_def bio_methods_def)

lemma retry_bit: "bit BIO_FLAGS_SHOULD_RETRY n \<longleftrightarrow> n = 3" "bit kRetryFlags 3"
proof -
  have e: "BIO_FLAGS_SHOULD_RETRY = 2 ^ 3" by (simp add: BIO_FLAGS_SHOULD_RETRY_def)
  show "bit BIO_FLAGS_SHOULD_RETRY n \<longleftrightarrow> n = 3" unfolding e bit_exp_iff by auto
  then show "bit kRetryFlags 3" by (simp add: kRetryFlags_def bit_or_iff BIO_FLAGS_SHOULD_RETRY_def)
qed

lemma retry_flags:
  "(u OR (v OR BIO_FLAGS_SHOULD_RETRY)) AND BIO_FLAGS_SHOULD_RETRY \<noteq> 0"
  "(u AND NOT kRetryFlags) AND BIO_FLAGS_SHOULD_RETRY = 0"
proof -
  have "bit ((u OR (v OR BIO_FLAGS_SHOULD_RETRY)) AND BIO_FLAGS_SHOULD_RETRY) 3"
    by (simp add: bit_or_iff bit_and_iff retry_bit(1))
  then show "(u OR (v OR BIO_FLAGS_SHOULD_RETRY)) AND BIO_FLAGS_SHOULD_RETRY \<noteq> 0" by (metis bit_0_eq bot_apply bot_bool_def)
  show "(u AND NOT kRetryFlags) AND BIO_FLAGS_SHOULD_RETRY = 0"
    by (rule bit_word_eqI) (auto simp: bit_and_iff bit_not_iff retry_bit)
qed

section \<open>One call\<close>

lemma end_flags [simp]:
  "end_ok (x\<lparr>bio_flags := f\<rparr>) a = end_ok x a" "end_ok (x\<lparr>bio_retry_reason := i\<rparr>) a = end_ok x a"
  "end_ok (x\<lparr>num_read := n\<rparr>) a = end_ok x a" "end_ok (x\<lparr>num_write := n\<rparr>) a = end_ok x a"
  by (simp_all add: end_ok_def)

lemma chan_request [simp]:
  "chan_ok (s\<lparr>bio_request := n\<rparr>) c = chan_ok s c" "chan_of (s\<lparr>bio_request := n\<rparr>) = chan_of s"
  "ring_ok (s\<lparr>bio_request := n\<rparr>) = ring_ok s" "ring (s\<lparr>bio_request := n\<rparr>) = ring s"
  by (cases "bio_buf s"; simp add: chan_ok_def chan_of_def ring_ok_def ring_def)+

lemma c_int_id: "0 \<le> i \<Longrightarrow> i < 2147483648 \<Longrightarrow> c_int i = i"
  by (simp add: c_int_def sint_sbintrunc' signed_take_bit_int_eq_self)

lemma c_long_id: "0 \<le> i \<Longrightarrow> i < 9223372036854775808 \<Longrightarrow> c_long i = i"
  by (simp add: c_long_def sint_sbintrunc' signed_take_bit_int_eq_self)

definition fresh_flags :: "bio_st \<Rightarrow> bio_st" where
  "fresh_flags x = x\<lparr>bio_flags := bio_flags x AND NOT kRetryFlags, bio_retry_reason := 0\<rparr>"

definition retry_flag :: "u32 \<Rightarrow> bio_st \<Rightarrow> bio_st" where
  "retry_flag f x = x\<lparr>bio_flags := bio_flags x OR (f OR BIO_FLAGS_SHOULD_RETRY)\<rparr>"

lemma flag_simps [simp]:
  "end_ok (fresh_flags x) a = end_ok x a" "end_ok (retry_flag f x) a = end_ok x a"
  "BIO_should_retry (fresh_flags x) = 0" "BIO_should_retry (retry_flag f x) \<noteq> 0"
  "bio_init (fresh_flags x) = bio_init x" "bio_ptr (fresh_flags x) = bio_ptr x"
  "BIO_should_retry (x\<lparr>num_read := n\<rparr>) = BIO_should_retry x" "BIO_should_retry (x\<lparr>num_write := n\<rparr>) = BIO_should_retry x"
  by (simp_all add: fresh_flags_def retry_flag_def BIO_should_retry_def BIO_test_flags_def retry_flags end_ok_def)

lemma clear_flags_eq:
  "bios w b = Some x \<Longrightarrow> BIO_clear_retry_flags b w = Some (w\<lparr>bios := (bios w)(b \<mapsto> fresh_flags x)\<rparr>)"
  "bios w b = Some x \<Longrightarrow> BIO_set_retry_read b w = Some (w\<lparr>bios := (bios w)(b \<mapsto> retry_flag BIO_FLAGS_READ x)\<rparr>)"
  "bios w b = Some x \<Longrightarrow> BIO_set_retry_write b w = Some (w\<lparr>bios := (bios w)(b \<mapsto> retry_flag BIO_FLAGS_WRITE x)\<rparr>)"
  by (simp_all add: bio_monad fresh_flags_def retry_flag_def)

definition put :: "nat \<Rightarrow> bio_st \<Rightarrow> nat \<Rightarrow> bio_bio_st \<Rightarrow> world \<Rightarrow> world" where
  "put b x a s w = w\<lparr>bios := (bios w)(b \<mapsto> x), pairs := (pairs w)(a \<mapsto> s)\<rparr>"

lemma put_simps [simp]:
  "bios (put b x a s w) = (bios w)(b \<mapsto> x)" "pairs (put b x a s w) = (pairs w)(a \<mapsto> s)"
  "(put b x a s w)\<lparr>bios := (bios w)(b \<mapsto> y)\<rparr> = put b y a s w" "(put b x a s w)\<lparr>pairs := (pairs w)(a \<mapsto> t)\<rparr> = put b x a t w"
  "w\<lparr>bios := (bios w)(b \<mapsto> x), pairs := (pairs w)(a \<mapsto> s)\<rparr> = put b x a s w"
  by (simp_all add: put_def)

lemma bio_write_eq:
  assumes p: "pair_at H B P b c a d x y s t w" and data: "data \<noteq> []"
  shows "bio_closed s \<Longrightarrow> bio_write b data w = Some (- 1, put b (fresh_flags x) a (s\<lparr>bio_request := 0\<rparr>) w)"
    "\<not> bio_closed s \<Longrightarrow> bio_len s = bio_size s \<Longrightarrow> bio_write b data w
       = Some (- 1, put b (retry_flag BIO_FLAGS_WRITE (fresh_flags x)) a (s\<lparr>bio_request := 0\<rparr>) w)"
    "\<not> bio_closed s \<Longrightarrow> bio_len s \<noteq> bio_size s \<Longrightarrow> n = min (length data) (bio_size s - bio_len s) \<Longrightarrow>
       bio_write_loop (take n data) (s\<lparr>bio_request := 0\<rparr>) = Some s' \<Longrightarrow> bio_write b data w
       = Some (c_int (int n), put b (fresh_flags x) a s' w)"
proof -
  note st = pair_at_store [OF p]
  have x: "bio_init x = 1" "bio_ptr x = Some a" using st(7) by (simp_all add: end_ok_def)
  show "bio_closed s \<Longrightarrow> bio_write b data w = Some (- 1, put b (fresh_flags x) a (s\<lparr>bio_request := 0\<rparr>) w)"
    using data by (simp add: bio_write_def clear_flags_eq st x pair_upd_eq)
  show "\<not> bio_closed s \<Longrightarrow> bio_len s = bio_size s \<Longrightarrow> bio_write b data w
       = Some (- 1, put b (retry_flag BIO_FLAGS_WRITE (fresh_flags x)) a (s\<lparr>bio_request := 0\<rparr>) w)"
    using data by (simp add: bio_write_def clear_flags_eq st x pair_upd_eq)
  show "\<not> bio_closed s \<Longrightarrow> bio_len s \<noteq> bio_size s \<Longrightarrow> n = min (length data) (bio_size s - bio_len s) \<Longrightarrow>
       bio_write_loop (take n data) (s\<lparr>bio_request := 0\<rparr>) = Some s' \<Longrightarrow> bio_write b data w
       = Some (c_int (int n), put b (fresh_flags x) a s' w)"
    using data by (cases "bio_size s - bio_len s < length data") (simp_all add: bio_write_def clear_flags_eq st x pair_upd_eq min_def)
qed

lemma BIO_write_eq:
  assumes p: "pair_at H B P b c a d x y s t w" and data: "data \<noteq> []" and r: "bio_write b data w = Some (r, put b x' a s' w)"
  shows "\<exists>x2. end_step (bio_methods user) b (Send data) w = Some ((r, [], r < 0 \<and> BIO_should_retry x' \<noteq> 0), put b x2 a s' w)
    \<and> (end_ok x' a \<longrightarrow> end_ok x2 a)"
proof -
  note st = pair_at_store [OF p]
  have x: "bio_method x = Some Pair_method" "bio_init x \<noteq> 0" using st(7) by (simp_all add: end_ok_def)
  have "bwrite methods_biop = Some bio_write" by (simp add: methods_biop_def)
  then show ?thesis using data r x st(1)
    by (auto simp: end_step_def BIO_write_def bio_op_eq bio_upd_eq)
qed

lemma put_at:
  assumes "pair_at H B P b c a d x y s t w" "end_ok x' a"
  shows "chan_ok s' c \<Longrightarrow> pair_at H B P b c a d x' y s' t (put b x' a s' w)"
    "chan_ok t' b \<Longrightarrow> pair_at H B P b c a d x' y s t' (put b x' d t' w)"
  using pair_at_upd [OF assms] by (simp_all add: put_def del: put_simps)

lemma send_step:
  assumes p: "pair_at H B P b c a d x y s t w" and n: "length data \<le> INT_MAX"
  shows "\<exists>r x' s' w'. end_step (bio_methods user) b (Send data) w = Some (r, w') \<and> pair_at H B P b c a d x' y s' t w'
    \<and> chan_step (Send data) (chan_of s, chan_of t) = (r, chan_of s', chan_of t)"
proof -
  note st = pair_at_store [OF p]
  have s: "ring_ok s" "chan_ok (s\<lparr>bio_request := 0\<rparr>) c" using st(9) by (simp_all add: chan_ok_def)
  let ?s = "s\<lparr>bio_request := 0\<rparr>"
  show ?thesis
  proof (cases "data = []")
    case True
    have "end_step (bio_methods user) b (Send data) w = Some ((0, [], False), w)"
      using True st(1,7) by (auto simp: end_step_def BIO_write_def bio_op_eq methods_biop_def end_ok_def)
    then show ?thesis using p True by (auto simp: chan_of_def)
  next
    case False
    note e = bio_write_eq [OF p False]
    consider "bio_closed s" | "\<not> bio_closed s" "bio_len s = bio_size s" | "\<not> bio_closed s" "bio_len s \<noteq> bio_size s" by blast
    then show ?thesis
    proof cases
      case 1
      obtain x2 where r: "end_step (bio_methods user) b (Send data) w = Some ((- 1, [], False), put b x2 a ?s w)" "end_ok x2 a"
        using BIO_write_eq [OF p False e(1) [OF 1], of user] st(7) by auto
      have "chan_step (Send data) (chan_of s, chan_of t) = ((- 1, [], False), chan_of ?s, chan_of t)" using False 1 by (simp add: chan_of_def)
      with r put_at(1) [OF p r(2) s(2)] show ?thesis by blast
    next
      case 2
      obtain x2 where r: "end_step (bio_methods user) b (Send data) w = Some ((- 1, [], True), put b x2 a ?s w)" "end_ok x2 a"
        using BIO_write_eq [OF p False e(2) [OF 2], of user] st(7) by auto
      have "chan_step (Send data) (chan_of s, chan_of t) = ((- 1, [], True), chan_of ?s, chan_of t)" using False s(1) 2 by (simp add: chan_of_def)
      with r put_at(1) [OF p r(2) s(2)] show ?thesis by blast
    next
      case 3
      define k where "k = min (length data) (bio_size s - bio_len s)"
      have k: "take k data \<noteq> []" "bio_len ?s + length (take k data) \<le> bio_size ?s" "k \<le> INT_MAX" "length (take k data) = k"
        using False 3 s n by (auto simp: k_def ring_ok_def)
      obtain s' where l: "bio_write_loop (take k data) ?s = Some s'" and s': "ring_ok s'" "ring s' = ring s @ take k data"
        "same_end ?s s'" using write_loop_ring [OF _ k(1,2)] s(1) by auto
      have ok: "chan_ok s' c" using s'(1,3) st(9) by (simp add: chan_ok_def same_end_def)
      have "c_int (int k) = int k" using k(3) by (intro c_int_id) auto
      then obtain x2 where r: "end_step (bio_methods user) b (Send data) w = Some ((int k, [], False), put b x2 a s' w)" "end_ok x2 a"
        using BIO_write_eq [OF p False e(3) [OF 3 k_def l], of user] st(7) by auto
      have "take k data = take (bio_size s - bio_len s) data" by (simp add: k_def min_def)
      then have "chan_step (Send data) (chan_of s, chan_of t) = ((int k, [], False), chan_of s', chan_of t)"
        using False 3 s s' by (simp add: chan_of_def k_def same_end_def)
      with r put_at(1) [OF p r(2) ok] show ?thesis by blast
    qed
  qed
qed

lemma bio_read_eq:
  assumes p: "pair_at H B P b c a d x y s t w" and k: "0 < k" "k \<le> INT_MAX"
  shows "bio_len t = 0 \<Longrightarrow> bio_closed t \<Longrightarrow> bio_read b (int k) w = Some (0, [], put b (fresh_flags x) d (t\<lparr>bio_request := 0\<rparr>) w)"
    "bio_len t = 0 \<Longrightarrow> \<not> bio_closed t \<Longrightarrow> bio_read b (int k) w
       = Some (- 1, [], put b (retry_flag BIO_FLAGS_READ (fresh_flags x)) d (t\<lparr>bio_request := min k (bio_size t)\<rparr>) w)"
    "bio_len t \<noteq> 0 \<Longrightarrow> n = min k (bio_len t) \<Longrightarrow> bio_read_loop n (t\<lparr>bio_request := 0\<rparr>) = Some (out, t') \<Longrightarrow>
       bio_read b (int k) w = Some (c_int (int n), out, put b (fresh_flags x) d t' w)"
proof -
  note st = pair_at_store [OF p] pair_at_store(5) [OF p, symmetric]
  have x: "bio_init x = 1" "bio_ptr x = Some a" "bio_ptr y = Some d" using st(7,8) by (simp_all add: end_ok_def)
  have s: "bio_peer s = Some c" using st(9) by (simp add: chan_ok_def)
  have m: "nat (int k mod int size_bound) = k" using k by simp
  show "bio_len t = 0 \<Longrightarrow> bio_closed t \<Longrightarrow> bio_read b (int k) w = Some (0, [], put b (fresh_flags x) d (t\<lparr>bio_request := 0\<rparr>) w)"
    using k unfolding bio_read_def m by (simp add: clear_flags_eq st x s pair_upd_eq)
  show "bio_len t = 0 \<Longrightarrow> \<not> bio_closed t \<Longrightarrow> bio_read b (int k) w
       = Some (- 1, [], put b (retry_flag BIO_FLAGS_READ (fresh_flags x)) d (t\<lparr>bio_request := min k (bio_size t)\<rparr>) w)"
    using k unfolding bio_read_def m by (simp add: clear_flags_eq st x s pair_upd_eq min_def)
  show "bio_len t \<noteq> 0 \<Longrightarrow> n = min k (bio_len t) \<Longrightarrow> bio_read_loop n (t\<lparr>bio_request := 0\<rparr>) = Some (out, t') \<Longrightarrow>
       bio_read b (int k) w = Some (c_int (int n), out, put b (fresh_flags x) d t' w)"
    using k unfolding bio_read_def m
    by (cases "bio_len t < k") (simp_all add: clear_flags_eq st x s pair_upd_eq min_def)
qed

lemma BIO_read_eq:
  assumes p: "pair_at H B P b c a d x y s t w" and k: "0 < k" and r: "bio_read b (int k) w = Some (r, out, put b x' d t' w)"
  shows "\<exists>x2. end_step (bio_methods user) b (Recv k) w = Some ((r, out, r < 0 \<and> BIO_should_retry x' \<noteq> 0), put b x2 d t' w)
    \<and> (end_ok x' a \<longrightarrow> end_ok x2 a)"
proof -
  note st = pair_at_store [OF p]
  have x: "bio_method x = Some Pair_method" "bio_init x \<noteq> 0" using st(7) by (simp_all add: end_ok_def)
  have "bread methods_biop = Some bio_read" by (simp add: methods_biop_def)
  then show ?thesis using k r x st(1)
    by (auto simp: end_step_def BIO_read_def bio_op_eq bio_upd_eq)
qed

lemma recv_step:
  assumes p: "pair_at H B P b c a d x y s t w" and n: "k \<le> INT_MAX"
  shows "\<exists>r x' t' w'. end_step (bio_methods user) b (Recv k) w = Some (r, w') \<and> pair_at H B P b c a d x' y s t' w'
    \<and> chan_step (Recv k) (chan_of s, chan_of t) = (r, chan_of s, chan_of t')"
proof -
  note st = pair_at_store [OF p]
  have t: "ring_ok t" "\<And>i. chan_ok (t\<lparr>bio_request := i\<rparr>) b" using st(10) by (simp_all add: chan_ok_def)
  let ?t = "t\<lparr>bio_request := 0\<rparr>"
  have e0: "ring t = [] \<longleftrightarrow> bio_len t = 0" using length_ring [OF t(1)] by (metis length_0_conv)
  show ?thesis
  proof (cases "k = 0")
    case True
    have "end_step (bio_methods user) b (Recv k) w = Some ((0, [], False), w)"
      using True st(1,7) by (auto simp: end_step_def BIO_read_def bio_op_eq methods_biop_def end_ok_def)
    then show ?thesis using p True by (auto simp: chan_of_def)
  next
    case False
    then have k: "0 < k" by simp
    note e = bio_read_eq [OF p k n]
    consider "bio_len t = 0" "bio_closed t" | "bio_len t = 0" "\<not> bio_closed t" | "bio_len t \<noteq> 0" by blast
    then show ?thesis
    proof cases
      case 1
      obtain x2 where r: "end_step (bio_methods user) b (Recv k) w = Some ((0, [], False), put b x2 d ?t w)" "end_ok x2 a"
        using BIO_read_eq [OF p k e(1) [OF 1], of user] st(7) by auto
      have "chan_step (Recv k) (chan_of s, chan_of t) = ((0, [], False), chan_of s, chan_of ?t)" using k e0 1 by (simp add: chan_of_def)
      with r put_at(2) [OF p r(2) t(2)] show ?thesis by blast
    next
      case 2
      obtain x2 where r: "end_step (bio_methods user) b (Recv k) w = Some ((- 1, [], True), put b x2 d (t\<lparr>bio_request := min k (bio_size t)\<rparr>) w)" "end_ok x2 a"
        using BIO_read_eq [OF p k e(2) [OF 2], of user] st(7) by auto
      have "chan_step (Recv k) (chan_of s, chan_of t) = ((- 1, [], True), chan_of s, chan_of (t\<lparr>bio_request := min k (bio_size t)\<rparr>))" using k e0 2 by (simp add: chan_of_def)
      with r put_at(2) [OF p r(2) t(2)] show ?thesis by blast
    next
      case 3
      define n where "n = min k (bio_len t)"
      have "n \<le> bio_len ?t" by (simp add: n_def)
      then obtain t' where l: "bio_read_loop n ?t = Some (take n (ring t), t')" and t': "ring_ok t'" "ring t' = drop n (ring t)"
        "same_end ?t t'" using read_loop_ring [of ?t n] t(1) by auto
      have ok: "chan_ok t' b" using t'(1,3) st(10) by (simp add: chan_ok_def same_end_def)
      have "c_int (int n) = int n" using \<open>k \<le> INT_MAX\<close> by (intro c_int_id) (auto simp: n_def)
      then obtain x2 where r: "end_step (bio_methods user) b (Recv k) w = Some ((int n, take n (ring t), False), put b x2 d t' w)" "end_ok x2 a"
        using BIO_read_eq [OF p k e(3) [OF 3 n_def l], of user] st(7) by auto
      have "take n (ring t) = take k (ring t)" "drop n (ring t) = drop k (ring t)" using t(1) by (auto simp: n_def min_def)
      then have "chan_step (Recv k) (chan_of s, chan_of t) = ((int n, take n (ring t), False), chan_of s, chan_of t')"
        using k 3 t t' e0 by (simp add: chan_of_def n_def same_end_def)
      with r put_at(2) [OF p r(2) ok] show ?thesis by blast
    qed
  qed
qed

lemma ctrl_cmds [simp]:
  "BIO_C_GET_WRITE_GUARANTEE \<noteq> BIO_C_GET_WRITE_BUF_SIZE" "BIO_C_SHUTDOWN_WR \<noteq> BIO_C_GET_WRITE_BUF_SIZE"
  "BIO_C_SHUTDOWN_WR \<noteq> BIO_C_GET_WRITE_GUARANTEE" "BIO_C_SHUTDOWN_WR \<noteq> BIO_C_GET_READ_REQUEST"
  "BIO_C_SHUTDOWN_WR \<noteq> BIO_C_RESET_READ_REQUEST" "BIO_CTRL_PENDING \<noteq> BIO_C_GET_WRITE_BUF_SIZE"
  "BIO_CTRL_PENDING \<noteq> BIO_C_GET_WRITE_GUARANTEE" "BIO_CTRL_PENDING \<noteq> BIO_C_GET_READ_REQUEST"
  "BIO_CTRL_PENDING \<noteq> BIO_C_RESET_READ_REQUEST" "BIO_CTRL_PENDING \<noteq> BIO_C_SHUTDOWN_WR"
  "BIO_CTRL_PENDING \<noteq> BIO_CTRL_GET_CLOSE" "BIO_CTRL_PENDING \<noteq> BIO_CTRL_SET_CLOSE"
  by (simp_all add: BIO_C_GET_WRITE_GUARANTEE_def BIO_C_GET_WRITE_BUF_SIZE_def BIO_C_SHUTDOWN_WR_def
      BIO_C_GET_READ_REQUEST_def BIO_C_RESET_READ_REQUEST_def BIO_CTRL_PENDING_def BIO_CTRL_GET_CLOSE_def BIO_CTRL_SET_CLOSE_def)

lemma ctrl_step:
  assumes p: "pair_at H B P b c a d x y s t w"
  shows "\<exists>r s' w'. end_step (bio_methods user) b Shut w = Some (r, w') \<and> pair_at H B P b c a d x y s' t w'
      \<and> chan_step Shut (chan_of s, chan_of t) = (r, chan_of s', chan_of t)"
    "\<exists>r. end_step (bio_methods user) b Room w = Some (r, w) \<and> chan_step Room (chan_of s, chan_of t) = (r, chan_of s, chan_of t)"
    "\<exists>r. end_step (bio_methods user) b Pend w = Some (r, w) \<and> chan_step Pend (chan_of s, chan_of t) = (r, chan_of s, chan_of t)"
proof -
  note st = pair_at_store [OF p]
  have x: "bio_method x = Some Pair_method" "bio_ptr x = Some a" "bio_ptr y = Some d" using st(7,8) by (simp_all add: end_ok_def)
  have s: "ring_ok s" "bio_peer s = Some c" "bio_size s < 9223372036854775808" using st(9) by (simp_all add: chan_ok_def)
  have t: "ring_ok t" "bio_size t < 9223372036854775808" using st(10) by (simp_all add: chan_ok_def)
  have ct: "BIO_ctrl (bio_methods user) (Some b) cmd i ptr w = bio_ctrl b cmd i ptr w" for cmd i ptr
    using st(1) x(1) by (simp add: BIO_ctrl_def bio_op_eq methods_biop_def)
  let ?s = "s\<lparr>bio_closed := True\<rparr>"
  have "ring_ok ?s = ring_ok s" "ring ?s = ring s" by (cases "bio_buf s"; simp add: ring_ok_def ring_def)+
  then have "chan_ok ?s c" "chan_step Shut (chan_of s, chan_of t) = ((1, [], False), chan_of ?s, chan_of t)"
    using st(9) by (simp_all add: chan_ok_def chan_of_def)
  moreover have "end_step (bio_methods user) b Shut w = Some ((1, [], False), w\<lparr>pairs := (pairs w)(a \<mapsto> ?s)\<rparr>)"
    using st x by (simp add: end_step_def BIO_shutdown_wr_def ct bio_ctrl_def pair_upd_eq c_int_id)
  moreover have "pair_at H B P b c a d x y ?s t (w\<lparr>pairs := (pairs w)(a \<mapsto> ?s)\<rparr>)"
    using p \<open>chan_ok ?s c\<close> by (auto simp: pair_at_def fun_upd_twist)
  ultimately show "\<exists>r s' w'. end_step (bio_methods user) b Shut w = Some (r, w') \<and> pair_at H B P b c a d x y s' t w'
      \<and> chan_step Shut (chan_of s, chan_of t) = (r, chan_of s', chan_of t)" by blast
  have l: "bio_len s \<le> bio_size s" "bio_len t \<le> bio_size t" using s(1) t(1) by (simp_all add: ring_ok_def)
  have "c_long (int (bio_size s) - int (bio_len s)) = int (bio_size s - bio_len s)"
    using l(1) s(3) by (subst c_long_id) auto
  then show "\<exists>r. end_step (bio_methods user) b Room w = Some (r, w) \<and> chan_step Room (chan_of s, chan_of t) = (r, chan_of s, chan_of t)"
    using st x s by (simp add: end_step_def BIO_ctrl_get_write_guarantee_def ct bio_ctrl_def chan_of_def)
  have "c_long (int (bio_len t)) = int (bio_len t)" using l(2) t(2) by (subst c_long_id) auto
  then show "\<exists>r. end_step (bio_methods user) b Pend w = Some (r, w) \<and> chan_step Pend (chan_of s, chan_of t) = (r, chan_of s, chan_of t)"
    using st x s t by (intro exI [of _ "(int (bio_len t), [], False)"])
      (simp add: end_step_def BIO_pending_def ct bio_ctrl_def chan_of_def)
qed

definition small_call :: "call \<Rightarrow> bool" where
  "small_call c = (case c of Send data \<Rightarrow> length data \<le> INT_MAX | Recv k \<Rightarrow> k \<le> INT_MAX | _ \<Rightarrow> True)"

lemma call_step:
  assumes p: "pair_at H B P b c a d x y s t w" and n: "small_call cl"
  shows "\<exists>r x' s' t' w'. end_step (bio_methods user) b cl w = Some (r, w') \<and> pair_at H B P b c a d x' y s' t' w'
    \<and> chan_step cl (chan_of s, chan_of t) = (r, chan_of s', chan_of t')"
proof (cases cl)
  case (Send data)
  then show ?thesis using send_step [OF p, of data user] n by (fastforce simp: small_call_def)
next
  case (Recv k)
  then show ?thesis using recv_step [OF p, of k user] n by (fastforce simp: small_call_def)
next
  case Shut
  then show ?thesis using ctrl_step(1) [OF p, of user] by blast
next
  case Room
  then show ?thesis using ctrl_step(2) [OF p, of user] p by blast
next
  case Pend
  then show ?thesis using ctrl_step(3) [OF p, of user] p by blast
qed

lemma pair_run_chan:
  assumes "pair_at H B P b c a d x y s t w" "\<forall>(e, cl) \<in> set calls. small_call cl"
  shows "\<exists>rs x' y' s' t' w'. pair_run (bio_methods user) (b, c) calls w = Some (rs, w') \<and> pair_at H B P b c a d x' y' s' t' w'
    \<and> chan_run calls (chan_of s, chan_of t) = (rs, chan_of s', chan_of t')"
  using assms
proof (induction calls arbitrary: x y s t w)
  case Nil
  then show ?case by auto
next
  case (Cons ec calls)
  obtain e cl where ec: "ec = (e, cl)" by fastforce
  have small: "small_call cl" "\<forall>(e, cl) \<in> set calls. small_call cl" using Cons.prems(2) ec by auto
  obtain r x' y' s' t' w' where 1: "end_step (bio_methods user) (if e then b else c) cl w = Some (r, w')"
    "pair_at H B P b c a d x' y' s' t' w'"
    "(if e then chan_step cl (chan_of s, chan_of t) else chan_step cl (chan_of t, chan_of s))
       = (r, if e then (chan_of s', chan_of t') else (chan_of t', chan_of s'))"
  proof (cases e)
    case True
    then show ?thesis using call_step [OF Cons.prems(1) small(1), of user] that by fastforce
  next
    case False
    then show ?thesis using call_step [OF pair_at_sym [OF Cons.prems(1)] small(1), of user] that pair_at_sym by (simp, blast)
  qed
  from Cons.IH [OF 1(2) small(2)] obtain rs x2 y2 s2 t2 w2 where 2: "pair_run (bio_methods user) (b, c) calls w' = Some (rs, w2)"
    "pair_at H B P b c a d x2 y2 s2 t2 w2" "chan_run calls (chan_of s', chan_of t') = (rs, chan_of s2, chan_of t2)" by blast
  have "pair_run (bio_methods user) (b, c) (ec # calls) w = Some (r # rs, w2)" using 1(1) 2(1) by (cases e) (simp_all add: ec)
  moreover have "chan_run (ec # calls) (chan_of s, chan_of t) = (r # rs, chan_of s2, chan_of t2)"
    using 1(3) 2(3) by (cases e) (simp_all add: ec)
  ultimately show ?case using 2(2) by blast
qed

end
