(* ===== verification/Bio_Pair_Props.thy ===== *)
theory Bio_Pair_Props
  imports Bio_Channel
begin

text \<open>
  The life of a BIO pair: making it, with allocations failing at any point, using it, and freeing its ends.
\<close>

section \<open>Making and freeing a pair\<close>

text \<open>Addresses that \<^verbatim>\<open>malloc\<close> has not returned yet hold no object.\<close>

definition fresh_store :: "world \<Rightarrow> bool" where
  "fresh_store w \<longleftrightarrow> (\<forall>i\<ge>w_next w. bios w i = None \<and> pairs w i = None \<and> bufs w i = None)"

definition new_end :: bio_bio_st where
  "new_end = \<lparr>bio_peer = None, bio_closed = False, bio_len = 0, bio_offset = 0, bio_size = 17 * 1024, bio_buf = None, bio_request = 0\<rparr>"

definition new_bio :: "nat \<Rightarrow> bio_st" where
  "new_bio a = zero_bio\<lparr>bio_method := Some Pair_method, bio_shutdown := 1, bio_references := 1, bio_ptr := Some a\<rparr>"

lemma new_bio_simps [simp]:
  "bio_method (new_bio a) = Some Pair_method" "bio_ptr (new_bio a) = Some a" "bio_references (new_bio a) = 1"
  "next_bio (new_bio a) = None" "bio_peer new_end = None" "bio_buf new_end = None" "bio_size new_end = 17408"
  by (simp_all add: new_bio_def zero_bio_def new_end_def)

lemma table_pair [simp]:
  "bio_methods user Pair_method = methods_biop" "bcreate methods_biop = Some bio_new" "bdestroy methods_biop = Some bio_free"
  "bread methods_biop = Some bio_read" "bwrite methods_biop = Some bio_write"
  by (simp_all add: bio_methods_def methods_biop_def)

lemma BIO_new_cases:
  obtains w' where "BIO_new (bio_methods user) Pair_method w = Some (None, w')" "bios w' = (bios w)(w_next w := None) \<or> bios w' = bios w"
      "pairs w' = pairs w" "w_next w < w_next w'"
    | w' where "BIO_new (bio_methods user) Pair_method w = Some (Some (w_next w), w')" "bios w' = (bios w)(w_next w \<mapsto> new_bio (w_next w + 1))"
      "pairs w' = (pairs w)(w_next w + 1 \<mapsto> new_end)" "w_next w' = w_next w + 2" "w_heap w' = w_heap w"
proof (cases "OPENSSL_malloc (w_heap w (w_next w)) 72")
  case no: False
  then have "BIO_new (bio_methods user) Pair_method w = Some (None, w\<lparr>w_next := w_next w + 1\<rparr>)" by (simp add: BIO_new_def w_malloc_def)
  then show ?thesis by (rule that(1)) simp_all
next
  case yes: True
  show ?thesis
  proof (cases "OPENSSL_malloc (w_heap w (w_next w + 1)) 56")
    case False
    obtain w' where "BIO_new (bio_methods user) Pair_method w = Some (None, w')" "bios w' = (bios w)(w_next w := None)"
        "pairs w' = pairs w" "w_next w < w_next w'"
      using yes False by (simp add: BIO_new_def w_malloc_def bio_new_def Let_def)
    then show ?thesis using that(1) by blast
  next
    case True
    obtain w' where "BIO_new (bio_methods user) Pair_method w = Some (Some (w_next w), w')" "bios w' = (bios w)(w_next w \<mapsto> new_bio (w_next w + 1))"
        "pairs w' = (pairs w)(w_next w + 1 \<mapsto> new_end)" "w_next w' = w_next w + 2" "w_heap w' = w_heap w"
      using yes True by (simp add: BIO_new_def w_malloc_def bio_new_def bio_upd_def new_bio_def new_end_def zero_bio_def)
    then show ?thesis using that(2) by blast
  qed
qed

lemma BIO_free_null [simp]: "BIO_free tab None w = Some (1, w)"
  by (simp add: BIO_free.simps)

lemma refcount_1 [simp]: "CRYPTO_refcount_dec_and_test_zero 1 = Some (True, 0)"
  by (simp add: CRYPTO_refcount_dec_and_test_zero_def CRYPTO_REFCOUNT_MAX_def)

lemma BIO_free_unpaired:
  assumes "bios w b = Some x" "bio_method x = Some Pair_method" "bio_references x = 1" "next_bio x = None"
    "bio_ptr x = Some a" "pairs w a = Some s" "bio_peer s = None"
  obtains w' where "BIO_free (bio_methods user) (Some b) w = Some (1, w')" "bios w' = (bios w)(b := None)"
    "pairs w' = (pairs w)(a := None)" "w_next w' = w_next w"
  using assms by (simp add: BIO_free.simps [of _ "Some b"] BIO_pop_def bio_upd_def bio_free_def)

definition room :: "nat \<Rightarrow> nat" where "room n = (if n = 0 then 17408 else n)"

lemma make_buf:
  assumes "pairs w b = Some s" "bio_buf s = None" "bio_size s = 17408" "bio_peer s = None"
  obtains w' s' where "bio_make_buf b n w = Some (False, w')" "bios w' = bios w" "pairs w' = (pairs w)(b \<mapsto> s')" "bio_peer s' = None"
    | w' s' where "bio_make_buf b n w = Some (True, w')" "bios w' = bios w" "pairs w' = (pairs w)(b \<mapsto> s')" "bio_size s' = room n"
      "bio_len s' = 0" "bio_offset s' = 0" "bio_peer s' = None" "\<exists>d. bio_buf s' = Some d \<and> length d = room n" "w_heap w' = w_heap w"
proof -
  define s1 where "s1 = s\<lparr>bio_size := room n\<rparr>"
  have s1: "(if n \<noteq> 0 then pair_upd b (\<lambda>s. s\<lparr>bio_size := n\<rparr>) w else Some w) = Some (w\<lparr>pairs := (pairs w)(b \<mapsto> s1)\<rparr>)"
    using assms by (cases w) (auto simp: pair_upd_eq s1_def room_def fun_upd_idem)
  show ?thesis
  proof (cases "OPENSSL_malloc (w_heap w (w_next w)) (room n)")
    case False
    have "bio_make_buf b n w = Some (False, w\<lparr>pairs := (pairs w)(b \<mapsto> s1), w_next := w_next w + 1\<rparr>)"
      using assms(1,2) False unfolding bio_make_buf_def s1 by (simp add: w_malloc_def s1_def)
    then show ?thesis by (rule that(1) [where s' = s1]) (use assms(4) in \<open>simp_all add: s1_def\<close>)
  next
    case True
    define s2 where "s2 = s1\<lparr>bio_buf := Some (map (w_fresh w (w_next w)) [0..<room n]), bio_len := 0, bio_offset := 0\<rparr>"
    have "bio_make_buf b n w = Some (True, w\<lparr>pairs := (pairs w)(b \<mapsto> s2), w_next := w_next w + 1\<rparr>)"
      using assms(1,2) True unfolding bio_make_buf_def s1 by (simp add: w_malloc_def s1_def s2_def pair_upd_def)
    then show ?thesis by (rule that(2) [where s' = s2]) (use assms(4) in \<open>simp_all add: s2_def s1_def\<close>)
  qed
qed

lemma make_pair_cases:
  assumes w: "bios w = B(b \<mapsto> new_bio a, c \<mapsto> new_bio d)" "pairs w = P(a \<mapsto> new_end, d \<mapsto> new_end)" "b \<noteq> c" "a \<noteq> d" "w_heap w = H"
    and n: "n1 < 9223372036854775808" "n2 < 9223372036854775808"
  obtains w' s t where "bio_make_pair b c n1 n2 w = Some (False, w')" "bios w' = bios w" "pairs w' = P(a \<mapsto> s, d \<mapsto> t)"
      "bio_peer s = None" "bio_peer t = None"
    | w' x y s t where "bio_make_pair b c n1 n2 w = Some (True, w')" "pair_at H B P b c a d x y s t w'"
      "chan_of s = ([], room n1, False)" "chan_of t = ([], room n2, False)"
proof -
  have pa: "pairs w a = Some new_end" and st: "bios w b = Some (new_bio a)" "bios w c = Some (new_bio d)" "pairs w d = Some new_end"
    using w by simp_all
  note mp = bio_make_pair_def [of b c n1 n2 w] st pa
  show ?thesis
  proof (rule make_buf [OF pa, of n1])
    fix w1 s1 assume 1: "bio_make_buf a n1 w = Some (False, w1)" "bios w1 = bios w" "pairs w1 = (pairs w)(a \<mapsto> s1)" "bio_peer s1 = None"
    show ?thesis by (rule that(1) [of w1 s1 new_end]) (use 1 w in \<open>simp_all add: mp fun_upd_twist\<close>)
  next
    fix w1 s1 assume 1: "bio_make_buf a n1 w = Some (True, w1)" "bios w1 = bios w" "pairs w1 = (pairs w)(a \<mapsto> s1)" "bio_size s1 = room n1"
      "bio_len s1 = 0" "bio_offset s1 = 0" "bio_peer s1 = None" "\<exists>d. bio_buf s1 = Some d \<and> length d = room n1" "w_heap w1 = w_heap w"
    have pd: "pairs w1 d = Some new_end" using 1(3) w by simp
    show ?thesis
    proof (rule make_buf [OF pd, of n2])
      fix w2 s2 assume 2: "bio_make_buf d n2 w1 = Some (False, w2)" "bios w2 = bios w1" "pairs w2 = (pairs w1)(d \<mapsto> s2)" "bio_peer s2 = None"
      show ?thesis by (rule that(1) [of w2 s1 s2]) (use 1 2 w in \<open>simp_all add: mp fun_upd_twist\<close>)
    next
      fix w2 s2 assume 2: "bio_make_buf d n2 w1 = Some (True, w2)" "bios w2 = bios w1" "pairs w2 = (pairs w1)(d \<mapsto> s2)" "bio_size s2 = room n2"
        "bio_len s2 = 0" "bio_offset s2 = 0" "bio_peer s2 = None" "\<exists>d. bio_buf s2 = Some d \<and> length d = room n2" "w_heap w2 = w_heap w1"
      define s where "s = s1\<lparr>bio_peer := Some c, bio_closed := False, bio_request := 0\<rparr>"
      define t where "t = s2\<lparr>bio_peer := Some b, bio_closed := False, bio_request := 0\<rparr>"
      define x where "x = (new_bio a)\<lparr>bio_init := 1\<rparr>"
      define y where "y = (new_bio d)\<lparr>bio_init := 1\<rparr>"
      have p2: "pairs w2 = P(a \<mapsto> s1, d \<mapsto> s2)" using 1(3) 2(3) w by (simp add: fun_upd_twist)
      have r: "0 < room n" "n < 9223372036854775808 \<Longrightarrow> room n < 9223372036854775808" for n by (auto simp: room_def)
      have ok: "chan_ok s c" "chan_ok t b"
        using 1 2 r n by (auto simp: s_def t_def chan_ok_def ring_ok_def)
      let ?w = "w2\<lparr>pairs := P(a \<mapsto> s, d \<mapsto> t), bios := B(b \<mapsto> x, c \<mapsto> y)\<rparr>"
      have "bio_make_pair b c n1 n2 w = Some (True, ?w)"
        using 1(1,2) 2(1,2) w p2 by (simp add: mp pair_upd_def bio_upd_def s_def t_def x_def y_def fun_upd_twist)
      moreover have "pair_at H B P b c a d x y s t ?w"
        using ok w(3-5) 1(9) 2(9) by (simp add: pair_at_def end_ok_def x_def y_def)
      moreover have "chan_of s = ([], room n1, False)" "chan_of t = ([], room n2, False)"
        using 1 2 by (auto simp: chan_of_def ring_def s_def t_def)
      ultimately show ?thesis by (rule that(2))
    qed simp_all
  qed simp_all
qed

lemma new_pair_cases:
  assumes "fresh_store w" "n1 < 9223372036854775808" "n2 < 9223372036854775808"
  obtains w' where "BIO_new_bio_pair (bio_methods user) n1 n2 w = Some (None, w')" "bios w' = bios w" "pairs w' = pairs w"
    | b c w' a d x y s t where "BIO_new_bio_pair (bio_methods user) n1 n2 w = Some (Some (b, c), w')"
      "pair_at (w_heap w) (bios w) (pairs w) b c a d x y s t w'" "chan_of s = ([], room n1, False)"
      "chan_of t = ([], room n2, False)" "bios w b = None" "bios w c = None" "pairs w a = None" "pairs w d = None"
proof -
  have fr: "\<And>i. w_next w \<le> i \<Longrightarrow> bios w i = None" "\<And>i. w_next w \<le> i \<Longrightarrow> pairs w i = None"
    using assms(1) by (auto simp: fresh_store_def)
  show ?thesis
  proof (rule BIO_new_cases [of user w])
    fix w1 assume 1: "BIO_new (bio_methods user) Pair_method w = Some (None, w1)" "bios w1 = (bios w)(w_next w := None) \<or> bios w1 = bios w"
      "pairs w1 = pairs w" "w_next w < w_next w1"
    then have b1: "bios w1 = bios w" using fr(1) [of "w_next w"] by (auto simp: fun_upd_idem)
    show ?thesis
    proof (rule BIO_new_cases [of user w1])
      fix w2 assume 2: "BIO_new (bio_methods user) Pair_method w1 = Some (None, w2)" "bios w2 = (bios w1)(w_next w1 := None) \<or> bios w2 = bios w1"
        "pairs w2 = pairs w1" "w_next w1 < w_next w2"
      then have "bios w2 = bios w" using fr(1) [of "w_next w1"] 1(4) b1 by (auto simp: fun_upd_idem)
      then show ?thesis using 1 2 by (intro that(1) [of w2]) (simp_all add: BIO_new_bio_pair_def)
    next
      fix w2 assume 2: "BIO_new (bio_methods user) Pair_method w1 = Some (Some (w_next w1), w2)"
        "bios w2 = (bios w1)(w_next w1 \<mapsto> new_bio (w_next w1 + 1))" "pairs w2 = (pairs w1)(w_next w1 + 1 \<mapsto> new_end)"
      obtain w3 where 3: "BIO_free (bio_methods user) (Some (w_next w1)) w2 = Some (1, w3)" "bios w3 = (bios w2)(w_next w1 := None)"
        "pairs w3 = (pairs w2)(w_next w1 + 1 := None)"
        by (rule BIO_free_unpaired [of w2 "w_next w1" "new_bio (w_next w1 + 1)" "w_next w1 + 1" new_end user]) (use 2 in simp_all)
      have "bios w3 = bios w" "pairs w3 = pairs w"
        using 3 2 b1 1(3,4) fr(1) [of "w_next w1"] fr(2) [of "w_next w1 + 1"] by (auto simp: fun_upd_idem)
      then show ?thesis using 1 2 3 by (intro that(1) [of w3]) (simp_all add: BIO_new_bio_pair_def)
    qed
  next
    fix w1
    let ?b = "w_next w" and ?a = "w_next w + 1"
    assume 1: "BIO_new (bio_methods user) Pair_method w = Some (Some ?b, w1)" "bios w1 = (bios w)(?b \<mapsto> new_bio ?a)"
      "pairs w1 = (pairs w)(?a \<mapsto> new_end)" "w_next w1 = w_next w + 2" "w_heap w1 = w_heap w"
    show ?thesis
    proof (rule BIO_new_cases [of user w1])
      fix w2 assume 2: "BIO_new (bio_methods user) Pair_method w1 = Some (None, w2)" "bios w2 = (bios w1)(w_next w1 := None) \<or> bios w2 = bios w1"
        "pairs w2 = pairs w1"
      then have b2: "bios w2 = bios w1" using fr(1) [of "w_next w1"] 1(2,4) by (auto simp: fun_upd_idem)
      obtain w3 where 3: "BIO_free (bio_methods user) (Some ?b) w2 = Some (1, w3)" "bios w3 = (bios w2)(?b := None)"
        "pairs w3 = (pairs w2)(?a := None)"
        by (rule BIO_free_unpaired [of w2 ?b "new_bio ?a" ?a new_end user]) (use 1 2 b2 in simp_all)
      have "bios w3 = bios w" "pairs w3 = pairs w"
        using 3 2 b2 1 fr(1) [of ?b] fr(2) [of ?a] by (auto simp: fun_upd_idem)
      then show ?thesis using 1 2 3 by (intro that(1) [of w3]) (simp_all add: BIO_new_bio_pair_def)
    next
      fix w2
      let ?c = "w_next w + 2" and ?d = "w_next w + 3"
      assume 2: "BIO_new (bio_methods user) Pair_method w1 = Some (Some (w_next w1), w2)"
        "bios w2 = (bios w1)(w_next w1 \<mapsto> new_bio (w_next w1 + 1))" "pairs w2 = (pairs w1)(w_next w1 + 1 \<mapsto> new_end)" "w_heap w2 = w_heap w1"
      have h2: "w_heap w2 = w_heap w" using 1(5) 2(4) by simp
      have w2: "bios w2 = (bios w)(?b \<mapsto> new_bio ?a, ?c \<mapsto> new_bio ?d)" "pairs w2 = (pairs w)(?a \<mapsto> new_end, ?d \<mapsto> new_end)"
        using 1 2 by (simp_all add: eval_nat_numeral)
      have ne: "?b \<noteq> ?c" "?a \<noteq> ?d" by simp_all
      note new = BIO_new_bio_pair_def 1(1) 2(1) 1(4)
      show ?thesis
      proof (rule make_pair_cases [OF w2 ne h2 assms(2,3)])
        fix w3 s t assume 3: "bio_make_pair ?b ?c n1 n2 w2 = Some (False, w3)" "bios w3 = bios w2"
          "pairs w3 = (pairs w)(?a \<mapsto> s, ?d \<mapsto> t)" "bio_peer s = None" "bio_peer t = None"
        obtain w4 where 4: "BIO_free (bio_methods user) (Some ?b) w3 = Some (1, w4)" "bios w4 = (bios w3)(?b := None)"
          "pairs w4 = (pairs w3)(?a := None)"
          by (rule BIO_free_unpaired [of w3 ?b "new_bio ?a" ?a s user]) (use 3 w2 in simp_all)
        obtain w5 where 5: "BIO_free (bio_methods user) (Some ?c) w4 = Some (1, w5)" "bios w5 = (bios w4)(?c := None)"
          "pairs w5 = (pairs w4)(?d := None)"
          by (rule BIO_free_unpaired [of w4 ?c "new_bio ?d" ?d t user]) (use 3 4 w2 in simp_all)
        have "bios w5 = bios w" "pairs w5 = pairs w" using 3 4 5 w2 fr by (auto simp: fun_eq_iff)
        then show ?thesis using 3 4 5 by (intro that(1) [of w5]) (simp_all add: new)
      next
        fix w3 x y s t assume "bio_make_pair ?b ?c n1 n2 w2 = Some (True, w3)"
          "pair_at (w_heap w) (bios w) (pairs w) ?b ?c ?a ?d x y s t w3" "chan_of s = ([], room n1, False)" "chan_of t = ([], room n2, False)"
        then show ?thesis using fr by (intro that(2) [of ?b ?c w3 ?a ?d x y s t]) (simp_all add: new)
      qed
    qed
  qed
qed

lemma free_end:
  assumes p: "pair_at H B P b c a d x y s t w"
  obtains w' where "BIO_free (bio_methods user) (Some b) w = Some (1, w')"
    "bios w' = B(b := None, c \<mapsto> y\<lparr>bio_init := 0\<rparr>)" "pairs w' = P(a := None, d \<mapsto> t\<lparr>bio_peer := None, bio_len := 0, bio_offset := 0\<rparr>)"
proof -
  note st = pair_at_store [OF p]
  have x: "bio_method x = Some Pair_method" "bio_ptr x = Some a" "bio_references x = 1" "next_bio x = None" "bio_ptr y = Some d"
    using st(7,8) by (simp_all add: end_ok_def)
  have s: "bio_peer s = Some c" using st(9) by (simp add: chan_ok_def)
  have w: "bios w = B(b \<mapsto> x, c \<mapsto> y)" "pairs w = P(a \<mapsto> s, d \<mapsto> t)" "c \<noteq> b" "d \<noteq> a" using p by (auto simp: pair_at_def)
  let ?w = "w\<lparr>bios := B(b := None, c \<mapsto> y\<lparr>bio_init := 0\<rparr>), pairs := P(a := None, d \<mapsto> t\<lparr>bio_peer := None, bio_len := 0, bio_offset := 0\<rparr>)\<rparr>"
  have "BIO_free (bio_methods user) (Some b) w = Some (1, ?w)"
    using x s w st(5,6)
    by (simp add: BIO_free.simps [of _ "Some b"] BIO_pop_def bio_upd_def bio_free_def bio_destroy_pair_def pair_upd_def fun_upd_twist
        del: put_simps)
  then show ?thesis by (rule that) simp_all
qed

section \<open>Properties\<close>

text \<open>
  C29: A BIO pair is two bounded queues.  Whatever calls are made on the two ends of a new pair - writing and
  reading any number of bytes, closing, asking for the room and for the pending bytes - they all return,
  follow no stale pointer, and answer like two queues of bytes: the same counts, the same bytes, and the
  same advice to try again.
\<close>
theorem bio_pair_refines_channels:
  assumes "fresh_store w" "n1 < 9223372036854775808" "n2 < 9223372036854775808"
    and "BIO_new_bio_pair (bio_methods user) n1 n2 w = Some (Some (b, c), w0)" "\<forall>(e, cl) \<in> set calls. small_call cl"
  shows "map_option fst (pair_run (bio_methods user) (b, c) calls w0)
    = Some (fst (chan_run calls (([], room n1, False), ([], room n2, False))))"
proof (rule new_pair_cases [OF assms(1-3), of user])
  fix b' c' w' a d x y s t
  assume n: "BIO_new_bio_pair (bio_methods user) n1 n2 w = Some (Some (b', c'), w')" "pair_at (w_heap w) (bios w) (pairs w) b' c' a d x y s t w'"
    "chan_of s = ([], room n1, False)" "chan_of t = ([], room n2, False)"
  then have e: "b' = b" "c' = c" "w' = w0" using assms(4) by simp_all
  from pair_run_chan [OF n(2) assms(5), of user] n(3,4) show ?thesis by (auto simp: e)
qed (use assms(4) in simp)

definition empty_world :: "(nat \<Rightarrow> heap) \<Rightarrow> world" where
  "empty_world heap = \<lparr>bios = Map.empty, bufs = Map.empty, pairs = Map.empty, w_next = 0, w_heap = heap, w_fresh = (\<lambda>_ _. 0)\<rparr>"

lemma fresh_empty [simp]: "fresh_store (empty_world heap)"
  by (simp add: fresh_store_def empty_world_def)

lemma bio_pair_refines_channels_witness:
  "\<exists>b c w0. BIO_new_bio_pair (bio_methods undefined) 3 2 (empty_world (\<lambda>_ _. True)) = Some (Some (b, c), w0)
    \<and> map_option fst (pair_run (bio_methods undefined) (b, c)
          [(True, Send [1, 2, 3, 4]), (False, Recv 2), (True, Send [4]), (False, Pend), (True, Shut), (False, Recv 9), (False, Recv 9)] w0)
        = Some [(3, [], False), (2, [1, 2], False), (1, [], False), (2, [], False), (1, [], False), (2, [3, 4], False), (0, [], False)]"
proof -
  let ?new = "BIO_new_bio_pair (bio_methods undefined) 3 2 (empty_world (\<lambda>_ _. True))"
  let ?calls = "[(True, Send [1, 2, 3, 4]), (False, Recv 2), (True, Send [4]), (False, Pend), (True, Shut), (False, Recv 9), (False, Recv 9)]"
  have "(case ?new of Some (Some _, _) \<Rightarrow> True | _ \<Rightarrow> False)" by code_simp
  then obtain b c w0 where new: "?new = Some (Some (b, c), w0)" by (auto split: option.splits)
  have "\<forall>(e, cl) \<in> set ?calls. small_call cl" by (simp add: small_call_def)
  from bio_pair_refines_channels [OF fresh_empty _ _ new this] have
    "map_option fst (pair_run (bio_methods undefined) (b, c) ?calls w0) = Some (fst (chan_run ?calls (([], room 3, False), ([], room 2, False))))"
    by simp
  moreover have "fst (chan_run ?calls (([], room 3, False), ([], room 2, False)))
      = [(3, [], False), (2, [1, 2], False), (1, [], False), (2, [], False), (1, [], False), (2, [3, 4], False), (0, [], False)]"
    by code_simp
  ultimately show ?thesis using new by auto
qed

text \<open>
  C30: Making a pair always returns.  When an allocation fails, everything allocated before it is freed again;
  otherwise, after any calls, freeing one end leaves the other end unconnected but usable - it reads and
  writes nothing and reports that - and freeing that end too leaves the store as it was.
\<close>
theorem bio_pair_lifecycle:
  assumes "fresh_store w" "n1 < 9223372036854775808" "n2 < 9223372036854775808" "\<forall>(e, cl) \<in> set calls. small_call cl"
  shows "\<exists>r w0. BIO_new_bio_pair (bio_methods user) n1 n2 w = Some (r, w0)
    \<and> (case r of
         None \<Rightarrow> bios w0 = bios w \<and> pairs w0 = pairs w
       | Some (b, c) \<Rightarrow> \<exists>rs w1 w2 w3. pair_run (bio_methods user) (b, c) calls w0 = Some (rs, w1)
           \<and> BIO_free (bio_methods user) (Some b) w1 = Some (1, w2)
           \<and> BIO_read (bio_methods user) (Some c) k w2 = Some (- 2, [], w2)
           \<and> BIO_write (bio_methods user) (Some c) data w2 = Some (- 2, w2)
           \<and> BIO_free (bio_methods user) (Some c) w2 = Some (1, w3) \<and> bios w3 = bios w \<and> pairs w3 = pairs w)"
proof (rule new_pair_cases [OF assms(1-3), of user])
  fix b c w0 a d x y s t
  assume n: "BIO_new_bio_pair (bio_methods user) n1 n2 w = Some (Some (b, c), w0)" "pair_at (w_heap w) (bios w) (pairs w) b c a d x y s t w0"
    "bios w b = None" "bios w c = None" "pairs w a = None" "pairs w d = None"
  from pair_run_chan [OF n(2) assms(4), of user] obtain rs x1 y1 s1 t1 w1 where
    r: "pair_run (bio_methods user) (b, c) calls w0 = Some (rs, w1)" "pair_at (w_heap w) (bios w) (pairs w) b c a d x1 y1 s1 t1 w1" by blast
  obtain w2 where 2: "BIO_free (bio_methods user) (Some b) w1 = Some (1, w2)" "bios w2 = (bios w)(b := None, c \<mapsto> y1\<lparr>bio_init := 0\<rparr>)"
    "pairs w2 = (pairs w)(a := None, d \<mapsto> t1\<lparr>bio_peer := None, bio_len := 0, bio_offset := 0\<rparr>)" by (rule free_end [OF r(2)])
  note y = pair_at_store(5-8) [OF r(2)]
  have io: "BIO_read (bio_methods user) (Some c) k w2 = Some (- 2, [], w2)" "BIO_write (bio_methods user) (Some c) data w2 = Some (- 2, w2)"
    using 2(2) y by (simp_all add: BIO_read_def BIO_write_def bio_op_eq end_ok_def)
  obtain w3 where 3: "BIO_free (bio_methods user) (Some c) w2 = Some (1, w3)" "bios w3 = (bios w2)(c := None)" "pairs w3 = (pairs w2)(d := None)"
    by (rule BIO_free_unpaired [of w2 c "y1\<lparr>bio_init := 0\<rparr>" d "t1\<lparr>bio_peer := None, bio_len := 0, bio_offset := 0\<rparr>" user])
      (use 2 y in \<open>simp_all add: end_ok_def\<close>)
  have "bios w3 = bios w" "pairs w3 = pairs w" using 2 3 y n(3-6) by (auto simp: fun_eq_iff)
  then show ?thesis using n(1) r(1) 2(1) io 3(1) by auto
qed auto

lemma bio_pair_lifecycle_witness:
  "\<exists>w0. BIO_new_bio_pair (bio_methods undefined) 3 2 (empty_world (\<lambda>n _. n < 5)) = Some (None, w0)
    \<and> bios w0 = Map.empty \<and> pairs w0 = Map.empty"
proof -
  let ?new = "BIO_new_bio_pair (bio_methods undefined) 3 2 (empty_world (\<lambda>n _. n < 5))"
  have "(case ?new of Some (None, _) \<Rightarrow> True | _ \<Rightarrow> False)" by code_simp
  then obtain w0 where new: "?new = Some (None, w0)" by (auto split: option.splits)
  have "\<forall>(e, cl) \<in> set [(True, Send [1])]. small_call cl" by (simp add: small_call_def)
  from bio_pair_lifecycle [OF fresh_empty _ _ this, of 3 2 undefined "\<lambda>n _. n < 5"] new show ?thesis
    by (simp add: empty_world_def)
qed

text \<open>
  A sender and a receiver that take turns: the sender offers all that is left, the receiver takes at most \<open>k\<close> bytes.
\<close>

fun pump :: "methods \<Rightarrow> nat \<times> nat \<Rightarrow> nat \<Rightarrow> nat \<Rightarrow> bytes \<Rightarrow> world \<Rightarrow> (bytes \<times> bytes \<times> world) option" where
  "pump tab bc k 0 data w = Some ([], data, w)"
| "pump tab bc k (Suc rounds) data w = do {
     ((sent, _), w) \<leftarrow> end_step tab (fst bc) (Send data) w;
     ((_, out, _), w) \<leftarrow> end_step tab (snd bc) (Recv k) w;
     (outs, rest, w) \<leftarrow> pump tab bc k rounds (drop (nat sent) data) w;
     Some (out @ outs, rest, w) }"

lemma pump_delivers:
  assumes "pair_at H B P b c a d x y s t w" "0 < k" "k \<le> INT_MAX" "length data \<le> INT_MAX" "\<not> bio_closed s"
    "length (ring s) + length data \<le> rounds"
  shows "\<exists>w'. pump (bio_methods user) (b, c) k rounds data w = Some (ring s @ data, [], w')"
  using assms
proof (induction rounds arbitrary: x y s t w data)
  case (Suc rounds)
  note p = Suc.prems(1)
  obtain r x1 s1 w1 where 1: "end_step (bio_methods user) b (Send data) w = Some (r, w1)" "pair_at H B P b c a d x1 y s1 t w1"
    "chan_step (Send data) (chan_of s, chan_of t) = (r, chan_of s1, chan_of t)" using send_step [OF p Suc.prems(4)] by blast
  obtain r2 y2 s2 w2 where 2: "end_step (bio_methods user) c (Recv k) w1 = Some (r2, w2)" "pair_at H B P c b d a y2 x1 t s2 w2"
    "chan_step (Recv k) (chan_of t, chan_of s1) = (r2, chan_of t, chan_of s2)"
    using recv_step [OF pair_at_sym [OF 1(2)] Suc.prems(3)] by blast
  have ok: "ring_ok s" "0 < bio_size s" using pair_at_store(9) [OF p] by (auto simp: chan_ok_def ring_ok_def)
  define n where "n = bio_size s - bio_len s"
  have s1: "ring s1 = ring s @ take n data" "bio_size s1 = bio_size s" "\<not> bio_closed s1" "drop (nat (fst r)) data = drop n data"
    using 1(3) Suc.prems(5) ok by (auto simp: chan_of_def n_def min_def split: if_splits)
  obtain sn where r: "r = (fst r, sn)" by (metis prod.collapse)
  have s2: "ring s2 = drop k (ring s1)" "\<not> bio_closed s2" "fst (snd r2) = take k (ring s1)"
    using 2(3) s1(3) Suc.prems(2) by (auto simp: chan_of_def split: if_splits)
  have "ring s1 = [] \<Longrightarrow> ring s = [] \<and> data = []" using s1(1) ok length_ring [OF ok(1)] by (auto simp: n_def)
  moreover have "length (ring s2) + length (drop n data) = length (ring s) + length data - min k (length (ring s1))"
    unfolding s2(1) using s1(1) by (auto simp: min_def)
  ultimately have "length (ring s2) + length (drop n data) \<le> rounds"
    using Suc.prems(2,6) by (cases "ring s1 = []") (auto simp: min_def simp flip: length_greater_0_conv)
  moreover have "length (drop n data) \<le> INT_MAX" using Suc.prems(4) by simp
  ultimately obtain w3 where 3: "pump (bio_methods user) (b, c) k rounds (drop n data) w2 = Some (ring s2 @ drop n data, [], w3)"
    using Suc.IH [OF pair_at_sym [OF 2(2)] Suc.prems(2,3) _ s2(2), of "drop n data"] by blast
  have "take k (ring s1) @ ring s2 @ drop n data = ring s @ data"
    unfolding s2(1) by (metis append.assoc append_take_drop_id s1(1))
  moreover obtain o2 f2 where "r2 = (fst r2, o2, f2)" "o2 = fst (snd r2)" by (metis prod.collapse)
  ultimately show ?case using 1(1) 2(1) 3 r s1(4) s2(3)
    by (metis (mono_tags, lifting) pump.simps(2) bind.bind_lunit case_prod_conv fst_conv snd_conv)
qed simp

text \<open>
  C31: Data gets through.  However small the buffer and the reads, if the sender keeps offering what is left
  and the receiver keeps reading, then after as many rounds as there are bytes everything has arrived, in
  order, and nothing is left to send.
\<close>
theorem bio_pair_delivers:
  assumes "fresh_store w" "n1 < 9223372036854775808" "n2 < 9223372036854775808"
    and "BIO_new_bio_pair (bio_methods user) n1 n2 w = Some (Some (b, c), w0)"
    and "0 < k" "k \<le> INT_MAX" "length data \<le> INT_MAX" "length data \<le> rounds"
  shows "\<exists>w'. pump (bio_methods user) (b, c) k rounds data w0 = Some (data, [], w')"
proof (rule new_pair_cases [OF assms(1-3), of user])
  fix b' c' w' a d x y s t
  assume n: "BIO_new_bio_pair (bio_methods user) n1 n2 w = Some (Some (b', c'), w')" "pair_at (w_heap w) (bios w) (pairs w) b' c' a d x y s t w'"
    "chan_of s = ([], room n1, False)"
  then have e: "b' = b" "c' = c" "w' = w0" using assms(4) by simp_all
  have "ring s = []" "\<not> bio_closed s" using n(3) by (simp_all add: chan_of_def)
  with pump_delivers [OF n(2) assms(5-7), of rounds user] assms(8) show ?thesis by (simp add: e)
qed (use assms(4) in simp)

lemma bio_pair_delivers_witness:
  "\<exists>b c w0 w'. BIO_new_bio_pair (bio_methods undefined) 2 2 (empty_world (\<lambda>_ _. True)) = Some (Some (b, c), w0)
    \<and> pump (bio_methods undefined) (b, c) 1 5 [7, 8, 9, 7, 8] w0 = Some ([7, 8, 9, 7, 8], [], w')"
proof -
  let ?new = "BIO_new_bio_pair (bio_methods undefined) 2 2 (empty_world (\<lambda>_ _. True))"
  have "(case ?new of Some (Some _, _) \<Rightarrow> True | _ \<Rightarrow> False)" by code_simp
  then obtain b c w0 where new: "?new = Some (Some (b, c), w0)" by (auto split: option.splits)
  from bio_pair_delivers [OF fresh_empty _ _ new, of 1 "[7, 8, 9, 7, 8]" 5] new show ?thesis by auto
qed

end
