(* ===== verification/Bio_Mem_Props.thy ===== *)
theory Bio_Mem_Props
  imports Bio_Queue Bio_Pair_Props
begin

text \<open>
  Memory BIOs and BIO pairs as sources of bytes, and the properties of the memory BIO: every run of calls on it
  answers like a queue, and ASN.1 elements are read off it exactly.
\<close>

section \<open>Lines\<close>

text \<open>At most \<open>n\<close> bytes, up to and with the first newline.\<close>

fun line :: "nat \<Rightarrow> bytes \<Rightarrow> bytes" where
  "line 0 q = []"
| "line (Suc n) [] = []"
| "line (Suc n) (c # q) = c # (if c = 10 then [] else line n q)"

lemma line_code [code]:
  "line n q = (if n = 0 then [] else case q of [] \<Rightarrow> [] | c # q \<Rightarrow> c # (if c = 10 then [] else line (n - 1) q))"
  by (cases n; cases q) auto

lemma line_take: "line n q = take (length (line n q)) q" "length (line n q) \<le> length q" "length (line n q) \<le> n"
  by (induction n q rule: line.induct) auto

lemma line_memchr: "(case OPENSSL_memchr (take n q) 10 of None \<Rightarrow> min n (length q) | Some i \<Rightarrow> i + 1) = length (line n q)"
proof (induction n q rule: line.induct)
  case (3 n c q)
  then show ?case by (cases "OPENSSL_memchr (take n q) 10") auto
qed simp_all

lemma mem_gets_step:
  assumes m: "mem_at H b a ro v num q w" and n: "0 < n" "n \<le> INT_MAX"
  shows "\<exists>w'. mem_gets b (int n) w = Some (int (length (line (n - 1) q)), line (n - 1) q @ [0], w')
    \<and> mem_at H b a ro v num (drop (length (line (n - 1) q)) q) w'"
proof -
  obtain x u where st: "bios w b = Some x" "bufs w a = Some u" "mem_bio x a ro num" "buf_ok ro u" "buf_bytes u = q" "w_heap w = H"
      "ro \<Longrightarrow> buf_all u = v"
    using m by (auto simp: mem_at_def)
  define x1 where "x1 = x\<lparr>bio_flags := bio_flags x AND NOT kRetryFlags, bio_retry_reason := 0\<rparr>"
  have x1: "mem_bio x1 a ro num" "bio_ptr x1 = Some a" using st(3) by (simp_all add: x1_def mem_bio_def rdonly_bit(1))
  define w1 where "w1 = w\<lparr>bios := (bios w)(b \<mapsto> x1)\<rparr>"
  have cl: "BIO_clear_retry_flags b w = Some w1" using st(1) by (simp add: BIO_clear_retry_flags_def bio_upd_def x1_def w1_def)
  have w1: "bios w1 b = Some x1" "bufs w1 a = Some u" using st by (simp_all add: w1_def)
  have m1: "mem_at H b a ro v num q w1" using st x1(1) by (auto simp: mem_at_def w1_def)
  have l: "bm_length u = length q" using length_buf_bytes [OF st(4)] st(5) by simp
  define k where "k = min (n - 1) (length q)"
  have "int n - 1 = int (n - 1)" using n(1) by simp
  then have ret: "(if nat (int n - 1) > bm_length u then c_int (int (bm_length u)) else int n - 1) = int k"
    using n l by (auto simp: k_def c_int_small)
  define j where "j = length (line (n - 1) q)"
  have j: "j \<le> k" "j \<le> INT_MAX" "j \<le> n - 1" "line (n - 1) q = take j q"
    using line_take [of "n - 1" q] n(2) by (simp_all add: j_def k_def)
  have nl: "(case bm_data u of None \<Rightarrow> if int k = 0 then Some None else None
      | Some d \<Rightarrow> Some (OPENSSL_memchr (take (nat (int k)) (drop (bm_start u) d)) 10)) = Some (OPENSSL_memchr (take (n - 1) q) 10)"
  proof (cases "bm_data u")
    case None
    then have "q = []" using st(5) by (simp add: buf_bytes_def)
    then show ?thesis using None by (simp add: k_def)
  next
    case (Some d)
    then have "take (n - 1) q = take k (drop (bm_start u) d)" using st(5) l by (simp add: buf_bytes_def k_def) (metis take_take min.commute)
    then show ?thesis using Some by simp
  qed
  have r: "(case OPENSSL_memchr (take (n - 1) q) 10 of None \<Rightarrow> int k | Some i \<Rightarrow> c_int (int i + 1)) = int j"
    using line_memchr [of "n - 1" q] j(2) by (auto simp: j_def k_def c_int_small split: option.splits)
  have e: "mem_gets b (int n) w = do {
      (ret, out, w) \<leftarrow> mem_read_bio b (int j) w1;
      if ret \<ge> 0 then Some (ret, mem_write out (nat ret) [0], w) else Some (ret, out, w) }"
    using n(1) by (simp only: mem_gets_def cl w1 x1(2) ret nl r Let_def Option.bind.bind_lunit) simp
  show ?thesis
  proof (cases "j = 0")
    case True
    have "mem_read_bio b 0 w1 = Some (0, [], w1)"
      using w1(1) by (auto simp: mem_read_bio_def BIO_clear_retry_flags_def bio_upd_def fun_upd_idem w1_def x1_def and.assoc)
    then show ?thesis using m1 True j(4) by (auto simp: e j_def [symmetric] mem_write_def)
  next
    case False
    then have "q \<noteq> []" "min j (length q) = j" using j(1) by (auto simp: k_def)
    with mem_read_step(1) [OF m1 _ j(2)] False obtain w2 where "mem_read_bio b (int j) w1 = Some (int j, take j q, w2)"
      "mem_at H b a ro v num (drop j q) w2" by auto
    moreover have "mem_write (take j q) j [0] = take j q @ [0]" using j(1) by (simp add: mem_write_def k_def)
    moreover have "min (length q) j = j" using j(1) by (simp add: k_def)
    ultimately show ?thesis by (simp add: e j_def [symmetric] j(4) del: One_nat_def)
  qed
qed

section \<open>Calls on a memory BIO\<close>

datatype mem_call = Put bytes | Get nat | Gets nat | Reset | Eof | Pending

text \<open>
  The queue: \<open>v\<close> is what a read-only BIO was made of, and the answer is the result with the bytes read.
\<close>

fun queue_step :: "bool \<Rightarrow> bytes \<Rightarrow> mem_call \<Rightarrow> bytes \<Rightarrow> (int \<times> bytes) \<times> bytes" where
  "queue_step ro v (Put data) q
     = (if data = [] then ((0, []), q) else if ro then ((- 1, []), q) else ((int (length data), []), q @ data))"
| "queue_step ro v (Get k) q
     = (if k = 0 then ((0, []), q) else if q = [] then ((if ro then 0 else - 1, []), q)
        else ((int (min k (length q)), take k q), drop k q))"
| "queue_step ro v (Gets k) q
     = (if k = 0 then ((0, []), q)
        else let s = line (k - 1) q in ((int (length s), s @ [0]), drop (length s) q))"
| "queue_step ro v Reset q = ((1, []), if ro then v else [])"
| "queue_step ro v Eof q = ((if q = [] then 1 else 0, []), q)"
| "queue_step ro v Pending q = ((int (length q), []), q)"

text \<open>Only a write may fail, when the room for the bytes then held cannot be allocated; nothing changes then.\<close>

fun queue_run :: "(nat \<Rightarrow> bool) \<Rightarrow> bool \<Rightarrow> bytes \<Rightarrow> mem_call list \<Rightarrow> bytes \<Rightarrow> (int \<times> bytes) list \<Rightarrow> bool" where
  "queue_run may_fail ro v [] q rs \<longleftrightarrow> rs = []"
| "queue_run may_fail ro v (c # calls) q rs
     \<longleftrightarrow> (case rs of [] \<Rightarrow> False
          | r # rs \<Rightarrow>
              r = fst (queue_step ro v c q) \<and> queue_run may_fail ro v calls (snd (queue_step ro v c q)) rs
              \<or> (\<exists>data. c = Put data \<and> \<not> ro \<and> data \<noteq> [] \<and> may_fail (length q + length data) \<and> r = (- 1, [])
                   \<and> queue_run may_fail ro v calls q rs))"

text \<open>The sizes that fit the C types, and the bytes a call adds.\<close>

fun small_mem_call :: "mem_call \<Rightarrow> bool" where
  "small_mem_call (Put data) = (length data \<le> INT_MAX)"
| "small_mem_call (Get k) = (k \<le> INT_MAX)"
| "small_mem_call (Gets k) = (k \<le> INT_MAX)"
| "small_mem_call c = True"

fun added :: "mem_call \<Rightarrow> nat" where
  "added (Put data) = length data"
| "added c = 0"

text \<open>The answers when no write fails.\<close>

fun queue_answers :: "bool \<Rightarrow> bytes \<Rightarrow> mem_call list \<Rightarrow> bytes \<Rightarrow> (int \<times> bytes) list" where
  "queue_answers ro v [] q = []"
| "queue_answers ro v (c # calls) q = (case queue_step ro v c q of (r, q) \<Rightarrow> r # queue_answers ro v calls q)"

lemma queue_run_answers:
  assumes "queue_run may_fail ro v calls q rs" "ro \<or> (\<forall>n \<le> length q + sum_list (map added calls). \<not> may_fail n)"
  shows "rs = queue_answers ro v calls q"
  using assms
proof (induction calls arbitrary: q rs)
  case (Cons c calls)
  obtain r rs1 where rs: "rs = r # rs1" using Cons.prems(1) by (cases rs) auto
  have "r = fst (queue_step ro v c q) \<and> queue_run may_fail ro v calls (snd (queue_step ro v c q)) rs1"
    using Cons.prems rs by auto
  moreover have "ro \<or> length (snd (queue_step ro v c q)) \<le> length q + added c" by (cases c) (auto simp: Let_def)
  ultimately have "rs1 = queue_answers ro v calls (snd (queue_step ro v c q))" using Cons.IH Cons.prems(2) by auto
  then show ?case using rs \<open>r = _ \<and> _\<close> by (simp add: case_prod_unfold)
qed simp

text \<open>
  What is promised of the answers.  On the empty queue of a writable BIO, whose end is not final, a line may be answered
  by \<open>0\<close> or by an error; every other answer is that of the queue.
\<close>

fun asks_line :: "mem_call \<Rightarrow> bool" where
  "asks_line (Gets k) = (0 < k)"
| "asks_line c = False"

definition answer_ok :: "bool \<Rightarrow> bytes \<Rightarrow> mem_call \<Rightarrow> bytes \<Rightarrow> int \<times> bytes \<Rightarrow> bool" where
  "answer_ok ro v c q r \<longleftrightarrow> (if asks_line c \<and> q = [] \<and> \<not> ro then fst r \<le> 0 else r = fst (queue_step ro v c q))"

fun queue_allows :: "(nat \<Rightarrow> bool) \<Rightarrow> bool \<Rightarrow> bytes \<Rightarrow> mem_call list \<Rightarrow> bytes \<Rightarrow> (int \<times> bytes) list \<Rightarrow> bool" where
  "queue_allows may_fail ro v [] q rs \<longleftrightarrow> rs = []"
| "queue_allows may_fail ro v (c # calls) q rs
     \<longleftrightarrow> (case rs of [] \<Rightarrow> False
          | r # rs \<Rightarrow>
              answer_ok ro v c q r \<and> queue_allows may_fail ro v calls (snd (queue_step ro v c q)) rs
              \<or> (\<exists>data. c = Put data \<and> \<not> ro \<and> data \<noteq> [] \<and> may_fail (length q + length data) \<and> r = (- 1, [])
                   \<and> queue_allows may_fail ro v calls q rs))"

lemma answer_ok_step: "answer_ok ro v c q (fst (queue_step ro v c q))"
proof (cases "asks_line c \<and> q = []")
  case True
  then obtain k where c: "c = Gets k" "0 < k" "q = []" by (cases c) auto
  have "line (k - 1) [] = []" by (cases "k - 1") simp_all
  with c show ?thesis by (simp add: answer_ok_def)
qed (auto simp: answer_ok_def)

lemma queue_run_allows: "queue_run may_fail ro v calls q rs \<Longrightarrow> queue_allows may_fail ro v calls q rs"
proof (induction calls arbitrary: q rs)
  case (Cons c calls)
  then show ?case using answer_ok_step [of ro v c q] by (cases rs) auto
qed simp

text \<open>No line is asked for on the empty queue.\<close>

fun lines_there :: "bool \<Rightarrow> bytes \<Rightarrow> mem_call list \<Rightarrow> bytes \<Rightarrow> bool" where
  "lines_there ro v [] q \<longleftrightarrow> True"
| "lines_there ro v (c # calls) q \<longleftrightarrow> \<not> (asks_line c \<and> q = []) \<and> lines_there ro v calls (snd (queue_step ro v c q))"

lemma queue_allows_run: "queue_allows (\<lambda>_. False) ro v calls q rs \<Longrightarrow> lines_there ro v calls q \<Longrightarrow> rs = queue_answers ro v calls q"
proof (induction calls arbitrary: q rs)
  case (Cons c calls)
  then show ?case by (cases rs) (auto simp: answer_ok_def case_prod_unfold)
qed simp

lemma queue_allows_mono:
  "queue_allows may_fail False v calls q rs \<Longrightarrow> \<forall>n \<le> length q + sum_list (map added calls). \<not> may_fail n
    \<Longrightarrow> queue_allows (\<lambda>_. False) False v calls q rs"
proof (induction calls arbitrary: q rs)
  case (Cons c calls)
  have "length (snd (queue_step False v c q)) \<le> length q + added c" by (cases c) (auto simp: Let_def)
  with Cons show ?case by (cases rs) auto
qed simp

definition mem_step :: "methods \<Rightarrow> nat \<Rightarrow> mem_call \<Rightarrow> world \<Rightarrow> ((int \<times> bytes) \<times> world) option" where
  "mem_step tab b c w
     = (case c of
          Put data \<Rightarrow> do { (r, w) \<leftarrow> BIO_write tab (Some b) data w; Some ((r, []), w) }
        | Get k \<Rightarrow> do { (r, out, w) \<leftarrow> BIO_read tab (Some b) (int k) w; Some ((r, out), w) }
        | Gets k \<Rightarrow> do { (r, out, w) \<leftarrow> BIO_gets tab (Some b) (int k) w; Some ((r, out), w) }
        | Reset \<Rightarrow> do { (r, w) \<leftarrow> BIO_reset tab (Some b) w; Some ((r, []), w) }
        | Eof \<Rightarrow> do { (r, w) \<leftarrow> BIO_eof tab (Some b) w; Some ((r, []), w) }
        | Pending \<Rightarrow> do { (n, w) \<leftarrow> BIO_pending tab (Some b) w; Some ((int n, []), w) })"

fun mem_run :: "methods \<Rightarrow> nat \<Rightarrow> mem_call list \<Rightarrow> world \<Rightarrow> ((int \<times> bytes) list \<times> world) option" where
  "mem_run tab b [] w = Some ([], w)"
| "mem_run tab b (c # calls) w = do {
     (r, w) \<leftarrow> mem_step tab b c w;
     (rs, w) \<leftarrow> mem_run tab b calls w;
     Some (r # rs, w) }"

definition mem_num :: "bool \<Rightarrow> int" where "mem_num ro = (if ro then 0 else - 1)"

lemma mem_gets_call:
  assumes m: "mem_at H b a ro v num q w" and n: "n \<le> INT_MAX"
  shows "n = 0 \<Longrightarrow> BIO_gets (bio_methods user) (Some b) (int n) w = Some (0, [], w)"
    "0 < n \<Longrightarrow> \<exists>w'. BIO_gets (bio_methods user) (Some b) (int n) w = Some (int (length (line (n - 1) q)), line (n - 1) q @ [0], w')
        \<and> mem_at H b a ro v num (drop (length (line (n - 1) q)) q) w'"
proof -
  obtain x where o: "bio_op (bio_methods user) bgets (Some b) w = Some (Some (b, x, mem_gets))" "bio_init x \<noteq> 0"
    by (rule mem_at_op [OF m, of user bgets]) auto
  show "n = 0 \<Longrightarrow> BIO_gets (bio_methods user) (Some b) (int n) w = Some (0, [], w)" using o by (simp add: BIO_gets_def)
  assume c: "0 < n"
  define s where "s = line (n - 1) q"
  obtain w1 where r: "mem_gets b (int n) w = Some (int (length s), s @ [0], w1)" "mem_at H b a ro v num (drop (length s) q) w1"
    using mem_gets_step [OF m c n] unfolding s_def by blast
  obtain w2 where "bio_upd b (\<lambda>x. x\<lparr>num_read := num_read x + word_of_int (int (length s))\<rparr>) w1 = Some w2" "mem_at H b a ro v num (drop (length s) q) w2"
    using mem_at_counters(1) [OF r(2)] by blast
  then show "\<exists>w'. BIO_gets (bio_methods user) (Some b) (int n) w = Some (int (length (line (n - 1) q)), line (n - 1) q @ [0], w')
        \<and> mem_at H b a ro v num (drop (length (line (n - 1) q)) q) w'"
    using o r c unfolding s_def [symmetric] by (cases "s = []") (simp_all add: BIO_gets_def)
qed

lemma mem_write_rdonly:
  assumes "mem_at H b a True v num q w" "data \<noteq> []"
  shows "\<exists>w'. mem_write_bio b data w = Some (- 1, w') \<and> mem_at H b a True v num q w'"
  using assms by (auto simp: mem_at_def mem_write_bio_def BIO_clear_retry_flags_def bio_upd_def rdonly_bit(1) mem_bio_def)

lemma mem_ctrl_calls:
  assumes m: "mem_at H b a ro v num q w"
  shows "BIO_eof (bio_methods user) (Some b) w = Some (if q = [] then 1 else 0, w)"
    "BIO_pending (bio_methods user) (Some b) w = Some (length q, w)"
    "\<exists>w'. BIO_reset (bio_methods user) (Some b) w = Some (1, w') \<and> mem_at H b a ro v num (if ro then v else []) w'"
proof -
  obtain y where o: "bio_op (bio_methods user) bctrl (Some b) w = Some (Some (b, y, mem_ctrl))"
    by (rule mem_at_op [OF m, of user bctrl]) auto
  obtain x u where st: "bios w b = Some x" "bufs w a = Some u" "mem_bio x a ro num" "buf_ok ro u" "buf_bytes u = q" "w_heap w = H"
      "ro \<Longrightarrow> buf_all u = v"
    using m by (auto simp: mem_at_def)
  have x: "bio_ptr x = Some a" "(bio_flags x AND BIO_FLAGS_MEM_RDONLY \<noteq> 0) = ro" using st(3) by (simp_all add: mem_bio_def)
  have l: "bm_length u = length q" "length q < 9223372036854775808"
    using length_buf_bytes [OF st(4)] st(4,5) by (auto simp: buf_ok_def)
  note cmds = BIO_CTRL_RESET_def BIO_CTRL_EOF_def BIO_CTRL_PENDING_def BIO_C_SET_BUF_MEM_EOF_RETURN_def BIO_CTRL_INFO_def
    BIO_C_SET_BUF_MEM_def BIO_C_GET_BUF_MEM_PTR_def BIO_CTRL_GET_CLOSE_def BIO_CTRL_SET_CLOSE_def BIO_CTRL_WPENDING_def
  show "BIO_eof (bio_methods user) (Some b) w = Some (if q = [] then 1 else 0, w)"
    using o st(1,2) x(1) l(1) by (simp add: BIO_eof_def BIO_ctrl_def mem_ctrl_def cmds c_int_small)
  show "BIO_pending (bio_methods user) (Some b) w = Some (length q, w)"
    using o st(1,2) x(1) l by (simp add: BIO_pending_def BIO_ctrl_def mem_ctrl_def cmds c_long_small)
  have r: "BIO_reset (bio_methods user) (Some b) w = do { (r, _, w) \<leftarrow> mem_ctrl b BIO_CTRL_RESET 0 No_arg w; Some (c_int r, w) }"
    using o by (simp add: BIO_reset_def BIO_ctrl_def)
  show "\<exists>w'. BIO_reset (bio_methods user) (Some b) w = Some (1, w') \<and> mem_at H b a ro v num (if ro then v else []) w'"
  proof (cases "bm_data u")
    case None
    have "BIO_reset (bio_methods user) (Some b) w = Some (1, w)"
      using None st(1,2) x(1) by (simp add: r mem_ctrl_def cmds c_int_small)
    moreover have "q = []" "ro \<Longrightarrow> v = []" using None st(5,7) by (simp_all add: buf_bytes_def buf_all_def)
    ultimately show ?thesis using m by auto
  next
    case (Some d)
    define u' where "u' = (if ro then u\<lparr>bm_start := bm_start u - (bm_max u - bm_length u), bm_length := bm_max u\<rparr>
      else u\<lparr>bm_data := Some (mem_write d (bm_start u) (replicate (bm_max u) 0)), bm_length := 0\<rparr>)"
    have "BIO_reset (bio_methods user) (Some b) w = Some (1, w\<lparr>bufs := (bufs w)(a \<mapsto> u')\<rparr>)"
      using Some st(1,2) x by (cases ro) (simp_all add: r mem_ctrl_def cmds c_int_small buf_upd_eq u'_def)
    moreover have "buf_ok ro u'" "buf_bytes u' = (if ro then v else [])" "ro \<Longrightarrow> buf_all u' = v"
      using Some st(4,7) by (auto simp: buf_ok_def u'_def buf_bytes_def buf_all_def length_write_within)
    ultimately show ?thesis using st(1,3,6) by (auto simp: mem_at_def)
  qed
qed

lemma mem_step_queue:
  assumes m: "mem_at H b a ro v (mem_num ro) q w" and c: "small_mem_call c" "length q + added c \<le> 2305843009213693952"
  obtains w' where "mem_step (bio_methods user) b c w = Some (fst (queue_step ro v c q), w')"
      "mem_at H b a ro v (mem_num ro) (snd (queue_step ro v c q)) w'"
    | data w' i where "c = Put data" "\<not> ro" "data \<noteq> []" "\<not> OPENSSL_malloc (H i) (buf_room (length q + length data))"
      "mem_step (bio_methods user) b c w = Some ((- 1, []), w')" "mem_at H b a ro v (mem_num ro) q w'"
proof (cases c)
  case (Put data)
  show ?thesis
  proof (cases "data = [] \<or> ro")
    case True
    obtain x where o: "bio_op (bio_methods user) bwrite (Some b) w = Some (Some (b, x, mem_write_bio))" "bio_init x \<noteq> 0"
      by (rule mem_at_op [OF m, of user bwrite]) auto
    show ?thesis
    proof (cases "data = []")
      case empty: True
      then have "BIO_write (bio_methods user) (Some b) data w = Some (0, w)" using o by (simp add: BIO_write_def)
      then show ?thesis using that(1) [of w] m empty Put by (simp add: mem_step_def)
    next
      case False
      then have ro: ro using True by simp
      obtain w' where "mem_write_bio b data w = Some (- 1, w')" "mem_at H b a ro v (mem_num ro) q w'"
        using mem_write_rdonly [of H b a v "mem_num ro" q w data] m False ro by auto
      then show ?thesis using that(1) [of w'] o False ro Put by (simp add: mem_step_def BIO_write_def)
    qed
  next
    case False
    then have d: "data \<noteq> []" and ro: "ro = False" by auto
    show ?thesis
      by (rule mem_BIO_write [OF m [unfolded ro] d, of user])
        (use that d ro c(2) Put in \<open>auto simp: mem_step_def\<close>)
  qed
next
  case (Get k)
  then have k: "k \<le> INT_MAX" using c(1) by simp
  have n: "mem_num ro \<le> 0" by (simp add: mem_num_def)
  note r = mem_BIO_read [OF m k, of user]
  consider "k = 0" | "0 < k" "q = []" | "0 < k" "q \<noteq> []" by blast
  then show ?thesis
  proof cases
    case 1
    then show ?thesis using that(1) [of w] m r(1) Get by (simp add: mem_step_def)
  next
    case 2
    obtain w' where "BIO_read (bio_methods user) (Some b) (int k) w = Some (mem_num ro, [], w')" "mem_at H b a ro v (mem_num ro) [] w'"
      using r(3) [OF 2 n] by blast
    then show ?thesis using that(1) [of w'] 2 Get by (simp add: mem_step_def mem_num_def)
  next
    case 3
    obtain w' where "BIO_read (bio_methods user) (Some b) (int k) w = Some (int (min k (length q)), take k q, w')"
      "mem_at H b a ro v (mem_num ro) (drop k q) w'" using r(2) [OF 3] by blast
    then show ?thesis using that(1) [of w'] 3 Get by (simp add: mem_step_def)
  qed
next
  case (Gets k)
  then have k: "k \<le> INT_MAX" using c(1) by simp
  note r = mem_gets_call [OF m k, of user]
  show ?thesis
  proof (cases "k = 0")
    case True
    then show ?thesis using that(1) [of w] m r(1) Gets by (simp add: mem_step_def)
  next
    case False
    then obtain w' where "BIO_gets (bio_methods user) (Some b) (int k) w = Some (int (length (line (k - 1) q)), line (k - 1) q @ [0], w')"
      "mem_at H b a ro v (mem_num ro) (drop (length (line (k - 1) q)) q) w'" using r(2) by blast
    then show ?thesis using that(1) [of w'] False Gets by (simp add: mem_step_def Let_def del: One_nat_def)
  qed
next
  case Reset
  obtain w' where "BIO_reset (bio_methods user) (Some b) w = Some (1, w')" "mem_at H b a ro v (mem_num ro) (if ro then v else []) w'"
    using mem_ctrl_calls(3) [OF m] by blast
  then show ?thesis using that(1) [of w'] Reset by (simp add: mem_step_def)
next
  case Eof
  then show ?thesis using that(1) [of w] m by (simp add: mem_step_def mem_ctrl_calls(1) [OF m])
next
  case Pending
  then show ?thesis using that(1) [of w] m by (simp add: mem_step_def mem_ctrl_calls(2) [OF m])
qed

lemma queue_step_length: "length (snd (queue_step ro v c q)) \<le> max (length q + added c) (length v)"
  by (cases c) (auto simp: Let_def)

lemma mem_run_queue:
  assumes "mem_at H b a ro v (mem_num ro) q w" "\<forall>c\<in>set calls. small_mem_call c"
    "max (length q) (length v) + sum_list (map added calls) \<le> 2305843009213693952"
  shows "\<exists>rs w'. mem_run (bio_methods user) b calls w = Some (rs, w')
    \<and> queue_run (\<lambda>n. \<exists>i. \<not> OPENSSL_malloc (H i) (buf_room n)) ro v calls q rs"
  using assms
proof (induction calls arbitrary: q w)
  case (Cons c calls)
  have c: "small_mem_call c" "length q + added c \<le> 2305843009213693952" using Cons.prems(2,3) by auto
  show ?case
  proof (rule mem_step_queue [OF Cons.prems(1) c, of user])
    fix w1 assume 1: "mem_step (bio_methods user) b c w = Some (fst (queue_step ro v c q), w1)"
      "mem_at H b a ro v (mem_num ro) (snd (queue_step ro v c q)) w1"
    have "max (length (snd (queue_step ro v c q))) (length v) + sum_list (map added calls) \<le> 2305843009213693952"
      using queue_step_length [of ro v c q] Cons.prems(3) by (simp add: max_def split: if_splits)
    then obtain rs w2 where "mem_run (bio_methods user) b calls w1 = Some (rs, w2)"
      "queue_run (\<lambda>n. \<exists>i. \<not> OPENSSL_malloc (H i) (buf_room n)) ro v calls (snd (queue_step ro v c q)) rs"
      using Cons.IH [OF 1(2)] Cons.prems(2) by auto
    then show ?thesis using 1(1) by (intro exI [of _ "fst (queue_step ro v c q) # rs"]) auto
  next
    fix data w1 i assume 1: "c = Put data" "\<not> ro" "data \<noteq> []" "\<not> OPENSSL_malloc (H i) (buf_room (length q + length data))"
      "mem_step (bio_methods user) b c w = Some ((- 1, []), w1)" "mem_at H b a ro v (mem_num ro) q w1"
    then obtain rs w2 where "mem_run (bio_methods user) b calls w1 = Some (rs, w2)"
      "queue_run (\<lambda>n. \<exists>i. \<not> OPENSSL_malloc (H i) (buf_room n)) ro v calls q rs"
      using Cons.IH [OF 1(6)] Cons.prems(2,3) by auto
    then show ?thesis using 1(1-5) by (intro exI [of _ "(- 1, []) # rs"]) auto
  qed
qed simp

section \<open>Making a memory BIO\<close>

lemma mem_bio_new:
  assumes "BIO_new (bio_methods user) Mem_method w = Some (Some b, w0)"
  shows "mem_at (w_heap w) b (b + 1) False v (mem_num False) [] w0"
proof -
  have t: "bio_methods user Mem_method = mem_method" by (simp add: bio_methods_def)
  show ?thesis using assms
    by (auto simp: BIO_new_def w_malloc_def t mem_new_def BUF_MEM_new_def bio_upd_def mem_at_def mem_bio_def zero_bio_def
        mem_num_def buf_ok_def buf_bytes_def Let_def split: if_splits)
qed

text \<open>The bytes a read-only BIO is made of: \<open>len\<close> of them, or those before the terminator if it is negative.\<close>

definition initial_bytes :: "bytes \<Rightarrow> int \<Rightarrow> bytes" where
  "initial_bytes d len = (if len < 0 then takeWhile (\<lambda>c. c \<noteq> 0) d else take (nat len) d)"

lemma c_strlen_takeWhile: "c_strlen d = Some n \<Longrightarrow> take n d = takeWhile (\<lambda>c. c \<noteq> 0) d \<and> n < length d"
proof (induction d arbitrary: n)
  case (Cons c d)
  then show ?case by (auto simp: c_strlen_def split: if_splits)
qed (simp add: c_strlen_def)

lemma mem_buf_new:
  assumes "BIO_new_mem_buf (bio_methods user) (Some d) len w = Some (Some b, w0)" "len \<le> int (length d)"
    "length d < 9223372036854775808"
  shows "mem_at (w_heap w) b (b + 1) True (initial_bytes d len) (mem_num True) (initial_bytes d len) w0"
proof -
  obtain n where n: "(if len < 0 then do { s \<leftarrow> Some d; c_strlen s } else Some (nat len)) = Some n" "n \<le> length d" "take n d = initial_bytes d len"
    using assms(1,2) c_strlen_takeWhile [of d]
    by (cases "len < 0"; cases "c_strlen d") (auto simp: BIO_new_mem_buf_def initial_bytes_def)
  obtain w1 where 1: "BIO_new (bio_methods user) Mem_method w = Some (Some b, w1)"
    using assms(1) unfolding BIO_new_mem_buf_def n(1) by (auto split: option.splits simp: Option.bind_eq_Some_conv)
  obtain x u where st: "bios w1 b = Some x" "bufs w1 (b + 1) = Some u" "mem_bio x (b + 1) False (mem_num False)" "buf_ok False u"
      "buf_bytes u = []" "w_heap w1 = w_heap w"
    using mem_bio_new [OF 1] unfolding mem_at_def by blast
  have st2: "bm_start u = 0" using st(4) by (auto simp: buf_ok_def split: option.splits)
  have x: "bio_ptr x = Some (b + 1)" using st(3) by (simp add: mem_bio_def)
  define x1 where "x1 = x\<lparr>bio_flags := bio_flags x OR BIO_FLAGS_MEM_RDONLY, bio_num := 0\<rparr>"
  define u1 where "u1 = u\<lparr>bm_data := Some d, bm_length := n, bm_max := n\<rparr>"
  have "w0 = w1\<lparr>bufs := (bufs w1)(b + 1 \<mapsto> u1), bios := (bios w1)(b \<mapsto> x1)\<rparr>"
    using assms(1) 1 st(1,2) x unfolding BIO_new_mem_buf_def n(1) by (simp add: buf_upd_def bio_upd_def x1_def u1_def)
  moreover have "(bio_flags x OR BIO_FLAGS_MEM_RDONLY) AND BIO_FLAGS_MEM_RDONLY \<noteq> 0"
    using word_ao_absorbs(1) [of BIO_FLAGS_MEM_RDONLY "bio_flags x"] by (simp add: BIO_FLAGS_MEM_RDONLY_def)
  then have "mem_bio x1 (b + 1) True (mem_num True)" using st(3) by (simp add: mem_bio_def x1_def mem_num_def)
  moreover have "buf_ok True u1" "buf_bytes u1 = initial_bytes d len" "buf_all u1 = initial_bytes d len"
    using n(2,3) st2 assms(3) by (simp_all add: buf_ok_def u1_def buf_bytes_def buf_all_def)
  ultimately show ?thesis using st(6) by (auto simp: mem_at_def)
qed

section \<open>Sources of bytes\<close>






section \<open>Properties\<close>

text \<open>
  C32: A memory BIO is a queue of bytes.  Whatever is called on a new one - writing, reading, reading a line, resetting,
  asking for its end and for what is pending - every call returns and follows no stale pointer, and the answers
  are those of a queue: reading the empty queue gives -1, a line of the empty queue gives no bytes (\<open>queue_allows\<close>).  A
  write fails only if memory is refused, and it then changes nothing.
\<close>
theorem mem_bio_is_queue:
  assumes "BIO_new (bio_methods user) Mem_method w = Some (Some b, w0)"
    and "\<forall>c\<in>set calls. small_mem_call c" "sum_list (map added calls) \<le> 2305843009213693952"
  shows "\<exists>rs w'. mem_run (bio_methods user) b calls w0 = Some (rs, w')
    \<and> queue_allows (\<lambda>n. \<exists>i. \<not> OPENSSL_malloc (w_heap w i) (buf_room n)) False [] calls [] rs"
proof -
  have "\<exists>rs w'. mem_run (bio_methods user) b calls w0 = Some (rs, w')
    \<and> queue_run (\<lambda>n. \<exists>i. \<not> OPENSSL_malloc (w_heap w i) (buf_room n)) False [] calls [] rs"
    by (rule mem_run_queue [OF mem_bio_new [OF assms(1)] assms(2)]) (use assms(3) in simp)
  then show ?thesis using queue_run_allows by blast
qed

lemma mem_bio_is_queue_witness:
  "\<exists>b w0 w'. BIO_new (bio_methods undefined) Mem_method (empty_world (\<lambda>_ _. True)) = Some (Some b, w0)
    \<and> mem_run (bio_methods undefined) b [Put [7, 10, 8, 9], Get 1, Gets 3, Put [5], Pending, Get 9, Eof, Get 2] w0
        = Some ([(4, []), (1, [7]), (1, [10, 0]), (1, []), (3, []), (3, [8, 9, 5]), (1, []), (- 1, [])], w')"
proof -
  let ?new = "BIO_new (bio_methods undefined) Mem_method (empty_world (\<lambda>_ _. True))"
  let ?calls = "[Put [7, 10, 8, 9], Get 1, Gets 3, Put [5], Pending, Get 9, Eof, Get 2]"
  have "(case ?new of Some (Some _, _) \<Rightarrow> True | _ \<Rightarrow> False)" by code_simp
  then obtain b w0 where new: "?new = Some (Some b, w0)" by (auto split: option.splits)
  have m: "OPENSSL_malloc (w_heap (empty_world (\<lambda>_ _. True)) i) (buf_room n)" if "n \<le> 5" for i n
  proof -
    have "buf_room n \<le> 14" using buf_room_le(2) [of n] that by linarith
    then have "size_add (buf_room n) OPENSSL_MALLOC_PREFIX = buf_room n + OPENSSL_MALLOC_PREFIX"
      by (intro size_add_exact) (simp add: OPENSSL_MALLOC_PREFIX_def)
    then show ?thesis by (simp add: OPENSSL_malloc_def empty_world_def)
  qed
  have "\<forall>c\<in>set ?calls. small_mem_call c" "sum_list (map added ?calls) \<le> 2305843009213693952" by simp_all
  from mem_bio_is_queue [OF new this] obtain rs w' where
    r: "mem_run (bio_methods undefined) b ?calls w0 = Some (rs, w')"
      "queue_allows (\<lambda>n. \<exists>i. \<not> OPENSSL_malloc (w_heap (empty_world (\<lambda>_ _. True)) i) (buf_room n)) False [] ?calls [] rs" by blast
  have "queue_allows (\<lambda>_. False) False [] ?calls [] rs" by (rule queue_allows_mono [OF r(2)]) (simp add: m)
  then have "rs = queue_answers False [] ?calls []" by (rule queue_allows_run) code_simp
  also have "\<dots> = [(4, []), (1, [7]), (1, [10, 0]), (1, []), (3, []), (3, [8, 9, 5]), (1, []), (- 1, [])]" by code_simp
  finally have "rs = [(4, []), (1, [7]), (1, [10, 0]), (1, []), (3, []), (3, [8, 9, 5]), (1, []), (- 1, [])]" .
  then show ?thesis using new r(1) by auto
qed

text \<open>
  A memory BIO made of a buffer gives out the bytes of the buffer once, in order, and again after each
  reset; writing to it is refused and no call changes the buffer.
\<close>
theorem mem_buf_is_queue:
  assumes "BIO_new_mem_buf (bio_methods user) (Some d) len w = Some (Some b, w0)" "len \<le> int (length d)"
    and "\<forall>c\<in>set calls. small_mem_call c" "length d + sum_list (map added calls) \<le> 2305843009213693952"
  shows "\<exists>w'. mem_run (bio_methods user) b calls w0
    = Some (queue_answers True (initial_bytes d len) calls (initial_bytes d len), w')"
proof -
  have l: "length (initial_bytes d len) \<le> length d" by (simp add: initial_bytes_def length_takeWhile_le)
  have "length d < 9223372036854775808" using assms(4) by simp
  note m = mem_buf_new [OF assms(1,2) this]
  have "max (length (initial_bytes d len)) (length (initial_bytes d len)) + sum_list (map added calls) \<le> 2305843009213693952"
    using l assms(4) by simp
  from mem_run_queue [OF m assms(3) this, of user] queue_run_answers show ?thesis by blast
qed

lemma mem_buf_is_queue_witness:
  "\<exists>b w0 w'. BIO_new_mem_buf (bio_methods undefined) (Some [7, 8, 9]) 2 (empty_world (\<lambda>_ _. True)) = Some (Some b, w0)
    \<and> mem_run (bio_methods undefined) b [Get 1, Put [5], Get 9, Get 1, Reset, Pending] w0
        = Some ([(1, [7]), (- 1, []), (1, [8]), (0, []), (1, []), (2, [])], w')"
proof -
  let ?new = "BIO_new_mem_buf (bio_methods undefined) (Some [7, 8, 9]) 2 (empty_world (\<lambda>_ _. True))"
  have "(case ?new of Some (Some _, _) \<Rightarrow> True | _ \<Rightarrow> False)" by code_simp
  then obtain b w0 where new: "?new = Some (Some b, w0)" by (auto split: option.splits)
  let ?calls = "[Get 1, Put [5], Get 9, Get 1, Reset, Pending]"
  have "queue_answers True (initial_bytes [7, 8, 9] 2) ?calls (initial_bytes [7, 8, 9] 2)
      = [(1, [7]), (- 1, []), (1, [8]), (0, []), (1, []), (2, [])]" by code_simp
  moreover have "\<forall>c\<in>set ?calls. small_mem_call c" by simp
  ultimately show ?thesis using mem_buf_is_queue [OF new, of ?calls] new by auto
qed











end
