(* ===== verification/Err.thy ===== *)
theory Err
  imports Mem_String Oid
begin

text \<open>
  \<^verbatim>\<open>crypto/err/err.c\<close>: the error queue of a thread, a ring buffer of sixteen slots.  Strings are the bytes before
  their terminator; the C library's \<^verbatim>\<open>malloc\<close>, the thread-local storage and \<^verbatim>\<open>errno\<close> are fields of the thread.
\<close>

section \<open>State\<close>

definition ERR_NUM_ERRORS :: nat where "ERR_NUM_ERRORS = 16"
definition ERR_FLAG_STRING :: int where "ERR_FLAG_STRING = 1"
definition ERR_FLAG_MALLOCED :: int where "ERR_FLAG_MALLOCED = 2"
definition ERR_LIB_SYS :: int where "ERR_LIB_SYS = 2"
definition ERR_NUM_LIBS :: int where "ERR_NUM_LIBS = 34"

definition ERR_PACK :: "int \<Rightarrow> int \<Rightarrow> u32" where
  "ERR_PACK lib reason = push_bit 24 (word_of_int lib AND 0xff) OR (word_of_int reason AND 0xfff)"

definition ERR_GET_LIB :: "u32 \<Rightarrow> nat" where
  "ERR_GET_LIB packed_error = unat (drop_bit 24 packed_error AND 0xff)"

definition ERR_GET_REASON :: "u32 \<Rightarrow> nat" where
  "ERR_GET_REASON packed_error = unat (packed_error AND 0xfff)"

record err_error =
  err_file :: "bytes option"
  err_data :: "bytes option"
  err_packed :: u32
  err_line :: u16
  err_mark :: bool

record err_state =
  err_errors :: "err_error list"
  err_top :: nat
  err_bottom :: nat
  err_to_free :: "bytes option"

text \<open>
  \<open>err_grants n\<close> says which sizes the \<open>n\<close>-th request to \<^verbatim>\<open>malloc\<close> gets, \<open>err_fresh n\<close> what that memory holds, and
  \<open>err_stores n\<close> whether \<^verbatim>\<open>CRYPTO_set_thread_local\<close> succeeds after \<open>n\<close> requests.
\<close>

record err_thread =
  err_local :: "err_state option"
  err_next :: nat
  err_grants :: "nat \<Rightarrow> nat \<Rightarrow> bool"
  err_fresh :: "nat \<Rightarrow> nat \<Rightarrow> u8"
  err_stores :: "nat \<Rightarrow> bool"
  err_errno :: int

definition err_malloc :: "nat \<Rightarrow> err_thread \<Rightarrow> bytes option \<times> err_thread" where
  "err_malloc n t
     = (if err_grants t (err_next t) n then Some (map (err_fresh t (err_next t)) [0..<n]) else None,
        t\<lparr>err_next := err_next t + 1\<rparr>)"

section \<open>Errors\<close>

definition strdup_libc_malloc :: "bytes \<Rightarrow> err_thread \<Rightarrow> bytes option \<times> err_thread" where
  "strdup_libc_malloc str t
     = (case err_malloc (length str + 1) t of (None, t) \<Rightarrow> (None, t) | (Some ret, t) \<Rightarrow> (Some str, t))"

definition err_clear :: "err_error \<Rightarrow> err_error" where
  "err_clear error = error\<lparr>err_file := None, err_data := None, err_packed := 0, err_line := 0, err_mark := False\<rparr>"

definition err_copy :: "err_error \<Rightarrow> err_error \<Rightarrow> err_thread \<Rightarrow> err_error \<times> err_thread" where
  "err_copy dst src t
     = (let dst = (err_clear dst)\<lparr>err_file := err_file src\<rparr>;
            (dst, t) = (case err_data src of
                          None \<Rightarrow> (dst, t)
                        | Some str \<Rightarrow> (case strdup_libc_malloc str t of (data, t) \<Rightarrow> (dst\<lparr>err_data := data\<rparr>, t))) in
        (dst\<lparr>err_packed := err_packed src, err_line := err_line src\<rparr>, t))"

definition zero_error :: err_error where
  "zero_error = \<lparr>err_file = None, err_data = None, err_packed = 0, err_line = 0, err_mark = False\<rparr>"

definition err_get_state :: "err_thread \<Rightarrow> err_state option \<times> err_thread" where
  "err_get_state t
     = (case err_local t of
          Some state \<Rightarrow> (Some state, t)
        | None \<Rightarrow>
            (case err_malloc 400 t of
               (None, t) \<Rightarrow> (None, t)
             | (Some _, t) \<Rightarrow>
                 let state = \<lparr>err_errors = replicate ERR_NUM_ERRORS zero_error, err_top = 0, err_bottom = 0, err_to_free = None\<rparr> in
                 if \<not> err_stores t (err_next t) then (None, t) else (Some state, t\<lparr>err_local := Some state\<rparr>)))"

definition err_put_state :: "err_state \<Rightarrow> err_thread \<Rightarrow> err_thread" where
  "err_put_state state t = t\<lparr>err_local := Some state\<rparr>"

section \<open>Reading\<close>

text \<open>
  \<open>want_line\<close> and \<open>want_data\<close> say which pointers are not NULL; what is stored through them is \<open>None\<close> when the
  queue is empty, and otherwise the file with the line and the data with its flags.
\<close>

definition get_error_values :: "bool \<Rightarrow> bool \<Rightarrow> bool \<Rightarrow> bool \<Rightarrow> err_thread
    \<Rightarrow> (u32 \<times> (bytes \<times> nat) option \<times> (bytes \<times> int) option) \<times> err_thread" where
  "get_error_values inc newest want_line want_data t
     = (case err_get_state t of
          (None, t) \<Rightarrow> ((0, None, None), t)
        | (Some state, t) \<Rightarrow>
            if err_bottom state = err_top state then ((0, None, None), t)
            else
              let i = (if newest then err_top state else (err_bottom state + 1) mod ERR_NUM_ERRORS);
                  error = err_errors state ! i;
                  ret = err_packed error;
                  fl = (if want_line
                        then Some (case err_file error of None \<Rightarrow> (map of_char ''NA'', 0) | Some f \<Rightarrow> (f, unat (err_line error)))
                        else None);
                  data = (if want_data
                          then Some (case err_data error of None \<Rightarrow> ([], 0) | Some d \<Rightarrow> (d, ERR_FLAG_STRING + ERR_FLAG_MALLOCED))
                          else None);
                  state = (if want_data \<and> inc \<and> err_data error \<noteq> None then state\<lparr>err_to_free := err_data error\<rparr> else state);
                  state = (if inc
                           then state\<lparr>err_errors := (err_errors state)[i := err_clear error], err_bottom := i\<rparr>
                           else state) in
              ((ret, fl, data), err_put_state state t))"

definition ERR_get_error :: "err_thread \<Rightarrow> u32 \<times> err_thread" where
  "ERR_get_error t = (case get_error_values True False False False t of ((r, _), t) \<Rightarrow> (r, t))"

definition ERR_get_error_line :: "err_thread \<Rightarrow> (u32 \<times> (bytes \<times> nat) option) \<times> err_thread" where
  "ERR_get_error_line t = (case get_error_values True False True False t of ((r, fl, _), t) \<Rightarrow> ((r, fl), t))"

definition ERR_get_error_line_data :: "err_thread \<Rightarrow> (u32 \<times> (bytes \<times> nat) option \<times> (bytes \<times> int) option) \<times> err_thread" where
  "ERR_get_error_line_data t = get_error_values True False True True t"

definition ERR_peek_error :: "err_thread \<Rightarrow> u32 \<times> err_thread" where
  "ERR_peek_error t = (case get_error_values False False False False t of ((r, _), t) \<Rightarrow> (r, t))"

definition ERR_peek_error_line :: "err_thread \<Rightarrow> (u32 \<times> (bytes \<times> nat) option) \<times> err_thread" where
  "ERR_peek_error_line t = (case get_error_values False False True False t of ((r, fl, _), t) \<Rightarrow> ((r, fl), t))"

definition ERR_peek_error_line_data :: "err_thread \<Rightarrow> (u32 \<times> (bytes \<times> nat) option \<times> (bytes \<times> int) option) \<times> err_thread" where
  "ERR_peek_error_line_data t = get_error_values False False True True t"

definition ERR_peek_last_error :: "err_thread \<Rightarrow> u32 \<times> err_thread" where
  "ERR_peek_last_error t = (case get_error_values False True False False t of ((r, _), t) \<Rightarrow> (r, t))"

definition ERR_peek_last_error_line :: "err_thread \<Rightarrow> (u32 \<times> (bytes \<times> nat) option) \<times> err_thread" where
  "ERR_peek_last_error_line t = (case get_error_values False True True False t of ((r, fl, _), t) \<Rightarrow> ((r, fl), t))"

definition ERR_peek_last_error_line_data :: "err_thread \<Rightarrow> (u32 \<times> (bytes \<times> nat) option \<times> (bytes \<times> int) option) \<times> err_thread" where
  "ERR_peek_last_error_line_data t = get_error_values False True True True t"

section \<open>Adding, clearing, marking\<close>

definition ERR_clear_error :: "err_thread \<Rightarrow> err_thread" where
  "ERR_clear_error t
     = (case err_get_state t of
          (None, t) \<Rightarrow> t
        | (Some state, t) \<Rightarrow>
            err_put_state (state\<lparr>err_errors := map err_clear (err_errors state), err_to_free := None, err_top := 0, err_bottom := 0\<rparr>) t)"

definition ERR_remove_thread_state :: "err_thread \<Rightarrow> err_thread" where
  "ERR_remove_thread_state t = ERR_clear_error t"

definition ERR_remove_state :: "err_thread \<Rightarrow> err_thread" where
  "ERR_remove_state t = ERR_clear_error t"

text \<open>The counter \<^verbatim>\<open>global_next_library\<close> is passed and returned.\<close>

definition ERR_get_next_error_library :: "int \<Rightarrow> int \<times> int" where
  "ERR_get_next_error_library global_next_library = (global_next_library, global_next_library + 1)"

definition ERR_put_error :: "int \<Rightarrow> int \<Rightarrow> bytes \<Rightarrow> nat \<Rightarrow> err_thread \<Rightarrow> err_thread" where
  "ERR_put_error lib reason file line t
     = (case err_get_state t of
          (None, t) \<Rightarrow> t
        | (Some state, t) \<Rightarrow>
            let reason = (if lib = ERR_LIB_SYS \<and> reason = 0 then err_errno t else reason);
                new_top = (err_top state + 1) mod ERR_NUM_ERRORS;
                bottom = (if new_top = err_bottom state then (err_bottom state + 1) mod ERR_NUM_ERRORS else err_bottom state);
                error = (err_clear (err_errors state ! new_top))
                  \<lparr>err_file := Some file, err_line := word_of_nat line, err_packed := ERR_PACK lib reason\<rparr> in
            err_put_state (state\<lparr>err_errors := (err_errors state)[new_top := error], err_top := new_top, err_bottom := bottom\<rparr>) t)"

definition err_set_error_data :: "bytes \<Rightarrow> err_thread \<Rightarrow> err_thread" where
  "err_set_error_data data t
     = (case err_get_state t of
          (None, t) \<Rightarrow> t
        | (Some state, t) \<Rightarrow>
            if err_top state = err_bottom state then t
            else err_put_state (state\<lparr>err_errors := (err_errors state)[err_top state := (err_errors state ! err_top state)\<lparr>err_data := Some data\<rparr>]\<rparr>) t)"

text \<open>The sum of the lengths, \<open>None\<close> when it would overflow, and the concatenation in a buffer of that size.\<close>

fun err_total_size :: "bytes option list \<Rightarrow> nat \<Rightarrow> nat option" where
  "err_total_size [] total_size = Some total_size"
| "err_total_size (None # args) total_size = err_total_size args total_size"
| "err_total_size (Some substr # args) total_size
     = (if size_bound - 1 - total_size < length substr then None else err_total_size args (total_size + length substr))"

fun err_concat :: "bytes option list \<Rightarrow> bytes \<Rightarrow> nat \<Rightarrow> bytes option" where
  "err_concat [] buf total_size = Some buf"
| "err_concat (None # args) buf total_size = err_concat args buf total_size"
| "err_concat (Some substr # args) buf total_size = do {
     (_, buf) \<leftarrow> OPENSSL_strlcat buf (substr @ [0]) total_size;
     err_concat args buf total_size }"

definition err_add_error_vdata :: "bytes option list \<Rightarrow> err_thread \<Rightarrow> err_thread option" where
  "err_add_error_vdata args t
     = (case err_total_size args 0 of
          None \<Rightarrow> Some t
        | Some total_size \<Rightarrow>
            if total_size = size_bound - 1 then Some t
            else
              let total_size = total_size + 1 in
              case err_malloc total_size t of
                (None, t) \<Rightarrow> Some t
              | (Some buf, t) \<Rightarrow> do {
                  buf \<leftarrow> err_concat args (buf[0 := 0]) total_size;
                  Some (err_set_error_data (c_string buf) t) })"

definition ERR_add_error_data :: "bytes option list \<Rightarrow> err_thread \<Rightarrow> err_thread option" where
  "ERR_add_error_data args t = err_add_error_vdata args t"

text \<open>\<open>buf\<close> is what \<^verbatim>\<open>OPENSSL_vasprintf_internal\<close> made, if it succeeded.\<close>

definition ERR_add_error_dataf :: "bytes option \<Rightarrow> err_thread \<Rightarrow> err_thread" where
  "ERR_add_error_dataf buf t = (case buf of None \<Rightarrow> t | Some buf \<Rightarrow> err_set_error_data buf t)"

definition ERR_set_error_data :: "bytes \<Rightarrow> u32 \<Rightarrow> err_thread \<Rightarrow> err_thread" where
  "ERR_set_error_data data flags t
     = (if flags AND word_of_int ERR_FLAG_STRING = 0 then t
        else case strdup_libc_malloc data t of
               (None, t) \<Rightarrow> t
             | (Some copy, t) \<Rightarrow> err_set_error_data copy t)"

definition ERR_set_mark :: "err_thread \<Rightarrow> int \<times> err_thread" where
  "ERR_set_mark t
     = (case err_get_state t of
          (None, t) \<Rightarrow> (0, t)
        | (Some state, t) \<Rightarrow>
            if err_bottom state = err_top state then (0, t)
            else (1, err_put_state (state\<lparr>err_errors := (err_errors state)[err_top state := (err_errors state ! err_top state)\<lparr>err_mark := True\<rparr>]\<rparr>) t))"

partial_function (option) err_pop_loop :: "err_state \<Rightarrow> (int \<times> err_state) option" where
  [code]: "err_pop_loop state
     = (if err_bottom state \<noteq> err_top state
        then let error = err_errors state ! err_top state in
          if err_mark error
          then Some (1, state\<lparr>err_errors := (err_errors state)[err_top state := error\<lparr>err_mark := False\<rparr>]\<rparr>)
          else err_pop_loop (state\<lparr>err_errors := (err_errors state)[err_top state := err_clear error],
                                   err_top := (if err_top state = 0 then ERR_NUM_ERRORS - 1 else err_top state - 1)\<rparr>)
        else Some (0, state))"

definition ERR_pop_to_mark :: "err_thread \<Rightarrow> (int \<times> err_thread) option" where
  "ERR_pop_to_mark t
     = (case err_get_state t of
          (None, t) \<Rightarrow> Some (0, t)
        | (Some state, t) \<Rightarrow> do { (r, state) \<leftarrow> err_pop_loop state; Some (r, err_put_state state t) })"

section \<open>Saving\<close>

fun err_copy_all :: "err_error list \<Rightarrow> err_error list \<Rightarrow> err_thread \<Rightarrow> err_error list \<times> err_thread" where
  "err_copy_all (dst # dsts) (src # srcs) t
     = (case err_copy dst src t of (e, t) \<Rightarrow> (case err_copy_all dsts srcs t of (es, t) \<Rightarrow> (e # es, t)))"
| "err_copy_all _ _ t = ([], t)"

text \<open>An \<^verbatim>\<open>ERR_SAVE_STATE\<close> is its list of errors, \<open>None\<close> a null pointer.\<close>

definition ERR_save_state :: "err_thread \<Rightarrow> err_error list option \<times> err_thread" where
  "ERR_save_state t
     = (case err_get_state t of
          (None, t) \<Rightarrow> (None, t)
        | (Some state, t) \<Rightarrow>
            if err_top state = err_bottom state then (None, t)
            else case err_malloc 16 t of
              (None, t) \<Rightarrow> (None, t)
            | (Some _, t) \<Rightarrow>
                let num_errors = (if err_top state \<ge> err_bottom state then err_top state - err_bottom state
                                  else ERR_NUM_ERRORS + err_top state - err_bottom state) in
                case err_malloc (num_errors * 24) t of
                  (None, t) \<Rightarrow> (None, t)
                | (Some _, t) \<Rightarrow>
                    (case err_copy_all (replicate num_errors zero_error)
                            (map (\<lambda>i. err_errors state ! ((err_bottom state + i + 1) mod ERR_NUM_ERRORS)) [0..<num_errors]) t of
                       (es, t) \<Rightarrow> (Some es, t)))"

definition ERR_restore_state :: "err_error list option \<Rightarrow> err_thread \<Rightarrow> err_thread option" where
  "ERR_restore_state state t
     = (case state of
          None \<Rightarrow> Some (ERR_clear_error t)
        | Some errors \<Rightarrow>
            if length errors = 0 then Some (ERR_clear_error t)
            else if length errors \<ge> ERR_NUM_ERRORS then None
            else case err_get_state t of
              (None, t) \<Rightarrow> Some t
            | (Some dst, t) \<Rightarrow>
                (case err_copy_all (take (length errors) (err_errors dst)) errors t of
                   (es, t) \<Rightarrow>
                     Some (err_put_state (dst\<lparr>err_errors := es @ drop (length errors) (err_errors dst),
                                             err_top := length errors - 1, err_bottom := ERR_NUM_ERRORS - 1\<rparr>) t)))"

end
