(* ===== verification/Err_Queue.thy ===== *)
theory Err_Queue
  imports Err
begin

text \<open>
  The error queue is a list of at most fifteen errors, the oldest first: adding one to a full queue drops the
  oldest, reading takes from the front, and marks are found from the back.
\<close>

section \<open>The ring\<close>

definition slice :: "err_error list \<Rightarrow> nat \<Rightarrow> nat \<Rightarrow> err_error list" where
  "slice es a n = map (\<lambda>i. es ! ((a + i) mod 16)) [0..<n]"

lemma length_slice [simp]: "length (slice es a n) = n"
  by (simp add: slice_def)

lemma slice_0 [simp]: "slice es a 0 = []"
  by (simp add: slice_def)

lemma slice_mod: "slice es (a mod 16) n = slice es a n"
  by (simp add: slice_def mod_add_left_eq)

lemma slice_snoc: "slice es a (Suc n) = slice es a n @ [es ! ((a + n) mod 16)]"
  by (simp add: slice_def)

lemma slice_Cons: "slice es a (Suc n) = es ! (a mod 16) # slice es (Suc a) n"
  by (simp add: slice_def upt_conv_Cons map_Suc_upt [symmetric] comp_def del: upt_Suc map_Suc_upt)

lemma mod_16_less: "i \<le> j \<Longrightarrow> (a + i) mod 16 = (a + j) mod 16 \<Longrightarrow> j < 16 \<Longrightarrow> i = (j :: nat)"
proof -
  assume a: "i \<le> j" "(a + i) mod 16 = (a + j) mod 16" "j < 16"
  then have "16 dvd (a + j) - (a + i)" by (subst mod_eq_dvd_iff_nat [symmetric]) simp_all
  then have "16 dvd j - i" by simp
  then have "j - i = 0" using a(3) nat_dvd_not_less [of "j - i" 16] by linarith
  then show ?thesis using a(1) by simp
qed

lemma mod_16_eq: "(a + i) mod 16 = (a + j) mod 16 \<Longrightarrow> i < 16 \<Longrightarrow> j < 16 \<Longrightarrow> i = (j :: nat)"
  using mod_16_less [of i j a] mod_16_less [of j i a] by (cases "i \<le> j") auto

lemma mod_16_round: "(a + 16) mod 16 = a mod (16 :: nat)" "(a mod 16 + b) mod 16 = (a + b) mod (16 :: nat)"
  by (simp_all add: mod_add_left_eq)

lemma mod_16_prev: "(if (a + 1) mod 16 = 0 then 15 else (a + 1) mod 16 - 1) = a mod (16 :: nat)"
  by (simp add: mod_Suc)

lemma slice_update: "n \<le> m \<Longrightarrow> m < 16 \<Longrightarrow> slice (es[(a + m) mod 16 := x]) a n = slice es a n"
  unfolding slice_def
proof (rule map_cong)
  fix i assume "n \<le> m" "m < 16" "i \<in> set [0..<n]"
  then have "(a + m) mod 16 \<noteq> (a + i) mod 16" using mod_16_eq [of a m i] by auto
  then show "es[(a + m) mod 16 := x] ! ((a + i) mod 16) = es ! ((a + i) mod 16)" by simp
qed simp

definition err_holds :: "err_state \<Rightarrow> err_error list \<Rightarrow> bool" where
  "err_holds s q \<longleftrightarrow> length (err_errors s) = 16 \<and> err_bottom s < 16 \<and> length q < 16
     \<and> err_top s = (err_bottom s + length q) mod 16 \<and> q = slice (err_errors s) (err_bottom s + 1) (length q)"

lemma err_holds_empty: "err_holds s q \<Longrightarrow> err_bottom s = err_top s \<longleftrightarrow> q = []"
  using mod_16_eq [of "err_bottom s" 0 "length q"] by (auto simp: err_holds_def)

lemma err_holds_oldest:
  assumes "err_holds s (e # q)"
  shows "err_errors s ! ((err_bottom s + 1) mod 16) = e"
    "err_holds (s\<lparr>err_errors := (err_errors s)[(err_bottom s + 1) mod 16 := x], err_bottom := (err_bottom s + 1) mod 16\<rparr>) q"
proof -
  have l: "length (err_errors s) = 16" "err_bottom s < 16" "Suc (length q) < 16" "err_top s = (err_bottom s + Suc (length q)) mod 16"
    and q: "e # q = slice (err_errors s) (err_bottom s + 1) (Suc (length q))" using assms by (simp_all add: err_holds_def)
  show "err_errors s ! ((err_bottom s + 1) mod 16) = e" using q by (simp add: slice_Cons)
  have "q = slice (err_errors s) (err_bottom s + 2) (length q)" using q by (simp add: slice_Cons)
  moreover have "slice ((err_errors s)[(err_bottom s + 2 + 15) mod 16 := x]) (err_bottom s + 2) (length q)
      = slice (err_errors s) (err_bottom s + 2) (length q)" using l(3) by (intro slice_update) simp_all
  moreover have "(err_bottom s + 2 + 15) mod 16 = (err_bottom s + 1) mod 16" using mod_16_round(1) [of "err_bottom s + 1"] by (simp add: add.assoc)
  moreover have "slice es ((err_bottom s + 1) mod 16 + 1) (length q) = slice es (err_bottom s + 2) (length q)" for es
    using slice_mod [of es "(err_bottom s + 1) mod 16 + 1"] slice_mod [of es "err_bottom s + 2"] by (simp add: mod_Suc_eq)
  moreover have "((err_bottom s + 1) mod 16 + length q) mod 16 = (err_bottom s + Suc (length q)) mod 16"
    unfolding mod_16_round(2) by simp
  ultimately show "err_holds (s\<lparr>err_errors := (err_errors s)[(err_bottom s + 1) mod 16 := x], err_bottom := (err_bottom s + 1) mod 16\<rparr>) q"
    using l by (simp add: err_holds_def)
qed

lemma err_holds_newest:
  assumes "err_holds s (q @ [e])"
  shows "err_errors s ! err_top s = e"
    "err_holds (s\<lparr>err_errors := (err_errors s)[err_top s := x]\<rparr>) (q @ [x])"
    "err_holds (s\<lparr>err_errors := (err_errors s)[err_top s := x], err_top := (if err_top s = 0 then 15 else err_top s - 1)\<rparr>) q"
proof -
  have l: "length (err_errors s) = 16" "err_bottom s < 16" "Suc (length q) < 16" "err_top s = (err_bottom s + 1 + length q) mod 16"
    and q: "q @ [e] = slice (err_errors s) (err_bottom s + 1) (Suc (length q))" using assms by (simp_all add: err_holds_def)
  show "err_errors s ! err_top s = e" using q l(4) by (simp add: slice_snoc)
  have p: "q = slice (err_errors s) (err_bottom s + 1) (length q)" using q by (simp add: slice_snoc)
  have u: "slice ((err_errors s)[(err_bottom s + 1 + length q) mod 16 := x]) (err_bottom s + 1) (length q) = q"
    using slice_update [of "length q" "length q" "err_errors s" "err_bottom s + 1" x] l(3) p by simp
  then show "err_holds (s\<lparr>err_errors := (err_errors s)[err_top s := x]\<rparr>) (q @ [x])"
    using l by (simp add: err_holds_def slice_snoc)
  have t: "err_top s = (err_bottom s + length q + 1) mod 16" using l(4) by (simp add: add.commute)
  have "(if err_top s = 0 then 15 else err_top s - 1) = (err_bottom s + length q) mod 16" unfolding t by (rule mod_16_prev)
  then show "err_holds (s\<lparr>err_errors := (err_errors s)[err_top s := x], err_top := (if err_top s = 0 then 15 else err_top s - 1)\<rparr>) q"
    using l u by (auto simp: err_holds_def simp del: One_nat_def)
qed

text \<open>The queue after an error is added.\<close>

definition err_push :: "err_error \<Rightarrow> err_error list \<Rightarrow> err_error list" where
  "err_push e q = (if length q = 15 then tl q @ [e] else q @ [e])"

lemma err_holds_push:
  assumes "err_holds s q" "new_top = (err_top s + 1) mod 16"
  shows "err_holds (s\<lparr>err_errors := (err_errors s)[new_top := x], err_top := new_top,
      err_bottom := (if new_top = err_bottom s then (err_bottom s + 1) mod 16 else err_bottom s)\<rparr>) (err_push x q)"
proof -
  have l: "length (err_errors s) = 16" "err_bottom s < 16" "length q < 16" "err_top s = (err_bottom s + length q) mod 16"
    and q: "q = slice (err_errors s) (err_bottom s + 1) (length q)" using assms(1) by (simp_all add: err_holds_def)
  have t: "new_top = (err_bottom s + 1 + length q) mod 16" unfolding assms(2) l(4) mod_16_round(2) by (simp add: add.commute add.left_commute)
  have u: "slice ((err_errors s)[new_top := x]) (err_bottom s + 1) (length q) = q"
    unfolding t using slice_update [of "length q" "length q" "err_errors s" "err_bottom s + 1" x] l(3) q by simp
  have full: "new_top = err_bottom s \<longleftrightarrow> length q = 15"
  proof
    assume "new_top = err_bottom s"
    then have "(err_bottom s + (1 + length q)) mod 16 = (err_bottom s + 0) mod 16" using l(2) by (simp add: t)
    then have "\<not> 1 + length q < 16" using mod_16_eq [of "err_bottom s" "1 + length q" 0] by auto
    then show "length q = 15" using l(3) by simp
  next
    assume "length q = 15"
    then show "new_top = err_bottom s" using mod_16_round(1) [of "err_bottom s"] l(2) by (simp add: t add.assoc)
  qed
  have h: "slice ((err_errors s)[new_top := x]) (err_bottom s + 1) (Suc (length q)) = q @ [x]"
    unfolding slice_snoc u using t l(1) by simp
  show ?thesis
  proof (cases "length q = 15")
    case False
    then show ?thesis using l t h full by (auto simp: err_holds_def err_push_def)
  next
    case True
    then obtain e r where r: "q = e # r" by (cases q) auto
    have "slice ((err_errors s)[new_top := x]) (Suc (err_bottom s + 1)) 15 = r @ [x]"
      using h True r unfolding slice_Cons by simp
    moreover have "slice es ((err_bottom s + 1) mod 16 + 1) 15 = slice es (Suc (err_bottom s + 1)) 15" for es
      using slice_mod [of es "(err_bottom s + 1) mod 16 + 1"] slice_mod [of es "Suc (err_bottom s + 1)"] by (simp add: mod_Suc_eq)
    moreover have "new_top = ((err_bottom s + 1) mod 16 + 15) mod 16" unfolding t True mod_16_round(2) ..
    ultimately show ?thesis using l full True r by (simp add: err_holds_def err_push_def)
  qed
qed

section \<open>The promise\<close>

datatype err_op = Put int int bytes nat | Add_data "bytes option list" | Set_data bytes u32
  | Get bool bool | Peek bool bool | Peek_last bool bool | Clear | Set_mark | Pop_to_mark

type_synonym err_answer = "u32 \<times> (bytes \<times> nat) option \<times> (bytes \<times> int) option"

text \<open>The calls; those with data also ask for the file and the line.\<close>

fun err_call :: "err_op \<Rightarrow> err_thread \<Rightarrow> (err_answer \<times> err_thread) option" where
  "err_call (Put lib reason file line) t = Some ((0, None, None), ERR_put_error lib reason file line t)"
| "err_call (Add_data args) t = do { t \<leftarrow> ERR_add_error_data args t; Some ((0, None, None), t) }"
| "err_call (Set_data data flags) t = Some ((0, None, None), ERR_set_error_data data flags t)"
| "err_call (Get l d) t = Some (if d then ERR_get_error_line_data t
     else if l then case ERR_get_error_line t of ((r, fl), t) \<Rightarrow> ((r, fl, None), t)
     else case ERR_get_error t of (r, t) \<Rightarrow> ((r, None, None), t))"
| "err_call (Peek l d) t = Some (if d then ERR_peek_error_line_data t
     else if l then case ERR_peek_error_line t of ((r, fl), t) \<Rightarrow> ((r, fl, None), t)
     else case ERR_peek_error t of (r, t) \<Rightarrow> ((r, None, None), t))"
| "err_call (Peek_last l d) t = Some (if d then ERR_peek_last_error_line_data t
     else if l then case ERR_peek_last_error_line t of ((r, fl), t) \<Rightarrow> ((r, fl, None), t)
     else case ERR_peek_last_error t of (r, t) \<Rightarrow> ((r, None, None), t))"
| "err_call Clear t = Some ((0, None, None), ERR_clear_error t)"
| "err_call Set_mark t = (case ERR_set_mark t of (r, t) \<Rightarrow> Some ((word_of_int r, None, None), t))"
| "err_call Pop_to_mark t = do { (r, t) \<leftarrow> ERR_pop_to_mark t; Some ((word_of_int r, None, None), t) }"

text \<open>The same on lists.\<close>

definition new_error :: "int \<Rightarrow> int \<Rightarrow> int \<Rightarrow> bytes \<Rightarrow> nat \<Rightarrow> err_error" where
  "new_error errno lib reason file line
     = \<lparr>err_file = Some file, err_data = None,
        err_packed = ERR_PACK lib (if lib = ERR_LIB_SYS \<and> reason = 0 then errno else reason),
        err_line = word_of_nat line, err_mark = False\<rparr>"

definition err_report :: "bool \<Rightarrow> bool \<Rightarrow> err_error \<Rightarrow> err_answer" where
  "err_report l d e
     = (err_packed e,
        if l \<or> d then Some (case err_file e of None \<Rightarrow> (map of_char ''NA'', 0) | Some f \<Rightarrow> (f, unat (err_line e))) else None,
        if d then Some (case err_data e of None \<Rightarrow> ([], 0) | Some s \<Rightarrow> (s, 3)) else None)"

definition on_newest :: "(err_error \<Rightarrow> err_error) \<Rightarrow> err_error list \<Rightarrow> err_error list" where
  "on_newest f q = (if q = [] then [] else butlast q @ [f (last q)])"

definition pop_marked :: "err_error list \<Rightarrow> nat \<times> err_error list" where
  "pop_marked q = (case dropWhile (\<lambda>e. \<not> err_mark e) (rev q) of
     [] \<Rightarrow> (0, []) | e # r \<Rightarrow> (1, rev r @ [e\<lparr>err_mark := False\<rparr>]))"

fun err_spec :: "int \<Rightarrow> err_op \<Rightarrow> err_error list \<Rightarrow> err_answer \<times> err_error list" where
  "err_spec errno (Put lib reason file line) q = ((0, None, None), err_push (new_error errno lib reason file line) q)"
| "err_spec errno (Add_data args) q
     = ((0, None, None), on_newest (\<lambda>e. e\<lparr>err_data := Some (concat (map (case_option [] id) args))\<rparr>) q)"
| "err_spec errno (Set_data data flags) q
     = ((0, None, None), if flags AND 1 = 0 then q else on_newest (\<lambda>e. e\<lparr>err_data := Some data\<rparr>) q)"
| "err_spec errno (Get l d) q = (if q = [] then (0, None, None) else err_report l d (hd q), tl q)"
| "err_spec errno (Peek l d) q = (if q = [] then (0, None, None) else err_report l d (hd q), q)"
| "err_spec errno (Peek_last l d) q = (if q = [] then (0, None, None) else err_report l d (last q), q)"
| "err_spec errno Clear q = ((0, None, None), [])"
| "err_spec errno Set_mark q = ((if q = [] then 0 else 1, None, None), on_newest (\<lambda>e. e\<lparr>err_mark := True\<rparr>) q)"
| "err_spec errno Pop_to_mark q = ((word_of_nat (fst (pop_marked q)), None, None), snd (pop_marked q))"

text \<open>
  One call: it is performed, or, when memory can be refused, it adds nothing - an error can only be lost when it
  is the first of its thread.
\<close>

fun err_allocates :: "err_op \<Rightarrow> err_error list \<Rightarrow> bool" where
  "err_allocates (Put lib reason file line) q \<longleftrightarrow> q = []"
| "err_allocates (Add_data args) q \<longleftrightarrow> True"
| "err_allocates (Set_data data flags) q \<longleftrightarrow> True"
| "err_allocates _ q \<longleftrightarrow> False"

inductive err_step :: "bool \<Rightarrow> int \<Rightarrow> err_error list \<Rightarrow> err_op \<Rightarrow> err_answer \<Rightarrow> err_error list \<Rightarrow> bool"
  for granted :: bool and errno :: int where
  performed: "err_spec errno op q = (r, q') \<Longrightarrow> err_step granted errno q op r q'"
| refused: "\<not> granted \<Longrightarrow> err_allocates op q \<Longrightarrow> err_step granted errno q op (0, None, None) q"

inductive err_trace :: "bool \<Rightarrow> int \<Rightarrow> err_error list \<Rightarrow> err_op list \<Rightarrow> err_answer list \<Rightarrow> err_error list \<Rightarrow> bool"
  for granted :: bool and errno :: int where
  none: "err_trace granted errno q [] [] q"
| more: "err_step granted errno q op r q1 \<Longrightarrow> err_trace granted errno q1 ops rs q2 \<Longrightarrow> err_trace granted errno q (op # ops) (r # rs) q2"

inductive_cases err_step_cases: "err_step granted errno q op r q'"
inductive_simps err_trace_simps: "err_trace granted errno q [] rs q'" "err_trace granted errno q (op # ops) rs q'"

fun err_run :: "err_op list \<Rightarrow> err_thread \<Rightarrow> (err_answer list \<times> err_thread) option" where
  "err_run [] t = Some ([], t)"
| "err_run (op # ops) t = do { (r, t) \<leftarrow> err_call op t; (rs, t) \<leftarrow> err_run ops t; Some (r # rs, t) }"

section \<open>The thread\<close>

definition err_at :: "err_thread \<Rightarrow> err_error list \<Rightarrow> bool" where
  "err_at t q \<longleftrightarrow> (case err_local t of None \<Rightarrow> q = [] | Some s \<Rightarrow> err_holds s q)"

text \<open>What the calls leave alone.\<close>

definition same_env :: "err_thread \<Rightarrow> err_thread \<Rightarrow> bool" where
  "same_env t t' \<longleftrightarrow> err_grants t' = err_grants t \<and> err_stores t' = err_stores t \<and> err_errno t' = err_errno t"

definition all_granted :: "err_thread \<Rightarrow> bool" where
  "all_granted t \<longleftrightarrow> (\<forall>i n. err_grants t i n) \<and> (\<forall>i. err_stores t i)"

lemma same_env_refl [simp, intro]: "same_env t t"
  by (simp add: same_env_def)

lemma same_env_trans [trans]: "same_env t u \<Longrightarrow> same_env u v \<Longrightarrow> same_env t v"
  by (simp add: same_env_def)

lemma same_env_granted: "same_env t u \<Longrightarrow> all_granted u = all_granted t" "same_env t u \<Longrightarrow> err_errno u = err_errno t"
  by (simp_all add: same_env_def all_granted_def)

lemma same_env_put [simp]: "same_env t (err_put_state s u) = same_env t u" "err_local (err_put_state s u) = Some s"
  by (simp_all add: same_env_def err_put_state_def)

lemma err_at_put [simp]: "err_at (err_put_state s t) q = err_holds s q"
  by (simp add: err_at_def)

lemma err_holds_nil: "err_holds \<lparr>err_errors = replicate ERR_NUM_ERRORS zero_error, err_top = 0, err_bottom = 0, err_to_free = None\<rparr> []"
  by (simp add: err_holds_def ERR_NUM_ERRORS_def)

lemma get_state_cases:
  assumes "err_at t q"
  obtains t' where "err_get_state t = (None, t')" "q = []" "\<not> all_granted t" "same_env t t'" "err_at t' q"
    | s t' where "err_get_state t = (Some s, t')" "err_holds s q" "same_env t t'" "err_at t' q" "err_local t' = Some s"
proof (cases "err_local t")
  case (Some s)
  then show ?thesis using assms that(2) [of s t] by (simp add: err_get_state_def err_at_def)
next
  case None
  then have q: "q = []" using assms by (simp add: err_at_def)
  define t1 where "t1 = t\<lparr>err_next := err_next t + 1\<rparr>"
  have e: "same_env t t1" "err_local t1 = None" using None by (simp_all add: same_env_def t1_def)
  show ?thesis
  proof (cases "err_grants t (err_next t) 400 \<and> err_stores t (err_next t1)")
    case True
    define s where "s = \<lparr>err_errors = replicate ERR_NUM_ERRORS zero_error, err_top = 0, err_bottom = 0, err_to_free = None\<rparr>"
    have r: "err_get_state t = (Some s, t1\<lparr>err_local := Some s\<rparr>)"
      using None True by (simp add: err_get_state_def err_malloc_def t1_def s_def Let_def)
    show ?thesis using err_holds_nil q e(1) by (intro that(2) [OF r]) (simp_all add: err_at_def same_env_def s_def)
  next
    case False
    then have "err_get_state t = (None, t1)"
      using None by (auto simp: err_get_state_def err_malloc_def t1_def Let_def)
    moreover have "\<not> all_granted t" using False by (auto simp: all_granted_def)
    moreover have "err_at t1 q" unfolding err_at_def e(2) using q by simp
    ultimately show ?thesis using q e(1) that(1) by blast
  qed
qed

lemma on_newest_snoc [simp]: "on_newest f (q @ [e]) = q @ [f e]" "on_newest f [] = []"
  by (simp_all add: on_newest_def)

lemma err_holds_free [simp]: "err_holds (s\<lparr>err_to_free := x\<rparr>) q = err_holds s q"
  by (simp add: err_holds_def)

lemma get_values_eq:
  assumes "err_at t q" "\<not> (inc \<and> newest)"
  shows "\<exists>t'. get_error_values inc newest (l \<or> d) d t
      = (if q = [] then (0, None, None) else err_report l d (if newest then last q else hd q), t')
    \<and> err_at t' (if inc then tl q else q) \<and> same_env t t'"
  using assms(1)
proof (rule get_state_cases)
  fix s t' assume s: "err_get_state t = (Some s, t')" "err_holds s q" "same_env t t'" "err_at t' q" "err_local t' = Some s"
  show ?thesis
  proof (cases "q = []")
    case True
    then show ?thesis using s by (auto simp: get_error_values_def err_holds_empty)
  next
    case False
    then obtain e r where q: "q = e # r" by (cases q) auto
    obtain f p where p: "q = p @ [f]" using False by (cases q rule: rev_cases) auto
    have ne: "err_bottom s \<noteq> err_top s" using s(2) False by (simp add: err_holds_empty)
    note old = err_holds_oldest [OF s(2) [unfolded q]]
    have new: "err_errors s ! err_top s = f" using err_holds_newest(1) s(2) p by simp
    have i: "err_errors s ! (if newest then err_top s else (err_bottom s + 1) mod ERR_NUM_ERRORS) = (if newest then last q else hd q)"
      using old(1) new p q by (metis ERR_NUM_ERRORS_def last_snoc list.sel(1))
    show ?thesis
    proof (cases inc)
      case True
      then have n: "newest = False" using assms(2) by simp
      have h: "err_holds (s\<lparr>err_to_free := x, err_errors := (err_errors s)[(err_bottom s + 1) mod 16 := y], err_bottom := (err_bottom s + 1) mod 16\<rparr>) r"
        for x y using err_holds_oldest(2) [of "s\<lparr>err_to_free := x\<rparr>" e r y] s(2) q by simp
      show ?thesis using s(1,3) ne old True n h
        by (auto simp: get_error_values_def q Let_def ERR_NUM_ERRORS_def err_report_def ERR_FLAG_STRING_def ERR_FLAG_MALLOCED_def simp del: One_nat_def)
    next
      case inc: False
      have fl: "ERR_FLAG_STRING + ERR_FLAG_MALLOCED = 3" by (simp add: ERR_FLAG_STRING_def ERR_FLAG_MALLOCED_def)
      have "get_error_values False newest (l \<or> d) d t = (err_report l d (if newest then last q else hd q), err_put_state s t')"
        by (simp only: get_error_values_def s(1) option.case prod.case ne Let_def i fl err_report_def if_False simp_thms)
      moreover have "err_put_state s t' = t'" using s(5) by (simp add: err_put_state_def)
      ultimately show ?thesis using s(3,4) inc False by simp
    qed
  qed
qed (auto simp: get_error_values_def)

lemma set_data_eq:
  assumes "err_at t q"
  shows "err_at (err_set_error_data data t) (on_newest (\<lambda>e. e\<lparr>err_data := Some data\<rparr>) q) \<and> same_env t (err_set_error_data data t)"
  using assms
proof (rule get_state_cases)
  fix s t' assume s: "err_get_state t = (Some s, t')" "err_holds s q" "same_env t t'" "err_at t' q"
  show ?thesis
  proof (cases q rule: rev_cases)
    case Nil
    then show ?thesis using s err_holds_empty [OF s(2)] by (auto simp: err_set_error_data_def)
  next
    case (snoc p e)
    then have "err_top s \<noteq> err_bottom s" using err_holds_empty [OF s(2)] by auto
    then show ?thesis using s(1,3) err_holds_newest [OF s(2) [unfolded snoc]] snoc by (simp add: err_set_error_data_def)
  qed
qed (simp add: err_set_error_data_def)

lemma pop_loop_eq:
  assumes "err_holds s q"
  shows "\<exists>s'. err_pop_loop s = Some (int (fst (pop_marked q)), s') \<and> err_holds s' (snd (pop_marked q))"
  using assms
proof (induction q arbitrary: s rule: rev_induct)
  case Nil
  then have "err_bottom s = err_top s" using err_holds_empty [OF Nil] by simp
  then show ?case using Nil by (simp add: err_pop_loop.simps [of s] pop_marked_def)
next
  case (snoc e q)
  have "err_bottom s \<noteq> err_top s" using err_holds_empty [OF snoc.prems] by simp
  then show ?case
    using snoc.IH err_holds_newest [OF snoc.prems] by (auto simp: err_pop_loop.simps [of s] pop_marked_def ERR_NUM_ERRORS_def Let_def)
qed

section \<open>One call\<close>

definition joined :: "bytes option list \<Rightarrow> bytes" where
  "joined args = concat (map (case_option [] id) args)"

lemma joined_simps [simp]: "joined [] = []" "joined (None # args) = joined args" "joined (Some s # args) = s @ joined args"
  by (simp_all add: joined_def)

lemma total_size_eq: "m + length (joined args) < size_bound \<Longrightarrow> err_total_size args m = Some (m + length (joined args))"
proof (induction args m rule: err_total_size.induct)
  case (3 substr args m)
  then have "\<not> size_bound - 1 - m < length substr" by simp
  then show ?case using 3 by (simp add: add.assoc)
qed simp_all

lemma concat_eq:
  assumes "\<forall>s. Some s \<in> set args \<longrightarrow> 0 \<notin> set s" "0 \<notin> set a" "length a + length (joined args) < n" "n \<le> length (a @ 0 # d)"
  shows "\<exists>d'. err_concat args (a @ 0 # d) n = Some (a @ joined args @ 0 # d')"
  using assms
proof (induction args arbitrary: a d)
  case (Cons x args)
  show ?case
  proof (cases x)
    case None
    then show ?thesis using Cons by simp
  next
    case (Some s)
    have "OPENSSL_strlcat (a @ 0 # d) (s @ 0 # []) n = Some (length a + length s, a @ s @ 0 # drop (length s) d)"
      using Cons.prems Some by (intro strlcat_eq) auto
    moreover obtain d' where "err_concat args ((a @ s) @ 0 # drop (length s) d) n = Some ((a @ s) @ joined args @ 0 # d')"
      using Cons.IH [of "a @ s" "drop (length s) d"] Cons.prems Some by auto
    ultimately show ?thesis using Some by simp
  qed
qed simp

fun err_op_ok :: "err_op \<Rightarrow> bool" where
  "err_op_ok (Add_data args) \<longleftrightarrow> (\<forall>s. Some s \<in> set args \<longrightarrow> 0 \<notin> set s) \<and> length (joined args) < 18446744073709551615"
| "err_op_ok _ \<longleftrightarrow> True"

lemma c_string_append [simp]: "0 \<notin> set s \<Longrightarrow> c_string (s @ 0 # r) = s"
  by (induction s) auto

lemma joined_no_nul: "\<forall>s. Some s \<in> set args \<longrightarrow> 0 \<notin> set s \<Longrightarrow> 0 \<notin> set (joined args)"
proof (induction args)
  case (Cons x args)
  then show ?case by (cases x) auto
qed simp

lemma malloc_cases:
  assumes "err_at t q"
  obtains t' where "err_malloc n t = (None, t')" "\<not> all_granted t" "same_env t t'" "err_at t' q"
    | m t' where "err_malloc n t = (Some m, t')" "length m = n" "same_env t t'" "err_at t' q"
  using assms that(1) [of "t\<lparr>err_next := err_next t + 1\<rparr>"] that(2) [of _ "t\<lparr>err_next := err_next t + 1\<rparr>"]
  by (cases "err_grants t (err_next t) n") (auto simp: err_malloc_def same_env_def all_granted_def err_at_def)

lemma add_data_step:
  assumes "err_at t q" "err_op_ok (Add_data args)"
  obtains t' q' where "ERR_add_error_data args t = Some t'" "err_at t' q'" "same_env t t'"
    "err_step (all_granted t) (err_errno t) q (Add_data args) (0, None, None) q'"
proof -
  define n where "n = length (joined args)"
  have n: "n < size_bound - 1" "\<forall>s. Some s \<in> set args \<longrightarrow> 0 \<notin> set s" using assms(2) by (simp_all add: n_def)
  have z: "err_total_size args 0 = Some n" using total_size_eq [of 0 args] n(1) by (simp add: n_def)
  note e = ERR_add_error_data_def err_add_error_vdata_def z
  show ?thesis
  proof (rule malloc_cases [OF assms(1), of "n + 1"])
    fix t1 assume "err_malloc (n + 1) t = (None, t1)" "\<not> all_granted t" "same_env t t1" "err_at t1 q"
    then show ?thesis using n(1) by (intro that [of t1 q]) (auto simp: e intro: err_step.refused)
  next
    fix m t1 assume m: "err_malloc (n + 1) t = (Some m, t1)" "length m = n + 1" "same_env t t1" "err_at t1 q"
    obtain d where d: "m[0 := 0] = [] @ 0 # d" "length d = n" using m(2) by (cases m) auto
    obtain d' where "err_concat args ([] @ 0 # d) (n + 1) = Some ([] @ joined args @ 0 # d')"
      using concat_eq [OF n(2), of "[]" "n + 1" d] d(2) by (auto simp: n_def)
    then have "ERR_add_error_data args t = Some (err_set_error_data (joined args) t1)"
      using m(1) d(1) n(1) joined_no_nul [OF n(2)] by (simp add: e Let_def)
    moreover note set_data_eq [OF m(4), of "joined args"]
    moreover have "err_step (all_granted t) (err_errno t) q (Add_data args) (0, None, None) (on_newest (\<lambda>e. e\<lparr>err_data := Some (joined args)\<rparr>) q)"
      by (rule err_step.performed) (simp add: joined_def)
    ultimately show ?thesis using that same_env_trans m(3) by blast
  qed
qed

lemma set_error_data_step:
  assumes "err_at t q"
  obtains t' q' where "ERR_set_error_data data flags t = t'" "err_at t' q'" "same_env t t'"
    "err_step (all_granted t) (err_errno t) q (Set_data data flags) (0, None, None) q'"
proof (cases "flags AND 1 = 0")
  case True
  then show ?thesis using assms by (intro that [of t q]) (auto simp: ERR_set_error_data_def ERR_FLAG_STRING_def intro: err_step.performed)
next
  case False
  show ?thesis
  proof (rule malloc_cases [OF assms, of "length data + 1"])
    fix t1 assume "err_malloc (length data + 1) t = (None, t1)" "\<not> all_granted t" "same_env t t1" "err_at t1 q"
    then show ?thesis using False
      by (intro that [of t1 q]) (auto simp: ERR_set_error_data_def strdup_libc_malloc_def ERR_FLAG_STRING_def intro: err_step.refused)
  next
    fix m t1 assume m: "err_malloc (length data + 1) t = (Some m, t1)" "length m = length data + 1" "same_env t t1" "err_at t1 q"
    have "ERR_set_error_data data flags t = err_set_error_data data t1"
      using m(1) False by (simp add: ERR_set_error_data_def strdup_libc_malloc_def ERR_FLAG_STRING_def)
    moreover note set_data_eq [OF m(4), of data]
    moreover have "err_step (all_granted t) (err_errno t) q (Set_data data flags) (0, None, None) (on_newest (\<lambda>e. e\<lparr>err_data := Some data\<rparr>) q)"
      by (rule err_step.performed) (simp add: False)
    ultimately show ?thesis using that same_env_trans m(3) by blast
  qed
qed

lemma cleared_error:
  "(err_clear x)\<lparr>err_file := f, err_line := l, err_packed := p\<rparr>
     = \<lparr>err_file = f, err_data = None, err_packed = p, err_line = l, err_mark = False\<rparr>"
  by (cases x) (simp add: err_clear_def)

lemma put_error_step:
  assumes "err_at t q"
  obtains t' q' where "ERR_put_error lib reason file line t = t'" "err_at t' q'" "same_env t t'"
    "err_step (all_granted t) (err_errno t) q (Put lib reason file line) (0, None, None) q'"
proof (rule get_state_cases [OF assms])
  fix t1 assume "err_get_state t = (None, t1)" "q = []" "\<not> all_granted t" "same_env t t1" "err_at t1 q"
  then show ?thesis by (intro that [of t1 q]) (auto simp: ERR_put_error_def intro: err_step.refused)
next
  fix s t1 assume s: "err_get_state t = (Some s, t1)" "err_holds s q" "same_env t t1"
  define e where "e = new_error (err_errno t) lib reason file line"
  define new_top where "new_top = (err_top s + 1) mod 16"
  have "err_errno t1 = err_errno t" using s(3) by (simp add: same_env_def)
  then have "ERR_put_error lib reason file line t
      = err_put_state (s\<lparr>err_errors := (err_errors s)[new_top := e], err_top := new_top,
          err_bottom := (if new_top = err_bottom s then (err_bottom s + 1) mod 16 else err_bottom s)\<rparr>) t1"
    by (simp add: ERR_put_error_def s(1) Let_def e_def new_error_def new_top_def cleared_error ERR_NUM_ERRORS_def)
  moreover note err_holds_push [OF s(2) new_top_def, of e]
  moreover have "err_step (all_granted t) (err_errno t) q (Put lib reason file line) (0, None, None) (err_push e q)"
    by (rule err_step.performed) (simp add: e_def)
  ultimately show ?thesis using s(3) that by simp
qed

lemma clear_error_step:
  assumes "err_at t q"
  shows "err_at (ERR_clear_error t) [] \<and> same_env t (ERR_clear_error t)"
  using assms
proof (rule get_state_cases)
  fix s t1 assume s: "err_get_state t = (Some s, t1)" "err_holds s q" "same_env t t1"
  then show ?thesis by (auto simp: ERR_clear_error_def err_holds_def)
qed (auto simp: ERR_clear_error_def)

lemma set_mark_step:
  assumes "err_at t q"
  obtains t' where "ERR_set_mark t = (if q = [] then 0 else 1, t')" "err_at t' (on_newest (\<lambda>e. e\<lparr>err_mark := True\<rparr>) q)" "same_env t t'"
proof (rule get_state_cases [OF assms])
  fix s t1 assume s: "err_get_state t = (Some s, t1)" "err_holds s q" "same_env t t1" "err_at t1 q"
  show ?thesis
  proof (cases q rule: rev_cases)
    case Nil
    then show ?thesis using s err_holds_empty [OF s(2)] by (intro that [of t1]) (auto simp: ERR_set_mark_def)
  next
    case (snoc p e)
    then have "err_bottom s \<noteq> err_top s" using err_holds_empty [OF s(2)] by auto
    define s1 where "s1 = s\<lparr>err_errors := (err_errors s)[err_top s := (err_errors s ! err_top s)\<lparr>err_mark := True\<rparr>]\<rparr>"
    have "ERR_set_mark t = (1, err_put_state s1 t1)" using s(1) \<open>err_bottom s \<noteq> err_top s\<close> by (simp add: ERR_set_mark_def s1_def)
    moreover have "err_holds s1 (p @ [e\<lparr>err_mark := True\<rparr>])" using err_holds_newest(1,2) [OF s(2) [unfolded snoc]] by (simp add: s1_def)
    ultimately show ?thesis using s(3) snoc by (intro that [of "err_put_state s1 t1"]) simp_all
  qed
qed (use that in \<open>auto simp: ERR_set_mark_def\<close>)

lemma pop_to_mark_step:
  assumes "err_at t q"
  obtains t' where "ERR_pop_to_mark t = Some (int (fst (pop_marked q)), t')" "err_at t' (snd (pop_marked q))" "same_env t t'"
proof (rule get_state_cases [OF assms])
  fix s t1 assume s: "err_get_state t = (Some s, t1)" "err_holds s q" "same_env t t1"
  then show ?thesis using pop_loop_eq [OF s(2)] by (auto simp: ERR_pop_to_mark_def intro: that)
next
  fix t1 assume "err_get_state t = (None, t1)" "q = []" "same_env t t1" "err_at t1 q"
  then show ?thesis by (intro that [of t1]) (simp_all add: ERR_pop_to_mark_def pop_marked_def)
qed

lemma get_step:
  assumes "err_at t q"
  obtains t' where "err_call (Get l d) t = Some (if q = [] then (0, None, None) else err_report l d (hd q), t')" "err_at t' (tl q)" "same_env t t'"
proof -
  obtain t' where "get_error_values True False (l \<or> d) d t = (if q = [] then (0, None, None) else err_report l d (hd q), t')"
    "err_at t' (tl q)" "same_env t t'" using get_values_eq [OF assms, of True False l d] by auto
  then show ?thesis using that
    by (cases l; cases d) (auto simp: ERR_get_error_def ERR_get_error_line_def ERR_get_error_line_data_def err_report_def)
qed

lemma peek_step:
  assumes "err_at t q"
  obtains t' where "err_call (Peek l d) t = Some (if q = [] then (0, None, None) else err_report l d (hd q), t')" "err_at t' q" "same_env t t'"
proof -
  obtain t' where "get_error_values False False (l \<or> d) d t = (if q = [] then (0, None, None) else err_report l d (hd q), t')"
    "err_at t' q" "same_env t t'" using get_values_eq [OF assms, of False False l d] by auto
  then show ?thesis using that
    by (cases l; cases d) (auto simp: ERR_peek_error_def ERR_peek_error_line_def ERR_peek_error_line_data_def err_report_def)
qed

lemma peek_last_step:
  assumes "err_at t q"
  obtains t' where "err_call (Peek_last l d) t = Some (if q = [] then (0, None, None) else err_report l d (last q), t')" "err_at t' q" "same_env t t'"
proof -
  obtain t' where "get_error_values False True (l \<or> d) d t = (if q = [] then (0, None, None) else err_report l d (last q), t')"
    "err_at t' q" "same_env t t'" using get_values_eq [OF assms, of False True l d] by auto
  then show ?thesis using that
    by (cases l; cases d) (auto simp: ERR_peek_last_error_def ERR_peek_last_error_line_def ERR_peek_last_error_line_data_def err_report_def)
qed

lemma err_call_step:
  assumes "err_at t q" "err_op_ok op"
  obtains (run) r t' q' where "err_call op t = Some (r, t')" "err_at t' q'" "same_env t t'" "err_step (all_granted t) (err_errno t) q op r q'"
proof -
  have fin: thesis if "err_call op t = Some (r, t')" "err_at t' q'" "same_env t t'" "err_spec (err_errno t) op q = (r, q')" for r t' q'
    using run [OF that(1-3) err_step.performed [OF that(4)]] .
  show ?thesis
  proof (cases op)
  case (Put lib reason fname line)
  show ?thesis by (rule put_error_step [OF assms(1), of lib reason fname line]) (use Put run in auto)
next
  case (Add_data args)
  show ?thesis by (rule add_data_step [OF assms(1), of args]) (use Add_data assms(2) run in auto)
next
  case (Set_data data flags)
  show ?thesis by (rule set_error_data_step [OF assms(1), of data flags]) (use Set_data run in auto)
next
  case (Get l d)
  show ?thesis by (rule get_step [OF assms(1), of l d]) (rule fin; simp add: Get del: err_call.simps)
next
  case (Peek l d)
  show ?thesis by (rule peek_step [OF assms(1), of l d]) (rule fin; simp add: Peek del: err_call.simps)
next
  case (Peek_last l d)
  show ?thesis by (rule peek_last_step [OF assms(1), of l d]) (rule fin; simp add: Peek_last del: err_call.simps)
next
  case Clear
  then show ?thesis using clear_error_step [OF assms(1)] by (intro fin) auto
next
  case Set_mark
  show ?thesis by (rule set_mark_step [OF assms(1)]) (rule fin; auto simp: Set_mark)
next
  case Pop_to_mark
  show ?thesis by (rule pop_to_mark_step [OF assms(1)]) (rule fin; simp add: Pop_to_mark)
qed
qed

lemma err_run_trace:
  assumes "err_at t q" "\<forall>op\<in>set ops. err_op_ok op"
  shows "\<exists>rs t' q'. err_run ops t = Some (rs, t') \<and> err_at t' q' \<and> same_env t t' \<and> err_trace (all_granted t) (err_errno t) q ops rs q'"
  using assms
proof (induction ops arbitrary: t q)
  case Nil
  then show ?case by (auto intro: err_trace.none)
next
  case (Cons op ops)
  obtain r t1 q1 where 1: "err_call op t = Some (r, t1)" "err_at t1 q1" "same_env t t1" "err_step (all_granted t) (err_errno t) q op r q1"
    by (rule err_call_step [OF Cons.prems(1), of op]) (use Cons.prems(2) in auto)
  obtain rs t2 q2 where 2: "err_run ops t1 = Some (rs, t2)" "err_at t2 q2" "same_env t1 t2" "err_trace (all_granted t) (err_errno t) q1 ops rs q2"
    using Cons.IH [OF 1(2)] Cons.prems(2) same_env_granted [OF 1(3)] by auto
  then show ?case using 1 err_trace.more [OF 1(4) 2(4)] same_env_trans [OF 1(3) 2(3)] by auto
qed

end
