(* ===== verification/Err_Props.thy ===== *)
theory Err_Props
  imports Err_Queue
begin

text \<open>
  The properties of the error queue: any run of calls answers like a list, and a saved queue comes back.
\<close>

section \<open>Runs without failures\<close>

fun err_spec_run :: "int \<Rightarrow> err_op list \<Rightarrow> err_error list \<Rightarrow> err_answer list \<times> err_error list" where
  "err_spec_run errno [] q = ([], q)"
| "err_spec_run errno (op # ops) q
     = (case err_spec errno op q of (r, q) \<Rightarrow> (case err_spec_run errno ops q of (rs, q) \<Rightarrow> (r # rs, q)))"

lemma trace_granted: "err_trace granted errno q ops rs q' \<Longrightarrow> granted \<Longrightarrow> err_spec_run errno ops q = (rs, q')"
  by (induction rule: err_trace.induct) (auto elim!: err_step_cases)

lemma push_length: "length q < 16 \<Longrightarrow> length (err_push e q) < 16"
  by (auto simp: err_push_def)

lemma err_at_length: "err_at t q \<Longrightarrow> length q < 16"
  by (auto simp: err_at_def err_holds_def split: option.splits)

section \<open>Copies\<close>

definition unmark :: "err_error \<Rightarrow> err_error" where
  "unmark e = e\<lparr>err_mark := False\<rparr>"

lemma copy_eq:
  assumes "all_granted t" "err_at t q"
  shows "\<exists>t'. err_copy dst src t = (unmark src, t') \<and> same_env t t' \<and> err_at t' q"
proof -
  have z: "(err_clear dst)\<lparr>err_file := f, err_packed := p, err_line := l\<rparr> = \<lparr>err_file = f, err_data = None, err_packed = p, err_line = l, err_mark = False\<rparr>"
    "(err_clear dst)\<lparr>err_file := f, err_data := d, err_packed := p, err_line := l\<rparr> = \<lparr>err_file = f, err_data = d, err_packed = p, err_line = l, err_mark = False\<rparr>" for f p l d
    by (cases dst; simp add: err_clear_def)+
  show ?thesis
  proof (cases "err_data src")
    case None
    then have "err_copy dst src t = (unmark src, t)" by (cases src) (simp add: err_copy_def z unmark_def)
    then show ?thesis using assms(2) by blast
  next
    case (Some str)
    show ?thesis
    proof (rule malloc_cases [OF assms(2), of "length str + 1"])
      fix m t1 assume m: "err_malloc (length str + 1) t = (Some m, t1)" "same_env t t1" "err_at t1 q"
      then have "err_copy dst src t = (unmark src, t1)"
        using Some by (cases src) (simp add: err_copy_def strdup_libc_malloc_def z unmark_def)
      then show ?thesis using m by blast
    qed (use assms(1) in simp)
  qed
qed

lemma copy_all_eq:
  assumes "all_granted t" "err_at t q" "length dsts = length srcs"
  shows "\<exists>t'. err_copy_all dsts srcs t = (map unmark srcs, t') \<and> same_env t t' \<and> err_at t' q"
  using assms(3,1,2)
proof (induction dsts srcs arbitrary: t rule: list_induct2)
  case (Cons dst dsts src srcs)
  obtain t1 where 1: "err_copy dst src t = (unmark src, t1)" "same_env t t1" "err_at t1 q" using copy_eq [OF Cons.prems] by blast
  obtain t2 where "err_copy_all dsts srcs t1 = (map unmark srcs, t2)" "same_env t1 t2" "err_at t2 q"
    using Cons.IH 1 Cons.prems(1) same_env_granted(1) [OF 1(2)] by blast
  then show ?case using 1 same_env_trans [OF 1(2)] by auto
qed auto

lemma holds_slice: "err_holds s q \<Longrightarrow> map (\<lambda>i. err_errors s ! ((err_bottom s + i + 1) mod ERR_NUM_ERRORS)) [0..<length q] = q"
  by (simp add: err_holds_def ERR_NUM_ERRORS_def slice_def)

lemma holds_count:
  assumes "err_holds s q"
  shows "(if err_top s \<ge> err_bottom s then err_top s - err_bottom s else ERR_NUM_ERRORS + err_top s - err_bottom s) = length q"
proof -
  have "err_bottom s < 16" "length q < 16" "err_top s = (err_bottom s + length q) mod 16" using assms by (simp_all add: err_holds_def)
  then show ?thesis by (cases "err_bottom s + length q < 16") (auto simp: ERR_NUM_ERRORS_def le_mod_geq)
qed

lemma save_eq:
  assumes "all_granted t" "err_at t q"
  obtains t' where "ERR_save_state t = (if q = [] then None else Some (map unmark q), t')" "same_env t t'" "err_at t' q"
proof (rule get_state_cases [OF assms(2)])
  fix s t1 assume s: "err_get_state t = (Some s, t1)" "err_holds s q" "same_env t t1" "err_at t1 q"
  have g: "all_granted t1" using assms(1) s(3) same_env_granted by blast
  note e = err_holds_empty [OF s(2)]
  show ?thesis
  proof (cases "q = []")
    case True
    then have "err_top s = err_bottom s" using e by simp
    then show ?thesis using that [of t1] s True by (simp add: ERR_save_state_def)
  next
    case False
    then have ne: "(err_top s = err_bottom s) = False" using e by auto
    show ?thesis
    proof (rule malloc_cases [OF s(4), of 16])
      fix m t2 assume 2: "err_malloc 16 t1 = (Some m, t2)" "same_env t1 t2" "err_at t2 q"
      have g2: "all_granted t2" using g 2(2) same_env_granted by blast
      show ?thesis
      proof (rule malloc_cases [OF 2(3), of "length q * 24"])
        fix m t3 assume 3: "err_malloc (length q * 24) t2 = (Some m, t3)" "same_env t2 t3" "err_at t3 q"
        have g3: "all_granted t3" using g2 3(2) same_env_granted by blast
        obtain t4 where 4: "err_copy_all (replicate (length q) zero_error) q t3 = (map unmark q, t4)" "same_env t3 t4" "err_at t4 q"
          using copy_all_eq [OF g3 3(3), of "replicate (length q) zero_error" q] by auto
        have "ERR_save_state t = (Some (map unmark q), t4)"
          by (simp only: ERR_save_state_def s(1) ne 2(1) 3(1) 4(1) holds_count [OF s(2)] holds_slice [OF s(2)] option.case prod.case Let_def if_False)
        then show ?thesis using that [of t4] False 4(3) same_env_trans [OF s(3) same_env_trans [OF 2(2) same_env_trans [OF 3(2) 4(2)]]] by simp
      qed (use g2 in simp)
    qed (use g in simp)
  qed
qed (use assms(1) in simp)

lemma restore_eq:
  assumes "all_granted t" "err_at t q" "length es < 16"
  obtains t' where "ERR_restore_state (if es = [] then None else Some es) t = Some t'" "same_env t t'" "err_at t' (map unmark es)"
proof (cases "es = []")
  case True
  then show ?thesis using clear_error_step [OF assms(2)] that by (simp add: ERR_restore_state_def)
next
  case False
  show ?thesis
  proof (rule get_state_cases [OF assms(2)])
    fix s t1 assume s: "err_get_state t = (Some s, t1)" "err_holds s q" "same_env t t1" "err_at t1 q"
    have l: "length (err_errors s) = 16" using s(2) by (simp add: err_holds_def)
    have g: "all_granted t1" using assms(1) s(3) same_env_granted by blast
    obtain t2 where 2: "err_copy_all (take (length es) (err_errors s)) es t1 = (map unmark es, t2)" "same_env t1 t2"
      using copy_all_eq [OF g s(4), of "take (length es) (err_errors s)" es] l assms(3) by auto
    define s2 where "s2 = s\<lparr>err_errors := map unmark es @ drop (length es) (err_errors s), err_top := length es - 1, err_bottom := 15\<rparr>"
    have "ERR_restore_state (if es = [] then None else Some es) t = Some (err_put_state s2 t2)"
      using False assms(3) s(1) 2(1) by (simp add: ERR_restore_state_def ERR_NUM_ERRORS_def s2_def)
    moreover have "slice (map unmark es @ drop (length es) (err_errors s)) 16 (length es) = map unmark es"
    proof (rule nth_equalityI)
      fix i assume "i < length (slice (map unmark es @ drop (length es) (err_errors s)) 16 (length es))"
      then have "i < length es" by simp
      then show "slice (map unmark es @ drop (length es) (err_errors s)) 16 (length es) ! i = map unmark es ! i"
        using assms(3) by (simp add: slice_def nth_append)
    qed simp
    moreover have "(15 + length es) mod 16 = length es - 1"
    proof -
      have "0 < length es" using False by simp
      then obtain k where "length es = Suc k" using gr0_implies_Suc by blast
      then show ?thesis using assms(3) by simp
    qed
    ultimately have "err_holds s2 (map unmark es)" using l assms(3) by (simp add: err_holds_def s2_def)
    then show ?thesis
      using \<open>ERR_restore_state _ t = _\<close> that [of "err_put_state s2 t2"] same_env_trans [OF s(3) 2(2)] by simp
  qed (use assms(1) in simp)
qed

section \<open>Properties\<close>

text \<open>
  C35: The error queue of a thread is a list of the last fifteen errors.  Whatever calls a new thread makes -
  adding errors and data to them, reading the oldest, looking at the oldest or the newest, marking, going back to a
  mark, clearing - each of them returns and answers like the list: an error that does not fit drops the oldest, and
  only for lack of memory is data or a first error lost.
\<close>
theorem err_queue_refines_list:
  assumes "err_local t = None" "\<forall>op\<in>set ops. err_op_ok op"
  shows "\<exists>rs t' q. err_run ops t = Some (rs, t') \<and> err_trace (all_granted t) (err_errno t) [] ops rs q \<and> length q \<le> 15"
proof -
  have "err_at t []" using assms(1) by (simp add: err_at_def)
  then obtain rs t' q where "err_run ops t = Some (rs, t')" "err_at t' q" "err_trace (all_granted t) (err_errno t) [] ops rs q"
    using err_run_trace [OF _ assms(2)] by blast
  then show ?thesis using err_at_length [of t' q] by auto
qed

definition new_thread :: "(nat \<Rightarrow> nat \<Rightarrow> bool) \<Rightarrow> err_thread" where
  "new_thread grants = \<lparr>err_local = None, err_next = 0, err_grants = grants, err_fresh = (\<lambda>_ _. 1), err_stores = (\<lambda>_. True), err_errno = 5\<rparr>"

lemma all_granted_new [simp]: "all_granted (new_thread (\<lambda>_ _. True))" "err_errno (new_thread g) = 5" "err_local (new_thread g) = None"
  by (simp_all add: all_granted_def new_thread_def)

lemma err_queue_refines_list_witness:
  "\<exists>t'. err_run [Put 6 100 [65] 7, Set_mark, Put 2 0 [66] 9, Add_data [Some [72], None, Some [73]], Peek_last True True,
       Pop_to_mark, Get True False, Get True False] (new_thread (\<lambda>_ _. True))
    = Some ([(0, None, None), (1, None, None), (0, None, None), (0, None, None), (0x2000005, Some ([66], 9), Some ([72, 73], 3)),
        (1, None, None), (0x6000064, Some ([65], 7), None), (0, None, None)], t')"
proof -
  let ?ops = "[Put 6 100 [65] 7, Set_mark, Put 2 0 [66] 9, Add_data [Some [72], None, Some [73]], Peek_last True True,
       Pop_to_mark, Get True False, Get True False]"
  let ?t = "new_thread (\<lambda>_ _. True)"
  have "\<forall>op\<in>set ?ops. err_op_ok op" by simp
  from err_queue_refines_list [OF all_granted_new(3) this] obtain rs t' q where
    r: "err_run ?ops ?t = Some (rs, t')" "err_trace (all_granted ?t) (err_errno ?t) [] ?ops rs q" by blast
  have "fst (err_spec_run 5 ?ops []) = rs" using trace_granted [OF r(2)] by simp
  moreover have "fst (err_spec_run 5 ?ops []) = [(0, None, None), (1, None, None), (0, None, None), (0, None, None),
      (0x2000005, Some ([66], 9), Some ([72, 73], 3)), (1, None, None), (0x6000064, Some ([65], 7), None), (0, None, None)]"
    by code_simp
  ultimately show ?thesis using r(1) by simp
qed

text \<open>
  C36: A saved queue comes back.  Unless memory is refused, whatever is called between \<^verbatim>\<open>ERR_save_state\<close> and
  \<^verbatim>\<open>ERR_restore_state\<close>, afterwards the queue holds the errors it held when it was saved, in order and with
  their data, but without their marks; restoring never aborts.
\<close>
theorem err_save_restore:
  assumes "err_local t = None" "all_granted t" "\<forall>op\<in>set (before @ between @ after). err_op_ok op"
  shows "\<exists>rs t1 saved t2 rs' t3 t4 t5. err_run before t = Some (rs, t1) \<and> ERR_save_state t1 = (saved, t2)
    \<and> err_run between t2 = Some (rs', t3) \<and> ERR_restore_state saved t3 = Some t4
    \<and> err_run after t4
      = Some (fst (err_spec_run (err_errno t) after (map unmark (snd (err_spec_run (err_errno t) before [])))), t5)"
proof -
  have ok: "\<forall>op\<in>set before. err_op_ok op" "\<forall>op\<in>set between. err_op_ok op" "\<forall>op\<in>set after. err_op_ok op" using assms(3) by simp_all
  have "err_at t []" using assms(1) by (simp add: err_at_def)
  then obtain rs t1 q where 1: "err_run before t = Some (rs, t1)" "err_at t1 q" "same_env t t1"
    "err_trace (all_granted t) (err_errno t) [] before rs q" using err_run_trace [OF _ ok(1)] by blast
  have q: "q = snd (err_spec_run (err_errno t) before [])" using trace_granted [OF 1(4) assms(2)] by simp
  obtain t2 where 2: "ERR_save_state t1 = (if q = [] then None else Some (map unmark q), t2)" "same_env t1 t2" "err_at t2 q"
    using save_eq [OF _ 1(2)] same_env_granted(1) [OF 1(3)] assms(2) by blast
  obtain rs' t3 q3 where 3: "err_run between t2 = Some (rs', t3)" "err_at t3 q3" "same_env t2 t3" using err_run_trace [OF 2(3) ok(2)] by blast
  have e3: "same_env t t3" using same_env_trans [OF 1(3) same_env_trans [OF 2(2) 3(3)]] .
  obtain t4 where 4: "ERR_restore_state (if map unmark q = [] then None else Some (map unmark q)) t3 = Some t4" "same_env t3 t4"
      "err_at t4 (map unmark (map unmark q))"
    by (rule restore_eq [OF _ 3(2), of "map unmark q"]) (use e3 same_env_granted(1) assms(2) err_at_length [OF 1(2)] in auto)
  have u: "map unmark (map unmark q) = map unmark q" by (simp add: unmark_def)
  have e4: "same_env t t4" using same_env_trans [OF e3 4(2)] .
  obtain rs5 t5 q5 where 5: "err_run after t4 = Some (rs5, t5)" "err_trace (all_granted t4) (err_errno t4) (map unmark q) after rs5 q5"
    using err_run_trace [OF 4(3) ok(3)] unfolding u by blast
  have "fst (err_spec_run (err_errno t) after (map unmark q)) = rs5"
    using trace_granted [OF 5(2)] same_env_granted [OF e4] assms(2) by simp
  then show ?thesis using 1(1) 2(1) 3(1) 4(1) 5(1) unfolding q by auto
qed

lemma err_save_restore_witness:
  "\<exists>rs t1 saved t2 rs' t3 t4 t5. err_run [Put 6 100 [65] 7, Set_mark] (new_thread (\<lambda>_ _. True)) = Some (rs, t1)
    \<and> ERR_save_state t1 = (saved, t2) \<and> err_run [Put 7 101 [66] 9, Clear] t2 = Some (rs', t3)
    \<and> ERR_restore_state saved t3 = Some t4
    \<and> err_run [Pop_to_mark, Get False False] t4 = Some ([(0, None, None), (0, None, None)], t5)"
proof -
  have "\<forall>op\<in>set ([Put 6 100 [65] 7, Set_mark] @ [Put 7 101 [66] 9, Clear] @ [Pop_to_mark, Get False False]). err_op_ok op" by simp
  moreover have "fst (err_spec_run 5 [Pop_to_mark, Get False False] (map unmark (snd (err_spec_run 5 [Put 6 100 [65] 7, Set_mark] []))))
      = [(0, None, None), (0, None, None)]" by code_simp
  ultimately show ?thesis
    using err_save_restore [OF all_granted_new(3) all_granted_new(1), of "[Put 6 100 [65] 7, Set_mark]" "[Put 7 101 [66] 9, Clear]" "[Pop_to_mark, Get False False]"]
    by auto
qed

end
