(* ===== verification/Err_String.thy ===== *)
theory Err_String
  imports Err
begin

text \<open>
  The names of errors and their printed forms in \<^verbatim>\<open>crypto/err/err.c\<close>.  The tables that the build generates and
  \<^verbatim>\<open>strerror\<close> are a parameter.
\<close>

section \<open>Names\<close>

record err_names =
  reason_values :: "u32 list"
  reason_string_data :: bytes
  c_strerror :: "nat \<Rightarrow> bytes"

definition c_text :: "string \<Rightarrow> bytes" where
  "c_text s = map of_char s"

definition kLibraryNames :: "(string \<times> string option \<times> string option) list" where
  "kLibraryNames =
    [(''invalid library (0)'', None, None),
     (''unknown library'', Some ''NONE'', Some ''NONE_LIB''),
     (''system library'', Some ''SYS'', Some ''SYS_LIB''),
     (''bignum routines'', Some ''BN'', Some ''BN_LIB''),
     (''RSA routines'', Some ''RSA'', Some ''RSA_LIB''),
     (''Diffie-Hellman routines'', Some ''DH'', Some ''DH_LIB''),
     (''public key routines'', Some ''EVP'', Some ''EVP_LIB''),
     (''memory buffer routines'', Some ''BUF'', Some ''BUF_LIB''),
     (''object identifier routines'', Some ''OBJ'', Some ''OBJ_LIB''),
     (''PEM routines'', Some ''PEM'', Some ''PEM_LIB''),
     (''DSA routines'', Some ''DSA'', Some ''DSA_LIB''),
     (''X.509 certificate routines'', Some ''X509'', Some ''X509_LIB''),
     (''ASN.1 encoding routines'', Some ''ASN1'', Some ''ASN1_LIB''),
     (''configuration file routines'', Some ''CONF'', Some ''CONF_LIB''),
     (''common libcrypto routines'', Some ''CRYPTO'', Some ''CRYPTO_LIB''),
     (''elliptic curve routines'', Some ''EC'', Some ''EC_LIB''),
     (''SSL routines'', Some ''SSL'', Some ''SSL_LIB''),
     (''BIO routines'', Some ''BIO'', Some ''BIO_LIB''),
     (''PKCS7 routines'', Some ''PKCS7'', Some ''PKCS7_LIB''),
     (''PKCS8 routines'', Some ''PKCS8'', Some ''PKCS8_LIB''),
     (''X509 V3 routines'', Some ''X509V3'', Some ''X509V3_LIB''),
     (''random number generator'', Some ''RAND'', Some ''RAND_LIB''),
     (''ENGINE routines'', Some ''ENGINE'', Some ''ENGINE_LIB''),
     (''OCSP routines'', Some ''OCSP'', Some ''OCSP_LIB''),
     (''UI routines'', Some ''UI'', Some ''UI_LIB''),
     (''COMP routines'', Some ''COMP'', Some ''COMP_LIB''),
     (''ECDSA routines'', Some ''ECDSA'', Some ''ECDSA_LIB''),
     (''ECDH routines'', Some ''ECDH'', Some ''ECDH_LIB''),
     (''HMAC routines'', Some ''HMAC'', Some ''HMAC_LIB''),
     (''Digest functions'', Some ''DIGEST'', Some ''DIGEST_LIB''),
     (''Cipher functions'', Some ''CIPHER'', Some ''CIPHER_LIB''),
     (''HKDF functions'', Some ''HKDF'', Some ''HKDF_LIB''),
     (''Trust Token functions'', Some ''TRUST_TOKEN'', Some ''TRUST_TOKEN_LIB''),
     (''User defined functions'', Some ''USER'', Some ''USER_LIB'')]"

definition err_string_cmp :: "u32 \<Rightarrow> u32 \<Rightarrow> int" where
  "err_string_cmp a b
     = (let a_key = drop_bit 15 a; b_key = drop_bit 15 b in
        if a_key < b_key then - 1 else if a_key > b_key then 1 else 0)"

text \<open>\<^verbatim>\<open>bsearch\<close> on a sorted array of distinct keys is the search for the key.\<close>

definition err_string_lookup :: "nat \<Rightarrow> nat \<Rightarrow> u32 list \<Rightarrow> bytes \<Rightarrow> bytes option" where
  "err_string_lookup lib key values string_data
     = (if lib \<ge> 64 \<or> key \<ge> 2048 then None
        else let search_key = push_bit 26 (word_of_nat lib) OR push_bit 15 (word_of_nat key) in
          case find (\<lambda>v. err_string_cmp search_key v = 0) values of
            None \<Rightarrow> None
          | Some result \<Rightarrow> Some (c_string (drop (unat (result AND 0x7fff)) string_data)))"

definition err_lib_error_string :: "u32 \<Rightarrow> bytes option" where
  "err_lib_error_string packed_error
     = (let lib = ERR_GET_LIB packed_error in
        if int lib \<ge> ERR_NUM_LIBS then None else Some (c_text (fst (kLibraryNames ! lib))))"

definition ERR_lib_error_string :: "u32 \<Rightarrow> bytes" where
  "ERR_lib_error_string packed_error
     = (case err_lib_error_string packed_error of None \<Rightarrow> c_text ''unknown library'' | Some ret \<Rightarrow> ret)"

definition ERR_lib_symbol_name :: "u32 \<Rightarrow> bytes option" where
  "ERR_lib_symbol_name packed_error
     = (let lib = ERR_GET_LIB packed_error in
        if int lib \<ge> ERR_NUM_LIBS then None else map_option c_text (fst (snd (kLibraryNames ! lib))))"

definition ERR_func_error_string :: "u32 \<Rightarrow> bytes" where
  "ERR_func_error_string packed_error = c_text ''OPENSSL_internal''"

definition err_reason_error_string :: "err_names \<Rightarrow> u32 \<Rightarrow> bool \<Rightarrow> bytes option" where
  "err_reason_error_string names packed_error symbol
     = (let lib = ERR_GET_LIB packed_error; reason = ERR_GET_REASON packed_error in
        if int lib = ERR_LIB_SYS then (if \<not> symbol \<and> reason < 127 then Some (c_strerror names reason) else None)
        else if int reason < ERR_NUM_LIBS
        then (if symbol then map_option c_text (snd (snd (kLibraryNames ! reason))) else Some (c_text (fst (kLibraryNames ! reason))))
        else if reason < 100
        then (if reason = 65 then Some (c_text (if symbol then ''MALLOC_FAILURE'' else ''malloc failure''))
              else if reason = 66
              then Some (c_text (if symbol then ''SHOULD_NOT_HAVE_BEEN_CALLED'' else ''function should not have been called''))
              else if reason = 67 then Some (c_text (if symbol then ''PASSED_NULL_PARAMETER'' else ''passed a null parameter''))
              else if reason = 68 then Some (c_text (if symbol then ''INTERNAL_ERROR'' else ''internal error''))
              else if reason = 69 then Some (c_text (if symbol then ''OVERFLOW'' else ''overflow''))
              else None)
        else err_string_lookup lib reason (reason_values names) (reason_string_data names))"

definition ERR_reason_error_string :: "err_names \<Rightarrow> u32 \<Rightarrow> bytes" where
  "ERR_reason_error_string names packed_error
     = (case err_reason_error_string names packed_error False of None \<Rightarrow> c_text ''unknown error'' | Some ret \<Rightarrow> ret)"

definition ERR_reason_symbol_name :: "err_names \<Rightarrow> u32 \<Rightarrow> bytes option" where
  "ERR_reason_symbol_name names packed_error = err_reason_error_string names packed_error True"

section \<open>Printing\<close>

text \<open>What the formats \<^verbatim>\<open>%u\<close> and \<^verbatim>\<open>%08x\<close> print, and \<^verbatim>\<open>snprintf\<close> of a text into \<open>len\<close> bytes at \<open>buf\<close>.\<close>

definition hex_digit :: "u32 \<Rightarrow> u8" where
  "hex_digit d = (if d < 10 then 48 + ucast d else 87 + ucast d)"

definition hex8 :: "u32 \<Rightarrow> bytes" where
  "hex8 v = map (\<lambda>i. hex_digit (drop_bit (4 * i) v AND 0xf)) [7, 6, 5, 4, 3, 2, 1, 0]"

definition c_snprintf :: "bytes \<Rightarrow> nat \<Rightarrow> bytes \<Rightarrow> bytes" where
  "c_snprintf buf len txt = (if len = 0 then buf else mem_write buf 0 (take (len - 1) txt @ [0]))"

definition err_lib_text :: "u32 \<Rightarrow> bytes" where
  "err_lib_text packed_error
     = (case err_lib_error_string packed_error of
          None \<Rightarrow> take 31 (c_text ''lib('' @ decimal (ERR_GET_LIB packed_error) @ c_text '')'')
        | Some s \<Rightarrow> s)"

definition err_reason_text :: "err_names \<Rightarrow> u32 \<Rightarrow> bytes" where
  "err_reason_text names packed_error
     = (case err_reason_error_string names packed_error False of
          None \<Rightarrow> take 31 (c_text ''reason('' @ decimal (ERR_GET_REASON packed_error) @ c_text '')'')
        | Some s \<Rightarrow> s)"

definition err_text :: "err_names \<Rightarrow> u32 \<Rightarrow> bytes" where
  "err_text names packed_error
     = c_text ''error:'' @ hex8 packed_error @ c_text '':'' @ err_lib_text packed_error @ c_text '':OPENSSL_internal:''
       @ err_reason_text names packed_error"

text \<open>The loop that places the colons still missing; \<open>k\<close> is \<^verbatim>\<open>num_colons - i\<close> and \<open>s\<close> the place searched from.\<close>

fun err_place_colons :: "nat \<Rightarrow> nat \<Rightarrow> nat \<Rightarrow> bytes \<Rightarrow> bytes" where
  "err_place_colons len 0 s buf = buf"
| "err_place_colons len (Suc k) s buf
     = (let last_pos = len - 1 - Suc k in
        case OPENSSL_memchr (c_string (drop s buf)) 58 of
          None \<Rightarrow> mem_write buf last_pos (replicate (Suc k) 58)
        | Some j \<Rightarrow>
            if s + j > last_pos then mem_write buf last_pos (replicate (Suc k) 58)
            else err_place_colons len k (s + j + 1) buf)"

text \<open>The buffer afterwards, \<open>None\<close> when the result is NULL.\<close>

definition ERR_error_string_n :: "err_names \<Rightarrow> u32 \<Rightarrow> bytes \<Rightarrow> nat \<Rightarrow> bytes option" where
  "ERR_error_string_n names packed_error buf len
     = (if len = 0 then None
        else
          let txt = err_text names packed_error;
              buf = c_snprintf buf len txt in
          if length txt \<ge> len
          then (if len \<le> 4 then Some buf else Some (err_place_colons len 4 0 buf))
          else Some buf)"

text \<open>
  The message about one error, and the loop that hands them to the callback; \<open>st\<close> is what the callback changes.
\<close>

definition err_message :: "err_names \<Rightarrow> nat \<Rightarrow> u32 \<Rightarrow> bytes \<Rightarrow> nat \<Rightarrow> bytes \<Rightarrow> int \<Rightarrow> bytes option" where
  "err_message names thread_hash packed_error fname line data flags = do {
     buf \<leftarrow> ERR_error_string_n names packed_error (replicate 120 0) 120;
     Some (c_string (c_snprintf (replicate 1024 0) 1024
       (decimal thread_hash @ c_text '':'' @ c_string buf @ c_text '':'' @ fname @ c_text '':'' @ decimal line @ c_text '':''
        @ (if flags mod 2 = 1 then data else []) @ [10]))) }"

partial_function (option) ERR_print_errors_cb :: "err_names \<Rightarrow> nat \<Rightarrow> (bytes \<Rightarrow> 's \<Rightarrow> (int \<times> 's) option) \<Rightarrow> err_thread \<Rightarrow> 's
    \<Rightarrow> (err_thread \<times> 's) option" where
  [code]: "ERR_print_errors_cb names thread_hash callback t st
     = (case ERR_get_error_line_data t of ((packed_error, fl, data), t) \<Rightarrow>
          if packed_error = 0 then Some (t, st)
          else do {
            (fname, line) \<leftarrow> fl;
            (d, flags) \<leftarrow> data;
            buf2 \<leftarrow> err_message names thread_hash packed_error fname line d flags;
            (r, st) \<leftarrow> callback buf2 st;
            if r \<le> 0 then Some (t, st) else ERR_print_errors_cb names thread_hash callback t st })"

section \<open>The colons\<close>

lemma count_mono: "count_list (take n xs) c \<le> count_list xs c"
  by (metis append_take_drop_id count_list_append le_add1)

lemma count_replicate [simp]: "count_list (replicate k c) c = k"
  by (induction k) auto

lemma mem_fill:
  assumes "p + length w = q" "q < length buf"
  shows "take q (mem_write buf p w) = take p buf @ w" "mem_write buf p w ! q = buf ! q" "length (mem_write buf p w) = length buf"
    "q < n \<Longrightarrow> drop n (mem_write buf p w) = drop n buf"
proof -
  have m: "mem_write buf p w = (take p buf @ w) @ drop q buf" and l: "length (take p buf @ w) = q"
    using assms by (auto simp: mem_write_def)
  show "take q (mem_write buf p w) = take p buf @ w" unfolding m using l by (metis append_eq_conv_conj)
  show "mem_write buf p w ! q = buf ! q" unfolding m by (metis add.right_neutral assms(2) l less_imp_le_nat nth_append_length_plus nth_drop)
  show "length (mem_write buf p w) = length buf" unfolding m using l assms(2) by simp
  show "drop n (mem_write buf p w) = drop n buf" if "q < n" unfolding m using l that by (simp add: drop_append)
qed

lemma place_colons:
  assumes "length buf = n" "len \<le> n" "0 \<notin> set (take (len - 1) buf)" "buf ! (len - 1) = 0" "s + k + 1 \<le> len" "4 \<le> count_list (take s buf) 58 + k"
  shows "length (err_place_colons len k s buf) = n" "drop len (err_place_colons len k s buf) = drop len buf"
    "0 \<notin> set (take (len - 1) (err_place_colons len k s buf))" "err_place_colons len k s buf ! (len - 1) = 0"
    "4 \<le> count_list (take (len - 1) (err_place_colons len k s buf)) 58"
proof -
  have "length (err_place_colons len k s buf) = n \<and> drop len (err_place_colons len k s buf) = drop len buf
    \<and> 0 \<notin> set (take (len - 1) (err_place_colons len k s buf)) \<and> err_place_colons len k s buf ! (len - 1) = 0
    \<and> 4 \<le> count_list (take (len - 1) (err_place_colons len k s buf)) 58"
    using assms
  proof (induction k arbitrary: s)
    case 0
    have "take s buf = take s (take (len - 1) buf)" using 0 by simp
    then have "count_list (take s buf) 58 \<le> count_list (take (len - 1) buf) 58" using count_mono by metis
    then show ?case using 0 by simp
  next
    case (Suc k)
    define p where "p = len - 1 - Suc k"
    have p: "s \<le> p" "p + Suc k = len - 1" "len - 1 < len" using Suc.prems(5) by (auto simp: p_def)
    define m where "m = mem_write buf p (replicate (Suc k) 58)"
    have q: "len - 1 < length buf" "p + length (replicate (Suc k) (58 :: u8)) = len - 1" using Suc.prems(1,2) p by auto
    note f = mem_fill [OF q(2) q(1), folded m_def]
    have l: "length m = n" "drop len m = drop len buf" "m ! (len - 1) = 0"
      using f(2-4) Suc.prems(1,4) p(3) by (auto simp del: One_nat_def)
    note t = f(1)
    have "set (take p buf) \<subseteq> set (take (len - 1) buf)" using p(2) by (intro set_take_subset_set_take) simp
    then have nz: "0 \<notin> set (take (len - 1) m)" using Suc.prems(3) unfolding t by auto
    have "take s buf = take s (take p buf)" using p(1) by simp
    then have "count_list (take s buf) 58 \<le> count_list (take p buf) 58" using count_mono by metis
    then have "4 \<le> count_list (take (len - 1) m) 58" using Suc.prems(6) unfolding t by (simp add: count_list_append)
    then have fin: "length m = n \<and> drop len m = drop len buf \<and> 0 \<notin> set (take (len - 1) m) \<and> m ! (len - 1) = 0
      \<and> 4 \<le> count_list (take (len - 1) m) 58" using l nz by blast
    have e: "err_place_colons len (Suc k) s buf = (case OPENSSL_memchr (c_string (drop s buf)) 58 of None \<Rightarrow> m
      | Some j \<Rightarrow> if s + j > p then m else err_place_colons len k (s + j + 1) buf)"
      by (simp only: err_place_colons.simps Let_def p_def m_def)
    show ?case
    proof (cases "OPENSSL_memchr (c_string (drop s buf)) 58")
      case None
      then show ?thesis using fin unfolding e by (simp del: One_nat_def)
    next
      case (Some j)
      show ?thesis
      proof (cases "s + j > p")
        case True
        then show ?thesis using fin Some unfolding e by (simp del: One_nat_def)
      next
        case False
        have j: "j < length (c_string (drop s buf))" "c_string (drop s buf) ! j = 58" using Some by (auto simp: OPENSSL_memchr_Some)
        then have "drop s buf ! j = 58" "j < length (drop s buf)"
          using takeWhile_nth [of j "\<lambda>c. c \<noteq> 0" "drop s buf"] length_takeWhile_le [of "\<lambda>c. c \<noteq> 0" "drop s buf"] by auto
        then have "take (Suc (s + j)) buf = take (s + j) buf @ [58]" by (simp add: take_Suc_conv_app_nth)
        moreover have "take s buf = take s (take (s + j) buf)" by simp
        then have "count_list (take s buf) 58 \<le> count_list (take (s + j) buf) 58" using count_mono by metis
        ultimately have "4 \<le> count_list (take (s + j + 1) buf) 58 + k" using Suc.prems(6) by simp
        moreover have "s + j + 1 + k + 1 \<le> len" using False p by simp
        ultimately show ?thesis using Suc.IH [of "s + j + 1"] Suc.prems(1-4) Some False unfolding e by (simp del: One_nat_def)
      qed
    qed
  qed
  then show "length (err_place_colons len k s buf) = n" "drop len (err_place_colons len k s buf) = drop len buf"
    "0 \<notin> set (take (len - 1) (err_place_colons len k s buf))" "err_place_colons len k s buf ! (len - 1) = 0"
    "4 \<le> count_list (take (len - 1) (err_place_colons len k s buf)) 58" by auto
qed

section \<open>What is printed is a string\<close>

lemma c_text_nonzero: "0 \<notin> set (c_text s) \<longleftrightarrow> (\<forall>c \<in> set s. (of_char c :: u8) \<noteq> 0)"
  by (auto simp: c_text_def image_iff)

lemma library_names_nonzero: "list_all (\<lambda>p. 0 \<notin> set (c_text (fst p))) kLibraryNames"
  by code_simp

lemma library_name_nonzero: "i < length kLibraryNames \<Longrightarrow> 0 \<notin> set (c_text (fst (kLibraryNames ! i)))"
  using library_names_nonzero by (simp add: list_all_length)

lemma library_count: "int i < ERR_NUM_LIBS \<Longrightarrow> i < length kLibraryNames"
  by (simp add: ERR_NUM_LIBS_def kLibraryNames_def)

lemma hex8_nonzero: "0 \<notin> set (hex8 v)"
proof -
  have "hex_digit (w AND 0xf) \<noteq> 0" for w
  proof -
    have b: "w AND 0xf \<le> 0xf" by (rule word_and_le1)
    then have "unat (w AND 0xf) < 16" by (simp add: word_le_nat_alt)
    then have "unat (ucast (w AND 0xf) :: u8) < 16" by (simp add: unsigned_ucast_eq take_bit_nat_eq_self)
    then have "unat (87 + ucast (w AND 0xf) :: u8) \<noteq> 0" "unat (48 + ucast (w AND 0xf) :: u8) \<noteq> 0"
      by (simp_all add: unat_word_ariths)
    then show ?thesis by (auto simp: hex_digit_def)
  qed
  then show ?thesis by (auto simp: hex8_def)
qed

lemma decimal_nonzero: "0 \<notin> set (decimal n)"
proof (induction n rule: decimal.induct)
  case (1 n)
  have "word_of_nat (48 + n mod 10) \<noteq> (0 :: u8)"
  proof
    assume "word_of_nat (48 + n mod 10) = (0 :: u8)"
    then have "unat (word_of_nat (48 + n mod 10) :: u8) = 0" by simp
    then have "(48 + n mod 10) mod 256 = 0" by (simp only: unat_of_nat) simp
    moreover have "48 + n mod 10 < 256" using mod_less_divisor [of 10 n] by linarith
    ultimately show False by simp
  qed
  then show ?case using 1 by (subst decimal.simps) auto
qed

lemma err_text_nonzero:
  assumes "\<And>n. 0 \<notin> set (c_strerror names n)"
  shows "0 \<notin> set (err_text names e)"
proof -
  have l: "0 \<notin> set (err_lib_text e)"
    using decimal_nonzero by (auto simp: err_lib_text_def err_lib_error_string_def Let_def c_text_nonzero library_name_nonzero library_count
        dest!: in_set_takeD) (auto simp: c_text_def)
  have r: "0 \<notin> set (err_reason_text names e)"
  proof (cases "err_reason_error_string names e False")
    case None
    then show ?thesis using decimal_nonzero by (auto simp: err_reason_text_def dest!: in_set_takeD) (auto simp: c_text_def)
  next
    case (Some s)
    have "0 \<notin> set s"
      using Some assms library_name_nonzero library_count
      by (auto simp: err_reason_error_string_def err_string_lookup_def Let_def split: if_splits option.splits dest: set_takeWhileD)
        (auto simp: c_text_def)
    then show ?thesis using Some by (simp add: err_reason_text_def)
  qed
  show ?thesis using l r hex8_nonzero by (auto simp: err_text_def) (auto simp: c_text_def)
qed

lemma err_text_colons: "4 \<le> count_list (err_text names e) 58"
  by (simp add: err_text_def count_list_append c_text_def)

lemma place_colons_prefix: "len \<le> length buf \<Longrightarrow> k < len \<Longrightarrow> take (len - 1 - k) (err_place_colons len k s buf) = take (len - 1 - k) buf"
proof (induction k arbitrary: s)
  case (Suc k)
  have w: "take (len - 1 - Suc k) (mem_write buf (len - 1 - Suc k) v) = take (len - 1 - Suc k) buf" for v
    using Suc.prems by (simp add: mem_write_def)
  have "take (len - 1 - Suc k) (err_place_colons len k t buf) = take (len - 1 - Suc k) buf" for t
    using Suc.IH [of t] Suc.prems by (metis Suc_lessD diff_le_mono2 le_SucI le_refl min.absorb1 take_take)
  then show ?case using w by (simp add: Let_def del: diff_diff_left split: option.split)
qed simp

lemma c_string_at: "0 \<notin> set (take q m) \<Longrightarrow> q < length m \<Longrightarrow> m ! q = 0 \<Longrightarrow> c_string m = take q m"
  by (metis (mono_tags, lifting) in_set_takeD takeWhile_eq_take_P_nth nth_mem in_set_conv_nth length_take min_less_iff_conj nth_take)

lemma place_colons_cut:
  assumes "len \<le> length b" "4 < len" "0 \<notin> set (take (len - 1) b)" "b ! (len - 1) = 0"
  defines "m \<equiv> err_place_colons len 4 0 b"
  shows "length m = length b" "drop len m = drop len b" "length (c_string m) = len - 1" "4 \<le> count_list (c_string m) 58"
    "take (len - 5) (c_string m) = take (len - 5) (take (len - 1) b)"
proof -
  have "0 + 4 + 1 \<le> len" "4 \<le> count_list (take 0 b) 58 + 4" using assms(2) by auto
  note c = place_colons [OF refl assms(1,3,4) this, folded m_def]
  have m: "c_string m = take (len - 1) m" using c_string_at [OF c(3) _ c(4)] c(1) assms(1,2) by simp
  show "length m = length b" "drop len m = drop len b" "length (c_string m) = len - 1" "4 \<le> count_list (c_string m) 58"
    using c(1,2,5) m assms(1) by auto
  have "take (len - 1 - 4) m = take (len - 1 - 4) b" using place_colons_prefix [of len b 4 0] assms(1,2) unfolding m_def by simp
  then show "take (len - 5) (c_string m) = take (len - 5) (take (len - 1) b)" by (simp add: m min_def)
qed

lemma c_string_terminated: "0 \<notin> set s \<Longrightarrow> c_string (s @ 0 # r) = s"
  by (induction s) auto

lemma snprintf_string:
  assumes "0 \<notin> set s" "0 < len" "len \<le> length buf"
  shows "c_snprintf buf len s = take (len - 1) s @ 0 # drop (Suc (min (len - 1) (length s))) buf"
  using assms by (simp add: c_snprintf_def mem_write_def min.commute)

text \<open>
  C37: \<^verbatim>\<open>ERR_error_string_n\<close> writes a terminated string of less than \<open>len\<close> bytes and no byte beyond the first \<open>len\<close>.  If the
  text fits it is the text; if not, the string is as long as it can be, agrees with the text but for its last four
  bytes at most, and still has the four colons that separate the fields.
\<close>

theorem error_string_exact:
  assumes names: "\<And>n. 0 \<notin> set (c_strerror names n)" and len: "0 < len" "len \<le> length buf"
  shows "\<exists>b. ERR_error_string_n names e buf len = Some b \<and> length b = length buf \<and> drop len b = drop len buf
    \<and> (if length (err_text names e) < len then c_string b = err_text names e
       else length (c_string b) = len - 1 \<and> take (len - 5) (c_string b) = take (len - 5) (err_text names e))
    \<and> (4 < len \<longrightarrow> 4 \<le> count_list (c_string b) 58)"
proof -
  define tx where "tx = err_text names e"
  have nz: "0 \<notin> set tx" using err_text_nonzero names unfolding tx_def by blast
  define b where "b = c_snprintf buf len tx"
  have b: "b = take (len - 1) tx @ 0 # drop (Suc (min (len - 1) (length tx))) buf"
    using snprintf_string [OF nz len] by (simp only: b_def)
  have lb: "length b = length buf" "drop len b = drop len buf" using len by (auto simp: b min_def drop_Cons split: nat.split)
    (rule arg_cong [where f = "\<lambda>n. drop n buf"], linarith)
  show ?thesis
  proof (cases "length tx < len")
    case True
    then have "take (len - 1) tx = tx" by simp
    then have "b = tx @ 0 # drop (Suc (min (len - 1) (length tx))) buf" using b by simp
    then have "c_string b = tx" using c_string_terminated [OF nz] by simp
    then show ?thesis using True lb err_text_colons [of names e] unfolding ERR_error_string_n_def Let_def tx_def [symmetric] b_def [symmetric]
      using len by (simp add: tx_def)
  next
    case False
    then have cut: "length (take (len - 1) tx) = len - 1" "take (len - 1) b = take (len - 1) tx" "b ! (len - 1) = 0"
      using len by (auto simp: b nth_append)
    have nzb: "0 \<notin> set (take (len - 1) b)" using nz cut(2) by (auto dest: in_set_takeD)
    have q: "len - 1 < length b" using len lb by simp
    show ?thesis
    proof (cases "len \<le> 4")
      case True
      then have "ERR_error_string_n names e buf len = Some b" using len False
        unfolding ERR_error_string_n_def Let_def tx_def [symmetric] b_def [symmetric] by simp
      then show ?thesis using True False lb c_string_at [OF nzb q cut(3)] cut(1,2) by (simp add: tx_def)
    next
      case long: False
      have "ERR_error_string_n names e buf len = Some (err_place_colons len 4 0 b)" using len False long
        unfolding ERR_error_string_n_def Let_def tx_def [symmetric] b_def [symmetric] by simp
      moreover have "take (len - 5) v = take (len - 5) (take (len - 1) v)" for v :: bytes by (simp add: min_def)
      then have "take (len - 5) b = take (len - 5) tx" using cut(2) by metis
      ultimately show ?thesis using place_colons_cut [of len b] long lb len nzb cut(3) False by (auto simp: tx_def min_def)
    qed
  qed
qed

definition no_names :: err_names where
  "no_names = \<lparr>reason_values = [], reason_string_data = [], c_strerror = (\<lambda>n. c_text ''?'')\<rparr>"

lemma error_string_exact_witness:
  "\<exists>b. ERR_error_string_n no_names 0x0b000066 (replicate 30 7) 20 = Some b \<and> length b = 30 \<and> drop 20 b = replicate 10 7
    \<and> length (c_string b) = 19 \<and> take 15 (c_string b) = c_text ''error:0b000066:'' \<and> 4 \<le> count_list (c_string b) 58"
proof -
  have n: "0 \<notin> set (c_strerror no_names n)" for n by (simp add: no_names_def c_text_def)
  have "\<not> length (err_text no_names 0x0b000066) < 20" "take 15 (err_text no_names 0x0b000066) = c_text ''error:0b000066:''"
    by code_simp+
  then show ?thesis using error_string_exact [of no_names 20 "replicate 30 7" "0x0b000066", OF n] by (simp add: drop_replicate)
qed

end
