(* ===== verification/Pb_Read.thy ===== *)
theory Pb_Read
  imports Prelude "HOL-Library.Monad_Syntax"
begin

text \<open>
  The input streams of \<^verbatim>\<open>nanopb/pb_decode.c\<close> and the readers of the protocol buffer wire format on them.  A
  stream reads from a buffer or calls a function of the program that has a state of its own; it hands out at most
  \<open>is_left\<close> more bytes.  A reader returns \<open>None\<close> when it would read outside an object or not return, else what it
  stores through its pointers, with \<open>None\<close> for the result \<^verbatim>\<open>false\<close>, and the stream afterwards.
\<close>

section \<open>Streams\<close>

datatype 's pb_source = Buf_read bytes | Callback "'s \<Rightarrow> nat \<Rightarrow> bytes option \<times> 's" 's

record 's pb_istream =
  is_source :: "'s pb_source"
  is_left :: nat
  is_errmsg :: "string option"

type_synonym ('s, 'a) pb_get = "'s pb_istream \<Rightarrow> ('a option \<times> 's pb_istream) option"

definition PB_SET_ERROR :: "'s pb_istream \<Rightarrow> string \<Rightarrow> 's pb_istream" where
  "PB_SET_ERROR stream msg
     = stream\<lparr>is_errmsg := (case is_errmsg stream of None \<Rightarrow> Some msg | Some m \<Rightarrow> Some m)\<rparr>"

definition PB_RETURN_ERROR :: "string \<Rightarrow> ('s, 'a) pb_get" where
  "PB_RETURN_ERROR msg stream = Some (None, PB_SET_ERROR stream msg)"

definition pb_return :: "'a \<Rightarrow> ('s, 'a) pb_get" where
  "pb_return a stream = Some (Some a, stream)"

text \<open>The sequence \<^verbatim>\<open>if (!m) return false; f\<close>.\<close>

definition pb_then :: "('s, 'a) pb_get \<Rightarrow> ('a \<Rightarrow> ('s, 'b) pb_get) \<Rightarrow> ('s, 'b) pb_get" where
  "pb_then m f stream
     = (case m stream of
          None \<Rightarrow> None
        | Some (None, stream) \<Rightarrow> Some (None, stream)
        | Some (Some a, stream) \<Rightarrow> f a stream)"

text \<open>The bytes at \<^verbatim>\<open>stream->state\<close> are those from there to the end of the buffer.\<close>

definition buf_read :: "bytes \<Rightarrow> nat \<Rightarrow> (bytes \<times> bytes) option" where
  "buf_read source count = (if count \<le> length source then Some (take count source, drop count source) else None)"

definition pb_call :: "'s pb_source \<Rightarrow> nat \<Rightarrow> (bytes option \<times> 's pb_source) option" where
  "pb_call source count
     = (case source of
          Buf_read b \<Rightarrow> (case buf_read b count of None \<Rightarrow> None | Some (data, b) \<Rightarrow> Some (Some data, Buf_read b))
        | Callback f st \<Rightarrow> (case f st count of (data, st) \<Rightarrow> Some (data, Callback f st)))"

text \<open>The part of \<^verbatim>\<open>pb_read\<close> after the loop over \<^verbatim>\<open>tmp\<close>.\<close>

definition pb_read_call :: "nat \<Rightarrow> ('s, bytes) pb_get" where
  "pb_read_call count stream
     = (if is_left stream < count then PB_RETURN_ERROR ''end-of-stream'' stream
        else case pb_call (is_source stream) count of
               None \<Rightarrow> None
             | Some (None, source) \<Rightarrow> PB_RETURN_ERROR ''io error'' (stream\<lparr>is_source := source\<rparr>)
             | Some (Some data, source) \<Rightarrow> Some (Some data, stream\<lparr>is_source := source, is_left := is_left stream - count\<rparr>))"

text \<open>\<^verbatim>\<open>pb_read\<close> into a buffer that is not NULL.\<close>

definition pb_read_data :: "nat \<Rightarrow> ('s, bytes) pb_get" where
  "pb_read_data count = (if count = 0 then pb_return [] else pb_read_call count)"

fun pb_skip_tmp :: "nat \<Rightarrow> ('s, unit) pb_get" where
  "pb_skip_tmp count
     = (if count > 16 then pb_then (pb_read_data 16) (\<lambda>_. pb_skip_tmp (count - 16))
        else pb_then (pb_read_data count) (\<lambda>_. pb_return ()))"

declare pb_skip_tmp.simps [simp del]

text \<open>\<^verbatim>\<open>pb_read\<close>; \<open>buf\<close> says if the buffer is not NULL, and the bytes read are only stored then.\<close>

definition pb_read :: "bool \<Rightarrow> nat \<Rightarrow> ('s, bytes) pb_get" where
  "pb_read buf count stream
     = (if count = 0 then pb_return [] stream
        else if \<not> buf \<and> (case is_source stream of Buf_read _ \<Rightarrow> False | Callback _ _ \<Rightarrow> True)
        then pb_then (pb_skip_tmp count) (\<lambda>_. pb_return []) stream
        else pb_read_call count stream)"

definition pb_readbyte :: "('s, u8) pb_get" where
  "pb_readbyte stream
     = (if is_left stream = 0 then PB_RETURN_ERROR ''end-of-stream'' stream
        else case pb_call (is_source stream) 1 of
               None \<Rightarrow> None
             | Some (None, source) \<Rightarrow> PB_RETURN_ERROR ''io error'' (stream\<lparr>is_source := source\<rparr>)
             | Some (Some data, source) \<Rightarrow> Some (Some (hd data), stream\<lparr>is_source := source, is_left := is_left stream - 1\<rparr>))"

definition pb_istream_from_buffer :: "bytes \<Rightarrow> nat \<Rightarrow> 's pb_istream" where
  "pb_istream_from_buffer buf bufsize = \<lparr>is_source = Buf_read buf, is_left = bufsize, is_errmsg = None\<rparr>"

section \<open>Variable-length integers\<close>

text \<open>
  The loop over the bytes after the first; \<open>bitpos\<close> is an \<^verbatim>\<open>uint_fast8_t\<close>, eight bits wide.  The result has the
  last byte, \<open>bitpos\<close> and the result after it.
\<close>

partial_function (option) varint32_loop :: "u8 \<Rightarrow> u32 \<Rightarrow> 's pb_istream \<Rightarrow> ((u8 \<times> u8 \<times> u32) option \<times> 's pb_istream) option" where
  [code]: "varint32_loop bitpos result stream
     = (case pb_readbyte stream of
          None \<Rightarrow> None
        | Some (None, stream) \<Rightarrow> Some (None, stream)
        | Some (Some b, stream) \<Rightarrow>
            (let sign_extension = (if bitpos < 63 then 0xFF else 0x01) in
             if bitpos \<ge> 32 \<and> b AND 0x7F \<noteq> 0 \<and> (drop_bit 31 result = 0 \<or> b \<noteq> sign_extension)
             then PB_RETURN_ERROR ''varint overflow'' stream
             else
               let result = (if bitpos \<ge> 32 then result else result OR push_bit (unat bitpos) (ucast (b AND 0x7F)));
                   bitpos = bitpos + 7 in
               if b AND 0x80 \<noteq> 0 then varint32_loop bitpos result stream
               else Some (Some (b, bitpos, result), stream)))"

text \<open>The result is also whether \<^verbatim>\<open>*eof\<close> is set.\<close>

definition pb_decode_varint32_eof :: "'s pb_istream \<Rightarrow> (u32 option \<times> bool \<times> 's pb_istream) option" where
  "pb_decode_varint32_eof stream
     = (case pb_readbyte stream of
          None \<Rightarrow> None
        | Some (None, stream) \<Rightarrow> Some (None, is_left stream = 0, stream)
        | Some (Some b, stream) \<Rightarrow>
            if b AND 0x80 = 0 then Some (Some (ucast b), False, stream)
            else
              case varint32_loop 7 (ucast (b AND 0x7F)) stream of
                None \<Rightarrow> None
              | Some (None, stream) \<Rightarrow> Some (None, False, stream)
              | Some (Some (b, bitpos, result), stream) \<Rightarrow>
                  if bitpos = 35 \<and> b AND 0x70 \<noteq> 0
                  then Some (None, False, PB_SET_ERROR stream ''varint overflow'')
                  else Some (Some result, False, stream))"

definition pb_decode_varint32 :: "('s, u32) pb_get" where
  "pb_decode_varint32 stream
     = (case pb_decode_varint32_eof stream of None \<Rightarrow> None | Some (r, _, stream) \<Rightarrow> Some (r, stream))"

partial_function (option) varint_loop :: "u8 \<Rightarrow> u64 \<Rightarrow> 's pb_istream \<Rightarrow> (u64 option \<times> 's pb_istream) option" where
  [code]: "varint_loop bitpos result stream
     = (if bitpos \<ge> 64 then PB_RETURN_ERROR ''varint overflow'' stream
        else case pb_readbyte stream of
               None \<Rightarrow> None
             | Some (None, stream) \<Rightarrow> Some (None, stream)
             | Some (Some b, stream) \<Rightarrow>
                 (let result = result OR push_bit (unat bitpos) (ucast (b AND 0x7F)); bitpos = bitpos + 7 in
                  if b AND 0x80 \<noteq> 0 then varint_loop bitpos result stream
                  else Some (Some result, stream)))"

definition pb_decode_varint :: "('s, u64) pb_get" where
  "pb_decode_varint = varint_loop 0 0"

text \<open>A signed integer is its 64 bits.\<close>

definition pb_decode_svarint :: "('s, u64) pb_get" where
  "pb_decode_svarint = pb_then pb_decode_varint (\<lambda>v. pb_return (if v AND 1 \<noteq> 0 then NOT (drop_bit 1 v) else drop_bit 1 v))"

definition pb_decode_fixed32 :: "('s, u32) pb_get" where
  "pb_decode_fixed32 = pb_then (pb_read True 4) (\<lambda>bs. pb_return
     (push_bit 0 (ucast (bs ! 0)) OR push_bit 8 (ucast (bs ! 1)) OR push_bit 16 (ucast (bs ! 2)) OR push_bit 24 (ucast (bs ! 3))))"

definition pb_decode_fixed64 :: "('s, u64) pb_get" where
  "pb_decode_fixed64 = pb_then (pb_read True 8) (\<lambda>bs. pb_return
     (push_bit 0 (ucast (bs ! 0)) OR push_bit 8 (ucast (bs ! 1)) OR push_bit 16 (ucast (bs ! 2)) OR push_bit 24 (ucast (bs ! 3))
      OR push_bit 32 (ucast (bs ! 4)) OR push_bit 40 (ucast (bs ! 5)) OR push_bit 48 (ucast (bs ! 6)) OR push_bit 56 (ucast (bs ! 7))))"

section \<open>Fields\<close>

definition PB_WT_VARINT :: u32 where "PB_WT_VARINT = 0"
definition PB_WT_64BIT :: u32 where "PB_WT_64BIT = 1"
definition PB_WT_STRING :: u32 where "PB_WT_STRING = 2"
definition PB_WT_32BIT :: u32 where "PB_WT_32BIT = 5"

partial_function (option) pb_skip_varint :: "'s pb_istream \<Rightarrow> (unit option \<times> 's pb_istream) option" where
  [code]: "pb_skip_varint stream
     = (case pb_read True 1 stream of
          None \<Rightarrow> None
        | Some (None, stream) \<Rightarrow> Some (None, stream)
        | Some (Some bs, stream) \<Rightarrow> if hd bs AND 0x80 \<noteq> 0 then pb_skip_varint stream else Some (Some (), stream))"

definition pb_skip_string :: "('s, unit) pb_get" where
  "pb_skip_string = pb_then pb_decode_varint32 (\<lambda>len. pb_then (pb_read False (unat len)) (\<lambda>_. pb_return ()))"

text \<open>The wire type and the tag, and whether \<^verbatim>\<open>*eof\<close> is set.\<close>

definition pb_decode_tag :: "'s pb_istream \<Rightarrow> ((u32 \<times> u32) option \<times> bool \<times> 's pb_istream) option" where
  "pb_decode_tag stream
     = (case pb_decode_varint32_eof stream of
          None \<Rightarrow> None
        | Some (None, eof, stream) \<Rightarrow> Some (None, eof, stream)
        | Some (Some temp, eof, stream) \<Rightarrow>
            if temp = 0 then Some (None, True, stream)
            else Some (Some (temp AND 7, drop_bit 3 temp), eof, stream))"

definition pb_skip_field :: "u32 \<Rightarrow> ('s, unit) pb_get" where
  "pb_skip_field wire_type
     = (if wire_type = PB_WT_VARINT then pb_skip_varint
        else if wire_type = PB_WT_64BIT then pb_then (pb_read False 8) (\<lambda>_. pb_return ())
        else if wire_type = PB_WT_STRING then pb_skip_string
        else if wire_type = PB_WT_32BIT then pb_then (pb_read False 4) (\<lambda>_. pb_return ())
        else PB_RETURN_ERROR ''invalid wire_type'')"

text \<open>The loop that copies a varint; \<open>room\<close> is how many more bytes the buffer takes.\<close>

fun raw_varint :: "nat \<Rightarrow> ('s, bytes) pb_get" where
  "raw_varint 0 = (\<lambda>stream. Some (None, stream))"
| "raw_varint (Suc room)
     = pb_then (pb_read True 1) (\<lambda>bs. if hd bs AND 0x80 \<noteq> 0 then pb_then (raw_varint room) (\<lambda>r. pb_return (hd bs # r)) else pb_return bs)"

definition read_raw_value :: "u32 \<Rightarrow> nat \<Rightarrow> ('s, bytes) pb_get" where
  "read_raw_value wire_type max_size
     = (if wire_type = PB_WT_VARINT then raw_varint max_size
        else if wire_type = PB_WT_64BIT then pb_read True 8
        else if wire_type = PB_WT_32BIT then pb_read True 4
        else PB_RETURN_ERROR ''invalid wire_type'')"

section \<open>Substreams\<close>

definition pb_make_string_substream :: "('s, 's pb_istream) pb_get" where
  "pb_make_string_substream
     = pb_then pb_decode_varint32 (\<lambda>sz stream.
         if is_left stream < unat sz then PB_RETURN_ERROR ''parent stream too short'' stream
         else Some (Some (stream\<lparr>is_left := unat sz\<rparr>), stream\<lparr>is_left := is_left stream - unat sz\<rparr>))"

definition pb_close_string_substream :: "'s pb_istream \<Rightarrow> ('s, unit) pb_get" where
  "pb_close_string_substream substream stream
     = (case (if is_left substream \<noteq> 0 then pb_read False (is_left substream) substream else Some (Some [], substream)) of
          None \<Rightarrow> None
        | Some (None, _) \<Rightarrow> Some (None, stream)
        | Some (Some _, substream) \<Rightarrow>
            Some (Some (), stream\<lparr>is_source := is_source substream, is_errmsg := is_errmsg substream\<rparr>))"

end
