(* ===== verification/Pb_Wire.thy ===== *)
theory Pb_Wire
  imports Pb_Read
begin

text \<open>
  What the readers of \<^verbatim>\<open>pb_decode.c\<close> compute, as functions on the list of the bytes that a stream delivers, whether
  it is a buffer or a function of the program.
\<close>

section \<open>Streams that deliver a list of bytes\<close>

coinductive delivers :: "'s pb_source \<Rightarrow> bytes \<Rightarrow> bool" where
  delivers: "(\<forall>n. 0 < n \<longrightarrow> n \<le> length xs \<longrightarrow> (\<exists>src'. pb_call src n = Some (Some (take n xs), src') \<and> delivers src' (drop n xs)))
    \<Longrightarrow> delivers src xs"

lemma delivers_call:
  assumes "delivers src xs" "0 < n" "n \<le> length xs"
  obtains src' where "pb_call src n = Some (Some (take n xs), src')" "delivers src' (drop n xs)"
  using assms(1) by cases (use assms(2,3) that in blast)

lemma delivers_buffer: "delivers (Buf_read (xs @ r)) xs"
  by (coinduction arbitrary: xs) (auto simp: pb_call_def buf_read_def)

lemma delivers_prefix: "delivers src (xs @ ys) \<Longrightarrow> delivers src xs"
proof (coinduction arbitrary: src xs)
  case (delivers src xs)
  have "\<exists>src'. pb_call src n = Some (Some (take n xs), src') \<and> delivers src' (drop n xs @ ys)" if n: "0 < n" "n \<le> length xs" for n
  proof -
    have "n \<le> length (xs @ ys)" using n(2) by simp
    then obtain src' where "pb_call src n = Some (Some (take n (xs @ ys)), src')" "delivers src' (drop n (xs @ ys))"
      by (rule delivers_call [OF delivers n(1)])
    then show ?thesis using n(2) by (intro exI [of _ src']) simp
  qed
  then show ?case by simp metis
qed

definition stream_at :: "'s pb_istream \<Rightarrow> bytes \<Rightarrow> bytes \<Rightarrow> bool" where
  "stream_at s xs r \<longleftrightarrow> is_left s = length xs \<and> delivers (is_source s) (xs @ r)"

lemma stream_at_buffer: "stream_at (pb_istream_from_buffer (xs @ ys) (length xs)) xs []"
  by (simp add: stream_at_def pb_istream_from_buffer_def delivers_buffer)

section \<open>Readers and functions on lists\<close>

type_synonym 'a parse = "bytes \<Rightarrow> ('a \<times> bytes) option"

definition implements :: "('s, 'a) pb_get \<Rightarrow> 'a parse \<Rightarrow> bool" where
  "implements g p \<longleftrightarrow> (\<forall>s xs r. stream_at s xs r \<longrightarrow>
     (case p xs of
        None \<Rightarrow> \<exists>s'. g s = Some (None, s')
      | Some (a, ys) \<Rightarrow> \<exists>s'. g s = Some (Some a, s') \<and> stream_at s' ys r \<and> is_errmsg s' = is_errmsg s))"

named_theorems implements_intro "readers against functions on lists"

lemma implementsI:
  assumes "\<And>s xs r. stream_at s xs r \<Longrightarrow> p xs = None \<Longrightarrow> \<exists>s'. g s = Some (None, s')"
    and "\<And>s xs r a ys. stream_at s xs r \<Longrightarrow> p xs = Some (a, ys) \<Longrightarrow>
      \<exists>s'. g s = Some (Some a, s') \<and> stream_at s' ys r \<and> is_errmsg s' = is_errmsg s"
  shows "implements g p"
  unfolding implements_def using assms by (auto split: option.split)

lemma implements_None: "implements g p \<Longrightarrow> stream_at s xs r \<Longrightarrow> p xs = None \<Longrightarrow> \<exists>s'. g s = Some (None, s')"
  by (fastforce simp: implements_def)

lemma implements_Some:
  assumes "implements g p" "stream_at s xs r" "p xs = Some (a, ys)"
  obtains s' where "g s = Some (Some a, s')" "stream_at s' ys r" "is_errmsg s' = is_errmsg s"
  using assms by (fastforce simp: implements_def)

definition parse_return :: "'a \<Rightarrow> 'a parse" where
  "parse_return a xs = Some (a, xs)"

definition parse_then :: "'a parse \<Rightarrow> ('a \<Rightarrow> 'b parse) \<Rightarrow> 'b parse" where
  "parse_then p f xs = (case p xs of None \<Rightarrow> None | Some (a, ys) \<Rightarrow> f a ys)"

definition parse_take :: "nat \<Rightarrow> bytes parse" where
  "parse_take n xs = (if n \<le> length xs then Some (take n xs, drop n xs) else None)"

lemma implements_return [implements_intro]: "implements (pb_return a) (parse_return a)"
  by (simp add: implements_def pb_return_def parse_return_def)

lemma implements_error [implements_intro]: "implements (PB_RETURN_ERROR msg) (\<lambda>_. None)"
  by (simp add: implements_def PB_RETURN_ERROR_def)

lemma implements_then [implements_intro]:
  assumes "implements m p" "\<And>a. implements (f a) (q a)"
  shows "implements (pb_then m f) (parse_then p q)"
proof (rule implementsI)
  fix s :: "'a pb_istream" and xs r
  assume at: "stream_at s xs r" and n: "parse_then p q xs = None"
  show "\<exists>s'. pb_then m f s = Some (None, s')"
  proof (cases "p xs")
    case None
    then show ?thesis using implements_None [OF assms(1) at] by (auto simp: pb_then_def)
  next
    case (Some ay)
    obtain a ys where ay: "p xs = Some (a, ys)" using Some by (cases ay) auto
    then obtain s' where "m s = Some (Some a, s')" "stream_at s' ys r" using implements_Some [OF assms(1) at ay] by metis
    then show ?thesis using implements_None [OF assms(2), of s' ys r a] n ay by (auto simp: pb_then_def parse_then_def)
  qed
next
  fix s :: "'a pb_istream" and xs r b zs
  assume at: "stream_at s xs r" and "parse_then p q xs = Some (b, zs)"
  then obtain a ys where ay: "p xs = Some (a, ys)" and b: "q a ys = Some (b, zs)"
    by (auto simp: parse_then_def split: option.splits)
  obtain s' where s': "m s = Some (Some a, s')" "stream_at s' ys r" "is_errmsg s' = is_errmsg s"
    using implements_Some [OF assms(1) at ay] by metis
  then show "\<exists>s'. pb_then m f s = Some (Some b, s') \<and> stream_at s' zs r \<and> is_errmsg s' = is_errmsg s"
    using implements_Some [OF assms(2) s'(2) b] by (simp add: pb_then_def) metis
qed

section \<open>The readers\<close>

lemma implements_call [implements_intro]:
  assumes "0 < n" shows "implements (pb_read_call n) (parse_take n)"
proof (rule implementsI)
  fix s :: "'a pb_istream" and xs r
  assume "stream_at s xs r" "parse_take n xs = None"
  then show "\<exists>s'. pb_read_call n s = Some (None, s')"
    by (auto simp: stream_at_def pb_read_call_def parse_take_def PB_RETURN_ERROR_def split: if_splits)
next
  fix s :: "'a pb_istream" and xs r a ys
  assume at: "stream_at s xs r" and p: "parse_take n xs = Some (a, ys)"
  have n: "n \<le> length xs" "a = take n xs" "ys = drop n xs" using p by (auto simp: parse_take_def split: if_splits)
  have d: "delivers (is_source s) (xs @ r)" "n \<le> length (xs @ r)" using at n by (auto simp: stream_at_def)
  obtain src' where "pb_call (is_source s) n = Some (Some (take n (xs @ r)), src')" "delivers src' (drop n (xs @ r))"
    by (rule delivers_call [OF d(1) assms d(2)])
  then have "pb_call (is_source s) n = Some (Some (take n xs), src')" "delivers src' (drop n xs @ r)" using n(1) by simp_all
  then show "\<exists>s'. pb_read_call n s = Some (Some a, s') \<and> stream_at s' ys r \<and> is_errmsg s' = is_errmsg s"
    using at n by (auto simp: pb_read_call_def stream_at_def)
qed

lemma parse_take_0: "parse_take 0 = parse_return []"
  by (simp add: parse_take_def parse_return_def fun_eq_iff)

lemma implements_read_data [implements_intro]: "implements (pb_read_data n) (parse_take n)"
  by (cases "n = 0") (auto simp: pb_read_data_def parse_take_0 intro: implements_intro)

text \<open>The loop over \<^verbatim>\<open>tmp\<close> skips as many bytes as were asked for.\<close>

definition parse_skip :: "nat \<Rightarrow> unit parse" where
  "parse_skip n xs = (if n \<le> length xs then Some ((), drop n xs) else None)"

lemma parse_skip_split: "parse_then (parse_take m) (\<lambda>_. parse_skip k) = parse_skip (m + k)"
  by (auto simp: parse_then_def parse_take_def parse_skip_def fun_eq_iff add.commute)

lemma parse_take_skip: "parse_then (parse_take n) (\<lambda>_. parse_return ()) = parse_skip n"
  by (auto simp: parse_then_def parse_take_def parse_skip_def parse_return_def fun_eq_iff)

lemma implements_skip_tmp: "implements (pb_skip_tmp n :: ('s, unit) pb_get) (parse_skip n)"
proof (induction n rule: pb_skip_tmp.induct)
  case (1 n)
  show ?case
  proof (cases "n > 16")
    case True
    have "implements (pb_then (pb_read_data 16) (\<lambda>_. pb_skip_tmp (n - 16)) :: ('s, unit) pb_get)
        (parse_then (parse_take 16) (\<lambda>_. parse_skip (n - 16)))"
      using 1 [OF True] by (intro implements_intro)
    then show ?thesis using True by (simp add: pb_skip_tmp.simps [of n] parse_skip_split)
  next
    case False
    have "implements (pb_then (pb_read_data n) (\<lambda>_. pb_return ()) :: ('s, unit) pb_get)
        (parse_then (parse_take n) (\<lambda>_. parse_return ()))"
      by (intro implements_intro)
    then show ?thesis using False by (simp add: pb_skip_tmp.simps [of n] parse_take_skip)
  qed
qed

lemma pb_read_True: "pb_read True n = (if n = 0 then pb_return [] else pb_read_call n)"
  by (simp add: pb_read_def fun_eq_iff)

lemma implements_read [implements_intro]: "implements (pb_read True n) (parse_take n)"
  by (simp add: pb_read_True parse_take_0 implements_return implements_call)

text \<open>Skipping: what a buffer would have given is not stored.\<close>

lemma implements_skip [implements_intro]: "implements (pb_then (pb_read False n) (\<lambda>_. pb_return ())) (parse_skip n)"
proof (rule implementsI)
  fix s :: "'a pb_istream" and xs r
  assume at: "stream_at s xs r" and p: "parse_skip n xs = None"
  have n: "n \<noteq> 0" and t: "parse_take n xs = None" using p by (auto simp: parse_skip_def parse_take_def split: if_splits)
  show "\<exists>s'. pb_then (pb_read False n) (\<lambda>_. pb_return ()) s = Some (None, s')"
    using implements_None [OF implements_call at t] implements_None [OF implements_skip_tmp at p] n
    by (auto simp: pb_then_def pb_read_def split: pb_source.split)
next
  fix s :: "'a pb_istream" and xs r a ys
  assume at: "stream_at s xs r" and p: "parse_skip n xs = Some (a, ys)"
  then have t: "parse_take n xs = Some (take n xs, ys)" by (auto simp: parse_skip_def parse_take_def split: if_splits)
  show "\<exists>s'. pb_then (pb_read False n) (\<lambda>_. pb_return ()) s = Some (Some a, s') \<and> stream_at s' ys r \<and> is_errmsg s' = is_errmsg s"
  proof (cases "n = 0")
    case True
    then show ?thesis using at p by (auto simp: pb_then_def pb_read_def pb_return_def parse_skip_def)
  next
    case False
    then show ?thesis
      using implements_Some [OF implements_call at t] implements_Some [OF implements_skip_tmp at p]
      by (cases "is_source s") (fastforce simp: pb_then_def pb_read_def pb_return_def)+
  qed
qed

section \<open>Variable-length integers\<close>

fun parse_byte :: "u8 parse" where
  "parse_byte [] = None"
| "parse_byte (b # xs) = Some (b, xs)"

lemma readbyte_Nil: "stream_at s [] r \<Longrightarrow> pb_readbyte s = Some (None, PB_SET_ERROR s ''end-of-stream'')"
  by (simp add: stream_at_def pb_readbyte_def PB_RETURN_ERROR_def)

lemma readbyte_Cons:
  assumes "stream_at s (b # xs) r"
  obtains s' where "pb_readbyte s = Some (Some b, s')" "stream_at s' xs r" "is_errmsg s' = is_errmsg s"
proof -
  have d: "delivers (is_source s) (b # xs @ r)" and l: "is_left s = Suc (length xs)" using assms by (auto simp: stream_at_def)
  obtain src' where "pb_call (is_source s) 1 = Some (Some (take 1 (b # xs @ r)), src')" "delivers src' (drop 1 (b # xs @ r))"
    by (rule delivers_call [OF d, of 1]) simp_all
  then have "pb_readbyte s = Some (Some b, s\<lparr>is_source := src', is_left := length xs\<rparr>)" "delivers src' (xs @ r)"
    using l by (simp_all add: pb_readbyte_def)
  then show ?thesis using that by (simp add: stream_at_def)
qed

lemma implements_readbyte [implements_intro]: "implements pb_readbyte parse_byte"
proof (rule implementsI)
  show "\<exists>s'. pb_readbyte s = Some (None, s')" if "stream_at s xs r" "parse_byte xs = None" for s :: "'a pb_istream" and xs r
    using that readbyte_Nil by (cases xs) auto
  show "\<exists>s'. pb_readbyte s = Some (Some a, s') \<and> stream_at s' ys r \<and> is_errmsg s' = is_errmsg s"
    if "stream_at s xs r" "parse_byte xs = Some (a, ys)" for s :: "'a pb_istream" and xs r a ys
    using that by (cases xs) (auto elim: readbyte_Cons)
qed

text \<open>The loops on lists.\<close>

fun parse_varint32_loop :: "u8 \<Rightarrow> u32 \<Rightarrow> (u8 \<times> u8 \<times> u32) parse" where
  "parse_varint32_loop bitpos result [] = None"
| "parse_varint32_loop bitpos result (b # xs)
     = (if bitpos \<ge> 32 \<and> b AND 0x7F \<noteq> 0 \<and> (drop_bit 31 result = 0 \<or> b \<noteq> (if bitpos < 63 then 0xFF else 0x01)) then None
        else let res = (if bitpos \<ge> 32 then result else result OR push_bit (unat bitpos) (ucast (b AND 0x7F))) in
          if b AND 0x80 \<noteq> 0 then parse_varint32_loop (bitpos + 7) res xs
          else Some ((b, bitpos + 7, res), xs))"

definition parse_varint32 :: "u32 parse" where
  "parse_varint32 xs
     = (case xs of
          [] \<Rightarrow> None
        | b # ys \<Rightarrow>
            if b AND 0x80 = 0 then Some (ucast b, ys)
            else case parse_varint32_loop 7 (ucast (b AND 0x7F)) ys of
                   None \<Rightarrow> None
                 | Some ((b, bitpos, res), zs) \<Rightarrow> if bitpos = 35 \<and> b AND 0x70 \<noteq> 0 then None else Some (res, zs))"

fun parse_varint_loop :: "u8 \<Rightarrow> u64 \<Rightarrow> u64 parse" where
  "parse_varint_loop bitpos result [] = None"
| "parse_varint_loop bitpos result (b # xs)
     = (if bitpos \<ge> 64 then None
        else let res = result OR push_bit (unat bitpos) (ucast (b AND 0x7F)) in
          if b AND 0x80 \<noteq> 0 then parse_varint_loop (bitpos + 7) res xs else Some (res, xs))"

fun parse_skip_varint :: "unit parse" where
  "parse_skip_varint [] = None"
| "parse_skip_varint (b # xs) = (if b AND 0x80 \<noteq> 0 then parse_skip_varint xs else Some ((), xs))"

lemma implements_varint32_loop: "implements (varint32_loop bitpos result) (parse_varint32_loop bitpos result)"
proof -
  have "case parse_varint32_loop bitpos result xs of
        None \<Rightarrow> \<exists>s'. varint32_loop bitpos result s = Some (None, s')
      | Some (a, ys) \<Rightarrow> \<exists>s'. varint32_loop bitpos result s = Some (Some a, s') \<and> stream_at s' ys r \<and> is_errmsg s' = is_errmsg s"
    if "stream_at s xs r" for xs r and s :: "'a pb_istream"
    using that
  proof (induction xs arbitrary: s bitpos result)
    case Nil
    then show ?case by (simp add: varint32_loop.simps [of bitpos result] readbyte_Nil)
  next
    case (Cons b xs)
    obtain s' where s': "pb_readbyte s = Some (Some b, s')" "stream_at s' xs r" "is_errmsg s' = is_errmsg s"
      using Cons.prems by (rule readbyte_Cons)
    define res where "res = (if bitpos \<ge> 32 then result else result OR push_bit (unat bitpos) (ucast (b AND 0x7F)))"
    define C where "C \<longleftrightarrow> bitpos \<ge> 32 \<and> b AND 0x7F \<noteq> 0 \<and> (drop_bit 31 result = 0 \<or> b \<noteq> (if bitpos < 63 then 0xFF else 0x01))"
    have e: "varint32_loop bitpos result s = (if C then PB_RETURN_ERROR ''varint overflow'' s'
        else if b AND 0x80 \<noteq> 0 then varint32_loop (bitpos + 7) res s' else Some (Some (b, bitpos + 7, res), s'))"
      by (simp only: varint32_loop.simps [of bitpos result s] s'(1) option.case prod.case Let_def res_def C_def)
    have p: "parse_varint32_loop bitpos result (b # xs) = (if C then None
        else if b AND 0x80 \<noteq> 0 then parse_varint32_loop (bitpos + 7) res xs else Some ((b, bitpos + 7, res), xs))"
      by (simp only: parse_varint32_loop.simps Let_def res_def C_def)
    show ?case unfolding e p using s' Cons.IH [OF s'(2), of "bitpos + 7" res] by (auto simp: PB_RETURN_ERROR_def split: option.split)
  qed
  then show ?thesis by (simp add: implements_def)
qed

lemma implements_varint_loop: "implements (varint_loop bitpos result) (parse_varint_loop bitpos result)"
proof -
  have "case parse_varint_loop bitpos result xs of
        None \<Rightarrow> \<exists>s'. varint_loop bitpos result s = Some (None, s')
      | Some (a, ys) \<Rightarrow> \<exists>s'. varint_loop bitpos result s = Some (Some a, s') \<and> stream_at s' ys r \<and> is_errmsg s' = is_errmsg s"
    if "stream_at s xs r" for xs r and s :: "'a pb_istream"
    using that
  proof (induction xs arbitrary: s bitpos result)
    case Nil
    then show ?case by (simp add: varint_loop.simps [of bitpos result] readbyte_Nil PB_RETURN_ERROR_def)
  next
    case (Cons b xs)
    obtain s' where s': "pb_readbyte s = Some (Some b, s')" "stream_at s' xs r" "is_errmsg s' = is_errmsg s"
      using Cons.prems by (rule readbyte_Cons)
    define res where "res = result OR push_bit (unat bitpos) (ucast (b AND 0x7F))"
    have e: "varint_loop bitpos result s = (if bitpos \<ge> 64 then PB_RETURN_ERROR ''varint overflow'' s
        else if b AND 0x80 \<noteq> 0 then varint_loop (bitpos + 7) res s' else Some (Some res, s'))"
      by (simp only: varint_loop.simps [of bitpos result s] s'(1) option.case prod.case Let_def res_def)
    have p: "parse_varint_loop bitpos result (b # xs) = (if bitpos \<ge> 64 then None
        else if b AND 0x80 \<noteq> 0 then parse_varint_loop (bitpos + 7) res xs else Some (res, xs))"
      by (simp only: parse_varint_loop.simps Let_def res_def)
    show ?case unfolding e p using s' Cons.IH [OF s'(2), of "bitpos + 7" res] by (auto simp: PB_RETURN_ERROR_def split: option.split)
  qed
  then show ?thesis by (simp add: implements_def)
qed

definition parse_varint :: "u64 parse" where
  "parse_varint = parse_varint_loop 0 0"

lemma implements_varint [implements_intro]: "implements pb_decode_varint parse_varint"
  by (simp add: pb_decode_varint_def parse_varint_def implements_varint_loop)

lemma varint32_eof_at:
  assumes "stream_at s xs r"
  shows "case parse_varint32 xs of
      None \<Rightarrow> \<exists>s'. pb_decode_varint32_eof s = Some (None, xs = [], s')
    | Some (a, ys) \<Rightarrow> \<exists>s'. pb_decode_varint32_eof s = Some (Some a, False, s') \<and> stream_at s' ys r \<and> is_errmsg s' = is_errmsg s"
proof (cases xs)
  case Nil
  then have "pb_readbyte s = Some (None, PB_SET_ERROR s ''end-of-stream'')" "is_left s = 0"
    using assms readbyte_Nil by (auto simp: stream_at_def)
  then show ?thesis using Nil by (simp add: pb_decode_varint32_eof_def parse_varint32_def PB_SET_ERROR_def)
next
  case (Cons b ys)
  obtain s' where s': "pb_readbyte s = Some (Some b, s')" "stream_at s' ys r" "is_errmsg s' = is_errmsg s"
    using assms unfolding Cons by (rule readbyte_Cons)
  show ?thesis
  proof (cases "parse_varint32_loop 7 (ucast (b AND 0x7F)) ys")
    case None
    then show ?thesis using s' implements_None [OF implements_varint32_loop s'(2) None]
      by (auto simp: pb_decode_varint32_eof_def parse_varint32_def Cons)
  next
    case (Some a)
    obtain c bp res zs where p: "parse_varint32_loop 7 (ucast (b AND 0x7F)) ys = Some ((c, bp, res), zs)"
      using Some by (cases a) auto
    obtain t where "varint32_loop 7 (ucast (b AND 0x7F)) s' = Some (Some (c, bp, res), t)" "stream_at t zs r" "is_errmsg t = is_errmsg s'"
      using implements_Some [OF implements_varint32_loop s'(2) p] by metis
    then show ?thesis using s' p by (auto simp: pb_decode_varint32_eof_def parse_varint32_def Cons)
  qed
qed

lemma implements_varint32 [implements_intro]: "implements pb_decode_varint32 parse_varint32"
proof (rule implementsI)
  show "\<exists>s'. pb_decode_varint32 s = Some (None, s')" if "stream_at s xs r" "parse_varint32 xs = None" for s :: "'a pb_istream" and xs r
    using varint32_eof_at [OF that(1)] that(2) by (auto simp: pb_decode_varint32_def)
  show "\<exists>s'. pb_decode_varint32 s = Some (Some a, s') \<and> stream_at s' ys r \<and> is_errmsg s' = is_errmsg s"
    if "stream_at s xs r" "parse_varint32 xs = Some (a, ys)" for s :: "'a pb_istream" and xs r a ys
    using varint32_eof_at [OF that(1)] that(2) by (auto simp: pb_decode_varint32_def)
qed

lemma implements_skip_varint [implements_intro]: "implements pb_skip_varint parse_skip_varint"
proof -
  have "case parse_skip_varint xs of
        None \<Rightarrow> \<exists>s'. pb_skip_varint s = Some (None, s')
      | Some (a, ys) \<Rightarrow> \<exists>s'. pb_skip_varint s = Some (Some a, s') \<and> stream_at s' ys r \<and> is_errmsg s' = is_errmsg s"
    if "stream_at s xs r" for xs r and s :: "'a pb_istream"
    using that
  proof (induction xs arbitrary: s)
    case Nil
    have "parse_take 1 ([] :: bytes) = None" by (simp add: parse_take_def)
    then have "\<exists>s'. pb_read True 1 s = Some (None, s')" using implements_None [OF implements_read Nil] by blast
    then show ?case by (auto simp: pb_skip_varint.simps [of s])
  next
    case (Cons b xs)
    have "parse_take 1 (b # xs) = Some ([b], xs)" by (simp add: parse_take_def)
    then obtain s' where s': "pb_read True 1 s = Some (Some [b], s')" "stream_at s' xs r" "is_errmsg s' = is_errmsg s"
      using implements_Some [OF implements_read Cons.prems] by metis
    then show ?case using Cons.IH [OF s'(2)] by (auto simp: pb_skip_varint.simps [of s] split: option.split)
  qed
  then show ?thesis by (simp add: implements_def)
qed

section \<open>Fields and substreams\<close>

definition parse_string :: "bytes parse" where
  "parse_string = parse_then parse_varint32 (\<lambda>n. parse_take (unat n))"

definition parse_skip_field :: "u32 \<Rightarrow> unit parse" where
  "parse_skip_field wt
     = (if wt = PB_WT_VARINT then parse_skip_varint
        else if wt = PB_WT_64BIT then parse_skip 8
        else if wt = PB_WT_STRING then parse_then parse_varint32 (\<lambda>n. parse_skip (unat n))
        else if wt = PB_WT_32BIT then parse_skip 4
        else (\<lambda>_. None))"

lemma implements_skip_field [implements_intro]: "implements (pb_skip_field wt :: ('s, unit) pb_get) (parse_skip_field wt)"
proof -
  have "implements (pb_skip_string :: ('s, unit) pb_get) (parse_then parse_varint32 (\<lambda>n. parse_skip (unat n)))"
    unfolding pb_skip_string_def by (intro implements_intro)
  then show ?thesis
    by (simp add: pb_skip_field_def parse_skip_field_def implements_skip_varint implements_skip implements_error)
qed

text \<open>A tag; the end of the message is where there are no bytes or a zero.\<close>

datatype pb_tag = Tag u32 u32 | End_of_message | Bad_tag

definition parse_tag :: "bytes \<Rightarrow> pb_tag \<times> bytes" where
  "parse_tag xs
     = (case parse_varint32 xs of
          None \<Rightarrow> (if xs = [] then End_of_message else Bad_tag, xs)
        | Some (t, ys) \<Rightarrow> (if t = 0 then End_of_message else Tag (t AND 7) (drop_bit 3 t), ys))"

lemma decode_tag_at:
  assumes "stream_at s xs r"
  shows "case parse_tag xs of
      (Bad_tag, _) \<Rightarrow> \<exists>s'. pb_decode_tag s = Some (None, False, s')
    | (End_of_message, ys) \<Rightarrow> \<exists>s'. pb_decode_tag s = Some (None, True, s')
    | (Tag wt tag, ys) \<Rightarrow> \<exists>s'. pb_decode_tag s = Some (Some (wt, tag), False, s') \<and> stream_at s' ys r \<and> is_errmsg s' = is_errmsg s"
  using varint32_eof_at [OF assms] by (auto simp: parse_tag_def pb_decode_tag_def split: option.splits)

text \<open>
  A substream gives the bytes of the string; when it is closed, wherever it was left, the stream goes on right behind
  the string.
\<close>

lemma make_substream_at:
  assumes "stream_at s xs r"
  shows "case parse_string xs of
      None \<Rightarrow> \<exists>s'. pb_make_string_substream s = Some (None, s')
    | Some (str, ys) \<Rightarrow> \<exists>sub s'. pb_make_string_substream s = Some (Some sub, s') \<and> stream_at sub str (ys @ r)
        \<and> is_left s' = length ys \<and> is_errmsg sub = is_errmsg s \<and> is_errmsg s' = is_errmsg s"
proof (cases "parse_varint32 xs")
  case None
  then show ?thesis using implements_None [OF implements_varint32 assms None]
    by (auto simp: parse_string_def parse_then_def pb_make_string_substream_def pb_then_def)
next
  case (Some a)
  obtain n zs where p: "parse_varint32 xs = Some (n, zs)" using Some by (cases a) auto
  obtain t where t: "pb_decode_varint32 s = Some (Some n, t)" "stream_at t zs r" "is_errmsg t = is_errmsg s"
    using implements_Some [OF implements_varint32 assms p] by metis
  show ?thesis
  proof (cases "unat n \<le> length zs")
    case True
    then have "stream_at (t\<lparr>is_left := unat n\<rparr>) (take (unat n) zs) (drop (unat n) zs @ r)"
      using t(2) unfolding stream_at_def append_assoc [symmetric] append_take_drop_id by simp
    then show ?thesis using t p True
      by (auto simp: parse_string_def parse_then_def parse_take_def pb_make_string_substream_def pb_then_def stream_at_def)
  next
    case False
    then show ?thesis using t p
      by (auto simp: parse_string_def parse_then_def parse_take_def pb_make_string_substream_def pb_then_def stream_at_def PB_RETURN_ERROR_def)
  qed
qed

lemma close_substream_at:
  assumes "stream_at sub xs (ys @ r)" "is_left s = length ys"
  shows "\<exists>s'. pb_close_string_substream sub s = Some (Some (), s') \<and> stream_at s' ys r \<and> is_errmsg s' = is_errmsg sub"
proof (cases "is_left sub = 0")
  case True
  then have "xs = []" using assms(1) by (simp add: stream_at_def)
  then show ?thesis using assms True by (simp add: pb_close_string_substream_def stream_at_def)
next
  case False
  have "is_left sub = length xs" using assms(1) by (simp add: stream_at_def)
  then have "parse_skip (is_left sub) xs = Some ((), [])" by (simp add: parse_skip_def)
  then obtain t where t: "pb_then (pb_read False (is_left sub)) (\<lambda>_. pb_return ()) sub = Some (Some (), t)"
      "stream_at t [] (ys @ r)" "is_errmsg t = is_errmsg sub"
    using implements_Some [OF implements_skip assms(1)] by metis
  then obtain d where "pb_read False (is_left sub) sub = Some (Some d, t)"
    by (auto simp: pb_then_def pb_return_def split: option.splits)
  then show ?thesis using t assms(2) False by (simp add: pb_close_string_substream_def stream_at_def)
qed

end
