(* ===== verification/Pb_Write.thy ===== *)
theory Pb_Write
  imports Pb_Read
begin

text \<open>
  The output streams of \<^verbatim>\<open>nanopb/pb_encode.c\<close> and the writers of the wire format.  A stream without a callback only
  counts; one on a buffer is the memory with the position that \<^verbatim>\<open>stream->state\<close> points to; any other calls a function
  of the program that has a state of its own.
\<close>

section \<open>Streams\<close>

datatype 'o pb_sink = Sizing | Buf_write bytes nat | Write_callback "'o \<Rightarrow> bytes \<Rightarrow> bool \<times> 'o" 'o

record 'o pb_ostream =
  os_sink :: "'o pb_sink"
  os_max :: nat
  os_written :: nat
  os_errmsg :: "string option"

type_synonym 'o pb_put = "'o pb_ostream \<Rightarrow> (bool \<times> 'o pb_ostream) option"

definition PB_OSTREAM_SIZING :: "'o pb_ostream" where
  "PB_OSTREAM_SIZING = \<lparr>os_sink = Sizing, os_max = 0, os_written = 0, os_errmsg = None\<rparr>"

definition os_error :: "string \<Rightarrow> 'o pb_put" where
  "os_error msg stream
     = Some (False, stream\<lparr>os_errmsg := (case os_errmsg stream of None \<Rightarrow> Some msg | Some m \<Rightarrow> Some m)\<rparr>)"

definition os_true :: "'o pb_put" where
  "os_true stream = Some (True, stream)"

text \<open>The sequence \<^verbatim>\<open>if (!f) return false; g\<close>.\<close>

definition os_then :: "'o pb_put \<Rightarrow> 'o pb_put \<Rightarrow> 'o pb_put" where
  "os_then f g stream
     = (case f stream of
          None \<Rightarrow> None
        | Some (ok, stream) \<Rightarrow> if ok then g stream else Some (False, stream))"

definition buf_write :: "bytes \<Rightarrow> nat \<Rightarrow> bytes \<Rightarrow> (bytes \<times> nat) option" where
  "buf_write dest pos buf
     = (if pos + length buf \<le> length dest then Some (take pos dest @ buf @ drop (pos + length buf) dest, pos + length buf) else None)"

definition pb_ostream_from_buffer :: "bytes \<Rightarrow> nat \<Rightarrow> 'o pb_ostream" where
  "pb_ostream_from_buffer buf bufsize = \<lparr>os_sink = Buf_write buf 0, os_max = bufsize, os_written = 0, os_errmsg = None\<rparr>"

text \<open>\<open>buf\<close> is the memory at the pointer, nothing if it is NULL.\<close>

definition pb_write :: "bytes \<Rightarrow> nat \<Rightarrow> 'o pb_put" where
  "pb_write buf count stream
     = (if count > 0 \<and> (case os_sink stream of Sizing \<Rightarrow> False | _ \<Rightarrow> True)
        then
          if size_add (os_written stream) count < os_written stream \<or> size_add (os_written stream) count > os_max stream
          then os_error ''stream full'' stream
          else if length buf < count then None
          else
            let stream' = stream\<lparr>os_written := size_add (os_written stream) count\<rparr> in
            (case os_sink stream of
               Sizing \<Rightarrow> None
             | Buf_write dest pos \<Rightarrow>
                 (case buf_write dest pos (take count buf) of
                    None \<Rightarrow> None
                  | Some (dest, pos) \<Rightarrow> Some (True, stream'\<lparr>os_sink := Buf_write dest pos\<rparr>))
             | Write_callback f st \<Rightarrow>
                 (case f st (take count buf) of (ok, st) \<Rightarrow>
                    if ok then Some (True, stream'\<lparr>os_sink := Write_callback f st\<rparr>)
                    else os_error ''io error'' (stream\<lparr>os_sink := Write_callback f st\<rparr>)))
        else Some (True, stream\<lparr>os_written := size_add (os_written stream) count\<rparr>))"

section \<open>Integers\<close>

text \<open>The loop that fills \<^verbatim>\<open>buffer\<close>.\<close>

function varint_buffer :: "u64 \<Rightarrow> bytes" where
  "varint_buffer v = (if v = 0 then [] else ucast ((v AND 0x7F) OR 0x80) # varint_buffer (drop_bit 7 v))"
  by pat_completeness auto

termination varint_buffer
  by (relation "measure unat") (auto simp: word_arith unat_gt_0)

declare varint_buffer.simps [simp del]

definition pb_encode_varint :: "u64 \<Rightarrow> 'o pb_put" where
  "pb_encode_varint v
     = (if v \<le> 0x7F then pb_write [ucast v] 1
        else let buffer = varint_buffer v; i = length buffer in
          pb_write (buffer[i - 1 := (buffer ! (i - 1)) AND 0x7F]) i)"

text \<open>A signed integer is its 64 bits.\<close>

definition pb_encode_svarint :: "u64 \<Rightarrow> 'o pb_put" where
  "pb_encode_svarint v = pb_encode_varint (if sint v < 0 then NOT (push_bit 1 v) else push_bit 1 v)"

definition pb_encode_fixed32 :: "u32 \<Rightarrow> 'o pb_put" where
  "pb_encode_fixed32 val
     = pb_write [ucast (val AND 0xFF), ucast (drop_bit 8 val AND 0xFF), ucast (drop_bit 16 val AND 0xFF), ucast (drop_bit 24 val AND 0xFF)] 4"

definition pb_encode_fixed64 :: "u64 \<Rightarrow> 'o pb_put" where
  "pb_encode_fixed64 val
     = pb_write [ucast (val AND 0xFF), ucast (drop_bit 8 val AND 0xFF), ucast (drop_bit 16 val AND 0xFF), ucast (drop_bit 24 val AND 0xFF),
                 ucast (drop_bit 32 val AND 0xFF), ucast (drop_bit 40 val AND 0xFF), ucast (drop_bit 48 val AND 0xFF), ucast (drop_bit 56 val AND 0xFF)] 8"

definition pb_encode_tag :: "u32 \<Rightarrow> u32 \<Rightarrow> 'o pb_put" where
  "pb_encode_tag wiretype field_number = pb_encode_varint (push_bit 3 (ucast field_number) OR ucast wiretype)"

definition pb_encode_string :: "bytes \<Rightarrow> nat \<Rightarrow> 'o pb_put" where
  "pb_encode_string buffer len = os_then (pb_encode_varint (word_of_nat len)) (pb_write buffer len)"

section \<open>The text of a varint\<close>

function varint_text :: "nat \<Rightarrow> bytes" where
  "varint_text n = (if n < 128 then [word_of_nat n] else word_of_nat (n mod 128 + 128) # varint_text (n div 128))"
  by pat_completeness auto

termination varint_text
  by (relation "measure id") auto

declare varint_text.simps [simp del]

end
