(* ===== verification/Pb_Varint.thy ===== *)
theory Pb_Varint
  imports Pb_Wire Pb_Write
begin

text \<open>
  Variable-length integers: what the encoder writes is the text of the number in base 128, and what the decoders
  make of any text.
\<close>

section \<open>Bytes of a varint\<close>

lemma and_7F: "unat ((v :: 'a::len word) AND 0x7F) = unat v mod 128" if "7 \<le> LENGTH('a)"
proof -
  have "v AND 0x7F = v AND mask 7" by (simp add: mask_eq_exp_minus_1)
  then show ?thesis by (simp only: unat_and_mask) simp
qed

lemma cont_byte:
  assumes "n < 128"
  shows "(word_of_nat (n + 128) :: u8) AND 0x80 \<noteq> 0" "unat ((word_of_nat (n + 128) :: u8) AND 0x7F) = n"
    "(word_of_nat n :: u8) AND 0x80 = 0" "unat ((word_of_nat n :: u8) AND 0x7F) = n"
proof -
  have top: "(b :: u8) AND 0x80 = 0 \<longleftrightarrow> unat b < 128" for b
    using word_top_bit_iff [of 7 b] and_exp_eq_0_iff_not_bit [of b 7] by auto
  have u: "unat (word_of_nat (n + 128) :: u8) = n + 128" "unat (word_of_nat n :: u8) = n"
    using assms by (simp_all only: byte_exhaust_nat)
  show "(word_of_nat (n + 128) :: u8) AND 0x80 \<noteq> 0" "(word_of_nat n :: u8) AND 0x80 = 0"
    using assms by (simp_all only: top u)
  show "unat ((word_of_nat (n + 128) :: u8) AND 0x7F) = n" "unat ((word_of_nat n :: u8) AND 0x7F) = n"
    using assms u and_7F [of "word_of_nat (n + 128) :: u8"] and_7F [of "word_of_nat n :: u8"] by auto
qed

lemma shift_or_val:
  fixes r :: "'a::len word"
  assumes "unat r < 2 ^ k" "unat (c :: u8) = n"
  shows "r OR push_bit k (ucast c) = word_of_nat (unat r + 2 ^ k * n)"
proof -
  have "r OR push_bit k (ucast c) = r + push_bit k (ucast c)"
    using shift_or_plus [OF assms(1), of "ucast c"] by (simp add: or.commute add.commute)
  moreover have "ucast c = (word_of_nat n :: 'a word)" unfolding assms(2) [symmetric] by (metis of_nat_unat)
  ultimately show ?thesis by (simp add: push_bit_eq_mult mult.commute)
qed

section \<open>The encoder\<close>

definition mask_last :: "bytes \<Rightarrow> bytes" where
  "mask_last bs = bs[length bs - 1 := (bs ! (length bs - 1)) AND 0x7F]"

lemma mask_last_simps: "mask_last [b] = [b AND 0x7F]" "bs \<noteq> [] \<Longrightarrow> mask_last (b # bs) = b # mask_last bs"
  by (cases bs; simp add: mask_last_def)+

lemma cont_of_word: "ucast (((v :: u64) AND 0x7F) OR 0x80) = (word_of_nat (unat v mod 128 + 128) :: u8)"
proof -
  have m: "unat (v AND 0x7F) = unat v mod 128" by (rule and_7F) simp
  have "(v AND 0x7F) OR 0x80 = push_bit 7 1 OR (v AND 0x7F)" by (simp add: or.commute)
  also have "\<dots> = push_bit 7 1 + (v AND 0x7F)" by (rule shift_or_plus) (simp only: m, simp)
  finally have e: "(v AND 0x7F) OR 0x80 = 128 + (v AND 0x7F)" by simp
  have "unat (128 + (v AND 0x7F)) = unat v mod 128 + 128" using m by (simp add: unat_word_ariths)
  then show ?thesis unfolding e by (metis of_nat_unat)
qed

lemma varint_buffer_text: "v \<noteq> 0 \<Longrightarrow> varint_buffer v \<noteq> [] \<and> mask_last (varint_buffer v) = varint_text (unat v)"
proof (induction v rule: varint_buffer.induct)
  case (1 v)
  define c where "c = (word_of_nat (unat v mod 128 + 128) :: u8)"
  have b: "varint_buffer v = c # varint_buffer (drop_bit 7 v)"
    using 1(2) by (simp add: varint_buffer.simps [of v] cont_of_word c_def)
  have d: "unat (drop_bit 7 v) = unat v div 128" by (simp add: word_arith)
  show ?case
  proof (cases "unat v < 128")
    case True
    then have "drop_bit 7 v = 0" by (simp add: shift_zero_iff)
    moreover have "c AND 0x7F = word_of_nat (unat v)"
      using cont_byte(2) [of "unat v mod 128"] True by (simp add: c_def) (metis of_nat_unat ucast_id)
    ultimately show ?thesis
      using True unfolding b by (simp add: varint_buffer.simps [of 0] mask_last_simps varint_text.simps [of "unat v"])
  next
    case False
    then have "drop_bit 7 v \<noteq> 0" by (simp add: shift_zero_iff)
    then show ?thesis using 1 False unfolding b by (simp add: mask_last_simps varint_text.simps [of "unat v"] d c_def)
  qed
qed

lemma pb_encode_varint_eq: "pb_encode_varint v = pb_write (varint_text (unat v)) (length (varint_text (unat v)))"
proof (cases "v \<le> 0x7F")
  case True
  then have "unat v < 128" by (simp add: word_le_nat_alt)
  moreover have "ucast v = (word_of_nat (unat v) :: u8)" by (simp only: of_nat_unat)
  ultimately show ?thesis using True by (simp add: pb_encode_varint_def varint_text.simps [of "unat v"])
next
  case False
  then have "v \<noteq> 0" by auto
  then have "mask_last (varint_buffer v) = varint_text (unat v)" using varint_buffer_text by blast
  moreover from this have "length (varint_buffer v) = length (varint_text (unat v))" by (metis length_list_update mask_last_def)
  ultimately show ?thesis using False by (simp add: pb_encode_varint_def Let_def mask_last_def)
qed

lemma varint_text_ne [simp]: "varint_text n \<noteq> []"
  by (subst varint_text.simps) simp

lemma varint_text_length: "n < 128 ^ k \<Longrightarrow> 0 < k \<Longrightarrow> length (varint_text n) \<le> k"
proof (induction n arbitrary: k rule: varint_text.induct)
  case (1 n)
  show ?case
  proof (cases "n < 128")
    case False
    then obtain j where k: "k = Suc j" "0 < j" using 1(2,3) by (cases k; cases "k - 1") auto
    then have "n div 128 < 128 ^ j" using 1(2) by (simp add: less_mult_imp_div_less mult.commute)
    then show ?thesis using 1(1) [OF False] k False by (simp add: varint_text.simps [of n])
  qed (use 1 in \<open>simp add: varint_text.simps [of n]\<close>)
qed

lemma varint_text_length_word: "length (varint_text (unat (v :: u64))) \<le> 10"
proof -
  have "unat v < 2 ^ 64" using unsigned_less [of v] by simp
  then show ?thesis by (intro varint_text_length) simp_all
qed

section \<open>The decoders\<close>

text \<open>A varint of at most \<open>k\<close> bytes at the front, and its value.\<close>

fun varint_split :: "nat \<Rightarrow> bytes parse" where
  "varint_split (Suc k) (b # xs) = (if b AND 0x80 \<noteq> 0 then map_option (\<lambda>(bs, ys). (b # bs, ys)) (varint_split k xs) else Some ([b], xs))"
| "varint_split _ _ = None"

fun varint_val :: "bytes \<Rightarrow> nat" where
  "varint_val [] = 0"
| "varint_val (b # bs) = unat (b AND 0x7F) + 128 * varint_val bs"

lemma split_text: "length (varint_text n) \<le> k \<Longrightarrow> varint_split k (varint_text n @ rest) = Some (varint_text n, rest)"
proof (induction n arbitrary: k rule: varint_text.induct)
  case (1 n)
  then obtain j where k: "k = Suc j" by (cases k) auto
  show ?case
  proof (cases "n < 128")
    case False
    then show ?thesis using 1 k cont_byte(1) [of "n mod 128"] by (simp add: varint_text.simps [of n])
  qed (use cont_byte(3) [of n] k in \<open>simp add: varint_text.simps [of n]\<close>)
qed

lemma val_text: "varint_val (varint_text n) = n"
proof (induction n rule: varint_text.induct)
  case (1 n)
  show ?case
  proof (cases "n < 128")
    case False
    then show ?thesis using 1 cont_byte(2) [of "n mod 128"] by (simp add: varint_text.simps [of n])
  qed (use cont_byte(4) [of n] in \<open>simp add: varint_text.simps [of n]\<close>)
qed

lemma pos_eq: "i \<le> 10 \<Longrightarrow> unat (word_of_nat (7 * i) :: u8) = 7 * i"
  by (simp add: byte_exhaust_nat del: of_nat_mult)

lemma pos_step: "(word_of_nat (7 * i) :: u8) + 7 = word_of_nat (7 * Suc i)"
  by simp

lemma pow_7: "(2 :: nat) ^ (7 * i) * 128 = 2 ^ (7 * Suc i)"
  by (simp add: power_add)

lemma varint_loop_split:
  assumes "i \<le> 10" "unat res < 2 ^ (7 * i)"
  shows "parse_varint_loop (word_of_nat (7 * i)) res xs
    = map_option (\<lambda>(bs, ys). (word_of_nat (unat res + 2 ^ (7 * i) * varint_val bs), ys)) (varint_split (10 - i) xs)"
  using assms
proof (induction xs arbitrary: i res)
  case (Cons b xs)
  show ?case
  proof (cases "i = 10")
    case True
    then show ?thesis by simp
  next
    case False
    then have i: "i \<le> 9" and k: "10 - i = Suc (10 - Suc i)" using Cons.prems(1) by auto
    have u: "unat (word_of_nat (7 * i) :: u8) = 7 * i" using pos_eq Cons.prems(1) by blast
    have s: "\<not> (word_of_nat (7 * i) :: u8) \<ge> 64" using u i by (simp only: word_le_nat_alt) simp
    define n where "n = unat (b AND 0x7F)"
    have n: "n < 128" unfolding n_def by (subst and_7F) auto
    define r where "r = res OR push_bit (7 * i) (ucast (b AND 0x7F))"
    have r: "r = word_of_nat (unat res + 2 ^ (7 * i) * n)"
      unfolding r_def by (rule shift_or_val) (use Cons.prems(2) n_def in auto)
    have p: "parse_varint_loop (word_of_nat (7 * i)) res (b # xs)
        = (if b AND 0x80 \<noteq> 0 then parse_varint_loop (word_of_nat (7 * Suc i)) r xs else Some (r, xs))"
      using s by (simp only: parse_varint_loop.simps u r_def Let_def pos_step if_False)
    show ?thesis
    proof (cases "b AND 0x80 = 0")
      case True
      then show ?thesis unfolding p k by (simp add: r n_def)
    next
      case c: False
      show ?thesis
      proof (cases "i = 9")
        case True
        have "parse_varint_loop (word_of_nat (7 * 10)) r xs = None" for r by (cases xs) auto
        then show ?thesis using c True unfolding p k by simp
      next
        case False
        then have "7 * Suc i \<le> 63" using i by simp
        have "unat res + 2 ^ (7 * i) * n < 2 ^ (7 * i) + 2 ^ (7 * i) * 127"
          using Cons.prems(2) n by (intro add_less_le_mono) auto
        also have "\<dots> = 2 ^ (7 * Suc i)" using pow_7 [of i] by simp
        finally have lt: "unat res + 2 ^ (7 * i) * n < 2 ^ (7 * Suc i)" .
        moreover have "(2 :: nat) ^ (7 * Suc i) \<le> 2 ^ 63" using \<open>7 * Suc i \<le> 63\<close> by (rule power_increasing) simp
        ultimately have "unat res + 2 ^ (7 * i) * n < 2 ^ LENGTH(64)" by simp
        then have ur: "unat r = unat res + 2 ^ (7 * i) * n" unfolding r by (simp only: unat_of_nat mod_less)
        have "parse_varint_loop (word_of_nat (7 * Suc i)) r xs
            = map_option (\<lambda>(bs, ys). (word_of_nat (unat r + 2 ^ (7 * Suc i) * varint_val bs), ys)) (varint_split (10 - Suc i) xs)"
          by (rule Cons.IH) (use i ur lt in auto)
        moreover have "unat r + 2 ^ (7 * Suc i) * m = unat res + 2 ^ (7 * i) * (n + 128 * m)" for m
          using pow_7 [of i] ur by (simp add: algebra_simps)
        ultimately show ?thesis using c unfolding p k
          by (cases "varint_split (10 - Suc i) xs") (auto simp: n_def simp del: of_nat_add of_nat_mult)
      qed
    qed
  qed
qed (cases "10 - i"; simp)

lemma parse_varint_exact:
  "parse_varint xs = map_option (\<lambda>(bs, ys). (word_of_nat (varint_val bs), ys)) (varint_split 10 xs)"
  using varint_loop_split [of 0 0 xs] by (simp add: parse_varint_def)

lemma parse_varint_text: "parse_varint (varint_text (unat (v :: u64)) @ ys) = Some (v, ys)"
  using varint_text_length_word [of v] by (simp add: parse_varint_exact split_text val_text)

lemma skip_text: "parse_skip_varint (varint_text n @ ys) = Some ((), ys)"
proof (induction n rule: varint_text.induct)
  case (1 n)
  show ?case
  proof (cases "n < 128")
    case False
    then show ?thesis using 1 cont_byte(1) [of "n mod 128"] by (simp add: varint_text.simps [of n])
  qed (use cont_byte(3) [of n] in \<open>simp add: varint_text.simps [of n]\<close>)
qed

text \<open>
  The 32-bit decoder on the text of a number: it accepts what fits 32 bits, and negative numbers that were written with
  64 bits.
\<close>

lemma varint32_loop_low:
  assumes "i \<le> 4" "unat res < 2 ^ (7 * i)" "n < 2 ^ (35 - 7 * i)"
  shows "parse_varint32_loop (word_of_nat (7 * i)) res (varint_text n @ ys)
    = Some ((last (varint_text n), word_of_nat (7 * (i + length (varint_text n))), word_of_nat (unat res + 2 ^ (7 * i) * n)), ys)"
  using assms
proof (induction n arbitrary: i res rule: varint_text.induct)
  case (1 n)
  have u: "unat (word_of_nat (7 * i) :: u8) = 7 * i" using pos_eq 1(2) by simp
  have s: "\<not> (word_of_nat (7 * i) :: u8) \<ge> 32" using u 1(2) by (simp only: word_le_nat_alt) simp
  have p: "parse_varint32_loop (word_of_nat (7 * i)) res (b # xs)
      = (let r = res OR push_bit (7 * i) (ucast (b AND 0x7F)) in
         if b AND 0x80 \<noteq> 0 then parse_varint32_loop (word_of_nat (7 * Suc i)) r xs else Some ((b, word_of_nat (7 * Suc i), r), xs))" for b xs
    using s by (simp only: parse_varint32_loop.simps u Let_def pos_step if_False simp_thms)
  show ?case
  proof (cases "n < 128")
    case True
    have "res OR push_bit (7 * i) (ucast ((word_of_nat n :: u8) AND 0x7F)) = word_of_nat (unat res + 2 ^ (7 * i) * n)"
      by (rule shift_or_val) (use 1(3) cont_byte(4) [OF True] in auto)
    then show ?thesis using True cont_byte(3) [OF True] by (simp add: varint_text.simps [of n] p Let_def del: of_nat_add of_nat_mult parse_varint32_loop.simps)
  next
    case False
    have i: "i \<le> 3"
    proof (rule ccontr)
      assume "\<not> i \<le> 3"
      then have "i = 4" using 1(2) by simp
      then show False using 1(4) False by simp
    qed
    have m: "n mod 128 < 128" by simp
    define r where "r = res OR push_bit (7 * i) (ucast ((word_of_nat (n mod 128 + 128) :: u8) AND 0x7F))"
    have r: "r = word_of_nat (unat res + 2 ^ (7 * i) * (n mod 128))"
      unfolding r_def by (rule shift_or_val) (use 1(3) cont_byte(2) [OF m] in auto)
    have "unat res + 2 ^ (7 * i) * (n mod 128) < 2 ^ (7 * i) + 2 ^ (7 * i) * 127"
      using 1(3) m by (intro add_less_le_mono) auto
    also have "\<dots> = 2 ^ (7 * Suc i)" using pow_7 [of i] by simp
    finally have lt: "unat res + 2 ^ (7 * i) * (n mod 128) < 2 ^ (7 * Suc i)" .
    moreover have "(2 :: nat) ^ (7 * Suc i) \<le> 2 ^ 28" using i by (intro power_increasing) auto
    ultimately have "unat res + 2 ^ (7 * i) * (n mod 128) < 2 ^ LENGTH(32)" by simp
    then have ur: "unat r = unat res + 2 ^ (7 * i) * (n mod 128)" unfolding r by (simp only: unat_of_nat mod_less)
    have e: "35 - 7 * i = (35 - 7 * Suc i) + 7" using i by simp
    have "n < 2 ^ (35 - 7 * Suc i) * 2 ^ 7" using 1(4) unfolding e power_add .
    then have "n div 2 ^ 7 < 2 ^ (35 - 7 * Suc i)" by (rule less_mult_imp_div_less)
    then have d: "n div 128 < 2 ^ (35 - 7 * Suc i)" by simp
    have "unat r + 2 ^ (7 * Suc i) * (n div 128) = unat res + 2 ^ (7 * i) * (n mod 128 + 128 * (n div 128))"
      using pow_7 [of i] ur by (simp only: distrib_left) (simp add: mult.assoc [symmetric])
    then have v: "unat r + 2 ^ (7 * Suc i) * (n div 128) = unat res + 2 ^ (7 * i) * n" by simp
    have "parse_varint32_loop (word_of_nat (7 * Suc i)) r (varint_text (n div 128) @ ys)
        = Some ((last (varint_text (n div 128)), word_of_nat (7 * (Suc i + length (varint_text (n div 128)))), word_of_nat (unat res + 2 ^ (7 * i) * n)), ys)"
      unfolding v [symmetric] by (rule 1(1) [OF False]) (use i ur lt d in auto)
    then show ?thesis using False cont_byte(1) [OF m]
      by (simp add: varint_text.simps [of n] p Let_def r_def del: of_nat_add of_nat_mult parse_varint32_loop.simps)
  qed
qed

lemma varint32_loop_high:
  assumes "i \<le> 5" "i < 5 \<Longrightarrow> unat res < 2 ^ (7 * i)" "2 ^ (35 - 7 * i) \<le> n"
  shows "parse_varint32_loop (word_of_nat (7 * i)) res (varint_text n @ ys)
    = parse_varint32_loop 35 (word_of_nat (unat res + 2 ^ (7 * i) * n)) (varint_text (n div 2 ^ (35 - 7 * i)) @ ys)"
  using assms
proof (induction n arbitrary: i res rule: varint_text.induct)
  case (1 n)
  show ?case
  proof (cases "i = 5")
    case True
    have "(word_of_nat (unat res + 2 ^ 35 * n) :: u32) = res + 2 ^ 35 * word_of_nat n" by simp
    also have "(2 :: u32) ^ 35 = 0" by simp
    finally show ?thesis using True by simp
  next
    case i5: False
    then have i: "i \<le> 4" and res: "unat res < 2 ^ (7 * i)" using 1(2,3) by auto
    have "(2 :: nat) ^ 7 \<le> 2 ^ (35 - 7 * i)" using i by (intro power_increasing) auto
    then have big: "\<not> n < 128" using 1(4) by simp
    have u: "unat (word_of_nat (7 * i) :: u8) = 7 * i" using pos_eq i by simp
    have s: "\<not> (word_of_nat (7 * i) :: u8) \<ge> 32" using u i by (simp only: word_le_nat_alt) simp
    have m: "n mod 128 < 128" by simp
    define r where "r = res OR push_bit (7 * i) (ucast ((word_of_nat (n mod 128 + 128) :: u8) AND 0x7F))"
    have r: "r = word_of_nat (unat res + 2 ^ (7 * i) * (n mod 128))"
      unfolding r_def by (rule shift_or_val) (use res cont_byte(2) [OF m] in auto)
    have step: "parse_varint32_loop (word_of_nat (7 * i)) res (varint_text n @ ys)
        = parse_varint32_loop (word_of_nat (7 * Suc i)) r (varint_text (n div 128) @ ys)"
      using s big cont_byte(1) [OF m]
      by (simp only: varint_text.simps [of n] append_Cons parse_varint32_loop.simps u Let_def pos_step if_False if_True simp_thms r_def)
    have r5: "unat r < 2 ^ (7 * Suc i) \<and> unat r = unat res + 2 ^ (7 * i) * (n mod 128)" if "Suc i < 5"
    proof -
      have "unat res + 2 ^ (7 * i) * (n mod 128) < 2 ^ (7 * i) + 2 ^ (7 * i) * 127"
        using res m by (intro add_less_le_mono) auto
      also have "\<dots> = 2 ^ (7 * Suc i)" using pow_7 [of i] by simp
      finally have lt: "unat res + 2 ^ (7 * i) * (n mod 128) < 2 ^ (7 * Suc i)" .
      moreover have "(2 :: nat) ^ (7 * Suc i) \<le> 2 ^ 28" using that by (intro power_increasing) auto
      ultimately have "unat res + 2 ^ (7 * i) * (n mod 128) < 2 ^ LENGTH(32)" by simp
      then show ?thesis using lt unfolding r by (simp only: unat_of_nat mod_less)
    qed
    have e: "35 - 7 * i = 7 + (35 - 7 * Suc i)" using i by simp
    have "2 ^ (35 - 7 * Suc i) \<le> n div 2 ^ 7"
      using div_le_mono [OF 1(4), of "2 ^ 7"] unfolding e power_add by simp
    then have IH: "parse_varint32_loop (word_of_nat (7 * Suc i)) r (varint_text (n div 128) @ ys)
        = parse_varint32_loop 35 (word_of_nat (unat r + 2 ^ (7 * Suc i) * (n div 128))) (varint_text (n div 128 div 2 ^ (35 - 7 * Suc i)) @ ys)"
      using r5 i by (intro 1(1) [OF big]) simp_all
    have d: "n div 128 div 2 ^ (35 - 7 * Suc i) = n div 2 ^ (35 - 7 * i)" unfolding e power_add by (simp add: div_mult2_eq)
    have "2 ^ (7 * i) * (n mod 128) + 2 ^ (7 * Suc i) * (n div 128) = 2 ^ (7 * i) * (n mod 128 + 128 * (n div 128))"
      using pow_7 [of i] by (simp only: distrib_left) (simp add: mult.assoc [symmetric])
    then have v: "unat res + 2 ^ (7 * i) * (n mod 128) + 2 ^ (7 * Suc i) * (n div 128) = unat res + 2 ^ (7 * i) * n" by simp
    have "(word_of_nat (unat r + 2 ^ (7 * Suc i) * (n div 128)) :: u32) = r + word_of_nat (2 ^ (7 * Suc i) * (n div 128))" by simp
    also have "\<dots> = word_of_nat (unat res + 2 ^ (7 * i) * n)" unfolding r v [symmetric] by (simp only: of_nat_add)
    finally show ?thesis unfolding step IH d by simp
  qed
qed

lemma varint32_tail_None:
  assumes "5 \<le> i" "i \<le> 8" "0 < n" "n < 2 ^ (63 - 7 * i)"
  shows "parse_varint32_loop (word_of_nat (7 * i)) res (varint_text n @ ys) = None"
  using assms
proof (induction n arbitrary: i rule: varint_text.induct)
  case (1 n)
  have u: "unat (word_of_nat (7 * i) :: u8) = 7 * i" using pos_eq 1(3) by simp
  have s: "(word_of_nat (7 * i) :: u8) \<ge> 32" "(word_of_nat (7 * i) :: u8) < 63"
    using u 1(2,3) by (simp_all only: word_le_nat_alt word_less_nat_alt) simp_all
  show ?case
  proof (cases "n < 128")
    case True
    then have "(word_of_nat n :: u8) AND 0x7F \<noteq> 0" using cont_byte(4) [OF True] 1(4) by force
    moreover have "(word_of_nat n :: u8) \<noteq> 0xFF" using True cont_byte(3) [OF True] by auto
    ultimately show ?thesis using s True by (simp add: varint_text.simps [of n])
  next
    case False
    have i: "i \<le> 7"
    proof (rule ccontr)
      assume "\<not> i \<le> 7"
      then have "i = 8" using 1(3) by simp
      then show False using 1(5) False by simp
    qed
    have e: "63 - 7 * i = (63 - 7 * Suc i) + 7" using i by simp
    have "n < 2 ^ (63 - 7 * Suc i) * 2 ^ 7" using 1(5) unfolding e power_add .
    then have "n div 2 ^ 7 < 2 ^ (63 - 7 * Suc i)" by (rule less_mult_imp_div_less)
    then have "parse_varint32_loop (word_of_nat (7 * Suc i)) res (varint_text (n div 128) @ ys) = None"
      using 1(2) i False by (intro 1(1)) simp_all
    then have IH: "parse_varint32_loop (word_of_nat (7 * i) + 7) res (varint_text (n div 128) @ ys) = None" by (simp only: pos_step)
    show ?thesis using s False cont_byte(1) [of "n mod 128"] IH
      by (simp add: varint_text.simps [of n] Let_def del: of_nat_add of_nat_mult)
  qed
qed

lemma parse_varint32_eq:
  "parse_varint32 xs = (case parse_varint32_loop 0 0 xs of None \<Rightarrow> None
     | Some ((b, bitpos, res), ys) \<Rightarrow> if bitpos = 35 \<and> b AND 0x70 \<noteq> 0 then None else Some (res, ys))"
proof (cases xs)
  case (Cons b ys)
  show ?thesis
  proof (cases "b AND 0x80 = 0")
    case True
    have "b AND 0x7F = b"
    proof -
      have "unat b < 128" using True word_top_bit_iff [of 7 b] and_exp_eq_0_iff_not_bit [of b 7] by auto
      then show ?thesis using and_7F [of b] by (intro word_unat_eq_iff [THEN iffD2]) simp
    qed
    then show ?thesis using True by (simp add: Cons parse_varint32_def)
  qed (simp add: Cons parse_varint32_def)
qed (simp add: parse_varint32_def)

lemma last_text: "last (varint_text n) = word_of_nat (n div 128 ^ (length (varint_text n) - 1))"
proof (induction n rule: varint_text.induct)
  case (1 n)
  show ?case
  proof (cases "n < 128")
    case False
    then have "last (varint_text n) = word_of_nat (n div 128 div 128 ^ (length (varint_text (n div 128)) - 1))"
      using 1 by (simp add: varint_text.simps [of n])
    moreover obtain k where "length (varint_text (n div 128)) = Suc k" by (cases "varint_text (n div 128)") auto
    ultimately show ?thesis using False by (simp add: varint_text.simps [of n] div_mult2_eq)
  qed (simp add: varint_text.simps [of n])
qed

lemma varint_text_length_ge: "128 ^ k \<le> n \<Longrightarrow> k < length (varint_text n)"
proof (induction k arbitrary: n)
  case (Suc k)
  have "\<not> n < 128" using Suc.prems by (metis linorder_not_le mult_le_mono2 one_le_numeral one_le_power order_trans power_Suc mult.right_neutral)
  moreover have "128 ^ k \<le> n div 128" using div_le_mono [OF Suc.prems, of 128] by simp
  ultimately show ?case using Suc.IH [of "n div 128"] by (simp add: varint_text.simps [of n])
qed simp

lemma parse_varint32_text:
  assumes "n < 2 ^ 63 \<or> 2 ^ 64 - 2 ^ 31 \<le> n \<and> n < 2 ^ 64"
  shows "parse_varint32 (varint_text n @ ys) = (if 2 ^ 32 \<le> n \<and> n < 2 ^ 63 then None else Some (word_of_nat n, ys))"
proof -
  consider "n < 2 ^ 28" | "2 ^ 28 \<le> n" "n < 2 ^ 35" | "2 ^ 35 \<le> n" "n < 2 ^ 63" | "2 ^ 64 - 2 ^ 31 \<le> n" "n < 2 ^ 64"
    using assms by linarith
  then show ?thesis
  proof cases
    case 1
    then have "length (varint_text n) \<le> 4" by (intro varint_text_length) simp_all
    then have "unat (word_of_nat (7 * length (varint_text n)) :: u8) \<noteq> 35" by (simp only: byte_exhaust_nat)
    then have "(word_of_nat (7 * length (varint_text n)) :: u8) \<noteq> 35" by force
    then show ?thesis using varint32_loop_low [of 0 0 n ys] 1 by (simp add: parse_varint32_eq del: of_nat_mult)
  next
    case 2
    then have "length (varint_text n) \<le> 5" "4 < length (varint_text n)"
      using varint_text_length [of n 5] varint_text_length_ge [of 4 n] by simp_all
    then have l: "length (varint_text n) = 5" by simp
    define m where "m = n div 2 ^ 28"
    have m: "m < 128" "last (varint_text n) = word_of_nat m" "16 \<le> m \<longleftrightarrow> 2 ^ 32 \<le> n"
      using 2 last_text [of n] by (simp_all add: l m_def less_mult_imp_div_less less_eq_div_iff_mult_less_eq)
    have "\<forall>m\<in>set [0..<128]. ((word_of_nat m :: u8) AND 0x70 = 0) = (m < 16)" by code_simp
    then have "((word_of_nat m :: u8) AND 0x70 = 0) = (m < 16)" using m(1) by simp
    then show ?thesis using varint32_loop_low [of 0 0 n ys] 2 m by (auto simp: parse_varint32_eq l)
  next
    case 3
    have "0 < n div 2 ^ 35" "n div 2 ^ 35 < 2 ^ 28" using 3 by (simp_all add: div_greater_zero_iff less_mult_imp_div_less)
    then have "parse_varint32_loop 35 (word_of_nat n) (varint_text (n div 2 ^ 35) @ ys) = None"
      using varint32_tail_None [of 5 "n div 2 ^ 35"] by simp
    then show ?thesis using varint32_loop_high [of 0 0 n ys] 3 by (simp add: parse_varint32_eq)
  next
    case 4
    have "n div 2 ^ 35 = 2 ^ 29 - 1" using 4 by simp
    then have t: "varint_text (n div 2 ^ 35) = [0xFF, 0xFF, 0xFF, 0xFF, 0x01]"
      by (simp add: varint_text.simps)
    have "drop_bit 31 (word_of_nat n :: u32) \<noteq> 0"
    proof -
      obtain x where x: "n = x + (2 ^ 32 - 1) * 2 ^ 32" "2 ^ 31 \<le> x" "x < 2 ^ 32"
        using 4 le_Suc_ex [of "(2 ^ 32 - 1) * 2 ^ 32" n] by auto
      have "unat (word_of_nat n :: u32) = (x + (2 ^ 32 - 1) * 2 ^ 32) mod 2 ^ 32" unfolding x(1) [symmetric] by (simp add: unat_of_nat)
      then have "unat (word_of_nat n :: u32) = x" using x(3) by (simp only: mod_mult_self1 mod_less)
      then show ?thesis using x(2) by (simp add: shift_zero_iff)
    qed
    then have "parse_varint32_loop 35 (word_of_nat n) (varint_text (n div 2 ^ 35) @ ys) = Some ((1, 70, word_of_nat n), ys)"
      unfolding t by simp
    then show ?thesis using varint32_loop_high [of 0 0 n ys] 4 by (simp add: parse_varint32_eq)
  qed
qed

end
