(* ===== verification/Pb_Emit.thy ===== *)
theory Pb_Emit
  imports Pb_Varint Cbb
begin

text \<open>
  What a writer of \<^verbatim>\<open>pb_encode.c\<close> puts on a stream, whether the stream counts or fills a buffer: the same bytes, and
  an error and nothing outside the room of the buffer if they do not fit.
\<close>

section \<open>Outcomes\<close>

text \<open>
  A writer puts bytes or fails.  Nothing is said of one whose text would be longer than any object, which has less
  than \<open>2 ^ 63\<close> bytes.
\<close>

abbreviation object_bound :: nat where
  "object_bound \<equiv> 9223372036854775808"

datatype pb_out = Undefined | Fails | Puts bytes

fun out_then :: "pb_out \<Rightarrow> pb_out \<Rightarrow> pb_out" where
  "out_then (Puts a) (Puts b) = (if length a + length b < object_bound then Puts (a @ b) else Undefined)"
| "out_then (Puts a) r = r"
| "out_then r _ = r"

definition buf_at :: "'o pb_ostream \<Rightarrow> bytes \<Rightarrow> nat \<Rightarrow> bool" where
  "buf_at s d p \<longleftrightarrow> os_sink s = Buf_write d p \<and> os_errmsg s = None \<and> os_written s \<le> os_max s \<and> os_max s < object_bound
     \<and> p + (os_max s - os_written s) \<le> length d"

definition stays_within :: "bytes \<Rightarrow> nat \<Rightarrow> nat \<Rightarrow> 'o pb_ostream \<Rightarrow> bool" where
  "stays_within d p q s \<longleftrightarrow> (\<exists>d' p'. os_sink s = Buf_write d' p' \<and> length d' = length d \<and> take p d' = take p d \<and> drop q d' = drop q d)"

definition puts_buf :: "'o pb_put \<Rightarrow> pb_out \<Rightarrow> 'o pb_ostream \<Rightarrow> bytes \<Rightarrow> nat \<Rightarrow> bool" where
  "puts_buf f out s d p \<longleftrightarrow>
     (case out of
        Undefined \<Rightarrow> True
      | Fails \<Rightarrow> \<exists>s'. f s = Some (False, s') \<and> stays_within d p (p + (os_max s - os_written s)) s'
      | Puts w \<Rightarrow>
          if os_written s + length w \<le> os_max s
          then f s = Some (True, s\<lparr>os_sink := Buf_write (mem_write d p w) (p + length w), os_written := os_written s + length w\<rparr>)
          else \<exists>s'. f s = Some (False, s') \<and> stays_within d p (p + (os_max s - os_written s)) s')"

definition puts_size :: "'o pb_put \<Rightarrow> pb_out \<Rightarrow> 'o pb_ostream \<Rightarrow> bool" where
  "puts_size f out s \<longleftrightarrow>
     (case out of
        Undefined \<Rightarrow> True
      | Fails \<Rightarrow> \<exists>s'. f s = Some (False, s')
      | Puts w \<Rightarrow> length w < object_bound \<and> f s = Some (True, s\<lparr>os_written := size_add (os_written s) (length w)\<rparr>))"

definition puts :: "'o pb_put \<Rightarrow> pb_out \<Rightarrow> bool" where
  "puts f out \<longleftrightarrow> (\<forall>s. os_sink s = Sizing \<longrightarrow> os_written s < size_bound \<longrightarrow> puts_size f out s) \<and> (\<forall>s d p. buf_at s d p \<longrightarrow> puts_buf f out s d p)"

named_theorems puts_intro "writers and what they put"

lemma putsD:
  assumes "puts f out"
  shows "os_sink s = Sizing \<Longrightarrow> os_written s < size_bound \<Longrightarrow> puts_size f out s" "buf_at s d p \<Longrightarrow> puts_buf f out s d p"
  using assms by (auto simp: puts_def)

lemma puts_Undefined [simp]: "puts f Undefined"
  by (simp add: puts_def puts_size_def puts_buf_def)

lemma puts_length: "puts (f :: 'o pb_put) (Puts w) \<Longrightarrow> length w < object_bound"
proof -
  assume "puts f (Puts w)"
  then have "puts_size f (Puts w) (PB_OSTREAM_SIZING :: 'o pb_ostream)" by (simp add: puts_def PB_OSTREAM_SIZING_def)
  then show ?thesis by (simp add: puts_size_def)
qed

lemma stays_within_refl: "os_sink s = Buf_write d p' \<Longrightarrow> stays_within d p q s"
  by (simp add: stays_within_def)

lemma stays_within_write:
  assumes "stays_within (mem_write d p w) (p + length w) q s" "p + length w \<le> q" "q \<le> length d"
  shows "stays_within d p q s"
proof -
  obtain d' p' where d': "os_sink s = Buf_write d' p'" "length d' = length (mem_write d p w)" "drop q d' = drop q (mem_write d p w)"
      "take (p + length w) d' = take (p + length w) (mem_write d p w)"
    using assms(1) by (auto simp: stays_within_def)
  have "take p d' = take p (take (p + length w) d')" by simp
  also have "\<dots> = take p (mem_write d p w)" unfolding d'(4) by simp
  also have "\<dots> = take p d" using assms(2,3) by (simp add: mem_write_def)
  finally have "take p d' = take p d" .
  moreover have "drop q (mem_write d p w) = drop q d"
    using assms(2,3) by (simp add: mem_write_def drop_append)
  moreover have "length d' = length d" using d'(2) assms(2,3) by (simp add: mem_write_def)
  ultimately show ?thesis using d' by (auto simp: stays_within_def)
qed

lemma mem_write_append:
  assumes "p + length a + length b \<le> length d"
  shows "mem_write (mem_write d p a) (p + length a) b = mem_write d p (a @ b)"
  using assms by (simp add: mem_write_def ac_simps)

lemma puts_then [puts_intro]:
  assumes f: "puts f a" and g: "puts g b"
  shows "puts (os_then f g) (out_then a b)"
proof (cases a)
  case (Puts v)
  have size_f: "f s = Some (True, s\<lparr>os_written := size_add (os_written s) (length v)\<rparr>)" if "os_sink s = Sizing" "os_written s < size_bound" for s
    using putsD(1) [OF f that] Puts by (simp add: puts_size_def)
  have buf_f: "puts_buf f (Puts v) s d p" if "buf_at s d p" for s d p using putsD(2) [OF f that] Puts by simp
  have room: "buf_at (s\<lparr>os_sink := Buf_write (mem_write d p v) (p + length v), os_written := os_written s + length v\<rparr>)
      (mem_write d p v) (p + length v)" if "buf_at s d p" "os_written s + length v \<le> os_max s" for s :: "'a pb_ostream" and d p
    using that by (auto simp: buf_at_def mem_write_def)
  show ?thesis unfolding puts_def
  proof (intro conjI allI impI)
    fix s :: "'a pb_ostream"
    assume s: "os_sink s = Sizing" "os_written s < size_bound"
    have "size_add (os_written s) (length v) < size_bound" by (simp add: size_add_def)
    then show "puts_size (os_then f g) (out_then a b) s"
      using s size_f [OF s] putsD(1) [OF g, of "s\<lparr>os_written := size_add (os_written s) (length v)\<rparr>"] Puts
      by (cases b) (auto simp: puts_size_def os_then_def size_add_def mod_add_left_eq add.assoc)
  next
    fix s :: "'a pb_ostream" and d p
    assume s: "buf_at s d p"
    define q where "q = p + (os_max s - os_written s)"
    have q: "q \<le> length d" using s by (auto simp: q_def buf_at_def)
    show "puts_buf (os_then f g) (out_then a b) s d p"
    proof (cases "os_written s + length v \<le> os_max s")
      case False
      then show ?thesis using buf_f [OF s] Puts by (cases b) (auto simp: puts_buf_def os_then_def)
    next
      case True
      define t where "t = s\<lparr>os_sink := Buf_write (mem_write d p v) (p + length v), os_written := os_written s + length v\<rparr>"
      have e: "f s = Some (True, t)" using buf_f [OF s] True by (simp add: puts_buf_def t_def)
      have t: "buf_at t (mem_write d p v) (p + length v)" unfolding t_def by (rule room [OF s True])
      have q2: "p + length v + (os_max t - os_written t) = q" "p + length v \<le> q" using True by (simp_all add: t_def q_def)
      note gb = putsD(2) [OF g t]
      show ?thesis
      proof (cases b)
        case b: (Puts w)
        show ?thesis
        proof (cases "os_written t + length w \<le> os_max t")
          case fits: True
          then have m: "mem_write (mem_write d p v) (p + length v) w = mem_write d p (v @ w)"
            using q unfolding q_def by (intro mem_write_append) (simp add: t_def)
          show ?thesis using gb b fits Puts e unfolding puts_buf_def os_then_def
            by (auto simp: t_def m add.assoc split: if_splits)
        next
          case False
          then obtain s' where "g t = Some (False, s')" "stays_within (mem_write d p v) (p + length v) q s'"
            using gb b q2 by (auto simp: puts_buf_def)
          then show ?thesis using stays_within_write q2(2) q False b Puts e
            by (auto simp: puts_buf_def os_then_def t_def q_def [symmetric])
        qed
      next
        case Fails
        then obtain s' where "g t = Some (False, s')" "stays_within (mem_write d p v) (p + length v) q s'"
          using gb q2 by (auto simp: puts_buf_def)
        then show ?thesis using stays_within_write q2(2) q Fails Puts e
          by (auto simp: puts_buf_def os_then_def q_def [symmetric])
      qed (simp add: Puts puts_buf_def)
    qed
  qed
next
  case Fails
  show ?thesis unfolding puts_def
    using putsD(1) [OF f] putsD(2) [OF f] Fails
    by (simp add: puts_size_def puts_buf_def os_then_def) (fastforce split: option.split)
qed simp

lemma puts_cong: "puts f a \<Longrightarrow> a = b \<Longrightarrow> puts f b"
  by simp

lemma puts_true [puts_intro]: "puts os_true (Puts [])"
  by (simp add: puts_def puts_size_def puts_buf_def buf_at_def os_true_def mem_write_def)

lemma puts_error [puts_intro]: "puts (os_error msg) Fails"
  by (auto simp: puts_def puts_size_def puts_buf_def buf_at_def os_error_def stays_within_def)

lemma puts_write:
  assumes "length w < object_bound" "n = length w"
  shows "puts (pb_write w n) (Puts w)"
  unfolding puts_def
proof (intro conjI allI impI)
  fix s :: "'a pb_ostream"
  assume "os_sink s = Sizing"
  then show "puts_size (pb_write w n) (Puts w) s" using assms by (simp add: puts_size_def pb_write_def)
next
  fix s :: "'a pb_ostream" and d p
  assume s: "buf_at s d p"
  then have lt: "os_written s + length w < size_bound" and sink: "os_sink s = Buf_write d p" using assms(1) by (auto simp: buf_at_def)
  show "puts_buf (pb_write w n) (Puts w) s d p"
  proof (cases "os_written s + length w \<le> os_max s")
    case False
    then have "w \<noteq> []" using s by (auto simp: buf_at_def)
    then show ?thesis using False lt sink assms(2) by (auto simp: puts_buf_def pb_write_def os_error_def stays_within_def)
  next
    case True
    then have "p + length w \<le> length d" using s by (auto simp: buf_at_def)
    then show ?thesis using True lt sink assms(2)
      by (cases "w = []") (auto simp: puts_buf_def pb_write_def buf_write_def mem_write_def Let_def)
  qed
qed

section \<open>The wire format\<close>

definition varint_out :: "nat \<Rightarrow> pb_out" where
  "varint_out n = Puts (varint_text n)"

lemma puts_varint [puts_intro]: "puts (pb_encode_varint v) (varint_out (unat v))"
  using varint_text_length_word [of v] by (simp add: varint_out_def pb_encode_varint_eq puts_write)

definition string_out :: "bytes \<Rightarrow> pb_out" where
  "string_out s = (if length s < object_bound then out_then (varint_out (length s)) (Puts s) else Undefined)"

lemma puts_string [puts_intro]: "n = length s \<Longrightarrow> puts (pb_encode_string s n :: 'o pb_put) (string_out s)"
proof (cases "length s < object_bound")
  case True
  assume n: "n = length s"
  have u: "unat (word_of_nat n :: u64) = length s" using True n by (simp add: unat_of_nat)
  have "puts (pb_encode_varint (word_of_nat n) :: 'o pb_put) (varint_out (length s))" using puts_varint [of "word_of_nat n"] unfolding u .
  from puts_then [OF this puts_write [OF True n]] show ?thesis using True by (simp add: pb_encode_string_def string_out_def)
qed (simp add: string_out_def)

text \<open>Signed integers in zigzag order: 0, -1, 1, -2, ...\<close>

definition zigzag :: "int \<Rightarrow> nat" where
  "zigzag i = nat (if i < 0 then - 2 * i - 1 else 2 * i)"

lemma zigzag_word:
  fixes v :: u64
  shows "unat (if sint v < 0 then NOT (push_bit 1 v) else push_bit 1 v) = zigzag (sint v)"
proof -
  have p: "unat (push_bit 1 v) = (2 * unat v) mod 18446744073709551616"
    using unat_push_bit [of 1 v] by (simp only: mult.commute [of "unat v"]) simp
  have n: "unat (NOT w) = 18446744073709551615 - unat w" for w :: u64
  proof -
    have "NOT w = - 1 - w" by (simp add: not_eq_complement)
    moreover have "unat (- 1 - w) = unat (- 1 :: u64) - unat w" by (rule unat_sub) (rule word_order.extremum)
    moreover have "unat (- 1 :: u64) = 18446744073709551615" unfolding unsigned_minus_1_eq_mask by (simp add: mask_eq_exp_minus_1)
    ultimately show ?thesis by presburger
  qed
  have u: "unat v < 18446744073709551616" using unsigned_less [of v, where 'a = nat] by simp
  have s: "sint v = (if unat v < 9223372036854775808 then int (unat v) else int (unat v) - 18446744073709551616)"
  proof -
    have b: "- 9223372036854775808 \<le> sint v" "sint v < 9223372036854775808" using sint_ge [of v] sint_lt [of v] by simp_all
    have m: "int (unat v) = sint v mod 18446744073709551616" using uint_sint [of v] by (simp add: take_bit_eq_mod)
    show ?thesis
    proof (cases "sint v < 0")
      case True
      have "sint v mod 18446744073709551616 = (sint v + 18446744073709551616) mod 18446744073709551616" by simp
      also have "\<dots> = sint v + 18446744073709551616" using True b by (intro mod_pos_pos_trivial) linarith+
      finally have e: "int (unat v) = sint v + 18446744073709551616" using m by simp
      then have "\<not> unat v < 9223372036854775808" using b by linarith
      then show ?thesis using e by simp
    next
      case False
      then have "sint v mod 18446744073709551616 = sint v" using b by (intro mod_pos_pos_trivial) linarith+
      then have e: "int (unat v) = sint v" using m by simp
      then have "unat v < 9223372036854775808" using b by linarith
      then show ?thesis using e by simp
    qed
  qed
  show ?thesis
  proof (cases "unat v < 9223372036854775808")
    case True
    then show ?thesis using p by (simp add: s zigzag_def nat_mult_distrib)
  next
    case False
    then have "(2 * unat v) mod 18446744073709551616 = 2 * unat v - 18446744073709551616"
      using u by (simp add: mod_if)
    then have "unat (NOT (push_bit 1 v)) = 36893488147419103231 - 2 * unat v" using p n [of "push_bit 1 v"] False u by linarith
    moreover have "zigzag (sint v) = 36893488147419103231 - 2 * unat v \<and> sint v < 0"
    proof -
      define k where "k = unat v"
      have "sint v = int k - 18446744073709551616" using s False by (simp only: k_def if_False)
      then show ?thesis using u unfolding k_def [symmetric] zigzag_def by (simp add: nat_diff_distrib')
    qed
    ultimately show ?thesis by simp
  qed
qed

lemma puts_svarint [puts_intro]: "puts (pb_encode_svarint v) (varint_out (zigzag (sint v)))"
  unfolding pb_encode_svarint_def zigzag_word [symmetric] by (rule puts_varint)

lemma byte_at: "ucast (drop_bit k v AND 0xFF) = (word_of_nat (unat v div 2 ^ k mod 256) :: u8)" for v :: "'a::len word"
proof -
  have "drop_bit k v AND 0xFF = drop_bit k v AND mask 8" by (simp add: mask_eq_exp_minus_1)
  then have "unat (drop_bit k v AND 0xFF) = unat v div 2 ^ k mod 256" by (simp only: unat_and_mask unat_drop_bit) simp
  then show ?thesis by (metis of_nat_unat)
qed

lemma byte_at_0: "ucast (v AND 0xFF) = (word_of_nat (unat v mod 256) :: u8)" for v :: "'a::len word"
  using byte_at [of 0 v] by simp

lemma le_bytes_map: "le_bytes n v = map (\<lambda>i. word_of_nat (v div 2 ^ (8 * i) mod 256)) [0..<n]"
proof (induction n arbitrary: v)
  case (Suc n)
  have "v div 256 div 2 ^ (8 * i) = v div 2 ^ (8 * Suc i)" for i by (simp add: power_add div_mult2_eq)
  then have "le_bytes n (v div 256) = map ((\<lambda>i. word_of_nat (v div 2 ^ (8 * i) mod 256)) \<circ> Suc) [0..<n]"
    using Suc.IH [of "v div 256"] by simp
  then show ?case by (simp add: upt_conv_Cons map_Suc_upt [symmetric] del: upt_Suc)
qed simp

lemma fixed32_bytes:
  "[ucast (v AND 0xFF), ucast (drop_bit 8 v AND 0xFF), ucast (drop_bit 16 v AND 0xFF), ucast (drop_bit 24 v AND 0xFF)]
    = le_bytes 4 (unat (v :: u32))"
  unfolding byte_at_0 le_bytes_map by (simp add: upt_rec unat_drop_bit)

lemma fixed64_bytes:
  "[ucast (v AND 0xFF), ucast (drop_bit 8 v AND 0xFF), ucast (drop_bit 16 v AND 0xFF), ucast (drop_bit 24 v AND 0xFF),
    ucast (drop_bit 32 v AND 0xFF), ucast (drop_bit 40 v AND 0xFF), ucast (drop_bit 48 v AND 0xFF), ucast (drop_bit 56 v AND 0xFF)]
    = le_bytes 8 (unat (v :: u64))"
  unfolding byte_at_0 le_bytes_map by (simp add: upt_rec unat_drop_bit)

lemma puts_fixed [puts_intro]:
  "puts (pb_encode_fixed32 v) (Puts (le_bytes 4 (unat v)))" "puts (pb_encode_fixed64 w) (Puts (le_bytes 8 (unat w)))"
  unfolding pb_encode_fixed32_def pb_encode_fixed64_def fixed32_bytes fixed64_bytes by (rule puts_write; simp)+

lemma pb_tag_word:
  assumes "unat wt < 8"
  shows "unat (push_bit 3 (ucast (tag :: u32)) OR ucast (wt :: u32) :: u64) = 8 * unat tag + unat wt"
proof -
  have w: "unat (ucast wt :: u64) = unat wt" "unat (ucast tag :: u64) = unat tag" by (simp_all add: unat_ucast_up)
  have "unat tag < 2 ^ 32" using unsigned_less [of tag] by simp
  then have "(8 * unat tag + unat wt) mod 2 ^ 64 = 8 * unat tag + unat wt" using assms by simp
  moreover have "push_bit 3 (ucast tag) OR ucast wt = push_bit 3 (ucast tag :: u64) + ucast wt"
    by (rule shift_or_plus) (use assms w in simp)
  ultimately show ?thesis by (simp add: unat_word_ariths unat_push_bit w mod_add_left_eq mult.commute)
qed

lemma puts_tag [puts_intro]: "unat wt < 8 \<Longrightarrow> puts (pb_encode_tag wt tag) (varint_out (8 * unat tag + unat wt))"
  using puts_varint [of "push_bit 3 (ucast tag) OR ucast wt"] by (simp add: pb_encode_tag_def pb_tag_word)

end
