(* ===== verification/Pb_Field.thy ===== *)
theory Pb_Field
  imports Prelude "HOL-Library.Monad_Syntax"
begin

text \<open>
  Memory, the field descriptors of \<^verbatim>\<open>nanopb/pb.h\<close> and the iterator over the fields of a message of
  \<^verbatim>\<open>nanopb/pb_common.c\<close>.  The configuration is that of the iOS build: \<^verbatim>\<open>PB_FIELD_32BIT\<close> and
  \<^verbatim>\<open>PB_ENABLE_MALLOC\<close>, on a little-endian machine with 64-bit pointers.
\<close>

section \<open>Memory\<close>

text \<open>A structure is its bytes in memory; NULL is the address 0.\<close>

type_synonym pbmem = "nat \<Rightarrow> u8"

definition mem_load :: "pbmem \<Rightarrow> nat \<Rightarrow> nat \<Rightarrow> bytes" where
  "mem_load m a n = map m [a..<a + n]"

definition mem_nat :: "pbmem \<Rightarrow> nat \<Rightarrow> nat \<Rightarrow> nat" where
  "mem_nat m a n = le_val (mem_load m a n)"

definition mem_store :: "pbmem \<Rightarrow> nat \<Rightarrow> bytes \<Rightarrow> pbmem" where
  "mem_store m a bs = (\<lambda>x. if a \<le> x \<and> x < a + length bs then bs ! (x - a) else m x)"

abbreviation mem_ptr :: "pbmem \<Rightarrow> nat \<Rightarrow> nat" where
  "mem_ptr m a \<equiv> mem_nat m a 8"

abbreviation mem_size :: "pbmem \<Rightarrow> nat \<Rightarrow> nat" where
  "mem_size m a \<equiv> mem_nat m a 4"

section \<open>Field descriptors\<close>

definition PB_MAX_REQUIRED_FIELDS :: nat where "PB_MAX_REQUIRED_FIELDS = 64"

definition PB_LTYPE_BOOL :: u8 where "PB_LTYPE_BOOL = 0x00"
definition PB_LTYPE_VARINT :: u8 where "PB_LTYPE_VARINT = 0x01"
definition PB_LTYPE_UVARINT :: u8 where "PB_LTYPE_UVARINT = 0x02"
definition PB_LTYPE_SVARINT :: u8 where "PB_LTYPE_SVARINT = 0x03"
definition PB_LTYPE_FIXED32 :: u8 where "PB_LTYPE_FIXED32 = 0x04"
definition PB_LTYPE_FIXED64 :: u8 where "PB_LTYPE_FIXED64 = 0x05"
definition PB_LTYPE_LAST_PACKABLE :: u8 where "PB_LTYPE_LAST_PACKABLE = 0x05"
definition PB_LTYPE_BYTES :: u8 where "PB_LTYPE_BYTES = 0x06"
definition PB_LTYPE_STRING :: u8 where "PB_LTYPE_STRING = 0x07"
definition PB_LTYPE_SUBMESSAGE :: u8 where "PB_LTYPE_SUBMESSAGE = 0x08"
definition PB_LTYPE_EXTENSION :: u8 where "PB_LTYPE_EXTENSION = 0x09"
definition PB_LTYPE_FIXED_LENGTH_BYTES :: u8 where "PB_LTYPE_FIXED_LENGTH_BYTES = 0x0A"

definition PB_HTYPE_REQUIRED :: u8 where "PB_HTYPE_REQUIRED = 0x00"
definition PB_HTYPE_OPTIONAL :: u8 where "PB_HTYPE_OPTIONAL = 0x10"
definition PB_HTYPE_REPEATED :: u8 where "PB_HTYPE_REPEATED = 0x20"
definition PB_HTYPE_ONEOF :: u8 where "PB_HTYPE_ONEOF = 0x30"

definition PB_ATYPE_STATIC :: u8 where "PB_ATYPE_STATIC = 0x00"
definition PB_ATYPE_POINTER :: u8 where "PB_ATYPE_POINTER = 0x80"
definition PB_ATYPE_CALLBACK :: u8 where "PB_ATYPE_CALLBACK = 0x40"

definition PB_ATYPE :: "u8 \<Rightarrow> u8" where "PB_ATYPE x = x AND 0xC0"
definition PB_HTYPE :: "u8 \<Rightarrow> u8" where "PB_HTYPE x = x AND 0x30"
definition PB_LTYPE :: "u8 \<Rightarrow> u8" where "PB_LTYPE x = x AND 0x0F"

definition PB_SIZE_MAX :: nat where "PB_SIZE_MAX = 0xFFFFFFFF"

text \<open>\<^verbatim>\<open>ptr\<close> is NULL, the descriptors of a submessage by their name, or the bytes of a default value.\<close>

datatype pb_ptr = Null_ptr | Fields_ptr nat | Default_ptr bytes

record pb_field =
  f_tag :: u32
  f_type :: u8
  f_data_offset :: nat
  f_size_offset :: int
  f_data_size :: nat
  f_array_size :: nat
  f_ptr :: pb_ptr

definition PB_LAST_FIELD :: pb_field where
  "PB_LAST_FIELD = \<lparr>f_tag = 0, f_type = 0, f_data_offset = 0, f_size_offset = 0, f_data_size = 0, f_array_size = 0, f_ptr = Null_ptr\<rparr>"

text \<open>An array of descriptors is the list of those before the terminator.\<close>

definition field_at :: "pb_field list \<Rightarrow> nat \<Rightarrow> pb_field" where
  "field_at flds i = (if i < length flds then flds ! i else PB_LAST_FIELD)"

abbreviation field_ltype :: "pb_field \<Rightarrow> u8" where "field_ltype f \<equiv> PB_LTYPE (f_type f)"
abbreviation field_htype :: "pb_field \<Rightarrow> u8" where "field_htype f \<equiv> PB_HTYPE (f_type f)"
abbreviation field_atype :: "pb_field \<Rightarrow> u8" where "field_atype f \<equiv> PB_ATYPE (f_type f)"

section \<open>The iterator\<close>

record pb_field_iter =
  it_start :: "pb_field list"
  it_pos :: nat
  it_required :: nat
  it_dest :: nat
  it_pData :: nat
  it_pSize :: nat

definition it_field :: "pb_field_iter \<Rightarrow> pb_field" where
  "it_field iter = field_at (it_start iter) (it_pos iter)"

definition size_addr :: "nat \<Rightarrow> pb_field \<Rightarrow> nat" where
  "size_addr pData f = nat (int pData + f_size_offset f)"

definition pb_field_iter_begin :: "pb_field list \<Rightarrow> nat \<Rightarrow> bool \<times> pb_field_iter" where
  "pb_field_iter_begin flds dest_struct
     = (let f = field_at flds 0;
            pData = (if dest_struct = 0 then 0 else dest_struct + f_data_offset f);
            pSize = (if dest_struct = 0 then 0 else size_addr pData f) in
        (f_tag f \<noteq> 0, \<lparr>it_start = flds, it_pos = 0, it_required = 0, it_dest = dest_struct, it_pData = pData, it_pSize = pSize\<rparr>))"

definition pb_field_iter_next :: "pb_field_iter \<Rightarrow> bool \<times> pb_field_iter" where
  "pb_field_iter_next iter
     = (let prev_field = it_field iter; pos = it_pos iter + 1; f = field_at (it_start iter) pos in
        if f_tag prev_field = 0 then (False, iter)
        else if f_tag f = 0 then (False, snd (pb_field_iter_begin (it_start iter) (it_dest iter)))
        else if field_htype prev_field = PB_HTYPE_ONEOF \<and> field_htype f = PB_HTYPE_ONEOF \<and> f_data_offset f = PB_SIZE_MAX
        then (True, iter\<lparr>it_pos := pos\<rparr>)
        else
          let prev_size = (if field_atype prev_field = PB_ATYPE_STATIC \<and> field_htype prev_field = PB_HTYPE_REPEATED
                           then f_data_size prev_field * f_array_size prev_field
                           else if field_atype prev_field = PB_ATYPE_POINTER then 8
                           else f_data_size prev_field);
              required = (if field_htype prev_field = PB_HTYPE_REQUIRED then it_required iter + 1 else it_required iter);
              pData = it_pData iter + prev_size + f_data_offset f in
          (True, iter\<lparr>it_pos := pos, it_required := required, it_pData := pData, it_pSize := size_addr pData f\<rparr>))"

text \<open>The loop of \<^verbatim>\<open>pb_field_iter_find\<close>, with the position it started from.\<close>

partial_function (option) iter_find_loop :: "u32 \<Rightarrow> nat \<Rightarrow> pb_field_iter \<Rightarrow> (bool \<times> pb_field_iter) option" where
  [code]: "iter_find_loop tag start iter
     = (if f_tag (it_field iter) = tag \<and> field_ltype (it_field iter) \<noteq> PB_LTYPE_EXTENSION then Some (True, iter)
        else case pb_field_iter_next iter of (_, iter) \<Rightarrow>
          if it_pos iter \<noteq> start then iter_find_loop tag start iter else Some (False, iter))"

definition pb_field_iter_find :: "pb_field_iter \<Rightarrow> u32 \<Rightarrow> (bool \<times> pb_field_iter) option" where
  "pb_field_iter_find iter tag = iter_find_loop tag (it_pos iter) iter"

section \<open>Where the iterator stands\<close>

text \<open>
  The state of the iterator at position \<open>i\<close>, computed from the front; a message of the program has no tag 0.
\<close>

primrec iter_at :: "pb_field list \<Rightarrow> nat \<Rightarrow> nat \<Rightarrow> pb_field_iter" where
  "iter_at flds dest 0 = snd (pb_field_iter_begin flds dest)"
| "iter_at flds dest (Suc i) = snd (pb_field_iter_next (iter_at flds dest i))"

definition fields_ok :: "pb_field list \<Rightarrow> bool" where
  "fields_ok flds \<longleftrightarrow> (\<forall>f \<in> set flds. f_tag f \<noteq> 0)"

lemma begin_at: "pb_field_iter_begin flds dest = (f_tag (field_at flds 0) \<noteq> 0, iter_at flds dest 0)"
  by (simp add: pb_field_iter_begin_def Let_def)

lemma begin_more: "fields_ok flds \<Longrightarrow> fst (pb_field_iter_begin flds dest) \<longleftrightarrow> flds \<noteq> []"
  by (auto simp: pb_field_iter_begin_def Let_def field_at_def fields_ok_def PB_LAST_FIELD_def)

lemma iter_at_pos:
  assumes "fields_ok flds" "i < length flds"
  shows "it_start (iter_at flds dest i) = flds" "it_pos (iter_at flds dest i) = i" "it_dest (iter_at flds dest i) = dest"
proof -
  have "it_start (iter_at flds dest i) = flds \<and> it_pos (iter_at flds dest i) = i \<and> it_dest (iter_at flds dest i) = dest"
    using assms(2)
  proof (induction i)
    case 0
    then show ?case by (simp add: pb_field_iter_begin_def Let_def)
  next
    case (Suc i)
    then have IH: "it_start (iter_at flds dest i) = flds" "it_pos (iter_at flds dest i) = i" "it_dest (iter_at flds dest i) = dest"
      by auto
    have "f_tag (flds ! i) \<noteq> 0" "f_tag (flds ! Suc i) \<noteq> 0"
      using assms(1) Suc.prems nth_mem by (auto simp: fields_ok_def)
    then show ?case using IH Suc.prems by (simp add: pb_field_iter_next_def Let_def it_field_def field_at_def)
  qed
  then show "it_start (iter_at flds dest i) = flds" "it_pos (iter_at flds dest i) = i" "it_dest (iter_at flds dest i) = dest"
    by auto
qed

lemma iter_at_field: "fields_ok flds \<Longrightarrow> i < length flds \<Longrightarrow> it_field (iter_at flds dest i) = flds ! i"
  by (simp add: it_field_def iter_at_pos field_at_def)

lemma next_at:
  assumes "fields_ok flds" "i < length flds"
  shows "pb_field_iter_next (iter_at flds dest i)
    = (Suc i < length flds, iter_at flds dest (if Suc i < length flds then Suc i else 0))"
proof -
  have t: "f_tag (flds ! i) \<noteq> 0" using assms nth_mem by (auto simp: fields_ok_def)
  show ?thesis
  proof (cases "Suc i < length flds")
    case True
    then have "f_tag (flds ! Suc i) \<noteq> 0" using assms(1) nth_mem by (auto simp: fields_ok_def)
    then have "fst (pb_field_iter_next (iter_at flds dest i))"
      using t True assms by (simp add: pb_field_iter_next_def Let_def it_field_def iter_at_pos field_at_def)
    then show ?thesis using True by (auto intro: prod_eqI)
  next
    case False
    then show ?thesis
      using t assms by (simp add: pb_field_iter_next_def Let_def it_field_def iter_at_pos field_at_def PB_LAST_FIELD_def)
  qed
qed

text \<open>The search goes once around the fields, from wherever it starts, and ends at the first field that matches.\<close>

definition field_matches :: "u32 \<Rightarrow> pb_field \<Rightarrow> bool" where
  "field_matches tag f \<longleftrightarrow> f_tag f = tag \<and> field_ltype f \<noteq> PB_LTYPE_EXTENSION"

lemma mod_rotate: "i < n \<Longrightarrow> s < n \<Longrightarrow> (i + s) mod n = i \<longleftrightarrow> s = 0" for n :: nat
  by (auto simp: mod_if)

lemma find_loop_at:
  assumes ok: "fields_ok flds" and i: "i < length flds" and s: "s < length flds"
  shows "(\<exists>t. s \<le> t \<and> t < length flds \<and> field_matches tag (flds ! ((i + t) mod length flds))
      \<and> (\<forall>u. s \<le> u \<longrightarrow> u < t \<longrightarrow> \<not> field_matches tag (flds ! ((i + u) mod length flds)))
      \<and> iter_find_loop tag i (iter_at flds dest ((i + s) mod length flds)) = Some (True, iter_at flds dest ((i + t) mod length flds)))
    \<or> (\<forall>t. s \<le> t \<longrightarrow> t < length flds \<longrightarrow> \<not> field_matches tag (flds ! ((i + t) mod length flds)))
      \<and> iter_find_loop tag i (iter_at flds dest ((i + s) mod length flds)) = Some (False, iter_at flds dest i)"
  using s
proof (induction "length flds - s" arbitrary: s)
  case (Suc d)
  define n where "n = length flds"
  define k where "k = (i + s) mod n"
  have n: "0 < n" "i < n" "s < n" using i Suc.prems by (auto simp: n_def)
  have k: "k < length flds" using n by (simp add: k_def n_def)
  have m: "(f_tag (it_field (iter_at flds dest k)) = tag \<and> field_ltype (it_field (iter_at flds dest k)) \<noteq> PB_LTYPE_EXTENSION)
      = field_matches tag (flds ! k)"
    using iter_at_field [OF ok k] by (simp add: field_matches_def)
  have nx: "(if Suc k < length flds then Suc k else 0) = (i + Suc s) mod n"
    using k by (auto simp: k_def n_def mod_Suc not_less)
  have nk: "(i + Suc s) mod n < length flds" using n by (simp add: n_def)
  have e: "iter_find_loop tag i (iter_at flds dest k) = (if field_matches tag (flds ! k) then Some (True, iter_at flds dest k)
      else if (i + Suc s) mod n \<noteq> i then iter_find_loop tag i (iter_at flds dest ((i + Suc s) mod n))
      else Some (False, iter_at flds dest ((i + Suc s) mod n)))"
    by (subst iter_find_loop.simps) (simp only: m next_at [OF ok k] nx prod.case iter_at_pos(2) [OF ok nk] simp_thms)
  show ?case
  proof (cases "field_matches tag (flds ! k)")
    case True
    then show ?thesis using e Suc.prems unfolding k_def n_def by (intro disjI1 exI [of _ s]) auto
  next
    case False
    show ?thesis
    proof (cases "Suc s = n")
      case True
      then have "(i + Suc s) mod n = i" using n by simp
      then have "iter_find_loop tag i (iter_at flds dest k) = Some (False, iter_at flds dest i)" using e False by simp
      moreover have "t = s" if "s \<le> t" "t < length flds" for t using True that by (simp add: n_def)
      ultimately show ?thesis using False unfolding k_def n_def by blast
    next
      case more: False
      then have "(i + Suc s) mod n \<noteq> i" using n mod_rotate [of i n "Suc s"] by simp
      then have e2: "iter_find_loop tag i (iter_at flds dest k) = iter_find_loop tag i (iter_at flds dest ((i + Suc s) mod n))"
        using e False by simp
      have none: "\<not> field_matches tag (flds ! ((i + u) mod length flds))" if "s \<le> u" "u < Suc s" for u
        using False that unfolding k_def n_def by (metis le_antisym less_Suc_eq_le)
      have "d = length flds - Suc s" "Suc s < length flds" using Suc.hyps(2) more n by (auto simp: n_def)
      from Suc.hyps(1) [OF this] show ?thesis
        unfolding e2 [unfolded k_def n_def] using none by (metis Suc_leD Suc_leI not_less not_less_eq_eq)
    qed
  qed
qed simp

lemma iter_find_at:
  assumes "fields_ok flds" "i < length flds"
  shows "if \<exists>f \<in> set flds. field_matches tag f
    then \<exists>j < length flds. field_matches tag (flds ! j) \<and> pb_field_iter_find (iter_at flds dest i) tag = Some (True, iter_at flds dest j)
    else pb_field_iter_find (iter_at flds dest i) tag = Some (False, iter_at flds dest i)"
proof -
  define n where "n = length flds"
  have n: "0 < n" "i < n" using assms(2) by (auto simp: n_def)
  have f: "pb_field_iter_find (iter_at flds dest i) tag = iter_find_loop tag i (iter_at flds dest ((i + 0) mod length flds))"
    using assms by (simp add: pb_field_iter_find_def iter_at_pos)
  have all: "\<exists>t < n. (i + t) mod n = j" if "j < n" for j
  proof (cases "i \<le> j")
    case True
    then show ?thesis using that by (intro exI [of _ "j - i"]) auto
  next
    case False
    then show ?thesis using that n by (intro exI [of _ "n + j - i"]) auto
  qed
  have z: "0 < length flds" using n by (simp add: n_def)
  show ?thesis
    using find_loop_at [OF assms z, of tag dest]
  proof (elim disjE exE conjE)
    fix t
    assume t: "t < length flds" "field_matches tag (flds ! ((i + t) mod length flds))"
      "iter_find_loop tag i (iter_at flds dest ((i + 0) mod length flds)) = Some (True, iter_at flds dest ((i + t) mod length flds))"
    have "(i + t) mod length flds < length flds" using z by simp
    then show ?thesis using t f nth_mem by auto
  next
    assume none: "\<forall>t. 0 \<le> t \<longrightarrow> t < length flds \<longrightarrow> \<not> field_matches tag (flds ! ((i + t) mod length flds))"
      and r: "iter_find_loop tag i (iter_at flds dest ((i + 0) mod length flds)) = Some (False, iter_at flds dest i)"
    have "\<not> field_matches tag f" if "f \<in> set flds" for f
      using that none all unfolding in_set_conv_nth n_def by (metis le0)
    then show ?thesis using r f by auto
  qed
qed

end
