(* ===== verification/Pb_Encode.thy ===== *)
theory Pb_Encode
  imports Pb_Write Pb_Field
begin

text \<open>
  The encoder of \<^verbatim>\<open>nanopb/pb_encode.c\<close>: from a structure in memory and the descriptors of its fields to a stream.
  Functions of the program (callbacks and the types of extensions) are parameters, found under their addresses.
  Messages nest, so \<open>pb_encode\<close> is given the depth to which it may call itself; beyond it the result is \<open>None\<close>.
\<close>

record 'o pb_env =
  msg_fields :: "nat \<Rightarrow> pb_field list"
  cb_encode :: "nat \<Rightarrow> pb_field \<Rightarrow> nat \<Rightarrow> 'o pb_put"
  ext_encode :: "nat \<Rightarrow> nat \<Rightarrow> 'o pb_put"
  ext_field :: "nat \<Rightarrow> pb_field"

text \<open>An encoder of values: descriptor and address.\<close>

type_synonym 'o pb_encoder = "pb_field \<Rightarrow> nat \<Rightarrow> 'o pb_put"

section \<open>Values\<close>

definition safe_read_bool :: "pbmem \<Rightarrow> nat \<Rightarrow> bool" where
  "safe_read_bool m pSize \<longleftrightarrow> m pSize \<noteq> 0"

definition pb_enc_bool :: "pbmem \<Rightarrow> 'o pb_encoder" where
  "pb_enc_bool m field src = pb_encode_varint (if safe_read_bool m src then 1 else 0)"

text \<open>The value of a signed integer of the size of the field, with its sign extended to 64 bits.\<close>

definition load_signed :: "pbmem \<Rightarrow> nat \<Rightarrow> nat \<Rightarrow> u64 option" where
  "load_signed m src n
     = (if n = 1 then Some (scast (word_of_nat (mem_nat m src 1) :: u8))
        else if n = 2 then Some (scast (word_of_nat (mem_nat m src 2) :: u16))
        else if n = 4 then Some (scast (word_of_nat (mem_nat m src 4) :: u32))
        else if n = 8 then Some (word_of_nat (mem_nat m src 8))
        else None)"

definition load_unsigned :: "pbmem \<Rightarrow> nat \<Rightarrow> nat \<Rightarrow> u64 option" where
  "load_unsigned m src n = (if n \<in> {1, 2, 4, 8} then Some (word_of_nat (mem_nat m src n)) else None)"

definition pb_enc_varint :: "pbmem \<Rightarrow> 'o pb_encoder" where
  "pb_enc_varint m field src
     = (case load_signed m src (f_data_size field) of
          None \<Rightarrow> os_error ''invalid data_size''
        | Some v \<Rightarrow> pb_encode_varint v)"

definition pb_enc_uvarint :: "pbmem \<Rightarrow> 'o pb_encoder" where
  "pb_enc_uvarint m field src
     = (case load_unsigned m src (f_data_size field) of
          None \<Rightarrow> os_error ''invalid data_size''
        | Some v \<Rightarrow> pb_encode_varint v)"

definition pb_enc_svarint :: "pbmem \<Rightarrow> 'o pb_encoder" where
  "pb_enc_svarint m field src
     = (case load_signed m src (f_data_size field) of
          None \<Rightarrow> os_error ''invalid data_size''
        | Some v \<Rightarrow> pb_encode_svarint v)"

definition pb_enc_fixed32 :: "pbmem \<Rightarrow> 'o pb_encoder" where
  "pb_enc_fixed32 m field src = pb_encode_fixed32 (word_of_nat (mem_nat m src 4))"

definition pb_enc_fixed64 :: "pbmem \<Rightarrow> 'o pb_encoder" where
  "pb_enc_fixed64 m field src = pb_encode_fixed64 (word_of_nat (mem_nat m src 8))"

text \<open>A \<^verbatim>\<open>pb_bytes_array_t\<close> is its size, four bytes, and then its bytes.\<close>

definition pb_enc_bytes :: "pbmem \<Rightarrow> 'o pb_encoder" where
  "pb_enc_bytes m field src
     = (if src = 0 then pb_encode_string [] 0
        else if field_atype field = PB_ATYPE_STATIC \<and> mem_size m src > (f_data_size field + size_bound - 4) mod size_bound
        then os_error ''bytes size exceeded''
        else pb_encode_string (mem_load m (src + 4) (mem_size m src)) (mem_size m src))"

function string_length :: "pbmem \<Rightarrow> nat \<Rightarrow> nat \<Rightarrow> nat \<Rightarrow> nat" where
  "string_length m p max_size n = (if n < max_size \<and> m (p + n) \<noteq> 0 then string_length m p max_size (n + 1) else n)"
  by pat_completeness auto

termination string_length
  by (relation "measure (\<lambda>(m, p, max_size, n). max_size - n)") auto

declare string_length.simps [simp del]

definition pb_enc_string :: "pbmem \<Rightarrow> 'o pb_encoder" where
  "pb_enc_string m field src
     = (let max_size = (if field_atype field = PB_ATYPE_POINTER then size_bound - 1 else f_data_size field);
            n = (if src = 0 then 0 else string_length m src max_size 0) in
        pb_encode_string (mem_load m src n) n)"

definition pb_enc_fixed_length_bytes :: "pbmem \<Rightarrow> 'o pb_encoder" where
  "pb_enc_fixed_length_bytes m field src = pb_encode_string (mem_load m src (f_data_size field)) (f_data_size field)"

section \<open>Tags and submessages\<close>

definition pb_encode_tag_for_field :: "pb_field \<Rightarrow> 'o pb_put" where
  "pb_encode_tag_for_field field
     = (let t = field_ltype field in
        if t = PB_LTYPE_BOOL \<or> t = PB_LTYPE_VARINT \<or> t = PB_LTYPE_UVARINT \<or> t = PB_LTYPE_SVARINT
        then pb_encode_tag PB_WT_VARINT (f_tag field)
        else if t = PB_LTYPE_FIXED32 then pb_encode_tag PB_WT_32BIT (f_tag field)
        else if t = PB_LTYPE_FIXED64 then pb_encode_tag PB_WT_64BIT (f_tag field)
        else if t = PB_LTYPE_BYTES \<or> t = PB_LTYPE_STRING \<or> t = PB_LTYPE_SUBMESSAGE \<or> t = PB_LTYPE_FIXED_LENGTH_BYTES
        then pb_encode_tag PB_WT_STRING (f_tag field)
        else os_error ''invalid field type'')"

text \<open>\<open>encode\<close> is the call of \<^verbatim>\<open>pb_encode\<close> on the submessage.\<close>

definition pb_encode_submessage :: "'o pb_put \<Rightarrow> 'o pb_put" where
  "pb_encode_submessage encode stream
     = (case encode PB_OSTREAM_SIZING of
          None \<Rightarrow> None
        | Some (False, substream) \<Rightarrow> Some (False, stream\<lparr>os_errmsg := os_errmsg substream\<rparr>)
        | Some (True, substream) \<Rightarrow>
            let len = os_written substream in
            os_then (pb_encode_varint (word_of_nat len)) (\<lambda>stream.
              if (case os_sink stream of Sizing \<Rightarrow> True | _ \<Rightarrow> False) then pb_write [] len stream
              else if size_add (os_written stream) len > os_max stream then os_error ''stream full'' stream
              else
                (case encode \<lparr>os_sink = os_sink stream, os_max = len, os_written = 0, os_errmsg = None\<rparr> of
                   None \<Rightarrow> None
                 | Some (status, substream) \<Rightarrow>
                     let stream = stream\<lparr>os_written := size_add (os_written stream) (os_written substream),
                                         os_sink := os_sink substream, os_errmsg := os_errmsg substream\<rparr> in
                     if os_written substream \<noteq> len then os_error ''submsg size changed'' stream
                     else Some (status, stream))) stream)"

text \<open>\<open>sub\<close> is \<^verbatim>\<open>pb_encode\<close>.\<close>

definition pb_enc_submessage :: "'o pb_env \<Rightarrow> (pb_field list \<Rightarrow> nat \<Rightarrow> 'o pb_put) \<Rightarrow> 'o pb_encoder" where
  "pb_enc_submessage env sub field src
     = (case f_ptr field of
          Null_ptr \<Rightarrow> os_error ''invalid field descriptor''
        | Fields_ptr k \<Rightarrow> pb_encode_submessage (sub (msg_fields env k) src)
        | Default_ptr _ \<Rightarrow> (\<lambda>_. None))"

definition PB_ENCODERS :: "'o pb_env \<Rightarrow> (pb_field list \<Rightarrow> nat \<Rightarrow> 'o pb_put) \<Rightarrow> pbmem \<Rightarrow> u8 \<Rightarrow> 'o pb_encoder" where
  "PB_ENCODERS env sub m t
     = (if t = PB_LTYPE_BOOL then pb_enc_bool m
        else if t = PB_LTYPE_VARINT then pb_enc_varint m
        else if t = PB_LTYPE_UVARINT then pb_enc_uvarint m
        else if t = PB_LTYPE_SVARINT then pb_enc_svarint m
        else if t = PB_LTYPE_FIXED32 then pb_enc_fixed32 m
        else if t = PB_LTYPE_FIXED64 then pb_enc_fixed64 m
        else if t = PB_LTYPE_BYTES then pb_enc_bytes m
        else if t = PB_LTYPE_STRING then pb_enc_string m
        else if t = PB_LTYPE_SUBMESSAGE then pb_enc_submessage env sub
        else if t = PB_LTYPE_FIXED_LENGTH_BYTES then pb_enc_fixed_length_bytes m
        else (\<lambda>_ _ _. None))"

section \<open>Arrays\<close>

text \<open>The loops over the items of an array.\<close>

fun encode_items :: "(nat \<Rightarrow> 'o pb_put) \<Rightarrow> nat \<Rightarrow> nat \<Rightarrow> nat \<Rightarrow> 'o pb_put" where
  "encode_items item 0 p stride = os_true"
| "encode_items item (Suc n) p stride = os_then (item p) (encode_items item n (p + stride) stride)"

definition encode_array :: "pbmem \<Rightarrow> pb_field \<Rightarrow> nat \<Rightarrow> nat \<Rightarrow> 'o pb_encoder \<Rightarrow> 'o pb_put" where
  "encode_array m field pData count func
     = (if count = 0 then os_true
        else if field_atype field \<noteq> PB_ATYPE_POINTER \<and> count > f_array_size field
        then os_error ''array max size exceeded''
        else if field_ltype field \<le> PB_LTYPE_LAST_PACKABLE
        then os_then (pb_encode_tag PB_WT_STRING (f_tag field)) (\<lambda>stream.
          (case (if field_ltype field = PB_LTYPE_FIXED32 then Some (True, PB_OSTREAM_SIZING\<lparr>os_written := 4 * count\<rparr>)
                 else if field_ltype field = PB_LTYPE_FIXED64 then Some (True, PB_OSTREAM_SIZING\<lparr>os_written := 8 * count\<rparr>)
                 else encode_items (func field) count pData (f_data_size field) PB_OSTREAM_SIZING) of
             None \<Rightarrow> None
           | Some (False, _) \<Rightarrow> Some (False, stream)
           | Some (True, sizestream) \<Rightarrow>
               let len = os_written sizestream in
               os_then (pb_encode_varint (word_of_nat len)) (\<lambda>stream.
                 if (case os_sink stream of Sizing \<Rightarrow> True | _ \<Rightarrow> False) then pb_write [] len stream
                 else encode_items (func field) count pData (f_data_size field) stream) stream))
        else
          encode_items (\<lambda>p. os_then (pb_encode_tag_for_field field)
              (if field_atype field = PB_ATYPE_POINTER \<and> (field_ltype field = PB_LTYPE_STRING \<or> field_ltype field = PB_LTYPE_BYTES)
               then func field (mem_ptr m p) else func field p)) count pData (f_data_size field))"

section \<open>Default values\<close>

text \<open>The loop over the fields of a submessage; \<open>body\<close> is the check of one field.\<close>

partial_function (option) check_loop :: "(pb_field \<Rightarrow> nat \<Rightarrow> bool option) \<Rightarrow> pb_field_iter \<Rightarrow> bool option" where
  [code]: "check_loop body iter
     = (case body (it_field iter) (it_pData iter) of
          None \<Rightarrow> None
        | Some zero \<Rightarrow>
            if zero then (case pb_field_iter_next iter of (again, iter) \<Rightarrow> if again then check_loop body iter else Some True)
            else Some False)"

primrec pb_check_proto3_default_value :: "nat \<Rightarrow> 'o pb_env \<Rightarrow> pbmem \<Rightarrow> pb_field \<Rightarrow> nat \<Rightarrow> bool option" where
  "pb_check_proto3_default_value 0 env m field pData = None"
| "pb_check_proto3_default_value (Suc d) env m field pData
     = (let ht = field_htype field; lt = field_ltype field; at = field_atype field; pSize = size_addr pData field in
        if ht = PB_HTYPE_REQUIRED then Some False
        else if ht = PB_HTYPE_REPEATED \<and> f_size_offset field \<noteq> 0 then Some (mem_size m pSize = 0)
        else if ht = PB_HTYPE_REPEATED \<and> at = PB_ATYPE_STATIC then Some False
        else if ht = PB_HTYPE_ONEOF then Some (mem_size m pSize = 0)
        else if ht = PB_HTYPE_OPTIONAL \<and> f_size_offset field \<noteq> 0 then Some (\<not> safe_read_bool m pSize)
        else if at = PB_ATYPE_STATIC \<and> lt = PB_LTYPE_BYTES then Some (mem_size m pData = 0)
        else if at = PB_ATYPE_STATIC \<and> lt = PB_LTYPE_STRING then Some (m pData = 0)
        else if at = PB_ATYPE_STATIC \<and> lt = PB_LTYPE_FIXED_LENGTH_BYTES then Some (f_data_size field = 0)
        else if at = PB_ATYPE_STATIC \<and> lt = PB_LTYPE_SUBMESSAGE
        then (case f_ptr field of
                Fields_ptr k \<Rightarrow>
                  (case pb_field_iter_begin (msg_fields env k) pData of (again, iter) \<Rightarrow>
                     if again then check_loop (pb_check_proto3_default_value d env m) iter else Some True)
              | _ \<Rightarrow> None)
        else if at = PB_ATYPE_POINTER \<and> lt > PB_LTYPE_LAST_PACKABLE then Some (mem_ptr m pData = 0)
        else Some (list_all (\<lambda>b. b = 0) (mem_load m pData (f_data_size field))))"

section \<open>Fields\<close>

text \<open>
  \<^verbatim>\<open>*pSize\<close> read as a boolean or as a count; it is the variable \<^verbatim>\<open>implicit_has\<close> where the field has no size.
\<close>

definition encode_basic_field :: "nat \<Rightarrow> 'o pb_env \<Rightarrow> (pb_field list \<Rightarrow> nat \<Rightarrow> 'o pb_put) \<Rightarrow> pbmem \<Rightarrow> 'o pb_encoder" where
  "encode_basic_field d env sub m field pData stream
     = (let func = PB_ENCODERS env sub m (field_ltype field);
            pSize = size_addr pData field;
            implicit_has = (if f_size_offset field \<noteq> 0 then Some False
                            else if field_htype field = PB_HTYPE_OPTIONAL then map_option Not (pb_check_proto3_default_value d env m field pData)
                            else Some True) in
        case implicit_has of
          None \<Rightarrow> None
        | Some implicit_has \<Rightarrow>
            let value = (if field_atype field = PB_ATYPE_POINTER then mem_ptr m pData else pData);
                implicit_has = (if field_atype field = PB_ATYPE_POINTER then value \<noteq> 0 else implicit_has) in
            (if field_htype field = PB_HTYPE_REQUIRED
             then if value = 0 then os_error ''missing required field'' stream
                  else os_then (pb_encode_tag_for_field field) (func field value) stream
             else if field_htype field = PB_HTYPE_OPTIONAL
             then if (if f_size_offset field \<noteq> 0 then safe_read_bool m pSize else implicit_has)
                  then os_then (pb_encode_tag_for_field field) (func field value) stream
                  else Some (True, stream)
             else if field_htype field = PB_HTYPE_REPEATED
             then encode_array m field value (if f_size_offset field \<noteq> 0 then mem_size m pSize else f_array_size field) func stream
             else if f_size_offset field = 0 then None
             else if mem_size m pSize = unat (f_tag field)
             then os_then (pb_encode_tag_for_field field) (func field value) stream
             else Some (True, stream)))"

text \<open>A \<^verbatim>\<open>pb_callback_t\<close> is the address of its function and then its argument.\<close>

definition encode_callback_field :: "'o pb_env \<Rightarrow> pbmem \<Rightarrow> 'o pb_encoder" where
  "encode_callback_field env m field pData stream
     = (if mem_ptr m pData = 0 then Some (True, stream)
        else case cb_encode env (mem_ptr m pData) field (pData + 8) stream of
               None \<Rightarrow> None
             | Some (ok, stream) \<Rightarrow> if ok then Some (True, stream) else os_error ''callback error'' stream)"

definition encode_field :: "nat \<Rightarrow> 'o pb_env \<Rightarrow> (pb_field list \<Rightarrow> nat \<Rightarrow> 'o pb_put) \<Rightarrow> pbmem \<Rightarrow> 'o pb_encoder" where
  "encode_field d env sub m field pData
     = (if field_atype field = PB_ATYPE_STATIC \<or> field_atype field = PB_ATYPE_POINTER
        then encode_basic_field d env sub m field pData
        else if field_atype field = PB_ATYPE_CALLBACK then encode_callback_field env m field pData
        else os_error ''invalid field type'')"

text \<open>
  A \<^verbatim>\<open>pb_extension_t\<close> is the addresses of its type, its data and the next extension; a type is the addresses of its
  functions \<^verbatim>\<open>decode\<close> and \<^verbatim>\<open>encode\<close> and of the descriptor of its field.
\<close>

definition default_extension_encoder :: "nat \<Rightarrow> 'o pb_env \<Rightarrow> (pb_field list \<Rightarrow> nat \<Rightarrow> 'o pb_put) \<Rightarrow> pbmem \<Rightarrow> nat \<Rightarrow> 'o pb_put" where
  "default_extension_encoder d env sub m extension
     = (let field = ext_field env (mem_ptr m (mem_ptr m extension + 16)) in
        if field_atype field = PB_ATYPE_POINTER then encode_field d env sub m field (extension + 8)
        else encode_field d env sub m field (mem_ptr m (extension + 8)))"

partial_function (option) extension_loop :: "'o pb_env \<Rightarrow> (nat \<Rightarrow> 'o pb_put) \<Rightarrow> pbmem \<Rightarrow> nat
    \<Rightarrow> 'o pb_ostream \<Rightarrow> (bool \<times> 'o pb_ostream) option" where
  [code]: "extension_loop env dflt m extension stream
     = (if extension = 0 then Some (True, stream)
        else
          let encode = mem_ptr m (mem_ptr m extension + 8) in
          (case (if encode \<noteq> 0 then ext_encode env encode extension stream else dflt extension stream) of
             None \<Rightarrow> None
           | Some (status, stream) \<Rightarrow>
               if status then extension_loop env dflt m (mem_ptr m (extension + 16)) stream else Some (False, stream)))"

definition encode_extension_field :: "nat \<Rightarrow> 'o pb_env \<Rightarrow> (pb_field list \<Rightarrow> nat \<Rightarrow> 'o pb_put) \<Rightarrow> pbmem \<Rightarrow> 'o pb_encoder" where
  "encode_extension_field d env sub m field pData
     = extension_loop env (default_extension_encoder d env sub m) m (mem_ptr m pData)"

section \<open>Messages\<close>

partial_function (option) encode_loop :: "'o pb_encoder \<Rightarrow> pb_field_iter \<Rightarrow> 'o pb_ostream \<Rightarrow> (bool \<times> 'o pb_ostream) option" where
  [code]: "encode_loop body iter stream
     = (case body (it_field iter) (it_pData iter) stream of
          None \<Rightarrow> None
        | Some (ok, stream) \<Rightarrow>
            if ok then (case pb_field_iter_next iter of (again, iter) \<Rightarrow> if again then encode_loop body iter stream else Some (True, stream))
            else Some (False, stream))"

primrec pb_encode :: "nat \<Rightarrow> 'o pb_env \<Rightarrow> pbmem \<Rightarrow> pb_field list \<Rightarrow> nat \<Rightarrow> 'o pb_put" where
  "pb_encode 0 env m flds src = (\<lambda>_. None)"
| "pb_encode (Suc d) env m flds src
     = (\<lambda>stream. case pb_field_iter_begin flds src of (again, iter) \<Rightarrow>
          if \<not> again then Some (True, stream)
          else encode_loop (\<lambda>field pData.
                 if field_ltype field = PB_LTYPE_EXTENSION
                 then encode_extension_field d env (pb_encode d env m) m field pData
                 else encode_field d env (pb_encode d env m) m field pData) iter stream)"

definition pb_encode_delimited :: "nat \<Rightarrow> 'o pb_env \<Rightarrow> pbmem \<Rightarrow> pb_field list \<Rightarrow> nat \<Rightarrow> 'o pb_put" where
  "pb_encode_delimited d env m flds src = pb_encode_submessage (pb_encode d env m flds src)"

definition pb_encode_nullterminated :: "nat \<Rightarrow> 'o pb_env \<Rightarrow> pbmem \<Rightarrow> pb_field list \<Rightarrow> nat \<Rightarrow> 'o pb_put" where
  "pb_encode_nullterminated d env m flds src = os_then (pb_encode d env m flds src) (pb_write [0] 1)"

definition pb_get_encoded_size :: "nat \<Rightarrow> 'o pb_env \<Rightarrow> pbmem \<Rightarrow> pb_field list \<Rightarrow> nat \<Rightarrow> nat option option" where
  "pb_get_encoded_size d env m flds src
     = (case pb_encode d env m flds src PB_OSTREAM_SIZING of
          None \<Rightarrow> None
        | Some (ok, stream) \<Rightarrow> Some (if ok then Some (os_written stream) else None))"

end
