(* ===== verification/Pb_Spec.thy ===== *)
theory Pb_Spec
  imports Pb_Emit Pb_Encode
begin

text \<open>
  What a structure in memory stands for, told apart from the code that encodes it: numbers and strings in memory, where
  the fields are, which of them have their default value, and the chain of extensions.
\<close>

section \<open>Numbers and strings\<close>

definition unsigned_at :: "pbmem \<Rightarrow> nat \<Rightarrow> nat \<Rightarrow> nat" where
  "unsigned_at m a n = le_val (mem_load m a n)"

definition signed_at :: "pbmem \<Rightarrow> nat \<Rightarrow> nat \<Rightarrow> int" where
  "signed_at m a n = (let v = unsigned_at m a n in if 2 * v < 256 ^ n then int v else int v - 256 ^ n)"

definition twos_complement :: "int \<Rightarrow> nat" where
  "twos_complement i = nat (i mod 2 ^ 64)"

definition c_string :: "pbmem \<Rightarrow> nat \<Rightarrow> nat \<Rightarrow> bytes" where
  "c_string m a n = takeWhile (\<lambda>b. b \<noteq> 0) (mem_load m a n)"

lemma unsigned_at_bound: "unsigned_at m a n < 256 ^ n"
  using le_val_bound [of "mem_load m a n"] by (simp add: unsigned_at_def mem_load_def)

lemma mem_nat_unsigned: "mem_nat m a n = unsigned_at m a n"
  by (simp add: mem_nat_def unsigned_at_def)

lemma sint_of_nat:
  assumes "v < 2 ^ LENGTH('w)"
  shows "sint (word_of_nat v :: 'w::len word) = (if 2 * v < 2 ^ LENGTH('w) then int v else int v - 2 ^ LENGTH('w))"
proof -
  define N :: int where "N = 2 ^ (LENGTH('w) - 1)"
  have N: "2 ^ LENGTH('w) = 2 * N" unfolding N_def by (metis One_nat_def Suc_pred len_gt_0 power_Suc)
  define w where "w = (word_of_nat v :: 'w word)"
  have b: "- N \<le> sint w" "sint w < N" using sint_ge [of w] sint_lt [of w] by (simp_all add: N_def)
  have v: "int v < 2 * N" using assms N by (metis of_nat_less_iff of_nat_numeral of_nat_power)
  have "uint w = int v" using assms by (simp add: w_def uint_nat unat_of_nat)
  moreover have "uint w = sint w mod (2 * N)" using uint_sint [of w] N by (simp add: take_bit_eq_mod)
  ultimately have m: "int v = sint w mod (2 * N)" by simp
  have "(2 * v < 2 ^ LENGTH('w)) = (int v < N)" using N by (metis mult_less_cancel_left_pos of_nat_less_iff of_nat_mult of_nat_numeral of_nat_power zero_less_numeral)
  moreover have "sint w = (if int v < N then int v else int v - 2 * N)"
  proof (cases "sint w < 0")
    case True
    have "sint w mod (2 * N) = (sint w + 2 * N) mod (2 * N)" by simp
    also have "\<dots> = sint w + 2 * N" using True b by (intro mod_pos_pos_trivial) linarith+
    finally show ?thesis using m b True by simp
  next
    case False
    then have "sint w mod (2 * N) = sint w" using b by (intro mod_pos_pos_trivial) linarith+
    then show ?thesis using m b by simp
  qed
  ultimately show ?thesis using N by (simp add: w_def)
qed

lemma signed_word:
  assumes "LENGTH('w) = 8 * n"
  shows "sint (word_of_nat (mem_nat m a n) :: 'w::len word) = signed_at m a n"
proof -
  have "(256 :: nat) ^ n = 2 ^ LENGTH('w)" "(256 :: int) ^ n = 2 ^ LENGTH('w)" using assms by (simp_all add: power_mult)
  then show ?thesis using sint_of_nat [of "unsigned_at m a n", where 'w = 'w] unsigned_at_bound [of m a n]
    by (simp add: signed_at_def mem_nat_unsigned Let_def)
qed

lemma load_signed_at: "load_signed m a n = (if n \<in> {1, 2, 4, 8} then Some (word_of_int (signed_at m a n)) else None)"
proof -
  have s: "scast w = (word_of_int (sint w) :: u64)" for w :: "'w::len word" by (rule scast_eq)
  have n: "sint (word_of_nat (mem_nat m a 1) :: u8) = signed_at m a 1" "sint (word_of_nat (mem_nat m a 2) :: u16) = signed_at m a 2"
    "sint (word_of_nat (mem_nat m a 4) :: u32) = signed_at m a 4" "sint (word_of_nat (mem_nat m a 8) :: u64) = signed_at m a 8"
    by (rule signed_word; simp)+
  have "(word_of_nat (mem_nat m a 8) :: u64) = word_of_int (sint (word_of_nat (mem_nat m a 8) :: u64))" by simp
  then have "(word_of_nat (mem_nat m a 8) :: u64) = word_of_int (signed_at m a 8)" unfolding n(4) .
  then show ?thesis unfolding load_signed_def s n(1-3) by simp
qed

lemma signed_at_range: "n \<in> {1, 2, 4, 8} \<Longrightarrow> - (2 ^ 63) \<le> signed_at m a n \<and> signed_at m a n < 2 ^ 63"
  using unsigned_at_bound [of m a n] by (auto simp: signed_at_def Let_def)

lemma sint_signed_at:
  assumes "n \<in> {1, 2, 4, 8}"
  shows "sint (word_of_int (signed_at m a n) :: u64) = signed_at m a n"
  using signed_at_range [OF assms, of m a] unfolding sint_sbintrunc' by (intro signed_take_bit_int_eq_self) simp_all

lemma unat_twos: "unat (word_of_int i :: u64) = twos_complement i"
  by (simp add: twos_complement_def unat_eq_nat_uint uint_word_of_int)

lemma load_unsigned_at: "load_unsigned m a n = (if n \<in> {1, 2, 4, 8} then Some (word_of_nat (unsigned_at m a n)) else None)"
  by (simp add: load_unsigned_def mem_nat_unsigned)

lemma unat_unsigned_at:
  assumes "n \<in> {1, 2, 4, 8}"
  shows "unat (word_of_nat (unsigned_at m a n) :: u64) = unsigned_at m a n"
proof -
  have "unsigned_at m a n < 2 ^ 64" using assms unsigned_at_bound [of m a n] by auto
  then show ?thesis by (simp add: unat_of_nat)
qed

lemma mem_load_Suc: "mem_load m a (Suc n) = m a # mem_load m (Suc a) n"
  by (simp add: mem_load_def upt_conv_Cons del: upt_Suc)

lemma string_length_at: "k \<le> n \<Longrightarrow> mem_load m (a + k) (string_length m a n k - k) = takeWhile (\<lambda>b. b \<noteq> 0) (mem_load m (a + k) (n - k)) \<and> k \<le> string_length m a n k"
proof (induction "n - k" arbitrary: k)
  case 0
  then have "n = k" by simp
  moreover have "string_length m a k k = k" by (subst string_length.simps) simp
  ultimately show ?case by (simp add: mem_load_def)
next
  case (Suc d)
  have "k < n" using Suc.hyps(2) by linarith
  have l: "mem_load m (a + k) (n - k) = m (a + k) # mem_load m (a + Suc k) (n - Suc k)"
    using mem_load_Suc [of m "a + k" d] Suc.hyps(2) by (metis add_Suc_right diff_Suc_1 diff_Suc_eq_diff_pred diff_commute Suc_eq_plus1 diff_diff_left)
  show ?case
  proof (cases "m (a + k) = 0")
    case True
    then show ?thesis unfolding l by (simp add: string_length.simps [of m a n k] mem_load_def)
  next
    case False
    then have s: "string_length m a n k = string_length m a n (Suc k)" using \<open>k < n\<close> by (subst string_length.simps) simp
    have "d = n - Suc k" "Suc k \<le> n" using Suc.hyps(2) by simp_all
    from Suc.hyps(1) [OF this] have IH: "mem_load m (a + Suc k) (string_length m a n (Suc k) - Suc k)
        = takeWhile (\<lambda>b. b \<noteq> 0) (mem_load m (a + Suc k) (n - Suc k))" "Suc k \<le> string_length m a n (Suc k)" by simp_all
    have "mem_load m (a + k) (string_length m a n (Suc k) - k) = m (a + k) # mem_load m (a + Suc k) (string_length m a n (Suc k) - Suc k)"
      using mem_load_Suc [of m "a + k" "string_length m a n (Suc k) - Suc k"] IH(2) by (simp add: Suc_diff_Suc)
    then show ?thesis unfolding s l using False IH by simp
  qed
qed

lemma string_at: "mem_load m a (string_length m a n 0) = c_string m a n"
  using string_length_at [of 0 n m a] by (simp add: c_string_def)

section \<open>Where the fields are\<close>

text \<open>
  A field lies \<open>f_data_offset\<close> bytes behind the end of the one before it, where a pointer takes eight bytes and an
  array in the structure the room of all its items.  The members of a union are at one address.
\<close>

definition stored_size :: "pb_field \<Rightarrow> nat" where
  "stored_size f
     = (if field_atype f = PB_ATYPE_POINTER then 8
        else if field_atype f = PB_ATYPE_STATIC \<and> field_htype f = PB_HTYPE_REPEATED then f_data_size f * f_array_size f
        else f_data_size f)"

definition same_union :: "pb_field \<Rightarrow> pb_field \<Rightarrow> bool" where
  "same_union f g \<longleftrightarrow> field_htype f = PB_HTYPE_ONEOF \<and> field_htype g = PB_HTYPE_ONEOF \<and> f_data_offset g = 0xFFFFFFFF"

primrec field_addr :: "pb_field list \<Rightarrow> nat \<Rightarrow> nat \<Rightarrow> nat" where
  "field_addr flds src 0 = src + f_data_offset (flds ! 0)"
| "field_addr flds src (Suc i)
     = (if same_union (flds ! i) (flds ! Suc i) then field_addr flds src i
        else field_addr flds src i + stored_size (flds ! i) + f_data_offset (flds ! Suc i))"

definition count_addr :: "nat \<Rightarrow> pb_field \<Rightarrow> nat" where
  "count_addr a f = nat (int a + f_size_offset f)"

lemma size_addr_count: "size_addr a f = count_addr a f"
  by (simp add: size_addr_def count_addr_def)

lemma iter_addr:
  assumes "fields_ok flds" "src \<noteq> 0"
  shows "i < length flds \<Longrightarrow> it_pData (iter_at flds src i) = field_addr flds src i"
proof (induction i)
  case 0
  then show ?case using assms(2) by (simp add: pb_field_iter_begin_def Let_def field_at_def)
next
  case (Suc i)
  then have i: "i < length flds" by simp
  have ne: "PB_ATYPE_POINTER \<noteq> PB_ATYPE_STATIC" by (simp add: PB_ATYPE_POINTER_def PB_ATYPE_STATIC_def)
  have t: "f_tag (flds ! i) \<noteq> 0" "f_tag (flds ! Suc i) \<noteq> 0"
    using assms(1) Suc.prems nth_mem by (auto simp: fields_ok_def)
  have s: "it_start (iter_at flds src i) = flds" "it_pos (iter_at flds src i) = i" by (rule iter_at_pos [OF assms(1) i])+
  have f: "field_at flds (Suc i) = flds ! Suc i" using Suc.prems by (simp add: field_at_def)
  show ?case
    using Suc.IH [OF i] t ne iter_at_field [OF assms(1) i, of src]
    by (auto simp: pb_field_iter_next_def Let_def s f same_union_def stored_size_def PB_SIZE_MAX_def)
qed

section \<open>Default values\<close>

text \<open>\<open>None\<close> where there is no answer: messages nested deeper than \<open>d\<close>, or no description of a submessage.\<close>

fun all_of :: "bool option list \<Rightarrow> bool option" where
  "all_of [] = Some True"
| "all_of (x # xs) = (case x of None \<Rightarrow> None | Some b \<Rightarrow> if b then all_of xs else Some False)"

definition zero_value :: "pbmem \<Rightarrow> pb_field \<Rightarrow> nat \<Rightarrow> bool" where
  "zero_value m f a
     = (if field_atype f = PB_ATYPE_STATIC \<and> field_ltype f = PB_LTYPE_BYTES then unsigned_at m a 4 = 0
        else if field_atype f = PB_ATYPE_STATIC \<and> field_ltype f = PB_LTYPE_STRING then m a = 0
        else if field_atype f = PB_ATYPE_STATIC \<and> field_ltype f = PB_LTYPE_FIXED_LENGTH_BYTES then f_data_size f = 0
        else if field_atype f = PB_ATYPE_POINTER \<and> PB_LTYPE_FIXED64 < field_ltype f then unsigned_at m a 8 = 0
        else set (mem_load m a (f_data_size f)) \<subseteq> {0})"

primrec is_default :: "nat \<Rightarrow> 'o pb_env \<Rightarrow> pbmem \<Rightarrow> pb_field \<Rightarrow> nat \<Rightarrow> bool option" where
  "is_default 0 env m f a = None"
| "is_default (Suc d) env m f a
     = (if field_htype f = PB_HTYPE_REQUIRED then Some False
        else if field_htype f = PB_HTYPE_ONEOF \<or> field_htype f = PB_HTYPE_REPEATED \<and> f_size_offset f \<noteq> 0
        then Some (unsigned_at m (count_addr a f) 4 = 0)
        else if field_htype f = PB_HTYPE_OPTIONAL \<and> f_size_offset f \<noteq> 0 then Some (m (count_addr a f) = 0)
        else if field_htype f = PB_HTYPE_REPEATED \<and> field_atype f = PB_ATYPE_STATIC then Some False
        else if field_atype f = PB_ATYPE_STATIC \<and> field_ltype f = PB_LTYPE_SUBMESSAGE
        then (case f_ptr f of
                Fields_ptr k \<Rightarrow>
                  if a = 0 then None
                  else all_of (map (\<lambda>i. is_default d env m (msg_fields env k ! i) (field_addr (msg_fields env k) a i)) [0..<length (msg_fields env k)])
              | _ \<Rightarrow> None)
        else Some (zero_value m f a))"

lemma check_loop_all:
  assumes ok: "fields_ok flds" "src \<noteq> 0" and body: "\<And>f a z. out f a = Some z \<Longrightarrow> body f a = Some z"
  shows "i < length flds \<Longrightarrow> all_of (map (\<lambda>j. out (flds ! j) (field_addr flds src j)) [i..<length flds]) = Some z
    \<Longrightarrow> check_loop body (iter_at flds src i) = Some z"
proof (induction "length flds - i" arbitrary: i)
  case (Suc n)
  have l: "[i..<length flds] = i # [Suc i..<length flds]" using Suc.prems(1) by (rule upt_conv_Cons)
  define rest where "rest = all_of (map (\<lambda>j. out (flds ! j) (field_addr flds src j)) [Suc i..<length flds])"
  have r: "(case out (flds ! i) (field_addr flds src i) of None \<Rightarrow> None | Some b \<Rightarrow> if b then rest else Some False) = Some z"
    using Suc.prems(2) unfolding l rest_def by (simp only: list.map all_of.simps)
  then obtain b where b0: "out (flds ! i) (field_addr flds src i) = Some b" by (cases "out (flds ! i) (field_addr flds src i)") simp_all
  have b: "out (flds ! i) (field_addr flds src i) = Some b" "b \<Longrightarrow> rest = Some z" "\<not> b \<Longrightarrow> \<not> z"
    using r unfolding b0 by simp_all
  have c: "check_loop body (iter_at flds src i)
      = (if b then (if Suc i < length flds then check_loop body (iter_at flds src (Suc i)) else Some True) else Some False)"
    unfolding check_loop.simps [of body "iter_at flds src i"] iter_at_field [OF ok(1) Suc.prems(1)] iter_addr [OF ok Suc.prems(1)]
      next_at [OF ok(1) Suc.prems(1)] body [OF b(1)] by (simp del: iter_at.simps)
  show ?case
  proof (cases "b \<and> Suc i < length flds")
    case True
    have "length flds - Suc i = n" using Suc.hyps(2) by simp
    then have "check_loop body (iter_at flds src (Suc i)) = Some z"
      using Suc.hyps(1) [of "Suc i"] True b(2) by (simp only: rest_def)
    then show ?thesis unfolding c using True by (simp only: if_True)
  next
    case False
    have "rest = Some True" if "\<not> Suc i < length flds" using that by (simp add: rest_def)
    then show ?thesis unfolding c using False b(2,3) by (cases b) simp_all
  qed
qed simp

lemma zero_bytes: "list_all (\<lambda>b. b = 0) xs \<longleftrightarrow> set xs \<subseteq> {0}"
  by (auto simp: list_all_iff)

lemma is_default_code:
  assumes "\<And>k. fields_ok (msg_fields env k)"
  shows "is_default d env m f a = Some z \<Longrightarrow> pb_check_proto3_default_value d env m f a = Some z"
proof (induction d arbitrary: f a z)
  case (Suc d)
  have h: "PB_HTYPE_REPEATED \<noteq> PB_HTYPE_REQUIRED" "PB_HTYPE_ONEOF \<noteq> PB_HTYPE_REQUIRED" "PB_HTYPE_ONEOF \<noteq> PB_HTYPE_REPEATED"
    "PB_HTYPE_OPTIONAL \<noteq> PB_HTYPE_REQUIRED" "PB_HTYPE_OPTIONAL \<noteq> PB_HTYPE_REPEATED" "PB_HTYPE_OPTIONAL \<noteq> PB_HTYPE_ONEOF"
    by (simp_all add: PB_HTYPE_REQUIRED_def PB_HTYPE_OPTIONAL_def PB_HTYPE_REPEATED_def PB_HTYPE_ONEOF_def)
  have t: "PB_LTYPE_SUBMESSAGE \<noteq> PB_LTYPE_BYTES" "PB_LTYPE_SUBMESSAGE \<noteq> PB_LTYPE_STRING" "PB_LTYPE_SUBMESSAGE \<noteq> PB_LTYPE_FIXED_LENGTH_BYTES"
    "PB_LTYPE_FIXED64 = PB_LTYPE_LAST_PACKABLE" "PB_ATYPE_POINTER \<noteq> PB_ATYPE_STATIC"
    by (simp_all add: PB_LTYPE_SUBMESSAGE_def PB_LTYPE_BYTES_def PB_LTYPE_STRING_def PB_LTYPE_FIXED_LENGTH_BYTES_def
        PB_LTYPE_FIXED64_def PB_LTYPE_LAST_PACKABLE_def PB_ATYPE_POINTER_def PB_ATYPE_STATIC_def)
  note code = pb_check_proto3_default_value.simps is_default.simps Let_def size_addr_count mem_nat_unsigned safe_read_bool_def
  show ?case
  proof (cases "field_htype f = PB_HTYPE_REQUIRED \<or> field_htype f = PB_HTYPE_ONEOF \<or> f_size_offset f \<noteq> 0 \<and> field_htype f = PB_HTYPE_REPEATED
      \<or> f_size_offset f \<noteq> 0 \<and> field_htype f = PB_HTYPE_OPTIONAL \<or> field_htype f = PB_HTYPE_REPEATED \<and> field_atype f = PB_ATYPE_STATIC")
    case True
    then consider "field_htype f = PB_HTYPE_REQUIRED" | "field_htype f = PB_HTYPE_ONEOF" | "f_size_offset f \<noteq> 0" "field_htype f = PB_HTYPE_REPEATED"
      | "f_size_offset f \<noteq> 0" "field_htype f = PB_HTYPE_OPTIONAL" | "f_size_offset f = 0" "field_htype f = PB_HTYPE_REPEATED" "field_atype f = PB_ATYPE_STATIC"
      by blast
    then show ?thesis by cases (use Suc.prems h in \<open>simp_all add: code\<close>)
  next
    case plain: False
    show ?thesis
    proof (cases "field_atype f = PB_ATYPE_STATIC \<and> field_ltype f = PB_LTYPE_SUBMESSAGE")
      case True
      then obtain k where k: "f_ptr f = Fields_ptr k" "a \<noteq> 0"
          "all_of (map (\<lambda>i. is_default d env m (msg_fields env k ! i) (field_addr (msg_fields env k) a i)) [0..<length (msg_fields env k)]) = Some z"
        using Suc.prems plain t by (auto simp: code split: pb_ptr.splits if_splits)
      have "(case pb_field_iter_begin (msg_fields env k) a of (again, iter) \<Rightarrow>
          if again then check_loop (pb_check_proto3_default_value d env m) iter else Some True) = Some z"
      proof (cases "msg_fields env k = []")
        case True
        then show ?thesis using k(3) by (simp add: pb_field_iter_begin_def Let_def field_at_def PB_LAST_FIELD_def)
      next
        case False
        then have "fst (pb_field_iter_begin (msg_fields env k) a)" using begin_more [OF assms] by simp
        moreover have "check_loop (pb_check_proto3_default_value d env m) (iter_at (msg_fields env k) a 0) = Some z"
          by (rule check_loop_all [OF assms k(2) Suc.IH]) (use False k(3) in simp_all)
        ultimately show ?thesis by (simp add: begin_at del: iter_at.simps)
      qed
      then show ?thesis using True plain k(1) t by (simp add: code) auto
    next
      case False
      have c: "(field_htype f = PB_HTYPE_REQUIRED) = False" "(field_htype f = PB_HTYPE_ONEOF) = False"
        "(field_htype f = PB_HTYPE_REPEATED \<and> f_size_offset f \<noteq> 0) = False" "(field_htype f = PB_HTYPE_OPTIONAL \<and> f_size_offset f \<noteq> 0) = False"
        "(field_htype f = PB_HTYPE_REPEATED \<and> field_atype f = PB_ATYPE_STATIC) = False"
        "(field_atype f = PB_ATYPE_STATIC \<and> field_ltype f = PB_LTYPE_SUBMESSAGE) = False"
        using plain False by blast+
      have "is_default (Suc d) env m f a = Some (zero_value m f a)" by (simp only: is_default.simps c if_False simp_thms)
      moreover have "pb_check_proto3_default_value (Suc d) env m f a = Some (zero_value m f a)"
        by (simp only: code zero_value_def zero_bytes c if_False simp_thms t if_distrib [of Some])
      ultimately show ?thesis using Suc.prems by simp
    qed
  qed
qed simp

section \<open>Extensions\<close>

text \<open>The addresses of the extensions in a chain, if it ends.\<close>

partial_function (option) extension_list :: "pbmem \<Rightarrow> nat \<Rightarrow> nat list option" where
  [code]: "extension_list m x
     = (if x = 0 then Some []
        else Option.bind (extension_list m (unsigned_at m (x + 16) 8)) (\<lambda>xs. Some (x # xs)))"

end
