(* ===== verification/Pb_Message.thy ===== *)
theory Pb_Message
  imports Pb_Spec
begin

text \<open>
  What \<^verbatim>\<open>pb_encode\<close> puts: the message in the wire format, as one string that the structure in memory determines.
  What the callbacks and extension functions of the program put is a parameter (\<open>pb_writers\<close>).
\<close>

section \<open>The message as a string\<close>

definition out_seq :: "pb_out list \<Rightarrow> pb_out" where
  "out_seq outs = foldr out_then outs (Puts [])"

definition length_out :: "pb_out \<Rightarrow> pb_out" where
  "length_out r = (case r of Puts w \<Rightarrow> string_out w | _ \<Rightarrow> r)"

definition wire_type :: "u8 \<Rightarrow> u32 option" where
  "wire_type t
     = (if t \<le> PB_LTYPE_SVARINT then Some PB_WT_VARINT
        else if t = PB_LTYPE_FIXED32 then Some PB_WT_32BIT
        else if t = PB_LTYPE_FIXED64 then Some PB_WT_64BIT
        else if t \<le> PB_LTYPE_FIXED_LENGTH_BYTES \<and> t \<noteq> PB_LTYPE_EXTENSION then Some PB_WT_STRING
        else None)"

definition tag_out :: "u32 \<Rightarrow> u32 \<Rightarrow> pb_out" where
  "tag_out wt tag = varint_out (8 * unat tag + unat wt)"

definition field_tag_out :: "pb_field \<Rightarrow> pb_out" where
  "field_tag_out f = (case wire_type (field_ltype f) of None \<Rightarrow> Fails | Some wt \<Rightarrow> tag_out wt (f_tag f))"

text \<open>What the functions of the program put: callbacks by field and address, extensions by the address of the extension.\<close>

record pb_writers =
  callback_out :: "nat \<Rightarrow> pb_field \<Rightarrow> nat \<Rightarrow> pb_out"
  extension_out :: "nat \<Rightarrow> nat \<Rightarrow> pb_out"

text \<open>One value; \<open>sub\<close> is the string of a submessage.  An integer has one, two, four or eight bytes in memory.\<close>

definition value_out :: "'o pb_env \<Rightarrow> (pb_field list \<Rightarrow> nat \<Rightarrow> pb_out) \<Rightarrow> pbmem \<Rightarrow> pb_field \<Rightarrow> nat \<Rightarrow> pb_out" where
  "value_out env sub m f a
     = (let t = field_ltype f in
        if t = PB_LTYPE_BOOL then varint_out (if m a \<noteq> 0 then 1 else 0)
        else if t = PB_LTYPE_VARINT
        then (if f_data_size f \<in> {1, 2, 4, 8} then varint_out (twos_complement (signed_at m a (f_data_size f))) else Fails)
        else if t = PB_LTYPE_UVARINT
        then (if f_data_size f \<in> {1, 2, 4, 8} then varint_out (unsigned_at m a (f_data_size f)) else Fails)
        else if t = PB_LTYPE_SVARINT
        then (if f_data_size f \<in> {1, 2, 4, 8} then varint_out (zigzag (signed_at m a (f_data_size f))) else Fails)
        else if t = PB_LTYPE_FIXED32 then Puts (mem_load m a 4)
        else if t = PB_LTYPE_FIXED64 then Puts (mem_load m a 8)
        else if t = PB_LTYPE_BYTES
        then (if a = 0 then string_out []
              else if \<not> (4 \<le> f_data_size f \<and> f_data_size f < 2 ^ 32) then Undefined
              else if field_atype f = PB_ATYPE_STATIC \<and> f_data_size f < 4 + unsigned_at m a 4 then Fails
              else string_out (mem_load m (a + 4) (unsigned_at m a 4)))
        else if t = PB_LTYPE_STRING
        then string_out (if a = 0 then [] else c_string m a (if field_atype f = PB_ATYPE_POINTER then 2 ^ 64 - 1 else f_data_size f))
        else if t = PB_LTYPE_SUBMESSAGE
        then (case f_ptr f of Null_ptr \<Rightarrow> Fails | Fields_ptr k \<Rightarrow> length_out (sub (msg_fields env k) a) | Default_ptr _ \<Rightarrow> Undefined)
        else if t = PB_LTYPE_FIXED_LENGTH_BYTES then string_out (mem_load m a (f_data_size f))
        else Undefined)"

definition single_out :: "'o pb_env \<Rightarrow> (pb_field list \<Rightarrow> nat \<Rightarrow> pb_out) \<Rightarrow> pbmem \<Rightarrow> pb_field \<Rightarrow> nat \<Rightarrow> pb_out" where
  "single_out env sub m f a = out_then (field_tag_out f) (value_out env sub m f a)"

text \<open>Arrays of numbers are one string; others are one field after the other.\<close>

definition array_out :: "'o pb_env \<Rightarrow> (pb_field list \<Rightarrow> nat \<Rightarrow> pb_out) \<Rightarrow> pbmem \<Rightarrow> pb_field \<Rightarrow> nat \<Rightarrow> nat \<Rightarrow> pb_out" where
  "array_out env sub m f a count
     = (let items = map (\<lambda>i. a + i * f_data_size f) [0..<count];
            indirect = (field_atype f = PB_ATYPE_POINTER \<and> (field_ltype f = PB_LTYPE_STRING \<or> field_ltype f = PB_LTYPE_BYTES)) in
        if count = 0 then Puts []
        else if field_atype f \<noteq> PB_ATYPE_POINTER \<and> count > f_array_size f then Fails
        else if field_ltype f \<le> PB_LTYPE_LAST_PACKABLE
        then out_then (tag_out PB_WT_STRING (f_tag f)) (length_out (out_seq (map (value_out env sub m f) items)))
        else out_seq (map (\<lambda>p. single_out env sub m f (if indirect then unsigned_at m p 8 else p)) items))"

definition basic_out :: "nat \<Rightarrow> 'o pb_env \<Rightarrow> (pb_field list \<Rightarrow> nat \<Rightarrow> pb_out) \<Rightarrow> pbmem \<Rightarrow> pb_field \<Rightarrow> nat \<Rightarrow> pb_out" where
  "basic_out d env sub m f a
     = (let v = (if field_atype f = PB_ATYPE_POINTER then unsigned_at m a 8 else a);
            count = unsigned_at m (count_addr a f) 4 in
        if field_htype f = PB_HTYPE_REQUIRED then (if v = 0 then Fails else single_out env sub m f v)
        else if field_htype f = PB_HTYPE_OPTIONAL
        then (if f_size_offset f \<noteq> 0 then (if m (count_addr a f) \<noteq> 0 then single_out env sub m f v else Puts [])
              else case is_default d env m f a of
                     None \<Rightarrow> Undefined
                   | Some zero \<Rightarrow>
                       if (if field_atype f = PB_ATYPE_POINTER then v = 0 else zero) then Puts [] else single_out env sub m f v)
        else if field_htype f = PB_HTYPE_REPEATED
        then array_out env sub m f v (if f_size_offset f \<noteq> 0 then count else f_array_size f)
        else if f_size_offset f = 0 then Undefined
        else if count = unat (f_tag f) then single_out env sub m f v
        else Puts [])"

definition plain_out :: "nat \<Rightarrow> 'o pb_env \<Rightarrow> pb_writers \<Rightarrow> (pb_field list \<Rightarrow> nat \<Rightarrow> pb_out) \<Rightarrow> pbmem \<Rightarrow> pb_field \<Rightarrow> nat \<Rightarrow> pb_out" where
  "plain_out d env ws sub m f a
     = (if field_atype f = PB_ATYPE_STATIC \<or> field_atype f = PB_ATYPE_POINTER then basic_out d env sub m f a
        else if field_atype f = PB_ATYPE_CALLBACK
        then (if unsigned_at m a 8 = 0 then Puts [] else callback_out ws (unsigned_at m a 8) f (a + 8))
        else Fails)"

text \<open>
  An extension is written by the function of its type, or else like the field that its type describes; a pointer is then
  stored in the extension itself.
\<close>

definition one_extension_out :: "nat \<Rightarrow> 'o pb_env \<Rightarrow> pb_writers \<Rightarrow> (pb_field list \<Rightarrow> nat \<Rightarrow> pb_out) \<Rightarrow> pbmem \<Rightarrow> nat \<Rightarrow> pb_out" where
  "one_extension_out d env ws sub m x
     = (let ty = unsigned_at m x 8; encode = unsigned_at m (ty + 8) 8; f = ext_field env (unsigned_at m (ty + 16) 8) in
        if encode \<noteq> 0 then extension_out ws encode x
        else plain_out d env ws sub m f (if field_atype f = PB_ATYPE_POINTER then x + 8 else unsigned_at m (x + 8) 8))"

definition extensions_out :: "nat \<Rightarrow> 'o pb_env \<Rightarrow> pb_writers \<Rightarrow> (pb_field list \<Rightarrow> nat \<Rightarrow> pb_out) \<Rightarrow> pbmem \<Rightarrow> nat \<Rightarrow> pb_out" where
  "extensions_out d env ws sub m x
     = (case extension_list m x of None \<Rightarrow> Undefined | Some xs \<Rightarrow> out_seq (map (one_extension_out d env ws sub m) xs))"

definition field_out :: "nat \<Rightarrow> 'o pb_env \<Rightarrow> pb_writers \<Rightarrow> (pb_field list \<Rightarrow> nat \<Rightarrow> pb_out) \<Rightarrow> pbmem \<Rightarrow> pb_field \<Rightarrow> nat \<Rightarrow> pb_out" where
  "field_out d env ws sub m f a
     = (if field_ltype f = PB_LTYPE_EXTENSION then extensions_out d env ws sub m (unsigned_at m a 8) else plain_out d env ws sub m f a)"

text \<open>The fields in order; there is no message at NULL.\<close>

primrec message_out :: "nat \<Rightarrow> 'o pb_env \<Rightarrow> pb_writers \<Rightarrow> pbmem \<Rightarrow> pb_field list \<Rightarrow> nat \<Rightarrow> pb_out" where
  "message_out 0 env ws m flds src = Undefined"
| "message_out (Suc d) env ws m flds src
     = (if flds = [] then Puts []
        else if src = 0 then Undefined
        else out_seq (map (\<lambda>i. field_out d env ws (message_out d env ws m) m (flds ! i) (field_addr flds src i)) [0..<length flds]))"

text \<open>The functions of the program put what they are said to.\<close>

definition writers_ok :: "'o pb_env \<Rightarrow> pb_writers \<Rightarrow> bool" where
  "writers_ok env ws \<longleftrightarrow>
     (\<forall>p f a. puts (cb_encode env p f a) (callback_out ws p f a)) \<and> (\<forall>p x. puts (ext_encode env p x) (extension_out ws p x))"

section \<open>The encoder puts it\<close>

lemma out_seq_Nil [simp]: "out_seq [] = Puts []" by (simp add: out_seq_def)
lemma out_seq_Cons [simp]: "out_seq (a # as) = out_then a (out_seq as)" by (simp add: out_seq_def)

lemma ltype_cases:
  obtains "t = PB_LTYPE_BOOL" | "t = PB_LTYPE_VARINT" | "t = PB_LTYPE_UVARINT" | "t = PB_LTYPE_SVARINT" | "t = PB_LTYPE_FIXED32" | "t = PB_LTYPE_FIXED64" | "t = PB_LTYPE_BYTES" | "t = PB_LTYPE_STRING"
    | "t = PB_LTYPE_SUBMESSAGE" | "t = PB_LTYPE_FIXED_LENGTH_BYTES" | "t = PB_LTYPE_EXTENSION" | "PB_LTYPE_FIXED_LENGTH_BYTES < t"
proof -
  have "unat t = 0 \<or> unat t = 1 \<or> unat t = 2 \<or> unat t = 3 \<or> unat t = 4 \<or> unat t = 5 \<or> unat t = 6 \<or> unat t = 7 \<or> unat t = 8 \<or> unat t = 9 \<or> unat t = 10 \<or> 10 < unat t"
    by presburger
  then show ?thesis
    using that unfolding PB_LTYPE_BOOL_def PB_LTYPE_VARINT_def PB_LTYPE_UVARINT_def PB_LTYPE_SVARINT_def PB_LTYPE_FIXED32_def PB_LTYPE_FIXED64_def PB_LTYPE_BYTES_def PB_LTYPE_STRING_def
      PB_LTYPE_SUBMESSAGE_def PB_LTYPE_FIXED_LENGTH_BYTES_def PB_LTYPE_EXTENSION_def
    by (auto simp: word_le_nat_alt word_less_nat_alt word_unat_eq_iff)
qed

lemma svarint_cases: "t \<le> PB_LTYPE_SVARINT \<longleftrightarrow> t = PB_LTYPE_BOOL \<or> t = PB_LTYPE_VARINT \<or> t = PB_LTYPE_UVARINT \<or> t = PB_LTYPE_SVARINT"
proof -
  have "unat t \<le> 3 \<longleftrightarrow> unat t = 0 \<or> unat t = 1 \<or> unat t = 2 \<or> unat t = 3" by linarith
  then show ?thesis
    unfolding PB_LTYPE_SVARINT_def PB_LTYPE_BOOL_def PB_LTYPE_VARINT_def PB_LTYPE_UVARINT_def
    by (simp add: word_le_nat_alt word_unat_eq_iff)
qed

lemmas ltype_defs = PB_LTYPE_BOOL_def PB_LTYPE_VARINT_def PB_LTYPE_UVARINT_def PB_LTYPE_SVARINT_def PB_LTYPE_FIXED32_def
  PB_LTYPE_FIXED64_def PB_LTYPE_BYTES_def PB_LTYPE_STRING_def PB_LTYPE_SUBMESSAGE_def PB_LTYPE_EXTENSION_def PB_LTYPE_FIXED_LENGTH_BYTES_def
  PB_LTYPE_LAST_PACKABLE_def

lemmas wire_defs = PB_WT_VARINT_def PB_WT_64BIT_def PB_WT_STRING_def PB_WT_32BIT_def

lemma puts_tag_for_field: "puts (pb_encode_tag_for_field f) (field_tag_out f)"
proof -
  define t where "t = field_ltype f"
  have tag: "puts (pb_encode_tag wt (f_tag f)) (tag_out wt (f_tag f))" if "wt \<in> {PB_WT_VARINT, PB_WT_64BIT, PB_WT_STRING, PB_WT_32BIT}" for wt
    using that puts_tag [of wt "f_tag f"] by (auto simp: tag_out_def wire_defs)
  show ?thesis
    unfolding pb_encode_tag_for_field_def field_tag_out_def wire_type_def t_def [symmetric] Let_def svarint_cases
    by (rule ltype_cases [of t]) (use tag puts_error in \<open>auto simp: svarint_cases ltype_defs\<close>)
qed

lemma puts_items:
  assumes "\<And>p. puts (item p) (out p)"
  shows "puts (encode_items item n a stride) (out_seq (map out (map (\<lambda>i. a + i * stride) [0..<n])))"
proof (induction n arbitrary: a)
  case (Suc n)
  have "map out (map (\<lambda>i. a + i * stride) [0..<Suc n]) = out a # map out (map (\<lambda>i. (a + stride) + i * stride) [0..<n])"
    by (simp add: upt_conv_Cons map_Suc_upt [symmetric] add.assoc comp_def del: upt_Suc)
  then show ?case using puts_then [OF assms Suc.IH, of a "a + stride"] by simp
qed (simp add: puts_true)

text \<open>A counting stream is told the length, a buffer is given the bytes.\<close>

lemma puts_sized:
  assumes "\<And>s d p. buf_at s d p \<Longrightarrow> puts_buf f (Puts w) s d p" "length w < object_bound"
  shows "puts (\<lambda>stream. if (case os_sink stream of Sizing \<Rightarrow> True | _ \<Rightarrow> False) then pb_write [] (length w) stream else f stream) (Puts w)"
  unfolding puts_def
proof (intro conjI allI impI)
  fix s :: "'a pb_ostream"
  assume "os_sink s = Sizing"
  then show "puts_size (\<lambda>stream. if (case os_sink stream of Sizing \<Rightarrow> True | _ \<Rightarrow> False) then pb_write [] (length w) stream else f stream) (Puts w) s"
    using assms(2) by (simp add: puts_size_def pb_write_def)
next
  fix s :: "'a pb_ostream" and d p
  assume s: "buf_at s d p"
  then have "os_sink s = Buf_write d p" by (simp add: buf_at_def)
  then show "puts_buf (\<lambda>stream. if (case os_sink stream of Sizing \<Rightarrow> True | _ \<Rightarrow> False) then pb_write [] (length w) stream else f stream) (Puts w) s d p"
    using assms(1) [OF s] by (simp add: puts_buf_def)
qed

lemma sizing_run:
  assumes "puts g (Puts w)"
  shows "g PB_OSTREAM_SIZING = Some (True, PB_OSTREAM_SIZING\<lparr>os_written := length w\<rparr>)" "length w < object_bound"
proof -
  have "puts_size g (Puts w) PB_OSTREAM_SIZING" by (rule putsD(1) [OF assms]) (simp_all add: PB_OSTREAM_SIZING_def)
  then show "length w < object_bound" "g PB_OSTREAM_SIZING = Some (True, PB_OSTREAM_SIZING\<lparr>os_written := length w\<rparr>)"
    by (simp_all add: puts_size_def PB_OSTREAM_SIZING_def)
qed

lemma sized: "os_written (PB_OSTREAM_SIZING\<lparr>os_written := n\<rparr>) = n"
  by simp

lemma sizing_fails: "puts g Fails \<Longrightarrow> \<exists>sub. g PB_OSTREAM_SIZING = Some (False, sub)"
  using putsD(1) [of g Fails PB_OSTREAM_SIZING] by (simp add: puts_size_def PB_OSTREAM_SIZING_def)

lemma puts_varint_length:
  assumes "length w < object_bound" "puts f (Puts w)"
  shows "puts (os_then (pb_encode_varint (word_of_nat (length w))) f) (string_out w)"
proof -
  have u: "unat (word_of_nat (length w) :: u64) = length w" using assms(1) by (simp add: unat_of_nat)
  have "puts (pb_encode_varint (word_of_nat (length w)) :: 'a pb_put) (varint_out (length w))"
    using puts_varint [of "word_of_nat (length w)"] unfolding u .
  from puts_then [OF this assms(2)] show ?thesis using assms(1) by (simp add: string_out_def)
qed

lemma puts_submessage:
  assumes g: "puts g r"
  shows "puts (pb_encode_submessage g) (length_out r)"
proof (cases r)
  case Fails
  then obtain sub where "g PB_OSTREAM_SIZING = Some (False, sub)" using sizing_fails g by blast
  then show ?thesis using Fails
    by (auto simp: puts_def length_out_def puts_size_def puts_buf_def pb_encode_submessage_def buf_at_def stays_within_def)
next
  case (Puts w)
  note run = sizing_run [OF g [unfolded Puts]]
  define f where "f = (\<lambda>stream. if size_add (os_written stream) (length w) > os_max stream then os_error ''stream full'' stream
    else (case g \<lparr>os_sink = os_sink stream, os_max = length w, os_written = 0, os_errmsg = None\<rparr> of
            None \<Rightarrow> None
          | Some (status, substream) \<Rightarrow>
              let stream = stream\<lparr>os_written := size_add (os_written stream) (os_written substream),
                                  os_sink := os_sink substream, os_errmsg := os_errmsg substream\<rparr> in
              if os_written substream \<noteq> length w then os_error ''submsg size changed'' stream
              else Some (status, stream)))"
  have e: "pb_encode_submessage g = os_then (pb_encode_varint (word_of_nat (length w)))
      (\<lambda>stream. if (case os_sink stream of Sizing \<Rightarrow> True | _ \<Rightarrow> False) then pb_write [] (length w) stream else f stream)"
    by (rule ext) (simp only: pb_encode_submessage_def run(1) f_def option.case prod.case bool.case Let_def sized)
  have "puts_buf f (Puts w) s d p" if s: "buf_at s d p" for s d p
  proof -
    have z: "size_add (os_written s) (length w) = os_written s + length w" using s run(2) by (simp add: buf_at_def)
    define t where "t = \<lparr>os_sink = os_sink s, os_max = length w, os_written = 0, os_errmsg = None\<rparr>"
    show ?thesis
    proof (cases "os_written s + length w \<le> os_max s")
      case True
      then have "buf_at t d p" using s run(2) by (auto simp: buf_at_def t_def)
      then have "puts_buf g (Puts w) t d p" using putsD(2) [OF g] Puts by simp
      then have "g t = Some (True, t\<lparr>os_sink := Buf_write (mem_write d p w) (p + length w), os_written := length w\<rparr>)"
        by (simp add: puts_buf_def t_def)
      moreover have "os_errmsg s = None" using s by (simp add: buf_at_def)
      ultimately show ?thesis using True unfolding puts_buf_def f_def t_def [symmetric] by (simp add: z t_def)
    next
      case False
      then show ?thesis using s unfolding puts_buf_def f_def by (auto simp: z os_error_def stays_within_def buf_at_def)
    qed
  qed
  then show ?thesis unfolding e Puts length_out_def pb_out.case
    by (intro puts_varint_length puts_sized run(2))
qed (simp add: length_out_def)

lemma fixed_bytes:
  assumes "LENGTH('w::len) = 8 * n"
  shows "le_bytes n (unat (word_of_nat (mem_nat m a n) :: 'w word)) = mem_load m a n"
proof -
  have "mem_nat m a n < 256 ^ n" using le_val_bound [of "mem_load m a n"] by (simp add: mem_nat_def mem_load_def)
  also have "(256 :: nat) ^ n = 2 ^ LENGTH('w)" using assms by (simp add: power_mult)
  finally have "unat (word_of_nat (mem_nat m a n) :: 'w word) = mem_nat m a n" by (simp add: unat_of_nat)
  then show ?thesis using le_bytes_le_val [of "mem_load m a n"] by (simp add: mem_nat_def mem_load_def)
qed

lemma encoder_cases:
  "PB_ENCODERS env enc m PB_LTYPE_BOOL = pb_enc_bool m" "PB_ENCODERS env enc m PB_LTYPE_VARINT = pb_enc_varint m"
  "PB_ENCODERS env enc m PB_LTYPE_UVARINT = pb_enc_uvarint m" "PB_ENCODERS env enc m PB_LTYPE_SVARINT = pb_enc_svarint m"
  "PB_ENCODERS env enc m PB_LTYPE_FIXED32 = pb_enc_fixed32 m" "PB_ENCODERS env enc m PB_LTYPE_FIXED64 = pb_enc_fixed64 m"
  "PB_ENCODERS env enc m PB_LTYPE_BYTES = pb_enc_bytes m" "PB_ENCODERS env enc m PB_LTYPE_STRING = pb_enc_string m"
  "PB_ENCODERS env enc m PB_LTYPE_SUBMESSAGE = pb_enc_submessage env enc"
  "PB_ENCODERS env enc m PB_LTYPE_FIXED_LENGTH_BYTES = pb_enc_fixed_length_bytes m"
  by (simp_all add: PB_ENCODERS_def ltype_defs)

lemma value_cases:
  "field_ltype f = PB_LTYPE_BOOL \<Longrightarrow> value_out env sub m f a = varint_out (if m a \<noteq> 0 then 1 else 0)"
  "field_ltype f = PB_LTYPE_VARINT \<Longrightarrow> value_out env sub m f a
    = (if f_data_size f \<in> {1, 2, 4, 8} then varint_out (twos_complement (signed_at m a (f_data_size f))) else Fails)"
  "field_ltype f = PB_LTYPE_UVARINT \<Longrightarrow> value_out env sub m f a
    = (if f_data_size f \<in> {1, 2, 4, 8} then varint_out (unsigned_at m a (f_data_size f)) else Fails)"
  "field_ltype f = PB_LTYPE_SVARINT \<Longrightarrow> value_out env sub m f a
    = (if f_data_size f \<in> {1, 2, 4, 8} then varint_out (zigzag (signed_at m a (f_data_size f))) else Fails)"
  "field_ltype f = PB_LTYPE_FIXED32 \<Longrightarrow> value_out env sub m f a = Puts (mem_load m a 4)"
  "field_ltype f = PB_LTYPE_FIXED64 \<Longrightarrow> value_out env sub m f a = Puts (mem_load m a 8)"
  "field_ltype f = PB_LTYPE_BYTES \<Longrightarrow> value_out env sub m f a
    = (if a = 0 then string_out []
       else if \<not> (4 \<le> f_data_size f \<and> f_data_size f < 2 ^ 32) then Undefined
       else if field_atype f = PB_ATYPE_STATIC \<and> f_data_size f < 4 + unsigned_at m a 4 then Fails
       else string_out (mem_load m (a + 4) (unsigned_at m a 4)))"
  "field_ltype f = PB_LTYPE_STRING \<Longrightarrow> value_out env sub m f a
    = string_out (if a = 0 then [] else c_string m a (if field_atype f = PB_ATYPE_POINTER then 2 ^ 64 - 1 else f_data_size f))"
  "field_ltype f = PB_LTYPE_SUBMESSAGE \<Longrightarrow> value_out env sub m f a
    = (case f_ptr f of Null_ptr \<Rightarrow> Fails | Fields_ptr k \<Rightarrow> length_out (sub (msg_fields env k) a) | Default_ptr _ \<Rightarrow> Undefined)"
  "field_ltype f = PB_LTYPE_FIXED_LENGTH_BYTES \<Longrightarrow> value_out env sub m f a = string_out (mem_load m a (f_data_size f))"
  "field_ltype f = PB_LTYPE_EXTENSION \<Longrightarrow> value_out env sub m f a = Undefined"
  unfolding value_out_def Let_def by (simp_all add: ltype_defs)

lemma large_type:
  assumes "PB_LTYPE_FIXED_LENGTH_BYTES < t"
  shows "t \<noteq> PB_LTYPE_BOOL" "t \<noteq> PB_LTYPE_VARINT" "t \<noteq> PB_LTYPE_UVARINT" "t \<noteq> PB_LTYPE_SVARINT" "t \<noteq> PB_LTYPE_FIXED32"
    "t \<noteq> PB_LTYPE_FIXED64" "t \<noteq> PB_LTYPE_BYTES" "t \<noteq> PB_LTYPE_STRING" "t \<noteq> PB_LTYPE_SUBMESSAGE"
    "t \<noteq> PB_LTYPE_FIXED_LENGTH_BYTES" "t \<noteq> PB_LTYPE_EXTENSION"
  using assms by (auto simp: ltype_defs)

lemma value_large: "PB_LTYPE_FIXED_LENGTH_BYTES < field_ltype f \<Longrightarrow> value_out env sub m f a = Undefined"
  by (simp only: value_out_def Let_def large_type if_False)

lemma puts_value:
  fixes enc :: "pb_field list \<Rightarrow> nat \<Rightarrow> 'o pb_put"
  assumes "\<And>flds a. fields_ok flds \<Longrightarrow> puts (enc flds a) (sub flds a)" "\<And>k. fields_ok (msg_fields env k)"
  shows "puts (PB_ENCODERS env enc m (field_ltype f) f a) (value_out env sub m f a)"
proof -
  have len: "length (mem_load m b n) = n" for b n by (simp add: mem_load_def)
  have str: "puts (pb_encode_string (mem_load m b n) n :: 'o pb_put) (string_out (mem_load m b n))" for b n
    by (rule puts_string) (simp add: len)
  have nil: "puts (pb_encode_string [] 0 :: 'o pb_put) (string_out [])" by (rule puts_string) simp
  have m0: "mem_load m b 0 = []" for b by (simp add: mem_load_def)
  have v: "puts (pb_encode_varint v :: 'o pb_put) (varint_out (unat v))" for v by (rule puts_varint)
  have e32: "le_bytes 4 (unat (word_of_nat (mem_nat m a 4) :: u32)) = mem_load m a 4" by (rule fixed_bytes) simp
  have f32: "puts (pb_encode_fixed32 (word_of_nat (mem_nat m a 4)) :: 'o pb_put) (Puts (mem_load m a 4))"
    unfolding e32 [symmetric] by (rule puts_fixed)
  have e64: "le_bytes 8 (unat (word_of_nat (mem_nat m a 8) :: u64)) = mem_load m a 8" by (rule fixed_bytes) simp
  have f64: "puts (pb_encode_fixed64 (word_of_nat (mem_nat m a 8)) :: 'o pb_put) (Puts (mem_load m a 8))"
    unfolding e64 [symmetric] by (rule puts_fixed)
  have i: "puts (pb_encode_varint (word_of_int (signed_at m a n)) :: 'o pb_put) (varint_out (twos_complement (signed_at m a n)))" for n
    using v [of "word_of_int (signed_at m a n)"] unfolding unat_twos .
  have u: "puts (pb_encode_varint (word_of_nat (unsigned_at m a n)) :: 'o pb_put) (varint_out (unsigned_at m a n))" if "n \<in> {1, 2, 4, 8}" for n
    using v [of "word_of_nat (unsigned_at m a n)"] unfolding unat_unsigned_at [OF that] .
  have z: "puts (pb_encode_svarint (word_of_int (signed_at m a n)) :: 'o pb_put) (varint_out (zigzag (signed_at m a n)))" if "n \<in> {1, 2, 4, 8}" for n
    using puts_svarint [of "word_of_int (signed_at m a n)"] unfolding sint_signed_at [OF that] .
  have b: "puts (pb_encode_varint (if safe_read_bool m a then 1 else 0) :: 'o pb_put) (varint_out (if m a \<noteq> 0 then 1 else 0))"
    using v [of 1] v [of 0] by (simp add: safe_read_bool_def)
  show ?thesis
  proof (rule ltype_cases [of "field_ltype f"])
    assume t: "field_ltype f = PB_LTYPE_SUBMESSAGE"
    show ?thesis
    proof (cases "f_ptr f")
      case (Fields_ptr k)
      then show ?thesis using t puts_submessage [OF assms(1) [OF assms(2)], of k a] by (simp add: encoder_cases value_cases pb_enc_submessage_def)
    next
      case Null_ptr
      then show ?thesis using t puts_error by (simp add: encoder_cases value_cases pb_enc_submessage_def)
    qed (simp add: t value_cases)
  next
    assume t: "field_ltype f = PB_LTYPE_BYTES"
    have "(f_data_size f + size_bound - 4) mod size_bound = f_data_size f - 4" if "4 \<le> f_data_size f" "f_data_size f < 2 ^ 32"
    proof -
      have "f_data_size f + size_bound - 4 = f_data_size f - 4 + size_bound" using that by simp
      then show ?thesis using that by (simp only: mod_add_self2) simp
    qed
    then show ?thesis using t str nil
      by (auto simp: encoder_cases value_cases pb_enc_bytes_def puts_error mem_nat_unsigned not_less less_diff_conv2 less_diff_conv)
  next
    assume "field_ltype f = PB_LTYPE_STRING"
    then show ?thesis using str [of a "string_length m a n 0" for n] nil
      by (simp add: encoder_cases value_cases pb_enc_string_def Let_def string_at m0)
  next
    assume "field_ltype f = PB_LTYPE_VARINT"
    then show ?thesis using i by (simp add: encoder_cases value_cases pb_enc_varint_def load_signed_at puts_error)
  next
    assume "field_ltype f = PB_LTYPE_UVARINT"
    then show ?thesis using u by (auto simp: encoder_cases value_cases pb_enc_uvarint_def load_unsigned_at puts_error)
  next
    assume "field_ltype f = PB_LTYPE_SVARINT"
    then show ?thesis using z by (auto simp: encoder_cases value_cases pb_enc_svarint_def load_signed_at puts_error)
  qed (use b f32 f64 str in
      \<open>simp_all add: encoder_cases value_cases pb_enc_bool_def pb_enc_fixed32_def pb_enc_fixed64_def pb_enc_fixed_length_bytes_def
        puts_error value_large\<close>)
qed

section \<open>Arrays and fields\<close>

lemma puts_packed:
  assumes g: "puts g r"
    and sz: "sz = g PB_OSTREAM_SIZING \<or> (\<exists>n. sz = Some (True, PB_OSTREAM_SIZING\<lparr>os_written := n\<rparr>) \<and> r \<noteq> Fails \<and> (\<forall>w. r = Puts w \<longrightarrow> length w = n))"
  shows "puts (\<lambda>stream. case sz of
        None \<Rightarrow> None
      | Some (False, _) \<Rightarrow> Some (False, stream)
      | Some (True, sizestream) \<Rightarrow>
          let len = os_written sizestream in
          os_then (pb_encode_varint (word_of_nat len)) (\<lambda>stream.
            if (case os_sink stream of Sizing \<Rightarrow> True | _ \<Rightarrow> False) then pb_write [] len stream else g stream) stream) (length_out r)"
proof (cases r)
  case Fails
  then obtain sub where "sz = Some (False, sub)" using sizing_fails [of g] g sz by auto
  then show ?thesis using Fails
    by (auto simp: puts_def length_out_def puts_size_def puts_buf_def buf_at_def stays_within_def)
next
  case (Puts w)
  note run = sizing_run [OF g [unfolded Puts]]
  have "sz = Some (True, PB_OSTREAM_SIZING\<lparr>os_written := length w\<rparr>)" using sz run(1) Puts by auto
  moreover have "puts (os_then (pb_encode_varint (word_of_nat (length w))) (\<lambda>stream.
      if (case os_sink stream of Sizing \<Rightarrow> True | _ \<Rightarrow> False) then pb_write [] (length w) stream else g stream)) (string_out w)"
    using putsD(2) [OF g] Puts by (intro puts_varint_length puts_sized run(2)) simp
  ultimately show ?thesis by (simp only: option.case prod.case bool.case Let_def sized length_out_def Puts pb_out.case)
qed (simp add: length_out_def)

lemma out_seq_fixed: "(\<exists>w. out_seq (map (\<lambda>p. Puts (mem_load m p k)) ps) = Puts w \<and> length w = k * length ps) \<or> out_seq (map (\<lambda>p. Puts (mem_load m p k)) ps) = Undefined"
  by (induction ps) (auto simp: mem_load_def split: if_splits)

lemma puts_array:
  fixes enc :: "pb_field list \<Rightarrow> nat \<Rightarrow> 'o pb_put"
  assumes "\<And>flds a. fields_ok flds \<Longrightarrow> puts (enc flds a) (sub flds a)" "\<And>k. fields_ok (msg_fields env k)"
  shows "puts (encode_array m f a count (PB_ENCODERS env enc m (field_ltype f))) (array_out env sub m f a count)"
proof -
  define items where "items = map (\<lambda>i. a + i * f_data_size f) [0..<count]"
  define func where "func = PB_ENCODERS env enc m (field_ltype f)"
  have val: "puts (func f p) (value_out env sub m f p)" for p
    unfolding func_def by (rule puts_value [OF assms])
  have g: "puts (encode_items (func f) count a (f_data_size f)) (out_seq (map (value_out env sub m f) items))"
    unfolding items_def by (rule puts_items) (rule val)
  consider "count = 0" | "count \<noteq> 0" "field_atype f \<noteq> PB_ATYPE_POINTER" "f_array_size f < count"
    | "count \<noteq> 0" "\<not> (field_atype f \<noteq> PB_ATYPE_POINTER \<and> f_array_size f < count)" "field_ltype f \<le> PB_LTYPE_LAST_PACKABLE"
    | "count \<noteq> 0" "\<not> (field_atype f \<noteq> PB_ATYPE_POINTER \<and> f_array_size f < count)" "\<not> field_ltype f \<le> PB_LTYPE_LAST_PACKABLE"
    by blast
  then show ?thesis
  proof cases
    case 3
    have tag: "puts (pb_encode_tag PB_WT_STRING (f_tag f) :: 'o pb_put) (tag_out PB_WT_STRING (f_tag f))"
      unfolding tag_out_def by (rule puts_tag) (simp add: wire_defs)
    define sz where "sz = (if field_ltype f = PB_LTYPE_FIXED32 then Some (True, PB_OSTREAM_SIZING\<lparr>os_written := 4 * count\<rparr>)
      else if field_ltype f = PB_LTYPE_FIXED64 then Some (True, PB_OSTREAM_SIZING\<lparr>os_written := 8 * count\<rparr>)
      else encode_items (func f) count a (f_data_size f) PB_OSTREAM_SIZING)"
    have l: "length items = count" by (simp add: items_def)
    have "sz = encode_items (func f) count a (f_data_size f) PB_OSTREAM_SIZING
      \<or> (\<exists>n. sz = Some (True, PB_OSTREAM_SIZING\<lparr>os_written := n\<rparr>) \<and> out_seq (map (value_out env sub m f) items) \<noteq> Fails
          \<and> (\<forall>w. out_seq (map (value_out env sub m f) items) = Puts w \<longrightarrow> length w = n))"
    proof (cases "field_ltype f = PB_LTYPE_FIXED32 \<or> field_ltype f = PB_LTYPE_FIXED64")
      case True
      moreover have "PB_LTYPE_FIXED64 \<noteq> PB_LTYPE_FIXED32" by (simp add: ltype_defs)
      ultimately have "sz = Some (True, PB_OSTREAM_SIZING\<lparr>os_written := 4 * count\<rparr>) \<and> value_out env sub m f = (\<lambda>p. Puts (mem_load m p 4))
          \<or> sz = Some (True, PB_OSTREAM_SIZING\<lparr>os_written := 8 * count\<rparr>) \<and> value_out env sub m f = (\<lambda>p. Puts (mem_load m p 8))"
        by (auto simp: sz_def value_cases fun_eq_iff)
      then obtain k where k: "sz = Some (True, PB_OSTREAM_SIZING\<lparr>os_written := k * count\<rparr>)"
          "value_out env sub m f = (\<lambda>p. Puts (mem_load m p k))" by blast
      show ?thesis using out_seq_fixed [of m k items] unfolding k l by force
    qed (simp add: sz_def)
    from puts_then [OF tag puts_packed [OF g this]] show ?thesis
      using 3 unfolding encode_array_def array_out_def func_def [symmetric] items_def [symmetric] sz_def Let_def
      by (simp only: if_False if_True simp_thms)
  next
    case 4
    define ind where "ind = (field_atype f = PB_ATYPE_POINTER \<and> (field_ltype f = PB_LTYPE_STRING \<or> field_ltype f = PB_LTYPE_BYTES))"
    have "puts (os_then (pb_encode_tag_for_field f) (if ind then func f (unsigned_at m p 8) else func f p))
        (single_out env sub m f (if ind then unsigned_at m p 8 else p))" for p
      using puts_then [OF puts_tag_for_field val, of f] by (simp add: single_out_def mem_nat_unsigned)
    from puts_items [OF this, where n = count and a = a and stride = "f_data_size f"] show ?thesis
      using 4 unfolding encode_array_def array_out_def func_def [symmetric] items_def [symmetric] ind_def [symmetric] Let_def mem_nat_unsigned
      by (simp only: if_False simp_thms)
  qed (use puts_true puts_error in \<open>auto simp: encode_array_def array_out_def Let_def\<close>)
qed

lemma puts_single:
  fixes enc :: "pb_field list \<Rightarrow> nat \<Rightarrow> 'o pb_put"
  assumes "\<And>flds a. fields_ok flds \<Longrightarrow> puts (enc flds a) (sub flds a)" "\<And>k. fields_ok (msg_fields env k)"
  shows "puts (os_then (pb_encode_tag_for_field f) (PB_ENCODERS env enc m (field_ltype f) f a)) (single_out env sub m f a)"
  unfolding single_out_def by (intro puts_then puts_tag_for_field puts_value [OF assms])

lemma puts_basic:
  fixes enc :: "pb_field list \<Rightarrow> nat \<Rightarrow> 'o pb_put"
  assumes "\<And>flds a. fields_ok flds \<Longrightarrow> puts (enc flds a) (sub flds a)" "\<And>k. fields_ok (msg_fields env k)"
  shows "puts (encode_basic_field d env enc m f a) (basic_out d env sub m f a)"
proof -
  define v where "v = (if field_atype f = PB_ATYPE_POINTER then unsigned_at m a 8 else a)"
  define has where "has = (if f_size_offset f \<noteq> 0 then Some False
    else if field_htype f = PB_HTYPE_OPTIONAL then map_option Not (pb_check_proto3_default_value d env m f a) else Some True)"
  have single: "puts (os_then (pb_encode_tag_for_field f) (PB_ENCODERS env enc m (field_ltype f) f v)) (single_out env sub m f v)"
    by (rule puts_single [OF assms])
  have array: "puts (encode_array m f v n (PB_ENCODERS env enc m (field_ltype f))) (array_out env sub m f v n)" for n
    by (rule puts_array [OF assms])
  have t: "puts (\<lambda>stream :: 'o pb_ostream. Some (True, stream)) (Puts [])" using puts_true unfolding os_true_def .
  have e: "puts (os_error ''missing required field'' :: 'o pb_put) Fails" by (rule puts_error)
  show ?thesis
  proof (cases "f_size_offset f = 0 \<and> field_htype f = PB_HTYPE_OPTIONAL \<and> is_default d env m f a = None")
    case True
    then have "basic_out d env sub m f a = Undefined" by (simp add: basic_out_def PB_HTYPE_OPTIONAL_def PB_HTYPE_REQUIRED_def)
    then show ?thesis by simp
  next
    case False
    then obtain h where Some: "has = Some h"
      and c: "f_size_offset f = 0 \<Longrightarrow> field_htype f = PB_HTYPE_OPTIONAL \<Longrightarrow> is_default d env m f a = Some (\<not> h)"
    proof (cases "f_size_offset f = 0 \<and> field_htype f = PB_HTYPE_OPTIONAL")
      case opt: True
      then obtain z where z: "is_default d env m f a = Some z" using False by (cases "is_default d env m f a") simp_all
      have "has = Some (\<not> z)" unfolding has_def is_default_code [OF assms(2) z] using opt by simp
      then show ?thesis using that [of "\<not> z"] z by simp
    next
      case other: False
      have "has = Some (f_size_offset f = 0)" unfolding has_def using other by simp
      then show ?thesis using that [of "f_size_offset f = 0"] other by blast
    qed
    have i: "encode_basic_field d env enc m f a = (\<lambda>stream.
      (if field_htype f = PB_HTYPE_REQUIRED
       then if v = 0 then os_error ''missing required field'' stream
            else os_then (pb_encode_tag_for_field f) (PB_ENCODERS env enc m (field_ltype f) f v) stream
       else if field_htype f = PB_HTYPE_OPTIONAL
       then if (if f_size_offset f \<noteq> 0 then safe_read_bool m (count_addr a f) else if field_atype f = PB_ATYPE_POINTER then v \<noteq> 0 else h)
            then os_then (pb_encode_tag_for_field f) (PB_ENCODERS env enc m (field_ltype f) f v) stream
            else Some (True, stream)
       else if field_htype f = PB_HTYPE_REPEATED
       then encode_array m f v (if f_size_offset f \<noteq> 0 then unsigned_at m (count_addr a f) 4 else f_array_size f) (PB_ENCODERS env enc m (field_ltype f)) stream
       else if f_size_offset f = 0 then None
       else if unsigned_at m (count_addr a f) 4 = unat (f_tag f)
       then os_then (pb_encode_tag_for_field f) (PB_ENCODERS env enc m (field_ltype f) f v) stream
       else Some (True, stream)))"
      by (rule ext) (simp only: encode_basic_field_def Let_def mem_nat_unsigned size_addr_count v_def [symmetric] has_def [symmetric] Some option.case)
    show ?thesis unfolding i basic_out_def Let_def v_def [symmetric]
      using single array t e c by (auto simp: safe_read_bool_def)
  qed
qed

section \<open>Messages\<close>

lemma puts_stream_true: "puts (\<lambda>stream. Some (True, stream)) (Puts [])"
  using puts_true unfolding os_true_def .

lemma puts_callback:
  assumes "puts g r"
  shows "puts (\<lambda>stream. case g stream of None \<Rightarrow> None
      | Some (ok, stream) \<Rightarrow> if ok then Some (True, stream) else os_error msg stream) r"
proof -
  define h where "h = (\<lambda>stream. case g stream of None \<Rightarrow> None | Some (ok, stream) \<Rightarrow> if ok then Some (True, stream) else os_error msg stream)"
  have ok: "h s = Some (True, s')" if "g s = Some (True, s')" for s s' using that by (simp add: h_def)
  have bad: "\<exists>s''. h s = Some (False, s'') \<and> os_sink s'' = os_sink s'" if "g s = Some (False, s')" for s s'
    using that by (simp add: h_def os_error_def)
  have size: "puts_size h r s" if "puts_size g r s" for s
    using that ok bad unfolding puts_size_def by (cases r) (auto, blast?)
  have within: "\<exists>s'. h s = Some (False, s') \<and> stays_within d p q s'" if "\<exists>s'. g s = Some (False, s') \<and> stays_within d p q s'" for s d p q
  proof -
    from that obtain s' where s': "g s = Some (False, s')" "stays_within d p q s'" by blast
    obtain s'' where "h s = Some (False, s'')" "os_sink s'' = os_sink s'" using bad [OF s'(1)] by blast
    then show ?thesis using s'(2) unfolding stays_within_def by metis
  qed
  have buf: "puts_buf h r s d p" if "puts_buf g r s d p" for s d p
  proof (cases r)
    case (Puts w)
    show ?thesis
    proof (cases "os_written s + length w \<le> os_max s")
      case True
      then show ?thesis using that ok unfolding puts_buf_def Puts pb_out.case by (simp only: if_True)
    next
      case False
      then show ?thesis using that within unfolding puts_buf_def Puts pb_out.case by (simp only: if_False)
    qed
  next
    case Fails
    then show ?thesis using that within unfolding puts_buf_def Fails pb_out.case by blast
  qed (simp add: puts_buf_def)
  show ?thesis unfolding h_def [symmetric] using assms size buf unfolding puts_def by blast
qed

lemma puts_plain:
  fixes enc :: "pb_field list \<Rightarrow> nat \<Rightarrow> 'o pb_put"
  assumes "\<And>flds a. fields_ok flds \<Longrightarrow> puts (enc flds a) (sub flds a)" "\<And>k. fields_ok (msg_fields env k)" "writers_ok env ws"
  shows "puts (encode_field d env enc m f a) (plain_out d env ws sub m f a)"
proof -
  have cb: "puts (encode_callback_field env m f a) (if unsigned_at m a 8 = 0 then Puts [] else callback_out ws (unsigned_at m a 8) f (a + 8))"
  proof (cases "unsigned_at m a 8 = 0")
    case True
    then have "encode_callback_field env m f a = (\<lambda>stream. Some (True, stream))"
      by (simp add: encode_callback_field_def fun_eq_iff mem_nat_unsigned)
    then show ?thesis using True by (simp add: puts_stream_true)
  next
    case False
    have "puts (cb_encode env (unsigned_at m a 8) f (a + 8)) (callback_out ws (unsigned_at m a 8) f (a + 8))"
      using assms(3) by (simp add: writers_ok_def)
    from puts_callback [OF this, of "''callback error''"] False show ?thesis
      unfolding encode_callback_field_def mem_nat_unsigned by simp
  qed
  have basic: "puts (encode_basic_field d env enc m f a) (basic_out d env sub m f a)" by (rule puts_basic [OF assms(1,2)])
  have ne: "PB_ATYPE_CALLBACK \<noteq> PB_ATYPE_STATIC" "PB_ATYPE_CALLBACK \<noteq> PB_ATYPE_POINTER"
    by (simp_all add: PB_ATYPE_CALLBACK_def PB_ATYPE_STATIC_def PB_ATYPE_POINTER_def)
  show ?thesis unfolding plain_out_def encode_field_def using cb basic ne by (simp add: puts_error)
qed

lemma puts_extensions:
  fixes env :: "'o pb_env"
  assumes "\<And>x. puts (dflt x) (out x)" "writers_ok env ws"
  shows "extension_list m x = Some xs \<Longrightarrow> puts (extension_loop env dflt m x)
    (out_seq (map (\<lambda>x. if unsigned_at m (unsigned_at m x 8 + 8) 8 \<noteq> 0 then extension_out ws (unsigned_at m (unsigned_at m x 8 + 8) 8) x else out x) xs))"
proof (induction xs arbitrary: x)
  case Nil
  then have "x = 0" unfolding extension_list.simps [of m x] by (simp add: Option.bind_eq_Some_conv split: if_splits)
  then have "extension_loop env dflt m x = (\<lambda>stream. Some (True, stream))" by (simp add: extension_loop.simps fun_eq_iff)
  then show ?case by (simp add: puts_stream_true)
next
  case (Cons y xs)
  then have x: "y = x" "x \<noteq> 0" "extension_list m (unsigned_at m (x + 16) 8) = Some xs"
    unfolding extension_list.simps [of m x] by (auto simp: Option.bind_eq_Some_conv split: if_splits)
  define e where "e = unsigned_at m (unsigned_at m x 8 + 8) 8"
  have l: "extension_loop env dflt m x = os_then (if e \<noteq> 0 then ext_encode env e x else dflt x) (extension_loop env dflt m (unsigned_at m (x + 16) 8))"
    using x(2) by (intro ext, subst extension_loop.simps) (simp add: os_then_def e_def mem_nat_unsigned Let_def split: option.split)
  have "puts (if e \<noteq> 0 then ext_encode env e x else dflt x) (if e \<noteq> 0 then extension_out ws e x else out x)"
    using assms by (simp add: writers_ok_def)
  from puts_then [OF this Cons.IH [OF x(3)]] show ?case
    unfolding l x(1) list.map out_seq_Cons e_def .
qed

lemma puts_field:
  fixes enc :: "pb_field list \<Rightarrow> nat \<Rightarrow> 'o pb_put"
  assumes "\<And>flds a. fields_ok flds \<Longrightarrow> puts (enc flds a) (sub flds a)" "\<And>k. fields_ok (msg_fields env k)" "writers_ok env ws"
  shows "puts (if field_ltype f = PB_LTYPE_EXTENSION then encode_extension_field d env enc m f a else encode_field d env enc m f a)
    (field_out d env ws sub m f a)"
proof -
  have dflt: "puts (default_extension_encoder d env enc m x) (plain_out d env ws sub m (ext_field env (unsigned_at m (unsigned_at m x 8 + 16) 8))
      (if field_atype (ext_field env (unsigned_at m (unsigned_at m x 8 + 16) 8)) = PB_ATYPE_POINTER then x + 8 else unsigned_at m (x + 8) 8))" for x
    unfolding default_extension_encoder_def Let_def mem_nat_unsigned using puts_plain [OF assms] by simp
  have "puts (encode_extension_field d env enc m f a) (extensions_out d env ws sub m (unsigned_at m a 8))"
  proof (cases "extension_list m (unsigned_at m a 8)")
    case (Some xs)
    from puts_extensions [OF dflt assms(3) this] show ?thesis
      unfolding encode_extension_field_def extensions_out_def one_extension_out_def Let_def mem_nat_unsigned Some option.case .
  qed (simp add: extensions_out_def)
  then show ?thesis unfolding field_out_def using puts_plain [OF assms] by simp
qed

lemma puts_loop:
  assumes "fields_ok flds" "i < length flds" "\<And>f a. puts (body f a) (out f a)" "src \<noteq> 0"
  shows "puts (encode_loop body (iter_at flds src i)) (out_seq (map (\<lambda>j. out (flds ! j) (field_addr flds src j)) [i..<length flds]))"
  using assms(2)
proof (induction "length flds - i" arbitrary: i)
  case (Suc n)
  define body1 where "body1 = body (flds ! i) (field_addr flds src i)"
  have b: "puts body1 (out (flds ! i) (field_addr flds src i))" unfolding body1_def by (rule assms(3))
  have l: "[i..<length flds] = i # [Suc i..<length flds]" using Suc.prems by (rule upt_conv_Cons)
  show ?case
  proof (cases "Suc i < length flds")
    case True
    have e: "encode_loop body (iter_at flds src i) = os_then body1 (encode_loop body (iter_at flds src (Suc i)))"
      by (rule ext, subst encode_loop.simps)
        (simp add: os_then_def next_at [OF assms(1) Suc.prems] iter_at_field [OF assms(1) Suc.prems] iter_addr [OF assms(1,4) Suc.prems] True body1_def del: iter_at.simps
          split: option.split)
    show ?thesis unfolding e l using Suc.hyps(1) [of "Suc i"] Suc.hyps(2) True by (simp add: puts_then [OF b])
  next
    case False
    have e: "encode_loop body (iter_at flds src i) = os_then body1 os_true"
      by (rule ext, subst encode_loop.simps)
        (simp add: os_then_def os_true_def next_at [OF assms(1) Suc.prems] iter_at_field [OF assms(1) Suc.prems] iter_addr [OF assms(1,4) Suc.prems] False body1_def del: iter_at.simps
          split: option.split)
    show ?thesis unfolding e l using False by (simp add: puts_then [OF b puts_true])
  qed
qed simp

theorem puts_message:
  assumes "\<And>k. fields_ok (msg_fields env k)" "writers_ok env ws"
  shows "fields_ok flds \<Longrightarrow> puts (pb_encode d env m flds src) (message_out d env ws m flds src)"
proof (induction d arbitrary: flds src)
  case (Suc d)
  show ?case
  proof (cases "flds = []")
    case True
    then have "pb_encode (Suc d) env m flds src = (\<lambda>stream. Some (True, stream))"
      by (simp add: begin_at field_at_def PB_LAST_FIELD_def fun_eq_iff del: iter_at.simps)
    moreover have "message_out (Suc d) env ws m flds src = Puts []" using True by simp
    ultimately show ?thesis by (simp only: puts_stream_true)
  next
    case False
    then have e: "pb_encode (Suc d) env m flds src = encode_loop (\<lambda>field pData.
        if field_ltype field = PB_LTYPE_EXTENSION then encode_extension_field d env (pb_encode d env m) m field pData
        else encode_field d env (pb_encode d env m) m field pData) (iter_at flds src 0)"
      using begin_more [OF Suc.prems, of src] by (simp add: begin_at fun_eq_iff del: iter_at.simps)
    show ?thesis
    proof (cases "src = 0")
      case src: False
      have "0 < length flds" using False by simp
      then have "puts (encode_loop (\<lambda>field pData.
          if field_ltype field = PB_LTYPE_EXTENSION then encode_extension_field d env (pb_encode d env m) m field pData
          else encode_field d env (pb_encode d env m) m field pData) (iter_at flds src 0))
        (out_seq (map (\<lambda>i. field_out d env ws (message_out d env ws m) m (flds ! i) (field_addr flds src i)) [0..<length flds]))"
        by (rule puts_loop [OF Suc.prems _ _ src]) (rule puts_field [OF Suc.IH assms])
      then show ?thesis unfolding e using False src by simp
    qed (simp add: False)
  qed
qed simp

end
