(* ===== verification/Pb_Props.thy ===== *)
theory Pb_Props
  imports Pb_Message "HOL-Library.Code_Target_Nat"
begin

text \<open>
  The properties of the nanopb runtime: integers and fields read back as they were written, fields that are not
  wanted are skipped exactly, and messages are encoded into what fits, as long as they were announced to be.
\<close>

section \<open>Integers\<close>

definition reads_to :: "('s, 'a) pb_get \<Rightarrow> 's pb_istream \<Rightarrow> 'a \<Rightarrow> bytes \<Rightarrow> bytes \<Rightarrow> bool" where
  "reads_to g s a ys r \<longleftrightarrow> (\<exists>s'. g s = Some (Some a, s') \<and> stream_at s' ys r)"

definition refuses :: "('s, 'a) pb_get \<Rightarrow> 's pb_istream \<Rightarrow> bool" where
  "refuses g s \<longleftrightarrow> (\<exists>s'. g s = Some (None, s'))"

lemma implements_reads_to:
  "implements g p \<Longrightarrow> stream_at s xs r \<Longrightarrow> p xs = Some (a, ys) \<Longrightarrow> reads_to g s a ys r"
  "implements g p \<Longrightarrow> stream_at s xs r \<Longrightarrow> p xs = None \<Longrightarrow> refuses g s"
  unfolding reads_to_def refuses_def by (metis implements_Some) (metis implements_None)

lemma buffer_run:
  assumes "puts f (Puts w)" "length w \<le> n" "n \<le> length buf" "n < object_bound"
  shows "f (pb_ostream_from_buffer buf n) = Some (True, \<lparr>os_sink = Buf_write (w @ drop (length w) buf) (length w), os_max = n,
    os_written = length w, os_errmsg = None\<rparr>)"
proof -
  have "buf_at (pb_ostream_from_buffer buf n) buf 0" using assms by (simp add: buf_at_def pb_ostream_from_buffer_def)
  from putsD(2) [OF assms(1) this] show ?thesis
    using assms(2) by (simp add: puts_buf_def pb_ostream_from_buffer_def mem_write_def)
qed

text \<open>
  C40: Variable-length integers read back.  What \<^verbatim>\<open>pb_encode_varint\<close> writes, at most ten bytes, is read from any stream
  as the same 64 bits by \<^verbatim>\<open>pb_decode_varint\<close> and skipped by \<^verbatim>\<open>pb_skip_varint\<close>; \<^verbatim>\<open>pb_decode_varint32\<close> gives the value if it fits
  32 bits or is negative as a 64-bit number that does (at least \<open>2 ^ 64 - 2 ^ 31\<close>), and refuses those from \<open>2 ^ 32\<close> to below
  \<open>2 ^ 63\<close>.  Nothing is said of the others, negative numbers that do not fit.
\<close>

theorem varint_roundtrip:
  assumes "10 \<le> n" "n \<le> length buf" "n < object_bound"
  shows "\<exists>b k. pb_encode_varint v (pb_ostream_from_buffer buf n :: 'o pb_ostream)
        = Some (True, \<lparr>os_sink = Buf_write b k, os_max = n, os_written = k, os_errmsg = None\<rparr>)
    \<and> k \<le> 10 \<and> drop k b = drop k buf
    \<and> (\<forall>(s :: 's pb_istream) ys r. stream_at s (take k b @ ys) r \<longrightarrow>
         reads_to pb_decode_varint s v ys r \<and> reads_to pb_skip_varint s () ys r
         \<and> (unat v < 2 ^ 32 \<or> 2 ^ 64 - 2 ^ 31 \<le> unat v \<longrightarrow> reads_to pb_decode_varint32 s (ucast v) ys r)
         \<and> (2 ^ 32 \<le> unat v \<and> unat v < 2 ^ 63 \<longrightarrow> refuses pb_decode_varint32 s))"
proof -
  define w where "w = varint_text (unat v)"
  have k: "length w \<le> 10" unfolding w_def by (rule varint_text_length_word)
  have "puts (pb_encode_varint v :: 'o pb_put) (Puts w)" using puts_varint unfolding w_def varint_out_def .
  from buffer_run [OF this _ assms(2,3)] have run: "pb_encode_varint v (pb_ostream_from_buffer buf n :: 'o pb_ostream)
      = Some (True, \<lparr>os_sink = Buf_write (w @ drop (length w) buf) (length w), os_max = n, os_written = length w, os_errmsg = None\<rparr>)"
    using k assms(1) by simp
  have v: "unat v < 2 ^ 64" using unsigned_less [of v] by simp
  have word: "word_of_nat (unat v) = (ucast v :: u32)" by (simp only: of_nat_unat)
  have "reads_to pb_decode_varint s v ys r \<and> reads_to pb_skip_varint s () ys r
      \<and> (unat v < 2 ^ 32 \<or> 2 ^ 64 - 2 ^ 31 \<le> unat v \<longrightarrow> reads_to pb_decode_varint32 s (ucast v) ys r)
      \<and> (2 ^ 32 \<le> unat v \<and> unat v < 2 ^ 63 \<longrightarrow> refuses pb_decode_varint32 s)"
    if at: "stream_at s (w @ ys) r" for s :: "'s pb_istream" and ys r
  proof (intro conjI impI)
    show "reads_to pb_decode_varint s v ys r"
      by (rule implements_reads_to(1) [OF implements_varint at]) (simp add: w_def parse_varint_text)
    show "reads_to pb_skip_varint s () ys r"
      by (rule implements_reads_to(1) [OF implements_skip_varint at]) (simp add: w_def skip_text)
    show "reads_to pb_decode_varint32 s (ucast v) ys r" if "unat v < 2 ^ 32 \<or> 2 ^ 64 - 2 ^ 31 \<le> unat v"
      by (rule implements_reads_to(1) [OF implements_varint32 at]) (use that v in \<open>auto simp: w_def parse_varint32_text word\<close>)
    show "refuses pb_decode_varint32 s" if "2 ^ 32 \<le> unat v \<and> unat v < 2 ^ 63"
      by (rule implements_reads_to(2) [OF implements_varint32 at]) (use that in \<open>simp add: w_def parse_varint32_text\<close>)
  qed
  then show ?thesis using run k by (intro exI [of _ "w @ drop (length w) buf"] exI [of _ "length w"]) simp
qed

lemma varint_roundtrip_witness:
  "\<exists>b k. pb_encode_varint 300 (pb_ostream_from_buffer (replicate 12 7) 10 :: nat pb_ostream)
        = Some (True, \<lparr>os_sink = Buf_write b k, os_max = 10, os_written = k, os_errmsg = None\<rparr>)
    \<and> k \<le> 10 \<and> drop k b = drop k (replicate 12 7)
    \<and> (\<forall>ys. reads_to pb_decode_varint (pb_istream_from_buffer (take k b @ ys) (length (take k b @ ys)) :: nat pb_istream) 300 ys [])"
proof -
  have at: "stream_at (pb_istream_from_buffer xs (length xs)) xs []" for xs using stream_at_buffer [of xs "[]"] by simp
  have "(10 :: nat) \<le> 10" "10 \<le> length (replicate 12 (7 :: u8))" "(10 :: nat) < object_bound" by simp_all
  from varint_roundtrip [OF this, where v = 300 and 'o = nat and 's = nat] show ?thesis using at by blast
qed

section \<open>Fields\<close>

text \<open>A field in the wire format, how a program writes it and how it reads its value after the tag.\<close>

datatype wire_value = Varint u64 | Fixed64 u64 | String bytes | Fixed32 u32

fun wire_type_of :: "wire_value \<Rightarrow> u32" where
  "wire_type_of (Varint _) = PB_WT_VARINT"
| "wire_type_of (Fixed64 _) = PB_WT_64BIT"
| "wire_type_of (String _) = PB_WT_STRING"
| "wire_type_of (Fixed32 _) = PB_WT_32BIT"

fun write_value :: "wire_value \<Rightarrow> 'o pb_put" where
  "write_value (Varint v) = pb_encode_varint v"
| "write_value (Fixed64 v) = pb_encode_fixed64 v"
| "write_value (String bs) = pb_encode_string bs (length bs)"
| "write_value (Fixed32 v) = pb_encode_fixed32 v"

definition write_field :: "u32 \<Rightarrow> wire_value \<Rightarrow> 'o pb_put" where
  "write_field tag v = os_then (pb_encode_tag (wire_type_of v) tag) (write_value v)"

definition read_string :: "('s, bytes) pb_get" where
  "read_string = pb_then pb_make_string_substream (\<lambda>sub stream.
     case pb_read True (is_left sub) sub of
       None \<Rightarrow> None
     | Some (None, _) \<Rightarrow> Some (None, stream)
     | Some (Some bs, sub) \<Rightarrow> pb_then (pb_close_string_substream sub) (\<lambda>_. pb_return bs) stream)"

definition read_value :: "u32 \<Rightarrow> ('s, wire_value) pb_get" where
  "read_value wt
     = (if wt = PB_WT_VARINT then pb_then pb_decode_varint (\<lambda>v. pb_return (Varint v))
        else if wt = PB_WT_64BIT then pb_then pb_decode_fixed64 (\<lambda>v. pb_return (Fixed64 v))
        else if wt = PB_WT_STRING then pb_then read_string (\<lambda>v. pb_return (String v))
        else pb_then pb_decode_fixed32 (\<lambda>v. pb_return (Fixed32 v)))"

lemma read_string_at: "implements read_string parse_string"
proof (rule implementsI)
  fix s :: "'a pb_istream" and xs r
  assume "stream_at s xs r" "parse_string xs = None"
  then show "\<exists>s'. read_string s = Some (None, s')"
    using make_substream_at [of s xs r] by (auto simp: read_string_def pb_then_def)
next
  fix s :: "'a pb_istream" and xs r str ys
  assume at: "stream_at s xs r" and p: "parse_string xs = Some (str, ys)"
  then obtain sub s1 where m: "pb_make_string_substream s = Some (Some sub, s1)" "stream_at sub str (ys @ r)" "is_left s1 = length ys"
      "is_errmsg sub = is_errmsg s"
    using make_substream_at [OF at] by auto
  have l: "is_left sub = length str" using m(2) by (simp add: stream_at_def)
  have "parse_take (length str) str = Some (str, [])" by (simp add: parse_take_def)
  then obtain sub' where sub': "pb_read True (is_left sub) sub = Some (Some str, sub')" "stream_at sub' [] (ys @ r)" "is_errmsg sub' = is_errmsg sub"
    using implements_Some [OF implements_read m(2)] l by metis
  obtain s2 where "pb_close_string_substream sub' s1 = Some (Some (), s2)" "stream_at s2 ys r" "is_errmsg s2 = is_errmsg sub'"
    using close_substream_at [OF sub'(2) m(3)] by blast
  then show "\<exists>s'. read_string s = Some (Some str, s') \<and> stream_at s' ys r \<and> is_errmsg s' = is_errmsg s"
    using m sub' by (simp add: read_string_def pb_then_def pb_return_def)
qed

fun or_bytes :: "nat \<Rightarrow> 'w::len word \<Rightarrow> bytes \<Rightarrow> 'w word" where
  "or_bytes k r [] = r"
| "or_bytes k r (b # bs) = or_bytes (k + 8) (r OR push_bit k (ucast b)) bs"

lemma or_bytes_val:
  "unat (r :: 'w::len word) < 2 ^ k \<Longrightarrow> k + 8 * length bs \<le> LENGTH('w) \<Longrightarrow> or_bytes k r bs = word_of_nat (unat r + 2 ^ k * le_val bs)"
proof (induction bs arbitrary: k r)
  case (Cons b bs)
  define r1 where "r1 = r OR push_bit k (ucast b)"
  have r1: "r1 = word_of_nat (unat r + 2 ^ k * unat b)"
    unfolding r1_def by (rule shift_or_val [OF Cons.prems(1)]) simp
  have "unat r + 2 ^ k * unat b < 2 ^ k + 2 ^ k * 255"
    using Cons.prems(1) byte_le [of b] by (intro add_less_le_mono) auto
  also have "\<dots> = 2 ^ (k + 8)" by (simp add: power_add)
  finally have lt: "unat r + 2 ^ k * unat b < 2 ^ (k + 8)" .
  moreover have "(2 :: nat) ^ (k + 8) \<le> 2 ^ LENGTH('w)" using Cons.prems(2) by (intro power_increasing) auto
  ultimately have u: "unat r1 = unat r + 2 ^ k * unat b" unfolding r1 unat_of_nat by (intro mod_less) linarith
  have "or_bytes (k + 8) r1 bs = word_of_nat (unat r1 + 2 ^ (k + 8) * le_val bs)"
    using Cons.prems(2) lt u by (intro Cons.IH) simp_all
  moreover have "unat r1 + 2 ^ (k + 8) * le_val bs = unat r + 2 ^ k * le_val (b # bs)"
    using u by (simp add: power_add algebra_simps)
  ultimately show ?case unfolding or_bytes.simps r1_def [symmetric] by (simp only:)
qed simp

lemma length_4: "length bs = 4 \<Longrightarrow> bs = [bs ! 0, bs ! 1, bs ! 2, bs ! 3]"
  by (simp add: list_eq_iff_nth_eq less_Suc_eq numeral_eq_Suc)

lemma length_8: "length bs = 8 \<Longrightarrow> bs = [bs ! 0, bs ! 1, bs ! 2, bs ! 3, bs ! 4, bs ! 5, bs ! 6, bs ! 7]"
  by (simp add: list_eq_iff_nth_eq less_Suc_eq numeral_eq_Suc)

lemma fixed32_word:
  assumes "length bs = 4"
  shows "push_bit 0 (ucast (bs ! 0)) OR push_bit 8 (ucast (bs ! 1)) OR push_bit 16 (ucast (bs ! 2)) OR push_bit 24 (ucast (bs ! 3))
    = (word_of_nat (le_val bs) :: u32)"
proof -
  have "or_bytes 0 (0 :: u32) [bs ! 0, bs ! 1, bs ! 2, bs ! 3]
      = push_bit 0 (ucast (bs ! 0)) OR push_bit 8 (ucast (bs ! 1)) OR push_bit 16 (ucast (bs ! 2)) OR push_bit 24 (ucast (bs ! 3))"
    by (simp add: or.assoc)
  then have "\<dots> = or_bytes 0 (0 :: u32) bs" using length_4 [OF assms] by metis
  also have "\<dots> = word_of_nat (unat (0 :: u32) + 2 ^ 0 * le_val bs)" by (rule or_bytes_val) (simp_all add: assms)
  finally show ?thesis by (simp only: unsigned_0 add_0 power_0 mult_1)
qed

lemma fixed64_word:
  assumes "length bs = 8"
  shows "push_bit 0 (ucast (bs ! 0)) OR push_bit 8 (ucast (bs ! 1)) OR push_bit 16 (ucast (bs ! 2)) OR push_bit 24 (ucast (bs ! 3))
      OR push_bit 32 (ucast (bs ! 4)) OR push_bit 40 (ucast (bs ! 5)) OR push_bit 48 (ucast (bs ! 6)) OR push_bit 56 (ucast (bs ! 7))
    = (word_of_nat (le_val bs) :: u64)"
proof -
  have "or_bytes 0 (0 :: u64) [bs ! 0, bs ! 1, bs ! 2, bs ! 3, bs ! 4, bs ! 5, bs ! 6, bs ! 7]
      = push_bit 0 (ucast (bs ! 0)) OR push_bit 8 (ucast (bs ! 1)) OR push_bit 16 (ucast (bs ! 2)) OR push_bit 24 (ucast (bs ! 3))
      OR push_bit 32 (ucast (bs ! 4)) OR push_bit 40 (ucast (bs ! 5)) OR push_bit 48 (ucast (bs ! 6)) OR push_bit 56 (ucast (bs ! 7))"
    by (simp add: or.assoc)
  then have "\<dots> = or_bytes 0 (0 :: u64) bs" using length_8 [OF assms] by metis
  also have "\<dots> = word_of_nat (unat (0 :: u64) + 2 ^ 0 * le_val bs)" by (rule or_bytes_val) (simp_all add: assms)
  finally show ?thesis by (simp only: unsigned_0 add_0 power_0 mult_1)
qed

text \<open>The texts of values, and the readers against them.\<close>

fun value_text :: "wire_value \<Rightarrow> bytes" where
  "value_text (Varint v) = varint_text (unat v)"
| "value_text (Fixed64 v) = le_bytes 8 (unat v)"
| "value_text (String bs) = varint_text (length bs) @ bs"
| "value_text (Fixed32 v) = le_bytes 4 (unat v)"

fun value_fits :: "wire_value \<Rightarrow> bool" where
  "value_fits (String bs) \<longleftrightarrow> length bs < 2 ^ 32"
| "value_fits _ \<longleftrightarrow> True"

fun string_size :: "wire_value \<Rightarrow> nat" where
  "string_size (String bs) = length bs"
| "string_size _ = 0"

definition field_text :: "u32 \<Rightarrow> wire_value \<Rightarrow> bytes" where
  "field_text tag v = varint_text (8 * unat tag + unat (wire_type_of v)) @ value_text v"

lemma wire_type_less: "unat (wire_type_of v) < 8"
  by (cases v) (simp_all add: PB_WT_VARINT_def PB_WT_64BIT_def PB_WT_STRING_def PB_WT_32BIT_def)

lemma value_text_length: "value_fits v \<Longrightarrow> length (value_text v) \<le> 10 + string_size v"
proof (cases v)
  case (String bs)
  assume "value_fits v"
  then have "length (varint_text (length bs)) \<le> 5" using String by (intro varint_text_length) auto
  then show ?thesis using String by simp
qed (use varint_text_length_word in auto)

lemma field_text_length:
  assumes "value_fits v" "unat tag < 2 ^ 29"
  shows "length (field_text tag v) \<le> 20 + string_size v"
proof -
  have "8 * unat tag + unat (wire_type_of v) < 128 ^ 5" using assms(2) wire_type_less [of v] by simp
  then have "length (varint_text (8 * unat tag + unat (wire_type_of v))) \<le> 5" by (rule varint_text_length) simp
  then show ?thesis using value_text_length [OF assms(1)] by (simp add: field_text_def)
qed

lemma puts_wire_value: "value_fits v \<Longrightarrow> puts (write_value v :: 'o pb_put) (Puts (value_text v))"
proof (cases v)
  case (Varint x)
  then show ?thesis using puts_varint [of x] by (simp add: varint_out_def)
next
  case (Fixed64 x)
  then show ?thesis by (simp add: puts_fixed)
next
  case (String bs)
  assume "value_fits v"
  moreover from this have "length (varint_text (length bs)) \<le> 5" using String by (intro varint_text_length) auto
  ultimately have "string_out bs = Puts (value_text v)" using String by (simp add: string_out_def varint_out_def)
  then show ?thesis using String puts_string [of "length bs" bs] by simp
next
  case (Fixed32 x)
  then show ?thesis by (simp add: puts_fixed)
qed

lemma puts_wire_field:
  assumes "value_fits v" "unat tag < 2 ^ 29" "string_size v < 2 ^ 32"
  shows "puts (write_field tag v :: 'o pb_put) (Puts (field_text tag v))"
proof -
  have "length (field_text tag v) < object_bound" using field_text_length [OF assms(1,2)] assms(3) by simp
  then have "out_then (varint_out (8 * unat tag + unat (wire_type_of v))) (Puts (value_text v)) = Puts (field_text tag v)"
    by (simp add: varint_out_def field_text_def)
  moreover have "puts (write_field tag v :: 'o pb_put) (out_then (varint_out (8 * unat tag + unat (wire_type_of v))) (Puts (value_text v)))"
    unfolding write_field_def by (intro puts_then puts_tag puts_wire_value wire_type_less assms(1))
  ultimately show ?thesis by simp
qed

lemma parse_tag_text:
  assumes "tag \<noteq> 0" "unat tag < 2 ^ 29" "unat wt < 8"
  shows "parse_tag (varint_text (8 * unat tag + unat wt) @ ys) = (Tag wt tag, ys)"
proof -
  define t :: u32 where "t = word_of_nat (8 * unat tag + unat wt)"
  have u: "unat t = 8 * unat tag + unat wt" using assms(2,3) unfolding t_def unat_of_nat by (intro mod_less) simp
  have "t AND 7 = t AND mask 3" by (simp add: mask_eq_exp_minus_1)
  then have "unat (t AND 7) = unat t mod 8" by (simp only: unat_and_mask) simp
  then have "t AND 7 = wt" using assms(3) u by (intro word_unat_eq_iff [THEN iffD2]) simp
  moreover have "drop_bit 3 t = tag" using assms(3) u by (intro word_unat_eq_iff [THEN iffD2]) (simp add: unat_drop_bit)
  moreover have "t \<noteq> 0" using assms(1) u by (metis add_is_0 mult_is_0 unat_eq_zero unsigned_0 zero_neq_numeral)
  moreover have "parse_varint32 (varint_text (8 * unat tag + unat wt) @ ys) = Some (t, ys)"
    using parse_varint32_text [of "8 * unat tag + unat wt" ys] assms(2,3) unfolding t_def by (simp del: of_nat_add of_nat_mult)
  ultimately show ?thesis by (simp add: parse_tag_def)
qed

definition parse_value :: "u32 \<Rightarrow> wire_value parse" where
  "parse_value wt
     = (if wt = PB_WT_VARINT then parse_then parse_varint (\<lambda>v. parse_return (Varint v))
        else if wt = PB_WT_64BIT then parse_then (parse_take 8) (\<lambda>bs. parse_return (Fixed64 (word_of_nat (le_val bs))))
        else if wt = PB_WT_STRING then parse_then parse_string (\<lambda>v. parse_return (String v))
        else parse_then (parse_take 4) (\<lambda>bs. parse_return (Fixed32 (word_of_nat (le_val bs)))))"

lemma implements_weaken:
  assumes "implements g p" "\<And>xs. p xs = q xs"
  shows "implements g q"
  using assms by (metis ext)

lemma parse_take_cong:
  "(\<And>bs. length bs = n \<Longrightarrow> f bs = g bs) \<Longrightarrow> parse_then (parse_take n) (\<lambda>bs. parse_return (f bs)) xs
    = parse_then (parse_take n) (\<lambda>bs. parse_return (g bs)) xs"
  by (simp add: parse_then_def parse_take_def parse_return_def)

lemma implements_fixed:
  "implements (pb_decode_fixed32 :: ('s, u32) pb_get) (parse_then (parse_take 4) (\<lambda>bs. parse_return (word_of_nat (le_val bs))))"
  "implements (pb_decode_fixed64 :: ('s, u64) pb_get) (parse_then (parse_take 8) (\<lambda>bs. parse_return (word_of_nat (le_val bs))))"
proof -
  show "implements (pb_decode_fixed32 :: ('s, u32) pb_get) (parse_then (parse_take 4) (\<lambda>bs. parse_return (word_of_nat (le_val bs))))"
    unfolding pb_decode_fixed32_def
    by (rule implements_weaken, (rule implements_intro)+) (rule parse_take_cong, rule fixed32_word)
  show "implements (pb_decode_fixed64 :: ('s, u64) pb_get) (parse_then (parse_take 8) (\<lambda>bs. parse_return (word_of_nat (le_val bs))))"
    unfolding pb_decode_fixed64_def
    by (rule implements_weaken, (rule implements_intro)+) (rule parse_take_cong, rule fixed64_word)
qed

lemma parse_then_assoc: "parse_then (parse_then p f) g = parse_then p (\<lambda>a. parse_then (f a) g)"
  by (simp add: parse_then_def fun_eq_iff split: option.split)

lemma parse_then_return: "parse_then (parse_return a) f = f a"
  by (simp add: parse_then_def parse_return_def fun_eq_iff)

lemma implements_value: "implements (read_value wt :: ('s, wire_value) pb_get) (parse_value wt)"
proof -
  have "implements (pb_then pb_decode_fixed64 (\<lambda>v. pb_return (Fixed64 v)) :: ('s, wire_value) pb_get)
      (parse_then (parse_take 8) (\<lambda>bs. parse_return (Fixed64 (word_of_nat (le_val bs)))))"
    using implements_then [OF implements_fixed(2) implements_return] by (simp only: parse_then_assoc parse_then_return)
  moreover have "implements (pb_then pb_decode_fixed32 (\<lambda>v. pb_return (Fixed32 v)) :: ('s, wire_value) pb_get)
      (parse_then (parse_take 4) (\<lambda>bs. parse_return (Fixed32 (word_of_nat (le_val bs)))))"
    using implements_then [OF implements_fixed(1) implements_return] by (simp only: parse_then_assoc parse_then_return)
  moreover have "implements (pb_then pb_decode_varint (\<lambda>v. pb_return (Varint v)) :: ('s, wire_value) pb_get)
      (parse_then parse_varint (\<lambda>v. parse_return (Varint v)))"
    by (intro implements_intro)
  moreover have "implements (pb_then read_string (\<lambda>v. pb_return (String v)) :: ('s, wire_value) pb_get)
      (parse_then parse_string (\<lambda>v. parse_return (String v)))"
    by (rule implements_then [OF read_string_at implements_return])
  ultimately show ?thesis unfolding read_value_def parse_value_def by (simp split: if_split)
qed

lemmas wire_type_defs = PB_WT_VARINT_def PB_WT_64BIT_def PB_WT_STRING_def PB_WT_32BIT_def

lemma fixed_back:
  "(word_of_nat (le_val (le_bytes 4 (unat (v :: u32)))) :: u32) = v"
  "(word_of_nat (le_val (le_bytes 8 (unat (w :: u64)))) :: u64) = w"
proof -
  have "unat v < 256 ^ 4" "unat w < 256 ^ 8" using unsigned_less [of v] unsigned_less [of w] by simp_all
  then show "(word_of_nat (le_val (le_bytes 4 (unat v))) :: u32) = v" "(word_of_nat (le_val (le_bytes 8 (unat w))) :: u64) = w"
    unfolding le_val_le_bytes by (simp_all only: mod_less of_nat_unat ucast_id)
qed

lemma parse_value_text:
  assumes "value_fits v"
  shows "parse_value (wire_type_of v) (value_text v @ ys) = Some (v, ys)" "parse_skip_field (wire_type_of v) (value_text v @ ys) = Some ((), ys)"
proof -
  have "parse_value (wire_type_of v) (value_text v @ ys) = Some (v, ys) \<and> parse_skip_field (wire_type_of v) (value_text v @ ys) = Some ((), ys)"
  proof (cases v)
    case (String bs)
    then have "parse_varint32 (varint_text (length bs) @ bs @ ys) = Some (word_of_nat (length bs), bs @ ys)"
      "unat (word_of_nat (length bs) :: u32) = length bs"
      using assms parse_varint32_text [of "length bs"] by (simp_all add: unat_of_nat)
    then show ?thesis using String
      by (simp add: parse_value_def parse_skip_field_def wire_type_defs parse_then_def parse_return_def parse_string_def parse_take_def parse_skip_def)
  qed (simp_all add: parse_value_def parse_skip_field_def wire_type_defs parse_then_def parse_return_def parse_take_def parse_skip_def
      parse_varint_text skip_text fixed_back)
  then show "parse_value (wire_type_of v) (value_text v @ ys) = Some (v, ys)" "parse_skip_field (wire_type_of v) (value_text v @ ys) = Some ((), ys)"
    by simp_all
qed

text \<open>
  C39: Fields read back and can be skipped.  A field that is written with a tag from 1 to \<open>2 ^ 29 - 1\<close>, of any wire
  type and with a string of at most \<open>2 ^ 32 - 1\<close> bytes, gives its wire type and tag to \<^verbatim>\<open>pb_decode_tag\<close> on any stream;
  its value is then read back, and \<^verbatim>\<open>pb_skip_field\<close> in its place stops right behind the field as well.
\<close>

theorem wire_field_roundtrip:
  assumes tag: "tag \<noteq> 0" "unat tag < 2 ^ 29" and v: "value_fits v"
    and n: "20 + string_size v \<le> n" "n \<le> length buf" "n < object_bound"
  shows "\<exists>b k. write_field tag v (pb_ostream_from_buffer buf n :: 'o pb_ostream)
        = Some (True, \<lparr>os_sink = Buf_write b k, os_max = n, os_written = k, os_errmsg = None\<rparr>)
    \<and> k \<le> 20 + string_size v \<and> drop k b = drop k buf
    \<and> (\<forall>(s :: 's pb_istream) ys r. stream_at s (take k b @ ys) r \<longrightarrow>
         (\<exists>s'. pb_decode_tag s = Some (Some (wire_type_of v, tag), False, s')
            \<and> reads_to (read_value (wire_type_of v)) s' v ys r \<and> reads_to (pb_skip_field (wire_type_of v)) s' () ys r))"
proof -
  define w where "w = field_text tag v"
  have k: "length w \<le> 20 + string_size v" unfolding w_def by (rule field_text_length [OF v tag(2)])
  have "string_size v < 2 ^ 32" using v by (cases v) simp_all
  from puts_wire_field [OF v tag(2) this] have "puts (write_field tag v :: 'o pb_put) (Puts w)" unfolding w_def .
  from buffer_run [OF this _ n(2,3)] have run: "write_field tag v (pb_ostream_from_buffer buf n :: 'o pb_ostream)
      = Some (True, \<lparr>os_sink = Buf_write (w @ drop (length w) buf) (length w), os_max = n, os_written = length w, os_errmsg = None\<rparr>)"
    using k n(1) by simp
  have "\<exists>s'. pb_decode_tag s = Some (Some (wire_type_of v, tag), False, s')
      \<and> reads_to (read_value (wire_type_of v)) s' v ys r \<and> reads_to (pb_skip_field (wire_type_of v)) s' () ys r"
    if at: "stream_at s (w @ ys) r" for s :: "'s pb_istream" and ys r
  proof -
    have "parse_tag (w @ ys) = (Tag (wire_type_of v) tag, value_text v @ ys)"
      unfolding w_def field_text_def append_assoc by (rule parse_tag_text [OF tag wire_type_less])
    then obtain s' where s': "pb_decode_tag s = Some (Some (wire_type_of v, tag), False, s')" "stream_at s' (value_text v @ ys) r"
      using decode_tag_at [OF at] by auto
    then show ?thesis
      using implements_reads_to(1) [OF implements_value s'(2) parse_value_text(1) [OF v]]
        implements_reads_to(1) [OF implements_skip_field s'(2) parse_value_text(2) [OF v]] by blast
  qed
  then show ?thesis using run k by (intro exI [of _ "w @ drop (length w) buf"] exI [of _ "length w"]) simp
qed

lemma wire_field_roundtrip_witness:
  "\<exists>b k. write_field 5 (String [104, 105]) (pb_ostream_from_buffer (replicate 30 7) 25 :: nat pb_ostream)
        = Some (True, \<lparr>os_sink = Buf_write b k, os_max = 25, os_written = k, os_errmsg = None\<rparr>)
    \<and> (\<forall>ys. \<exists>s'. pb_decode_tag (pb_istream_from_buffer (take k b @ ys) (length (take k b @ ys)) :: nat pb_istream) = Some (Some (2, 5), False, s')
         \<and> reads_to (read_value 2) s' (String [104, 105]) ys [] \<and> reads_to (pb_skip_field 2) s' () ys [])"
proof -
  have at: "stream_at (pb_istream_from_buffer xs (length xs)) xs []" for xs using stream_at_buffer [of xs "[]"] by simp
  have "(5 :: u32) \<noteq> 0" "unat (5 :: u32) < 2 ^ 29" "value_fits (String [104, 105])" "20 + string_size (String [104, 105]) \<le> 25"
    "25 \<le> length (replicate 30 (7 :: u8))" "(25 :: nat) < object_bound" by simp_all
  from wire_field_roundtrip [OF this, where 'o = nat and 's = nat] show ?thesis
    using at by (simp only: wire_type_of.simps PB_WT_STRING_def) blast
qed

section \<open>Messages\<close>

text \<open>
  C38: Encoding a message.  If the structure in memory stands for the string \<open>w\<close> in the wire format (\<open>message_out\<close>), given
  what the callbacks and extension functions of the program put (\<open>ws\<close>), \<^verbatim>\<open>pb_get_encoded_size\<close> gives exactly its length,
  and \<^verbatim>\<open>pb_encode\<close> into a buffer succeeds exactly if it fits; it then wrote \<open>w\<close> and nothing else, and otherwise nothing
  beyond the size it was given.
\<close>

theorem encode_exact:
  assumes ok: "\<And>k. fields_ok (msg_fields env k)" "fields_ok flds" "writers_ok env ws" and w: "message_out d env ws m flds src = Puts w"
    and n: "n \<le> length buf" "n < object_bound"
  shows "pb_get_encoded_size d env m flds src = Some (Some (length w))
    \<and> (if length w \<le> n
       then pb_encode d env m flds src (pb_ostream_from_buffer buf n)
          = Some (True, \<lparr>os_sink = Buf_write (w @ drop (length w) buf) (length w), os_max = n, os_written = length w, os_errmsg = None\<rparr>)
       else \<exists>s b p. pb_encode d env m flds src (pb_ostream_from_buffer buf n) = Some (False, s) \<and> os_sink s = Buf_write b p
          \<and> length b = length buf \<and> drop n b = drop n buf)"
proof -
  have puts: "puts (pb_encode d env m flds src) (Puts w)" using puts_message [OF ok(1,3,2), of d m src] w by simp
  have size: "pb_get_encoded_size d env m flds src = Some (Some (length w))"
    unfolding pb_get_encoded_size_def sizing_run(1) [OF puts] by simp
  have at: "buf_at (pb_ostream_from_buffer buf n) buf 0" using n by (simp add: buf_at_def pb_ostream_from_buffer_def)
  show ?thesis
  proof (cases "length w \<le> n")
    case True
    then show ?thesis using size buffer_run [OF puts True n] by simp
  next
    case False
    then show ?thesis using size putsD(2) [OF puts at]
      by (auto simp: puts_buf_def pb_ostream_from_buffer_def stays_within_def)
  qed
qed

text \<open>
  A number, a string, a submessage with a packed array, two numbers without a flag of which one is zero, and a callback.
\<close>

definition sample_sub :: "pb_field list" where
  "sample_sub = [\<lparr>f_tag = 1, f_type = 0x21, f_data_offset = 4, f_size_offset = - 4, f_data_size = 2, f_array_size = 2, f_ptr = Null_ptr\<rparr>]"

definition sample_fields :: "pb_field list" where
  "sample_fields =
    [\<lparr>f_tag = 1, f_type = 0x12, f_data_offset = 4, f_size_offset = - 4, f_data_size = 4, f_array_size = 0, f_ptr = Null_ptr\<rparr>,
     \<lparr>f_tag = 2, f_type = 0x07, f_data_offset = 0, f_size_offset = 0, f_data_size = 8, f_array_size = 0, f_ptr = Null_ptr\<rparr>,
     \<lparr>f_tag = 3, f_type = 0x08, f_data_offset = 0, f_size_offset = 0, f_data_size = 8, f_array_size = 0, f_ptr = Fields_ptr 0\<rparr>,
     \<lparr>f_tag = 4, f_type = 0x11, f_data_offset = 0, f_size_offset = 0, f_data_size = 4, f_array_size = 0, f_ptr = Null_ptr\<rparr>,
     \<lparr>f_tag = 5, f_type = 0x11, f_data_offset = 0, f_size_offset = 0, f_data_size = 4, f_array_size = 0, f_ptr = Null_ptr\<rparr>,
     \<lparr>f_tag = 6, f_type = 0x52, f_data_offset = 4, f_size_offset = 0, f_data_size = 16, f_array_size = 0, f_ptr = Null_ptr\<rparr>]"

definition sample_env :: "nat pb_env" where
  "sample_env = \<lparr>msg_fields = (\<lambda>_. sample_sub), cb_encode = (\<lambda>_ _ _. pb_write [0x30, 1] 2), ext_encode = (\<lambda>_ _ _. None),
    ext_field = (\<lambda>_. PB_LAST_FIELD)\<rparr>"

definition sample_writers :: pb_writers where
  "sample_writers = \<lparr>callback_out = (\<lambda>_ _ _. Puts [0x30, 1]), extension_out = (\<lambda>_ _. Undefined)\<rparr>"

definition sample_memory :: pbmem where
  "sample_memory = mem_store (\<lambda>_. 0) 100
    [1, 0, 0, 0, 44, 1, 0, 0, 104, 105, 0, 0, 0, 0, 0, 0, 2, 0, 0, 0, 5, 0, 0xFF, 0xFF, 0, 0, 0, 0, 7, 0, 0, 0, 0, 0, 0, 0, 1, 0, 0, 0, 0, 0, 0, 0]"

lemma sample_message: "message_out 2 sample_env sample_writers sample_memory sample_fields 100
    = Puts ([0x08, 0xAC, 0x02, 0x12, 2, 104, 105, 0x1A, 13, 0x0A, 11, 5] @ replicate 9 0xFF @ [1, 0x28, 7, 0x30, 1])"
  by code_simp

lemma encode_exact_witness:
  "pb_get_encoded_size 2 sample_env sample_memory sample_fields 100 = Some (Some 26)
    \<and> (\<exists>s. pb_encode 2 sample_env sample_memory sample_fields 100 (pb_ostream_from_buffer (replicate 30 0) 27) = Some (True, s))"
proof -
  have "fields_ok (msg_fields sample_env k)" for k by (simp add: sample_env_def sample_sub_def fields_ok_def)
  moreover have "fields_ok sample_fields" by (simp add: sample_fields_def fields_ok_def)
  moreover have "writers_ok sample_env sample_writers"
    by (simp add: writers_ok_def sample_env_def sample_writers_def puts_write)
  ultimately show ?thesis using encode_exact [OF _ _ _ sample_message, of 27 "replicate 30 0"] by simp
qed

end
