(* ===== verification/Spec2Isabelle.thy ===== *)
theory Spec2Isabelle
  imports Asn1_Bits Cbb_Tree Unicode Ber_Find Oid Stack_Props Cbs_Time Lhash_Props Base64_Stream Bio_Mem_Props Err_Props Err_String Pb_Props
begin

text \<open>
  A verification development for the C code of the repository.

  The repository is a Flutter application.  Its own logic is Dart and JavaScript; the C that is built into it is
  BoringSSL (\<^verbatim>\<open>src/ios/Pods/BoringSSL-GRPC/src/crypto\<close>, all paths below are relative to it) and the protocol buffer
  runtime nanopb (\<^verbatim>\<open>src/ios/Pods/nanopb\<close>), which its Firebase pods link.  Modelled are the data structures and codecs
  that everything else there is built on.

  How the parts interact.  The byte string library reads and writes DER for every client: a \<^verbatim>\<open>CBS\<close> is parsed from the
  front, a \<^verbatim>\<open>CBB\<close> grows at its end, and the converter of BER, the codecs of characters, object identifiers, times and
  the SET OF writer stand on both.  The containers (stack, hash table) and the I/O objects allocate through \<^verbatim>\<open>mem.c\<close>.  A
  BIO dispatches through a table of methods to a memory BIO, over a \<^verbatim>\<open>BUF_MEM\<close>, or to one end of a pair; reading an ASN.1
  element works on any of them.  Errors are collected per thread in a ring.  In nanopb the encoder walks over the fields
  of a structure in memory and writes to a stream that counts, fills a buffer or calls the program; the decoder reads
  the wire format from the same kinds of streams.

  Where the code is, component by component, in the order the theories build on each other.

  \<^item> Machine and library helpers.  \<open>Prelude\<close> (machine words, \<^verbatim>\<open>size_t\<close> with its wrap-around, byte order),
    \<open>Crypto_Internal\<close> (\<^verbatim>\<open>internal.h\<close>: constant-time selection, loads and stores, rotations), \<open>Mem\<close> and \<open>Mem_String\<close>
    (\<^verbatim>\<open>mem.c\<close>: allocation, comparison, character classes, string functions).  \<^verbatim>\<open>malloc\<close> is a parameter that grants or
    refuses each request.

  \<^item> Parser: \<open>Cbs\<close> is \<^verbatim>\<open>bytestring/cbs.c\<close>; \<open>Codec\<close> states the contract of a writer and a reader (locale \<open>byte_codec\<close>),
    \<open>Der\<close> what DER is as a writer, with the parser proved to accept exactly that, \<open>Asn1_Values\<close> and \<open>Asn1_Bits\<close> the same
    for integers, booleans and bit strings.  A function on \<^verbatim>\<open>CBS *\<close> gives its result and the remaining bytes.

  \<^item> Builder: \<open>Cbb\<close> is \<^verbatim>\<open>bytestring/cbb.c\<close>, with a builder and all its open children as one state \<open>cbb_st\<close> and a handle
    given by its depth; \<open>Cbb_Spec\<close> has the invariant \<open>cbb_wf\<close> and the contract \<open>writes\<close>, \<open>Cbb_Asn1\<close> the ASN.1 writers,
    \<open>Cbb_Tree\<close> whole messages, \<open>Set_Of\<close> the sorting of SET OF (\<^verbatim>\<open>CBB_flush_asn1_set_of\<close>).

  \<^item> Conversions: \<open>Ber\<close> is \<^verbatim>\<open>bytestring/ber.c\<close> and \<^verbatim>\<open>asn1_compat.c\<close>, \<open>Ber_Der\<close> the trees of BER and the form they are
    converted to, \<open>Ber_Find\<close> when that happens at all; \<open>Unicode\<close> is \<^verbatim>\<open>bytestring/unicode.c\<close>; \<open>Oid\<close> the object identifiers of
    \<^verbatim>\<open>cbs.c\<close> and \<^verbatim>\<open>cbb.c\<close>; \<open>Posix_Time\<close> is \<^verbatim>\<open>asn1/posix_time.c\<close> and \<open>Cbs_Time\<close> the time parser of \<^verbatim>\<open>cbs.c\<close>; \<open>Base64\<close>,
    \<open>Base64_Spec\<close> and \<open>Base64_Stream\<close> are \<^verbatim>\<open>base64/base64.c\<close>, its meaning in plain arithmetic, and its streams.

  \<^item> Containers: \<open>Stack\<close>, \<open>Stack_Sort\<close>, \<open>Stack_Props\<close> are \<^verbatim>\<open>stack/stack.c\<close> (record \<open>stack_st\<close>, abstracted by \<open>sk_list\<close>);
    \<open>Lhash\<close>, \<open>Lhash_Map\<close>, \<open>Lhash_Props\<close> are \<^verbatim>\<open>lhash/lhash.c\<close> (abstracted by \<open>lh_map\<close>), items keep their addresses so that
    an iteration that deletes is modelled with its aliasing.

  \<^item> I/O: \<open>Bio\<close> is \<^verbatim>\<open>bio/bio.c\<close> and \<^verbatim>\<open>refcount.c\<close> over a store of objects; \<open>Buf\<close> \<^verbatim>\<open>buf/buf.c\<close>; \<open>Bio_Pair\<close> \<^verbatim>\<open>bio/pair.c\<close>;
    \<open>Bio_Mem\<close> \<^verbatim>\<open>bio/bio_mem.c\<close>; \<open>Bio_Asn1\<close> the element reader of \<^verbatim>\<open>bio.c\<close>.  \<open>Bio_Ring\<close>, \<open>Bio_Channel\<close> and
    \<open>Bio_Pair_Props\<close> show that a pair is two bounded queues, \<open>Bio_Queue\<close> and \<open>Bio_Mem_Props\<close> that a memory BIO is one.

  \<^item> Errors: \<open>Err\<close>, \<open>Err_Queue\<close>, \<open>Err_Props\<close> are the queue of \<^verbatim>\<open>err/err.c\<close>, \<open>Err_String\<close> the printed forms.

  \<^item> nanopb: \<open>Pb_Read\<close> and \<open>Pb_Write\<close> are the streams and the readers and writers of the wire format
    (\<^verbatim>\<open>pb_decode.c\<close>, \<^verbatim>\<open>pb_encode.c\<close>), \<open>Pb_Field\<close> the field descriptors and their iterator (\<^verbatim>\<open>pb.h\<close>, \<^verbatim>\<open>pb_common.c\<close>),
    \<open>Pb_Encode\<close> the encoder of structures.  \<open>Pb_Wire\<close> (readers as functions on the bytes a stream delivers),
    \<open>Pb_Varint\<close> (integers in base 128), \<open>Pb_Emit\<close> (what a writer puts), \<open>Pb_Spec\<close> and \<open>Pb_Message\<close> (what a structure in
    memory stands for, without the code that encodes it) lead to \<open>Pb_Props\<close>.
\<close>

text \<open>
  What the lemmas show.  Parsers are exact: they accept the encodings that an independent writer produces, and nothing
  else, and leave what follows.  Builders append exactly the bytes of what is written or set a flag that no further
  write gets past.  Containers, queues and rings refine lists, maps and bounded queues, for every run of calls, with
  allocations that fail at any point.  Streams do not depend on how their input is cut.  Values read back as they were
  written.  Specifications are definitions of their own: the order of SET OF is an order
  on octet strings of its own, base64 is plain arithmetic, the wire format of a structure is told from numbers and
  strings in memory and the layout rules of the descriptors.

  Contracts are locales, each interpreted on the model: \<open>byte_codec\<close> and \<open>byte_codec_nonempty\<close> (writers and readers, for
  the sized integers, length-prefixed strings, DER elements and values, characters), \<open>comparator\<close> (the laws of a
  comparison function, for SET OF), \<open>pointer_seq\<close> (insertion and deletion, for the stack), \<open>keyed_store\<close> (a store under
  keys, for the hash table), \<open>byte_source\<close> (a BIO that delivers bytes, for the memory BIO and an end of a pair).

  Effects.  A result that the C code reports by a return value is an option or a pair with a flag.  In \<open>Bio\<close>, \<open>Mem_String\<close>,
  \<open>Err\<close> and nanopb an outer \<open>None\<close> means that the call does not return or touches memory it must not; that it does not
  happen is part of the properties.

  Bounds and fuel.  The converter of BER recurses to \<open>kMaxDepth = 128\<close> as the code does; its properties ask for a message
  nested no deeper.  Pieces given to the base64 streams have at most \<open>2 ^ 30\<close> bytes for the encoder and \<open>2 ^ 29\<close> for the
  decoder, as the lengths of the output are C integers.  Sizes of BIO buffers are below \<open>2 ^ 63\<close>, and what is
  written to a memory BIO is at most \<open>2 ^ 61\<close> bytes, more than any object can have.  The error ring has sixteen slots
  and holds fifteen errors.  \<open>pb_encode\<close> is given the depth of messages within messages it may reach; the wire format is
  \<open>Undefined\<close> beyond it, so a property about a message holds for every depth that is enough for it.  The C code has no
  such limit and recurses with the data.  Objects of nanopb are smaller than \<open>object_bound = 2 ^ 63\<close>.

  Parameters.  \<^verbatim>\<open>malloc\<close>, the comparison and hash functions of the containers, the methods of BIOs defined by the
  program, \<^verbatim>\<open>strerror\<close>, \<^verbatim>\<open>vasprintf\<close>, the generated tables of error names, and the callbacks and extension functions of
  nanopb, which are said to write what a record \<open>pb_writers\<close> tells, the same when the size is counted as when it is
  written.  The C library's \<^verbatim>\<open>qsort\<close>, \<^verbatim>\<open>bsearch\<close> and \<^verbatim>\<open>memcpy\<close> are definitions; the lookup of error names is a search in a
  table that is sorted and has no key twice.

  Not modelled: cryptographic primitives, the ASN.1 templates and X.509 on top of them, TLS and gRPC (C++), platform
  support, \<^verbatim>\<open>pb_decode\<close> into a structure (it allocates and follows the same descriptors), functions that only free
  memory or format through \<^verbatim>\<open>printf\<close>, atomic counters with more than one thread, and the Dart, Swift and JavaScript
  of the application.

  Where the code and its documentation differ.  The time parser adds the offset of a zone that is ahead of UTC
  (\<^verbatim>\<open>cbs.c\<close>, line 881) - no value is claimed for such texts.  \<^verbatim>\<open>OPENSSL_sk_set\<close> keeps the sorted flag, so that a binary
  search can miss an entry afterwards.  An ASN.1 element read from a BIO is refused above \<open>INT_MAX\<close> and, with an
  indefinite length, at exactly the limit.  A line read from an empty memory BIO has no bytes and sets no retry flag.
  \<^verbatim>\<open>pb_decode_varint32\<close> accepts some numbers that do not fit 32 bits.  The properties are stated so that they hold of a
  repaired version too.
\<close>

end
